(* ===== verification/Prelude.thy ===== *)
theory Prelude
  imports Main "HOL-Library.Word" "HOL-Library.Multiset"
begin

text \<open>
  Shared vocabulary of the development: the machine types of the C sources, the value a
  failed \<open>assert\<close> or an invalid memory access takes, the arithmetic of the circular
  buffers that \<open>skynet_mq.c\<close>, \<open>lua-netpack.c\<close> and \<open>lua-websocketnetpack.c\<close> all use, and
  the interface locale \<open>fifo\<close> of a first-in first-out queue with its client lemmas.
\<close>

unbundle bit_operations_syntax

section \<open>Machine types\<close>

type_synonym u8 = "8 word"
type_synonym u32 = "32 word"
type_synonym u64 = "64 word"
type_synonym c_int = "32 word" \<comment> \<open>a C int, read with sint\<close>
type_synonym bytes = "u8 list"

section \<open>Faults\<close>

text \<open>
  What the C program does by aborting or by undefined behaviour is a value of the model:
  an \<open>assert\<close> that fails (tagged by the function it stands in), a dereference of an
  address that holds no live object, an access outside an array.
\<close>

datatype fault =
    Assert_fail string
  | Bad_pointer string
  | Out_of_bounds string
  | Uninitialised string \<comment> \<open>a buffer is read that was never written\<close>
  | Out_of_memory string \<comment> \<open>an allocation that cannot succeed aborts the process\<close>
  | Exit_process string \<comment> \<open>the program calls exit\<close>

type_synonym 'a res = "fault + 'a"

definition res_bind :: "'a res \<Rightarrow> ('a \<Rightarrow> 'b res) \<Rightarrow> 'b res" where
  "res_bind m f = (case m of Inl e \<Rightarrow> Inl e | Inr x \<Rightarrow> f x)"

definition res_assert :: "string \<Rightarrow> bool \<Rightarrow> 'a res \<Rightarrow> 'a res" where
  "res_assert tag b m = (if b then m else Inl (Assert_fail tag))"

definition res_deref :: "string \<Rightarrow> 'a option \<Rightarrow> ('a \<Rightarrow> 'b res) \<Rightarrow> 'b res" where
  "res_deref tag p f = (case p of None \<Rightarrow> Inl (Bad_pointer tag) | Some x \<Rightarrow> f x)"

text \<open>A computation that may fault or not return at all (\<open>None\<close>).\<close>

type_synonym 'a run = "'a res option"

definition run_bind :: "'a run \<Rightarrow> ('a \<Rightarrow> 'b run) \<Rightarrow> 'b run" where
  "run_bind m f = (case m of None \<Rightarrow> None | Some (Inl e) \<Rightarrow> Some (Inl e) | Some (Inr x) \<Rightarrow> f x)"

named_theorems res_simps \<open>evaluation of fault-valued code\<close>
named_theorems res_splits \<open>inversion of fault-valued code that returned\<close>

section \<open>Circular buffers\<close>

text \<open>The number of used slots, as \<open>skynet_mq_length\<close> computes it.\<close>

definition ring_len :: "nat \<Rightarrow> nat \<Rightarrow> nat \<Rightarrow> nat" where
  "ring_len c h t = (if h \<le> t then t - h else t + c - h)"

definition ring_next :: "nat \<Rightarrow> nat \<Rightarrow> nat" where
  "ring_next c i = (if Suc i \<ge> c then 0 else Suc i)"

text \<open>\<open>n\<close> consecutive slots from \<open>h\<close> on, wrapping at the end of the array.\<close>

definition ring_slice :: "'a list \<Rightarrow> nat \<Rightarrow> nat \<Rightarrow> 'a list" where
  "ring_slice xs h n = map (\<lambda>i. xs ! ((h + i) mod length xs)) [0..<n]"

section \<open>Sequences of queue operations\<close>

datatype 'a qop = Enq 'a | Deq

fun run_queue :: "('a \<Rightarrow> 'q \<Rightarrow> 'q) \<Rightarrow> ('q \<Rightarrow> 'a option \<times> 'q) \<Rightarrow> 'q \<Rightarrow> 'a qop list \<Rightarrow> 'a option list \<times> 'q"
where
  "run_queue e d q [] = ([], q)"
| "run_queue e d q (Enq x # ops) = run_queue e d (e x q) ops"
| "run_queue e d q (Deq # ops) =
     (let (r, q') = d q; (rs, q'') = run_queue e d q' ops in (r # rs, q''))"

text \<open>The specification: the same operations on a list.\<close>

fun list_deq :: "'a list \<Rightarrow> 'a option \<times> 'a list" where
  "list_deq [] = (None, [])"
| "list_deq (x # xs) = (Some x, xs)"

definition run_list :: "'a list \<Rightarrow> 'a qop list \<Rightarrow> 'a option list \<times> 'a list" where
  "run_list = run_queue (\<lambda>x xs. xs @ [x]) list_deq"

primrec enqueued :: "'a qop list \<Rightarrow> 'a list" where
  "enqueued [] = []"
| "enqueued (o1 # ops) = (case o1 of Enq x \<Rightarrow> x # enqueued ops | Deq \<Rightarrow> enqueued ops)"

text \<open>The values a sequence of dequeues delivered.\<close>

primrec delivered :: "'a option list \<Rightarrow> 'a list" where
  "delivered [] = []"
| "delivered (r # rs) = (case r of None \<Rightarrow> delivered rs | Some x \<Rightarrow> x # delivered rs)"

section \<open>Lemmas on faults\<close>

lemma res_bind_simps [simp, res_simps]:
  "res_bind (Inl e) f = Inl e" "res_bind (Inr x) f = f x"
  by (simp_all add: res_bind_def)

lemma res_assert_simps [simp, res_simps]:
  "res_assert t True m = m" "res_assert t False m = Inl (Assert_fail t)"
  by (simp_all add: res_assert_def)

lemma res_deref_simps [simp, res_simps]:
  "res_deref t None f = Inl (Bad_pointer t)" "res_deref t (Some x) f = f x"
  by (simp_all add: res_deref_def)

lemma run_bind_simps [simp, res_simps]:
  "run_bind None f = None" "run_bind (Some (Inl e)) f = Some (Inl e)" "run_bind (Some (Inr x)) f = f x"
  by (simp_all add: run_bind_def)

lemma res_bind_Inr [res_splits]:
  "res_bind m f = Inr y \<longleftrightarrow> (\<exists>x. m = Inr x \<and> f x = Inr y)"
  by (cases m) simp_all

lemma res_assert_Inr [res_splits]: "res_assert t b m = Inr y \<longleftrightarrow> b \<and> m = Inr y"
  by (simp add: res_assert_def)

lemma res_deref_Inr [res_splits]:
  "res_deref t p f = Inr y \<longleftrightarrow> (\<exists>x. p = Some x \<and> f x = Inr y)"
  by (cases p) simp_all

section \<open>Lemmas on words\<close>

lemma unat_u32_lt: "unat (w :: u32) < 4294967296"
  by (rule order_less_le_trans [OF unsigned_less]) simp

lemma unat_u8_lt: "unat (w :: u8) < 256"
  by (rule order_less_le_trans [OF unsigned_less]) simp

lemma take_bit_unat_u32 [simp]: "take_bit 32 (unat (w :: u32)) = unat w"
  using unat_u32_lt [of w] by (simp add: take_bit_nat_eq_self)

lemma unat_and_mask: "unat (w AND mask k) = unat w mod 2 ^ k" for w :: "'a :: len word"
  unfolding take_bit_eq_mask [symmetric] unsigned_take_bit_eq by (rule take_bit_eq_mod)

lemma unat_drop: "unat (drop_bit k w) = unat w div 2 ^ k" for w :: "'a :: len word"
  unfolding unat_drop_bit_eq by (rule drop_bit_eq_div)

lemma mod_mod_pow2: "k \<le> m \<Longrightarrow> (a :: nat) mod 2 ^ m mod 2 ^ k = a mod 2 ^ k"
  by (simp add: mod_mod_cancel le_imp_power_dvd)

lemma and_15: "(w :: 'a :: len word) AND 0xf = take_bit 4 w"
  and and_63: "(w :: 'a :: len word) AND 0x3f = take_bit 6 w"
  and and_255: "(w :: 'a :: len word) AND 0xff = take_bit 8 w"
  and and_3: "(w :: 'a :: len word) AND 3 = take_bit 2 w"
  by (simp_all add: take_bit_eq_mask mask_eq_exp_minus_1)

lemmas and_masks = and_3 and_15 and_63 and_255

lemma byte_of_count:
  assumes "i < 4"
  shows "ucast (drop_bit (i * 8) (of_nat x :: u32) AND 255) = (of_nat (x div 256 ^ i) :: u8)"
proof -
  have "x mod 2 ^ 32 div 256 ^ i mod 256 = x div 256 ^ i mod 256"
    using assms div_exp_mod_exp_eq [of x "8 * i" 8] div_exp_mod_exp_eq [of "x mod 2 ^ 32" "8 * i" 8]
      mod_mod_cancel [OF le_imp_power_dvd [of "8 * i + 8" 32 2], of x]
    by (simp add: power_mult)
  then show ?thesis
    unfolding and_masks word_unat_eq_iff unsigned_ucast_eq unsigned_take_bit_eq unsigned_drop_bit_eq unat_of_nat
    using power_mult [of "2 :: nat" 8 i] by (simp add: take_bit_eq_mod drop_bit_eq_div mult.commute)
qed

section \<open>Lemmas on circular buffers\<close>

lemma length_ring_slice [simp]: "length (ring_slice xs h n) = n"
  by (simp add: ring_slice_def)

lemma ring_slice_0 [simp]: "ring_slice xs h 0 = []"
  by (simp add: ring_slice_def)

lemma ring_next_less: "i < c \<Longrightarrow> ring_next c i < c"
  by (auto simp: ring_next_def)

lemma ring_next_mod: "i < c \<Longrightarrow> ring_next c i = Suc i mod c"
  by (auto simp: ring_next_def mod_Suc)

lemma ring_len_less: "h < c \<Longrightarrow> t < c \<Longrightarrow> ring_len c h t < c"
  by (auto simp: ring_len_def)

lemma ring_len_eq_0: "h < c \<Longrightarrow> t < c \<Longrightarrow> ring_len c h t = 0 \<longleftrightarrow> h = t"
  by (auto simp: ring_len_def)

lemma ring_tail_mod: "h < c \<Longrightarrow> t < c \<Longrightarrow> (h + ring_len c h t) mod c = t"
  by (auto simp: ring_len_def)

lemma ring_len_next_tail:
  "h < c \<Longrightarrow> t < c \<Longrightarrow> ring_next c t \<noteq> h \<Longrightarrow> ring_len c h (ring_next c t) = Suc (ring_len c h t)"
  by (auto simp: ring_len_def ring_next_def)

lemma ring_len_next_tail_full:
  "h < c \<Longrightarrow> t < c \<Longrightarrow> ring_next c t = h \<Longrightarrow> Suc (ring_len c h t) = c"
  by (auto simp: ring_len_def ring_next_def split: if_splits)

lemma ring_len_next_head:
  "h < c \<Longrightarrow> t < c \<Longrightarrow> h \<noteq> t \<Longrightarrow> ring_len c h t = Suc (ring_len c (ring_next c h) t)"
  by (auto simp: ring_len_def ring_next_def split: if_splits)

lemma ring_slice_Suc: "ring_slice xs h (Suc n) = ring_slice xs h n @ [xs ! ((h + n) mod length xs)]"
  by (simp add: ring_slice_def)

lemma ring_slice_Cons:
  "h < length xs \<Longrightarrow> ring_slice xs h (Suc n) = xs ! h # ring_slice xs (ring_next (length xs) h) n"
proof -
  assume h: "h < length xs"
  have "(h + Suc i) mod length xs = (ring_next (length xs) h + i) mod length xs" for i
    using h by (simp add: ring_next_mod mod_add_left_eq)
  then show ?thesis
    using h unfolding ring_slice_def map_upt_Suc by simp
qed

lemma mod_add_less: "a < c \<Longrightarrow> b < c \<Longrightarrow> (a + b) mod c = (if a + b < c then a + b else a + b - c)"
  for a b c :: nat
  by (simp add: mod_if)

text \<open>Writing the slot at the tail does not disturb the slots in use.\<close>

lemma ring_slice_update_tail:
  assumes "h < length xs" "t < length xs" "t = (h + n) mod length xs" "n < length xs"
  shows "ring_slice (xs[t := x]) h n = ring_slice xs h n"
proof -
  have "t \<noteq> (h + i) mod length xs" if "i < n" for i
    using that assms by (auto simp: mod_add_less split: if_splits)
  then show ?thesis by (auto simp: ring_slice_def)
qed

lemma ring_push_slice:
  assumes "h < length xs" "t < length xs"
  shows "ring_slice (xs[t := x]) h (Suc (ring_len (length xs) h t)) =
         ring_slice xs h (ring_len (length xs) h t) @ [x]"
  using assms ring_tail_mod [OF assms] ring_len_less [OF assms]
  by (simp add: ring_slice_Suc ring_slice_update_tail)

lemma ring_slice_prefix: "ring_slice (xs @ ys) 0 (length xs) = xs"
proof (rule nth_equalityI)
  fix i assume "i < length (ring_slice (xs @ ys) 0 (length xs))"
  then have "i < length xs" by simp
  then show "ring_slice (xs @ ys) 0 (length xs) ! i = xs ! i"
    by (simp add: ring_slice_def nth_append)
qed simp

lemma ring_slice_full: "map (\<lambda>i. xs ! ((h + i) mod length xs)) [0..<length xs] = ring_slice xs h (length xs)"
  by (simp add: ring_slice_def)

lemma count_list_distinct: "distinct xs \<Longrightarrow> a \<in> set xs \<Longrightarrow> count_list xs a = 1"
  by (induction xs) (auto simp: count_list_0_iff)

section \<open>The interface of a first-in first-out queue\<close>

lemma run_list_simps [simp]:
  "run_list xs [] = ([], xs)"
  "run_list xs (Enq x # ops) = run_list (xs @ [x]) ops"
  "run_list [] (Deq # ops) = (None # fst (run_list [] ops), snd (run_list [] ops))"
  "run_list (x # xs) (Deq # ops) = (Some x # fst (run_list xs ops), snd (run_list xs ops))"
  by (simp_all add: run_list_def split: prod.splits)

lemma run_list_conserves:
  "delivered (fst (run_list xs ops)) @ snd (run_list xs ops) = xs @ enqueued ops"
proof (induction ops arbitrary: xs)
  case (Cons o1 ops)
  then show ?case
    by (cases o1; cases xs) (simp_all add: append_assoc [symmetric] del: append_assoc)
qed simp

locale fifo =
  fixes abs :: "'q \<Rightarrow> 'a list"
    and invar :: "'q \<Rightarrow> bool"
    and enq :: "'a \<Rightarrow> 'q \<Rightarrow> 'q"
    and deq :: "'q \<Rightarrow> 'a option \<times> 'q"
  assumes abs_enq: "invar q \<Longrightarrow> abs (enq x q) = abs q @ [x]"
    and invar_enq: "invar q \<Longrightarrow> invar (enq x q)"
    and deq_empty: "invar q \<Longrightarrow> abs q = [] \<Longrightarrow> fst (deq q) = None"
    and abs_deq: "invar q \<Longrightarrow> abs (snd (deq q)) = tl (abs q)"
    and deq_first: "invar q \<Longrightarrow> abs q \<noteq> [] \<Longrightarrow> fst (deq q) = Some (hd (abs q))"
    and invar_deq: "invar q \<Longrightarrow> invar (snd (deq q))"
begin

lemma deq_eq: "invar q \<Longrightarrow> fst (deq q) = fst (list_deq (abs q)) \<and> abs (snd (deq q)) = snd (list_deq (abs q))"
  by (cases "abs q") (simp_all add: deq_empty deq_first abs_deq)

lemma run_refines:
  assumes "invar q"
  shows "fst (run_queue enq deq q ops) = fst (run_list (abs q) ops) \<and>
         abs (snd (run_queue enq deq q ops)) = snd (run_list (abs q) ops) \<and>
         invar (snd (run_queue enq deq q ops))"
  using assms
proof (induction ops arbitrary: q)
  case (Cons o1 ops)
  show ?case
  proof (cases o1)
    case (Enq x)
    with Cons.IH [of "enq x q"] Cons.prems show ?thesis
      by (simp add: abs_enq invar_enq)
  next
    case Deq
    with Cons.IH [of "snd (deq q)"] Cons.prems show ?thesis
      using deq_eq [OF Cons.prems] invar_deq [OF Cons.prems]
      by (cases "abs q") (auto split: prod.splits)
  qed
qed simp

lemma run_conserves:
  assumes "invar q"
  shows "delivered (fst (run_queue enq deq q ops)) @ abs (snd (run_queue enq deq q ops)) =
         abs q @ enqueued ops"
  using run_refines [OF assms, of ops] by (simp add: run_list_conserves)

end

section \<open>The interface of a table of identifiers\<close>

text \<open>
  The registries of the program (service handles, socket ids of the gate, unfinished
  packages per connection) all promise the same: looking an identifier up, and removing it
  without disturbing the others.
\<close>

fun del_all :: "('k \<Rightarrow> 's \<Rightarrow> 's) \<Rightarrow> 'k list \<Rightarrow> 's \<Rightarrow> 's" where
  "del_all d [] s = s"
| "del_all d (k # ks) s = del_all d ks (d k s)"

locale id_table =
  fixes invar :: "'s \<Rightarrow> bool"
    and look :: "'s \<Rightarrow> 'k \<Rightarrow> 'v option"
    and del :: "'k \<Rightarrow> 's \<Rightarrow> 's"
  assumes invar_del: "invar s \<Longrightarrow> invar (del k s)"
    and look_del: "invar s \<Longrightarrow> look (del k s) = (look s)(k := None)"
begin

lemma look_del_same: "invar s \<Longrightarrow> look (del k s) k = None"
  by (simp add: look_del)

lemma look_del_other: "invar s \<Longrightarrow> k' \<noteq> k \<Longrightarrow> look (del k s) k' = look s k'"
  by (simp add: look_del)

lemma look_del_idem: "invar s \<Longrightarrow> look (del k (del k s)) = look (del k s)"
  by (simp add: look_del invar_del)

lemma look_del_all: "invar s \<Longrightarrow> look (del_all del ks s) = (look s) |` (- set ks)"
proof (induction ks arbitrary: s)
  case (Cons k ks)
  then show ?case
    by (auto simp: invar_del look_del restrict_map_def fun_eq_iff)
qed (simp add: restrict_map_def)

lemma invar_del_all: "invar s \<Longrightarrow> invar (del_all del ks s)"
  by (induction ks arbitrary: s) (simp_all add: invar_del)

end

section \<open>Big-endian numbers\<close>

lemma be_word2:
  fixes a b :: u8
  shows "uint (push_bit 8 (ucast a) OR ucast b :: 32 word) = 256 * uint a + uint b"
proof -
  have "(push_bit 8 (ucast a) OR ucast b :: 32 word) = push_bit 8 (ucast a) + ucast b"
    by (rule disjunctive_add [symmetric]) (auto simp: bit_simps dest!: bit_imp_le_length)
  also have "uint (push_bit 8 (ucast a) + ucast b :: 32 word) = 256 * uint a + uint b"
    using uint_lt2p [of a] uint_lt2p [of b]
    by (simp add: unsigned_push_bit_eq unsigned_ucast_eq uint_word_ariths push_bit_eq_mult take_bit_eq_mod)
  finally show ?thesis .
qed

lemma be_word4:
  fixes a b c d :: u8
  shows "uint (push_bit 24 (ucast a) OR push_bit 16 (ucast b) OR push_bit 8 (ucast c) OR ucast d :: 32 word) =
    16777216 * uint a + 65536 * uint b + 256 * uint c + uint d"
proof -
  have 1: "(push_bit 24 (ucast a) OR push_bit 16 (ucast b) OR push_bit 8 (ucast c) OR ucast d :: 32 word) =
      push_bit 24 (ucast a) + (push_bit 16 (ucast b) OR push_bit 8 (ucast c) OR ucast d)"
    by (rule disjunctive_add [symmetric]) (auto simp: bit_simps dest!: bit_imp_le_length)
  have 2: "(push_bit 16 (ucast b) OR push_bit 8 (ucast c) OR ucast d :: 32 word) =
      push_bit 16 (ucast b) + (push_bit 8 (ucast c) OR ucast d)"
    by (rule disjunctive_add [symmetric]) (auto simp: bit_simps dest!: bit_imp_le_length)
  show ?thesis unfolding 1 unfolding 2
    using uint_lt2p [of a] uint_lt2p [of b] uint_lt2p [of c] uint_lt2p [of d]
    by (simp add: unsigned_push_bit_eq unsigned_ucast_eq uint_word_ariths push_bit_eq_mult take_bit_eq_mod
        be_word2 [simplified push_bit_eq_mult, simplified])
qed

lemma signed_take_bit_31:
  fixes v :: int
  assumes "0 \<le> v" "v < 2 ^ 32"
  shows "signed_take_bit 31 v = (if v < 2 ^ 31 then v else v - 2 ^ 32)"
proof (cases "v < 2 ^ 31")
  case True
  then show ?thesis using assms(1) by (simp add: signed_take_bit_eq_take_bit_shift take_bit_eq_mod)
next
  case False
  then have "(v + 2 ^ 31) mod 2 ^ 32 = v - 2 ^ 31"
    using assms(2) mod_pos_pos_trivial [of "v - 2 ^ 31" "2 ^ 32"] mod_add_self2 [of "v - 2 ^ 31" "2 ^ 32"]
    by (simp add: add.commute)
  with False show ?thesis by (simp add: signed_take_bit_eq_take_bit_shift take_bit_eq_mod)
qed

section \<open>Sums over lists\<close>

text \<open>What an update of one element does to a sum.\<close>

lemma sum_list_upd:
  fixes f :: "'a \<Rightarrow> 'b :: comm_monoid_add"
  shows "j < length rs \<Longrightarrow> (\<Sum>r\<leftarrow>rs[j := x]. f r) + f (rs ! j) = (\<Sum>r\<leftarrow>rs. f r) + f x"
proof (induction rs arbitrary: j)
  case (Cons r rs)
  show ?case
  proof (cases j)
    case (Suc i)
    then show ?thesis using Cons.IH [of i] Cons.prems by (simp add: add.assoc)
  qed (simp add: ac_simps)
qed simp

end
