(* ===== verification/SocketServer.thy ===== *)
theory SocketServer
  imports Prelude
begin

text \<open>
  The socket server, \<open>skynet-src/socket_server.c\<close>: the table of sockets, the control pipe, the write buffers
  of a socket with two priorities, and the loop that turns commands and events into messages. The
  operating system is an argument: what the system calls of one iteration answer is a record \<open>os\<close>, and
  the calls that have an effect are logged. A list of answers to \<open>write\<close> or \<open>sendto\<close> that runs out goes on
  with EAGAIN. Requests in the pipe are values of a datatype, since the pipe is local and a request is
  written and read in one piece. The lists of write buffers are HOL lists; the code keeps a pointer to
  their last element. Texts that the code only prints are left out. The size of a read and the sizes of
  buffers are natural numbers; the code doubles an int, which would overflow after a read of 1 GB.
\<close>

section \<open>Data\<close>

datatype socket_type =
  SOCKET_TYPE_INVALID | SOCKET_TYPE_RESERVE | SOCKET_TYPE_PLISTEN | SOCKET_TYPE_LISTEN | SOCKET_TYPE_CONNECTING
| SOCKET_TYPE_CONNECTED | SOCKET_TYPE_HALFCLOSE | SOCKET_TYPE_PACCEPT | SOCKET_TYPE_BIND

datatype protocol = PROTOCOL_TCP | PROTOCOL_UDP | PROTOCOL_UDPv6

datatype priority = PRIORITY_HIGH | PRIORITY_LOW

datatype socket_event =
  SOCKET_DATA | SOCKET_CLOSE | SOCKET_OPEN | SOCKET_ACCEPT | SOCKET_ERR | SOCKET_EXIT | SOCKET_UDP | SOCKET_WARNING

definition MAX_SOCKET :: nat where "MAX_SOCKET = 65536"
definition MIN_READ_BUFFER :: nat where "MIN_READ_BUFFER = 64"
definition WARNING_SIZE :: int where "WARNING_SIZE = 1024 * 1024"

definition HASH_ID :: "int \<Rightarrow> nat" where
  "HASH_ID sid = unat (of_int sid :: u32) mod MAX_SOCKET"

text \<open>
  What is sent: a block of memory with its address, or (size below zero) an object of the registered
  interface with its address, the address of its data and the data.
\<close>

datatype sbuf = Plain nat bytes | Object nat nat bytes

fun sbuf_addr :: "sbuf \<Rightarrow> nat" where
  "sbuf_addr (Plain a d) = a" | "sbuf_addr (Object a p d) = a"

record send_object =
  so_buffer :: nat
  so_data :: bytes

record write_buffer =
  wb_buffer :: sbuf
  wb_start :: nat \<comment> \<open>the address where the data begins\<close>
  wb_ptr :: nat \<comment> \<open>how far \<open>ptr\<close> is behind it\<close>
  wb_data :: bytes
  wb_sz :: nat
  wb_udp_address :: bytes

record socket =
  s_opaque :: nat
  s_high :: "write_buffer list"
  s_low :: "write_buffer list"
  s_wb_size :: int
  s_fd :: int
  s_id :: int
  s_protocol :: protocol
  s_type :: socket_type
  s_warn_size :: int
  s_size :: nat \<comment> \<open>member of the union p, used for TCP\<close>
  s_udp_address :: bytes \<comment> \<open>member of the union p, used for UDP\<close>

record event =
  ev_s :: "nat option"
  ev_read :: bool
  ev_write :: bool

datatype sm_data = No_data | Text string | Peer bytes | Data bytes

record socket_message =
  sm_id :: int
  sm_opaque :: nat
  sm_ud :: int
  sm_data :: sm_data

datatype request =
  Req_start int nat
| Req_bind int int nat
| Req_listen int int nat
| Req_close int bool nat
| Req_open int int nat string
| Req_exit
| Req_send priority int sbuf
| Req_send_udp int sbuf bytes
| Req_setudp int bytes
| Req_setopt int int int
| Req_udp int int bool nat \<comment> \<open>the flag is \<open>family == AF_INET6\<close>\<close>

datatype os_call =
  Sys_write int bytes \<comment> \<open>the bytes that the system took\<close>
| Sys_sendto int bytes bytes
| Sys_close int
| Sys_setsockopt int int int
| Sp_add int
| Sp_del int
| Sp_write int bool
| Free_buffer sbuf

record socket_server =
  ss_alloc_id :: u32
  ss_checkctrl :: bool
  ss_ev :: "event list"
  ss_event_index :: nat
  ss_slot :: "nat \<Rightarrow> socket"
  ss_pipe :: "request list"
  ss_soi :: bool \<comment> \<open>an object interface is registered\<close>
  ss_calls :: "os_call list"

section \<open>Answers of the operating system\<close>

datatype write_answer = Took nat | W_EINTR | W_EAGAIN | W_error
datatype sendto_answer = Sent nat | S_again | S_error
datatype read_answer = Got bytes | R_EINTR | R_EAGAIN | R_error string
datatype sockaddr = SA_v4 bytes bytes | SA_v6 bytes bytes \<comment> \<open>port and address\<close>
datatype recv_answer = Recv bytes sockaddr | Rv_again | Rv_error string
datatype connect_answer = No_socket | Conn_ok int "bytes option" | Conn_progress int | Conn_error int
datatype addr_answer = Gai_error string | Addresses "connect_answer list"
datatype accept_answer = Accepted int "bytes option" | Accept_limit string | Accept_error
datatype wait_answer = Events "event list" | Wait_EINTR | Wait_error

record os =
  os_write :: "write_answer list"
  os_sendto :: "sendto_answer list"
  os_add :: bool \<comment> \<open>\<open>sp_add\<close> succeeds\<close>
  os_addr :: addr_answer
  os_errno :: string
  os_read :: read_answer
  os_recv :: recv_answer
  os_connect :: "string option" \<comment> \<open>the error \<open>getsockopt\<close> reports\<close>
  os_peer :: "bytes option" \<comment> \<open>what \<open>getpeername\<close> and \<open>inet_ntop\<close> give\<close>
  os_accept :: accept_answer
  os_wait :: wait_answer

section \<open>Slots and buffers\<close>

definition log_calls :: "os_call list \<Rightarrow> socket_server \<Rightarrow> socket_server" where
  "log_calls cs ss = ss\<lparr>ss_calls := ss_calls ss @ cs\<rparr>"

definition upd_slot :: "nat \<Rightarrow> (socket \<Rightarrow> socket) \<Rightarrow> socket_server \<Rightarrow> socket_server" where
  "upd_slot i f ss = ss\<lparr>ss_slot := (ss_slot ss)(i := f (ss_slot ss i))\<rparr>"

definition send_object_init :: "bool \<Rightarrow> sbuf \<Rightarrow> send_object res" where
  "send_object_init soi buf =
     (case buf of
        Plain a d \<Rightarrow> Inr \<lparr>so_buffer = a, so_data = d\<rparr>
      | Object a p d \<Rightarrow> if soi then Inr \<lparr>so_buffer = p, so_data = d\<rparr> else Inl (Bad_pointer ''soi''))"

text \<open>\<open>reserve_id\<close>; another thread that takes the slot in between makes the code try again.\<close>

fun reserve_loop :: "nat \<Rightarrow> socket_server \<Rightarrow> int \<times> socket_server" where
  "reserve_loop 0 ss = (-1, ss)"
| "reserve_loop (Suc n) ss =
     (let inc = ss_alloc_id ss + 1;
          w = (if sint inc < 0 then inc AND 0x7fffffff else inc);
          ss = ss\<lparr>ss_alloc_id := w\<rparr>;
          sid = sint w
      in if s_type (ss_slot ss (HASH_ID sid)) = SOCKET_TYPE_INVALID then
           (sid, upd_slot (HASH_ID sid) (\<lambda>s. s\<lparr>s_type := SOCKET_TYPE_RESERVE, s_id := sid, s_fd := -1\<rparr>) ss)
         else reserve_loop n ss)"

definition reserve_id :: "socket_server \<Rightarrow> int \<times> socket_server" where
  "reserve_id ss = reserve_loop MAX_SOCKET ss"

text \<open>The memory of the slots is not cleared; \<open>junk\<close> is what it holds.\<close>

definition socket_server_create :: "(nat \<Rightarrow> socket) \<Rightarrow> socket_server" where
  "socket_server_create junk =
     \<lparr>ss_alloc_id = 0, ss_checkctrl = True, ss_ev = [], ss_event_index = 0,
      ss_slot = (\<lambda>i. (junk i)\<lparr>s_type := SOCKET_TYPE_INVALID, s_high := [], s_low := []\<rparr>),
      ss_pipe = [], ss_soi = False, ss_calls = []\<rparr>"

definition free_wb_list :: "write_buffer list \<Rightarrow> os_call list" where
  "free_wb_list list = map (\<lambda>wb. Free_buffer (wb_buffer wb)) list"

definition close_calls :: "socket \<Rightarrow> os_call list" where
  "close_calls s =
     free_wb_list (s_high s) @ free_wb_list (s_low s) @
     (if s_type s \<noteq> SOCKET_TYPE_PACCEPT \<and> s_type s \<noteq> SOCKET_TYPE_PLISTEN then [Sp_del (s_fd s)] else []) @
     (if s_type s \<noteq> SOCKET_TYPE_BIND then [Sys_close (s_fd s)] else [])"

definition force_close :: "nat \<Rightarrow> socket_server \<Rightarrow> (socket_message \<times> socket_server) res" where
  "force_close i ss =
     (let s = ss_slot ss i;
          result = \<lparr>sm_id = s_id s, sm_opaque = s_opaque s, sm_ud = 0, sm_data = No_data\<rparr>
      in if s_type s = SOCKET_TYPE_INVALID then Inr (result, ss)
         else res_assert ''force_close'' (s_type s \<noteq> SOCKET_TYPE_RESERVE)
           (Inr (result,
              upd_slot i (\<lambda>s. s\<lparr>s_high := [], s_low := [], s_type := SOCKET_TYPE_INVALID\<rparr>) (log_calls (close_calls s) ss))))"

fun release_loop :: "nat list \<Rightarrow> socket_server \<Rightarrow> socket_server res" where
  "release_loop [] ss = Inr ss"
| "release_loop (i # is) ss =
     (if s_type (ss_slot ss i) \<noteq> SOCKET_TYPE_RESERVE then
        res_bind (force_close i ss) (\<lambda>(_, ss). release_loop is ss)
      else release_loop is ss)"

definition socket_server_release :: "socket_server \<Rightarrow> socket_server res" where
  "socket_server_release ss = release_loop [0..<MAX_SOCKET] ss"

text \<open>\<open>new_fd\<close>; the socket is \<open>None\<close> when \<open>sp_add\<close> fails.\<close>

definition new_fd :: "int \<Rightarrow> int \<Rightarrow> protocol \<Rightarrow> nat \<Rightarrow> bool \<Rightarrow> os \<Rightarrow> socket_server \<Rightarrow> (bool \<times> socket_server) res" where
  "new_fd sid fd prot opaque add k ss =
     (let i = HASH_ID sid; s = ss_slot ss i in
      res_assert ''new_fd'' (s_type s = SOCKET_TYPE_RESERVE)
        (if add \<and> \<not> os_add k then
           Inr (False, upd_slot i (\<lambda>s. s\<lparr>s_type := SOCKET_TYPE_INVALID\<rparr>) ss)
         else
           let ss = (if add then log_calls [Sp_add fd] ss else ss);
               ss = upd_slot i (\<lambda>s. s\<lparr>s_id := sid, s_fd := fd, s_protocol := prot, s_size := MIN_READ_BUFFER,
                      s_opaque := opaque, s_wb_size := 0, s_warn_size := 0\<rparr>) ss
           in res_assert ''check_wb_list'' (s_high s = [] \<and> s_low s = []) (Inr (True, ss))))"

section \<open>Opening\<close>

text \<open>The loop over the addresses: the socket with its answer, and the sockets that were closed on the way.\<close>

fun connect_loop :: "connect_answer list \<Rightarrow> connect_answer \<times> os_call list" where
  "connect_loop [] = (No_socket, [])"
| "connect_loop (No_socket # as) = connect_loop as"
| "connect_loop (Conn_error fd # as) = (let (a, cs) = connect_loop as in (a, Sys_close fd # cs))"
| "connect_loop (a # as) = (a, [])"

definition peer_data :: "bytes option \<Rightarrow> sm_data" where
  "peer_data p = (case p of None \<Rightarrow> No_data | Some b \<Rightarrow> Peer b)"

definition open_failed :: "int \<Rightarrow> socket_message \<Rightarrow> string \<Rightarrow> socket_server \<Rightarrow> (socket_event option \<times> socket_message \<times> socket_server) res" where
  "open_failed sid result err ss =
     Inr (Some SOCKET_ERR, result\<lparr>sm_data := Text err\<rparr>, upd_slot (HASH_ID sid) (\<lambda>s. s\<lparr>s_type := SOCKET_TYPE_INVALID\<rparr>) ss)"

definition open_socket :: "int \<Rightarrow> nat \<Rightarrow> os \<Rightarrow> socket_server \<Rightarrow> (socket_event option \<times> socket_message \<times> socket_server) res" where
  "open_socket sid opaque k ss =
     (let result = \<lparr>sm_id = sid, sm_opaque = opaque, sm_ud = 0, sm_data = No_data\<rparr> in
      case os_addr k of
        Gai_error e \<Rightarrow> open_failed sid result e ss
      | Addresses as \<Rightarrow>
          let (a, cs) = connect_loop as; ss = log_calls cs ss in
          (case a of
             Conn_ok fd peer \<Rightarrow>
               res_bind (new_fd sid fd PROTOCOL_TCP opaque True k ss) (\<lambda>(ns, ss).
                 if \<not> ns then open_failed sid result ''reach skynet socket number limit'' (log_calls [Sys_close fd] ss)
                 else Inr (Some SOCKET_OPEN, result\<lparr>sm_data := peer_data peer\<rparr>,
                   upd_slot (HASH_ID sid) (\<lambda>s. s\<lparr>s_type := SOCKET_TYPE_CONNECTED\<rparr>) ss))
           | Conn_progress fd \<Rightarrow>
               res_bind (new_fd sid fd PROTOCOL_TCP opaque True k ss) (\<lambda>(ns, ss).
                 if \<not> ns then open_failed sid result ''reach skynet socket number limit'' (log_calls [Sys_close fd] ss)
                 else Inr (None, result,
                   log_calls [Sp_write fd True] (upd_slot (HASH_ID sid) (\<lambda>s. s\<lparr>s_type := SOCKET_TYPE_CONNECTING\<rparr>) ss)))
           | _ \<Rightarrow> open_failed sid result (os_errno k) ss))"

section \<open>Sending\<close>

text \<open>
  The loop of \<open>send_list_tcp\<close>: the list that is left, the answers that are left, the calls made, how much
  was written, and whether \<open>write\<close> failed.
\<close>

fun send_loop_tcp :: "int \<Rightarrow> write_answer list \<Rightarrow> write_buffer list \<Rightarrow>
    write_buffer list \<times> write_answer list \<times> os_call list \<times> nat \<times> bool" where
  "send_loop_tcp fd ws [] = ([], ws, [], 0, False)"
| "send_loop_tcp fd [] (tmp # list) = (tmp # list, [], [], 0, False)"
| "send_loop_tcp fd (W_EINTR # ws) (tmp # list) = send_loop_tcp fd ws (tmp # list)"
| "send_loop_tcp fd (W_EAGAIN # ws) (tmp # list) = (tmp # list, ws, [], 0, False)"
| "send_loop_tcp fd (W_error # ws) (tmp # list) = (tmp # list, ws, [], 0, True)"
| "send_loop_tcp fd (Took n # ws) (tmp # list) =
     (let sz = min n (wb_sz tmp);
          call = Sys_write fd (take sz (drop (wb_ptr tmp) (wb_data tmp)))
      in if sz \<noteq> wb_sz tmp then
           (tmp\<lparr>wb_ptr := wb_ptr tmp + sz, wb_sz := wb_sz tmp - sz\<rparr> # list, ws, [call], sz, False)
         else
           let (list', ws', calls, total, failed) = send_loop_tcp fd ws list
           in (list', ws', call # Free_buffer (wb_buffer tmp) # calls, sz + total, failed))"

definition get_list :: "bool \<Rightarrow> socket \<Rightarrow> write_buffer list" where
  "get_list high s = (if high then s_high s else s_low s)"

definition set_list :: "bool \<Rightarrow> write_buffer list \<Rightarrow> socket \<Rightarrow> socket" where
  "set_list high l s = (if high then s\<lparr>s_high := l\<rparr> else s\<lparr>s_low := l\<rparr>)"

type_synonym handled = "socket_event option \<times> socket_message \<times> socket_server"

definition send_list_tcp :: "nat \<Rightarrow> bool \<Rightarrow> os \<Rightarrow> socket_message \<Rightarrow> socket_server \<Rightarrow> (handled \<times> os) res" where
  "send_list_tcp i high k result ss =
     (let s = ss_slot ss i;
          (list, ws, calls, total, failed) = send_loop_tcp (s_fd s) (os_write k) (get_list high s);
          k = k\<lparr>os_write := ws\<rparr>;
          ss = log_calls calls (upd_slot i (\<lambda>s. set_list high list (s\<lparr>s_wb_size := s_wb_size s - int total\<rparr>)) ss)
      in if failed then res_bind (force_close i ss) (\<lambda>(result, ss). Inr ((Some SOCKET_CLOSE, result, ss), k))
         else Inr ((None, result, ss), k))"

definition protocol_byte :: "protocol \<Rightarrow> u8" where
  "protocol_byte p = (case p of PROTOCOL_TCP \<Rightarrow> 0 | PROTOCOL_UDP \<Rightarrow> 1 | PROTOCOL_UDPv6 \<Rightarrow> 2)"

text \<open>The address for \<open>sendto\<close>; \<open>None\<close> is the length 0.\<close>

definition udp_socket_address :: "protocol \<Rightarrow> bytes \<Rightarrow> sockaddr option" where
  "udp_socket_address prot a =
     (if hd a \<noteq> protocol_byte prot then None
      else case prot of
        PROTOCOL_UDP \<Rightarrow> Some (SA_v4 (take 2 (drop 1 a)) (take 4 (drop 3 a)))
      | PROTOCOL_UDPv6 \<Rightarrow> Some (SA_v6 (take 2 (drop 1 a)) (take 16 (drop 3 a)))
      | PROTOCOL_TCP \<Rightarrow> None)"

definition sockaddr_bytes :: "sockaddr option \<Rightarrow> bytes" where
  "sockaddr_bytes a = (case a of None \<Rightarrow> [] | Some (SA_v4 p x) \<Rightarrow> p @ x | Some (SA_v6 p x) \<Rightarrow> p @ x)"

fun send_loop_udp :: "int \<Rightarrow> protocol \<Rightarrow> sendto_answer list \<Rightarrow> write_buffer list \<Rightarrow>
    write_buffer list \<times> sendto_answer list \<times> os_call list \<times> nat" where
  "send_loop_udp fd prot ws [] = ([], ws, [], 0)"
| "send_loop_udp fd prot [] (tmp # list) = (tmp # list, [], [], 0)"
| "send_loop_udp fd prot (S_again # ws) (tmp # list) = (tmp # list, ws, [], 0)"
| "send_loop_udp fd prot (S_error # ws) (tmp # list) = (tmp # list, ws, [], 0)"
| "send_loop_udp fd prot (Sent n # ws) (tmp # list) =
     (let (list', ws', calls, total) = send_loop_udp fd prot ws list
      in (list', ws',
          Sys_sendto fd (wb_data tmp) (sockaddr_bytes (udp_socket_address prot (wb_udp_address tmp))) #
            Free_buffer (wb_buffer tmp) # calls, wb_sz tmp + total))"

definition send_list_udp :: "nat \<Rightarrow> bool \<Rightarrow> os \<Rightarrow> socket_message \<Rightarrow> socket_server \<Rightarrow> (handled \<times> os) res" where
  "send_list_udp i high k result ss =
     (let s = ss_slot ss i;
          (list, ws, calls, total) = send_loop_udp (s_fd s) (s_protocol s) (os_sendto k) (get_list high s)
      in Inr ((None, result,
           log_calls calls (upd_slot i (\<lambda>s. set_list high list (s\<lparr>s_wb_size := s_wb_size s - int total\<rparr>)) ss)),
           k\<lparr>os_sendto := ws\<rparr>))"

definition send_list :: "nat \<Rightarrow> bool \<Rightarrow> os \<Rightarrow> socket_message \<Rightarrow> socket_server \<Rightarrow> (handled \<times> os) res" where
  "send_list i high k result ss =
     (if s_protocol (ss_slot ss i) = PROTOCOL_TCP then send_list_tcp i high k result ss
      else send_list_udp i high k result ss)"

definition list_uncomplete :: "write_buffer list \<Rightarrow> bool" where
  "list_uncomplete l = (case l of [] \<Rightarrow> False | wb # _ \<Rightarrow> wb_start wb + wb_ptr wb \<noteq> sbuf_addr (wb_buffer wb))"

definition raise_uncomplete :: "nat \<Rightarrow> socket_server \<Rightarrow> socket_server res" where
  "raise_uncomplete i ss =
     (let s = ss_slot ss i in
      res_assert ''raise_uncomplete'' (s_high s = [])
        (Inr (upd_slot i (\<lambda>s. s\<lparr>s_low := tl (s_low s), s_high := [hd (s_low s)]\<rparr>) ss)))"

definition send_buffer_empty :: "socket \<Rightarrow> bool" where
  "send_buffer_empty s = (s_high s = [] \<and> s_low s = [])"

definition socket_result :: "socket \<Rightarrow> int \<Rightarrow> sm_data \<Rightarrow> socket_message" where
  "socket_result s ud d = \<lparr>sm_id = s_id s, sm_opaque = s_opaque s, sm_ud = ud, sm_data = d\<rparr>"

text \<open>Step 4 of \<open>send_buffer\<close>.\<close>

definition send_finish :: "nat \<Rightarrow> socket_message \<Rightarrow> socket_server \<Rightarrow> handled res" where
  "send_finish i result ss =
     (let s = ss_slot ss i in
      res_assert ''send_buffer'' (send_buffer_empty s \<and> s_wb_size s = 0)
        (let ss = log_calls [Sp_write (s_fd s) False] ss in
         if s_type s = SOCKET_TYPE_HALFCLOSE then
           res_bind (force_close i ss) (\<lambda>(result, ss). Inr (Some SOCKET_CLOSE, result, ss))
         else if s_warn_size s > 0 then
           Inr (Some SOCKET_WARNING, socket_result s 0 No_data, upd_slot i (\<lambda>s. s\<lparr>s_warn_size := 0\<rparr>) ss)
         else Inr (None, result, ss)))"

definition send_buffer :: "nat \<Rightarrow> os \<Rightarrow> socket_message \<Rightarrow> socket_server \<Rightarrow> handled res" where
  "send_buffer i k result ss =
     res_assert ''send_buffer'' (\<not> list_uncomplete (s_low (ss_slot ss i)))
       (res_bind (send_list i True k result ss) (\<lambda>((ty, result, ss), k).
          if ty = Some SOCKET_CLOSE then Inr (Some SOCKET_CLOSE, result, ss)
          else if s_high (ss_slot ss i) = [] then
            if s_low (ss_slot ss i) \<noteq> [] then
              res_bind (send_list i False k result ss) (\<lambda>((ty, result, ss), k).
                if ty = Some SOCKET_CLOSE then Inr (Some SOCKET_CLOSE, result, ss)
                else if list_uncomplete (s_low (ss_slot ss i)) then
                  res_bind (raise_uncomplete i ss) (\<lambda>ss. Inr (None, result, ss))
                else send_finish i result ss)
            else send_finish i result ss
          else Inr (None, result, ss)))"

text \<open>The write buffer of \<open>append_sendbuffer_\<close>, of which \<open>n\<close> bytes are sent already.\<close>

definition new_wb :: "send_object \<Rightarrow> sbuf \<Rightarrow> nat \<Rightarrow> bytes \<Rightarrow> write_buffer" where
  "new_wb so buf n udp =
     \<lparr>wb_buffer = buf, wb_start = so_buffer so, wb_ptr = n, wb_data = so_data so, wb_sz = length (so_data so) - n,
      wb_udp_address = udp\<rparr>"

definition append_sendbuffer :: "nat \<Rightarrow> bool \<Rightarrow> write_buffer \<Rightarrow> socket_server \<Rightarrow> socket_server" where
  "append_sendbuffer i high wb ss =
     upd_slot i (\<lambda>s. set_list high (get_list high s @ [wb]) (s\<lparr>s_wb_size := s_wb_size s + int (wb_sz wb)\<rparr>)) ss"

definition warning_check :: "nat \<Rightarrow> socket_message \<Rightarrow> socket_server \<Rightarrow> handled" where
  "warning_check i result ss =
     (let s = ss_slot ss i in
      if s_wb_size s \<ge> WARNING_SIZE \<and> s_wb_size s \<ge> s_warn_size s then
        (Some SOCKET_WARNING,
         socket_result s (if s_wb_size s mod 1024 = 0 then s_wb_size s div 1024 else s_wb_size s div 1024 + 1) No_data,
         upd_slot i (\<lambda>s. s\<lparr>s_warn_size := (if s_warn_size s = 0 then WARNING_SIZE * 2 else s_warn_size s * 2)\<rparr>) ss)
      else (None, result, ss))"

text \<open>The write that \<open>send_socket\<close> tries at once: \<open>None\<close> is an error.\<close>

definition direct_write :: "os \<Rightarrow> nat \<Rightarrow> nat option" where
  "direct_write k sz =
     (case os_write k of Took n # _ \<Rightarrow> Some (min n sz) | W_error # _ \<Rightarrow> None | _ \<Rightarrow> Some 0)"

definition send_socket :: "int \<Rightarrow> sbuf \<Rightarrow> priority \<Rightarrow> bytes option \<Rightarrow> os \<Rightarrow> socket_message \<Rightarrow> socket_server \<Rightarrow> handled res" where
  "send_socket sid buf prio udp k result ss =
     (let i = HASH_ID sid; s = ss_slot ss i in
      res_bind (send_object_init (ss_soi ss) buf) (\<lambda>so.
        if s_type s \<in> {SOCKET_TYPE_INVALID, SOCKET_TYPE_HALFCLOSE, SOCKET_TYPE_PACCEPT} \<or> s_id s \<noteq> sid then
          Inr (None, result, log_calls [Free_buffer buf] ss)
        else if s_type s \<in> {SOCKET_TYPE_PLISTEN, SOCKET_TYPE_LISTEN} then
          Inr (None, result, log_calls [Free_buffer buf] ss)
        else
          let sz = length (so_data so); addr = (case udp of None \<Rightarrow> s_udp_address s | Some a \<Rightarrow> a) in
          if send_buffer_empty s \<and> s_type s = SOCKET_TYPE_CONNECTED then
            if s_protocol s = PROTOCOL_TCP then
              case direct_write k sz of
                None \<Rightarrow> res_bind (force_close i ss) (\<lambda>(result, ss). Inr (Some SOCKET_CLOSE, result, log_calls [Free_buffer buf] ss))
              | Some n \<Rightarrow>
                  let ss = log_calls [Sys_write (s_fd s) (take n (so_data so))] ss in
                  if n = sz then Inr (None, result, log_calls [Free_buffer buf] ss)
                  else Inr (warning_check i result
                    (log_calls [Sp_write (s_fd s) True] (append_sendbuffer i True (new_wb so buf n []) ss)))
            else if (case os_sendto k of Sent n # _ \<Rightarrow> n = sz | _ \<Rightarrow> False) then
              Inr (None, result, log_calls
                [Sys_sendto (s_fd s) (so_data so) (sockaddr_bytes (udp_socket_address (s_protocol s) addr)), Free_buffer buf] ss)
            else Inr (warning_check i result
              (log_calls [Sp_write (s_fd s) True] (append_sendbuffer i (prio = PRIORITY_HIGH) (new_wb so buf 0 addr) ss)))
          else if s_protocol s = PROTOCOL_TCP then
            Inr (warning_check i result (append_sendbuffer i (prio = PRIORITY_HIGH) (new_wb so buf 0 []) ss))
          else
            Inr (warning_check i result (append_sendbuffer i (prio = PRIORITY_HIGH) (new_wb so buf 0 addr) ss))))"

section \<open>The other commands\<close>

text \<open>\<open>new_fd\<close> without \<open>add\<close> never fails, so \<open>listen_socket\<close> never takes its branch \<open>_failed\<close>.\<close>

definition listen_socket :: "int \<Rightarrow> int \<Rightarrow> nat \<Rightarrow> os \<Rightarrow> socket_message \<Rightarrow> socket_server \<Rightarrow> handled res" where
  "listen_socket sid fd opaque k result ss =
     res_bind (new_fd sid fd PROTOCOL_TCP opaque False k ss) (\<lambda>(ns, ss).
       if ns then Inr (None, result, upd_slot (HASH_ID sid) (\<lambda>s. s\<lparr>s_type := SOCKET_TYPE_PLISTEN\<rparr>) ss)
       else open_failed sid \<lparr>sm_id = sid, sm_opaque = opaque, sm_ud = 0, sm_data = No_data\<rparr>
         ''reach skynet socket number limit'' (log_calls [Sys_close fd] ss))"

definition close_socket :: "int \<Rightarrow> bool \<Rightarrow> nat \<Rightarrow> os \<Rightarrow> socket_message \<Rightarrow> socket_server \<Rightarrow> handled res" where
  "close_socket sid shutdown opaque k result ss =
     (let i = HASH_ID sid; s = ss_slot ss i in
      if s_type s = SOCKET_TYPE_INVALID \<or> s_id s \<noteq> sid then
        Inr (Some SOCKET_CLOSE, \<lparr>sm_id = sid, sm_opaque = opaque, sm_ud = 0, sm_data = No_data\<rparr>, ss)
      else
        res_bind (if \<not> send_buffer_empty s then send_buffer i k result ss else Inr (None, result, ss)) (\<lambda>(ty, result, ss).
          if ty \<noteq> None \<and> ty \<noteq> Some SOCKET_WARNING then Inr (ty, result, ss)
          else if shutdown \<or> send_buffer_empty (ss_slot ss i) then
            res_bind (force_close i ss) (\<lambda>(result, ss).
              Inr (Some SOCKET_CLOSE, result\<lparr>sm_id := sid, sm_opaque := opaque\<rparr>, ss))
          else Inr (None, result, upd_slot i (\<lambda>s. s\<lparr>s_type := SOCKET_TYPE_HALFCLOSE\<rparr>) ss)))"

definition bind_socket :: "int \<Rightarrow> int \<Rightarrow> nat \<Rightarrow> os \<Rightarrow> socket_server \<Rightarrow> handled res" where
  "bind_socket sid fd opaque k ss =
     (let result = \<lparr>sm_id = sid, sm_opaque = opaque, sm_ud = 0, sm_data = No_data\<rparr> in
      res_bind (new_fd sid fd PROTOCOL_TCP opaque True k ss) (\<lambda>(ns, ss).
        if \<not> ns then Inr (Some SOCKET_ERR, result\<lparr>sm_data := Text ''reach skynet socket number limit''\<rparr>, ss)
        else Inr (Some SOCKET_OPEN, result\<lparr>sm_data := Text ''binding''\<rparr>,
          upd_slot (HASH_ID sid) (\<lambda>s. s\<lparr>s_type := SOCKET_TYPE_BIND\<rparr>) ss)))"

definition start_socket :: "int \<Rightarrow> nat \<Rightarrow> os \<Rightarrow> socket_server \<Rightarrow> handled res" where
  "start_socket sid opaque k ss =
     (let result = \<lparr>sm_id = sid, sm_opaque = opaque, sm_ud = 0, sm_data = No_data\<rparr>;
          i = HASH_ID sid; s = ss_slot ss i
      in if s_type s = SOCKET_TYPE_INVALID \<or> s_id s \<noteq> sid then
           Inr (Some SOCKET_ERR, result\<lparr>sm_data := Text ''invalid socket''\<rparr>, ss)
         else if s_type s = SOCKET_TYPE_PACCEPT \<or> s_type s = SOCKET_TYPE_PLISTEN then
           if \<not> os_add k then
             res_bind (force_close i ss) (\<lambda>(result, ss). Inr (Some SOCKET_ERR, result\<lparr>sm_data := Text (os_errno k)\<rparr>, ss))
           else
             Inr (Some SOCKET_OPEN, result\<lparr>sm_data := Text ''start''\<rparr>,
               upd_slot i (\<lambda>s. s\<lparr>s_type := (if s_type s = SOCKET_TYPE_PACCEPT then SOCKET_TYPE_CONNECTED else SOCKET_TYPE_LISTEN),
                   s_opaque := opaque\<rparr>) (log_calls [Sp_add (s_fd s)] ss))
         else if s_type s = SOCKET_TYPE_CONNECTED then
           Inr (Some SOCKET_OPEN, result\<lparr>sm_data := Text ''transfer''\<rparr>, upd_slot i (\<lambda>s. s\<lparr>s_opaque := opaque\<rparr>) ss)
         else Inr (None, result, ss))"

definition setopt_socket :: "int \<Rightarrow> int \<Rightarrow> int \<Rightarrow> socket_server \<Rightarrow> socket_server" where
  "setopt_socket sid what v ss =
     (let s = ss_slot ss (HASH_ID sid) in
      if s_type s = SOCKET_TYPE_INVALID \<or> s_id s \<noteq> sid then ss else log_calls [Sys_setsockopt (s_fd s) what v] ss)"

definition add_udp_socket :: "int \<Rightarrow> int \<Rightarrow> bool \<Rightarrow> nat \<Rightarrow> os \<Rightarrow> socket_server \<Rightarrow> socket_server res" where
  "add_udp_socket sid fd v6 opaque k ss =
     res_bind (new_fd sid fd (if v6 then PROTOCOL_UDPv6 else PROTOCOL_UDP) opaque True k ss) (\<lambda>(ns, ss).
       if \<not> ns then Inr (upd_slot (HASH_ID sid) (\<lambda>s. s\<lparr>s_type := SOCKET_TYPE_INVALID\<rparr>) (log_calls [Sys_close fd] ss))
       else Inr (upd_slot (HASH_ID sid) (\<lambda>s. s\<lparr>s_type := SOCKET_TYPE_CONNECTED, s_udp_address := replicate 19 0\<rparr>) ss))"

definition set_udp_address :: "int \<Rightarrow> bytes \<Rightarrow> socket_message \<Rightarrow> socket_server \<Rightarrow> handled" where
  "set_udp_address sid address result ss =
     (let i = HASH_ID sid; s = ss_slot ss i in
      if s_type s = SOCKET_TYPE_INVALID \<or> s_id s \<noteq> sid then (None, result, ss)
      else if hd address \<noteq> protocol_byte (s_protocol s) then
        (Some SOCKET_ERR, socket_result s 0 (Text ''protocol mismatch''), ss)
      else
        let n = (if hd address = protocol_byte PROTOCOL_UDP then 1 + 2 + 4 else 1 + 2 + 16)
        in (None, result, upd_slot i (\<lambda>s. s\<lparr>s_udp_address := take n address @ drop n (s_udp_address s)\<rparr>) ss))"

definition ctrl_cmd :: "os \<Rightarrow> socket_message \<Rightarrow> socket_server \<Rightarrow> handled res" where
  "ctrl_cmd k result ss =
     (let ss' = ss\<lparr>ss_pipe := tl (ss_pipe ss)\<rparr> in
      case hd (ss_pipe ss) of
        Req_start sid opaque \<Rightarrow> start_socket sid opaque k ss'
      | Req_bind sid fd opaque \<Rightarrow> bind_socket sid fd opaque k ss'
      | Req_listen sid fd opaque \<Rightarrow> listen_socket sid fd opaque k result ss'
      | Req_close sid shutdown opaque \<Rightarrow> close_socket sid shutdown opaque k result ss'
      | Req_open sid port opaque host \<Rightarrow> open_socket sid opaque k ss'
      | Req_exit \<Rightarrow> Inr (Some SOCKET_EXIT, \<lparr>sm_id = 0, sm_opaque = 0, sm_ud = 0, sm_data = No_data\<rparr>, ss')
      | Req_send prio sid buf \<Rightarrow> send_socket sid buf prio None k result ss'
      | Req_send_udp sid buf address \<Rightarrow> send_socket sid buf PRIORITY_HIGH (Some address) k result ss'
      | Req_setudp sid address \<Rightarrow> Inr (set_udp_address sid address result ss')
      | Req_setopt sid what v \<Rightarrow> Inr (None, result, setopt_socket sid what v ss')
      | Req_udp sid fd v6 opaque \<Rightarrow> res_bind (add_udp_socket sid fd v6 opaque k ss') (\<lambda>ss. Inr (None, result, ss)))"

section \<open>Events\<close>

definition forward_message_tcp :: "nat \<Rightarrow> os \<Rightarrow> socket_message \<Rightarrow> socket_server \<Rightarrow> handled res" where
  "forward_message_tcp i k result ss =
     (let s = ss_slot ss i; sz = s_size s in
      case os_read k of
        R_EINTR \<Rightarrow> Inr (None, result, ss)
      | R_EAGAIN \<Rightarrow> Inr (None, result, ss)
      | R_error e \<Rightarrow> res_bind (force_close i ss) (\<lambda>(result, ss). Inr (Some SOCKET_ERR, result\<lparr>sm_data := Text e\<rparr>, ss))
      | Got b \<Rightarrow>
          let buffer = take sz b; n = length buffer in
          if n = 0 then res_bind (force_close i ss) (\<lambda>(result, ss). Inr (Some SOCKET_CLOSE, result, ss))
          else if s_type s = SOCKET_TYPE_HALFCLOSE then Inr (None, result, ss)
          else
            let sz' = (if n = sz then sz * 2 else if sz > MIN_READ_BUFFER \<and> n * 2 < sz then sz div 2 else sz)
            in Inr (Some SOCKET_DATA, socket_result s (int n) (Data buffer), upd_slot i (\<lambda>s. s\<lparr>s_size := sz'\<rparr>) ss))"

definition gen_udp_address :: "sockaddr \<Rightarrow> bytes" where
  "gen_udp_address sa =
     (case sa of
        SA_v4 port x \<Rightarrow> protocol_byte PROTOCOL_UDP # port @ x
      | SA_v6 port x \<Rightarrow> protocol_byte PROTOCOL_UDPv6 # port @ x)"

definition forward_message_udp :: "nat \<Rightarrow> os \<Rightarrow> socket_message \<Rightarrow> socket_server \<Rightarrow> handled res" where
  "forward_message_udp i k result ss =
     (let s = ss_slot ss i in
      case os_recv k of
        Rv_again \<Rightarrow> Inr (None, result, ss)
      | Rv_error e \<Rightarrow> res_bind (force_close i ss) (\<lambda>(result, ss). Inr (Some SOCKET_ERR, result\<lparr>sm_data := Text e\<rparr>, ss))
      | Recv b sa \<Rightarrow>
          let b = take 65535 b in
          if s_protocol s \<noteq> (case sa of SA_v4 _ _ \<Rightarrow> PROTOCOL_UDP | SA_v6 _ _ \<Rightarrow> PROTOCOL_UDPv6) then Inr (None, result, ss)
          else Inr (Some SOCKET_UDP, socket_result s (int (length b)) (Data (b @ gen_udp_address sa)), ss))"

definition report_connect :: "nat \<Rightarrow> os \<Rightarrow> socket_server \<Rightarrow> handled res" where
  "report_connect i k ss =
     (case os_connect k of
        Some e \<Rightarrow> res_bind (force_close i ss) (\<lambda>(result, ss). Inr (Some SOCKET_ERR, result\<lparr>sm_data := Text e\<rparr>, ss))
      | None \<Rightarrow>
          let ss = upd_slot i (\<lambda>s. s\<lparr>s_type := SOCKET_TYPE_CONNECTED\<rparr>) ss; s = ss_slot ss i;
              ss = (if send_buffer_empty s then log_calls [Sp_write (s_fd s) False] ss else ss)
          in Inr (Some SOCKET_OPEN, socket_result s 0 (peer_data (os_peer k)), ss))"

text \<open>The first component is the return value.\<close>

definition report_accept :: "nat \<Rightarrow> os \<Rightarrow> socket_message \<Rightarrow> socket_server \<Rightarrow> (int \<times> socket_message \<times> socket_server) res" where
  "report_accept i k result ss =
     (let s = ss_slot ss i in
      case os_accept k of
        Accept_limit e \<Rightarrow> Inr (-1, socket_result s 0 (Text e), ss)
      | Accept_error \<Rightarrow> Inr (0, result, ss)
      | Accepted fd peer \<Rightarrow>
          let (sid, ss) = reserve_id ss in
          if sid < 0 then Inr (0, result, log_calls [Sys_close fd] ss)
          else
            res_bind (new_fd sid fd PROTOCOL_TCP (s_opaque s) False k ss) (\<lambda>(ns, ss).
              if \<not> ns then Inr (0, result, log_calls [Sys_close fd] ss)
              else Inr (1, socket_result s sid (peer_data peer),
                upd_slot (HASH_ID sid) (\<lambda>s. s\<lparr>s_type := SOCKET_TYPE_PACCEPT\<rparr>) ss)))"

fun clear_event :: "(nat \<Rightarrow> socket) \<Rightarrow> int \<Rightarrow> event list \<Rightarrow> event list" where
  "clear_event slot sid [] = []"
| "clear_event slot sid (e # es) =
     (case ev_s e of
        Some i \<Rightarrow> if s_type (slot i) = SOCKET_TYPE_INVALID \<and> s_id (slot i) = sid then e\<lparr>ev_s := None\<rparr> # es
                  else e # clear_event slot sid es
      | None \<Rightarrow> e # clear_event slot sid es)"

definition clear_closed_event :: "socket_message \<Rightarrow> socket_event \<Rightarrow> socket_server \<Rightarrow> socket_server" where
  "clear_closed_event result ty ss =
     (if ty = SOCKET_CLOSE \<or> ty = SOCKET_ERR then
        ss\<lparr>ss_ev := take (ss_event_index ss) (ss_ev ss) @
             clear_event (ss_slot ss) (sm_id result) (drop (ss_event_index ss) (ss_ev ss))\<rparr>
      else ss)"

text \<open>One iteration of \<open>socket_server_poll\<close>: it goes on, or returns a type (\<open>None\<close> is -1).\<close>

datatype poll_result = Continue | Return "socket_event option"

text \<open>An event that is neither of a connecting nor of a listening socket.\<close>

definition poll_transfer :: "nat \<Rightarrow> event \<Rightarrow> os \<Rightarrow> socket_message \<Rightarrow> socket_server \<Rightarrow> (poll_result \<times> socket_message \<times> socket_server) res" where
  "poll_transfer i e k result ss =
     (let idx = ss_event_index ss - 1;
          ret = (\<lambda>(ty, result, ss). Inr (if ty = None then Continue else Return ty, result, ss)) in
      if ev_read e then
        res_bind (if s_protocol (ss_slot ss i) = PROTOCOL_TCP then forward_message_tcp i k result ss
                  else forward_message_udp i k result ss) (\<lambda>(ty, result, ss).
          if ty = Some SOCKET_UDP then Inr (Return ty, result, ss\<lparr>ss_event_index := idx\<rparr>)
          else if ev_write e \<and> ty \<noteq> Some SOCKET_CLOSE \<and> ty \<noteq> Some SOCKET_ERR then
            ret (ty, result, ss\<lparr>ss_ev := (ss_ev ss)[idx := e\<lparr>ev_read := False\<rparr>], ss_event_index := idx\<rparr>)
          else ret (ty, result, ss))
      else if ev_write e then res_bind (send_buffer i k result ss) ret
      else Inr (Continue, result, ss))"

definition poll_event :: "os \<Rightarrow> socket_message \<Rightarrow> socket_server \<Rightarrow> (poll_result \<times> socket_message \<times> socket_server) res" where
  "poll_event k result ss =
     (let e = ss_ev ss ! ss_event_index ss;
          ss = ss\<lparr>ss_event_index := ss_event_index ss + 1\<rparr>
      in case ev_s e of
           None \<Rightarrow> Inr (Continue, result, ss)
         | Some i \<Rightarrow>
             (case s_type (ss_slot ss i) of
                SOCKET_TYPE_CONNECTING \<Rightarrow> res_bind (report_connect i k ss) (\<lambda>(ty, result, ss). Inr (Return ty, result, ss))
              | SOCKET_TYPE_LISTEN \<Rightarrow>
                  res_bind (report_accept i k result ss) (\<lambda>(ok, result, ss).
                    Inr (if ok > 0 then Return (Some SOCKET_ACCEPT) else if ok < 0 then Return (Some SOCKET_ERR) else Continue,
                         result, ss))
              | SOCKET_TYPE_INVALID \<Rightarrow> Inr (Continue, result, ss)
              | _ \<Rightarrow> poll_transfer i e k result ss))"

definition poll_step :: "os \<Rightarrow> socket_message \<Rightarrow> socket_server \<Rightarrow> (poll_result \<times> socket_message \<times> socket_server) res" where
  "poll_step k result ss =
     (if ss_checkctrl ss \<and> ss_pipe ss \<noteq> [] then
        res_bind (ctrl_cmd k result ss) (\<lambda>(ty, result, ss).
          case ty of
            Some t \<Rightarrow> Inr (Return ty, result, clear_closed_event result t ss)
          | None \<Rightarrow> Inr (Continue, result, ss))
      else
        let ss = ss\<lparr>ss_checkctrl := False\<rparr> in
        if ss_event_index ss = length (ss_ev ss) then
          let ss = ss\<lparr>ss_checkctrl := True, ss_event_index := 0, ss_ev := (case os_wait k of Events es \<Rightarrow> take 64 es | _ \<Rightarrow> [])\<rparr> in
          if ss_ev ss = [] then
            Inr (if os_wait k = Wait_EINTR then Continue else Return None, result, ss)
          else poll_event k result ss
        else poll_event k result ss)"

text \<open>The loop with the answers of each iteration; \<open>None\<close> when it has not returned within them.\<close>

fun socket_server_poll :: "os list \<Rightarrow> socket_message \<Rightarrow> socket_server \<Rightarrow> (socket_event option \<times> socket_message \<times> socket_server) run" where
  "socket_server_poll [] result ss = None"
| "socket_server_poll (k # ks) result ss =
     (case poll_step k result ss of
        Inl e \<Rightarrow> Some (Inl e)
      | Inr (Continue, result, ss) \<Rightarrow> socket_server_poll ks result ss
      | Inr (Return ty, result, ss) \<Rightarrow> Some (Inr (ty, result, ss)))"

section \<open>Calls of the services\<close>

definition send_request :: "request \<Rightarrow> socket_server \<Rightarrow> socket_server" where
  "send_request r ss = ss\<lparr>ss_pipe := ss_pipe ss @ [r]\<rparr>"

definition socket_server_connect :: "nat \<Rightarrow> string \<Rightarrow> int \<Rightarrow> socket_server \<Rightarrow> int \<times> socket_server" where
  "socket_server_connect opaque addr port ss =
     (if length addr + 24 \<ge> 256 then (-1, ss)
      else
        let (sid, ss) = reserve_id ss in
        if sid < 0 then (-1, ss) else (sid, send_request (Req_open sid port opaque addr) ss))"

definition free_buffer :: "sbuf \<Rightarrow> socket_server \<Rightarrow> socket_server res" where
  "free_buffer buf ss = res_bind (send_object_init (ss_soi ss) buf) (\<lambda>_. Inr (log_calls [Free_buffer buf] ss))"

definition server_send :: "priority \<Rightarrow> int \<Rightarrow> sbuf \<Rightarrow> socket_server \<Rightarrow> (int \<times> socket_server) res" where
  "server_send prio sid buf ss =
     (let s = ss_slot ss (HASH_ID sid) in
      if s_id s \<noteq> sid \<or> s_type s = SOCKET_TYPE_INVALID then res_bind (free_buffer buf ss) (\<lambda>ss. Inr (-1, ss))
      else Inr (0, send_request (Req_send prio sid buf) ss))"

definition socket_server_send :: "int \<Rightarrow> sbuf \<Rightarrow> socket_server \<Rightarrow> (int \<times> socket_server) res" where
  "socket_server_send = server_send PRIORITY_HIGH"

definition socket_server_send_lowpriority :: "int \<Rightarrow> sbuf \<Rightarrow> socket_server \<Rightarrow> (int \<times> socket_server) res" where
  "socket_server_send_lowpriority = server_send PRIORITY_LOW"

definition socket_server_exit :: "socket_server \<Rightarrow> socket_server" where
  "socket_server_exit = send_request Req_exit"

definition socket_server_close :: "nat \<Rightarrow> int \<Rightarrow> socket_server \<Rightarrow> socket_server" where
  "socket_server_close opaque sid = send_request (Req_close sid False opaque)"

definition socket_server_shutdown :: "nat \<Rightarrow> int \<Rightarrow> socket_server \<Rightarrow> socket_server" where
  "socket_server_shutdown opaque sid = send_request (Req_close sid True opaque)"

text \<open>\<open>fd\<close> is what \<open>do_listen\<close> returns.\<close>

definition socket_server_listen :: "nat \<Rightarrow> int \<Rightarrow> socket_server \<Rightarrow> int \<times> socket_server" where
  "socket_server_listen opaque fd ss =
     (if fd < 0 then (-1, ss)
      else
        let (sid, ss) = reserve_id ss in
        if sid < 0 then (sid, log_calls [Sys_close fd] ss) else (sid, send_request (Req_listen sid fd opaque) ss))"

definition socket_server_bind :: "nat \<Rightarrow> int \<Rightarrow> socket_server \<Rightarrow> int \<times> socket_server" where
  "socket_server_bind opaque fd ss =
     (let (sid, ss) = reserve_id ss in
      if sid < 0 then (-1, ss) else (sid, send_request (Req_bind sid fd opaque) ss))"

definition socket_server_start :: "nat \<Rightarrow> int \<Rightarrow> socket_server \<Rightarrow> socket_server" where
  "socket_server_start opaque sid = send_request (Req_start sid opaque)"

text \<open>\<open>TCP_NODELAY\<close> is 1.\<close>

definition socket_server_nodelay :: "int \<Rightarrow> socket_server \<Rightarrow> socket_server" where
  "socket_server_nodelay sid = send_request (Req_setopt sid 1 1)"

definition socket_server_userobject :: "socket_server \<Rightarrow> socket_server" where
  "socket_server_userobject ss = ss\<lparr>ss_soi := True\<rparr>"

text \<open>\<open>fd\<close> and the family are what \<open>do_bind\<close> or \<open>socket\<close> give.\<close>

definition socket_server_udp :: "nat \<Rightarrow> int \<Rightarrow> bool \<Rightarrow> socket_server \<Rightarrow> int \<times> socket_server" where
  "socket_server_udp opaque fd v6 ss =
     (if fd < 0 then (-1, ss)
      else
        let (sid, ss) = reserve_id ss in
        if sid < 0 then (-1, log_calls [Sys_close fd] ss) else (sid, send_request (Req_udp sid fd v6 opaque) ss))"

definition udp_address_size :: "u8 \<Rightarrow> nat option" where
  "udp_address_size ty =
     (if ty = protocol_byte PROTOCOL_UDP then Some (1 + 2 + 4)
      else if ty = protocol_byte PROTOCOL_UDPv6 then Some (1 + 2 + 16) else None)"

text \<open>The rest of the address in the request is not initialised; \<open>junk\<close> is what it holds.\<close>

definition socket_server_udp_send :: "int \<Rightarrow> bytes \<Rightarrow> sbuf \<Rightarrow> bytes \<Rightarrow> socket_server \<Rightarrow> (int \<times> socket_server) res" where
  "socket_server_udp_send sid address buf junk ss =
     (let s = ss_slot ss (HASH_ID sid) in
      if s_id s \<noteq> sid \<or> s_type s = SOCKET_TYPE_INVALID then res_bind (free_buffer buf ss) (\<lambda>ss. Inr (-1, ss))
      else case udp_address_size (hd address) of
        None \<Rightarrow> res_bind (free_buffer buf ss) (\<lambda>ss. Inr (-1, ss))
      | Some n \<Rightarrow> Inr (0, send_request (Req_send_udp sid buf (take n address @ drop n junk)) ss))"

text \<open>\<open>sa\<close> is the first address that \<open>getaddrinfo\<close> gives, \<open>None\<close> when it fails or has another family.\<close>

definition socket_server_udp_connect :: "int \<Rightarrow> sockaddr option \<Rightarrow> socket_server \<Rightarrow> int \<times> socket_server" where
  "socket_server_udp_connect sid sa ss =
     (case sa of None \<Rightarrow> (-1, ss) | Some a \<Rightarrow> (0, send_request (Req_setudp sid (gen_udp_address a)) ss))"

definition socket_server_udp_address :: "socket_message \<Rightarrow> bytes option" where
  "socket_server_udp_address msg =
     (case sm_data msg of
        Data d \<Rightarrow> let address = drop (nat (sm_ud msg)) d in map_option (\<lambda>n. take n address) (udp_address_size (hd address))
      | _ \<Rightarrow> None)"

end
