(* ===== verification/SocketSafe.thy ===== *)
theory SocketSafe
  imports SocketServer
begin

text \<open>
  Safety of the socket server: the identifiers it hands out, and the invariant of its table, pipe and
  pending events, by rule induction over the interleavings of the loop and the calls of services. The
  only assertion that can fail is the one in \<open>send_buffer\<close>, and only for a socket with messages of low
  priority.
\<close>

section \<open>Identifiers\<close>

definition next_alloc :: "u32 \<Rightarrow> u32" where
  "next_alloc w = (if sint (w + 1) < 0 then (w + 1) AND 0x7fffffff else w + 1)"

lemma sint_u32: "sint (w :: u32) = (if unat w < 2 ^ 31 then int (unat w) else int (unat w) - 2 ^ 32)"
proof -
  have u: "0 \<le> uint w" "uint w < 2 ^ 32" using uint_lt2p [of w] by simp_all
  have "uint w < 2 ^ 31 \<longleftrightarrow> unat w < 2 ^ 31"
    using of_nat_less_iff [of "unat w" "2 ^ 31", where 'a = int] by simp
  then show ?thesis using signed_take_bit_31 [OF u] by (simp add: sint_uint)
qed

lemma unat_next_alloc:
  assumes "unat w < 2 ^ 31"
  shows "unat (next_alloc w) = (unat w + 1) mod 2 ^ 31"
proof -
  have 1: "unat (w + 1) = unat w + 1" using assms by (simp add: unat_word_ariths)
  show ?thesis
  proof (cases "unat w + 1 < 2 ^ 31")
    case True
    then have "sint (w + 1) = int (unat w + 1)" using sint_u32 [of "w + 1"] unfolding 1 by (simp only: if_True)
    then have "\<not> sint (w + 1) < 0" by linarith
    then show ?thesis using 1 True by (simp add: next_alloc_def)
  next
    case False
    then have "unat (w + 1) = unat (0x80000000 :: u32)" using 1 assms by simp
    then have "w + 1 = 0x80000000" by (simp only: word_unat_eq_iff)
    then show ?thesis using False assms 1 by (simp add: next_alloc_def sint_u32)
  qed
qed

lemma HASH_ID_sint: "HASH_ID (sint w) = unat w mod 65536" for w :: u32
  by (simp add: HASH_ID_def MAX_SOCKET_def)

lemma HASH_ID_less: "HASH_ID sid < MAX_SOCKET"
  by (simp add: HASH_ID_def MAX_SOCKET_def)

text \<open>What \<open>reserve_id\<close> may do to the server.\<close>

definition reserved :: "socket_server \<Rightarrow> int \<Rightarrow> socket_server \<Rightarrow> bool" where
  "reserved ss sid ss' =
     (0 \<le> sid \<and> s_type (ss_slot ss (HASH_ID sid)) = SOCKET_TYPE_INVALID \<and>
      (\<exists>w. unat w < 2 ^ 31 \<and> sint w = sid \<and>
        ss' = upd_slot (HASH_ID sid) (\<lambda>s. s\<lparr>s_type := SOCKET_TYPE_RESERVE, s_id := sid, s_fd := -1\<rparr>) (ss\<lparr>ss_alloc_id := w\<rparr>)))"

lemma reserve_loop_cases:
  assumes "unat (ss_alloc_id ss) < 2 ^ 31" "reserve_loop n ss = (sid, ss')"
  shows "reserved ss sid ss' \<or>
    sid = -1 \<and> (\<exists>w. unat w < 2 ^ 31 \<and> ss' = ss\<lparr>ss_alloc_id := w\<rparr>) \<and>
    (\<forall>j<n. s_type (ss_slot ss ((unat (ss_alloc_id ss) + 1 + j) mod 65536)) \<noteq> SOCKET_TYPE_INVALID)"
  using assms
proof (induction n arbitrary: ss)
  case 0
  then show ?case by (auto intro!: exI [of _ "ss_alloc_id ss"])
next
  case (Suc n)
  let ?w = "next_alloc (ss_alloc_id ss)" and ?ss = "ss\<lparr>ss_alloc_id := next_alloc (ss_alloc_id ss)\<rparr>"
  have w: "unat ?w = (unat (ss_alloc_id ss) + 1) mod 2 ^ 31" by (rule unat_next_alloc [OF Suc.prems(1)])
  then have w31: "unat ?w < 2 ^ 31" by simp
  have m: "(unat ?w + j) mod 65536 = (unat (ss_alloc_id ss) + 1 + j) mod 65536" for j
    using mod_mod_cancel [of 65536 "2 ^ 31" "unat (ss_alloc_id ss) + 1"] by (simp add: w mod_add_cong)
  have h: "HASH_ID (sint ?w) = (unat (ss_alloc_id ss) + 1) mod 65536" using m [of 0] by (simp add: HASH_ID_sint)
  have eq: "reserve_loop (Suc n) ss =
      (if s_type (ss_slot ss (HASH_ID (sint ?w))) = SOCKET_TYPE_INVALID then
         (sint ?w, upd_slot (HASH_ID (sint ?w)) (\<lambda>s. s\<lparr>s_type := SOCKET_TYPE_RESERVE, s_id := sint ?w, s_fd := -1\<rparr>) ?ss)
       else reserve_loop n ?ss)"
    by (simp add: Let_def next_alloc_def)
  show ?case
  proof (cases "s_type (ss_slot ss (HASH_ID (sint ?w))) = SOCKET_TYPE_INVALID")
    case True
    then have "sid = sint ?w" "ss' = upd_slot (HASH_ID sid) (\<lambda>s. s\<lparr>s_type := SOCKET_TYPE_RESERVE, s_id := sid, s_fd := -1\<rparr>) ?ss"
      using Suc.prems(2) unfolding eq by auto
    then have "reserved ss sid ss'" using True w31 unfolding reserved_def by (auto simp: sint_u32)
    then show ?thesis ..
  next
    case False
    then have "reserve_loop n ?ss = (sid, ss')" using Suc.prems(2) unfolding eq by simp
    from Suc.IH [OF _ this] w31 have
      "reserved ?ss sid ss' \<or> sid = -1 \<and> (\<exists>w. unat w < 2 ^ 31 \<and> ss' = ss\<lparr>ss_alloc_id := w\<rparr>) \<and>
       (\<forall>j<n. s_type (ss_slot ss ((unat ?w + 1 + j) mod 65536)) \<noteq> SOCKET_TYPE_INVALID)" by simp
    moreover have "reserved ?ss sid ss' \<Longrightarrow> reserved ss sid ss'" by (simp add: reserved_def)
    moreover have "s_type (ss_slot ss ((unat (ss_alloc_id ss) + 1 + j) mod 65536)) \<noteq> SOCKET_TYPE_INVALID"
      if "\<forall>j<n. s_type (ss_slot ss ((unat ?w + 1 + j) mod 65536)) \<noteq> SOCKET_TYPE_INVALID" "j < Suc n" for j
    proof (cases j)
      case 0
      then show ?thesis using False h by simp
    next
      case (Suc j')
      then show ?thesis using that(1) [rule_format, of j'] that(2) m [of "1 + j'"] by (simp add: add.assoc)
    qed
    ultimately show ?thesis by blast
  qed
qed

lemma reserve_id_cases:
  assumes "unat (ss_alloc_id ss) < 2 ^ 31" "reserve_id ss = (sid, ss')"
  shows "reserved ss sid ss' \<or>
    sid = -1 \<and> (\<exists>w. unat w < 2 ^ 31 \<and> ss' = ss\<lparr>ss_alloc_id := w\<rparr>) \<and> (\<forall>i<MAX_SOCKET. s_type (ss_slot ss i) \<noteq> SOCKET_TYPE_INVALID)"
proof -
  let ?a = "unat (ss_alloc_id ss) + 1"
  have "\<exists>j<65536. (?a + j) mod 65536 = i" if "i < 65536" for i
  proof -
    let ?j = "(i + (65536 - ?a mod 65536)) mod 65536"
    have "(?a + ?j) mod 65536 = (?a mod 65536 + (i + (65536 - ?a mod 65536))) mod 65536" by (simp only: mod_simps)
    also have "?a mod 65536 + (i + (65536 - ?a mod 65536)) = i + 65536" using mod_less_divisor [of 65536 ?a] by simp
    finally have "(?a + ?j) mod 65536 = i" using that by simp
    then show ?thesis by (intro exI [of _ ?j]) simp
  qed
  then show ?thesis using reserve_loop_cases [OF assms [unfolded reserve_id_def]] unfolding MAX_SOCKET_def by blast
qed

section \<open>The invariant of a slot\<close>

definition wb_total :: "write_buffer list \<Rightarrow> int" where
  "wb_total l = (\<Sum>wb\<leftarrow>l. int (wb_sz wb))"

definition sock_ok :: "socket \<Rightarrow> bool" where
  "sock_ok s = (if s_type s \<in> {SOCKET_TYPE_INVALID, SOCKET_TYPE_RESERVE} then s_high s = [] \<and> s_low s = []
     else s_wb_size s = wb_total (s_high s @ s_low s))"

definition live :: "socket \<Rightarrow> bool" where
  "live s = (s_type s \<notin> {SOCKET_TYPE_INVALID, SOCKET_TYPE_RESERVE} \<and> s_wb_size s = wb_total (s_high s @ s_low s))"

text \<open>Only slot \<open>i\<close> and the log differ; a slot that changed is in order, is not reserved and keeps its identifier.\<close>

definition touches :: "nat \<Rightarrow> socket_server \<Rightarrow> socket_server \<Rightarrow> bool" where
  "touches i ss ss' =
     (ss' = ss\<lparr>ss_slot := (ss_slot ss)(i := ss_slot ss' i), ss_calls := ss_calls ss'\<rparr> \<and>
      (ss_slot ss' i = ss_slot ss i \<or>
       s_id (ss_slot ss' i) = s_id (ss_slot ss i) \<and>
       sock_ok (ss_slot ss' i) \<and> s_type (ss_slot ss' i) \<noteq> SOCKET_TYPE_RESERVE))"

text \<open>A socket that a handler closes is reported as closed or failed, with its identifier.\<close>

definition handled_ok :: "nat \<Rightarrow> socket_server \<Rightarrow> handled \<Rightarrow> bool" where
  "handled_ok i ss h =
     (case h of (ty, r, ss') \<Rightarrow> touches i ss ss' \<and>
        (s_type (ss_slot ss' i) = SOCKET_TYPE_INVALID \<longrightarrow>
           s_type (ss_slot ss i) \<in> {SOCKET_TYPE_INVALID, SOCKET_TYPE_RESERVE} \<or>
           (ty = Some SOCKET_CLOSE \<or> ty = Some SOCKET_ERR) \<and> sm_id r = s_id (ss_slot ss' i)))"

definition res_ok :: "nat \<Rightarrow> socket_server \<Rightarrow> handled res \<Rightarrow> bool" where
  "res_ok i ss m =
     (case m of
        Inl e \<Rightarrow> e = Assert_fail ''send_buffer'' \<and> s_low (ss_slot ss i) \<noteq> []
      | Inr h \<Rightarrow> handled_ok i ss h)"

lemma res_ok_simps [simp]:
  "res_ok i ss (Inr h) = handled_ok i ss h" "res_ok i ss (Inl e) = (e = Assert_fail ''send_buffer'' \<and> s_low (ss_slot ss i) \<noteq> [])"
  by (simp_all add: res_ok_def)

lemma wb_total_simps [simp]:
  "wb_total [] = 0" "wb_total (wb # l) = int (wb_sz wb) + wb_total l" "wb_total (l @ m) = wb_total l + wb_total m"
  by (simp_all add: wb_total_def)

lemma slot_simps [simp]:
  "ss_slot (upd_slot i f ss) j = (if j = i then f (ss_slot ss i) else ss_slot ss j)"
  "ss_slot (log_calls cs ss) = ss_slot ss"
  by (simp_all add: upd_slot_def log_calls_def)

lemma log_calls_append [simp]: "log_calls cs (log_calls ds ss) = log_calls (ds @ cs) ss"
  by (simp add: log_calls_def)

lemma live_ok: "live s \<Longrightarrow> sock_ok s \<and> s_type s \<noteq> SOCKET_TYPE_INVALID \<and> s_type s \<noteq> SOCKET_TYPE_RESERVE"
  by (simp add: live_def sock_ok_def)

lemma live_iff: "live s \<longleftrightarrow> sock_ok s \<and> s_type s \<noteq> SOCKET_TYPE_INVALID \<and> s_type s \<noteq> SOCKET_TYPE_RESERVE"
  by (auto simp add: live_def sock_ok_def)

lemma touches_refl [simp]: "touches i ss ss"
  by (simp add: touches_def)

lemma touches_trans:
  assumes "touches i a b" "touches i b c"
  shows "touches i a c"
proof -
  have "b = a\<lparr>ss_slot := (ss_slot a)(i := ss_slot b i), ss_calls := ss_calls b\<rparr>" using assms(1) by (simp add: touches_def)
  then obtain s cs where b: "b = a\<lparr>ss_slot := (ss_slot a)(i := s), ss_calls := cs\<rparr>" by blast
  have "c = b\<lparr>ss_slot := (ss_slot b)(i := ss_slot c i), ss_calls := ss_calls c\<rparr>" using assms(2) by (simp add: touches_def)
  then have "c = a\<lparr>ss_slot := (ss_slot a)(i := ss_slot c i), ss_calls := ss_calls c\<rparr>" unfolding b by simp
  then show ?thesis using assms by (auto simp: touches_def)
qed

lemma touches_upd:
  assumes "sock_ok (f (ss_slot ss i))" "s_type (f (ss_slot ss i)) \<noteq> SOCKET_TYPE_RESERVE" "s_id (f (ss_slot ss i)) = s_id (ss_slot ss i)"
  shows "touches i ss (log_calls cs (upd_slot i f ss))" "touches i ss (upd_slot i f (log_calls cs ss))" "touches i ss (upd_slot i f ss)"
  using assms by (simp_all add: touches_def upd_slot_def log_calls_def)

lemma touches_log [simp]: "touches i ss (log_calls cs ss)"
  by (simp add: touches_def log_calls_def)

lemma handled_ok_trans: "touches i ss ss1 \<Longrightarrow> live (ss_slot ss i) \<Longrightarrow> live (ss_slot ss1 i) \<Longrightarrow> handled_ok i ss1 h \<Longrightarrow> handled_ok i ss h"
  by (auto simp: handled_ok_def live_def intro: touches_trans split: prod.splits)

lemma force_close_ok:
  assumes "live (ss_slot ss i)"
  obtains r ss' where "force_close i ss = Inr (r, ss')" "touches i ss ss'" "s_type (ss_slot ss' i) = SOCKET_TYPE_INVALID"
    "sm_id r = s_id (ss_slot ss' i)" "s_id (ss_slot ss' i) = s_id (ss_slot ss i)"
proof -
  let ?f = "\<lambda>s. s\<lparr>s_high := [], s_low := [], s_type := SOCKET_TYPE_INVALID\<rparr>"
  let ?cs = "close_calls (ss_slot ss i)"
  have e: "force_close i ss = Inr (\<lparr>sm_id = s_id (ss_slot ss i), sm_opaque = s_opaque (ss_slot ss i), sm_ud = 0, sm_data = No_data\<rparr>,
      upd_slot i ?f (log_calls ?cs ss))"
    using assms by (simp add: force_close_def Let_def live_def)
  have "touches i ss (upd_slot i ?f (log_calls ?cs ss))" by (rule touches_upd) (simp_all add: sock_ok_def)
  then show thesis using that [OF e] by simp
qed

lemma force_close_handled:
  assumes "live (ss_slot ss i)" "t = SOCKET_CLOSE \<or> t = SOCKET_ERR" "\<And>r. sm_id (g r) = sm_id r"
  shows "res_ok i ss (res_bind (force_close i ss) (\<lambda>(r, ss). Inr (Some t, g r, ss)))"
proof -
  obtain r ss' where "force_close i ss = Inr (r, ss')" "touches i ss ss'" "sm_id r = s_id (ss_slot ss' i)"
    using force_close_ok [OF assms(1)] by metis
  then show ?thesis using assms(2,3) by (simp add: handled_ok_def)
qed

section \<open>Handlers keep the invariant\<close>

lemma send_loop_tcp_total:
  "send_loop_tcp fd ws l = (l', ws', calls, sent, failed) \<Longrightarrow> wb_total l = wb_total l' + int sent"
proof (induction fd ws l arbitrary: l' ws' calls sent failed rule: send_loop_tcp.induct)
  case (6 fd n ws tmp list)
  then show ?case by (auto simp: Let_def split: if_splits prod.splits)
qed auto

lemma send_loop_udp_total:
  "send_loop_udp fd prot ws l = (l', ws', calls, sent) \<Longrightarrow> wb_total l = wb_total l' + int sent"
  by (induction fd prot ws l arbitrary: l' ws' calls sent rule: send_loop_udp.induct) (auto simp: Let_def split: prod.splits)

lemma send_list_ok:
  assumes "live (ss_slot ss i)"
  obtains ty r ss' k' where "send_list i high k result ss = Inr ((ty, r, ss'), k')" "handled_ok i ss (ty, r, ss')"
    "ty = Some SOCKET_CLOSE \<or> ty = None \<and> live (ss_slot ss' i) \<and> get_list (\<not> high) (ss_slot ss' i) = get_list (\<not> high) (ss_slot ss i)"
proof (cases "s_protocol (ss_slot ss i) = PROTOCOL_TCP")
  case True
  let ?s = "ss_slot ss i"
  obtain l ws calls sent failed where e: "send_loop_tcp (s_fd ?s) (os_write k) (get_list high ?s) = (l, ws, calls, sent, failed)"
    by (metis prod_cases5)
  let ?ss = "log_calls calls (upd_slot i (\<lambda>s. set_list high l (s\<lparr>s_wb_size := s_wb_size s - int sent\<rparr>)) ss)"
  have lv: "live (ss_slot ?ss i)" using assms send_loop_tcp_total [OF e]
    by (cases high) (auto simp: live_def set_list_def get_list_def)
  then have t: "touches i ss ?ss" by (intro touches_upd) (auto simp: live_iff set_list_def)
  have o: "get_list (\<not> high) (ss_slot ?ss i) = get_list (\<not> high) ?s" by (cases high) (auto simp: set_list_def get_list_def)
  show thesis
  proof (cases failed)
    case f: True
    obtain r ss' where r: "force_close i ?ss = Inr (r, ss')" "touches i ?ss ss'" "s_type (ss_slot ss' i) = SOCKET_TYPE_INVALID"
      "sm_id r = s_id (ss_slot ss' i)" "s_id (ss_slot ss' i) = s_id (ss_slot ?ss i)" by (rule force_close_ok [OF lv])
    have "handled_ok i ss (Some SOCKET_CLOSE, r, ss')" using touches_trans [OF t r(2)] r by (simp add: handled_ok_def)
    moreover have "send_list i high k result ss = Inr ((Some SOCKET_CLOSE, r, ss'), k\<lparr>os_write := ws\<rparr>)"
      using True f e r(1) by (simp add: send_list_def send_list_tcp_def Let_def)
    ultimately show thesis using that by blast
  next
    case False
    have "handled_ok i ss (None, result, ?ss)" using t lv by (auto simp: handled_ok_def live_def)
    moreover have "send_list i high k result ss = Inr ((None, result, ?ss), k\<lparr>os_write := ws\<rparr>)"
      using True False e by (simp add: send_list_def send_list_tcp_def Let_def)
    ultimately show thesis using that lv o by blast
  qed
next
  case False
  let ?s = "ss_slot ss i"
  obtain l ws calls sent where e: "send_loop_udp (s_fd ?s) (s_protocol ?s) (os_sendto k) (get_list high ?s) = (l, ws, calls, sent)"
    by (metis prod_cases4)
  let ?ss = "log_calls calls (upd_slot i (\<lambda>s. set_list high l (s\<lparr>s_wb_size := s_wb_size s - int sent\<rparr>)) ss)"
  have lv: "live (ss_slot ?ss i)" using assms send_loop_udp_total [OF e]
    by (cases high) (auto simp: live_def set_list_def get_list_def)
  then have t: "touches i ss ?ss" by (intro touches_upd) (auto simp: live_iff set_list_def)
  have o: "get_list (\<not> high) (ss_slot ?ss i) = get_list (\<not> high) ?s" by (cases high) (auto simp: set_list_def get_list_def)
  have "handled_ok i ss (None, result, ?ss)" using t lv by (auto simp: handled_ok_def live_def)
  moreover have "send_list i high k result ss = Inr ((None, result, ?ss), k\<lparr>os_sendto := ws\<rparr>)"
    using False e by (simp add: send_list_def send_list_udp_def Let_def)
  ultimately show thesis using that lv o by blast
qed

lemma handled_live:
  "handled_ok i ss (ty, r, ss') \<Longrightarrow> live (ss_slot ss i) \<Longrightarrow> ty \<noteq> Some SOCKET_CLOSE \<Longrightarrow> ty \<noteq> Some SOCKET_ERR \<Longrightarrow> live (ss_slot ss' i)"
  by (auto simp: handled_ok_def touches_def live_iff)

lemma handled_same: "live (ss_slot ss i) \<Longrightarrow> handled_ok i ss (ty, r, ss)"
  by (simp add: handled_ok_def live_iff)

lemma handled_upd:
  assumes "live (f (ss_slot ss i))" "s_id (f (ss_slot ss i)) = s_id (ss_slot ss i)"
  shows "handled_ok i ss (ty, r, upd_slot i f ss)" "handled_ok i ss (ty, r, log_calls cs (upd_slot i f ss))"
    "handled_ok i ss (ty, r, upd_slot i f (log_calls cs ss))"
  using assms by (auto simp: handled_ok_def live_iff intro!: touches_upd)

lemma send_finish_ok:
  assumes "live (ss_slot ss i)"
  shows "if send_buffer_empty (ss_slot ss i) then res_ok i ss (send_finish i result ss)
    else send_finish i result ss = Inl (Assert_fail ''send_buffer'')"
proof (cases "send_buffer_empty (ss_slot ss i)")
  case True
  let ?s = "ss_slot ss i"
  let ?ss = "log_calls [Sp_write (s_fd ?s) False] ss"
  have w: "s_wb_size ?s = 0" using True assms by (simp add: live_def send_buffer_empty_def)
  have lv: "live (ss_slot ?ss i)" and t: "touches i ss ?ss" using assms by simp_all
  have fin: "send_finish i result ss =
      (if s_type ?s = SOCKET_TYPE_HALFCLOSE then res_bind (force_close i ?ss) (\<lambda>(result, ss). Inr (Some SOCKET_CLOSE, result, ss))
       else if s_warn_size ?s > 0 then Inr (Some SOCKET_WARNING, socket_result ?s 0 No_data, upd_slot i (\<lambda>s. s\<lparr>s_warn_size := 0\<rparr>) ?ss)
       else Inr (None, result, ?ss))"
    using True w by (simp add: send_finish_def Let_def)
  have "res_ok i ?ss (res_bind (force_close i ?ss) (\<lambda>(result, ss). Inr (Some SOCKET_CLOSE, result, ss)))"
    using force_close_handled [OF lv, of SOCKET_CLOSE "\<lambda>r. r"] by simp
  then obtain h where h: "res_bind (force_close i ?ss) (\<lambda>(result, ss). Inr (Some SOCKET_CLOSE, result, ss)) = Inr h" "handled_ok i ?ss h"
    using True by (auto simp: res_ok_def send_buffer_empty_def split: sum.splits)
  have "handled_ok i ss (Some SOCKET_WARNING, socket_result ?s 0 No_data, upd_slot i (\<lambda>s. s\<lparr>s_warn_size := 0\<rparr>) ?ss)"
    using assms by (intro handled_upd) (simp_all add: live_def)
  moreover have "handled_ok i ss (None, result, ?ss)" using assms t by (simp add: handled_ok_def live_iff)
  ultimately show ?thesis using True handled_ok_trans [OF t assms lv h(2)] unfolding fin h(1) by simp
next
  case False
  then show ?thesis by (simp add: send_finish_def Let_def)
qed

lemma raise_uncomplete_ok:
  assumes "live (ss_slot ss i)" "s_high (ss_slot ss i) = []" "list_uncomplete (s_low (ss_slot ss i))"
  shows "res_ok i ss (res_bind (raise_uncomplete i ss) (\<lambda>ss. Inr (None, r, ss)))"
proof -
  let ?f = "\<lambda>s. s\<lparr>s_low := tl (s_low s), s_high := [hd (s_low s)]\<rparr>"
  have "live (?f (ss_slot ss i))" using assms by (cases "s_low (ss_slot ss i)") (auto simp: live_def list_uncomplete_def)
  then have "handled_ok i ss (None, r, upd_slot i ?f ss)" by (intro handled_upd) simp_all
  then show ?thesis using assms(2) by (simp add: raise_uncomplete_def Let_def)
qed

text \<open>Steps 2 to 4: the list of low priority.\<close>

definition send_low :: "nat \<Rightarrow> os \<Rightarrow> socket_message \<Rightarrow> socket_server \<Rightarrow> handled res" where
  "send_low i k result ss =
     res_bind (send_list i False k result ss) (\<lambda>((ty, result, ss), k).
       if ty = Some SOCKET_CLOSE then Inr (Some SOCKET_CLOSE, result, ss)
       else if list_uncomplete (s_low (ss_slot ss i)) then res_bind (raise_uncomplete i ss) (\<lambda>ss. Inr (None, result, ss))
       else send_finish i result ss)"

lemma send_low_ok:
  assumes lv: "live (ss_slot ss i)" "s_high (ss_slot ss i) = []" "s_low (ss_slot ss i) \<noteq> []"
  shows "res_ok i ss (send_low i k result ss)"
proof -
  obtain ty r ss1 k1 where 1: "send_list i False k result ss = Inr ((ty, r, ss1), k1)" "handled_ok i ss (ty, r, ss1)"
    "ty = Some SOCKET_CLOSE \<or> ty = None \<and> live (ss_slot ss1 i) \<and> get_list (\<not> False) (ss_slot ss1 i) = get_list (\<not> False) (ss_slot ss i)"
    by (rule send_list_ok [OF lv(1)])
  show ?thesis
  proof (cases "ty = Some SOCKET_CLOSE")
    case True
    then show ?thesis using 1 by (simp add: send_low_def)
  next
    case False
    then have l1: "live (ss_slot ss1 i)" "s_high (ss_slot ss1 i) = []" using 1(3) lv(2) by (simp_all add: get_list_def)
    have t1: "touches i ss ss1" using 1(2) by (simp add: handled_ok_def)
    have tr: "res_ok i ss m" if "res_ok i ss1 m" for m
      using that handled_ok_trans [OF t1 lv(1) l1(1)] lv(3) by (cases m) (simp_all add: res_ok_def)
    have eq: "send_low i k result ss =
        (if list_uncomplete (s_low (ss_slot ss1 i)) then res_bind (raise_uncomplete i ss1) (\<lambda>ss. Inr (None, r, ss)) else send_finish i r ss1)"
      using 1 False by (simp add: send_low_def)
    have "res_ok i ss (send_finish i r ss1)"
      using send_finish_ok [OF l1(1), of r] tr lv(3) by (cases "send_buffer_empty (ss_slot ss1 i)") simp_all
    then show ?thesis using raise_uncomplete_ok [OF l1, of r] tr unfolding eq by simp
  qed
qed

lemma send_buffer_ok:
  assumes lv: "live (ss_slot ss i)"
  shows "res_ok i ss (send_buffer i k result ss)"
proof (cases "list_uncomplete (s_low (ss_slot ss i))")
  case True
  then show ?thesis by (auto simp: send_buffer_def list_uncomplete_def)
next
  case nu: False
  obtain ty r ss1 k1 where 1: "send_list i True k result ss = Inr ((ty, r, ss1), k1)" "handled_ok i ss (ty, r, ss1)"
    "ty = Some SOCKET_CLOSE \<or> ty = None \<and> live (ss_slot ss1 i) \<and> get_list (\<not> True) (ss_slot ss1 i) = get_list (\<not> True) (ss_slot ss i)"
    by (rule send_list_ok [OF lv])
  have eq: "send_buffer i k result ss =
      (if ty = Some SOCKET_CLOSE then Inr (Some SOCKET_CLOSE, r, ss1)
       else if s_high (ss_slot ss1 i) = [] then
         if s_low (ss_slot ss1 i) \<noteq> [] then send_low i k1 r ss1 else send_finish i r ss1
       else Inr (None, r, ss1))"
    using 1(1) nu by (simp add: send_buffer_def send_low_def)
  show ?thesis
  proof (cases "ty = Some SOCKET_CLOSE")
    case True
    then show ?thesis using 1(2) by (simp add: eq)
  next
    case False
    then have l1: "live (ss_slot ss1 i)" "s_low (ss_slot ss1 i) = s_low (ss_slot ss i)" and ty: "ty = None"
      using 1(3) by (simp_all add: get_list_def)
    have t1: "touches i ss ss1" using 1(2) by (simp add: handled_ok_def)
    have tr: "res_ok i ss m" if "res_ok i ss1 m" for m
      using that handled_ok_trans [OF t1 lv l1(1)] l1(2) by (cases m) (simp_all add: res_ok_def)
    have "res_ok i ss1 (send_finish i r ss1)" if "s_high (ss_slot ss1 i) = []" "s_low (ss_slot ss1 i) = []"
      using send_finish_ok [OF l1(1), of r] that by (simp add: send_buffer_empty_def)
    then show ?thesis using 1(2) False ty tr send_low_ok [OF l1(1)] by (simp add: eq)
  qed
qed

text \<open>No request for \<open>sid\<close> comes before the one that opens it.\<close>

definition opened :: "socket_server \<Rightarrow> int \<Rightarrow> bool" where
  "opened ss sid = (\<not> (s_type (ss_slot ss (HASH_ID sid)) = SOCKET_TYPE_RESERVE \<and> s_id (ss_slot ss (HASH_ID sid)) = sid))"

lemma opened_live:
  "opened ss sid \<Longrightarrow> sock_ok (ss_slot ss (HASH_ID sid)) \<Longrightarrow> s_type (ss_slot ss (HASH_ID sid)) \<noteq> SOCKET_TYPE_INVALID \<Longrightarrow>
   s_id (ss_slot ss (HASH_ID sid)) = sid \<Longrightarrow> live (ss_slot ss (HASH_ID sid))"
  by (auto simp: opened_def live_iff)

lemma handled_none [simp]: "handled_ok i ss (ty, r, ss)"
  by (simp add: handled_ok_def)

lemma warning_check_ok: "touches i ss ss1 \<Longrightarrow> live (ss_slot ss1 i) \<Longrightarrow> handled_ok i ss (warning_check i r ss1)"
proof -
  assume t: "touches i ss ss1" and lv: "live (ss_slot ss1 i)"
  have "touches i ss1 (upd_slot i (\<lambda>s. s\<lparr>s_warn_size := w\<rparr>) ss1)" for w
    using lv by (intro touches_upd) (auto simp: live_def sock_ok_def)
  then have "touches i ss (upd_slot i (\<lambda>s. s\<lparr>s_warn_size := w\<rparr>) ss1)" for w using touches_trans [OF t] by blast
  moreover have "touches i ss1 (upd_slot i (\<lambda>s. s\<lparr>s_warn_size := (if s_warn_size s = 0 then WARNING_SIZE * 2 else s_warn_size s * 2)\<rparr>) ss1)"
    using lv by (intro touches_upd) (auto simp: live_def sock_ok_def)
  ultimately show ?thesis using t lv touches_trans [OF t]
    by (auto simp: warning_check_def Let_def handled_ok_def live_def)
qed

lemma append_sendbuffer_ok:
  assumes "live (ss_slot ss i)"
  shows "touches i ss (append_sendbuffer i high wb ss) \<and> live (ss_slot (append_sendbuffer i high wb ss) i)"
proof -
  let ?f = "\<lambda>s. set_list high (get_list high s @ [wb]) (s\<lparr>s_wb_size := s_wb_size s + int (wb_sz wb)\<rparr>)"
  have "live (?f (ss_slot ss i))" using assms by (cases high) (auto simp: live_def set_list_def get_list_def)
  moreover from this have "touches i ss (upd_slot i ?f ss)" by (intro touches_upd) (auto simp: live_iff set_list_def)
  ultimately show ?thesis by (simp add: append_sendbuffer_def)
qed

lemma append_warning_ok:
  assumes "live (ss_slot ss i)"
  shows "handled_ok i ss (warning_check i r (append_sendbuffer i high wb ss))"
    "handled_ok i ss (warning_check i r (log_calls cs (append_sendbuffer i high wb ss)))"
  using append_sendbuffer_ok [OF assms, of high wb] warning_check_ok [of i ss] touches_trans [of i ss _ "log_calls cs (append_sendbuffer i high wb ss)"]
  by auto

lemma handled_after_log:
  assumes "handled_ok i (log_calls cs ss) h"
  shows "handled_ok i ss h"
  using assms touches_trans [OF touches_log [of i ss cs]] by (auto simp: handled_ok_def split: prod.splits)

lemma send_socket_ok:
  assumes o: "opened ss sid" and s: "sock_ok (ss_slot ss (HASH_ID sid))"
  shows "res_ok (HASH_ID sid) ss (send_socket sid (Plain a d) prio udp k r ss)"
proof -
  let ?i = "HASH_ID sid" let ?s = "ss_slot ss (HASH_ID sid)" and ?so = "\<lparr>so_buffer = a, so_data = d\<rparr>"
  have so: "send_object_init (ss_soi ss) (Plain a d) = Inr ?so" by (simp add: send_object_init_def)
  have lg: "handled_ok ?i ss (ty, r, log_calls cs ss)" for ty r cs by (simp add: handled_ok_def)
  show ?thesis
  proof (cases "s_type ?s = SOCKET_TYPE_INVALID \<or> s_id ?s \<noteq> sid")
    case True
    then show ?thesis using lg by (auto simp: send_socket_def Let_def so)
  next
    case False
    then have lv: "live ?s" using opened_live [OF o s] by simp
    have fc: "\<exists>r1 ss1. force_close ?i ss = Inr (r1, ss1) \<and> handled_ok ?i ss (Some SOCKET_CLOSE, r1, log_calls cs ss1)" for cs
    proof -
      obtain r1 ss1 where "force_close ?i ss = Inr (r1, ss1)" "touches ?i ss ss1" "sm_id r1 = s_id (ss_slot ss1 ?i)"
        using force_close_ok [OF lv] by metis
      then show ?thesis using touches_trans [OF _ touches_log, of ?i ss ss1 cs] by (simp add: handled_ok_def)
    qed
    have aw: "handled_ok ?i ss (warning_check ?i r (log_calls cs (append_sendbuffer ?i h wb (log_calls ds ss))))" for cs ds h wb
      by (rule handled_after_log [OF append_warning_ok(2)]) (simp add: lv)
    show ?thesis
      using append_warning_ok [OF lv] aw lg fc [of "[Free_buffer (Plain a d)]"]
      by (auto simp: send_socket_def Let_def so split: option.splits)
  qed
qed

section \<open>Opening and the other commands\<close>

definition waiting :: "socket_server \<Rightarrow> int \<Rightarrow> bool" where
  "waiting ss sid = (s_type (ss_slot ss (HASH_ID sid)) = SOCKET_TYPE_RESERVE \<and> s_id (ss_slot ss (HASH_ID sid)) = sid \<and>
     s_high (ss_slot ss (HASH_ID sid)) = [] \<and> s_low (ss_slot ss (HASH_ID sid)) = [])"

lemma new_fd_waiting:
  assumes "waiting ss sid"
  shows "new_fd sid fd prot opaque add k ss =
    Inr (if add \<and> \<not> os_add k then (False, upd_slot (HASH_ID sid) (\<lambda>s. s\<lparr>s_type := SOCKET_TYPE_INVALID\<rparr>) ss)
         else (True, upd_slot (HASH_ID sid) (\<lambda>s. s\<lparr>s_id := sid, s_fd := fd, s_protocol := prot, s_size := MIN_READ_BUFFER,
                 s_opaque := opaque, s_wb_size := 0, s_warn_size := 0\<rparr>) (if add then log_calls [Sp_add fd] ss else ss)))"
  using assms by (simp add: waiting_def new_fd_def Let_def)

lemmas touch_defs = touches_def upd_slot_def log_calls_def sock_ok_def waiting_def handled_ok_def

lemma open_failed_ok: "waiting ss sid \<Longrightarrow> res_ok (HASH_ID sid) ss (open_failed sid r e ss)"
  by (simp add: open_failed_def touch_defs)

lemma open_failed_log: "waiting ss sid \<Longrightarrow> res_ok (HASH_ID sid) ss (open_failed sid r e (log_calls cs ss))"
  by (simp add: open_failed_def touch_defs)

lemma open_failed_upd:
  "waiting ss sid \<Longrightarrow> res_ok (HASH_ID sid) ss (open_failed sid r e (log_calls cs (upd_slot (HASH_ID sid) (\<lambda>s. s\<lparr>s_type := SOCKET_TYPE_INVALID\<rparr>) (log_calls ds ss))))"
  by (simp add: open_failed_def touch_defs)

lemma waiting_log [simp]: "waiting (log_calls cs ss) sid = waiting ss sid"
  by (simp add: waiting_def)

lemma open_socket_ok:
  assumes w: "waiting ss sid"
  shows "res_ok (HASH_ID sid) ss (open_socket sid opaque k ss)"
proof (cases "os_addr k")
  case (Gai_error e)
  then show ?thesis using open_failed_ok [OF w] by (simp add: open_socket_def)
next
  case (Addresses as)
  obtain a cs where c: "connect_loop as = (a, cs)" by fastforce
  have w': "waiting (log_calls cs ss) sid" using w by simp
  show ?thesis
  proof (cases a)
    case (Conn_ok fd peer)
    then show ?thesis using Addresses c open_failed_upd [OF w] w
      by (simp add: open_socket_def new_fd_waiting [OF w']) (simp add: touch_defs)
  next
    case (Conn_progress fd)
    then show ?thesis using Addresses c open_failed_upd [OF w] w
      by (simp add: open_socket_def new_fd_waiting [OF w']) (simp add: touch_defs)
  qed (use Addresses c open_failed_log [OF w] in \<open>simp_all add: open_socket_def\<close>)
qed

lemma listen_socket_ok: "waiting ss sid \<Longrightarrow> res_ok (HASH_ID sid) ss (listen_socket sid fd opaque k r ss)"
  by (simp add: listen_socket_def new_fd_waiting) (simp add: touch_defs)

lemma bind_socket_ok: "waiting ss sid \<Longrightarrow> res_ok (HASH_ID sid) ss (bind_socket sid fd opaque k ss)"
  by (simp add: bind_socket_def new_fd_waiting) (simp add: touch_defs)

lemma add_udp_socket_ok:
  "waiting ss sid \<Longrightarrow> res_ok (HASH_ID sid) ss (res_bind (add_udp_socket sid fd v6 opaque k ss) (\<lambda>ss. Inr (None, r, ss)))"
  by (simp add: add_udp_socket_def new_fd_waiting) (simp add: touch_defs)

lemma close_socket_ok:
  assumes o: "opened ss sid" and s: "sock_ok (ss_slot ss (HASH_ID sid))"
  shows "res_ok (HASH_ID sid) ss (close_socket sid shutdown opaque k r ss)"
proof (cases "s_type (ss_slot ss (HASH_ID sid)) = SOCKET_TYPE_INVALID \<or> s_id (ss_slot ss (HASH_ID sid)) \<noteq> sid")
  case True
  then show ?thesis by (simp add: close_socket_def Let_def)
next
  case False
  let ?i = "HASH_ID sid"
  have lv: "live (ss_slot ss ?i)" using opened_live [OF o s] False by simp
  let ?m = "if \<not> send_buffer_empty (ss_slot ss ?i) then send_buffer ?i k r ss else Inr (None, r, ss)"
  have m: "res_ok ?i ss ?m" using send_buffer_ok [OF lv] by simp
  show ?thesis
  proof (cases ?m)
    case (Inl e)
    then show ?thesis using m False by (simp add: close_socket_def Let_def)
  next
    case (Inr h)
    obtain ty r1 ss1 where h: "h = (ty, r1, ss1)" by (metis prod_cases3)
    have ok: "handled_ok ?i ss (ty, r1, ss1)" using m Inr h by simp
    show ?thesis
    proof (cases "ty = None \<or> ty = Some SOCKET_WARNING")
      case False2: False
      then show ?thesis using ok Inr h False by (simp add: close_socket_def Let_def)
    next
      case True
      then have l1: "live (ss_slot ss1 ?i)" using handled_live [OF ok lv] by auto
      have t1: "touches ?i ss ss1" "s_id (ss_slot ss1 ?i) = sid" using ok False by (auto simp: handled_ok_def touches_def)
      obtain r2 ss2 where f: "force_close ?i ss1 = Inr (r2, ss2)" "touches ?i ss1 ss2" "s_type (ss_slot ss2 ?i) = SOCKET_TYPE_INVALID"
        "sm_id r2 = s_id (ss_slot ss2 ?i)" "s_id (ss_slot ss2 ?i) = s_id (ss_slot ss1 ?i)" by (rule force_close_ok [OF l1])
      have "handled_ok ?i ss (Some SOCKET_CLOSE, r2\<lparr>sm_id := sid, sm_opaque := opaque\<rparr>, ss2)"
        using touches_trans [OF t1(1) f(2)] f(5) t1(2) by (simp add: handled_ok_def)
      moreover have "live ((ss_slot ss1 ?i)\<lparr>s_type := SOCKET_TYPE_HALFCLOSE\<rparr>)" using l1 by (simp add: live_def)
      then have "handled_ok ?i ss1 (None, r1, upd_slot ?i (\<lambda>s. s\<lparr>s_type := SOCKET_TYPE_HALFCLOSE\<rparr>) ss1)" by (intro handled_upd) simp_all
      then have "handled_ok ?i ss (None, r1, upd_slot ?i (\<lambda>s. s\<lparr>s_type := SOCKET_TYPE_HALFCLOSE\<rparr>) ss1)"
        by (rule handled_ok_trans [OF t1(1) lv l1])
      ultimately show ?thesis using Inr h True False f(1) by (auto simp: close_socket_def Let_def)
    qed
  qed
qed

lemma start_socket_ok:
  assumes o: "opened ss sid" and s: "sock_ok (ss_slot ss (HASH_ID sid))"
  shows "res_ok (HASH_ID sid) ss (start_socket sid opaque k ss)"
proof (cases "s_type (ss_slot ss (HASH_ID sid)) = SOCKET_TYPE_INVALID \<or> s_id (ss_slot ss (HASH_ID sid)) \<noteq> sid")
  case True
  then show ?thesis by (simp add: start_socket_def Let_def)
next
  case False
  let ?i = "HASH_ID sid"
  have lv: "live (ss_slot ss ?i)" using opened_live [OF o s] False by simp
  have fc: "res_ok ?i ss (res_bind (force_close ?i ss) (\<lambda>(result, ss). Inr (Some SOCKET_ERR, result\<lparr>sm_data := Text (os_errno k)\<rparr>, ss)))"
    using force_close_handled [OF lv, of SOCKET_ERR "\<lambda>r. r\<lparr>sm_data := Text (os_errno k)\<rparr>"] by simp
  then show ?thesis using False lv
    by (auto simp: start_socket_def Let_def live_def touch_defs)
qed

lemma set_udp_address_ok:
  assumes "sock_ok (ss_slot ss (HASH_ID sid))" "opened ss sid"
  shows "handled_ok (HASH_ID sid) ss (set_udp_address sid address r ss)"
proof (cases "s_type (ss_slot ss (HASH_ID sid)) = SOCKET_TYPE_INVALID \<or> s_id (ss_slot ss (HASH_ID sid)) \<noteq> sid")
  case True
  then show ?thesis by (simp add: set_udp_address_def Let_def)
next
  case False
  then have "live (ss_slot ss (HASH_ID sid))" using opened_live assms by blast
  then show ?thesis by (auto simp: set_udp_address_def Let_def live_def intro!: handled_upd)
qed

lemma setopt_socket_ok: "handled_ok (HASH_ID sid) ss (None, r, setopt_socket sid what v ss)"
  by (simp add: setopt_socket_def Let_def handled_ok_def)

section \<open>Events\<close>

lemma forward_message_tcp_ok:
  assumes lv: "live (ss_slot ss i)"
  shows "res_ok i ss (forward_message_tcp i k r ss)"
proof -
  have fc: "res_ok i ss (res_bind (force_close i ss) (\<lambda>(result, ss). Inr (Some SOCKET_ERR, result\<lparr>sm_data := Text e\<rparr>, ss)))" for e
    using force_close_handled [OF lv, of SOCKET_ERR "\<lambda>r. r\<lparr>sm_data := Text e\<rparr>"] by simp
  have fc2: "res_ok i ss (res_bind (force_close i ss) (\<lambda>(result, ss). Inr (Some SOCKET_CLOSE, result, ss)))"
    using force_close_handled [OF lv, of SOCKET_CLOSE "\<lambda>r. r"] by simp
  have "handled_ok i ss (ty, r, upd_slot i (\<lambda>s. s\<lparr>s_size := n\<rparr>) ss)" for ty r n
    using lv by (intro handled_upd) (simp_all add: live_def)
  then show ?thesis using fc fc2 by (auto simp: forward_message_tcp_def Let_def split: read_answer.split)
qed

lemma forward_message_udp_ok:
  assumes lv: "live (ss_slot ss i)"
  shows "res_ok i ss (forward_message_udp i k r ss)"
proof -
  have "res_ok i ss (res_bind (force_close i ss) (\<lambda>(result, ss). Inr (Some SOCKET_ERR, result\<lparr>sm_data := Text e\<rparr>, ss)))" for e
    using force_close_handled [OF lv, of SOCKET_ERR "\<lambda>r. r\<lparr>sm_data := Text e\<rparr>"] by simp
  then show ?thesis by (auto simp: forward_message_udp_def Let_def split: recv_answer.split)
qed

lemma report_connect_ok:
  assumes lv: "live (ss_slot ss i)"
  shows "res_ok i ss (report_connect i k ss)"
proof -
  have fc: "res_ok i ss (res_bind (force_close i ss) (\<lambda>(result, ss). Inr (Some SOCKET_ERR, result\<lparr>sm_data := Text e\<rparr>, ss)))" for e
    using force_close_handled [OF lv, of SOCKET_ERR "\<lambda>r. r\<lparr>sm_data := Text e\<rparr>"] by simp
  have "live ((ss_slot ss i)\<lparr>s_type := SOCKET_TYPE_CONNECTED\<rparr>)" using lv by (simp add: live_def)
  then show ?thesis using fc by (auto simp: report_connect_def Let_def split: option.split intro!: handled_upd)
qed

end
