(* ===== verification/SocketLoop.thy ===== *)
theory SocketLoop
  imports SocketSafe
begin

text \<open>
  The loop of the socket server and the calls of services, interleaved: the invariant of the table, the
  pipe and the pending events is kept, so the only assertion that can fail is the one of \<open>send_buffer\<close>.
\<close>

section \<open>The pipe and the pending events\<close>

fun req_open :: "request \<Rightarrow> int option" where
  "req_open (Req_bind sid fd opaque) = Some sid"
| "req_open (Req_listen sid fd opaque) = Some sid"
| "req_open (Req_open sid port opaque host) = Some sid"
| "req_open (Req_udp sid fd v6 opaque) = Some sid"
| "req_open r = None"

fun req_id :: "request \<Rightarrow> int option" where
  "req_id (Req_start sid opaque) = Some sid"
| "req_id (Req_close sid shutdown opaque) = Some sid"
| "req_id (Req_send prio sid buf) = Some sid"
| "req_id (Req_send_udp sid buf address) = Some sid"
| "req_id (Req_setudp sid address) = Some sid"
| "req_id (Req_setopt sid what v) = Some sid"
| "req_id r = None"

fun plain_buf :: "sbuf \<Rightarrow> bool" where
  "plain_buf (Plain a d) = True" | "plain_buf (Object a p d) = False"

fun plain_request :: "request \<Rightarrow> bool" where
  "plain_request (Req_send prio sid buf) = plain_buf buf"
| "plain_request (Req_send_udp sid buf address) = plain_buf buf"
| "plain_request r = True"

definition opens :: "request list \<Rightarrow> int list" where
  "opens rs = List.map_filter req_open rs"

text \<open>A socket is opened before it is used, and once.\<close>

fun ordered :: "request list \<Rightarrow> bool" where
  "ordered [] = True"
| "ordered (r # rs) =
     ((\<forall>sid. req_id r = Some sid \<or> req_open r = Some sid \<longrightarrow> sid \<notin> set (opens rs)) \<and> ordered rs)"

definition pipe_ok :: "request list \<Rightarrow> socket_server \<Rightarrow> bool" where
  "pipe_ok rs ss =
     (ordered rs \<and> (\<forall>r\<in>set rs. plain_request r) \<and> (\<forall>sid\<in>set (opens rs). waiting ss sid) \<and>
      (\<forall>i. s_type (ss_slot ss i) = SOCKET_TYPE_RESERVE \<longrightarrow> s_id (ss_slot ss i) \<in> set (opens rs) \<and> HASH_ID (s_id (ss_slot ss i)) = i))"

definition pend :: "socket_server \<Rightarrow> nat list" where
  "pend ss = List.map_filter ev_s (drop (ss_event_index ss) (ss_ev ss))"

definition busy :: "socket_server \<Rightarrow> nat \<Rightarrow> bool" where
  "busy ss i = (s_type (ss_slot ss i) \<noteq> SOCKET_TYPE_INVALID \<and> s_type (ss_slot ss i) \<noteq> SOCKET_TYPE_RESERVE)"

definition ev_ok :: "socket_server \<Rightarrow> bool" where
  "ev_ok ss = (ss_event_index ss \<le> length (ss_ev ss) \<and> distinct (pend ss) \<and> (\<forall>i\<in>set (pend ss). busy ss i))"

definition srv_ok :: "socket_server \<Rightarrow> bool" where
  "srv_ok ss = ((\<forall>i. sock_ok (ss_slot ss i)) \<and> pipe_ok (ss_pipe ss) ss \<and> ev_ok ss \<and> unat (ss_alloc_id ss) < 2 ^ 31)"

text \<open>The system reports events of open sockets only, each once.\<close>

definition wait_ok :: "os \<Rightarrow> socket_server \<Rightarrow> bool" where
  "wait_ok k ss =
     (case os_wait k of
        Events es \<Rightarrow> distinct (List.map_filter ev_s es) \<and> (\<forall>i\<in>set (List.map_filter ev_s es). busy ss i)
      | _ \<Rightarrow> True)"

lemma opens_simps [simp]:
  "opens [] = []" "opens (r # rs) = (case req_open r of None \<Rightarrow> opens rs | Some sid \<Rightarrow> sid # opens rs)"
  "opens (rs @ qs) = opens rs @ opens qs"
  by (simp_all add: opens_def map_filter_def split: option.split)

lemma busy_live: "sock_ok (ss_slot ss i) \<Longrightarrow> busy ss i \<longleftrightarrow> live (ss_slot ss i)"
  by (auto simp: busy_def live_iff)

lemma touches_frame:
  assumes "touches i ss ss'"
  shows "ss_pipe ss' = ss_pipe ss" "ss_ev ss' = ss_ev ss" "ss_event_index ss' = ss_event_index ss"
    "ss_alloc_id ss' = ss_alloc_id ss" "j \<noteq> i \<Longrightarrow> ss_slot ss' j = ss_slot ss j"
    "pend ss' = pend ss"
proof -
  have e: "ss' = ss\<lparr>ss_slot := (ss_slot ss)(i := ss_slot ss' i), ss_calls := ss_calls ss'\<rparr>" using assms by (simp add: touches_def)
  show "ss_pipe ss' = ss_pipe ss" "ss_ev ss' = ss_ev ss" "ss_event_index ss' = ss_event_index ss"
    "ss_alloc_id ss' = ss_alloc_id ss" "pend ss' = pend ss"
    unfolding pend_def by (subst e, simp)+
  show "j \<noteq> i \<Longrightarrow> ss_slot ss' j = ss_slot ss j" by (subst e) simp
qed

lemma pipe_ok_touch:
  assumes p: "pipe_ok rs ss" and t: "touches i ss ss'" and nr: "s_type (ss_slot ss i) \<noteq> SOCKET_TYPE_RESERVE"
  shows "pipe_ok rs ss'"
proof -
  have other: "j \<noteq> i \<Longrightarrow> ss_slot ss' j = ss_slot ss j" for j by (rule touches_frame(5) [OF t])
  have nr': "s_type (ss_slot ss' i) \<noteq> SOCKET_TYPE_RESERVE" using t nr by (auto simp: touches_def)
  have "waiting ss' sid" if "sid \<in> set (opens rs)" for sid
  proof -
    have w: "waiting ss sid" using p that by (auto simp: pipe_ok_def)
    then have "HASH_ID sid \<noteq> i" using nr by (auto simp: waiting_def)
    then show ?thesis using w by (simp add: waiting_def other)
  qed
  moreover have "s_id (ss_slot ss' j) \<in> set (opens rs) \<and> HASH_ID (s_id (ss_slot ss' j)) = j"
    if "s_type (ss_slot ss' j) = SOCKET_TYPE_RESERVE" for j
  proof -
    have "j \<noteq> i" using that nr' by auto
    then show ?thesis using p that other by (simp add: pipe_ok_def)
  qed
  ultimately show ?thesis using p by (simp add: pipe_ok_def)
qed

lemma sock_ok_touch: "touches i ss ss' \<Longrightarrow> \<forall>j. sock_ok (ss_slot ss j) \<Longrightarrow> sock_ok (ss_slot ss' j)"
  using touches_frame(5) [of i ss ss' j] by (cases "j = i") (auto simp: touches_def)

lemma ev_ok_touch:
  assumes "ev_ok ss" "touches i ss ss'" "i \<in> set (pend ss) \<Longrightarrow> busy ss' i"
  shows "ev_ok ss'"
proof -
  note f = touches_frame [OF assms(2)]
  have "busy ss' j" if "j \<in> set (pend ss)" for j
    using that assms(1,3) f(5) [of j] by (cases "j = i") (auto simp: ev_ok_def busy_def)
  then show ?thesis using assms(1) f by (simp add: ev_ok_def)
qed

lemma srv_ok_touch:
  assumes "srv_ok ss" "touches i ss ss'" "s_type (ss_slot ss i) \<noteq> SOCKET_TYPE_RESERVE" "i \<in> set (pend ss) \<Longrightarrow> busy ss' i"
  shows "srv_ok ss'"
  using assms pipe_ok_touch [OF _ assms(2,3)] sock_ok_touch [OF assms(2)] ev_ok_touch [OF _ assms(2)] touches_frame [OF assms(2)]
  by (simp add: srv_ok_def)

section \<open>Commands\<close>

lemma pipe_ok_head_opened:
  assumes "pipe_ok (r # rs) ss" "req_id r = Some sid" "req_open r = None"
  shows "opened ss sid"
  using assms by (auto simp: pipe_ok_def opened_def)

lemma req_id_open: "req_id r = Some sid \<Longrightarrow> req_open r = None"
  by (cases r) simp_all

text \<open>A request for an identifier that its slot does not have changes no slot.\<close>

lemma ctrl_cmd_other:
  assumes "ss_pipe ss = r # rs" "req_id r = Some sid" "plain_request r" "s_id (ss_slot ss (HASH_ID sid)) \<noteq> sid"
  shows "\<exists>ty m cs. ctrl_cmd k result ss = Inr (ty, m, log_calls cs (ss\<lparr>ss_pipe := rs\<rparr>))"
proof -
  have nil: "log_calls [] ss = ss" for ss by (simp add: log_calls_def)
  show ?thesis
  proof (cases r)
    case (Req_send prio sid' buf)
    then show ?thesis using assms by (cases buf) (auto simp: ctrl_cmd_def send_socket_def Let_def send_object_init_def)
  next
    case (Req_send_udp sid' buf a)
    then show ?thesis using assms by (cases buf) (auto simp: ctrl_cmd_def send_socket_def Let_def send_object_init_def)
  qed (use assms in \<open>auto simp: ctrl_cmd_def start_socket_def close_socket_def set_udp_address_def setopt_socket_def Let_def
         intro!: exI [of _ "[]"] nil [symmetric]\<close>)
qed

lemma ctrl_cmd_res_ok:
  assumes "ss_pipe ss = r # rs" "req_id r = Some sid \<or> req_open r = Some sid" "plain_request r"
    "sock_ok (ss_slot ss (HASH_ID sid))" "req_id r = Some sid \<Longrightarrow> opened ss sid" "req_open r = Some sid \<Longrightarrow> waiting ss sid"
  shows "res_ok (HASH_ID sid) (ss\<lparr>ss_pipe := rs\<rparr>) (ctrl_cmd k result ss)"
proof -
  let ?ss = "ss\<lparr>ss_pipe := rs\<rparr>"
  have o: "req_id r = Some sid \<Longrightarrow> opened ?ss sid" and w: "req_open r = Some sid \<Longrightarrow> waiting ?ss sid" and s: "sock_ok (ss_slot ?ss (HASH_ID sid))"
    using assms by (simp_all add: opened_def waiting_def)
  show ?thesis
  proof (cases r)
    case (Req_send prio sid' buf)
    then show ?thesis using assms o s by (cases buf) (auto simp: ctrl_cmd_def intro: send_socket_ok)
  next
    case (Req_send_udp sid' buf a)
    then show ?thesis using assms o s by (cases buf) (auto simp: ctrl_cmd_def intro: send_socket_ok)
  qed (use assms o w s in \<open>auto simp: ctrl_cmd_def intro: start_socket_ok bind_socket_ok listen_socket_ok close_socket_ok
         open_socket_ok set_udp_address_ok setopt_socket_ok add_udp_socket_ok\<close>)
qed

lemma pipe_ok_tl:
  assumes p: "pipe_ok (r # rs) ss" and t: "touches (HASH_ID sid) (ss\<lparr>ss_pipe := rs\<rparr>) ss'"
    and r: "req_open r = Some sid" and nr: "s_type (ss_slot ss' (HASH_ID sid)) \<noteq> SOCKET_TYPE_RESERVE"
  shows "pipe_ok rs ss'"
proof -
  have other: "j \<noteq> HASH_ID sid \<Longrightarrow> ss_slot ss' j = ss_slot ss j" for j using touches_frame(5) [OF t] by simp
  have w: "waiting ss sid" "sid \<notin> set (opens rs)" using p r by (auto simp: pipe_ok_def)
  have "waiting ss' q" if "q \<in> set (opens rs)" for q
  proof -
    have wq: "waiting ss q" using p that r by (auto simp: pipe_ok_def)
    then have "s_id (ss_slot ss (HASH_ID q)) = q" "s_id (ss_slot ss (HASH_ID sid)) = sid" using w(1) unfolding waiting_def by blast+
    then have "HASH_ID q \<noteq> HASH_ID sid" using w(2) that by metis
    then show ?thesis using wq by (simp add: waiting_def other)
  qed
  moreover have "s_id (ss_slot ss' j) \<in> set (opens rs) \<and> HASH_ID (s_id (ss_slot ss' j)) = j"
    if "s_type (ss_slot ss' j) = SOCKET_TYPE_RESERVE" for j
  proof -
    have j: "j \<noteq> HASH_ID sid" using that nr by auto
    then have "s_id (ss_slot ss j) \<in> set (opens (r # rs)) \<and> HASH_ID (s_id (ss_slot ss j)) = j"
      using p that other by (auto simp: pipe_ok_def)
    then show ?thesis using j r by (auto simp: other)
  qed
  ultimately show ?thesis using p r by (auto simp: pipe_ok_def)
qed

lemma clear_event_keeps:
  "(\<And>i. i \<in> set (List.map_filter ev_s es) \<Longrightarrow> s_type (slot i) \<noteq> SOCKET_TYPE_INVALID) \<Longrightarrow> clear_event slot sid es = es"
  by (induction es) (auto simp: map_filter_def split: option.splits)

lemma clear_event_remove:
  assumes "s_type (slot i) = SOCKET_TYPE_INVALID" "s_id (slot i) = sid"
    "\<And>j. j \<in> set (List.map_filter ev_s es) \<Longrightarrow> j \<noteq> i \<Longrightarrow> s_type (slot j) \<noteq> SOCKET_TYPE_INVALID"
  shows "List.map_filter ev_s (clear_event slot sid es) = remove1 i (List.map_filter ev_s es)"
  using assms(3)
proof (induction es)
  case Nil
  then show ?case by (simp add: map_filter_def)
next
  case (Cons e es)
  show ?case
  proof (cases "ev_s e")
    case None
    then show ?thesis using Cons by (simp add: List.map_filter_simps)
  next
    case (Some j)
    then have "j \<noteq> i \<Longrightarrow> s_type (slot j) \<noteq> SOCKET_TYPE_INVALID" using Cons.prems [of j] by (simp add: List.map_filter_simps)
    then show ?thesis using Some Cons assms(1,2) by (cases "j = i") (auto simp: List.map_filter_simps)
  qed
qed

lemma length_clear_event [simp]: "length (clear_event slot sid es) = length es"
  by (induction es) (auto split: option.split)

lemma clear_closed_keeps:
  assumes "\<And>i. i \<in> set (pend ss) \<Longrightarrow> busy ss i"
  shows "clear_closed_event m t ss = ss"
proof -
  have "clear_event (ss_slot ss) (sm_id m) (drop (ss_event_index ss) (ss_ev ss)) = drop (ss_event_index ss) (ss_ev ss)"
    using assms by (intro clear_event_keeps) (auto simp: pend_def busy_def)
  then show ?thesis by (simp add: clear_closed_event_def)
qed

lemma pend_clear:
  assumes "s_type (ss_slot ss i) = SOCKET_TYPE_INVALID" "s_id (ss_slot ss i) = sm_id m" "t = SOCKET_CLOSE \<or> t = SOCKET_ERR"
    "\<And>j. j \<in> set (pend ss) \<Longrightarrow> j \<noteq> i \<Longrightarrow> busy ss j" "ss_event_index ss \<le> length (ss_ev ss)"
  shows "pend (clear_closed_event m t ss) = remove1 i (pend ss)"
  using clear_event_remove [of "ss_slot ss" i "sm_id m" "drop (ss_event_index ss) (ss_ev ss)"] assms
  by (auto simp: pend_def clear_closed_event_def busy_def)

lemma srv_ok_closed:
  assumes h: "\<forall>j. sock_ok (ss_slot ss j)" "pipe_ok (ss_pipe ss) ss" "unat (ss_alloc_id ss) < 2 ^ 31"
    and e: "ss_event_index ss \<le> length (ss_ev ss)" "distinct (pend ss)" "\<And>j. j \<in> set (pend ss) \<Longrightarrow> j \<noteq> i \<Longrightarrow> busy ss j"
    and c: "i \<in> set (pend ss) \<Longrightarrow> busy ss i \<or> s_type (ss_slot ss i) = SOCKET_TYPE_INVALID \<and> s_id (ss_slot ss i) = sm_id m \<and> (t = SOCKET_CLOSE \<or> t = SOCKET_ERR)"
  shows "srv_ok (clear_closed_event m t ss)"
proof (cases "i \<in> set (pend ss) \<and> \<not> busy ss i")
  case False
  then have "j \<in> set (pend ss) \<Longrightarrow> busy ss j" for j using e(3) by blast
  then show ?thesis using h e(1,2) clear_closed_keeps [of ss m t] by (simp add: srv_ok_def ev_ok_def)
next
  case True
  then have p: "pend (clear_closed_event m t ss) = remove1 i (pend ss)" using c e(1,3) by (intro pend_clear) auto
  have s: "ss_slot (clear_closed_event m t ss) = ss_slot ss" "ss_pipe (clear_closed_event m t ss) = ss_pipe ss"
    "ss_alloc_id (clear_closed_event m t ss) = ss_alloc_id ss"
    "ss_event_index (clear_closed_event m t ss) \<le> length (ss_ev (clear_closed_event m t ss))"
    using e(1) by (auto simp: clear_closed_event_def)
  have "\<forall>j\<in>set (remove1 i (pend ss)). busy ss j" using e(2,3) by auto
  then show ?thesis using h e(2) p s by (simp add: srv_ok_def ev_ok_def busy_def pipe_ok_def waiting_def)
qed

lemma ctrl_open_done:
  assumes "ss_pipe ss = r # rs" "req_open r = Some sid" "waiting ss sid" "ctrl_cmd k result ss = Inr (ty, m, ss')"
  shows "s_type (ss_slot ss' (HASH_ID sid)) \<noteq> SOCKET_TYPE_RESERVE"
proof -
  have w: "waiting (ss\<lparr>ss_pipe := rs\<rparr>) sid" using assms(3) by (simp add: waiting_def)
  have w': "waiting (log_calls cs (ss\<lparr>ss_pipe := rs\<rparr>)) sid" for cs using w by simp
  show ?thesis using assms(1,2,4)
    by (cases r) (auto simp: ctrl_cmd_def bind_socket_def listen_socket_def open_socket_def add_udp_socket_def open_failed_def
        new_fd_waiting [OF w] new_fd_waiting [OF w'] Let_def split: if_splits addr_answer.splits connect_answer.splits prod.splits)
qed

text \<open>What is left to show of a step: the fault it may have, and that it keeps the invariant.\<close>

definition only_send_buffer :: "socket_server \<Rightarrow> fault \<Rightarrow> bool" where
  "only_send_buffer ss e = (e = Assert_fail ''send_buffer'' \<and> (\<exists>i. s_low (ss_slot ss i) \<noteq> []))"

definition ctrl_done :: "socket_server \<Rightarrow> handled res \<Rightarrow> bool" where
  "ctrl_done ss m =
     (case m of
        Inl e \<Rightarrow> only_send_buffer ss e
      | Inr (None, r, ss') \<Rightarrow> srv_ok ss'
      | Inr (Some t, r, ss') \<Rightarrow> srv_ok (clear_closed_event r t ss'))"

lemma ctrl_cmd_pipe:
  assumes pk: "pipe_ok (r # rs) ss" and t: "touches (HASH_ID sid) (ss\<lparr>ss_pipe := rs\<rparr>) ss'"
    and op: "req_id r = Some sid \<Longrightarrow> opened ss sid \<and> s_id (ss_slot ss (HASH_ID sid)) = sid"
    and nr: "req_open r = Some sid \<Longrightarrow> s_type (ss_slot ss' (HASH_ID sid)) \<noteq> SOCKET_TYPE_RESERVE"
    and r: "req_id r = Some sid \<or> req_open r = Some sid"
  shows "pipe_ok rs ss'"
proof (cases "req_open r = Some sid")
  case True
  then show ?thesis using pipe_ok_tl [OF pk t True nr] by blast
next
  case False
  then have id: "req_id r = Some sid" "req_open r = None" using r req_id_open by auto
  have "pipe_ok rs (ss\<lparr>ss_pipe := rs\<rparr>)" using pk id(2) by (simp add: pipe_ok_def waiting_def)
  moreover have "s_type (ss_slot (ss\<lparr>ss_pipe := rs\<rparr>) (HASH_ID sid)) \<noteq> SOCKET_TYPE_RESERVE" using op [OF id(1)] by (auto simp: opened_def)
  ultimately show ?thesis using pipe_ok_touch [OF _ t] by blast
qed

lemma ctrl_step_own:
  assumes ok: "srv_ok ss" and p: "ss_pipe ss = r # rs" and r: "req_id r = Some sid \<or> req_open r = Some sid"
    and own: "req_id r = Some sid \<Longrightarrow> s_id (ss_slot ss (HASH_ID sid)) = sid"
  shows "ctrl_done ss (ctrl_cmd k result ss)"
proof -
  let ?i = "HASH_ID sid" and ?ss = "ss\<lparr>ss_pipe := rs\<rparr>"
  have pk: "pipe_ok (r # rs) ss" and sk: "\<forall>j. sock_ok (ss_slot ss j)" and ev: "ev_ok ss" using ok p by (simp_all add: srv_ok_def)
  have pl: "plain_request r" using pk by (simp add: pipe_ok_def)
  have op: "opened ss sid" if "req_id r = Some sid" using pipe_ok_head_opened [OF pk that req_id_open [OF that]] .
  have wt: "waiting ss sid" if "req_open r = Some sid" using pk that by (simp add: pipe_ok_def)
  have ro: "res_ok ?i ?ss (ctrl_cmd k result ss)" using ctrl_cmd_res_ok [OF p r pl] sk op wt by blast
  show ?thesis
  proof (cases "ctrl_cmd k result ss")
    case (Inl e)
    then show ?thesis using ro by (auto simp: ctrl_done_def only_send_buffer_def)
  next
    case (Inr h)
    obtain ty m ss' where h: "h = (ty, m, ss')" by (metis prod_cases3)
    have ho: "handled_ok ?i ?ss (ty, m, ss')" using ro Inr h by simp
    then have t: "touches ?i ?ss ss'" by (simp add: handled_ok_def)
    note f = touches_frame [OF t]
    have sk': "\<forall>j. sock_ok (ss_slot ss' j)" using sock_ok_touch [OF t] sk by simp
    have pend: "pend ss' = pend ss" using f(6) by (simp add: pend_def)
    have pk': "pipe_ok rs ss'" using ctrl_cmd_pipe [OF pk t _ _ r] op own wt ctrl_open_done [OF p _ wt] Inr h by blast
    have other: "busy ss' j" if "j \<in> set (pend ss')" "j \<noteq> ?i" for j
      using that ev f(5) [of j] pend by (simp add: ev_ok_def busy_def)
    have own_ev: "busy ss' ?i \<or> s_type (ss_slot ss' ?i) = SOCKET_TYPE_INVALID \<and> s_id (ss_slot ss' ?i) = sm_id m \<and> (ty = Some SOCKET_CLOSE \<or> ty = Some SOCKET_ERR)"
      if "?i \<in> set (pend ss')"
    proof -
      have "busy ss ?i" using that ev pend by (simp add: ev_ok_def)
      then show ?thesis using ho by (auto simp: handled_ok_def touches_def busy_def)
    qed
    have ix: "ss_event_index ss' \<le> length (ss_ev ss')" "distinct (pend ss')" "unat (ss_alloc_id ss') < 2 ^ 31" "ss_pipe ss' = rs"
      using ev f pend ok by (simp_all add: ev_ok_def srv_ok_def)
    show ?thesis
    proof (cases ty)
      case None
      then have "ev_ok ss'" using own_ev other ix unfolding ev_ok_def by blast
      then show ?thesis using sk' pk' ix None Inr h by (simp add: ctrl_done_def srv_ok_def)
    next
      case (Some t')
      then have "srv_ok (clear_closed_event m t' ss')" using own_ev other ix sk' pk' by (intro srv_ok_closed [of ss' ?i]) auto
      then show ?thesis using Some Inr h by (simp add: ctrl_done_def)
    qed
  qed
qed

lemma ctrl_step_ok:
  assumes ok: "srv_ok ss" and p: "ss_pipe ss = r # rs"
  shows "ctrl_done ss (ctrl_cmd k result ss)"
proof -
  have pk: "pipe_ok (r # rs) ss" using ok p by (simp add: srv_ok_def)
  consider sid where "req_open r = Some sid" | sid where "req_id r = Some sid" "s_id (ss_slot ss (HASH_ID sid)) = sid"
    | sid where "req_id r = Some sid" "s_id (ss_slot ss (HASH_ID sid)) \<noteq> sid" | "req_id r = None" "req_open r = None"
    by blast
  then show ?thesis
  proof cases
    case 1
    then show ?thesis using ctrl_step_own [OF ok p] req_id_open by fastforce
  next
    case 2
    then show ?thesis using ctrl_step_own [OF ok p] by blast
  next
    case (3 sid)
    have "srv_ok (log_calls cs (ss\<lparr>ss_pipe := rs\<rparr>))" for cs
      using ok pk req_id_open [OF 3(1)] by (simp add: srv_ok_def log_calls_def pipe_ok_def waiting_def ev_ok_def pend_def busy_def)
    moreover from this have "clear_closed_event m t (log_calls cs (ss\<lparr>ss_pipe := rs\<rparr>)) = log_calls cs (ss\<lparr>ss_pipe := rs\<rparr>)" for m t cs
      by (intro clear_closed_keeps) (simp add: srv_ok_def ev_ok_def)
    moreover have "plain_request r" using pk by (simp add: pipe_ok_def)
    ultimately show ?thesis using ctrl_cmd_other [OF p 3(1) _ 3(2), of k result]
      by (auto simp: ctrl_done_def split: option.split)
  next
    case 4
    then have "r = Req_exit" by (cases r) simp_all
    moreover have o: "srv_ok (ss\<lparr>ss_pipe := rs\<rparr>)"
      using ok pk 4 by (simp add: srv_ok_def pipe_ok_def waiting_def ev_ok_def pend_def busy_def)
    ultimately show ?thesis using p by (simp add: ctrl_done_def ctrl_cmd_def clear_closed_event_def)
  qed
qed

section \<open>Events\<close>

text \<open>A slot that was free gets a new socket.\<close>

lemma srv_ok_fresh:
  assumes ok: "srv_ok ss" and j: "s_type (ss_slot ss j) = SOCKET_TYPE_INVALID" and w: "unat w < 2 ^ 31"
    and s: "sock_ok s" "s_type s \<noteq> SOCKET_TYPE_RESERVE"
  shows "srv_ok (ss\<lparr>ss_alloc_id := w, ss_slot := (ss_slot ss)(j := s), ss_calls := cs\<rparr>)"
proof -
  let ?ss = "ss\<lparr>ss_alloc_id := w, ss_slot := (ss_slot ss)(j := s), ss_calls := cs\<rparr>"
  have pk: "pipe_ok (ss_pipe ss) ss" and ev: "ev_ok ss" and sk: "\<forall>i. sock_ok (ss_slot ss i)" using ok by (simp_all add: srv_ok_def)
  have wt: "waiting ?ss sid" if "waiting ss sid" for sid using that j by (auto simp: waiting_def)
  then have "pipe_ok (ss_pipe ss) ?ss" using pk s(2) by (auto simp: pipe_ok_def)
  moreover have "i \<in> set (pend ss) \<Longrightarrow> i \<noteq> j" for i using ev j by (auto simp: ev_ok_def busy_def)
  then have "ev_ok ?ss" using ev by (auto simp: ev_ok_def pend_def busy_def)
  ultimately show ?thesis using sk s(1) w by (simp add: srv_ok_def)
qed

lemma report_accept_ok:
  assumes ok: "srv_ok ss"
  shows "\<exists>n m ss'. report_accept i k r ss = Inr (n, m, ss') \<and> srv_ok ss'"
proof (cases "os_accept k")
  case (Accepted fd peer)
  obtain sid ss1 where res: "reserve_id ss = (sid, ss1)" by fastforce
  have al: "unat (ss_alloc_id ss) < 2 ^ 31" using ok by (simp add: srv_ok_def)
  consider (a) "reserved ss sid ss1" | (b) w where "sid = -1" "unat w < 2 ^ 31" "ss1 = ss\<lparr>ss_alloc_id := w\<rparr>"
    using reserve_id_cases [OF al res] by blast
  then show ?thesis
  proof cases
    case a
    then obtain w where w: "unat w < 2 ^ 31" "s_type (ss_slot ss (HASH_ID sid)) = SOCKET_TYPE_INVALID" "0 \<le> sid"
      and e: "ss1 = upd_slot (HASH_ID sid) (\<lambda>s. s\<lparr>s_type := SOCKET_TYPE_RESERVE, s_id := sid, s_fd := -1\<rparr>) (ss\<lparr>ss_alloc_id := w\<rparr>)"
      unfolding reserved_def by blast
    have "sock_ok (ss_slot ss (HASH_ID sid))" using ok by (simp add: srv_ok_def)
    then have wt: "waiting ss1 sid" using w(2) by (simp add: e waiting_def sock_ok_def)
    let ?s = "(ss_slot ss (HASH_ID sid))\<lparr>s_id := sid, s_fd := fd, s_protocol := PROTOCOL_TCP, s_size := MIN_READ_BUFFER,
        s_opaque := s_opaque (ss_slot ss i), s_wb_size := 0, s_warn_size := 0, s_type := SOCKET_TYPE_PACCEPT\<rparr>"
    have "sock_ok ?s" using wt by (simp add: waiting_def e sock_ok_def)
    from srv_ok_fresh [OF ok w(2,1) this, of "ss_calls ss"]
    show ?thesis using Accepted res w(3) by (simp add: report_accept_def Let_def new_fd_waiting [OF wt]) (simp add: e upd_slot_def)
  next
    case b
    have "srv_ok (log_calls [Sys_close fd] ss1)"
      using ok b by (simp add: srv_ok_def log_calls_def pipe_ok_def waiting_def ev_ok_def pend_def busy_def)
    then show ?thesis using Accepted res b by (simp add: report_accept_def)
  qed
qed (use ok in \<open>simp_all add: report_accept_def Let_def\<close>)

definition step_done :: "socket_server \<Rightarrow> (poll_result \<times> socket_message \<times> socket_server) res \<Rightarrow> bool" where
  "step_done ss m = (case m of Inl e \<Rightarrow> only_send_buffer ss e | Inr (r, msg, ss') \<Rightarrow> srv_ok ss')"

lemma step_done_simps [simp]:
  "step_done ss (Inl e) = only_send_buffer ss e" "step_done ss (Inr (r, msg, ss')) = srv_ok ss'"
  by (simp_all add: step_done_def)

lemma srv_ok_handled:
  assumes ok: "srv_ok ss" and b: "busy ss i" "i \<notin> set (pend ss)" and h: "handled_ok i ss (ty, m, ss')"
  shows "srv_ok ss'"
  using ok b srv_ok_touch [OF ok] h by (auto simp: handled_ok_def busy_def)

text \<open>The event at the index that was just passed, seen again.\<close>

lemma srv_ok_again:
  assumes ok: "srv_ok ss" and b: "busy ss i" "i \<notin> set (pend ss)" and x: "ss_event_index ss = Suc n" "n < length (ss_ev ss)"
    and e: "ev_s e = Some i"
  shows "srv_ok (ss\<lparr>ss_ev := (ss_ev ss)[n := e], ss_event_index := n\<rparr>)"
proof -
  let ?ss = "ss\<lparr>ss_ev := (ss_ev ss)[n := e], ss_event_index := n\<rparr>"
  have "drop n ((ss_ev ss)[n := e]) = e # drop (Suc n) (ss_ev ss)" using x(2) by (simp add: Cons_nth_drop_Suc [symmetric])
  then have "pend ?ss = i # pend ss" using x(1) e by (simp add: pend_def List.map_filter_simps)
  then have "ev_ok ?ss" using ok b x(2) by (auto simp: srv_ok_def ev_ok_def busy_def)
  then show ?thesis using ok by (simp add: srv_ok_def pipe_ok_def waiting_def)
qed

lemma poll_transfer_ok:
  assumes ok: "srv_ok ss" and b: "busy ss i" "i \<notin> set (pend ss)" and x: "ss_event_index ss = Suc n" "n < length (ss_ev ss)"
    and e: "ss_ev ss ! n = e" "ev_s e = Some i"
  shows "step_done ss (poll_transfer i e k r ss)"
proof -
  have lv: "live (ss_slot ss i)" using ok b busy_live by (auto simp: srv_ok_def)
  show ?thesis
  proof (cases "ev_read e")
    case True
    let ?m = "if s_protocol (ss_slot ss i) = PROTOCOL_TCP then forward_message_tcp i k r ss else forward_message_udp i k r ss"
    have ro: "res_ok i ss ?m" using forward_message_tcp_ok [OF lv] forward_message_udp_ok [OF lv] by simp
    show ?thesis
    proof (cases ?m)
      case (Inl f)
      then show ?thesis using ro True by (auto simp: poll_transfer_def Let_def only_send_buffer_def)
    next
      case (Inr h)
      obtain ty m ss' where h: "h = (ty, m, ss')" by (metis prod_cases3)
      have ho: "handled_ok i ss (ty, m, ss')" using ro Inr h by simp
      have t: "touches i ss ss'" using ho by (simp add: handled_ok_def)
      have ok': "srv_ok ss'" by (rule srv_ok_handled [OF ok b ho])
      have fr: "ss_event_index ss' = Suc n" "n < length (ss_ev ss')" "ss_ev ss' ! n = e" "i \<notin> set (pend ss')"
        using touches_frame [OF t] x e b by simp_all
      have ag: "srv_ok (ss'\<lparr>ss_ev := (ss_ev ss')[n := e'], ss_event_index := n\<rparr>)"
        if "ty \<noteq> Some SOCKET_CLOSE" "ty \<noteq> Some SOCKET_ERR" "ev_s e' = Some i" for e'
        using srv_ok_again [OF ok' _ fr(4,1,2) that(3)] handled_live [OF ho lv that(1,2)] ok' by (simp add: busy_live srv_ok_def)
      have "ss'\<lparr>ss_ev := (ss_ev ss')[n := e], ss_event_index := n\<rparr> = ss'\<lparr>ss_event_index := n\<rparr>" using fr(2,3) by auto
      then show ?thesis using ag [of e] ag [of "e\<lparr>ev_read := False\<rparr>"] ok' True Inr h x e(2)
        by (auto simp: poll_transfer_def Let_def)
    qed
  next
    case False
    have ro: "res_ok i ss (send_buffer i k r ss)" by (rule send_buffer_ok [OF lv])
    show ?thesis
    proof (cases "ev_write e")
      case True
      then show ?thesis using False ro srv_ok_handled [OF ok b]
        by (cases "send_buffer i k r ss") (auto simp: poll_transfer_def Let_def only_send_buffer_def)
    next
      case nw: False
      then show ?thesis using False ok by (simp add: poll_transfer_def)
    qed
  qed
qed

lemma poll_event_ok:
  assumes ok: "srv_ok ss" and x: "ss_event_index ss < length (ss_ev ss)"
  shows "step_done ss (poll_event k r ss)"
proof -
  define n e ss1 where "n = ss_event_index ss" and "e = ss_ev ss ! ss_event_index ss" and "ss1 = ss\<lparr>ss_event_index := n + 1\<rparr>"
  have d: "drop n (ss_ev ss) = e # drop (Suc n) (ss_ev ss)" using x by (simp add: Cons_nth_drop_Suc n_def e_def)
  have p1: "pend ss1 = List.map_filter ev_s (drop (Suc n) (ss_ev ss))" by (simp add: pend_def ss1_def)
  have pd: "pend ss = (case ev_s e of None \<Rightarrow> pend ss1 | Some i \<Rightarrow> i # pend ss1)"
    unfolding p1 using d by (simp add: pend_def n_def [symmetric] List.map_filter_simps)
  have ev: "ev_ok ss" using ok by (simp add: srv_ok_def)
  have "ev_ok ss1" using ev pd x by (auto simp: ev_ok_def ss1_def busy_def n_def split: option.splits)
  then have ok1: "srv_ok ss1" using ok by (simp add: srv_ok_def ss1_def pipe_ok_def waiting_def)
  have sd: "step_done ss m = step_done ss1 m" for m by (auto simp: step_done_def only_send_buffer_def ss1_def split: sum.split)
  have pe: "poll_event k r ss = (case ev_s e of None \<Rightarrow> Inr (Continue, r, ss1) | Some i \<Rightarrow>
      (case s_type (ss_slot ss1 i) of
         SOCKET_TYPE_CONNECTING \<Rightarrow> res_bind (report_connect i k ss1) (\<lambda>(ty, result, ss). Inr (Return ty, result, ss))
       | SOCKET_TYPE_LISTEN \<Rightarrow> res_bind (report_accept i k r ss1) (\<lambda>(ok, result, ss).
             Inr (if ok > 0 then Return (Some SOCKET_ACCEPT) else if ok < 0 then Return (Some SOCKET_ERR) else Continue, result, ss))
       | SOCKET_TYPE_INVALID \<Rightarrow> Inr (Continue, r, ss1)
       | _ \<Rightarrow> poll_transfer i e k r ss1))"
    by (simp only: poll_event_def e_def ss1_def n_def Let_def)
  show ?thesis
  proof (cases "ev_s e")
    case None
    then show ?thesis using ok1 by (simp add: pe)
  next
    case (Some i)
    have b: "busy ss1 i" "i \<notin> set (pend ss1)" using ev pd Some by (simp_all add: ev_ok_def busy_def ss1_def)
    have lv: "live (ss_slot ss1 i)" using ok1 b busy_live by (auto simp: srv_ok_def)
    have 1: "step_done ss (res_bind (report_connect i k ss1) (\<lambda>(ty, result, ss). Inr (Return ty, result, ss)))"
      using report_connect_ok [OF lv, of k] srv_ok_handled [OF ok1 b]
      by (cases "report_connect i k ss1") (auto simp: only_send_buffer_def ss1_def)
    have 2: "step_done ss (res_bind (report_accept i k r ss1) (\<lambda>(ok, result, ss).
             Inr (if ok > 0 then Return (Some SOCKET_ACCEPT) else if ok < 0 then Return (Some SOCKET_ERR) else Continue, result, ss)))"
      using report_accept_ok [OF ok1, of i k r] by auto
    have 3: "step_done ss (poll_transfer i e k r ss1)"
      unfolding sd using x Some by (intro poll_transfer_ok [OF ok1 b, of n]) (simp_all add: ss1_def n_def e_def)
    show ?thesis using 1 2 3 ok1 by (simp add: pe Some split: socket_type.split)
  qed
qed

lemma map_filter_take: "List.map_filter f xs = List.map_filter f (take n xs) @ List.map_filter f (drop n xs)"
proof -
  have "List.map_filter f (as @ bs) = List.map_filter f as @ List.map_filter f bs" for as bs by (simp add: map_filter_def)
  from this [of "take n xs" "drop n xs"] show ?thesis by simp
qed

lemma poll_step_ok:
  assumes ok: "srv_ok ss" and w: "wait_ok k ss"
  shows "step_done ss (poll_step k r ss)"
proof (cases "ss_checkctrl ss \<and> ss_pipe ss \<noteq> []")
  case True
  then obtain q rs where "ss_pipe ss = q # rs" by (cases "ss_pipe ss") auto
  then have "ctrl_done ss (ctrl_cmd k r ss)" by (rule ctrl_step_ok [OF ok])
  then show ?thesis using True by (cases "ctrl_cmd k r ss") (auto simp: poll_step_def ctrl_done_def split: option.splits)
next
  case False
  let ?ss = "ss\<lparr>ss_checkctrl := False\<rparr>"
  have ok1: "srv_ok ?ss" using ok by (simp add: srv_ok_def pipe_ok_def waiting_def ev_ok_def pend_def busy_def)
  have osb: "step_done ss m = step_done (ss\<lparr>ss_checkctrl := c, ss_event_index := n, ss_ev := es\<rparr>) m"
    "step_done ss m = step_done (ss\<lparr>ss_checkctrl := c\<rparr>) m" for m c n es
    by (auto simp: step_done_def only_send_buffer_def split: sum.split)
  show ?thesis
  proof (cases "ss_event_index ss = length (ss_ev ss)")
    case idle: True
    define es where "es = (case os_wait k of Events es \<Rightarrow> take 64 es | _ \<Rightarrow> [])"
    let ?ss2 = "ss\<lparr>ss_checkctrl := True, ss_event_index := 0, ss_ev := es\<rparr>"
    have "distinct (List.map_filter ev_s es) \<and> (\<forall>i\<in>set (List.map_filter ev_s es). busy ss i)"
    proof (cases "os_wait k")
      case (Events xs)
      then have "distinct (List.map_filter ev_s xs)" "\<forall>i\<in>set (List.map_filter ev_s xs). busy ss i" using w by (simp_all add: wait_ok_def)
      then show ?thesis using Events by (simp add: es_def map_filter_take [of ev_s xs 64])
    qed (simp_all add: es_def List.map_filter_simps)
    then have ok2: "srv_ok ?ss2" using ok by (simp add: srv_ok_def pipe_ok_def waiting_def ev_ok_def pend_def busy_def)
    have "poll_step k r ss = (if es = [] then Inr (if os_wait k = Wait_EINTR then Continue else Return None, r, ?ss2) else poll_event k r ?ss2)"
      unfolding poll_step_def if_not_P [OF False] Let_def es_def [symmetric] using idle by simp
    then show ?thesis using ok2 poll_event_ok [OF ok2, of k r] osb(1) [where c = True and n = 0 and es = es]
      by (cases "es = []") simp_all
  next
    case more: False
    then have "ss_event_index ?ss < length (ss_ev ?ss)" using ok by (simp add: srv_ok_def ev_ok_def)
    from poll_event_ok [OF ok1 this, of k r] show ?thesis
      unfolding poll_step_def if_not_P [OF False] Let_def using more osb(2) by simp
  qed
qed

section \<open>Calls of services\<close>

definition pipe_ids :: "socket_server \<Rightarrow> int list" where
  "pipe_ids ss = List.map_filter req_id (ss_pipe ss)"

lemma ordered_append:
  "ordered (rs @ [r]) \<longleftrightarrow>
   ordered rs \<and> (\<forall>sid. req_open r = Some sid \<longrightarrow> sid \<notin> set (opens rs) \<and> sid \<notin> set (List.map_filter req_id rs))"
  by (induction rs) (auto simp: List.map_filter_simps split: option.splits)

lemma srv_ok_request:
  assumes "srv_ok ss" "req_open r = None" "plain_request r"
  shows "srv_ok (send_request r ss)"
  using assms by (simp add: srv_ok_def send_request_def pipe_ok_def ordered_append waiting_def ev_ok_def pend_def busy_def)

lemma srv_ok_open_request:
  assumes ok: "srv_ok ss" and res: "reserved ss sid ss1" and r: "req_open r = Some sid" "plain_request r"
    and f: "sid \<notin> set (pipe_ids ss)"
  shows "srv_ok (send_request r ss1)"
proof -
  let ?i = "HASH_ID sid"
  obtain w where w: "unat w < 2 ^ 31" "s_type (ss_slot ss ?i) = SOCKET_TYPE_INVALID"
    and e: "ss1 = upd_slot ?i (\<lambda>s. s\<lparr>s_type := SOCKET_TYPE_RESERVE, s_id := sid, s_fd := -1\<rparr>) (ss\<lparr>ss_alloc_id := w\<rparr>)"
    using res unfolding reserved_def by blast
  have pk: "pipe_ok (ss_pipe ss) ss" and ev: "ev_ok ss" and sk: "\<forall>i. sock_ok (ss_slot ss i)" using ok by (simp_all add: srv_ok_def)
  have l: "s_high (ss_slot ss ?i) = []" "s_low (ss_slot ss ?i) = []" using sk w(2) by (auto simp: sock_ok_def dest: spec [of _ ?i])
  have no: "q \<in> set (opens (ss_pipe ss)) \<Longrightarrow> HASH_ID q \<noteq> ?i" for q using pk w(2) by (auto simp: pipe_ok_def waiting_def)
  have "waiting ss1 q" if "q \<in> set (opens (ss_pipe ss)) \<or> q = sid" for q
    using that no l pk by (auto simp: e waiting_def pipe_ok_def)
  moreover have "ordered (ss_pipe ss @ [r])" using pk r(1) f no by (auto simp: pipe_ok_def ordered_append pipe_ids_def)
  moreover have "s_id (ss_slot ss1 i) \<in> set (opens (ss_pipe ss @ [r])) \<and> HASH_ID (s_id (ss_slot ss1 i)) = i"
    if "s_type (ss_slot ss1 i) = SOCKET_TYPE_RESERVE" for i
    using that pk r(1) by (cases "i = ?i") (simp_all add: e pipe_ok_def)
  ultimately have "pipe_ok (ss_pipe ss @ [r]) ss1" using pk r by (auto simp: pipe_ok_def)
  then have "pipe_ok (ss_pipe ss @ [r]) (send_request r ss1)" by (simp add: pipe_ok_def send_request_def waiting_def)
  moreover have "i \<in> set (pend ss) \<Longrightarrow> i \<noteq> ?i" for i using ev w(2) by (auto simp: ev_ok_def busy_def)
  then have "ev_ok (send_request r ss1)" using ev by (auto simp: ev_ok_def pend_def busy_def send_request_def e upd_slot_def)
  moreover have "sock_ok (ss_slot (send_request r ss1) j)" for j using sk l by (simp add: send_request_def e sock_ok_def)
  ultimately show ?thesis using w(1) by (simp add: srv_ok_def send_request_def e upd_slot_def)
qed

text \<open>
  The reachable states: the loop with any answers of the system, interleaved with calls of services. A
  call that opens a socket gets an identifier that no pending request names, which holds as long as
  services use only identifiers they were given. Buffers are plain memory: nothing in the program
  registers an object interface.
\<close>

inductive reach :: "socket_server \<Rightarrow> bool" where
  r_create: "reach (socket_server_create junk)"
| r_poll: "reach ss \<Longrightarrow> wait_ok k ss \<Longrightarrow> poll_step k m ss = Inr (r, m', ss') \<Longrightarrow> reach ss'"
| r_connect: "reach ss \<Longrightarrow> socket_server_connect opaque addr port ss = (sid, ss') \<Longrightarrow> sid \<notin> set (pipe_ids ss) \<Longrightarrow> reach ss'"
| r_listen: "reach ss \<Longrightarrow> socket_server_listen opaque fd ss = (sid, ss') \<Longrightarrow> sid \<notin> set (pipe_ids ss) \<Longrightarrow> reach ss'"
| r_bind: "reach ss \<Longrightarrow> socket_server_bind opaque fd ss = (sid, ss') \<Longrightarrow> sid \<notin> set (pipe_ids ss) \<Longrightarrow> reach ss'"
| r_udp: "reach ss \<Longrightarrow> socket_server_udp opaque fd v6 ss = (sid, ss') \<Longrightarrow> sid \<notin> set (pipe_ids ss) \<Longrightarrow> reach ss'"
| r_send: "reach ss \<Longrightarrow> plain_buf buf \<Longrightarrow> socket_server_send sid buf ss = Inr (n, ss') \<Longrightarrow> reach ss'"
| r_send_low: "reach ss \<Longrightarrow> plain_buf buf \<Longrightarrow> socket_server_send_lowpriority sid buf ss = Inr (n, ss') \<Longrightarrow> reach ss'"
| r_udp_send: "reach ss \<Longrightarrow> plain_buf buf \<Longrightarrow> socket_server_udp_send sid a buf junk ss = Inr (n, ss') \<Longrightarrow> reach ss'"
| r_udp_connect: "reach ss \<Longrightarrow> socket_server_udp_connect sid sa ss = (n, ss') \<Longrightarrow> reach ss'"
| r_start: "reach ss \<Longrightarrow> reach (socket_server_start opaque sid ss)"
| r_close: "reach ss \<Longrightarrow> reach (socket_server_close opaque sid ss)"
| r_shutdown: "reach ss \<Longrightarrow> reach (socket_server_shutdown opaque sid ss)"
| r_nodelay: "reach ss \<Longrightarrow> reach (socket_server_nodelay sid ss)"
| r_exit: "reach ss \<Longrightarrow> reach (socket_server_exit ss)"

lemma srv_ok_create: "srv_ok (socket_server_create junk)"
  by (simp add: srv_ok_def socket_server_create_def sock_ok_def pipe_ok_def ev_ok_def pend_def List.map_filter_simps)

lemma srv_ok_log: "srv_ok ss \<Longrightarrow> srv_ok (log_calls cs ss)"
  by (simp add: srv_ok_def log_calls_def pipe_ok_def waiting_def ev_ok_def pend_def busy_def)

lemma srv_ok_alloc: "srv_ok ss \<Longrightarrow> unat w < 2 ^ 31 \<Longrightarrow> srv_ok (ss\<lparr>ss_alloc_id := w\<rparr>)"
  by (simp add: srv_ok_def pipe_ok_def waiting_def ev_ok_def pend_def busy_def)

lemma reserve_call_ok:
  assumes ok: "srv_ok ss" and res: "reserve_id ss = (sid, ss1)"
  shows "if sid < 0 then sid = -1 \<and> srv_ok ss1 else (sid \<notin> set (pipe_ids ss) \<longrightarrow> (\<forall>r. req_open r = Some sid \<longrightarrow> plain_request r \<longrightarrow> srv_ok (send_request r ss1)))"
proof -
  have al: "unat (ss_alloc_id ss) < 2 ^ 31" using ok by (simp add: srv_ok_def)
  from reserve_id_cases [OF al res] show ?thesis
  proof
    assume r: "reserved ss sid ss1"
    then have "\<not> sid < 0" by (simp add: reserved_def)
    then show ?thesis using srv_ok_open_request [OF ok r] by simp
  qed (use srv_ok_alloc [OF ok] in auto)
qed

lemma server_send_ok: "srv_ok ss \<Longrightarrow> plain_buf buf \<Longrightarrow> server_send prio sid buf ss = Inr (n, ss') \<Longrightarrow> srv_ok ss'"
  by (cases buf) (auto simp: server_send_def Let_def free_buffer_def send_object_init_def split: if_splits intro: srv_ok_log srv_ok_request)

lemma udp_send_ok: "srv_ok ss \<Longrightarrow> plain_buf buf \<Longrightarrow> socket_server_udp_send sid a buf junk ss = Inr (n, ss') \<Longrightarrow> srv_ok ss'"
  by (cases buf) (auto simp: socket_server_udp_send_def Let_def free_buffer_def send_object_init_def
      split: if_splits option.splits intro: srv_ok_log srv_ok_request)

lemma reach_srv_ok: "reach ss \<Longrightarrow> srv_ok ss"
proof (induction rule: reach.induct)
  case (r_poll ss k m r m' ss')
  then show ?case using poll_step_ok [of ss k m] by simp
next
  case (r_connect ss opaque addr port sid ss')
  obtain sid1 ss1 where r: "reserve_id ss = (sid1, ss1)" by fastforce
  show ?case using r_connect reserve_call_ok [OF r_connect.IH r]
    by (auto simp: socket_server_connect_def r split: if_splits)
next
  case (r_listen ss opaque fd sid ss')
  obtain sid1 ss1 where r: "reserve_id ss = (sid1, ss1)" by fastforce
  show ?case using r_listen reserve_call_ok [OF r_listen.IH r]
    by (auto simp: socket_server_listen_def r split: if_splits intro: srv_ok_log)
next
  case (r_bind ss opaque fd sid ss')
  obtain sid1 ss1 where r: "reserve_id ss = (sid1, ss1)" by fastforce
  show ?case using r_bind reserve_call_ok [OF r_bind.IH r]
    by (auto simp: socket_server_bind_def r split: if_splits)
next
  case (r_udp ss opaque fd v6 sid ss')
  obtain sid1 ss1 where r: "reserve_id ss = (sid1, ss1)" by fastforce
  show ?case using r_udp reserve_call_ok [OF r_udp.IH r]
    by (auto simp: socket_server_udp_def r split: if_splits intro: srv_ok_log)
qed (auto simp: srv_ok_create socket_server_send_def socket_server_send_lowpriority_def socket_server_udp_connect_def
    socket_server_start_def socket_server_close_def socket_server_shutdown_def socket_server_nodelay_def socket_server_exit_def
    split: option.splits intro: server_send_ok udp_send_ok srv_ok_request)

end
