(* ===== verification/SocketStream.thy ===== *)
theory SocketStream
  imports SocketLoop
begin

text \<open>
  What a TCP socket of the server sends: whole messages one after the other, those of a priority in
  their order, however the system cuts the writes; and what can go wrong with messages of low priority.
\<close>

section \<open>Operations on one socket\<close>

datatype sock_op = Op_send priority nat bytes os | Op_write os

definition no_message :: socket_message where
  "no_message = \<lparr>sm_id = 0, sm_opaque = 0, sm_ud = 0, sm_data = No_data\<rparr>"

text \<open>A command to send and an event that the socket is writable, as \<open>ctrl_cmd\<close> and \<open>socket_server_poll\<close> handle them.\<close>

fun run_op :: "int \<Rightarrow> sock_op \<Rightarrow> socket_server \<Rightarrow> handled res" where
  "run_op sid (Op_send prio a d k) ss = send_socket sid (Plain a d) prio None k no_message ss"
| "run_op sid (Op_write k) ss = send_buffer (HASH_ID sid) k no_message ss"

text \<open>\<open>None\<close>: the socket was closed after an error.\<close>

fun run_ops :: "int \<Rightarrow> sock_op list \<Rightarrow> socket_server \<Rightarrow> socket_server option res" where
  "run_ops sid [] ss = Inr (Some ss)"
| "run_ops sid (q # qs) ss =
     (case run_op sid q ss of
        Inl e \<Rightarrow> Inl e
      | Inr (ty, m, ss') \<Rightarrow> if ty = Some SOCKET_CLOSE then Inr None else run_ops sid qs ss')"

text \<open>The bytes the system took for a descriptor.\<close>

fun written :: "int \<Rightarrow> os_call list \<Rightarrow> bytes" where
  "written fd [] = []"
| "written fd (Sys_write g b # cs) = (if g = fd then b @ written fd cs else written fd cs)"
| "written fd (c # cs) = written fd cs"

type_synonym tagged = "(priority \<times> bytes) list"

definition msgs :: "priority \<Rightarrow> tagged \<Rightarrow> bytes list" where
  "msgs p xs = map snd (filter (\<lambda>x. fst x = p) xs)"

fun sends :: "sock_op list \<Rightarrow> tagged" where
  "sends [] = []"
| "sends (Op_send prio a d k # qs) = (prio, d) # sends qs"
| "sends (Op_write k # qs) = sends qs"

text \<open>What is sent already of the first message of a list.\<close>

definition begun :: "write_buffer list \<Rightarrow> bytes" where
  "begun l = (case l of [] \<Rightarrow> [] | b # _ \<Rightarrow> take (wb_ptr b) (wb_data b))"

lemma begun_simps [simp]: "begun [] = []" "begun (b # l) = take (wb_ptr b) (wb_data b)"
  by (simp_all add: begun_def)

lemma msgs_append [simp]: "msgs p (xs @ ys) = msgs p xs @ msgs p ys" "msgs p [] = []"
  by (simp_all add: msgs_def)

lemma written_append [simp]: "written fd (cs @ ds) = written fd cs @ written fd ds"
  by (induction fd cs rule: written.induct) simp_all

section \<open>The loop over a list\<close>

definition wb_wf :: "write_buffer \<Rightarrow> bool" where
  "wb_wf b = (wb_ptr b \<le> length (wb_data b) \<and> wb_sz b = length (wb_data b) - wb_ptr b)"

definition list_wf :: "write_buffer list \<Rightarrow> bool" where
  "list_wf l = ((\<forall>b\<in>set l. wb_wf b) \<and> (\<forall>b\<in>set (tl l). wb_ptr b = 0))"

lemma in_set_tl: "x \<in> set (tl xs) \<Longrightarrow> x \<in> set xs"
  by (cases xs) simp_all

lemma send_loop_part:
  assumes "min n (wb_sz tmp) \<noteq> wb_sz tmp"
  shows "send_loop_tcp fd (Took n # ws) (tmp # list) =
    (tmp\<lparr>wb_ptr := wb_ptr tmp + min n (wb_sz tmp), wb_sz := wb_sz tmp - min n (wb_sz tmp)\<rparr> # list, ws,
     [Sys_write fd (take (min n (wb_sz tmp)) (drop (wb_ptr tmp) (wb_data tmp)))], min n (wb_sz tmp), False)"
  unfolding send_loop_tcp.simps Let_def by (rule if_P [OF assms])

text \<open>Some messages are completed, and the first of the rest may be begun.\<close>

lemma send_loop_tcp_stream:
  "send_loop_tcp fd ws l = (l', ws', calls, n, failed) \<Longrightarrow> list_wf l \<Longrightarrow>
   \<exists>dn. map wb_data l = dn @ map wb_data l' \<and> begun l @ written fd calls = concat dn @ begun l' \<and> list_wf l' \<and>
     (\<forall>b\<in>set l'. \<exists>c\<in>set l. wb_buffer b = wb_buffer c \<and> wb_start b = wb_start c)"
proof (induction fd ws l arbitrary: l' ws' calls n failed rule: send_loop_tcp.induct)
  case (6 fd m ws tmp list)
  let ?sz = "min m (wb_sz tmp)"
  have wf: "wb_wf tmp" "list_wf list" "begun list = []"
    using "6.prems"(2) by (auto simp: list_wf_def begun_def dest: in_set_tl split: list.split)
  show ?case
  proof (cases "?sz = wb_sz tmp")
    case False
    then have r: "l' = tmp\<lparr>wb_ptr := wb_ptr tmp + ?sz, wb_sz := wb_sz tmp - ?sz\<rparr> # list"
      "calls = [Sys_write fd (take ?sz (drop (wb_ptr tmp) (wb_data tmp)))]" using "6.prems"(1) unfolding send_loop_part [OF False] by auto
    have "?sz \<le> wb_sz tmp" by simp
    then show ?thesis unfolding r using wf(1) "6.prems"(2)
      by (intro exI [of _ "[]"]) (auto simp: take_add list_wf_def wb_wf_def)
  next
    case True
    obtain l2 ws2 calls2 n2 f2 where e: "send_loop_tcp fd ws list = (l2, ws2, calls2, n2, f2)" by (metis prod_cases5)
    then have r: "l' = l2" "calls = Sys_write fd (take ?sz (drop (wb_ptr tmp) (wb_data tmp))) # Free_buffer (wb_buffer tmp) # calls2"
      using "6.prems"(1) True by (auto simp: Let_def)
    obtain dn where dn: "map wb_data list = dn @ map wb_data l2" "written fd calls2 = concat dn @ begun l2" "list_wf l2"
      "\<forall>b\<in>set l2. \<exists>c\<in>set list. wb_buffer b = wb_buffer c \<and> wb_start b = wb_start c"
      using "6.IH" [OF refl refl _ e wf(2)] True wf(3) by auto
    have "take ?sz (drop (wb_ptr tmp) (wb_data tmp)) = drop (wb_ptr tmp) (wb_data tmp)" using wf(1) True by (simp add: wb_wf_def)
    then show ?thesis unfolding r using dn by (intro exI [of _ "wb_data tmp # dn"]) auto
  qed
qed (auto intro!: exI [of _ "[]"])

section \<open>The socket\<close>

definition tcp_open :: "int \<Rightarrow> int \<Rightarrow> socket \<Rightarrow> bool" where
  "tcp_open sid fd s = (s_type s = SOCKET_TYPE_CONNECTED \<and> s_protocol s = PROTOCOL_TCP \<and> s_id s = sid \<and> s_fd s = fd)"

lemma send_list_tcp_stream:
  assumes "tcp_open sid fd (ss_slot ss i)" "send_list i high k r ss = Inr ((ty, m, ss'), k')" "ty \<noteq> Some SOCKET_CLOSE"
  shows "\<exists>l ws calls n. send_loop_tcp fd (os_write k) (get_list high (ss_slot ss i)) = (l, ws, calls, n, False) \<and>
    tcp_open sid fd (ss_slot ss' i) \<and> get_list high (ss_slot ss' i) = l \<and> get_list (\<not> high) (ss_slot ss' i) = get_list (\<not> high) (ss_slot ss i) \<and>
    ss_calls ss' = ss_calls ss @ calls"
proof -
  let ?s = "ss_slot ss i"
  obtain l ws calls n failed where e: "send_loop_tcp fd (os_write k) (get_list high ?s) = (l, ws, calls, n, failed)" by (metis prod_cases5)
  have nf: "\<not> failed"
  proof
    assume failed
    then obtain x where x: "send_list i high k r ss = res_bind x (\<lambda>(result, ss). Inr ((Some SOCKET_CLOSE, result, ss), k\<lparr>os_write := ws\<rparr>))"
      using assms(1) e by (auto simp: send_list_def send_list_tcp_def Let_def tcp_open_def)
    then show False using assms(2,3) by (cases x) auto
  qed
  then have "ss' = log_calls calls (upd_slot i (\<lambda>s. set_list high l (s\<lparr>s_wb_size := s_wb_size s - int n\<rparr>)) ss)"
    using assms(1,2) e by (auto simp: send_list_def send_list_tcp_def Let_def tcp_open_def)
  then show ?thesis using e nf assms(1)
    by (cases high) (simp_all add: tcp_open_def set_list_def get_list_def log_calls_def upd_slot_def)
qed

lemma send_finish_stream:
  assumes "tcp_open sid fd (ss_slot ss i)" "send_finish i r ss = Inr (ty, m, ss')"
  shows "tcp_open sid fd (ss_slot ss' i) \<and> s_high (ss_slot ss' i) = [] \<and> s_low (ss_slot ss' i) = [] \<and>
    s_high (ss_slot ss i) = [] \<and> s_low (ss_slot ss i) = [] \<and> (\<exists>cs. ss_calls ss' = ss_calls ss @ cs \<and> written fd cs = [])"
  using assms by (auto simp: send_finish_def Let_def res_assert_Inr tcp_open_def send_buffer_empty_def log_calls_def upd_slot_def split: if_splits)

text \<open>The invariant: what was written is the messages done and what is begun of the next one.\<close>

definition stream_ok :: "int \<Rightarrow> bytes \<Rightarrow> tagged \<Rightarrow> os_call list \<Rightarrow> write_buffer list \<Rightarrow> write_buffer list \<Rightarrow> bool" where
  "stream_ok fd base xs calls high low =
     (list_wf high \<and> (\<forall>b\<in>set low. wb_wf b \<and> wb_ptr b = 0) \<and> (\<forall>b\<in>set (high @ low). wb_start b = sbuf_addr (wb_buffer b)) \<and>
      (\<exists>dn qh ql. written fd calls = base @ concat (map snd dn) @ begun high \<and>
         map snd qh = map wb_data high \<and> map snd ql = map wb_data low \<and> (\<forall>q\<in>set ql. fst q = PRIORITY_LOW) \<and>
         (\<forall>p. msgs p (dn @ qh @ ql) = msgs p xs)))"

lemma stream_ok_high:
  assumes "stream_ok fd base xs calls high low" "send_loop_tcp fd ws high = (l, ws', cs, n, f)"
  shows "stream_ok fd base xs (calls @ cs) l low"
proof -
  obtain dn qh ql where d: "written fd calls = base @ concat (map snd dn) @ begun high" "map snd qh = map wb_data high"
    "map snd ql = map wb_data low" "\<forall>q\<in>set ql. fst q = PRIORITY_LOW" "\<forall>p. msgs p (dn @ qh @ ql) = msgs p xs"
    using assms(1) by (auto simp: stream_ok_def)
  obtain ds where s: "map wb_data high = ds @ map wb_data l" "begun high @ written fd cs = concat ds @ begun l" "list_wf l"
    "\<forall>b\<in>set l. \<exists>c\<in>set high. wb_buffer b = wb_buffer c \<and> wb_start b = wb_start c"
    using send_loop_tcp_stream [OF assms(2)] assms(1) by (auto simp: stream_ok_def)
  obtain q1 q2 where q: "qh = q1 @ q2" "map snd q1 = ds" "map snd q2 = map wb_data l"
    using d(2) s(1) by (metis append_eq_map_conv)
  have "written fd (calls @ cs) = base @ concat (map snd (dn @ q1)) @ begun l" using d(1) s(2) q(2) by simp
  moreover have "\<forall>p. msgs p ((dn @ q1) @ q2 @ ql) = msgs p xs" using d(5) q(1) by simp
  ultimately have "\<exists>dn qh ql. written fd (calls @ cs) = base @ concat (map snd dn) @ begun l \<and>
      map snd qh = map wb_data l \<and> map snd ql = map wb_data low \<and> (\<forall>q\<in>set ql. fst q = PRIORITY_LOW) \<and> (\<forall>p. msgs p (dn @ qh @ ql) = msgs p xs)"
    using q(3) d(3,4) by blast
  moreover have "\<forall>b\<in>set (l @ low). wb_start b = sbuf_addr (wb_buffer b)"
  proof
    fix b assume "b \<in> set (l @ low)"
    then show "wb_start b = sbuf_addr (wb_buffer b)" using s(4) assms(1) by (fastforce simp: stream_ok_def)
  qed
  ultimately show ?thesis using s(3) assms(1) by (simp add: stream_ok_def)
qed

text \<open>When the first list is empty, the second one is sent, and its head moves up.\<close>

lemma stream_ok_low:
  assumes "stream_ok fd base xs calls [] low" "send_loop_tcp fd ws low = (l, ws', cs, n, f)"
  shows "stream_ok fd base xs (calls @ cs) (take 1 l) (drop 1 l)"
proof -
  obtain dn qh ql where d: "written fd calls = base @ concat (map snd dn)" "qh = []" "map snd ql = map wb_data low"
    "\<forall>q\<in>set ql. fst q = PRIORITY_LOW" "\<forall>p. msgs p (dn @ qh @ ql) = msgs p xs" using assms(1) by (auto simp: stream_ok_def)
  have bg: "begun low = []" using assms(1) by (auto simp: stream_ok_def begun_def split: list.split)
  have wf: "list_wf low" using assms(1) by (auto simp: stream_ok_def list_wf_def dest: in_set_tl)
  obtain ds where s: "map wb_data low = ds @ map wb_data l" "written fd cs = concat ds @ begun l" "list_wf l"
    "\<forall>b\<in>set l. \<exists>c\<in>set low. wb_buffer b = wb_buffer c \<and> wb_start b = wb_start c"
    using send_loop_tcp_stream [OF assms(2) wf] bg by auto
  obtain q1 q2 where q: "ql = q1 @ q2" "map snd q1 = ds" "map snd q2 = map wb_data l"
    using d(3) s(1) by (metis append_eq_map_conv)
  have b: "begun (take (Suc 0) l) = begun l" by (cases l) simp_all
  have st: "\<forall>b\<in>set l. wb_start b = sbuf_addr (wb_buffer b)" using s(4) assms(1) by (fastforce simp: stream_ok_def)
  have "written fd (calls @ cs) = base @ concat (map snd (dn @ q1)) @ begun (take 1 l)" using d(1) s(2) q(2) by (simp add: b)
  moreover have "\<forall>p. msgs p ((dn @ q1) @ take 1 q2 @ drop 1 q2) = msgs p xs" using d(2,5) q(1) by simp
  moreover have "map snd (take 1 q2) = map wb_data (take 1 l)" "map snd (drop 1 q2) = map wb_data (drop 1 l)"
    using q(3) by (simp_all only: take_map [symmetric] drop_map [symmetric])
  moreover have "\<forall>x\<in>set (drop 1 q2). fst x = PRIORITY_LOW" using d(4) q(1) by (auto dest: in_set_dropD)
  moreover have "list_wf (take 1 l)" "\<forall>b\<in>set (drop 1 l). wb_wf b \<and> wb_ptr b = 0"
    using s(3) by (cases l; simp add: list_wf_def)+
  moreover have "\<forall>b\<in>set (take 1 l @ drop 1 l). wb_start b = sbuf_addr (wb_buffer b)" using st by (simp only: append_take_drop_id)
  ultimately show ?thesis unfolding stream_ok_def by blast
qed

lemma stream_ok_calls: "written fd cs = [] \<Longrightarrow> stream_ok fd base xs (calls @ cs) high low = stream_ok fd base xs calls high low"
  by (simp add: stream_ok_def)

lemma send_buffer_stream:
  assumes o: "tcp_open sid fd (ss_slot ss i)" and st: "stream_ok fd base xs (ss_calls ss) (s_high (ss_slot ss i)) (s_low (ss_slot ss i))"
    and e: "send_buffer i k r ss = Inr (ty, m, ss')" "ty \<noteq> Some SOCKET_CLOSE"
  shows "tcp_open sid fd (ss_slot ss' i) \<and> stream_ok fd base xs (ss_calls ss') (s_high (ss_slot ss' i)) (s_low (ss_slot ss' i))"
proof -
  obtain ty1 m1 ss1 k1 where 1: "send_list i True k r ss = Inr ((ty1, m1, ss1), k1)"
    using e by (cases "send_list i True k r ss") (auto simp: send_buffer_def res_assert_Inr)
  have t1: "ty1 \<noteq> Some SOCKET_CLOSE" using e 1 by (auto simp: send_buffer_def res_assert_Inr)
  obtain l ws cs n where l: "send_loop_tcp fd (os_write k) (s_high (ss_slot ss i)) = (l, ws, cs, n, False)"
    and o1: "tcp_open sid fd (ss_slot ss1 i)" and h1: "s_high (ss_slot ss1 i) = l" "s_low (ss_slot ss1 i) = s_low (ss_slot ss i)"
    "ss_calls ss1 = ss_calls ss @ cs"
    using send_list_tcp_stream [OF o 1 t1] by (auto simp: get_list_def)
  have st1: "stream_ok fd base xs (ss_calls ss1) (s_high (ss_slot ss1 i)) (s_low (ss_slot ss1 i))"
    using stream_ok_high [OF st l] h1 by simp
  have fin: ?thesis if "send_finish i q ss2 = Inr (ty, m, ss')" "tcp_open sid fd (ss_slot ss2 i)"
      "stream_ok fd base xs (ss_calls ss2) [] []" for q ss2
    using send_finish_stream [OF that(2,1)] that(3) stream_ok_calls by auto
  consider (more) "s_high (ss_slot ss1 i) \<noteq> []" | (none) "s_high (ss_slot ss1 i) = []" "s_low (ss_slot ss1 i) = []"
    | (low) "s_high (ss_slot ss1 i) = []" "s_low (ss_slot ss1 i) \<noteq> []" by blast
  then show ?thesis
  proof cases
    case more
    then show ?thesis using e 1 t1 o1 st1 by (auto simp: send_buffer_def res_assert_Inr)
  next
    case none
    then have "send_finish i m1 ss1 = Inr (ty, m, ss')" using e 1 t1 by (simp add: send_buffer_def res_assert_Inr)
    then show ?thesis using fin o1 st1 none by simp
  next
    case low
    obtain ty2 m2 ss2 k2 where 2: "send_list i False k1 m1 ss1 = Inr ((ty2, m2, ss2), k2)"
      using e 1 t1 low by (cases "send_list i False k1 m1 ss1") (auto simp: send_buffer_def res_assert_Inr)
    have t2: "ty2 \<noteq> Some SOCKET_CLOSE" using e 1 2 t1 low by (auto simp: send_buffer_def res_assert_Inr)
    obtain l2 ws2 cs2 n2 where l2: "send_loop_tcp fd (os_write k1) (s_low (ss_slot ss1 i)) = (l2, ws2, cs2, n2, False)"
      and o2: "tcp_open sid fd (ss_slot ss2 i)" and h2: "s_low (ss_slot ss2 i) = l2" "s_high (ss_slot ss2 i) = []"
      "ss_calls ss2 = ss_calls ss1 @ cs2"
      using send_list_tcp_stream [OF o1 2 t2] low by (auto simp: get_list_def)
    have st2: "stream_ok fd base xs (ss_calls ss2) (take 1 l2) (drop 1 l2)" using stream_ok_low [OF st1 [unfolded low(1)] l2] h2 by simp
    show ?thesis
    proof (cases "list_uncomplete (s_low (ss_slot ss2 i))")
      case True
      then have "l2 \<noteq> []" "raise_uncomplete i ss2 = Inr ss'" using e 1 2 t1 t2 low h2
        by (auto simp: send_buffer_def res_assert_Inr res_bind_Inr list_uncomplete_def)
      then have "take 1 l2 = s_high (ss_slot ss' i)" "drop 1 l2 = s_low (ss_slot ss' i)" "ss_calls ss' = ss_calls ss2" "tcp_open sid fd (ss_slot ss' i)"
        using h2 o2 by (auto simp: raise_uncomplete_def Let_def res_assert_Inr tcp_open_def upd_slot_def neq_Nil_conv)
      then show ?thesis using st2 by simp
    next
      case False
      then have f: "send_finish i m2 ss2 = Inr (ty, m, ss')" using e 1 2 t1 t2 low by (simp add: send_buffer_def res_assert_Inr)
      then have "l2 = []" using send_finish_stream [OF o2 f] h2 by simp
      then show ?thesis using fin [OF f o2] st2 by simp
    qed
  qed
qed

lemma stream_ok_append:
  assumes st: "stream_ok fd base xs calls high low" and b: "wb_wf b" "wb_ptr b = 0" "wb_start b = sbuf_addr (wb_buffer b)" "wb_data b = d"
  shows "stream_ok fd base (xs @ [(PRIORITY_HIGH, d)]) calls (high @ [b]) low"
    "stream_ok fd base (xs @ [(PRIORITY_LOW, d)]) calls high (low @ [b])"
proof -
  obtain dn qh ql where q: "written fd calls = base @ concat (map snd dn) @ begun high" "map snd qh = map wb_data high"
    "map snd ql = map wb_data low" "\<forall>q\<in>set ql. fst q = PRIORITY_LOW" "\<forall>p. msgs p (dn @ qh @ ql) = msgs p xs"
    using st by (auto simp: stream_ok_def)
  have bg: "begun (high @ [b]) = begun high" using b(2) by (cases high) simp_all
  have wf: "list_wf (high @ [b])" using st b by (cases high) (auto simp: stream_ok_def list_wf_def)
  have lo: "msgs PRIORITY_HIGH ql = []" using q(4) by (auto simp: msgs_def filter_empty_conv)
  have m1: "\<forall>p. msgs p (dn @ (qh @ [(PRIORITY_HIGH, d)]) @ ql) = msgs p (xs @ [(PRIORITY_HIGH, d)])"
  proof
    fix p show "msgs p (dn @ (qh @ [(PRIORITY_HIGH, d)]) @ ql) = msgs p (xs @ [(PRIORITY_HIGH, d)])"
      using q(5) lo by (cases p) (auto simp: msgs_def dest: spec [of _ p])
  qed
  have m2: "\<forall>p. msgs p (dn @ qh @ (ql @ [(PRIORITY_LOW, d)])) = msgs p (xs @ [(PRIORITY_LOW, d)])" using q(5) by simp
  show "stream_ok fd base (xs @ [(PRIORITY_HIGH, d)]) calls (high @ [b]) low"
    unfolding stream_ok_def using st wf b q m1 bg
    by (intro conjI exI [of _ dn] exI [of _ "qh @ [(PRIORITY_HIGH, d)]"] exI [of _ ql]) (auto simp: stream_ok_def)
  show "stream_ok fd base (xs @ [(PRIORITY_LOW, d)]) calls high (low @ [b])"
    unfolding stream_ok_def using st b q m2
    by (intro conjI exI [of _ dn] exI [of _ qh] exI [of _ "ql @ [(PRIORITY_LOW, d)]"]) (auto simp: stream_ok_def)
qed

text \<open>A message that is written at once, in part or whole.\<close>

lemma stream_ok_direct:
  assumes st: "stream_ok fd base xs calls [] []" and n: "n \<le> length d"
  shows "n = length d \<Longrightarrow> stream_ok fd base (xs @ [(p, d)]) (calls @ [Sys_write fd (take n d)]) [] []"
    "stream_ok fd base (xs @ [(p, d)]) (calls @ [Sys_write fd (take n d)]) [new_wb \<lparr>so_buffer = a, so_data = d\<rparr> (Plain a d) n u] []"
proof -
  obtain dn where q: "written fd calls = base @ concat (map snd dn)" "\<forall>p. msgs p dn = msgs p xs"
    using st by (auto simp: stream_ok_def)
  show "stream_ok fd base (xs @ [(p, d)]) (calls @ [Sys_write fd (take n d)]) [] []" if "n = length d"
    unfolding stream_ok_def using q that
    by (intro conjI exI [of _ "dn @ [(p, d)]"] exI [of _ "[]"]) (auto simp: list_wf_def)
  show "stream_ok fd base (xs @ [(p, d)]) (calls @ [Sys_write fd (take n d)]) [new_wb \<lparr>so_buffer = a, so_data = d\<rparr> (Plain a d) n u] []"
    unfolding stream_ok_def using q n
    by (intro conjI exI [of _ dn] exI [of _ "[(p, d)]"] exI [of _ "[]"]) (auto simp: list_wf_def wb_wf_def new_wb_def)
qed

lemma warning_check_stream:
  assumes "warning_check i r ss = (ty, m, ss')" "tcp_open sid fd (ss_slot ss i)"
  shows "tcp_open sid fd (ss_slot ss' i) \<and> s_high (ss_slot ss' i) = s_high (ss_slot ss i) \<and> s_low (ss_slot ss' i) = s_low (ss_slot ss i) \<and>
    ss_calls ss' = ss_calls ss"
  using assms by (auto simp: warning_check_def Let_def tcp_open_def upd_slot_def split: if_splits)

lemma append_sendbuffer_slot:
  "ss_slot (append_sendbuffer i high b ss) i =
     set_list high (get_list high (ss_slot ss i) @ [b]) ((ss_slot ss i)\<lparr>s_wb_size := s_wb_size (ss_slot ss i) + int (wb_sz b)\<rparr>)"
  "ss_calls (append_sendbuffer i high b ss) = ss_calls ss"
  by (simp_all add: append_sendbuffer_def upd_slot_def)

lemma send_socket_stream:
  assumes i: "HASH_ID sid = i" and o: "tcp_open sid fd (ss_slot ss i)"
    and st: "stream_ok fd base xs (ss_calls ss) (s_high (ss_slot ss i)) (s_low (ss_slot ss i))"
    and e: "send_socket sid (Plain a d) prio None k r ss = Inr (ty, m, ss')" "ty \<noteq> Some SOCKET_CLOSE"
  shows "tcp_open sid fd (ss_slot ss' i) \<and> stream_ok fd base (xs @ [(prio, d)]) (ss_calls ss') (s_high (ss_slot ss' i)) (s_low (ss_slot ss' i))"
proof -
  let ?s = "ss_slot ss i" and ?so = "\<lparr>so_buffer = a, so_data = d\<rparr>"
  have s: "s_type ?s = SOCKET_TYPE_CONNECTED" "s_protocol ?s = PROTOCOL_TCP" "s_id ?s = sid" "s_fd ?s = fd" using o by (simp_all add: tcp_open_def)
  show ?thesis
  proof (cases "send_buffer_empty ?s")
    case False
    let ?ss = "append_sendbuffer i (prio = PRIORITY_HIGH) (new_wb ?so (Plain a d) 0 []) ss"
    have "warning_check i r ?ss = (ty, m, ss')" using e False s by (simp add: send_socket_def i Let_def send_object_init_def)
    moreover have "tcp_open sid fd (ss_slot ?ss i)" using o by (simp add: append_sendbuffer_slot tcp_open_def set_list_def)
    ultimately have w: "tcp_open sid fd (ss_slot ss' i)" "s_high (ss_slot ss' i) = s_high (ss_slot ?ss i)"
      "s_low (ss_slot ss' i) = s_low (ss_slot ?ss i)" "ss_calls ss' = ss_calls ss"
      using warning_check_stream by (auto simp: append_sendbuffer_slot(2))
    have "stream_ok fd base (xs @ [(prio, d)]) (ss_calls ss) (s_high (ss_slot ?ss i)) (s_low (ss_slot ?ss i))"
      using stream_ok_append [OF st, of "new_wb ?so (Plain a d) 0 []" d]
      by (cases prio) (simp_all add: append_sendbuffer_slot set_list_def get_list_def new_wb_def wb_wf_def)
    then show ?thesis using w by simp
  next
    case True
    then have em: "s_high ?s = []" "s_low ?s = []" by (simp_all add: send_buffer_empty_def)
    obtain n where n: "direct_write k (length d) = Some n"
      using e True s by (cases "direct_write k (length d)") (auto simp: send_socket_def i Let_def send_object_init_def res_bind_Inr)
    have nd: "n \<le> length d" using n by (auto simp: direct_write_def split: list.splits write_answer.splits)
    note dw = stream_ok_direct [OF st [unfolded em] nd, where p = prio]
    show ?thesis
    proof (cases "n = length d")
      case all: True
      then have "ss' = log_calls [Free_buffer (Plain a d)] (log_calls [Sys_write fd (take n d)] ss)"
        using e True s n by (simp add: send_socket_def i Let_def send_object_init_def)
      then show ?thesis using dw(1) [OF all] o em stream_ok_calls [of fd "[Free_buffer (Plain a d)]" base "xs @ [(prio, d)]" "ss_calls ss @ [Sys_write fd (take n d)]"]
        by (simp add: log_calls_def)
    next
      case part: False
      let ?ss = "log_calls [Sp_write fd True] (append_sendbuffer i True (new_wb ?so (Plain a d) n []) (log_calls [Sys_write fd (take n d)] ss))"
      have "warning_check i r ?ss = (ty, m, ss')" using e True s n part by (simp add: send_socket_def i Let_def send_object_init_def)
      moreover have "tcp_open sid fd (ss_slot ?ss i)" using o by (simp add: append_sendbuffer_slot tcp_open_def set_list_def)
      ultimately have w: "tcp_open sid fd (ss_slot ss' i)" "s_high (ss_slot ss' i) = s_high (ss_slot ?ss i)"
        "s_low (ss_slot ss' i) = s_low (ss_slot ?ss i)" "ss_calls ss' = ss_calls ?ss"
        using warning_check_stream by auto
      have "ss_calls ?ss = (ss_calls ss @ [Sys_write fd (take n d)]) @ [Sp_write fd True]" by (simp add: log_calls_def append_sendbuffer_slot(2))
      moreover have "s_high (ss_slot ?ss i) = [new_wb ?so (Plain a d) n []]" "s_low (ss_slot ?ss i) = []"
        using em by (simp_all add: append_sendbuffer_slot set_list_def get_list_def)
      moreover have "stream_ok fd base (xs @ [(prio, d)]) ((ss_calls ss @ [Sys_write fd (take n d)]) @ [Sp_write fd True]) [new_wb ?so (Plain a d) n []] []"
        by (simp only: stream_ok_calls written.simps dw(2))
      ultimately show ?thesis using w by simp
    qed
  qed
qed

end
