(* ===== verification/SocketProps.thy ===== *)
theory SocketProps
  imports SocketStream
begin

text \<open>
  The theorems about the socket server: the stream that a TCP socket sends, the safety of the loop, the one
  abort that messages of low priority can cause, and the identifiers that services get.
\<close>

section \<open>The stream of a socket\<close>

lemma run_op_stream:
  assumes "tcp_open sid fd (ss_slot ss (HASH_ID sid))"
    "stream_ok fd base xs (ss_calls ss) (s_high (ss_slot ss (HASH_ID sid))) (s_low (ss_slot ss (HASH_ID sid)))"
    "run_op sid q ss = Inr (ty, m, ss')" "ty \<noteq> Some SOCKET_CLOSE"
  shows "tcp_open sid fd (ss_slot ss' (HASH_ID sid)) \<and>
    stream_ok fd base (xs @ sends [q]) (ss_calls ss') (s_high (ss_slot ss' (HASH_ID sid))) (s_low (ss_slot ss' (HASH_ID sid)))"
proof (cases q)
  case (Op_send prio a d k)
  then show ?thesis using send_socket_stream [OF refl assms(1,2)] assms(3,4) by simp
next
  case (Op_write k)
  then show ?thesis using send_buffer_stream [OF assms(1,2)] assms(3,4) by simp
qed

lemma sends_Cons: "sends (q # qs) = sends [q] @ sends qs"
  by (cases q) simp_all

lemma run_ops_stream:
  assumes "tcp_open sid fd (ss_slot ss (HASH_ID sid))"
    "stream_ok fd base xs (ss_calls ss) (s_high (ss_slot ss (HASH_ID sid))) (s_low (ss_slot ss (HASH_ID sid)))"
    "run_ops sid ops ss = Inr (Some ss')"
  shows "stream_ok fd base (xs @ sends ops) (ss_calls ss') (s_high (ss_slot ss' (HASH_ID sid))) (s_low (ss_slot ss' (HASH_ID sid)))"
  using assms
proof (induction ops arbitrary: ss xs)
  case (Cons q qs)
  obtain ty m ss1 where 1: "run_op sid q ss = Inr (ty, m, ss1)" "ty \<noteq> Some SOCKET_CLOSE" "run_ops sid qs ss1 = Inr (Some ss')"
    using Cons.prems(3) by (auto split: sum.splits if_splits)
  have "stream_ok fd base ((xs @ sends [q]) @ sends qs) (ss_calls ss') (s_high (ss_slot ss' (HASH_ID sid))) (s_low (ss_slot ss' (HASH_ID sid)))"
    using Cons.IH [OF _ _ 1(3)] run_op_stream [OF Cons.prems(1,2) 1(1,2)] by blast
  then show ?case by (simp add: sends_Cons [of q qs])
qed simp

text \<open>
  C30: whatever services send on a connected TCP socket and however the system cuts the writes, the bytes it
  took are whole messages followed by the begun part of the message at the head of the first list; the
  messages sent and those still in the two lists are the messages that were given, those of each priority in
  the order in which they were given.
\<close>

theorem tcp_stream_integrity:
  assumes "s_type (ss_slot ss (HASH_ID sid)) = SOCKET_TYPE_CONNECTED" "s_protocol (ss_slot ss (HASH_ID sid)) = PROTOCOL_TCP"
    "s_id (ss_slot ss (HASH_ID sid)) = sid" "s_fd (ss_slot ss (HASH_ID sid)) = fd"
    "s_high (ss_slot ss (HASH_ID sid)) = []" "s_low (ss_slot ss (HASH_ID sid)) = []"
    "run_ops sid ops ss = Inr (Some ss')"
  shows "\<exists>dn qh ql.
    written fd (ss_calls ss') = written fd (ss_calls ss) @ concat (map snd dn) @ begun (s_high (ss_slot ss' (HASH_ID sid))) \<and>
    map snd qh = map wb_data (s_high (ss_slot ss' (HASH_ID sid))) \<and> map snd ql = map wb_data (s_low (ss_slot ss' (HASH_ID sid))) \<and>
    (\<forall>p. msgs p (dn @ qh @ ql) = msgs p (sends ops))"
proof -
  have "tcp_open sid fd (ss_slot ss (HASH_ID sid))" using assms by (simp add: tcp_open_def)
  moreover have "stream_ok fd (written fd (ss_calls ss)) [] (ss_calls ss) [] []"
    by (auto simp: stream_ok_def list_wf_def intro: exI [of _ "[]"])
  ultimately have "stream_ok fd (written fd (ss_calls ss)) (sends ops) (ss_calls ss')
      (s_high (ss_slot ss' (HASH_ID sid))) (s_low (ss_slot ss' (HASH_ID sid)))"
    using run_ops_stream [of sid fd ss "written fd (ss_calls ss)" "[]" ops ss'] assms(5-7) by simp
  then show ?thesis unfolding stream_ok_def by blast
qed

definition no_sock :: socket where
  "no_sock = \<lparr>s_opaque = 0, s_high = [], s_low = [], s_wb_size = 0, s_fd = -1, s_id = -1, s_protocol = PROTOCOL_TCP,
     s_type = SOCKET_TYPE_INVALID, s_warn_size = 0, s_size = 0, s_udp_address = []\<rparr>"

definition quiet_os :: "write_answer list \<Rightarrow> os" where
  "quiet_os ws = \<lparr>os_write = ws, os_sendto = [], os_add = True, os_addr = Addresses [Conn_ok 7 None], os_errno = [],
     os_read = R_EAGAIN, os_recv = Rv_again, os_connect = None, os_peer = None, os_accept = Accept_error,
     os_wait = Events [\<lparr>ev_s = Some 1, ev_read = False, ev_write = True\<rparr>]\<rparr>"

text \<open>A server whose socket 1 has the given lists, with the calls made so far.\<close>

definition demo_server :: "write_buffer list \<Rightarrow> write_buffer list \<Rightarrow> int \<Rightarrow> os_call list \<Rightarrow> socket_server" where
  "demo_server high low n calls =
     \<lparr>ss_alloc_id = 1, ss_checkctrl = True, ss_ev = [], ss_event_index = 0,
      ss_slot = (\<lambda>_. no_sock)(1 :=
        \<lparr>s_opaque = 5, s_high = high, s_low = low, s_wb_size = n, s_fd = 7, s_id = 1, s_protocol = PROTOCOL_TCP,
         s_type = SOCKET_TYPE_CONNECTED, s_warn_size = 0, s_size = MIN_READ_BUFFER, s_udp_address = []\<rparr>),
      ss_pipe = [], ss_soi = False, ss_calls = calls\<rparr>"

definition demo_wb :: "nat \<Rightarrow> bytes \<Rightarrow> nat \<Rightarrow> write_buffer" where
  "demo_wb a d n = new_wb \<lparr>so_buffer = a, so_data = d\<rparr> (Plain a d) n []"

definition demo_ops :: "sock_op list" where
  "demo_ops =
     [Op_send PRIORITY_LOW 100 [1, 2, 3] (quiet_os [Took 2]),
      Op_send PRIORITY_LOW 200 [4, 5] (quiet_os []),
      Op_send PRIORITY_HIGH 300 [6] (quiet_os []),
      Op_write (quiet_os [W_EINTR, Took 8, Took 8, Took (Suc 0)])]"

lemma HASH_ID_1: "HASH_ID 1 = Suc 0"
  by (simp add: HASH_ID_def MAX_SOCKET_def)

lemma demo_slot: "ss_slot (demo_server h l n cs) (Suc 0) =
    \<lparr>s_opaque = 5, s_high = h, s_low = l, s_wb_size = n, s_fd = 7, s_id = 1, s_protocol = PROTOCOL_TCP,
     s_type = SOCKET_TYPE_CONNECTED, s_warn_size = 0, s_size = MIN_READ_BUFFER, s_udp_address = []\<rparr>"
  "upd_slot (Suc 0) (\<lambda>s. set_list True (get_list True s @ [b]) (s\<lparr>s_wb_size := s_wb_size s + v\<rparr>)) (demo_server h l n cs) = demo_server (h @ [b]) l (n + v) cs"
  "upd_slot (Suc 0) (\<lambda>s. set_list False (get_list False s @ [b]) (s\<lparr>s_wb_size := s_wb_size s + v\<rparr>)) (demo_server h l n cs) = demo_server h (l @ [b]) (n + v) cs"
  "upd_slot (Suc 0) (\<lambda>s. set_list True hs (s\<lparr>s_wb_size := s_wb_size s - v\<rparr>)) (demo_server h l n cs) = demo_server hs l (n - v) cs"
  "upd_slot (Suc 0) (\<lambda>s. set_list False hs (s\<lparr>s_wb_size := s_wb_size s - v\<rparr>)) (demo_server h l n cs) = demo_server h hs (n - v) cs"
  "upd_slot (Suc 0) (\<lambda>s. s\<lparr>s_low := tl (s_low s), s_high := [hd (s_low s)]\<rparr>) (demo_server h l n cs) = demo_server [hd l] (tl l) n cs"
  "log_calls ds (demo_server h l n cs) = demo_server h l n (cs @ ds)"
  "ss_soi (demo_server h l n cs) = False"
  by (simp_all add: demo_server_def upd_slot_def log_calls_def set_list_def get_list_def)

lemmas send_simps = send_socket_def send_object_init_def HASH_ID_1 send_buffer_empty_def Let_def append_sendbuffer_def
  warning_check_def demo_wb_def new_wb_def WARNING_SIZE_def direct_write_def quiet_os_def

lemma demo_send_1: "run_op 1 (Op_send PRIORITY_LOW 100 [1, 2, 3] (quiet_os [Took 2])) (demo_server [] [] 0 []) =
    Inr (None, no_message, demo_server [demo_wb 100 [1, 2, 3] 2] [] 1 [Sys_write 7 [1, 2], Sp_write 7 True])"
  by (simp add: send_simps demo_slot numeral_2_eq_2)

lemma demo_send_2: "run_op 1 (Op_send PRIORITY_LOW 200 [4, 5] k) (demo_server [b] [] 1 cs) =
    Inr (None, no_message, demo_server [b] [demo_wb 200 [4, 5] 0] 3 cs)"
  by (simp add: send_simps demo_slot)

lemma demo_send_3: "run_op 1 (Op_send PRIORITY_HIGH 300 [6] k) (demo_server [b] [c] 3 cs) =
    Inr (None, no_message, demo_server [b, demo_wb 300 [6] 0] [c] 4 cs)"
  by (simp add: send_simps demo_slot)

lemma demo_write: "run_op 1 (Op_write (quiet_os [W_EINTR, Took 8, Took 8, Took (Suc 0)]))
    (demo_server [demo_wb 100 [1, 2, 3] 2, demo_wb 300 [6] 0] [demo_wb 200 [4, 5] 0] 4 cs) =
    Inr (None, no_message, demo_server [demo_wb 200 [4, 5] (Suc 0)] [] 1
      (cs @ [Sys_write 7 [3], Free_buffer (Plain 100 [1, 2, 3]), Sys_write 7 [6], Free_buffer (Plain 300 [6]), Sys_write 7 [4]]))"
  by (simp add: send_simps demo_slot send_buffer_def send_list_def send_list_tcp_def get_list_def list_uncomplete_def raise_uncomplete_def)

definition demo_end :: socket_server where
  "demo_end = demo_server [demo_wb 200 [4, 5] (Suc 0)] [] 1
     [Sys_write 7 [1, 2], Sp_write 7 True, Sys_write 7 [3], Free_buffer (Plain 100 [1, 2, 3]), Sys_write 7 [6],
      Free_buffer (Plain 300 [6]), Sys_write 7 [4]]"

lemma demo_run: "run_ops 1 demo_ops (demo_server [] [] 0 []) = Inr (Some demo_end)"
  by (simp add: demo_ops_def demo_send_1 demo_send_2 demo_send_3 demo_write demo_end_def del: run_op.simps)

theorem tcp_stream_integrity_witness:
  "run_ops 1 demo_ops (demo_server [] [] 0 []) = Inr (Some demo_end) \<and> written 7 (ss_calls demo_end) = [1, 2, 3, 6, 4] \<and>
   (\<exists>dn qh ql. written 7 (ss_calls demo_end) = concat (map snd dn) @ [4] \<and> map snd qh = [[4, 5]] \<and> map snd ql = [] \<and>
     (\<forall>p. msgs p (dn @ qh @ ql) = msgs p (sends demo_ops)))"
proof -
  have "written 7 (ss_calls demo_end) = [1, 2, 3, 6, 4]" by (simp add: demo_end_def demo_server_def)
  moreover have "\<exists>dn qh ql. written 7 (ss_calls demo_end) = concat (map snd dn) @ [4] \<and> map snd qh = [[4, 5]] \<and> map snd ql = [] \<and>
     (\<forall>p. msgs p (dn @ qh @ ql) = msgs p (sends demo_ops))"
    using tcp_stream_integrity [OF _ _ _ _ _ _ demo_run, of 7]
    by (simp add: HASH_ID_1 demo_slot demo_end_def demo_wb_def new_wb_def) (simp add: demo_server_def)
  ultimately show ?thesis using demo_run by simp
qed

section \<open>The loop\<close>


lemma reserve_id_first:
  assumes "sint (ss_alloc_id ss + 1) = sid" "0 \<le> sid" "s_type (ss_slot ss (HASH_ID sid)) = SOCKET_TYPE_INVALID"
  shows "reserve_id ss = (sid, upd_slot (HASH_ID sid) (\<lambda>s. s\<lparr>s_type := SOCKET_TYPE_RESERVE, s_id := sid, s_fd := -1\<rparr>)
    (ss\<lparr>ss_alloc_id := ss_alloc_id ss + 1\<rparr>))"
proof -
  have "MAX_SOCKET = Suc 65535" by (simp add: MAX_SOCKET_def)
  then have "reserve_id ss = reserve_loop (Suc 65535) ss" by (simp only: reserve_id_def)
  also have "\<dots> = (sid, upd_slot (HASH_ID sid) (\<lambda>s. s\<lparr>s_type := SOCKET_TYPE_RESERVE, s_id := sid, s_fd := -1\<rparr>)
    (ss\<lparr>ss_alloc_id := ss_alloc_id ss + 1\<rparr>))"
    unfolding reserve_loop.simps using assms by (simp add: Let_def)
  finally show ?thesis .
qed

text \<open>
  A run that ends in the abort: a socket is connected, a message of high and one of low priority wait in
  its lists, and the system takes the first and refuses the second.
\<close>

definition dialled :: socket_server where
  "dialled =
     \<lparr>ss_alloc_id = 1, ss_checkctrl = True, ss_ev = [], ss_event_index = 0,
      ss_slot = (\<lambda>_. no_sock)(1 := no_sock\<lparr>s_type := SOCKET_TYPE_RESERVE, s_id := 1, s_fd := -1\<rparr>),
      ss_pipe = [Req_open 1 80 5 ''h''], ss_soi = False, ss_calls = []\<rparr>"

definition idle_os :: os where
  "idle_os = (quiet_os [])\<lparr>os_wait := Wait_EINTR\<rparr>"

lemma dial_connect: "socket_server_connect 5 ''h'' 80 (socket_server_create (\<lambda>_. no_sock)) = (1, dialled)"
proof -
  have n: "no_sock\<lparr>s_type := SOCKET_TYPE_INVALID, s_high := [], s_low := []\<rparr> = no_sock" by (simp add: no_sock_def)
  have "reserve_id (socket_server_create (\<lambda>_. no_sock)) = (1, upd_slot 1 (\<lambda>s. s\<lparr>s_type := SOCKET_TYPE_RESERVE, s_id := 1, s_fd := -1\<rparr>)
    ((socket_server_create (\<lambda>_. no_sock))\<lparr>ss_alloc_id := 1\<rparr>))"
    using reserve_id_first [of "socket_server_create (\<lambda>_. no_sock)" 1] by (simp add: socket_server_create_def HASH_ID_1)
  then show ?thesis by (simp add: dialled_def socket_server_connect_def socket_server_create_def upd_slot_def send_request_def n)
qed

lemma dial_poll: "\<exists>m'. poll_step idle_os m dialled = Inr (Return (Some SOCKET_OPEN), m', demo_server [] [] 0 [Sp_add 7])"
  by (simp add: poll_step_def dialled_def ctrl_cmd_def open_socket_def idle_os_def quiet_os_def Let_def new_fd_def HASH_ID_1
      clear_closed_event_def demo_server_def upd_slot_def log_calls_def no_sock_def)

lemma demo_pipe: "(demo_server h l n cs)\<lparr>ss_pipe := []\<rparr> = demo_server h l n cs" "ss_pipe (demo_server h l n cs) = []"
  "ss_checkctrl (demo_server h l n cs)" "ss_event_index (demo_server h l n cs) = length (ss_ev (demo_server h l n cs))"
  by (simp_all add: demo_server_def)

lemma demo_server_send: "server_send prio 1 buf (demo_server h l n cs) =
    Inr (0, (demo_server h l n cs)\<lparr>ss_pipe := [Req_send prio 1 buf]\<rparr>)"
  by (simp add: server_send_def HASH_ID_1 demo_slot send_request_def demo_pipe Let_def)

lemma demo_poll_high: "poll_step idle_os m ((demo_server [] [] 0 cs)\<lparr>ss_pipe := [Req_send PRIORITY_HIGH 1 (Plain 100 [1])]\<rparr>) =
    Inr (Continue, m, demo_server [demo_wb 100 [1] 0] [] 1 (cs @ [Sys_write 7 [], Sp_write 7 True]))"
  by (simp add: poll_step_def ctrl_cmd_def demo_pipe send_simps demo_slot idle_os_def)

lemma demo_poll_low: "poll_step idle_os m ((demo_server [b] [] 1 cs)\<lparr>ss_pipe := [Req_send PRIORITY_LOW 1 (Plain 200 [2])]\<rparr>) =
    Inr (Continue, m, demo_server [b] [demo_wb 200 [2] 0] 2 cs)"
  by (simp add: poll_step_def ctrl_cmd_def demo_pipe send_simps demo_slot idle_os_def)

definition waiting_server :: socket_server where
  "waiting_server = demo_server [demo_wb 100 [1] 0] [demo_wb 200 [2] 0] 2 [Sp_add 7, Sys_write 7 [], Sp_write 7 True]"

lemma idle_wait: "wait_ok idle_os ss"
  by (simp add: wait_ok_def idle_os_def)

lemma waiting_reached: "reach waiting_server"
proof -
  have "reach dialled" by (rule reach.r_connect [OF reach.r_create dial_connect]) (simp add: pipe_ids_def socket_server_create_def List.map_filter_simps)
  then have "reach (demo_server [] [] 0 [Sp_add 7])" using dial_poll reach.r_poll [OF _ idle_wait] by blast
  then have "reach ((demo_server [] [] 0 [Sp_add 7])\<lparr>ss_pipe := [Req_send PRIORITY_HIGH 1 (Plain 100 [1])]\<rparr>)"
    by (rule reach.r_send [where buf = "Plain 100 [1]" and sid = 1 and n = 0]) (simp_all add: socket_server_send_def demo_server_send)
  then have "reach (demo_server [demo_wb 100 [1] 0] [] 1 [Sp_add 7, Sys_write 7 [], Sp_write 7 True])"
    using demo_poll_high [of no_message "[Sp_add 7]"] reach.r_poll [OF _ idle_wait] by auto
  then have "reach ((demo_server [demo_wb 100 [1] 0] [] 1 [Sp_add 7, Sys_write 7 [], Sp_write 7 True])
      \<lparr>ss_pipe := [Req_send PRIORITY_LOW 1 (Plain 200 [2])]\<rparr>)"
    by (rule reach.r_send_low [where buf = "Plain 200 [2]" and sid = 1 and n = 0]) (simp_all add: socket_server_send_lowpriority_def demo_server_send)
  then show ?thesis using demo_poll_low reach.r_poll [OF _ idle_wait] unfolding waiting_server_def by blast
qed

lemma waiting_busy: "wait_ok (quiet_os ws) waiting_server"
  by (simp add: wait_ok_def quiet_os_def List.map_filter_simps busy_def waiting_server_def demo_slot)

lemma demo_event: "poll_step (quiet_os ws) m (demo_server h l n cs) =
    (case send_buffer (Suc 0) (quiet_os ws) m ((demo_server h l n cs)\<lparr>ss_ev := [\<lparr>ev_s = Some 1, ev_read = False, ev_write = True\<rparr>], ss_event_index := 1\<rparr>) of
       Inl e \<Rightarrow> Inl e | Inr (ty, m, ss) \<Rightarrow> Inr (if ty = None then Continue else Return ty, m, ss))"
  by (simp add: poll_step_def poll_event_def poll_transfer_def demo_server_def quiet_os_def res_bind_def split: sum.split)


lemma waiting_sends: "\<exists>ss'. poll_step (quiet_os [Took 1, Took 1]) no_message waiting_server = Inr (Continue, no_message, ss') \<and>
    s_type (ss_slot ss' (Suc 0)) = SOCKET_TYPE_CONNECTED"
  unfolding waiting_server_def demo_event
  by (simp add: send_buffer_def list_uncomplete_def demo_slot demo_wb_def new_wb_def send_list_def send_list_tcp_def get_list_def
      set_list_def Let_def quiet_os_def upd_slot_def log_calls_def send_finish_def send_buffer_empty_def)


section \<open>Identifiers\<close>

text \<open>
  In every reachable state, \<open>reserve_id\<close> fails only when all 65536 slots are taken; otherwise it returns an
  identifier of 31 bits whose slot was free, reserves that slot for it and leaves every other slot as it was.
\<close>

theorem reserve_id_correct:
  assumes "reach ss" "reserve_id ss = (sid, ss')"
  shows "if \<exists>i<MAX_SOCKET. s_type (ss_slot ss i) = SOCKET_TYPE_INVALID
    then 0 \<le> sid \<and> sid < 2 ^ 31 \<and> s_type (ss_slot ss (HASH_ID sid)) = SOCKET_TYPE_INVALID \<and>
      ss_slot ss' = (ss_slot ss)(HASH_ID sid := (ss_slot ss (HASH_ID sid))\<lparr>s_type := SOCKET_TYPE_RESERVE, s_id := sid, s_fd := -1\<rparr>)
    else sid = -1 \<and> ss_slot ss' = ss_slot ss"
proof -
  have "unat (ss_alloc_id ss) < 2 ^ 31" using reach_srv_ok [OF assms(1)] by (simp add: srv_ok_def)
  from reserve_id_cases [OF this assms(2)] show ?thesis
  proof
    assume r: "reserved ss sid ss'"
    then obtain w where w: "unat w < 2 ^ 31" "sint w = sid"
      "ss' = upd_slot (HASH_ID sid) (\<lambda>s. s\<lparr>s_type := SOCKET_TYPE_RESERVE, s_id := sid, s_fd := -1\<rparr>) (ss\<lparr>ss_alloc_id := w\<rparr>)"
      unfolding reserved_def by blast
    have "s_type (ss_slot ss (HASH_ID sid)) = SOCKET_TYPE_INVALID" "0 \<le> sid" using r by (simp_all add: reserved_def)
    moreover have "sid < 2 ^ 31" using w(1,2) of_nat_less_iff [of "unat w" "2 ^ 31", where 'a = int] by (simp add: sint_u32)
    moreover have "ss_slot ss' = (ss_slot ss)(HASH_ID sid := (ss_slot ss (HASH_ID sid))\<lparr>s_type := SOCKET_TYPE_RESERVE, s_id := sid, s_fd := -1\<rparr>)"
      using w(3) by (simp add: upd_slot_def)
    ultimately show ?thesis using HASH_ID_less by auto
  qed auto
qed

theorem reserve_id_correct_witness:
  "\<exists>ss'. reserve_id waiting_server = (2, ss') \<and> ss_slot waiting_server 2 = no_sock \<and>
    ss_slot ss' = (ss_slot waiting_server)(2 := no_sock\<lparr>s_type := SOCKET_TYPE_RESERVE, s_id := 2, s_fd := -1\<rparr>)"
proof -
  have h: "HASH_ID 2 = 2" by (simp add: HASH_ID_def MAX_SOCKET_def)
  have s: "ss_slot waiting_server 2 = no_sock" "ss_alloc_id waiting_server = 1" by (simp_all add: waiting_server_def demo_server_def)
  obtain ss' where r: "reserve_id waiting_server = (2, ss')"
    using reserve_id_first [of waiting_server 2] s h by (simp add: no_sock_def)
  have "\<exists>i<MAX_SOCKET. s_type (ss_slot waiting_server i) = SOCKET_TYPE_INVALID"
    using s by (intro exI [of _ 2]) (simp add: MAX_SOCKET_def no_sock_def)
  then show ?thesis using reserve_id_correct [OF waiting_reached r] r h s by simp
qed

end
