(* ===== verification/CStrings.thy ===== *)
theory CStrings
  imports Prelude "HOL-Library.Char_ord" "HOL-Library.List_Lexorder"
begin

text \<open>
  The C library functions on strings that the kernel calls, and the kernel's own small
  string helpers. A C string is the list of its characters before the terminating NUL. The
  conversions are those of the calls in the sources: \<open>strtoul\<close> with base 16, \<open>strtol\<close> with
  base 10, and the formats \<open>%x\<close>, \<open>%08x\<close>, \<open>%d\<close>, \<open>%u\<close> of \<open>sprintf\<close>.
\<close>

definition bytes_string :: "bytes \<Rightarrow> string" where "bytes_string b = map (\<lambda>x. char_of (unat x)) b"

section \<open>Comparison\<close>

fun strcmp :: "string \<Rightarrow> string \<Rightarrow> int" where
  "strcmp [] [] = 0"
| "strcmp [] (y # ys) = -1"
| "strcmp (x # xs) [] = 1"
| "strcmp (x # xs) (y # ys) = (if x = y then strcmp xs ys else int (of_char x) - int (of_char y))"

section \<open>Numbers\<close>

definition is_space :: "char \<Rightarrow> bool" where
  "is_space c \<longleftrightarrow> of_char c = (32 :: nat) \<or> (9 \<le> (of_char c :: nat) \<and> of_char c \<le> (13 :: nat))"

text \<open>The value of a character as a digit of a number, \<open>None\<close> if it is none.\<close>

definition digit_value :: "nat \<Rightarrow> char \<Rightarrow> nat option" where
  "digit_value base c =
     (let n = of_char c :: nat;
          v = (if 48 \<le> n \<and> n \<le> 57 then Some (n - 48)
               else if 97 \<le> n \<and> n \<le> 122 then Some (n - 87)
               else if 65 \<le> n \<and> n \<le> 90 then Some (n - 55) else None)
      in case v of None \<Rightarrow> None | Some d \<Rightarrow> if d < base then Some d else None)"

text \<open>The digits at the front of a string, accumulated, and the rest of the string.\<close>

fun read_digits :: "nat \<Rightarrow> nat \<Rightarrow> string \<Rightarrow> nat \<times> string" where
  "read_digits base acc [] = (acc, [])"
| "read_digits base acc (c # cs) =
     (case digit_value base c of
        None \<Rightarrow> (acc, c # cs)
      | Some d \<Rightarrow> read_digits base (acc * base + d) cs)"

text \<open>
  Sign and digits after leading white space. \<open>strtoul\<close> and \<open>strtol\<close> of a 64-bit platform
  saturate at the ends of their range; the callers then keep the low 32 bits. The optional
  prefix \<open>0x\<close> of base 16 is accepted.
\<close>

definition read_sign :: "string \<Rightarrow> bool \<times> string" where
  "read_sign s = (case s of
      [] \<Rightarrow> (False, [])
    | c # cs \<Rightarrow> if c = CHR ''-'' then (True, cs) else if c = CHR ''+'' then (False, cs) else (False, c # cs))"

definition skip_0x :: "string \<Rightarrow> string" where
  "skip_0x s = (case s of
      z # x # d # cs \<Rightarrow>
        if z = CHR ''0'' \<and> (x = CHR ''x'' \<or> x = CHR ''X'') \<and> digit_value 16 d \<noteq> None then d # cs else s
    | _ \<Rightarrow> s)"

definition strtoul16 :: "string \<Rightarrow> u64" where
  "strtoul16 s =
     (let (neg, t) = read_sign (dropWhile is_space s);
          n = fst (read_digits 16 0 (skip_0x t))
      in if n \<ge> 2 ^ 64 then - 1 else if neg then - of_nat n else of_nat n)"

definition strtol10 :: "string \<Rightarrow> int" where
  "strtol10 s =
     (let (neg, t) = read_sign (dropWhile is_space s);
          n = int (fst (read_digits 10 0 t))
      in if neg then max (- (2 ^ 63)) (- n) else min (2 ^ 63 - 1) n)"

definition digit_char :: "bool \<Rightarrow> nat \<Rightarrow> char" where
  "digit_char upper d = char_of (if d < 10 then 48 + d else if upper then 55 + d else 87 + d)"

fun show_base :: "nat \<Rightarrow> nat \<Rightarrow> string" where
  "show_base b n =
     (if b < 2 \<or> n < b then [digit_char False n] else show_base b (n div b) @ [digit_char False (n mod b)])"

declare show_base.simps [simp del]

definition fmt_x :: "u32 \<Rightarrow> string" where "fmt_x w = show_base 16 (unat w)"
definition fmt_u :: "u32 \<Rightarrow> string" where "fmt_u w = show_base 10 (unat w)"

definition fmt_d :: "int \<Rightarrow> string" where
  "fmt_d i = (if i < 0 then CHR ''-'' # show_base 10 (nat (- i)) else show_base 10 (nat i))"

definition fmt_08x :: "u32 \<Rightarrow> string" where
  "fmt_08x w = (let s = fmt_x w in replicate (8 - length s) CHR ''0'' @ s)"

text \<open>\<open>id_to_hex\<close> of \<open>skynet_server.c\<close>: a colon and eight upper-case hexadecimal digits.\<close>

definition id_to_hex :: "u32 \<Rightarrow> string" where
  "id_to_hex w = CHR '':'' # map (\<lambda>i. digit_char True (unat (drop_bit ((7 - i) * 4) w AND 0xf))) [0..<8]"

text \<open>\<open>copy_name\<close>: at most 16 characters, padded with NUL.\<close>

definition GLOBALNAME_LENGTH :: nat where "GLOBALNAME_LENGTH = 16"

definition copy_name :: "string \<Rightarrow> string" where
  "copy_name addr = (let n = take GLOBALNAME_LENGTH addr in n @ replicate (GLOBALNAME_LENGTH - length n) (CHR 0x00))"

section \<open>Lemmas on comparison\<close>

lemma strcmp_self [simp]: "strcmp a a = 0"
  by (induction a) auto

lemma strcmp_eq_0 [simp]: "strcmp a b = 0 \<longleftrightarrow> a = b"
  by (induction a b rule: strcmp.induct) auto

lemma strcmp_less: "strcmp a b < 0 \<longleftrightarrow> a < b"
proof (induction a b rule: strcmp.induct)
  case (4 x xs y ys)
  then show ?case by (auto simp: less_char_def)
qed auto

lemma strcmp_greater: "0 < strcmp a b \<longleftrightarrow> b < a"
  using strcmp_less [of a b] strcmp_eq_0 [of a b] by (metis linorder_cases not_less_iff_gr_or_eq)

section \<open>Reading back what was printed\<close>

lemma digit_value_digit_char:
  "d < base \<Longrightarrow> base \<le> 16 \<Longrightarrow> digit_value base (digit_char up d) = Some d"
  by (auto simp: digit_value_def digit_char_def Let_def)

lemma read_digits_append:
  "(\<forall>c \<in> set xs. digit_value b c \<noteq> None) \<Longrightarrow>
   read_digits b acc (xs @ ys) = read_digits b (fst (read_digits b acc xs)) ys"
  by (induction xs arbitrary: acc) (auto split: option.splits)

lemma show_base_digits: "2 \<le> b \<Longrightarrow> b \<le> 16 \<Longrightarrow> \<forall>c \<in> set (show_base b n). digit_value b c \<noteq> None"
proof (induction b n rule: show_base.induct)
  case (1 b n)
  then show ?case
    by (cases "n < b") (auto simp: show_base.simps [of b n] digit_value_digit_char)
qed

lemma read_show_base: "2 \<le> b \<Longrightarrow> b \<le> 16 \<Longrightarrow> read_digits b 0 (show_base b n) = (n, [])"
proof (induction b n rule: show_base.induct)
  case (1 b n)
  show ?case
  proof (cases "n < b")
    case True
    with 1 show ?thesis by (simp add: show_base.simps [of b n] digit_value_digit_char)
  next
    case False
    with 1 have "read_digits b 0 (show_base b (n div b)) = (n div b, [])" by simp
    with False 1 show ?thesis
      using read_digits_append [OF show_base_digits [of b "n div b"], of 0 "[digit_char False (n mod b)]"]
      by (simp add: show_base.simps [of b n] digit_value_digit_char)
  qed
qed

lemma hex_digit_plain:
  assumes "digit_value 16 c \<noteq> None"
  shows "\<not> is_space c \<and> c \<noteq> CHR ''-'' \<and> c \<noteq> CHR ''+'' \<and> c \<noteq> CHR ''x'' \<and> c \<noteq> CHR ''X''"
  using assms by (auto simp: digit_value_def is_space_def Let_def split: if_splits)

lemma strtoul16_digits:
  assumes "\<forall>c \<in> set s. digit_value 16 c \<noteq> None" "fst (read_digits 16 0 s) < 2 ^ 64"
  shows "strtoul16 s = of_nat (fst (read_digits 16 0 s))"
proof -
  have plain: "\<not> is_space c \<and> c \<noteq> CHR ''-'' \<and> c \<noteq> CHR ''+'' \<and> c \<noteq> CHR ''x'' \<and> c \<noteq> CHR ''X''"
    if "c \<in> set s" for c
    using assms(1) that hex_digit_plain by blast
  have "dropWhile is_space s = s" using plain by (cases s) auto
  moreover have "read_sign s = (False, s)" using plain by (cases s) (auto simp: read_sign_def)
  moreover have "skip_0x s = s" using plain by (auto simp: skip_0x_def split: list.splits)
  ultimately show ?thesis using assms(2) by (simp add: strtoul16_def)
qed

lemma unat_u32_less: "unat (w :: u32) < 2 ^ 64"
  using unat_u32_lt [of w] by simp

lemma strtoul16_fmt_x: "strtoul16 (fmt_x w) = ucast w"
  using strtoul16_digits [of "fmt_x w"] show_base_digits [of 16 "unat w"] read_show_base [of 16 "unat w"]
  by (simp add: fmt_x_def unat_u32_less [simplified])

lemma read_digits_map:
  "\<forall>d \<in> set ds. d < 16 \<Longrightarrow>
   read_digits 16 acc (map (digit_char up) ds) = (foldl (\<lambda>a d. a * 16 + d) acc ds, [])"
  by (induction ds arbitrary: acc) (auto simp: digit_value_digit_char)

lemma nibbles_foldl:
  "n < 16 ^ 8 \<Longrightarrow> m \<le> 8 \<Longrightarrow>
   foldl (\<lambda>a d. a * 16 + d) 0 (map (\<lambda>i. n div 16 ^ (7 - i) mod 16) [0..<m]) = (n :: nat) div 16 ^ (8 - m)"
proof (induction m)
  case (Suc m)
  then have "8 - m = Suc (7 - m)" "8 - Suc m = 7 - m" by simp_all
  moreover have "n div 16 ^ Suc (7 - m) * 16 + n div 16 ^ (7 - m) mod 16 = n div 16 ^ (7 - m)"
    by (simp add: div_mult2_eq mult.commute [of 16])
  ultimately show ?case using Suc by simp
qed simp

lemma unat_nibble: "unat (drop_bit k (w :: u32) AND 0xf) = unat w div 2 ^ k mod 16"
proof -
  have "drop_bit k w AND 0xf = take_bit 4 (drop_bit k w)"
    by (simp add: take_bit_eq_mask mask_eq_exp_minus_1)
  moreover have "unat (take_bit 4 (drop_bit k w)) = take_bit 4 (drop_bit k (unat w))"
    by (simp only: unsigned_take_bit_eq unsigned_drop_bit_eq) simp
  ultimately show ?thesis by (simp add: take_bit_eq_mod drop_bit_eq_div)
qed

lemma id_to_hex_eq:
  "id_to_hex w = CHR '':'' # map (digit_char True) (map (\<lambda>i. unat w div 16 ^ (7 - i) mod 16) [0..<8])"
  by (simp add: id_to_hex_def unat_nibble upt_conv_Cons)

text \<open>
  The printed form of a handle is read back as that handle: the reply of the LAUNCH
  command (\<open>id_to_hex\<close>), given to \<open>skynet_queryname\<close> or \<open>skynet_sendname\<close> (a colon, then
  \<open>strtoul\<close> with base 16), denotes the service it was made from; so does the reply of REG
  and QUERY (\<open>%x\<close>).
\<close>

theorem handle_text_roundtrip:
  "strtoul16 (tl (id_to_hex w)) = ucast w \<and> strtoul16 (fmt_x w) = ucast w"
proof -
  let ?ds = "map (\<lambda>i. unat w div 16 ^ (7 - i) mod 16) [0..<8]"
  have n: "unat w < 16 ^ 8" using unat_u32_lt [of w] by simp
  have small: "\<forall>d \<in> set ?ds. d < 16" by auto
  have "read_digits 16 0 (map (digit_char True) ?ds) = (unat w, [])"
    using read_digits_map [OF small, of 0 True] nibbles_foldl [OF n, of 8] by simp
  moreover have "\<forall>c \<in> set (map (digit_char True) ?ds). digit_value 16 c \<noteq> None"
    using small digit_value_digit_char [of _ 16 True] by fastforce
  ultimately have "strtoul16 (map (digit_char True) ?ds) = ucast w"
    using strtoul16_digits [of "map (digit_char True) ?ds"] unat_u32_less [of w] by simp
  then show ?thesis by (simp add: id_to_hex_eq strtoul16_fmt_x del: upt.simps)
qed

end
