(* ===== verification/HandleStorage.thy ===== *)
theory HandleStorage
  imports CStrings
begin

text \<open>
  The registry of services, \<open>skynet-src/skynet_handle.c\<close>: a hash table from handles to
  contexts whose size is a power of two, and a sorted array of names searched by bisection.
  The contexts are an arbitrary type \<open>'c\<close>; the function \<open>hof\<close> stands for
  \<open>skynet_context_handle\<close>, which reads the handle field of a context at the time of the
  call. The readers-writer lock makes every operation atomic.
\<close>

section \<open>Data\<close>

definition HANDLE_MASK :: u32 where "HANDLE_MASK = 0xffffff"
definition HANDLE_REMOTE_SHIFT :: nat where "HANDLE_REMOTE_SHIFT = 24"
definition DEFAULT_SLOT_SIZE :: nat where "DEFAULT_SLOT_SIZE = 4"
definition MAX_SLOT_SIZE :: nat where "MAX_SLOT_SIZE = 0x40000000"

text \<open>\<open>slot_size\<close> and \<open>name_cap\<close> are the lengths of the two arrays.\<close>

record 'c handle_storage =
  hs_harbor :: u32
  hs_index :: u32
  hs_slot :: "'c option list"
  hs_name :: "(string \<times> u32) list"
  hs_name_count :: nat

definition skynet_handle_init :: "int \<Rightarrow> 'c handle_storage" where
  "skynet_handle_init harbor = \<lparr>
     hs_harbor = push_bit HANDLE_REMOTE_SHIFT (of_int harbor AND 0xff),
     hs_index = 1, hs_slot = replicate DEFAULT_SLOT_SIZE None,
     hs_name = replicate 2 ('''', 0), hs_name_count = 0\<rparr>"

section \<open>The hash table\<close>

definition slot_hash :: "nat \<Rightarrow> u32 \<Rightarrow> nat" where
  "slot_hash n handle = unat (handle AND (of_nat n - 1))"

text \<open>The inner loop of \<open>skynet_handle_register\<close>: the first handle whose slot is free.\<close>

function register_scan :: "'c option list \<Rightarrow> u32 \<Rightarrow> nat \<Rightarrow> u32 option" where
  "register_scan slot index i =
     (if i < length slot then
        let handle = (of_nat i + index) AND HANDLE_MASK in
        if slot ! slot_hash (length slot) handle = None then Some handle
        else register_scan slot index (Suc i)
      else None)"
  by pat_completeness auto
termination by (relation "measure (\<lambda>(slot, index, i). length slot - i)") auto

declare register_scan.simps [simp del]

text \<open>Moving every context to the table of twice the size.\<close>

function rehash :: "('c \<Rightarrow> u32) \<Rightarrow> 'c option list \<Rightarrow> nat \<Rightarrow> 'c option list \<Rightarrow> 'c option list res" where
  "rehash hof slot i new =
     (if i < length slot then
        res_deref ''skynet_handle_register'' (slot ! i) (\<lambda>c.
          let hash = slot_hash (length slot * 2) (hof c) in
          res_assert ''skynet_handle_register'' (new ! hash = None)
            (rehash hof slot (Suc i) (new[hash := slot ! i])))
      else Inr new)"
  by pat_completeness auto
termination by (relation "measure (\<lambda>(hof, slot, i, new). length slot - i)") auto

declare rehash.simps [simp del]

partial_function (option) skynet_handle_register ::
  "('c \<Rightarrow> u32) \<Rightarrow> 'c \<Rightarrow> 'c handle_storage \<Rightarrow> ('c handle_storage \<times> u32) res option"
where
  "skynet_handle_register hof ctx s =
     (case register_scan (hs_slot s) (hs_index s) 0 of
        Some handle \<Rightarrow>
          Some (Inr (s\<lparr>hs_slot := (hs_slot s)[slot_hash (length (hs_slot s)) handle := Some ctx],
                       hs_index := handle + 1\<rparr>, handle OR hs_harbor s))
      | None \<Rightarrow>
          if length (hs_slot s) * 2 - 1 \<le> unat HANDLE_MASK then
            (case rehash hof (hs_slot s) 0 (replicate (length (hs_slot s) * 2) None) of
               Inl e \<Rightarrow> Some (Inl e)
             | Inr new \<Rightarrow> skynet_handle_register hof ctx (s\<lparr>hs_slot := new\<rparr>))
          else Some (Inl (Assert_fail ''skynet_handle_register'')))"

text \<open>
  \<open>skynet_handle_grab\<close> without the reference count: the context of a handle, if the slot
  holds one with this very handle.
\<close>

definition handle_lookup :: "('c \<Rightarrow> u32) \<Rightarrow> 'c handle_storage \<Rightarrow> u32 \<Rightarrow> 'c option" where
  "handle_lookup hof s handle =
     (case hs_slot s ! slot_hash (length (hs_slot s)) handle of
        None \<Rightarrow> None
      | Some c \<Rightarrow> if hof c = handle then Some c else None)"

text \<open>The loop of \<open>skynet_handle_retire\<close> that removes the names of a handle.\<close>

function compact_names :: "u32 \<Rightarrow> (string \<times> u32) list \<Rightarrow> nat \<Rightarrow> nat \<Rightarrow> nat \<Rightarrow> (string \<times> u32) list \<times> nat"
where
  "compact_names handle xs i j n =
     (if i < n then
        if snd (xs ! i) = handle then compact_names handle xs (Suc i) j n
        else compact_names handle (if i \<noteq> j then xs[j := xs ! i] else xs) (Suc i) (Suc j) n
      else (xs, j))"
  by pat_completeness auto
termination by (relation "measure (\<lambda>(handle, xs, i, j, n). n - i)") auto

declare compact_names.simps [simp del]

text \<open>
  \<open>skynet_handle_retire\<close> up to the release of the context, which the caller performs: the
  context that was removed, if any, and the storage.
\<close>

definition handle_retire :: "('c \<Rightarrow> u32) \<Rightarrow> u32 \<Rightarrow> 'c handle_storage \<Rightarrow> 'c option \<times> 'c handle_storage" where
  "handle_retire hof handle s =
     (let hash = slot_hash (length (hs_slot s)) handle in
      case hs_slot s ! hash of
        Some ctx \<Rightarrow>
          if hof ctx = handle then
            let (names, j) = compact_names handle (hs_name s) 0 0 (hs_name_count s)
            in (Some ctx, s\<lparr>hs_slot := (hs_slot s)[hash := None], hs_name := names, hs_name_count := j\<rparr>)
          else (None, s)
      | None \<Rightarrow> (None, s))"

text \<open>
  \<open>skynet_handle_retireall\<close>: passes over the slots until one retires nothing. The contexts
  it removed are listed in order; the caller releases each.
\<close>

function retire_pass :: "('c \<Rightarrow> u32) \<Rightarrow> nat \<Rightarrow> 'c list \<Rightarrow> 'c handle_storage \<Rightarrow> 'c list \<times> 'c handle_storage" where
  "retire_pass hof i acc s =
     (if i < length (hs_slot s) then
        let handle = (case hs_slot s ! i of None \<Rightarrow> 0 | Some c \<Rightarrow> hof c) in
        if handle \<noteq> 0 then
          (case handle_retire hof handle s of
             (None, s') \<Rightarrow> retire_pass hof (Suc i) acc s'
           | (Some c, s') \<Rightarrow> retire_pass hof (Suc i) (acc @ [c]) s')
        else retire_pass hof (Suc i) acc s
      else (acc, s))"
  by pat_completeness auto
termination
  by (relation "measure (\<lambda>(hof, i, acc, s). length (hs_slot s) - i)")
    (auto simp: handle_retire_def Let_def split: option.splits if_splits prod.splits)

declare retire_pass.simps [simp del]

partial_function (option) skynet_handle_retireall ::
  "('c \<Rightarrow> u32) \<Rightarrow> 'c list \<Rightarrow> 'c handle_storage \<Rightarrow> ('c list \<times> 'c handle_storage) option"
where
  "skynet_handle_retireall hof acc s =
     (case retire_pass hof 0 [] s of
        (cs, s') \<Rightarrow> if cs = [] then Some (acc, s') else skynet_handle_retireall hof (acc @ cs) s')"

section \<open>The names\<close>

text \<open>
  The bisection of \<open>skynet_handle_findname\<close> and \<open>_insert_name\<close>: the index of the name, or
  the value of \<open>begin\<close> when the range is empty.
\<close>

function name_search :: "(string \<times> u32) list \<Rightarrow> string \<Rightarrow> int \<Rightarrow> int \<Rightarrow> nat + nat" where
  "name_search xs name b e =
     (if b \<le> e then
        let mid = (b + e) div 2;
            c = strcmp (fst (xs ! nat mid)) name in
        if c = 0 then Inl (nat mid)
        else if c < 0 then name_search xs name (mid + 1) e
        else name_search xs name b (mid - 1)
      else Inr (nat b))"
  by pat_completeness auto
termination by (relation "measure (\<lambda>(xs, name, b, e). nat (e - b + 1))") auto

declare name_search.simps [simp del]

definition skynet_handle_findname :: "string \<Rightarrow> 'c handle_storage \<Rightarrow> u32" where
  "skynet_handle_findname name s =
     (case name_search (hs_name s) name 0 (int (hs_name_count s) - 1) of
        Inl i \<Rightarrow> snd (hs_name s ! i)
      | Inr _ \<Rightarrow> 0)"

text \<open>The loop \<open>for (i=s->name_count;i>before;i--)\<close>.\<close>

fun shift_names :: "'a list \<Rightarrow> nat \<Rightarrow> nat \<Rightarrow> 'a list" where
  "shift_names xs i before = (if i > before then shift_names (xs[i := xs ! (i - 1)]) (i - 1) before else xs)"

declare shift_names.simps [simp del]

definition insert_name_before :: "'c handle_storage \<Rightarrow> string \<Rightarrow> u32 \<Rightarrow> nat \<Rightarrow> 'c handle_storage res" where
  "insert_name_before s name handle before =
     (let n = hs_name_count s; cap = length (hs_name s) in
      if n \<ge> cap then
        res_assert ''_insert_name_before'' (cap * 2 \<le> MAX_SLOT_SIZE)
          (let a = replicate (cap * 2) ('''', 0);
               a = fold (\<lambda>i a. a[i := hs_name s ! i]) [0..<before] a;
               a = fold (\<lambda>i a. a[i + 1 := hs_name s ! i]) [before..<n] a
           in Inr (s\<lparr>hs_name := a[before := (name, handle)], hs_name_count := n + 1\<rparr>))
      else
        Inr (s\<lparr>hs_name := (shift_names (hs_name s) n before)[before := (name, handle)],
               hs_name_count := n + 1\<rparr>))"

text \<open>\<open>_insert_name\<close> and \<open>skynet_handle_namehandle\<close>: the stored name, or NULL if it is taken.\<close>

definition skynet_handle_namehandle :: "u32 \<Rightarrow> string \<Rightarrow> 'c handle_storage \<Rightarrow> (string option \<times> 'c handle_storage) res" where
  "skynet_handle_namehandle handle name s =
     (case name_search (hs_name s) name 0 (int (hs_name_count s) - 1) of
        Inl _ \<Rightarrow> Inr (None, s)
      | Inr b \<Rightarrow> res_bind (insert_name_before s name handle b) (\<lambda>s'. Inr (Some name, s')))"

section \<open>Invariants and abstraction\<close>

text \<open>
  The table has between 4 and \<open>2^24\<close> slots, a power of two; the context in a slot has a
  handle that hashes to the slot; the harbor occupies the high eight bits.
\<close>

definition slots_inv :: "('c \<Rightarrow> u32) \<Rightarrow> 'c handle_storage \<Rightarrow> bool" where
  "slots_inv hof s \<longleftrightarrow> (\<exists>k \<in> {2..24}. length (hs_slot s) = 2 ^ k) \<and>
     (\<forall>i < length (hs_slot s). \<forall>c. hs_slot s ! i = Some c \<longrightarrow> slot_hash (length (hs_slot s)) (hof c) = i) \<and>
     hs_harbor s AND HANDLE_MASK = 0"

definition hs_names :: "'c handle_storage \<Rightarrow> (string \<times> u32) list" where
  "hs_names s = take (hs_name_count s) (hs_name s)"

definition names_inv :: "'c handle_storage \<Rightarrow> bool" where
  "names_inv s \<longleftrightarrow> hs_name_count s \<le> length (hs_name s) \<and> 0 < length (hs_name s) \<and>
     sorted_wrt (<) (map fst (hs_names s))"

section \<open>Lemmas on the hash table\<close>

lemma slot_hash_pow2: "k \<le> 25 \<Longrightarrow> slot_hash (2 ^ k) h = unat h mod 2 ^ k"
proof -
  have "(of_nat (2 ^ k) :: u32) - 1 = mask k" by (simp add: mask_eq_exp_minus_1)
  then show ?thesis by (simp add: slot_hash_def unat_and_mask)
qed

lemma slot_hash_less: "k \<le> 25 \<Longrightarrow> slot_hash (2 ^ k) h < 2 ^ k"
  by (simp add: slot_hash_pow2)

lemma HANDLE_MASK_mask: "HANDLE_MASK = mask 24"
  by (simp add: HANDLE_MASK_def mask_eq_exp_minus_1)

lemma unat_HANDLE_MASK: "unat (w AND HANDLE_MASK) = unat w mod 2 ^ 24"
  unfolding HANDLE_MASK_mask by (rule unat_and_mask)

lemma slot_hash_masked: "k \<le> 24 \<Longrightarrow> slot_hash (2 ^ k) (w AND HANDLE_MASK) = slot_hash (2 ^ k) w"
  by (simp add: slot_hash_pow2 unat_HANDLE_MASK mod_mod_pow2 del: power_numeral)

lemma slot_hash_or_harbor:
  assumes "k \<le> 24" "hb AND HANDLE_MASK = 0"
  shows "slot_hash (2 ^ k) (h OR hb) = slot_hash (2 ^ k) h"
proof -
  have "(h OR hb) AND HANDLE_MASK = h AND HANDLE_MASK"
    using assms(2) by (simp add: bit.conj_disj_distrib2)
  then show ?thesis using slot_hash_masked [OF assms(1)] by metis
qed

lemma slot_hash_add:
  "k \<le> 24 \<Longrightarrow> slot_hash (2 ^ k) ((of_nat i + x) AND HANDLE_MASK) = (i + unat x) mod 2 ^ k"
proof -
  assume k: "k \<le> 24"
  then have d: "2 ^ k dvd (4294967296 :: nat)"
    using le_imp_power_dvd [of k 32 "2 :: nat"] by simp
  have "unat (of_nat i + x) = (i + unat x) mod 4294967296"
    by (simp add: unat_word_ariths unsigned_of_nat take_bit_eq_mod mod_simps)
  with k d slot_hash_masked [OF k, of "of_nat i + x"] show ?thesis
    by (simp add: slot_hash_pow2 mod_mod_cancel)
qed

text \<open>The scan visits every slot once, so it finds a free slot if there is one.\<close>

lemma register_scan_Some:
  "register_scan slot x i = Some h \<Longrightarrow> length slot = 2 ^ k \<Longrightarrow> k \<le> 24 \<Longrightarrow>
   slot ! slot_hash (2 ^ k) h = None \<and> h AND HANDLE_MASK = h"
proof (induction slot x i rule: register_scan.induct)
  case (1 slot x i)
  then show ?case
    by (auto simp: register_scan.simps [of slot x i] Let_def ac_simps split: if_splits)
qed

lemma register_scan_None:
  "register_scan slot x i = None \<Longrightarrow> length slot = 2 ^ k \<Longrightarrow> k \<le> 24 \<Longrightarrow>
   i \<le> j \<Longrightarrow> j < 2 ^ k \<Longrightarrow> slot ! ((j + unat x) mod 2 ^ k) \<noteq> None"
proof (induction slot x i rule: register_scan.induct)
  case (1 slot x i)
  then have i: "i < length slot" by simp
  with "1.prems" have now: "slot ! ((i + unat x) mod 2 ^ k) \<noteq> None"
    and later: "register_scan slot x (Suc i) = None"
    by (auto simp: register_scan.simps [of slot x i] slot_hash_add Let_def split: if_splits)
  show ?case
  proof (cases "i = j")
    case True with now show ?thesis by simp
  next
    case False
    with "1.prems" have "Suc i \<le> j" by simp
    from "1.IH" [OF i refl _ later "1.prems"(2,3) this "1.prems"(5)] now "1.prems"(2,3) show ?thesis
      by (simp add: slot_hash_add)
  qed
qed

lemma register_scan_full:
  assumes "register_scan slot x 0 = None" "length slot = 2 ^ k" "k \<le> 24" "m < 2 ^ k"
  shows "slot ! m \<noteq> None"
proof -
  let ?j = "(m + (2 ^ k - unat x mod 2 ^ k)) mod 2 ^ k"
  have "(?j + unat x) mod 2 ^ k = (m + (2 ^ k - unat x mod 2 ^ k) + unat x mod 2 ^ k) mod 2 ^ k"
    by (simp add: mod_simps)
  also have "m + (2 ^ k - unat x mod 2 ^ k) + unat x mod 2 ^ k = m + 2 ^ k"
    using mod_less_divisor [of "2 ^ k" "unat x"] by (simp del: mod_less_divisor)
  also have "(m + 2 ^ k) mod 2 ^ k = m" using assms(4) by simp
  finally show ?thesis using register_scan_None [OF assms(1-3), of ?j] by simp
qed

text \<open>Doubling the table.\<close>

definition rehashed :: "('c \<Rightarrow> u32) \<Rightarrow> 'c option list \<Rightarrow> nat \<Rightarrow> nat \<Rightarrow> 'c option" where
  "rehashed hof slot i j =
     (let m = j mod length slot in
      case slot ! m of
        None \<Rightarrow> None
      | Some c \<Rightarrow> if m < i \<and> slot_hash (length slot * 2) (hof c) = j then Some c else None)"

lemma rehash_spec:
  assumes "length slot = 2 ^ k" "k \<le> 24" "\<forall>i < 2 ^ k. slot ! i \<noteq> None"
    "\<forall>i < 2 ^ k. \<forall>c. slot ! i = Some c \<longrightarrow> slot_hash (2 ^ k) (hof c) = i"
    "i \<le> 2 ^ k" "length new = 2 ^ Suc k" "\<forall>j < 2 ^ Suc k. new ! j = rehashed hof slot i j"
  shows "\<exists>new'. rehash hof slot i new = Inr new' \<and> length new' = 2 ^ Suc k \<and>
           (\<forall>j < 2 ^ Suc k. new' ! j = rehashed hof slot (2 ^ k) j)"
  using assms
proof (induction hof slot i new rule: rehash.induct)
  case (1 hof slot i new)
  show ?case
  proof (cases "i < length slot")
    case False
    with "1.prems" have "i = 2 ^ k" by simp
    with False "1.prems" show ?thesis by (simp add: rehash.simps [of hof slot "2 ^ k" new])
  next
    case True
    with "1.prems" obtain c where c: "slot ! i = Some c" "slot_hash (2 ^ k) (hof c) = i" by force
    let ?h = "slot_hash (2 ^ Suc k) (hof c)"
    have size2: "length slot * 2 = 2 ^ Suc k" using "1.prems"(1) by simp
    have h: "?h < 2 ^ Suc k" "?h mod 2 ^ k = i"
      using c(2) "1.prems"(2) mod_mod_pow2 [of k "Suc k" "unat (hof c)"]
      by (simp_all add: slot_hash_pow2 del: power_Suc)
    have free: "new ! ?h = None"
      using "1.prems"(1,7) h c by (auto simp: rehashed_def Let_def)
    have "\<forall>j < 2 ^ Suc k. new[?h := slot ! i] ! j = rehashed hof slot (Suc i) j"
    proof (intro allI impI)
      fix j assume j: "j < (2 :: nat) ^ Suc k"
      show "new[?h := slot ! i] ! j = rehashed hof slot (Suc i) j"
      proof (cases "j = ?h")
        case True
        with j h c "1.prems"(1,6) size2 show ?thesis
          by (simp add: rehashed_def Let_def del: power_Suc)
      next
        case False
        with j "1.prems"(1,7) c h size2 show ?thesis
          by (auto simp: rehashed_def Let_def less_Suc_eq split: option.splits simp del: power_Suc)
      qed
    qed
    with "1.IH" [OF True refl, of c] free "1.prems" True c size2
    show ?thesis
      by (simp add: rehash.simps [of hof slot i new] Let_def del: power_Suc)
  qed
qed

lemma slots_invE:
  assumes "slots_inv hof s"
  obtains k where "2 \<le> k" "k \<le> 24" "length (hs_slot s) = 2 ^ k" "hs_harbor s AND HANDLE_MASK = 0"
    "\<And>i c. i < 2 ^ k \<Longrightarrow> hs_slot s ! i = Some c \<Longrightarrow> slot_hash (2 ^ k) (hof c) = i"
  using assms by (auto simp: slots_inv_def)

lemma slots_invI:
  assumes "2 \<le> k" "k \<le> 24" "length (hs_slot s) = 2 ^ k" "hs_harbor s AND HANDLE_MASK = 0"
    "\<And>i c. i < 2 ^ k \<Longrightarrow> hs_slot s ! i = Some c \<Longrightarrow> slot_hash (2 ^ k) (hof c) = i"
  shows "slots_inv hof s"
  using assms by (auto simp: slots_inv_def)

lemma slots_inv_init: "slots_inv hof (skynet_handle_init harbor)"
proof (rule slots_invI [of 2])
  show "hs_harbor (skynet_handle_init harbor) AND HANDLE_MASK = 0"
    by (rule bit_word_eqI)
      (auto simp: skynet_handle_init_def HANDLE_MASK_mask HANDLE_REMOTE_SHIFT_def bit_simps)
qed (auto simp: skynet_handle_init_def DEFAULT_SLOT_SIZE_def)

text \<open>A table doubled by \<open>rehash\<close> answers every lookup as before.\<close>

lemma rehash_inv_lookup:
  assumes "slots_inv hof s" "length (hs_slot s) < 2 ^ 24" "\<forall>m < length (hs_slot s). hs_slot s ! m \<noteq> None"
  shows "\<exists>new. rehash hof (hs_slot s) 0 (replicate (length (hs_slot s) * 2) None) = Inr new \<and>
           slots_inv hof (s\<lparr>hs_slot := new\<rparr>) \<and> None \<in> set new \<and> set new \<subseteq> insert None (set (hs_slot s)) \<and>
           handle_lookup hof (s\<lparr>hs_slot := new\<rparr>) = handle_lookup hof s"
proof (rule slots_invE [OF assms(1)])
  fix k assume k: "2 \<le> k" "k \<le> 24" "length (hs_slot s) = 2 ^ k" "hs_harbor s AND HANDLE_MASK = 0"
    "\<And>i c. i < 2 ^ k \<Longrightarrow> hs_slot s ! i = Some c \<Longrightarrow> slot_hash (2 ^ k) (hof c) = i"
  let ?r = "rehashed hof (hs_slot s) (2 ^ k)"
  have k24: "k < 24" using assms(2) k(3) power_less_imp_less_exp [of 2 k 24] by simp
  have "\<exists>new. rehash hof (hs_slot s) 0 (replicate (length (hs_slot s) * 2) None) = Inr new \<and>
      length new = 2 ^ Suc k \<and> (\<forall>j < 2 ^ Suc k. new ! j = ?r j)"
    using k assms(3) by (intro rehash_spec) (auto simp: rehashed_def Let_def split: option.splits)
  then obtain new where new: "rehash hof (hs_slot s) 0 (replicate (length (hs_slot s) * 2) None) = Inr new"
    "length new = 2 ^ Suc k" "\<And>j. j < 2 ^ Suc k \<Longrightarrow> new ! j = ?r j" by blast
  have cell: "?r j = (case hs_slot s ! (j mod 2 ^ k) of None \<Rightarrow> None
      | Some c \<Rightarrow> if slot_hash (2 ^ Suc k) (hof c) = j then Some c else None)" for j
    by (auto simp: rehashed_def k(3) mult.commute split: option.splits)
  have h2: "slot_hash (2 ^ Suc k) h < 2 ^ Suc k" "slot_hash (2 ^ Suc k) h mod 2 ^ k = slot_hash (2 ^ k) h"
    for h
    using k24 mod_mod_pow2 [of k "Suc k" "unat h"] by (simp_all add: slot_hash_pow2 del: power_Suc)
  have inv: "slots_inv hof (s\<lparr>hs_slot := new\<rparr>)"
    using k k24 new by (intro slots_invI [of "Suc k"]) (auto simp: cell split: option.splits if_splits)
  have look: "handle_lookup hof (s\<lparr>hs_slot := new\<rparr>) h = handle_lookup hof s h" for h
    using new h2 [of h] k(3)
    by (auto simp: handle_lookup_def cell split: option.splits simp del: power_Suc)
  have sub: "set new \<subseteq> insert None (set (hs_slot s))"
  proof
    fix x assume "x \<in> set new"
    then obtain j where "j < 2 ^ Suc k" "x = ?r j" using new by (auto simp: in_set_conv_nth)
    then show "x \<in> insert None (set (hs_slot s))"
      using k(3) by (auto simp: cell split: option.splits if_splits) (metis mod_less_divisor nth_mem zero_less_numeral zero_less_power)
  qed
  have "None \<in> set new"
  proof -
    obtain c where c: "hs_slot s ! 0 = Some c" using assms(3) k(3) by force
    let ?j = "if slot_hash (2 ^ Suc k) (hof c) = 0 then 2 ^ k else 0 :: nat"
    have "?j < 2 ^ Suc k" "?r ?j = None" using c by (auto simp: cell)
    with new show ?thesis by (metis nth_mem)
  qed
  with new inv look sub show ?thesis by blast
qed

lemma register_now:
  assumes "slots_inv hof s" "Some c \<notin> set (hs_slot s)"
    "register_scan (hs_slot s) (hs_index s) 0 = Some handle"
  defines "h \<equiv> handle OR hs_harbor s"
    and "s' \<equiv> s\<lparr>hs_slot := (hs_slot s)[slot_hash (length (hs_slot s)) handle := Some c], hs_index := handle + 1\<rparr>"
  shows "h AND NOT HANDLE_MASK = hs_harbor s \<and> handle_lookup hof s h = None \<and>
         slots_inv (hof(c := h)) s' \<and> handle_lookup (hof(c := h)) s' = (handle_lookup hof s)(h \<mapsto> c)"
proof (rule slots_invE [OF assms(1)])
  fix k assume k: "2 \<le> k" "k \<le> 24" "length (hs_slot s) = 2 ^ k" "hs_harbor s AND HANDLE_MASK = 0"
    "\<And>i c. i < 2 ^ k \<Longrightarrow> hs_slot s ! i = Some c \<Longrightarrow> slot_hash (2 ^ k) (hof c) = i"
  have free: "hs_slot s ! slot_hash (2 ^ k) handle = None" and low: "handle AND HANDLE_MASK = handle"
    using register_scan_Some [OF assms(3) k(3,2)] by auto
  have hh: "slot_hash (2 ^ k) h = slot_hash (2 ^ k) handle"
    unfolding h_def by (rule slot_hash_or_harbor [OF k(2,4)])
  have less: "slot_hash (2 ^ k) x < 2 ^ k" for x using k(2) by (intro slot_hash_less) simp
  have other: "d \<noteq> c" if "i < 2 ^ k" "hs_slot s ! i = Some d" for i d
    using assms(2) that k(3) by (metis nth_mem)
  have "handle AND NOT HANDLE_MASK = 0"
    by (subst low [symmetric]) (simp add: and.assoc)
  moreover have "hs_harbor s AND NOT HANDLE_MASK = hs_harbor s"
    using k(4) by (auto simp: bit_eq_iff bit_simps)
  ultimately have harbor: "h AND NOT HANDLE_MASK = hs_harbor s"
    by (simp add: h_def bit.conj_disj_distrib2)
  have inv: "slots_inv (hof(c := h)) s'"
    using k less hh other by (intro slots_invI [of k]) (auto simp: s'_def nth_list_update split: if_splits)
  have "handle_lookup (hof(c := h)) s' x = ((handle_lookup hof s)(h \<mapsto> c)) x" for x
    using k(3) less [of x] less [of handle] hh free other
    by (auto simp: handle_lookup_def s'_def nth_list_update split: option.splits)
  with harbor inv free hh k(3) show ?thesis by (auto simp: handle_lookup_def)
qed

lemma handle_register_spec:
  assumes "slots_inv hof s" "Some c \<notin> set (hs_slot s)"
    "length (hs_slot s) < 2 ^ 24 \<or> None \<in> set (hs_slot s)"
  shows "\<exists>s' h. skynet_handle_register hof c s = Some (Inr (s', h)) \<and>
           h AND NOT HANDLE_MASK = hs_harbor s \<and> handle_lookup hof s h = None \<and>
           slots_inv (hof(c := h)) s' \<and> handle_lookup (hof(c := h)) s' = (handle_lookup hof s)(h \<mapsto> c) \<and>
           hs_name s' = hs_name s \<and> hs_name_count s' = hs_name_count s \<and> hs_harbor s' = hs_harbor s"
proof (cases "register_scan (hs_slot s) (hs_index s) 0")
  case (Some handle)
  with register_now [OF assms(1,2) Some] show ?thesis
    by (subst skynet_handle_register.simps) (simp add: hs_names_def)
next
  case None
  from slots_invE [OF assms(1)] obtain k where k: "k \<le> 24" "length (hs_slot s) = 2 ^ k" by metis
  have full: "\<forall>m < length (hs_slot s). hs_slot s ! m \<noteq> None"
    using register_scan_full [OF None k(2,1)] k(2) by simp
  then have room: "length (hs_slot s) < 2 ^ 24" using assms(3) by (auto simp: in_set_conv_nth)
  then have "k < 24" using k power_less_imp_less_exp [of 2 k 24] by simp
  then have "2 ^ Suc k \<le> (2 :: nat) ^ 24" by (intro power_increasing) simp_all
  then have chk: "length (hs_slot s) * 2 - 1 \<le> unat HANDLE_MASK"
    using k(2) by (simp add: HANDLE_MASK_def)
  obtain new where new: "rehash hof (hs_slot s) 0 (replicate (length (hs_slot s) * 2) None) = Inr new"
    "slots_inv hof (s\<lparr>hs_slot := new\<rparr>)" "None \<in> set new" "set new \<subseteq> insert None (set (hs_slot s))"
    "handle_lookup hof (s\<lparr>hs_slot := new\<rparr>) = handle_lookup hof s"
    using rehash_inv_lookup [OF assms(1) room full] by blast
  let ?s = "s\<lparr>hs_slot := new\<rparr>"
  have nc: "Some c \<notin> set (hs_slot ?s)" using new(4) assms(2) by auto
  obtain k2 where k2: "k2 \<le> 24" "length new = 2 ^ k2" using new(2) by (auto simp: slots_inv_def)
  obtain m where m: "m < 2 ^ k2" "new ! m = None" using new(3) k2(2) by (auto simp: in_set_conv_nth)
  have "register_scan new (hs_index s) 0 \<noteq> None"
    using register_scan_full [OF _ k2(2,1) m(1), of "hs_index s"] m(2) by auto
  then obtain handle where scan: "register_scan (hs_slot ?s) (hs_index ?s) 0 = Some handle" by auto
  have "skynet_handle_register hof c s = skynet_handle_register hof c ?s"
    by (subst skynet_handle_register.simps) (simp add: None chk [simplified] new(1))
  with register_now [OF new(2) nc scan] new(5) scan show ?thesis
    by (simp add: skynet_handle_register.simps [of hof c ?s] hs_names_def)
qed

text \<open>
  C6: registering a service succeeds while the table can hold one more context, whatever
  its state: it returns a handle of this harbor that no live context has, the table (grown
  if it was full, without tripping the assertions on the way) maps the new handle to the new
  context once the caller has stored the handle in it, and every other handle to the same
  context as before.
\<close>

theorem handle_register_correct:
  assumes "slots_inv hof s" "Some c \<notin> set (hs_slot s)"
    "length (hs_slot s) < 2 ^ 24 \<or> None \<in> set (hs_slot s)"
  shows "\<exists>s' h. skynet_handle_register hof c s = Some (Inr (s', h)) \<and>
           h AND NOT HANDLE_MASK = hs_harbor s \<and> handle_lookup hof s h = None \<and>
           slots_inv (hof(c := h)) s' \<and> handle_lookup (hof(c := h)) s' = (handle_lookup hof s)(h \<mapsto> c) \<and>
           hs_name s' = hs_name s \<and> hs_name_count s' = hs_name_count s \<and> hs_harbor s' = hs_harbor s"
  using assms by (rule handle_register_spec)

text \<open>With all \<open>2^24\<close> slots taken the assertion on the size fails.\<close>

lemma handle_register_exhausted:
  assumes "length (hs_slot s) = 2 ^ 24" "None \<notin> set (hs_slot s)"
  shows "skynet_handle_register hof c s = Some (Inl (Assert_fail ''skynet_handle_register''))"
proof -
  have "register_scan (hs_slot s) (hs_index s) 0 = None"
  proof (rule ccontr)
    assume "register_scan (hs_slot s) (hs_index s) 0 \<noteq> None"
    then obtain h where "register_scan (hs_slot s) (hs_index s) 0 = Some h" by auto
    then have "hs_slot s ! slot_hash (2 ^ 24) h = None"
      using register_scan_Some [of "hs_slot s" "hs_index s" 0 h 24] assms(1) by simp
    moreover have "slot_hash (2 ^ 24) h < length (hs_slot s)"
      using slot_hash_less [of 24 h] assms(1) by simp
    ultimately show False using assms(2) nth_mem by metis
  qed
  then show ?thesis
    using assms by (subst skynet_handle_register.simps) (simp add: HANDLE_MASK_def)
qed

section \<open>Lemmas on retiring\<close>

lemma compact_names_spec:
  assumes "j \<le> i" "i \<le> n" "n \<le> length xs" "compact_names h xs i j n = (ys, m)"
  shows "length ys = length xs \<and> m \<le> length xs \<and>
         take m ys = take j xs @ filter (\<lambda>x. snd x \<noteq> h) (drop i (take n xs))"
  using assms
proof (induction h xs i j n rule: compact_names.induct)
  case (1 h xs i j n)
  show ?case
  proof (cases "i < n")
    case False
    then have "compact_names h xs i j n = (xs, j)" by (subst compact_names.simps) simp
    moreover from False "1.prems" have "i = n" "j \<le> length xs" by simp_all
    ultimately show ?thesis using "1.prems"(4) by simp
  next
    case True
    let ?xs = "if i \<noteq> j then xs[j := xs ! i] else xs"
    from True "1.prems" have split: "drop i (take n xs) = xs ! i # drop (Suc i) (take n xs)"
      by (simp add: Cons_nth_drop_Suc [symmetric])
    have keep: "take (Suc j) ?xs = take j xs @ [xs ! i]" "drop (Suc i) (take n ?xs) = drop (Suc i) (take n xs)"
      using True "1.prems" by (auto simp: take_Suc_conv_app_nth drop_take drop_update_cancel)
    show ?thesis
    proof (cases "snd (xs ! i) = h")
      case hit: True
      from "1.IH"(1) [OF True hit] "1.prems" True hit split show ?thesis
        by (simp add: compact_names.simps [of h xs i j n])
    next
      case miss: False
      have "length ?xs = length xs" by simp
      with "1.IH"(2) [OF True miss] "1.prems" True miss keep split show ?thesis
        by (simp add: compact_names.simps [of h xs i j n])
    qed
  qed
qed

lemma handle_retire_spec:
  assumes "slots_inv hof s" "hs_name_count s \<le> length (hs_name s)"
  shows "fst (handle_retire hof h s) = handle_lookup hof s h \<and>
         slots_inv hof (snd (handle_retire hof h s)) \<and>
         handle_lookup hof (snd (handle_retire hof h s)) = (handle_lookup hof s)(h := None) \<and>
         hs_names (snd (handle_retire hof h s)) =
           (if handle_lookup hof s h = None then hs_names s else filter (\<lambda>x. snd x \<noteq> h) (hs_names s)) \<and>
         hs_name_count (snd (handle_retire hof h s)) \<le> length (hs_name (snd (handle_retire hof h s))) \<and>
         length (hs_name (snd (handle_retire hof h s))) = length (hs_name s)"
proof (rule slots_invE [OF assms(1)])
  fix k assume k: "2 \<le> k" "k \<le> 24" "length (hs_slot s) = 2 ^ k" "hs_harbor s AND HANDLE_MASK = 0"
    "\<And>i c. i < 2 ^ k \<Longrightarrow> hs_slot s ! i = Some c \<Longrightarrow> slot_hash (2 ^ k) (hof c) = i"
  have less: "slot_hash (2 ^ k) x < 2 ^ k" for x using k(2) by (intro slot_hash_less) simp
  show ?thesis
  proof (cases "handle_lookup hof s h")
    case None
    then have "handle_retire hof h s = (None, s)"
      by (auto simp: handle_lookup_def handle_retire_def split: option.splits if_splits)
    with None assms show ?thesis by auto
  next
    case (Some c)
    let ?i = "slot_hash (2 ^ k) h"
    from Some k(3) have c: "hs_slot s ! ?i = Some c" "hof c = h"
      by (auto simp: handle_lookup_def split: option.splits if_splits)
    obtain ys m where cn: "compact_names h (hs_name s) 0 0 (hs_name_count s) = (ys, m)" by force
    let ?s = "s\<lparr>hs_slot := (hs_slot s)[?i := None], hs_name := ys, hs_name_count := m\<rparr>"
    have r: "handle_retire hof h s = (Some c, ?s)" using c k(3) cn by (simp add: handle_retire_def)
    have "slots_inv hof ?s"
      using k less by (intro slots_invI [of k]) (auto simp: nth_list_update split: if_splits)
    moreover have "handle_lookup hof ?s x = ((handle_lookup hof s)(h := None)) x" for x
    proof (cases "slot_hash (2 ^ k) x = ?i")
      case True
      with k(3) less [of h] c show ?thesis by (simp add: handle_lookup_def)
    next
      case False
      then have "x \<noteq> h" by auto
      with k(3) False show ?thesis by (simp add: handle_lookup_def)
    qed
    moreover have "length ys = length (hs_name s)" "m \<le> length (hs_name s)"
      "hs_names ?s = filter (\<lambda>x. snd x \<noteq> h) (hs_names s)"
      using compact_names_spec [OF _ _ assms(2) cn] by (simp_all add: hs_names_def)
    ultimately show ?thesis
      using Some unfolding r by (simp add: fun_eq_iff)
  qed
qed

text \<open>The invariant of the whole storage.\<close>

definition storage_inv :: "('c \<Rightarrow> u32) \<Rightarrow> 'c handle_storage \<Rightarrow> bool" where
  "storage_inv hof s \<longleftrightarrow> slots_inv hof s \<and> names_inv s"

lemma storage_inv_init: "storage_inv hof (skynet_handle_init harbor)"
  using slots_inv_init [of hof harbor]
  by (simp add: storage_inv_def names_inv_def hs_names_def) (simp add: skynet_handle_init_def)

lemma sorted_map_filter: "sorted_wrt R (map f xs) \<Longrightarrow> sorted_wrt R (map f (filter P xs))"
  by (induction xs) auto

lemma storage_inv_retire: "storage_inv hof s \<Longrightarrow> storage_inv hof (snd (handle_retire hof h s))"
  using handle_retire_spec [of hof s h]
  by (auto simp: storage_inv_def names_inv_def intro: sorted_map_filter)

interpretation registry: id_table "storage_inv hof" "handle_lookup hof" "\<lambda>h s. snd (handle_retire hof h s)"
  for hof :: "'c \<Rightarrow> u32"
proof
  fix s :: "'c handle_storage" and h
  assume "storage_inv hof s"
  then show "storage_inv hof (snd (handle_retire hof h s))"
    "handle_lookup hof (snd (handle_retire hof h s)) = (handle_lookup hof s)(h := None)"
    using handle_retire_spec [of hof s h] storage_inv_retire [of hof s h]
    by (simp_all add: storage_inv_def names_inv_def)
qed

section \<open>Retiring every service\<close>

definition live_slots :: "('c \<Rightarrow> u32) \<Rightarrow> nat \<Rightarrow> 'c handle_storage \<Rightarrow> nat set" where
  "live_slots hof i s = {j. i \<le> j \<and> j < length (hs_slot s) \<and> (\<exists>c. hs_slot s ! j = Some c \<and> hof c \<noteq> 0)}"

lemma handle_retire_slot:
  assumes "slots_inv hof s" "i < length (hs_slot s)" "hs_slot s ! i = Some c"
  shows "\<exists>ys m. handle_retire hof (hof c) s =
    (Some c, s\<lparr>hs_slot := (hs_slot s)[i := None], hs_name := ys, hs_name_count := m\<rparr>)"
proof -
  have "slot_hash (length (hs_slot s)) (hof c) = i" using assms by (auto simp: slots_inv_def)
  with assms(3) show ?thesis by (auto simp: handle_retire_def split: prod.splits)
qed

definition live_ctxs :: "('c \<Rightarrow> u32) \<Rightarrow> nat \<Rightarrow> 'c handle_storage \<Rightarrow> 'c set" where
  "live_ctxs hof i s = {c. hof c \<noteq> 0 \<and> (\<exists>j. i \<le> j \<and> j < length (hs_slot s) \<and> hs_slot s ! j = Some c)}"

lemma live_ctxs_step:
  "i < length (hs_slot s) \<Longrightarrow> live_ctxs hof i s =
   (case hs_slot s ! i of None \<Rightarrow> {} | Some c \<Rightarrow> if hof c = 0 then {} else {c}) \<union> live_ctxs hof (Suc i) s"
proof -
  have "i \<le> j \<longleftrightarrow> j = i \<or> Suc i \<le> j" for j by auto
  then show "i < length (hs_slot s) \<Longrightarrow> ?thesis" by (auto simp: live_ctxs_def split: option.splits)
qed

text \<open>One pass empties every slot whose context has a handle other than zero.\<close>

lemma retire_pass_spec:
  assumes "storage_inv hof s" "retire_pass hof i acc s = (cs, s')"
  shows "storage_inv hof s' \<and> length (hs_slot s') = length (hs_slot s) \<and> live_ctxs hof i s' = {} \<and>
         (\<forall>j < i. j < length (hs_slot s) \<longrightarrow> hs_slot s' ! j = hs_slot s ! j) \<and>
         handle_lookup hof s' 0 = handle_lookup hof s 0 \<and>
         (\<exists>ds. cs = acc @ ds \<and> set ds = live_ctxs hof i s)"
  using assms
proof (induction hof i acc s rule: retire_pass.induct)
  case (1 hof i acc s)
  let ?h = "case hs_slot s ! i of None \<Rightarrow> 0 | Some c \<Rightarrow> hof c"
  consider (fin) "\<not> i < length (hs_slot s)" | (skip) "i < length (hs_slot s)" "?h = 0"
    | (retire) c where "i < length (hs_slot s)" "hs_slot s ! i = Some c" "hof c \<noteq> 0"
    by (cases "hs_slot s ! i") auto
  then show ?case
  proof cases
    case fin
    then have "retire_pass hof i acc s = (acc, s)" by (subst retire_pass.simps) simp
    with fin "1.prems" show ?thesis by (auto simp: live_ctxs_def)
  next
    case skip
    then have eq: "retire_pass hof i acc s = retire_pass hof (Suc i) acc s"
      by (subst retire_pass.simps) simp
    have "live_ctxs hof i s = live_ctxs hof (Suc i) s"
      using skip by (auto simp: live_ctxs_step split: option.splits)
    moreover note IH = "1.IH"(3) [OF skip(1) refl _ "1.prems"(1)]
    moreover have "i < length (hs_slot s') \<Longrightarrow> hs_slot s' ! i = hs_slot s ! i \<Longrightarrow>
        live_ctxs hof i s' = live_ctxs hof (Suc i) s'"
      using skip by (auto simp: live_ctxs_step split: option.splits)
    ultimately show ?thesis using skip "1.prems"(2) by (auto simp: eq)
  next
    case retire
    obtain ys m where r: "handle_retire hof (hof c) s =
        (Some c, s\<lparr>hs_slot := (hs_slot s)[i := None], hs_name := ys, hs_name_count := m\<rparr>)" (is "_ = (_, ?s)")
      using handle_retire_slot [of hof s i c] retire "1.prems"(1) by (auto simp: storage_inv_def)
    have inv: "storage_inv hof ?s" using storage_inv_retire [OF "1.prems"(1), of "hof c"] r by simp
    have zero: "handle_lookup hof ?s 0 = handle_lookup hof s 0"
      using registry.look_del_other [OF "1.prems"(1), of 0 "hof c"] r retire(3) by simp
    have eq: "retire_pass hof i acc s = retire_pass hof (Suc i) (acc @ [c]) ?s"
      using retire r by (subst retire_pass.simps) simp
    have live: "live_ctxs hof i s = insert c (live_ctxs hof (Suc i) ?s)"
      using retire by (auto simp: live_ctxs_step) (auto simp: live_ctxs_def)
    have "i < length (hs_slot s') \<Longrightarrow> hs_slot s' ! i = None \<Longrightarrow>
        live_ctxs hof i s' = live_ctxs hof (Suc i) s'"
      by (simp add: live_ctxs_step)
    moreover have hc: "hof c = ?h" using retire(2) by simp
    moreover note IH = "1.IH"(2) [OF retire(1) hc retire(3) r [symmetric] refl inv "1.prems"(2) [unfolded eq]]
    moreover from IH obtain ds where "cs = acc @ [c] @ ds" "set ds = live_ctxs hof (Suc i) ?s" by auto
    moreover have "\<forall>j < i. j < length (hs_slot s) \<longrightarrow> hs_slot ?s ! j = hs_slot s ! j" by simp
    ultimately show ?thesis
      using retire(1) live zero by simp
  qed
qed

lemma lookup_slot:
  assumes "storage_inv hof s"
  shows "handle_lookup hof s h = Some c \<longleftrightarrow> hof c = h \<and> Some c \<in> set (hs_slot s)"
proof (rule slots_invE [of hof s])
  show "slots_inv hof s" using assms by (simp add: storage_inv_def)
  fix k assume k: "2 \<le> k" "k \<le> 24" "length (hs_slot s) = 2 ^ k"
    "\<And>i c. i < 2 ^ k \<Longrightarrow> hs_slot s ! i = Some c \<Longrightarrow> slot_hash (2 ^ k) (hof c) = i"
  then show ?thesis
    using slot_hash_less [of k h]
    by (auto simp: handle_lookup_def in_set_conv_nth split: option.splits) (metis option.inject)
qed

lemma live_ctxs_0: "live_ctxs hof 0 s = {c. hof c \<noteq> 0 \<and> Some c \<in> set (hs_slot s)}"
  by (auto simp: live_ctxs_def in_set_conv_nth)

lemma retire_pass_lookup:
  assumes "storage_inv hof s" "retire_pass hof 0 [] s = (cs, s')"
  shows "handle_lookup hof s' h = (if h = 0 then handle_lookup hof s 0 else None)"
proof (cases "h = 0")
  case True
  with retire_pass_spec [OF assms] show ?thesis by simp
next
  case False
  have inv: "storage_inv hof s'" and empty: "live_ctxs hof 0 s' = {}"
    using retire_pass_spec [OF assms] by simp_all
  have "handle_lookup hof s' h \<noteq> Some c" for c
    using empty False by (auto simp: lookup_slot [OF inv] live_ctxs_0)
  with False show ?thesis by auto
qed

lemma retireall_stops:
  "storage_inv hof s \<Longrightarrow> live_ctxs hof 0 s = {} \<Longrightarrow>
   skynet_handle_retireall hof acc s = Some (acc, snd (retire_pass hof 0 [] s))"
  using retire_pass_spec [of hof s 0 "[]" "fst (retire_pass hof 0 [] s)" "snd (retire_pass hof 0 [] s)"]
  by (subst skynet_handle_retireall.simps) (auto split: prod.splits)

text \<open>
  \<open>skynet_handle_retireall\<close> ends after at most two passes; it retires exactly the
  contexts with a handle other than zero, and afterwards no such handle is registered.
\<close>

theorem retireall_correct:
  assumes "storage_inv hof s"
  shows "\<exists>cs s'. skynet_handle_retireall hof [] s = Some (cs, s') \<and> storage_inv hof s' \<and>
           set cs = {c. \<exists>h. h \<noteq> 0 \<and> handle_lookup hof s h = Some c} \<and>
           (\<forall>h. handle_lookup hof s' h = (if h = 0 then handle_lookup hof s 0 else None))"
proof -
  obtain cs s1 where p1: "retire_pass hof 0 [] s = (cs, s1)" by force
  obtain s2 where s2: "s2 = snd (retire_pass hof 0 [] s1)" by simp
  have r1: "storage_inv hof s1" "live_ctxs hof 0 s1 = {}" "set cs = live_ctxs hof 0 s"
    using retire_pass_spec [OF assms p1] by auto
  have p2: "retire_pass hof 0 [] s1 = (fst (retire_pass hof 0 [] s1), s2)" by (simp add: s2)
  have live: "live_ctxs hof 0 s = {c. \<exists>h. h \<noteq> 0 \<and> handle_lookup hof s h = Some c}"
    by (auto simp: lookup_slot [OF assms] live_ctxs_0)
  have "skynet_handle_retireall hof [] s = (if cs = [] then Some ([], s1) else Some (cs, s2))"
    using retireall_stops [OF r1(1,2)] p1 s2 by (subst skynet_handle_retireall.simps) simp
  moreover have "storage_inv hof s2" using retire_pass_spec [OF r1(1) p2] by simp
  moreover have "\<forall>h. handle_lookup hof s2 h = (if h = 0 then handle_lookup hof s 0 else None)"
    using retire_pass_lookup [OF r1(1) p2] retire_pass_lookup [OF assms p1] by simp
  ultimately show ?thesis
    using r1 live retire_pass_lookup [OF assms p1] by (cases "cs = []") auto
qed

section \<open>Lemmas on the names\<close>

lemma name_search_spec:
  assumes "sorted_wrt (<) (map fst (take n xs))" "n \<le> length xs" "0 \<le> b" "e < int n" "b \<le> e + 1"
    "\<And>i. int i < b \<Longrightarrow> fst (xs ! i) < name" "\<And>i. e < int i \<Longrightarrow> i < n \<Longrightarrow> name < fst (xs ! i)"
  shows "case name_search xs name b e of
           Inl i \<Rightarrow> i < n \<and> fst (xs ! i) = name
         | Inr p \<Rightarrow> p \<le> n \<and> (\<forall>i < p. fst (xs ! i) < name) \<and> (\<forall>i. p \<le> i \<and> i < n \<longrightarrow> name < fst (xs ! i))"
  using assms
proof (induction xs name b e rule: name_search.induct)
  case (1 xs name b e)
  have ord: "fst (xs ! i) < fst (xs ! j)" if "i < j" "j < n" for i j
    using "1.prems"(1,2) that by (auto simp: sorted_wrt_iff_nth_less)
  show ?case
  proof (cases "b \<le> e")
    case False
    with "1.prems" show ?thesis by (subst name_search.simps) auto
  next
    case True
    let ?m = "(b + e) div 2" and ?c = "strcmp (fst (xs ! nat ((b + e) div 2))) name"
    have m: "b \<le> ?m" "?m \<le> e" using True by auto
    consider "?c = 0" | (lt) "?c < 0" | (gt) "?c > 0" by linarith
    then show ?thesis
    proof cases
      case 1
      with True m "1.prems"(3,4) show ?thesis by (subst name_search.simps) (auto simp: Let_def)
    next
      case lt
      have "fst (xs ! i) < name" if "int i < ?m + 1" for i
      proof (cases "i = nat ?m")
        case False
        with that m "1.prems"(3,4) have "fst (xs ! i) < fst (xs ! nat ?m)" by (intro ord) linarith+
        with lt show ?thesis by (simp add: strcmp_less)
      qed (use lt in \<open>simp add: strcmp_less\<close>)
      moreover have "fst (xs ! nat ?m) \<noteq> name" using lt by auto
      ultimately show ?thesis using "1.IH"(1) [OF True refl refl] lt m True "1.prems"
        by (subst name_search.simps) (simp add: Let_def)
    next
      case gt
      have "name < fst (xs ! i)" if "?m - 1 < int i" "i < n" for i
      proof (cases "i = nat ?m")
        case False
        with that m "1.prems"(3,4) have "fst (xs ! nat ?m) < fst (xs ! i)" by (intro ord) linarith+
        with gt show ?thesis by (simp add: strcmp_greater)
      qed (use gt in \<open>simp add: strcmp_greater\<close>)
      moreover have "fst (xs ! nat ?m) \<noteq> name" using gt by auto
      ultimately show ?thesis using "1.IH"(2) [OF True refl refl] gt m True "1.prems"
        by (subst name_search.simps) (simp add: Let_def)
    qed
  qed
qed

lemma length_shift_names [simp]: "length (shift_names xs i b) = length xs"
  by (induction xs i b rule: shift_names.induct) (subst shift_names.simps, simp)

lemma shift_names_nth:
  "i < length xs \<Longrightarrow> j < length xs \<Longrightarrow>
   shift_names xs i b ! j = (if b < j \<and> j \<le> i then xs ! (j - 1) else xs ! j)"
proof (induction xs i b rule: shift_names.induct)
  case (1 xs i b)
  then show ?case
    by (cases "b < i") (subst shift_names.simps, auto simp: nth_list_update)+
qed

lemma copy_loop:
  "length (fold (\<lambda>i a. a[i + d := f i]) [m..<n] a) = length a"
  "j < length a \<Longrightarrow> fold (\<lambda>i a. a[i + d := f i]) [m..<n] a ! j =
     (if m + d \<le> j \<and> j < n + d then f (j - d) else a ! j)"
  by (induction n) (auto simp: nth_list_update less_Suc_eq)

lemmas copy_loops = copy_loop [where d = 0, simplified] copy_loop [where d = 1, simplified]

definition insert_at :: "nat \<Rightarrow> 'a \<Rightarrow> 'a list \<Rightarrow> 'a list" where
  "insert_at i x xs = take i xs @ x # drop i xs"

lemma insert_at_nth:
  "i \<le> length xs \<Longrightarrow> insert_at i x xs ! j = (if j < i then xs ! j else if j = i then x else xs ! (j - 1))"
  by (auto simp: insert_at_def nth_append nth_Cons')

lemma insert_name_before_spec:
  assumes "before \<le> hs_name_count s" "names_inv s" "hs_name_count s < MAX_SLOT_SIZE div 2"
  shows "\<exists>s'. insert_name_before s name h before = Inr s' \<and>
           hs_names s' = insert_at before (name, h) (hs_names s) \<and>
           hs_name_count s' = Suc (hs_name_count s) \<and> hs_name_count s' \<le> length (hs_name s') \<and>
           hs_slot s' = hs_slot s \<and> hs_harbor s' = hs_harbor s \<and> hs_index s' = hs_index s"
proof -
  let ?n = "hs_name_count s" and ?xs = "hs_name s"
  have n: "?n \<le> length ?xs" "0 < length ?xs" using assms(2) by (auto simp: names_inv_def)
  let ?g = "fold (\<lambda>i a. a[i + 1 := ?xs ! i]) [before..<?n]
     (fold (\<lambda>i a. a[i := ?xs ! i]) [0..<before] (replicate (length ?xs * 2) ('''', 0)))"
  let ?ys = "(if ?n \<ge> length ?xs then ?g else shift_names ?xs ?n before)[before := (name, h)]"
  have cap: "length ?xs * 2 \<le> MAX_SLOT_SIZE" if "?n \<ge> length ?xs" using assms(3) that by (simp add: MAX_SLOT_SIZE_def)
  have r: "insert_name_before s name h before = Inr (s\<lparr>hs_name := ?ys, hs_name_count := ?n + 1\<rparr>)"
    using cap by (simp add: insert_name_before_def Let_def)
  have "length ?g = length ?xs * 2" by (simp add: copy_loops)
  then have len: "Suc ?n \<le> length ?ys"
    using n by (cases "?n \<ge> length ?xs") (simp_all only: length_list_update if_True if_False length_shift_names)
  have "take (Suc ?n) ?ys = insert_at before (name, h) (take ?n ?xs)"
  proof (rule nth_equalityI)
    show "length (take (Suc ?n) ?ys) = length (insert_at before (name, h) (take ?n ?xs))"
      using len n assms(1) by (simp add: insert_at_def)
    fix j assume "j < length (take (Suc ?n) ?ys)"
    then have j: "j < Suc ?n" "j < length ?ys" using len by auto
    have sp: "insert_at before (name, h) (take ?n ?xs) ! j =
        (if j < before then ?xs ! j else if j = before then (name, h) else ?xs ! (j - 1))"
      using assms(1) n j by (subst insert_at_nth) auto
    show "take (Suc ?n) ?ys ! j = insert_at before (name, h) (take ?n ?xs) ! j"
    proof (cases "?n \<ge> length ?xs")
      case True
      have j2: "j < length ?xs * 2" using j(1) n by linarith
      have "?g ! j = (if Suc before \<le> j \<and> j < Suc ?n then ?xs ! (j - 1) else if j < before then ?xs ! j else ('''', 0))"
        using j2 j(1) by (simp add: copy_loops)
      with True j len n assms(1) sp show ?thesis by (auto simp: nth_list_update)
    next
      case False
      with j n assms(1) sp show ?thesis by (auto simp: nth_list_update shift_names_nth)
    qed
  qed
  with r len show ?thesis by (auto simp: hs_names_def)
qed

lemma names_search:
  assumes "names_inv s"
  shows "case name_search (hs_name s) name 0 (int (hs_name_count s) - 1) of
           Inl i \<Rightarrow> map_of (hs_names s) name = Some (snd (hs_name s ! i)) \<and> i < hs_name_count s
         | Inr p \<Rightarrow> map_of (hs_names s) name = None \<and> p \<le> hs_name_count s \<and>
             sorted_wrt (<) (map fst (insert_at p (name, h) (hs_names s)))"
proof -
  let ?n = "hs_name_count s" and ?xs = "hs_name s"
  have n: "?n \<le> length ?xs" and srt: "sorted_wrt (<) (map fst (take ?n ?xs))"
    using assms by (auto simp: names_inv_def hs_names_def)
  note sp = name_search_spec [OF srt n, of 0 "int ?n - 1" name]
  show ?thesis
  proof (cases "name_search ?xs name 0 (int ?n - 1)")
    case (Inl i)
    with sp have i: "i < ?n" "fst (?xs ! i) = name" by auto
    then have "(name, snd (?xs ! i)) \<in> set (hs_names s)"
      using n unfolding hs_names_def by (metis length_take min.absorb2 nth_mem nth_take prod.collapse)
    moreover have "distinct (map fst (hs_names s))"
      using srt by (simp add: hs_names_def strict_sorted_iff)
    ultimately show ?thesis using Inl i by simp
  next
    case (Inr p)
    with sp have p: "p \<le> ?n" "\<And>i. i < p \<Longrightarrow> fst (?xs ! i) < name" "\<And>i. p \<le> i \<Longrightarrow> i < ?n \<Longrightarrow> name < fst (?xs ! i)"
      by auto
    have lo: "x < name" if "x \<in> set (map fst (take p (hs_names s)))" for x
      using that p(1,2) n by (fastforce simp: hs_names_def in_set_conv_nth)
    have hi: "name < x" if "x \<in> set (map fst (drop p (hs_names s)))" for x
    proof -
      from that obtain i where "i < ?n - p" "x = fst (?xs ! (p + i))"
        using n by (auto simp: hs_names_def in_set_conv_nth)
      with p(3) [of "p + i"] show ?thesis by simp
    qed
    have "sorted_wrt (<) (map fst (take p (hs_names s) @ drop p (hs_names s)))"
      using srt unfolding append_take_drop_id hs_names_def .
    then have "sorted_wrt (<) (map fst (insert_at p (name, h) (hs_names s)))"
      using lo hi unfolding insert_at_def map_append sorted_wrt_append
      by (auto simp del: append_take_drop_id)
    moreover have "name \<notin> set (map fst (take p (hs_names s) @ drop p (hs_names s)))"
      using lo hi unfolding map_append set_append by blast
    ultimately show ?thesis using Inr p(1) by (simp add: map_of_eq_None_iff)
  qed
qed

lemma name_registry_spec:
  assumes "names_inv s" "hs_name_count s < MAX_SLOT_SIZE div 2"
  shows "(\<forall>n. skynet_handle_findname n s = (case map_of (hs_names s) n of None \<Rightarrow> 0 | Some h \<Rightarrow> h)) \<and>
         (\<exists>r s'. skynet_handle_namehandle handle name s = Inr (r, s') \<and> names_inv s' \<and>
            hs_slot s' = hs_slot s \<and>
            (if map_of (hs_names s) name = None
             then r = Some name \<and> map_of (hs_names s') = (map_of (hs_names s))(name \<mapsto> handle) \<and>
                  skynet_handle_findname name s' = handle
             else r = None \<and> s' = s))"
proof -
  have find: "skynet_handle_findname n t = (case map_of (hs_names t) n of None \<Rightarrow> 0 | Some h \<Rightarrow> h)"
    if "names_inv t" for n and t :: "'a handle_storage"
    using names_search [OF that, of n] by (auto simp: skynet_handle_findname_def split: sum.splits)
  show ?thesis
  proof (cases "name_search (hs_name s) name 0 (int (hs_name_count s) - 1)")
    case (Inl i)
    with names_search [OF assms(1), of name] have "map_of (hs_names s) name \<noteq> None" by simp
    with Inl find [OF assms(1)] assms(1) show ?thesis by (simp add: skynet_handle_namehandle_def)
  next
    case (Inr p)
    with names_search [OF assms(1), of name handle]
    have p: "map_of (hs_names s) name = None" "p \<le> hs_name_count s"
      "sorted_wrt (<) (map fst (insert_at p (name, handle) (hs_names s)))" by simp_all
    obtain s' where s': "insert_name_before s name handle p = Inr s'"
      "hs_names s' = insert_at p (name, handle) (hs_names s)" "hs_name_count s' = Suc (hs_name_count s)"
      "hs_name_count s' \<le> length (hs_name s')" "hs_slot s' = hs_slot s"
      using insert_name_before_spec [OF p(2) assms] by blast
    have inv: "names_inv s'" using s' p(3) by (auto simp: names_inv_def)
    have "name \<notin> set (map fst (take p (hs_names s)))"
      using p(1) by (auto simp: map_of_eq_None_iff dest: in_set_takeD)
    then have "map_of (take p (hs_names s)) name = None" by (simp add: map_of_eq_None_iff)
    then have "map_of (hs_names s') = (map_of (take p (hs_names s) @ drop p (hs_names s)))(name \<mapsto> handle)"
      unfolding s'(2) insert_at_def map_of_append by (auto simp: map_add_def fun_eq_iff split: option.splits)
    then have "map_of (hs_names s') = (map_of (hs_names s))(name \<mapsto> handle)" by simp
    with Inr s' p inv find [OF inv, of name] find [OF assms(1)] show ?thesis
      by (simp add: skynet_handle_namehandle_def)
  qed
qed

text \<open>
  C14: the name registry behaves as a finite map from names to handles. A new name is
  accepted and every other name keeps its handle; a name in use is refused (NULL) and nothing
  changes; looking a name up returns its handle, zero if it has none; the array stays sorted,
  through its growth, so the bisection stays correct.
\<close>

theorem name_registry_is_map:
  assumes "names_inv s" "hs_name_count s < MAX_SLOT_SIZE div 2"
  shows "(\<forall>n. skynet_handle_findname n s = (case map_of (hs_names s) n of None \<Rightarrow> 0 | Some h \<Rightarrow> h)) \<and>
         (\<exists>r s'. skynet_handle_namehandle handle name s = Inr (r, s') \<and> names_inv s' \<and>
            hs_slot s' = hs_slot s \<and>
            (if map_of (hs_names s) name = None
             then r = Some name \<and> map_of (hs_names s') = (map_of (hs_names s))(name \<mapsto> handle) \<and>
                  skynet_handle_findname name s' = handle
             else r = None \<and> s' = s))"
  using assms by (rule name_registry_spec)

section \<open>Witnesses\<close>

text \<open>Contexts named by numbers; the third one carries handle 5.\<close>

definition demo_storage :: "nat handle_storage" where
  "demo_storage = \<lparr>hs_harbor = 0x01000000, hs_index = 6,
     hs_slot = [None, Some 3, None, None], hs_name = [(''db'', 0x01000005), ('''', 0)], hs_name_count = 1\<rparr>"

definition demo_hof :: "nat \<Rightarrow> u32" where "demo_hof c = (if c = 3 then 0x01000005 else 0)"

lemma demo_storage_inv: "storage_inv demo_hof demo_storage"
proof -
  have "slots_inv demo_hof demo_storage"
    by (rule slots_invI [of 2])
      (auto simp: demo_storage_def demo_hof_def slot_hash_def HANDLE_MASK_def nth_Cons less_Suc_eq
        numeral_eq_Suc split: nat.splits)
  then show ?thesis by (simp add: storage_inv_def names_inv_def hs_names_def demo_storage_def)
qed

theorem handle_register_correct_witness:
  "\<exists>s' h. skynet_handle_register demo_hof 7 demo_storage = Some (Inr (s', h)) \<and>
     handle_lookup (demo_hof(7 := h)) s' h = Some 7 \<and> handle_lookup (demo_hof(7 := h)) s' 0x01000005 = Some 3"
proof -
  have "handle_lookup demo_hof demo_storage 0x01000005 = Some 3"
    by (simp add: handle_lookup_def demo_storage_def demo_hof_def slot_hash_def)
  moreover have "slots_inv demo_hof demo_storage" "Some 7 \<notin> set (hs_slot demo_storage)"
    "length (hs_slot demo_storage) < 2 ^ 24 \<or> None \<in> set (hs_slot demo_storage)"
    using demo_storage_inv by (simp_all add: storage_inv_def) (simp_all add: demo_storage_def)
  moreover note handle_register_correct [OF this]
  ultimately show ?thesis by (metis fun_upd_apply option.distinct(1))
qed

theorem retireall_correct_witness:
  "\<exists>cs s'. skynet_handle_retireall demo_hof [] demo_storage = Some (cs, s') \<and> 3 \<in> set cs \<and>
     handle_lookup demo_hof s' 0x01000005 = None"
proof -
  have "handle_lookup demo_hof demo_storage 0x01000005 = Some 3"
    by (simp add: handle_lookup_def demo_storage_def demo_hof_def slot_hash_def)
  moreover have "(0x01000005 :: u32) \<noteq> 0" by simp
  moreover obtain cs s' where "skynet_handle_retireall demo_hof [] demo_storage = Some (cs, s')"
    "set cs = {c. \<exists>h. h \<noteq> 0 \<and> handle_lookup demo_hof demo_storage h = Some c}"
    "\<forall>h. handle_lookup demo_hof s' h = (if h = 0 then handle_lookup demo_hof demo_storage 0 else None)"
    using retireall_correct [OF demo_storage_inv] by blast
  ultimately have "3 \<in> set cs" "handle_lookup demo_hof s' 0x01000005 = None" by (blast, simp)
  then show ?thesis using \<open>skynet_handle_retireall demo_hof [] demo_storage = Some (cs, s')\<close> by blast
qed

theorem name_registry_is_map_witness:
  "\<exists>s'. skynet_handle_namehandle 9 ''agent'' demo_storage = Inr (Some ''agent'', s') \<and>
     skynet_handle_findname ''agent'' s' = 9 \<and> skynet_handle_findname ''db'' demo_storage = 0x01000005"
proof -
  have "names_inv demo_storage" using demo_storage_inv by (simp add: storage_inv_def)
  from name_registry_is_map [OF this, of 9 "''agent''"] show ?thesis
    by (auto simp: demo_storage_def hs_names_def MAX_SLOT_SIZE_def)
qed

end
