(* ===== verification/MessageQueue.thy ===== *)
theory MessageQueue
  imports Prelude "HOL-Library.While_Combinator"
begin

text \<open>
  The message queues of \<open>skynet-src/skynet_mq.c\<close>. A \<open>struct message_queue\<close> is the record
  \<open>mq\<close>: a circular buffer of messages with its flags and its \<open>next\<close> link. The queues live
  in a heap indexed by address, because the global queue links them through \<open>next\<close>; the
  global queue itself is the pair of pointers \<open>gq_head\<close>, \<open>gq_tail\<close>. A slot of the buffer
  that was allocated and never written is \<open>None\<close>. Every operation runs under the queue's
  spinlock, so each is one function of the state.
\<close>

section \<open>Data\<close>

text \<open>
  What a \<open>data\<close> pointer points to: a block of bytes, a \<open>struct remote_message\<close> of
  \<open>skynet_harbor.h\<close> (name and handle of the destination, message, size), or a
  \<open>struct skynet_socket_message\<close> (type, id, ud, buffer and the bytes that follow the struct).
\<close>

datatype payload =
    Block bytes
  | Remote_message string u32 "payload option" u64
  | Socket_message int int int "bytes option" bytes

text \<open>\<open>struct skynet_message\<close>: \<open>msg_data\<close> is the block the \<open>data\<close> pointer owns, \<open>None\<close> for NULL.\<close>

record skynet_message =
  msg_source :: u32
  msg_session :: c_int
  msg_data :: "payload option"
  msg_sz :: u64

record mq =
  mq_handle :: u32
  mq_cap :: nat
  mq_head :: nat
  mq_tail :: nat
  mq_release :: bool
  mq_in_global :: bool
  mq_overload :: nat
  mq_threshold :: nat
  mq_queue :: "skynet_message option list"
  mq_next :: "nat option"

record mq_heap =
  mh_queues :: "nat \<Rightarrow> mq option"
  mh_fresh :: nat
  gq_head :: "nat option"
  gq_tail :: "nat option"

definition DEFAULT_QUEUE_SIZE :: nat where "DEFAULT_QUEUE_SIZE = 64"
definition MQ_OVERLOAD :: nat where "MQ_OVERLOAD = 1024"

section \<open>The circular buffer\<close>

definition mq_new :: "u32 \<Rightarrow> mq" where
  "mq_new handle = \<lparr>mq_handle = handle, mq_cap = DEFAULT_QUEUE_SIZE, mq_head = 0, mq_tail = 0,
     mq_release = False, mq_in_global = True, mq_overload = 0, mq_threshold = MQ_OVERLOAD,
     mq_queue = replicate DEFAULT_QUEUE_SIZE None, mq_next = None\<rparr>"

definition skynet_mq_length :: "mq \<Rightarrow> nat" where
  "skynet_mq_length q = ring_len (mq_cap q) (mq_head q) (mq_tail q)"

text \<open>Reading the overload mark clears it.\<close>

definition skynet_mq_overload :: "mq \<Rightarrow> nat \<times> mq" where
  "skynet_mq_overload q =
     (if mq_overload q \<noteq> 0 then (mq_overload q, q\<lparr>mq_overload := 0\<rparr>) else (0, q))"

text \<open>The loop \<open>while (length > q->overload_threshold)\<close> of \<open>skynet_mq_pop\<close>.\<close>

definition overload_scan :: "nat \<Rightarrow> nat \<times> nat \<Rightarrow> nat \<times> nat" where
  "overload_scan len = while (\<lambda>(ov, th). th < len) (\<lambda>(ov, th). (len, th * 2))"

text \<open>
  \<open>skynet_mq_pop\<close>: the return code (0 for success), what is stored through the message
  pointer, and the queue.
\<close>

definition skynet_mq_pop :: "mq \<Rightarrow> nat \<times> skynet_message option \<times> mq" where
  "skynet_mq_pop q =
     (if mq_head q \<noteq> mq_tail q then
        let m = mq_queue q ! mq_head q;
            h = Suc (mq_head q);
            h' = (if h \<ge> mq_cap q then 0 else h);
            len = ring_len (mq_cap q) h' (mq_tail q);
            (ov, th) = overload_scan len (mq_overload q, mq_threshold q)
        in (0, m, q\<lparr>mq_head := h', mq_overload := ov, mq_threshold := th\<rparr>)
      else (1, None, q\<lparr>mq_threshold := MQ_OVERLOAD, mq_in_global := False\<rparr>))"

definition expand_queue :: "mq \<Rightarrow> mq" where
  "expand_queue q = q\<lparr>
     mq_queue := map (\<lambda>i. mq_queue q ! ((mq_head q + i) mod mq_cap q)) [0..<mq_cap q]
                 @ replicate (mq_cap q) None,
     mq_head := 0, mq_tail := mq_cap q, mq_cap := mq_cap q * 2\<rparr>"

text \<open>The part of \<open>skynet_mq_push\<close> that concerns the buffer.\<close>

definition mq_store :: "skynet_message \<Rightarrow> mq \<Rightarrow> mq" where
  "mq_store m q =
     (let t = Suc (mq_tail q);
          q' = q\<lparr>mq_queue := (mq_queue q)[mq_tail q := Some m],
                 mq_tail := (if t \<ge> mq_cap q then 0 else t)\<rparr>
      in if mq_head q' = mq_tail q' then expand_queue q' else q')"

section \<open>The global queue\<close>

definition mq_heap_empty :: mq_heap where
  "mq_heap_empty = \<lparr>mh_queues = (\<lambda>_. None), mh_fresh = 0, gq_head = None, gq_tail = None\<rparr>"

definition mh_set :: "nat \<Rightarrow> mq \<Rightarrow> mq_heap \<Rightarrow> mq_heap" where
  "mh_set a q h = h\<lparr>mh_queues := (mh_queues h)(a := Some q)\<rparr>"

definition mh_free :: "nat \<Rightarrow> mq_heap \<Rightarrow> mq_heap" where
  "mh_free a h = h\<lparr>mh_queues := (mh_queues h)(a := None)\<rparr>"

definition skynet_globalmq_push :: "mq_heap \<Rightarrow> nat \<Rightarrow> mq_heap res" where
  "skynet_globalmq_push h a =
     res_deref ''skynet_globalmq_push'' (mh_queues h a) (\<lambda>q.
     res_assert ''skynet_globalmq_push'' (mq_next q = None)
       (case gq_tail h of
          Some t \<Rightarrow> res_deref ''skynet_globalmq_push'' (mh_queues h t) (\<lambda>qt.
                     Inr ((mh_set t (qt\<lparr>mq_next := Some a\<rparr>) h)\<lparr>gq_tail := Some a\<rparr>))
        | None \<Rightarrow> Inr (h\<lparr>gq_head := Some a, gq_tail := Some a\<rparr>)))"

definition skynet_globalmq_pop :: "mq_heap \<Rightarrow> (nat option \<times> mq_heap) res" where
  "skynet_globalmq_pop h =
     (case gq_head h of
        None \<Rightarrow> Inr (None, h)
      | Some a \<Rightarrow> res_deref ''skynet_globalmq_pop'' (mh_queues h a) (\<lambda>q.
          let h' = (mh_set a (q\<lparr>mq_next := None\<rparr>) h)\<lparr>gq_head := mq_next q\<rparr>
          in if mq_next q = None
             then res_assert ''skynet_globalmq_pop'' (gq_tail h = Some a)
                    (Inr (Some a, h'\<lparr>gq_tail := None\<rparr>))
             else Inr (Some a, h')))"

section \<open>Operations on queues of the heap\<close>

definition skynet_mq_create :: "u32 \<Rightarrow> mq_heap \<Rightarrow> nat \<times> mq_heap" where
  "skynet_mq_create handle h =
     (let a = mh_fresh h in (a, (mh_set a (mq_new handle) h)\<lparr>mh_fresh := Suc a\<rparr>))"

definition mq_release_block :: "nat \<Rightarrow> mq_heap \<Rightarrow> mq_heap res" where
  "mq_release_block a h =
     res_deref ''_release'' (mh_queues h a) (\<lambda>q.
     res_assert ''_release'' (mq_next q = None) (Inr (mh_free a h)))"

definition skynet_mq_push :: "nat \<Rightarrow> skynet_message \<Rightarrow> mq_heap \<Rightarrow> mq_heap res" where
  "skynet_mq_push a m h =
     res_deref ''skynet_mq_push'' (mh_queues h a) (\<lambda>q.
       let q' = mq_store m q in
       if \<not> mq_in_global q'
       then skynet_globalmq_push (mh_set a (q'\<lparr>mq_in_global := True\<rparr>) h) a
       else Inr (mh_set a q' h))"

definition skynet_mq_mark_release :: "nat \<Rightarrow> mq_heap \<Rightarrow> mq_heap res" where
  "skynet_mq_mark_release a h =
     res_deref ''skynet_mq_mark_release'' (mh_queues h a) (\<lambda>q.
     res_assert ''skynet_mq_mark_release'' (\<not> mq_release q)
       (let h' = mh_set a (q\<lparr>mq_release := True\<rparr>) h in
        if \<not> mq_in_global q then skynet_globalmq_push h' a else Inr h'))"

text \<open>
  \<open>_drop_queue\<close> calls back into the rest of the program for every message it drops. It is
  written over any state \<open>'s\<close> that holds the queues (\<open>g\<close> reads them, \<open>p\<close> writes them).
\<close>

partial_function (option) drop_queue ::
  "('s \<Rightarrow> mq_heap) \<Rightarrow> (mq_heap \<Rightarrow> 's \<Rightarrow> 's) \<Rightarrow> (skynet_message \<Rightarrow> 's \<Rightarrow> 's res) \<Rightarrow> nat \<Rightarrow> 's \<Rightarrow> 's res option"
where
  "drop_queue g p drop_func a s =
     (case mh_queues (g s) a of
        None \<Rightarrow> Some (Inl (Bad_pointer ''_drop_queue''))
      | Some q \<Rightarrow>
         (case skynet_mq_pop q of (ret, m, q') \<Rightarrow>
            let s' = p (mh_set a q' (g s)) s in
            if ret = 0 then
              (case m of
                 None \<Rightarrow> Some (Inl (Bad_pointer ''_drop_queue''))
               | Some msg \<Rightarrow>
                  (case drop_func msg s' of
                     Inl e \<Rightarrow> Some (Inl e)
                   | Inr s'' \<Rightarrow> drop_queue g p drop_func a s''))
            else Some (res_bind (mq_release_block a (g s')) (\<lambda>h. Inr (p h s')))))"

definition skynet_mq_release ::
  "('s \<Rightarrow> mq_heap) \<Rightarrow> (mq_heap \<Rightarrow> 's \<Rightarrow> 's) \<Rightarrow> (skynet_message \<Rightarrow> 's \<Rightarrow> 's res) \<Rightarrow> nat \<Rightarrow> 's \<Rightarrow> 's res option"
where
  "skynet_mq_release g p drop_func a s =
     (case mh_queues (g s) a of
        None \<Rightarrow> Some (Inl (Bad_pointer ''skynet_mq_release''))
      | Some q \<Rightarrow>
          if mq_release q then drop_queue g p drop_func a s
          else Some (res_bind (skynet_globalmq_push (g s) a) (\<lambda>h. Inr (p h s))))"

section \<open>Abstraction and invariants\<close>

definition mq_content :: "mq \<Rightarrow> skynet_message list" where
  "mq_content q = map the (ring_slice (mq_queue q) (mq_head q) (skynet_mq_length q))"

definition mq_inv :: "mq \<Rightarrow> bool" where
  "mq_inv q \<longleftrightarrow> length (mq_queue q) = mq_cap q \<and> mq_head q < mq_cap q \<and> mq_tail q < mq_cap q \<and>
     None \<notin> set (ring_slice (mq_queue q) (mq_head q) (skynet_mq_length q)) \<and>
     1024 \<le> mq_threshold q"

text \<open>The queue as the interface \<open>fifo\<close> sees it.\<close>

definition mq_take :: "mq \<Rightarrow> skynet_message option \<times> mq" where
  "mq_take q = (case skynet_mq_pop q of (ret, m, q') \<Rightarrow> (if ret = 0 then m else None, q'))"

text \<open>The queues linked from \<open>p\<close> through \<open>next\<close> are \<open>xs\<close>, in this order.\<close>

fun linked :: "(nat \<Rightarrow> mq option) \<Rightarrow> nat option \<Rightarrow> nat list \<Rightarrow> bool" where
  "linked hp p [] \<longleftrightarrow> p = None"
| "linked hp p (a # as) \<longleftrightarrow> p = Some a \<and> hp a \<noteq> None \<and> linked hp (mq_next (the (hp a))) as"

definition gq_inv :: "mq_heap \<Rightarrow> nat list \<Rightarrow> bool" where
  "gq_inv h xs \<longleftrightarrow> linked (mh_queues h) (gq_head h) xs \<and> distinct xs \<and>
     gq_tail h = (if xs = [] then None else Some (last xs)) \<and>
     (\<forall>a q. mh_queues h a = Some q \<longrightarrow> a \<notin> set xs \<longrightarrow> mq_next q = None) \<and>
     (\<forall>a. mh_fresh h \<le> a \<longrightarrow> mh_queues h a = None)"

text \<open>A queue without its link: what pushing to and popping from the global queue preserve.\<close>

definition mh_core :: "mq_heap \<Rightarrow> nat \<Rightarrow> mq option" where
  "mh_core h a = map_option (\<lambda>q. q\<lparr>mq_next := None\<rparr>) (mh_queues h a)"

section \<open>The circular buffer is a first-in first-out queue\<close>

lemma overload_scan_unfold:
  "overload_scan len (ov, th) = (if th < len then overload_scan len (len, th * 2) else (ov, th))"
  unfolding overload_scan_def by (subst while_unfold) simp

lemma overload_scan_result:
  assumes "0 < th"
  shows "\<exists>k. overload_scan len (ov, th) = (if th < len then len else ov, th * 2 ^ k) \<and>
           len \<le> th * 2 ^ k \<and> (0 < k \<longrightarrow> th * 2 ^ (k - 1) < len)"
  using assms
proof (induction "len - th" arbitrary: ov th rule: less_induct)
  case less
  show ?case
  proof (cases "th < len")
    case False
    then show ?thesis by (intro exI [of _ 0]) (simp add: overload_scan_unfold)
  next
    case True
    with less.prems have "len - th * 2 < len - th" by simp
    from less.hyps [OF this, of len] less.prems obtain k where
      k: "overload_scan len (len, th * 2) = (if th * 2 < len then len else len, th * 2 * 2 ^ k)"
         "len \<le> th * 2 * 2 ^ k" "0 < k \<longrightarrow> th * 2 * 2 ^ (k - 1) < len" by auto
    have "th * 2 ^ (Suc k - 1) < len" using k(3) True by (cases k) auto
    with k True show ?thesis
      by (intro exI [of _ "Suc k"]) (simp add: overload_scan_unfold [of len ov th] mult.assoc)
  qed
qed

lemma overload_scan_ge: "1024 \<le> th \<Longrightarrow> 1024 \<le> snd (overload_scan len (ov, th))"
proof -
  assume th: "1024 \<le> th"
  obtain k where "overload_scan len (ov, th) = (if th < len then len else ov, th * 2 ^ k)"
    using overload_scan_result [of th len ov] th by (metis (no_types) less_le_trans zero_less_numeral)
  then have "snd (overload_scan len (ov, th)) = th * 2 ^ k" by simp
  moreover have "th * 1 \<le> th * 2 ^ k" by (intro mult_le_mono2) simp
  ultimately show ?thesis using th by linarith
qed

lemma mq_inv_new: "mq_inv (mq_new h)"
  by (simp add: mq_inv_def mq_new_def DEFAULT_QUEUE_SIZE_def MQ_OVERLOAD_def skynet_mq_length_def
      ring_len_def)

lemma mq_content_new: "mq_content (mq_new h) = []"
  by (simp add: mq_content_def mq_new_def skynet_mq_length_def ring_len_def)

lemma mq_store_content_inv:
  assumes "mq_inv q"
  shows "mq_content (mq_store m q) = mq_content q @ [m] \<and> mq_inv (mq_store m q)"
proof -
  let ?c = "mq_cap q" and ?h = "mq_head q" and ?t = "mq_tail q" and ?n = "skynet_mq_length q"
  let ?xs = "(mq_queue q)[?t := Some m]"
  from assms have inv: "length (mq_queue q) = ?c" "?h < ?c" "?t < ?c" "1024 \<le> mq_threshold q"
    and used: "None \<notin> set (ring_slice (mq_queue q) ?h ?n)"
    by (auto simp: mq_inv_def)
  have slice: "ring_slice ?xs ?h (Suc ?n) = ring_slice (mq_queue q) ?h ?n @ [Some m]"
    using ring_push_slice [of ?h "mq_queue q" ?t "Some m"] inv by (simp add: skynet_mq_length_def)
  have store: "mq_store m q = (let q' = q\<lparr>mq_queue := ?xs, mq_tail := ring_next ?c ?t\<rparr>
      in if ?h = ring_next ?c ?t then expand_queue q' else q')"
    by (simp add: mq_store_def ring_next_def Let_def)
  show ?thesis
  proof (cases "?h = ring_next ?c ?t")
    case False
    then have n: "ring_len ?c ?h (ring_next ?c ?t) = Suc ?n"
      using ring_len_next_tail [of ?h ?c ?t] inv by (simp add: skynet_mq_length_def)
    have e: "mq_store m q = q\<lparr>mq_queue := ?xs, mq_tail := ring_next ?c ?t\<rparr>" (is "_ = ?q")
      using False by (simp add: store)
    have "skynet_mq_length ?q = Suc ?n" using n by (simp add: skynet_mq_length_def [of ?q])
    then have "ring_slice (mq_queue ?q) (mq_head ?q) (skynet_mq_length ?q) =
        ring_slice (mq_queue q) ?h ?n @ [Some m]"
      using slice by simp
    then have "mq_content ?q = mq_content q @ [m] \<and> mq_inv ?q"
      using inv used unfolding mq_content_def mq_inv_def by (simp add: ring_next_less)
    then show ?thesis unfolding e .
  next
    case True
    have full: "Suc ?n = ?c"
      using ring_len_next_tail_full [OF inv(2,3) True [symmetric]] unfolding skynet_mq_length_def .
    have slice': "ring_slice ?xs ?h ?c = ring_slice (mq_queue q) ?h ?n @ [Some m]"
      using slice unfolding full .
    have buf: "ring_slice (ring_slice ?xs ?h ?c @ replicate ?c None) 0 ?c = ring_slice ?xs ?h ?c"
      using ring_slice_prefix [of "ring_slice ?xs ?h ?c" "replicate ?c None"] by simp
    have "map (\<lambda>i. ?xs ! ((?h + i) mod ?c)) [0..<?c] = ring_slice ?xs ?h ?c"
      using ring_slice_full [of ?xs ?h] inv(1) by simp
    then have e: "mq_store m q = q\<lparr>mq_queue := ring_slice ?xs ?h ?c @ replicate ?c None,
        mq_head := 0, mq_tail := ?c, mq_cap := ?c * 2\<rparr>" (is "_ = ?q")
      using True by (simp add: store expand_queue_def)
    have "skynet_mq_length ?q = ?c" by (simp add: skynet_mq_length_def ring_len_def)
    then have "ring_slice (mq_queue ?q) (mq_head ?q) (skynet_mq_length ?q) = ring_slice ?xs ?h ?c"
      using buf by simp
    then have "mq_content ?q = mq_content q @ [m] \<and> mq_inv ?q"
      using inv used slice' unfolding mq_content_def mq_inv_def by (simp add: full)
    then show ?thesis unfolding e .
  qed
qed

lemma mq_content_Nil: "mq_inv q \<Longrightarrow> mq_content q = [] \<longleftrightarrow> mq_head q = mq_tail q"
proof -
  assume "mq_inv q"
  then have "mq_head q < mq_cap q" "mq_tail q < mq_cap q" by (simp_all add: mq_inv_def)
  from ring_len_eq_0 [OF this] show ?thesis
    by (metis length_0_conv length_map length_ring_slice mq_content_def skynet_mq_length_def)
qed

lemma length_mq_content: "length (mq_content q) = skynet_mq_length q"
  by (simp add: mq_content_def)

lemma mq_pop_empty:
  assumes "mq_inv q" "mq_content q = []"
  shows "skynet_mq_pop q = (1, None, q\<lparr>mq_threshold := MQ_OVERLOAD, mq_in_global := False\<rparr>)"
  using assms by (simp add: skynet_mq_pop_def mq_content_Nil)

lemma mq_pop_some:
  assumes "mq_inv q" "mq_content q = x # xs"
  shows "\<exists>q'. skynet_mq_pop q = (0, Some x, q') \<and> mq_content q' = xs \<and> mq_inv q' \<and>
           mq_in_global q' = mq_in_global q \<and> mq_release q' = mq_release q \<and>
           mq_handle q' = mq_handle q \<and> mq_next q' = mq_next q \<and> mq_cap q' = mq_cap q \<and>
           (mq_overload q', mq_threshold q') =
             overload_scan (length xs) (mq_overload q, mq_threshold q)"
proof -
  let ?c = "mq_cap q" and ?h = "mq_head q" and ?t = "mq_tail q"
  let ?n = "ring_len ?c (ring_next ?c ?h) ?t"
  from assms(1) have inv: "length (mq_queue q) = ?c" "?h < ?c" "?t < ?c" "1024 \<le> mq_threshold q"
    and used: "None \<notin> set (ring_slice (mq_queue q) ?h (skynet_mq_length q))"
    by (auto simp: mq_inv_def)
  have ne: "?h \<noteq> ?t" using assms by (auto simp: mq_content_Nil [symmetric])
  have len: "skynet_mq_length q = Suc ?n"
    using ring_len_next_head [OF inv(2,3) ne] by (simp add: skynet_mq_length_def)
  have slice: "ring_slice (mq_queue q) ?h (Suc ?n) =
      mq_queue q ! ?h # ring_slice (mq_queue q) (ring_next ?c ?h) ?n"
    using ring_slice_Cons [of ?h "mq_queue q" ?n] inv by simp
  obtain ov th where scan: "overload_scan ?n (mq_overload q, mq_threshold q) = (ov, th)"
    by fastforce
  have first: "mq_queue q ! ?h = Some x"
    and rest: "map the (ring_slice (mq_queue q) (ring_next ?c ?h) ?n) = xs"
    using assms(2) used by (auto simp: mq_content_def len slice)
  from rest have xs: "length xs = ?n" by (metis length_map length_ring_slice)
  have th: "1024 \<le> th" using overload_scan_ge [OF inv(4), of ?n "mq_overload q"] scan by simp
  let ?q = "q\<lparr>mq_head := ring_next ?c ?h, mq_overload := ov, mq_threshold := th\<rparr>"
  have "skynet_mq_pop q = (0, Some x, ?q)"
    using ne first scan by (simp add: skynet_mq_pop_def ring_next_def [symmetric] Let_def)
  with inv used th rest xs scan len slice show ?thesis
    by (intro exI [of _ ?q])
      (simp add: mq_content_def mq_inv_def skynet_mq_length_def ring_next_less)
qed

interpretation ring: fifo mq_content mq_inv mq_store mq_take
proof unfold_locales
  fix q x assume "mq_inv q"
  then show "mq_content (mq_store x q) = mq_content q @ [x]" and "mq_inv (mq_store x q)"
    using mq_store_content_inv by blast+
next
  fix q assume inv: "mq_inv q"
  then show "mq_content q = [] \<Longrightarrow> fst (mq_take q) = None"
    by (simp add: mq_take_def mq_pop_empty)
  show "mq_content q \<noteq> [] \<Longrightarrow> fst (mq_take q) = Some (hd (mq_content q))"
    using mq_pop_some [OF inv] by (cases "mq_content q") (auto simp: mq_take_def)
  have "mq_content (snd (mq_take q)) = tl (mq_content q) \<and> mq_inv (snd (mq_take q))"
  proof (cases "mq_content q")
    case Nil
    let ?q = "q\<lparr>mq_threshold := MQ_OVERLOAD, mq_in_global := False\<rparr>"
    have "mq_content ?q = mq_content q \<and> mq_inv ?q"
      using inv by (simp add: mq_content_def mq_inv_def skynet_mq_length_def MQ_OVERLOAD_def)
    with Nil inv show ?thesis by (simp add: mq_take_def mq_pop_empty)
  next
    case (Cons x xs)
    with mq_pop_some [OF inv Cons] show ?thesis by (auto simp: mq_take_def)
  qed
  then show "mq_content (snd (mq_take q)) = tl (mq_content q)" and "mq_inv (snd (mq_take q))"
    by simp_all
qed

section \<open>The global queue is a linked list\<close>

lemma linked_frame:
  "a \<notin> set xs \<Longrightarrow> linked (hp(a := v)) p xs = linked hp p xs"
  by (induction xs arbitrary: p) auto

lemma linked_cong:
  "(\<And>a. a \<in> set xs \<Longrightarrow> (hp a \<noteq> None \<longleftrightarrow> hp' a \<noteq> None) \<and> mq_next (the (hp a)) = mq_next (the (hp' a)))
   \<Longrightarrow> linked hp p xs = linked hp' p xs"
  by (induction xs arbitrary: p) auto

lemma linked_dom: "linked hp p xs \<Longrightarrow> a \<in> set xs \<Longrightarrow> hp a \<noteq> None"
  by (induction xs arbitrary: p) auto

lemma linked_last:
  "linked hp p xs \<Longrightarrow> xs \<noteq> [] \<Longrightarrow> mq_next (the (hp (last xs))) = None"
  by (induction xs arbitrary: p) auto

lemma linked_snoc:
  assumes "linked hp p xs" "xs \<noteq> []" "distinct xs" "a \<notin> set xs" "hp a = Some q" "mq_next q = None"
    "hp (last xs) = Some ql"
  shows "linked (hp(last xs := Some (ql\<lparr>mq_next := Some a\<rparr>))) p (xs @ [a])"
  using assms
proof (induction xs arbitrary: p)
  case (Cons x xs)
  show ?case
  proof (cases "xs = []")
    case True
    with Cons.prems show ?thesis by auto
  next
    case False
    then have last: "last (x # xs) = last xs" by simp
    have "linked (hp(last xs := Some (ql\<lparr>mq_next := Some a\<rparr>))) (mq_next (the (hp x))) (xs @ [a])"
      by (rule Cons.IH) (use Cons.prems False last in simp_all)
    moreover have "x \<noteq> last xs" using False Cons.prems(3) by auto
    ultimately show ?thesis
      using Cons.prems(1) unfolding last append_Cons linked.simps by (simp del: fun_upd_apply add: fun_upd_other)
  qed
qed simp

text \<open>What the operations on one queue never change of the others.\<close>

lemma mh_set_simps [simp]:
  "mh_queues (mh_set a q h) = (mh_queues h)(a := Some q)"
  "gq_head (mh_set a q h) = gq_head h" "gq_tail (mh_set a q h) = gq_tail h"
  "mh_fresh (mh_set a q h) = mh_fresh h"
  by (simp_all add: mh_set_def)

lemma mh_free_simps [simp]:
  "mh_queues (mh_free a h) = (mh_queues h)(a := None)"
  "gq_head (mh_free a h) = gq_head h" "gq_tail (mh_free a h) = gq_tail h"
  "mh_fresh (mh_free a h) = mh_fresh h"
  by (simp_all add: mh_free_def)

lemma gq_inv_empty: "gq_inv mq_heap_empty []"
  by (simp add: gq_inv_def mq_heap_empty_def)

lemma gq_inv_set:
  assumes "gq_inv h xs" "mh_queues h a = Some q" "mq_next q' = mq_next q"
  shows "gq_inv (mh_set a q' h) xs"
proof -
  have "linked ((mh_queues h)(a := Some q')) (gq_head h) xs"
    using assms(1) linked_cong [of xs "mh_queues h" "(mh_queues h)(a := Some q')" "gq_head h"]
      assms(2,3) by (auto simp: gq_inv_def)
  with assms show ?thesis by (auto simp: gq_inv_def split: if_splits)
qed

lemma gq_push:
  assumes "gq_inv h xs" "a \<notin> set xs" "mh_queues h a = Some q"
  shows "\<exists>h'. skynet_globalmq_push h a = Inr h' \<and> gq_inv h' (xs @ [a]) \<and>
           (\<forall>b. b \<notin> set xs \<longrightarrow> mh_queues h' b = mh_queues h b) \<and>
           (\<forall>b. mh_core h' b = mh_core h b) \<and>
           mh_fresh h' = mh_fresh h"
proof (cases "xs = []")
  case True
  with assms show ?thesis
    by (intro exI [of _ "h\<lparr>gq_head := Some a, gq_tail := Some a\<rparr>"])
      (auto simp: skynet_globalmq_push_def gq_inv_def mh_core_def)
next
  case False
  from assms(1) False have lnk: "linked (mh_queues h) (gq_head h) xs" "distinct xs"
    and tl: "gq_tail h = Some (last xs)" by (auto simp: gq_inv_def)
  from assms have nxt: "mq_next q = None" by (auto simp: gq_inv_def)
  obtain ql where ql: "mh_queues h (last xs) = Some ql"
    using linked_dom [OF lnk(1)] False by fastforce
  let ?h = "(mh_set (last xs) (ql\<lparr>mq_next := Some a\<rparr>) h)\<lparr>gq_tail := Some a\<rparr>"
  have "skynet_globalmq_push h a = Inr ?h"
    using assms(3) nxt tl ql by (simp add: skynet_globalmq_push_def)
  moreover have "gq_inv ?h (xs @ [a])"
    using linked_snoc [OF lnk(1) False lnk(2) assms(2,3) nxt ql] assms lnk(2) False ql
    by (auto simp: gq_inv_def)
  ultimately show ?thesis
    using False ql by (intro exI [of _ ?h]) (auto simp: mh_core_def)
qed

lemma gq_pop_Nil: "gq_inv h [] \<Longrightarrow> skynet_globalmq_pop h = Inr (None, h)"
  by (simp add: gq_inv_def skynet_globalmq_pop_def)

lemma gq_pop_Cons:
  assumes "gq_inv h (a # xs)"
  shows "\<exists>h'. skynet_globalmq_pop h = Inr (Some a, h') \<and> gq_inv h' xs \<and>
           (\<forall>b. b \<noteq> a \<longrightarrow> mh_queues h' b = mh_queues h b) \<and>
           (\<forall>b. mh_core h' b = mh_core h b) \<and>
           mh_fresh h' = mh_fresh h"
proof -
  from assms obtain q where q: "mh_queues h a = Some q" and hd: "gq_head h = Some a"
    and lnk: "linked (mh_queues h) (mq_next q) xs" and na: "a \<notin> set xs"
    by (auto simp: gq_inv_def)
  have nil: "mq_next q = None \<longleftrightarrow> xs = []" using lnk by (cases xs) auto
  let ?h = "(mh_set a (q\<lparr>mq_next := None\<rparr>) h)\<lparr>gq_head := mq_next q\<rparr>"
  let ?h' = "if mq_next q = None then ?h\<lparr>gq_tail := None\<rparr> else ?h"
  have "skynet_globalmq_pop h = Inr (Some a, ?h')"
    using assms q hd nil by (auto simp: skynet_globalmq_pop_def gq_inv_def Let_def)
  moreover have "gq_inv ?h' xs"
    using assms q hd nil linked_frame [OF na, of "mh_queues h" "Some (q\<lparr>mq_next := None\<rparr>)" "mq_next q"] lnk
    by (auto simp: gq_inv_def)
  ultimately show ?thesis
    using q by (intro exI [of _ ?h']) (auto simp: mh_core_def)
qed

lemma mh_core_None [simp]: "mh_core h a = None \<longleftrightarrow> mh_queues h a = None"
  by (simp add: mh_core_def)

lemma mh_core_Some:
  assumes "mh_core h' a = mh_core h a" "mh_queues h' a = Some q'"
  obtains q where "mh_queues h a = Some q" "mq_content q' = mq_content q" "mq_inv q' = mq_inv q"
    "mq_in_global q' = mq_in_global q" "mq_release q' = mq_release q" "mq_handle q' = mq_handle q"
proof -
  from assms obtain q where q: "mh_queues h a = Some q"
    and e: "q'\<lparr>mq_next := None\<rparr> = q\<lparr>mq_next := None\<rparr>"
    by (cases "mh_queues h a") (auto simp: mh_core_def)
  obtain n where q': "q' = q\<lparr>mq_next := n\<rparr>"
  proof
    show "q' = q\<lparr>mq_next := mq_next q'\<rparr>" using e by (cases q; cases q') simp
  qed
  have "mq_content q' = mq_content q" "mq_inv q' = mq_inv q" "mq_in_global q' = mq_in_global q"
    "mq_release q' = mq_release q" "mq_handle q' = mq_handle q"
    by (simp_all add: q' mq_content_def mq_inv_def skynet_mq_length_def)
  with q show ?thesis by (rule that)
qed

lemma mq_store_frame [simp]:
  "mq_next (mq_store m q) = mq_next q" "mq_in_global (mq_store m q) = mq_in_global q"
  "mq_release (mq_store m q) = mq_release q" "mq_handle (mq_store m q) = mq_handle q"
  by (simp_all add: mq_store_def expand_queue_def Let_def)

lemma mq_flag_frame [simp]:
  "mq_content (q\<lparr>mq_in_global := b\<rparr>) = mq_content q" "mq_inv (q\<lparr>mq_in_global := b\<rparr>) = mq_inv q"
  "mq_content (q\<lparr>mq_release := b\<rparr>) = mq_content q" "mq_inv (q\<lparr>mq_release := b\<rparr>) = mq_inv q"
  "mq_content (q\<lparr>mq_next := p\<rparr>) = mq_content q" "mq_inv (q\<lparr>mq_next := p\<rparr>) = mq_inv q"
  "mq_content (q\<lparr>mq_overload := n\<rparr>) = mq_content q" "mq_inv (q\<lparr>mq_overload := n\<rparr>) = mq_inv q"
  "mq_content (q\<lparr>mq_threshold := n\<rparr>) = mq_content q"
  by (simp_all add: mq_content_def mq_inv_def skynet_mq_length_def)

lemma gq_inv_create:
  assumes "gq_inv h xs" "skynet_mq_create handle h = (a, h')"
  shows "gq_inv h' xs \<and> a = mh_fresh h \<and> mh_queues h a = None \<and>
         mh_queues h' = (mh_queues h)(a := Some (mq_new handle))"
proof -
  from assms(2) have a: "a = mh_fresh h"
    and h': "h' = (mh_set a (mq_new handle) h)\<lparr>mh_fresh := Suc a\<rparr>"
    by (auto simp: skynet_mq_create_def Let_def)
  have live: "mh_queues h a = None" using assms(1) a by (simp add: gq_inv_def)
  then have na: "a \<notin> set xs" using linked_dom assms(1) by (fastforce simp: gq_inv_def)
  show ?thesis
    using assms(1) a live linked_frame [OF na, of "mh_queues h" "Some (mq_new handle)" "gq_head h"]
    by (auto simp: h' gq_inv_def mq_new_def split: if_splits)
qed

lemma gq_inv_free:
  assumes "gq_inv h xs" "a \<notin> set xs"
  shows "gq_inv (mh_free a h) xs"
  using assms linked_frame [OF assms(2), of "mh_queues h" None "gq_head h"]
  by (auto simp: gq_inv_def)

lemma gq_inv_live: "gq_inv h xs \<Longrightarrow> a \<in> set xs \<Longrightarrow> mh_queues h a \<noteq> None"
  using linked_dom by (auto simp: gq_inv_def)

lemma mq_pop_0_content:
  assumes "mq_inv q" "skynet_mq_pop q = (0, Some m, q')"
  shows "mq_content q = m # mq_content q'"
proof (cases "mq_content q")
  case Nil
  with assms show ?thesis by (simp add: mq_pop_empty)
next
  case (Cons x xs)
  with mq_pop_some [OF assms(1) Cons] assms(2) show ?thesis by auto
qed

lemma mq_pop_1_content:
  assumes "mq_inv q" "skynet_mq_pop q = (1, m, q')"
  shows "mq_content q = [] \<and> q' = q\<lparr>mq_threshold := MQ_OVERLOAD, mq_in_global := False\<rparr>"
proof (cases "mq_content q")
  case Nil
  with assms show ?thesis by (simp add: mq_pop_empty)
next
  case (Cons x xs)
  with mq_pop_some [OF assms(1) Cons] assms(2) show ?thesis by auto
qed

lemma mq_inv_parked: "mq_inv q \<Longrightarrow> mq_inv (q\<lparr>mq_threshold := MQ_OVERLOAD, mq_in_global := b\<rparr>)"
  by (simp add: mq_inv_def skynet_mq_length_def MQ_OVERLOAD_def)

section \<open>Properties of the message queues\<close>

text \<open>
  C4: a service receives its messages in the order they were pushed, none lost and none
  twice, through any sequence of pushes and pops and any number of expansions of the buffer:
  the pops return what they would on a list, and what was popped followed by what is still
  queued is what was pushed.
\<close>

theorem message_queue_is_fifo:
  "fst (run_queue mq_store mq_take (mq_new h) ops) = fst (run_list [] ops) \<and>
   delivered (fst (run_queue mq_store mq_take (mq_new h) ops)) @
     mq_content (snd (run_queue mq_store mq_take (mq_new h) ops)) = enqueued ops"
  using ring.run_refines [OF mq_inv_new, of h ops] ring.run_conserves [OF mq_inv_new, of h ops]
  by (simp add: mq_content_new)

text \<open>
  The overload warning. A pop that leaves \<open>n\<close> messages records \<open>n\<close> as the overload mark
  exactly when \<open>n\<close> exceeds the threshold, and then doubles the threshold just until it
  covers \<open>n\<close>, so that the warning is given again only when the backlog has doubled; the loop
  that doubles it ends.
\<close>

theorem mq_pop_overload:
  assumes "mq_inv q" "mq_content q = x # xs"
  shows "\<exists>q' k. skynet_mq_pop q = (0, Some x, q') \<and>
           mq_overload q' = (if mq_threshold q < length xs then length xs else mq_overload q) \<and>
           mq_threshold q' = mq_threshold q * 2 ^ k \<and> length xs \<le> mq_threshold q' \<and>
           (k \<noteq> 0 \<longrightarrow> mq_threshold q * 2 ^ (k - 1) < length xs)"
proof -
  from assms(1) have th: "0 < mq_threshold q" by (auto simp: mq_inv_def)
  obtain k where k: "overload_scan (length xs) (mq_overload q, mq_threshold q) =
        (if mq_threshold q < length xs then length xs else mq_overload q, mq_threshold q * 2 ^ k)"
      "length xs \<le> mq_threshold q * 2 ^ k" "0 < k \<longrightarrow> mq_threshold q * 2 ^ (k - 1) < length xs"
    using overload_scan_result [OF th, of "length xs" "mq_overload q"] by blast
  obtain q' where q': "skynet_mq_pop q = (0, Some x, q')"
      "(mq_overload q', mq_threshold q') = overload_scan (length xs) (mq_overload q, mq_threshold q)"
    using mq_pop_some [OF assms] by blast
  show ?thesis using k q' by (intro exI [of _ q'] exI [of _ k]) simp
qed

definition demo_message :: skynet_message where
  "demo_message = \<lparr>msg_source = 7, msg_session = 1, msg_data = None, msg_sz = 0\<rparr>"

lemma demo_queue:
  "mq_inv (mq_store demo_message (mq_new 1))" "mq_content (mq_store demo_message (mq_new 1)) = [demo_message]"
  using mq_store_content_inv [OF mq_inv_new, of demo_message 1] by (simp_all add: mq_content_new)

theorem mq_pop_overload_witness:
  "mq_inv (mq_store demo_message (mq_new 1)) \<and> mq_content (mq_store demo_message (mq_new 1)) = [demo_message] \<and>
   (\<exists>q'. skynet_mq_pop (mq_store demo_message (mq_new 1)) = (0, Some demo_message, q'))"
  using mq_pop_overload [OF demo_queue] demo_queue by blast

lemma drop_queue_all:
  assumes gp: "\<And>h s. g (p h s) = h" and lp: "\<And>h s. lg (p h s) = lg s"
    and ok: "\<And>m s. \<exists>s'. drop_func m s = Inr s' \<and> mh_queues (g s') a = mh_queues (g s) a \<and> lg s' = lg s @ [m]"
    and q: "mh_queues (g s) a = Some q" "mq_inv q" "mq_next q = None"
  shows "\<exists>s'. drop_queue g p drop_func a s = Some (Inr s') \<and> mh_queues (g s') a = None \<and>
           lg s' = lg s @ mq_content q"
  using q
proof (induction "mq_content q" arbitrary: q s)
  case Nil
  let ?q = "q\<lparr>mq_threshold := MQ_OVERLOAD, mq_in_global := False\<rparr>"
  let ?h = "mh_free a (mh_set a ?q (g s))"
  have "skynet_mq_pop q = (1, None, ?q)" using Nil by (simp add: mq_pop_empty)
  then have "drop_queue g p drop_func a s = Some (Inr (p ?h (p (mh_set a ?q (g s)) s)))"
    using Nil by (subst drop_queue.simps) (simp add: Let_def gp mq_release_block_def)
  then show ?case using Nil(1) by (simp add: gp lp)
next
  case (Cons x xs)
  obtain q' where pop: "skynet_mq_pop q = (0, Some x, q')" and q': "mq_content q' = xs" "mq_inv q'"
    "mq_next q' = None"
    using mq_pop_some [of q x xs] Cons.hyps(2) Cons.prems by auto
  let ?s = "p (mh_set a q' (g s)) s"
  obtain s1 where s1: "drop_func x ?s = Inr s1" "mh_queues (g s1) a = Some q'" "lg s1 = lg s @ [x]"
    using ok [of x ?s] by (auto simp: gp lp)
  from Cons.hyps(1) [of q' s1] q' s1(2) obtain s' where
    "drop_queue g p drop_func a s1 = Some (Inr s')" "mh_queues (g s') a = None" "lg s' = lg s1 @ xs"
    by auto
  moreover have "drop_queue g p drop_func a s = drop_queue g p drop_func a s1"
    using Cons.prems(1) pop s1(1) by (subst drop_queue.simps) (simp add: Let_def)
  ultimately show ?case using s1(3) Cons.hyps(2) by (metis append.assoc append_Cons append_Nil)
qed



end
