(* ===== verification/Timer.thy ===== *)
theory Timer
  imports MessageQueue
begin

text \<open>
  The timer of \<open>skynet-src/skynet_timer.c\<close>: a hierarchical wheel of 256 near slots and four
  levels of 64 slots, driven by a 32-bit tick counter that wraps. A linked list of nodes is a
  list in link order, \<open>link\<close> appends at the tail and \<open>link_clear\<close> takes the whole list.
  The operations return the messages they push, in order. The theorems show that an event
  set \<open>d\<close> ticks ahead is pushed by the \<open>d\<close>-th tick and by no other, behind the events set
  earlier for the same tick, also when the counter wraps and when other threads set timers
  at every point where the lock is released.
\<close>

section \<open>Data\<close>

record timer_event =
  te_handle :: u32
  te_session :: c_int

record timer_node =
  tn_expire :: u32
  tn_event :: timer_event

record timer =
  tm_near :: "timer_node list list"
  tm_t :: "timer_node list list list"
  tm_time :: u32
  tm_starttime :: u32
  tm_current :: u64
  tm_current_point :: u64

definition TIME_NEAR_SHIFT :: nat where "TIME_NEAR_SHIFT = 8"
definition TIME_NEAR :: nat where "TIME_NEAR = 256"
definition TIME_LEVEL_SHIFT :: nat where "TIME_LEVEL_SHIFT = 6"
definition TIME_LEVEL :: nat where "TIME_LEVEL = 64"
definition TIME_NEAR_MASK :: u32 where "TIME_NEAR_MASK = 0xff"
definition TIME_LEVEL_MASK :: u32 where "TIME_LEVEL_MASK = 0x3f"

definition PTYPE_RESPONSE :: u64 where "PTYPE_RESPONSE = 1"
definition MESSAGE_TYPE_SHIFT :: nat where "MESSAGE_TYPE_SHIFT = 56"

section \<open>Operations\<close>

definition link_near :: "u32 \<Rightarrow> timer_node \<Rightarrow> timer \<Rightarrow> timer" where
  "link_near i node T = T\<lparr>tm_near := (tm_near T)[unat i := tm_near T ! unat i @ [node]]\<rparr>"

definition link_level :: "nat \<Rightarrow> u32 \<Rightarrow> timer_node \<Rightarrow> timer \<Rightarrow> timer" where
  "link_level l i node T = T\<lparr>tm_t := (tm_t T)[l := (tm_t T ! l)[unat i := tm_t T ! l ! unat i @ [node]]]\<rparr>"

text \<open>The \<open>for\<close> loop of \<open>add_node\<close>: the level whose range holds both times.\<close>

function level_loop :: "u32 \<Rightarrow> u32 \<Rightarrow> u32 \<Rightarrow> nat \<Rightarrow> nat" where
  "level_loop time ct m i =
     (if i < 3 then
        if time OR (m - 1) = ct OR (m - 1) then i
        else level_loop time ct (push_bit TIME_LEVEL_SHIFT m) (i + 1)
      else i)"
  by pat_completeness auto
termination by (relation "measure (\<lambda>(time, ct, m, i). 3 - i)") auto

declare level_loop.simps [simp del]

definition add_node :: "timer_node \<Rightarrow> timer \<Rightarrow> timer" where
  "add_node node T =
     (let time = tn_expire node; current_time = tm_time T in
      if time OR TIME_NEAR_MASK = current_time OR TIME_NEAR_MASK then
        link_near (time AND TIME_NEAR_MASK) node T
      else
        let i = level_loop time current_time (push_bit TIME_LEVEL_SHIFT (of_nat TIME_NEAR)) 0 in
        link_level i (drop_bit (TIME_NEAR_SHIFT + i * TIME_LEVEL_SHIFT) time AND TIME_LEVEL_MASK) node T)"

definition timer_add :: "timer_event \<Rightarrow> int \<Rightarrow> timer \<Rightarrow> timer" where
  "timer_add ev time T = add_node \<lparr>tn_expire = of_int time + tm_time T, tn_event = ev\<rparr> T"

definition move_list :: "nat \<Rightarrow> nat \<Rightarrow> timer \<Rightarrow> timer" where
  "move_list level idx T =
     (let current = tm_t T ! level ! idx;
          T' = T\<lparr>tm_t := (tm_t T)[level := (tm_t T ! level)[idx := []]]\<rparr>
      in fold add_node current T')"

text \<open>
  The \<open>while\<close> loop of \<open>timer_shift\<close>: the list it moves before it breaks, if any. A loop that
  does not end has the value \<open>None\<close>.
\<close>

partial_function (option) shift_loop :: "u32 \<Rightarrow> u32 \<Rightarrow> u32 \<Rightarrow> nat \<Rightarrow> (nat \<times> nat) option option" where
  "shift_loop ct m time i =
     (if ct AND (m - 1) = 0 then
        let idx = unat (time AND TIME_LEVEL_MASK) in
        if idx \<noteq> 0 then Some (Some (i, idx))
        else shift_loop ct (push_bit TIME_LEVEL_SHIFT m) (drop_bit TIME_LEVEL_SHIFT time) (i + 1)
      else Some None)"

definition timer_shift :: "timer \<Rightarrow> timer option" where
  "timer_shift T =
     (let ct = tm_time T + 1; T' = T\<lparr>tm_time := ct\<rparr> in
      if ct = 0 then Some (move_list 3 0 T')
      else case shift_loop ct (of_nat TIME_NEAR) (drop_bit TIME_NEAR_SHIFT ct) 0 of
             None \<Rightarrow> None
           | Some None \<Rightarrow> Some T'
           | Some (Some (i, idx)) \<Rightarrow> Some (move_list i idx T'))"

text \<open>\<open>dispatch_list\<close>: the calls of \<open>skynet_context_push\<close>.\<close>

definition timeout_message :: "c_int \<Rightarrow> skynet_message" where
  "timeout_message session = \<lparr>msg_source = 0, msg_session = session, msg_data = None,
     msg_sz = push_bit MESSAGE_TYPE_SHIFT PTYPE_RESPONSE\<rparr>"

definition dispatch_list :: "timer_node list \<Rightarrow> (u32 \<times> skynet_message) list" where
  "dispatch_list ns = map (\<lambda>n. (te_handle (tn_event n), timeout_message (te_session (tn_event n)))) ns"

text \<open>
  One iteration of the loop of \<open>timer_execute\<close>: the list of the current slot is taken under
  the lock. Without another thread in between the slot is empty at the next test.
\<close>

definition take_current :: "timer \<Rightarrow> timer_node list \<times> timer" where
  "take_current T =
     (let idx = unat (tm_time T AND TIME_NEAR_MASK) in
      (tm_near T ! idx, T\<lparr>tm_near := (tm_near T)[idx := []]\<rparr>))"

definition timer_execute :: "timer \<Rightarrow> (u32 \<times> skynet_message) list \<times> timer" where
  "timer_execute T =
     (let (current, T') = take_current T in
      if current \<noteq> [] then (dispatch_list current, T') else ([], T))"

definition timer_update :: "timer \<Rightarrow> ((u32 \<times> skynet_message) list \<times> timer) option" where
  "timer_update T =
     (let (out1, T1) = timer_execute T in
      case timer_shift T1 of
        None \<Rightarrow> None
      | Some T2 \<Rightarrow> (let (out2, T3) = timer_execute T2 in Some (out1 @ out2, T3)))"

definition timer_create_timer :: timer where
  "timer_create_timer = \<lparr>tm_near = replicate TIME_NEAR [], tm_t = replicate 4 (replicate TIME_LEVEL []),
     tm_time = 0, tm_starttime = 0, tm_current = 0, tm_current_point = 0\<rparr>"

text \<open>
  \<open>skynet_timer_init\<close>, given what \<open>systime\<close> and \<open>gettime\<close> read from the clocks.
\<close>

definition skynet_timer_init :: "u32 \<Rightarrow> u32 \<Rightarrow> u64 \<Rightarrow> timer" where
  "skynet_timer_init sec cs now =
     timer_create_timer\<lparr>tm_starttime := sec, tm_current := ucast cs, tm_current_point := now\<rparr>"

text \<open>
  \<open>skynet_timeout\<close>: a delay that is not positive pushes the response at once; \<open>push\<close> is the
  caller's \<open>skynet_context_push\<close> on its own state, which returns 0 on success.
\<close>

definition skynet_timeout ::
  "(u32 \<Rightarrow> skynet_message \<Rightarrow> 'k \<Rightarrow> int \<times> 'k) \<Rightarrow> u32 \<Rightarrow> int \<Rightarrow> int \<Rightarrow> 'k \<times> timer \<Rightarrow> int \<times> 'k \<times> timer"
where
  "skynet_timeout push handle time session st =
     (case st of (k, T) \<Rightarrow>
        if time \<le> 0 then
          (case push handle (timeout_message (of_int session)) k of
             (r, k') \<Rightarrow> if r \<noteq> 0 then (-1, k', T) else (session, k', T))
        else (session, k, timer_add \<lparr>te_handle = handle, te_session = of_int session\<rparr> time T))"

fun update_loop :: "nat \<Rightarrow> timer \<Rightarrow> ((u32 \<times> skynet_message) list \<times> timer) option" where
  "update_loop 0 T = Some ([], T)"
| "update_loop (Suc n) T =
     (case timer_update T of
        None \<Rightarrow> None
      | Some (out, T') \<Rightarrow> (case update_loop n T' of
          None \<Rightarrow> None
        | Some (out', T'') \<Rightarrow> Some (out @ out', T'')))"

text \<open>
  \<open>skynet_updatetime\<close> with the reading \<open>cp\<close> of the monotonic clock. The difference is cut to
  32 bits. The error report of a clock that went backwards is the flag of the result.
\<close>

definition skynet_updatetime :: "u64 \<Rightarrow> timer \<Rightarrow> (bool \<times> (u32 \<times> skynet_message) list \<times> timer) option" where
  "skynet_updatetime cp T =
     (if cp < tm_current_point T then Some (True, [], T\<lparr>tm_current_point := cp\<rparr>)
      else if cp \<noteq> tm_current_point T then
        let diff = ucast (cp - tm_current_point T) :: u32;
            T' = T\<lparr>tm_current_point := cp, tm_current := tm_current T + ucast diff\<rparr>
        in (case update_loop (unat diff) T' of
              None \<Rightarrow> None
            | Some (out, T'') \<Rightarrow> Some (False, out, T''))
      else Some (False, [], T))"

section \<open>Invariant and abstraction\<close>

text \<open>Two times agree above bit \<open>k\<close>; the slot an expiry time belongs to at a given time.\<close>

definition agree :: "nat \<Rightarrow> nat \<Rightarrow> nat \<Rightarrow> bool" where
  "agree k e c \<longleftrightarrow> e div 2 ^ k = c div 2 ^ k"

datatype slot = Near nat | Level nat nat

definition loc_level :: "nat \<Rightarrow> nat \<Rightarrow> nat" where
  "loc_level e c = (if agree 14 e c then 0 else if agree 20 e c then 1 else if agree 26 e c then 2 else 3)"

definition loc :: "nat \<Rightarrow> nat \<Rightarrow> slot" where
  "loc e c = (if agree 8 e c then Near (e mod 256)
              else Level (loc_level e c) (e div 2 ^ (8 + 6 * loc_level e c) mod 64))"

fun slot_list :: "timer \<Rightarrow> slot \<Rightarrow> timer_node list" where
  "slot_list T (Near i) = tm_near T ! i"
| "slot_list T (Level l i) = tm_t T ! l ! i"

fun valid_slot :: "slot \<Rightarrow> bool" where
  "valid_slot (Near i) \<longleftrightarrow> i < 256"
| "valid_slot (Level l i) \<longleftrightarrow> l < 4 \<and> i < 64"

definition timer_shape :: "timer \<Rightarrow> bool" where
  "timer_shape T \<longleftrightarrow> length (tm_near T) = 256 \<and> length (tm_t T) = 4 \<and> (\<forall>l < 4. length (tm_t T ! l) = 64)"

text \<open>Every node is in the slot of its expiry time, less than \<open>2^31\<close> ticks ahead.\<close>

definition timer_inv :: "timer \<Rightarrow> bool" where
  "timer_inv T \<longleftrightarrow> timer_shape T \<and>
     (\<forall>s. valid_slot s \<longrightarrow> (\<forall>n \<in> set (slot_list T s).
        loc (unat (tn_expire n)) (unat (tm_time T)) = s \<and> unat (tn_expire n - tm_time T) < 2 ^ 31))"

text \<open>The events due at time \<open>e\<close>, in the order they were set.\<close>

definition due :: "timer \<Rightarrow> u32 \<Rightarrow> timer_event list" where
  "due T e = map tn_event (filter (\<lambda>n. tn_expire n = e) (slot_list T (loc (unat e) (unat (tm_time T)))))"

section \<open>Where a node is put\<close>

lemma agree_word:
  "(e OR Bit_Operations.mask k = c OR Bit_Operations.mask k) \<longleftrightarrow> agree k (unat e) (unat c)"
  for e c :: u32
proof -
  have dr: "drop_bit k (w OR Bit_Operations.mask k) = drop_bit k w" for w :: u32
    by (rule bit_word_eqI) (auto simp: bit_simps)
  have pu: "w OR Bit_Operations.mask k = push_bit k (drop_bit k w) OR Bit_Operations.mask k" for w :: u32
    by (rule bit_word_eqI) (auto simp: bit_simps)
  have "(e OR Bit_Operations.mask k = c OR Bit_Operations.mask k) \<longleftrightarrow> drop_bit k e = drop_bit k c"
    by (metis dr pu)
  also have "\<dots> \<longleftrightarrow> agree k (unat e) (unat c)"
    by (simp add: agree_def unat_drop word_unat_eq_iff)
  finally show ?thesis .
qed

lemma level_loop_eq:
  "level_loop e c (push_bit TIME_LEVEL_SHIFT (of_nat TIME_NEAR)) 0 = loc_level (unat e) (unat c)"
proof -
  have m: "(0x3fff :: u32) = Bit_Operations.mask 14" "(0xfffff :: u32) = Bit_Operations.mask 20" "(0x3ffffff :: u32) = Bit_Operations.mask 26"
    by (simp_all add: mask_eq_exp_minus_1)
  show ?thesis
    by (simp add: level_loop.simps TIME_LEVEL_SHIFT_def TIME_NEAR_def push_bit_eq_mult loc_level_def)
      (simp add: m agree_word)
qed

lemma masks: "TIME_NEAR_MASK = Bit_Operations.mask 8" "TIME_LEVEL_MASK = Bit_Operations.mask 6"
  by (simp_all add: TIME_NEAR_MASK_def TIME_LEVEL_MASK_def mask_eq_exp_minus_1)

lemma add_node_loc:
  "add_node n T = (case loc (unat (tn_expire n)) (unat (tm_time T)) of
      Near i \<Rightarrow> T\<lparr>tm_near := (tm_near T)[i := tm_near T ! i @ [n]]\<rparr>
    | Level l i \<Rightarrow> T\<lparr>tm_t := (tm_t T)[l := (tm_t T ! l)[i := tm_t T ! l ! i @ [n]]]\<rparr>)"
  unfolding add_node_def level_loop_eq Let_def masks agree_word loc_def
  by (simp add: link_near_def link_level_def unat_and_mask unat_drop
      TIME_NEAR_SHIFT_def TIME_LEVEL_SHIFT_def mult.commute del: take_bit_eq_mask)

lemma valid_loc: "valid_slot (loc e c)"
  by (auto simp: loc_def loc_level_def)

lemma add_node_time [simp]: "tm_time (add_node n T) = tm_time T"
  by (simp add: add_node_loc split: slot.splits)

lemma timer_shape_add_node: "timer_shape T \<Longrightarrow> timer_shape (add_node n T)"
  using valid_loc [of "unat (tn_expire n)" "unat (tm_time T)"]
  by (auto simp: timer_shape_def add_node_loc nth_list_update split: slot.splits)

lemma slot_list_add_node:
  assumes "timer_shape T" "valid_slot s"
  shows "slot_list (add_node n T) s =
    slot_list T s @ (if s = loc (unat (tn_expire n)) (unat (tm_time T)) then [n] else [])"
  using assms valid_loc [of "unat (tn_expire n)" "unat (tm_time T)"]
  by (cases s) (auto simp: timer_shape_def add_node_loc nth_list_update split: slot.splits)

lemma fold_add_node:
  assumes "timer_shape T"
  shows "timer_shape (fold add_node ns T)" "tm_time (fold add_node ns T) = tm_time T"
    "valid_slot s \<Longrightarrow> slot_list (fold add_node ns T) s =
       slot_list T s @ filter (\<lambda>n. loc (unat (tn_expire n)) (unat (tm_time T)) = s) ns"
  using assms
  by (induction ns arbitrary: T) (auto simp: timer_shape_add_node slot_list_add_node)

section \<open>How slots change when the time advances\<close>

lemma agree_mono: "agree k e c \<Longrightarrow> k \<le> m \<Longrightarrow> agree m e c"
proof -
  assume "agree k e c" "k \<le> m"
  moreover have "x div 2 ^ m = x div 2 ^ k div 2 ^ (m - k)" if "k \<le> m" for x :: nat
    using that by (simp add: div_mult2_eq [symmetric] power_add [symmetric])
  ultimately show ?thesis by (simp add: agree_def)
qed

text \<open>An expiry time ahead of \<open>c\<close> that agrees with it above bit \<open>k\<close> rules out a carry there.\<close>

lemma agree_no_carry:
  assumes "agree k e c" "c < e"
  shows "Suc c mod 2 ^ k \<noteq> 0"
proof
  assume "Suc c mod 2 ^ k = 0"
  then have "Suc c div 2 ^ k = Suc (c div 2 ^ k)" by (simp add: div_Suc)
  moreover have "Suc c div 2 ^ k \<le> e div 2 ^ k" using assms(2) by (intro div_le_mono) simp
  ultimately show False using assms(1) by (simp add: agree_def)
qed

lemma agree_Suc: "Suc c mod 2 ^ k \<noteq> 0 \<Longrightarrow> agree k e (Suc c) \<longleftrightarrow> agree k e c"
  by (simp add: agree_def div_Suc)

definition ahead :: "nat \<Rightarrow> nat \<Rightarrow> bool" where
  "ahead e c \<longleftrightarrow> e < 2 ^ 32 \<and> c < 2 ^ 32 \<and> ((c < e \<and> e - c < 2 ^ 31) \<or> (e < c \<and> e + 2 ^ 32 - c < 2 ^ 31))"

lemma agree_ahead: "agree k e c \<Longrightarrow> k \<le> 26 \<Longrightarrow> ahead e c \<Longrightarrow> c < e"
proof (rule ccontr)
  assume a: "agree k e c" "k \<le> 26" "ahead e c" "\<not> c < e"
  then have "agree 26 e c" by (auto intro: agree_mono)
  with a(3,4) show False by (auto simp: ahead_def agree_def)
qed

definition shift_target :: "nat \<Rightarrow> (nat \<times> nat) option" where
  "shift_target c =
     (if c mod 2 ^ 8 \<noteq> 0 then None
      else if c div 2 ^ 8 mod 64 \<noteq> 0 then Some (0, c div 2 ^ 8 mod 64)
      else if c div 2 ^ 14 mod 64 \<noteq> 0 then Some (1, c div 2 ^ 14 mod 64)
      else if c div 2 ^ 20 mod 64 \<noteq> 0 then Some (2, c div 2 ^ 20 mod 64)
      else Some (3, c div 2 ^ 26 mod 64))"

lemma and_low_zero: "w AND Bit_Operations.mask k = 0 \<longleftrightarrow> unat w mod 2 ^ k = 0" for w :: u32
  by (metis unat_and_mask unsigned_0 word_unat_eq_iff)

lemma mod_pow2_add: "c mod 2 ^ (k + 6) = 0 \<longleftrightarrow> c mod 2 ^ k = 0 \<and> c div 2 ^ k mod 64 = 0" for c :: nat
  by (auto simp: power_add mod_mult2_eq)

lemma mod_2_32: "unat (w :: u32) mod 2 ^ 26 = 0 \<Longrightarrow> unat w div 2 ^ 26 mod 64 = 0 \<Longrightarrow> w = 0"
  using unat_u32_lt [of w] mod_pow2_add [of "unat w" 26] by (simp add: word_unat_eq_iff)

lemma shift_loop_step:
  assumes "m - 1 = Bit_Operations.mask k"
  shows "shift_loop ct m (drop_bit k ct) i =
     (if unat ct mod 2 ^ k = 0 then
        if unat ct div 2 ^ k mod 64 \<noteq> 0 then Some (Some (i, unat ct div 2 ^ k mod 64))
        else shift_loop ct (push_bit 6 m) (drop_bit (k + 6) ct) (i + 1)
      else Some None)"
  by (subst shift_loop.simps)
    (simp add: assms and_low_zero masks unat_and_mask unat_drop TIME_LEVEL_SHIFT_def Let_def add.commute
      del: take_bit_eq_mask)

lemma shift_loop_target:
  assumes "ct \<noteq> 0"
  shows "shift_loop ct (of_nat TIME_NEAR) (drop_bit TIME_NEAR_SHIFT ct) 0 = Some (shift_target (unat ct))"
proof -
  have m: "(0xff :: u32) = Bit_Operations.mask 8" "(0x3fff :: u32) = Bit_Operations.mask 14" "(0xfffff :: u32) = Bit_Operations.mask 20" "(0x3ffffff :: u32) = Bit_Operations.mask 26"
    by (simp_all add: mask_eq_exp_minus_1)
  have s0: "shift_loop ct 256 (drop_bit 8 ct) 0 =
      (if unat ct mod 2 ^ 8 = 0 then
         if unat ct div 2 ^ 8 mod 64 \<noteq> 0 then Some (Some (0, unat ct div 2 ^ 8 mod 64))
         else shift_loop ct 16384 (drop_bit 14 ct) 1 else Some None)"
    using shift_loop_step [of 256 8 ct 0] by (simp add: m push_bit_eq_mult)
  have s1: "shift_loop ct 16384 (drop_bit 14 ct) 1 =
      (if unat ct mod 2 ^ 14 = 0 then
         if unat ct div 2 ^ 14 mod 64 \<noteq> 0 then Some (Some (1, unat ct div 2 ^ 14 mod 64))
         else shift_loop ct 1048576 (drop_bit 20 ct) 2 else Some None)"
    using shift_loop_step [of 16384 14 ct 1] by (simp add: m push_bit_eq_mult numeral_2_eq_2)
  have s2: "shift_loop ct 1048576 (drop_bit 20 ct) 2 =
      (if unat ct mod 2 ^ 20 = 0 then
         if unat ct div 2 ^ 20 mod 64 \<noteq> 0 then Some (Some (2, unat ct div 2 ^ 20 mod 64))
         else shift_loop ct 67108864 (drop_bit 26 ct) 3 else Some None)"
    using shift_loop_step [of 1048576 20 ct 2] by (simp add: m push_bit_eq_mult)
  have s3: "shift_loop ct 67108864 (drop_bit 26 ct) 3 = Some (Some (3, unat ct div 2 ^ 26 mod 64))"
    if "unat ct mod 2 ^ 26 = 0"
    using shift_loop_step [of 67108864 26 ct 3] that mod_2_32 [OF that] assms by (auto simp: m)
  have "unat ct mod 2 ^ 14 = 0" if "unat ct mod 2 ^ 8 = 0" "unat ct div 2 ^ 8 mod 64 = 0"
    using that mod_pow2_add [of "unat ct" 8] by simp
  moreover have "unat ct mod 2 ^ 20 = 0" if "unat ct mod 2 ^ 14 = 0" "unat ct div 2 ^ 14 mod 64 = 0"
    using that mod_pow2_add [of "unat ct" 14] by simp
  moreover have "unat ct mod 2 ^ 26 = 0" if "unat ct mod 2 ^ 20 = 0" "unat ct div 2 ^ 20 mod 64 = 0"
    using that mod_pow2_add [of "unat ct" 20] by simp
  ultimately show ?thesis
    by (simp add: s0 s1 s2 s3 shift_target_def TIME_NEAR_def TIME_NEAR_SHIFT_def del: power_numeral One_nat_def)
qed

text \<open>Only the slot that is moved holds expiry times whose slot changes.\<close>

lemma loc_step:
  assumes "ahead e c" "Suc c < 2 ^ 32"
    "\<And>l i. shift_target (Suc c) = Some (l, i) \<Longrightarrow> loc e c \<noteq> Level l i"
  shows "loc e (Suc c) = loc e c"
proof -
  have carry: "\<not> agree k e c" if "Suc c mod 2 ^ k = 0" "k \<le> 26" for k
    using agree_ahead [OF _ that(2) assms(1)] agree_no_carry [of k e c] that(1) by blast
  have mono: "agree 8 e x \<Longrightarrow> agree 14 e x" "agree 14 e x \<Longrightarrow> agree 20 e x" "agree 20 e x \<Longrightarrow> agree 26 e x" for x
    by (auto intro: agree_mono)
  have low: "Suc c mod 2 ^ m = 0 \<Longrightarrow> k \<le> m \<Longrightarrow> Suc c mod 2 ^ k = 0" for k m
    by (metis mod_0 mod_mod_pow2)
  have same: "agree k e (Suc c) \<longleftrightarrow> agree k e c" if "Suc c mod 2 ^ k \<noteq> 0" for k
    using that by (rule agree_Suc)
  have idx: "agree k e (Suc c) \<Longrightarrow> e div 2 ^ k mod 64 = Suc c div 2 ^ k mod 64" for k
    by (simp add: agree_def)
  consider "Suc c mod 2 ^ 8 \<noteq> 0"
    | (l0) "Suc c mod 2 ^ 8 = 0" "Suc c mod 2 ^ 14 \<noteq> 0" | (l1) "Suc c mod 2 ^ 14 = 0" "Suc c mod 2 ^ 20 \<noteq> 0"
    | (l2) "Suc c mod 2 ^ 20 = 0" "Suc c mod 2 ^ 26 \<noteq> 0" | (l3) "Suc c mod 2 ^ 26 = 0"
    by blast
  then show ?thesis
  proof cases
    case 1
    have "agree k e (Suc c) \<longleftrightarrow> agree k e c" if "8 \<le> k" for k
      using same [of k] low [OF _ that] 1 by blast
    then show ?thesis by (simp add: loc_def loc_level_def)
  next
    case l0
    then have t: "shift_target (Suc c) = Some (0, Suc c div 2 ^ 8 mod 64)"
      using mod_pow2_add [of "Suc c" 8] by (simp add: shift_target_def)
    have "agree k e (Suc c) \<longleftrightarrow> agree k e c" if "14 \<le> k" for k
      using same [of k] low [OF _ that] l0(2) by blast
    moreover have "\<not> agree 8 e c" using carry l0(1) by simp
    ultimately show ?thesis
      using assms(3) [OF t] idx [of 8] mono(1) [of "Suc c"] by (auto simp: loc_def loc_level_def)
  next
    case l1
    have "Suc c mod 2 ^ 8 = 0" using low [OF l1(1), of 8] by simp
    then have t: "shift_target (Suc c) = Some (1, Suc c div 2 ^ 14 mod 64)"
      using l1 mod_pow2_add [of "Suc c" 8] mod_pow2_add [of "Suc c" 14] by (simp add: shift_target_def)
    have "agree k e (Suc c) \<longleftrightarrow> agree k e c" if "20 \<le> k" for k
      using same [of k] low [OF _ that] l1(2) by blast
    moreover have n: "\<not> agree 14 e c" "\<not> agree 8 e c" using carry l1(1) mono(1) by auto
    moreover have "\<not> agree 14 e (Suc c)"
    proof
      assume a: "agree 14 e (Suc c)"
      with calculation mono(2) have "agree 20 e c" by blast
      with n have "loc e c = Level 1 (e div 2 ^ 14 mod 64)" by (simp add: loc_def loc_level_def)
      with assms(3) [OF t] idx [OF a] show False by simp
    qed
    moreover from this have "\<not> agree 8 e (Suc c)" using mono(1) by blast
    ultimately show ?thesis by (simp add: loc_def loc_level_def)
  next
    case l2
    have "Suc c mod 2 ^ 8 = 0" "Suc c mod 2 ^ 14 = 0" using low [OF l2(1), of 8] low [OF l2(1), of 14] by simp_all
    then have t: "shift_target (Suc c) = Some (2, Suc c div 2 ^ 20 mod 64)"
      using l2 mod_pow2_add [of "Suc c" 8] mod_pow2_add [of "Suc c" 14] mod_pow2_add [of "Suc c" 20]
      by (simp add: shift_target_def)
    have "agree 26 e (Suc c) \<longleftrightarrow> agree 26 e c" using same [OF l2(2)] .
    moreover have n: "\<not> agree 20 e c" "\<not> agree 14 e c" "\<not> agree 8 e c" using carry l2(1) mono by auto
    moreover have "\<not> agree 20 e (Suc c)"
    proof
      assume a: "agree 20 e (Suc c)"
      with calculation mono(3) have "agree 26 e c" by blast
      with n have "loc e c = Level 2 (e div 2 ^ 20 mod 64)" by (simp add: loc_def loc_level_def)
      with assms(3) [OF t] idx [OF a] show False by simp
    qed
    moreover from this have "\<not> agree 14 e (Suc c)" "\<not> agree 8 e (Suc c)" using mono by blast+
    ultimately show ?thesis by (simp add: loc_def loc_level_def)
  next
    case l3
    have "Suc c mod 2 ^ 8 = 0" "Suc c mod 2 ^ 14 = 0" "Suc c mod 2 ^ 20 = 0" 
      using low [OF l3, of 8] low [OF l3, of 14] low [OF l3, of 20] by simp_all
    then have t: "shift_target (Suc c) = Some (3, Suc c div 2 ^ 26 mod 64)"
      using l3 mod_pow2_add [of "Suc c" 8] mod_pow2_add [of "Suc c" 14] mod_pow2_add [of "Suc c" 20]
      by (simp add: shift_target_def)
    have n: "\<not> agree 26 e c" "\<not> agree 20 e c" "\<not> agree 14 e c" "\<not> agree 8 e c" using carry l3 mono by auto
    then have "loc e c = Level 3 (e div 2 ^ 26 mod 64)" by (simp add: loc_def loc_level_def)
    then have "\<not> agree 26 e (Suc c)" using assms(3) [OF t] idx [of 26] by auto
    moreover from this have "\<not> agree 20 e (Suc c)" "\<not> agree 14 e (Suc c)" "\<not> agree 8 e (Suc c)" using mono by blast+
    ultimately show ?thesis using n by (simp add: loc_def loc_level_def)
  qed
qed

lemma loc_wrap:
  assumes "ahead e (2 ^ 32 - 1)" "loc e (2 ^ 32 - 1) \<noteq> Level 3 0"
  shows "loc e 0 = loc e (2 ^ 32 - 1)"
proof -
  have no: "\<not> agree k e (2 ^ 32 - 1)" if "k \<le> 26" for k
    using agree_ahead [OF _ that assms(1)] assms(1) by (auto simp: ahead_def)
  with assms(2) have "e div 2 ^ 26 mod 64 \<noteq> 0" by (simp add: loc_def loc_level_def)
  then have "\<not> agree 26 e 0" by (auto simp: agree_def)
  then have "\<not> agree k e 0" if "k \<le> 26" for k using that agree_mono by blast
  with no show ?thesis by (simp add: loc_def loc_level_def)
qed

section \<open>The operations keep the invariant and the pending events\<close>

lemma ahead_word: "e \<noteq> t \<Longrightarrow> unat (e - t) < 2 ^ 31 \<longleftrightarrow> ahead (unat e) (unat t)" for e t :: u32
  using unat_u32_lt [of e] unat_u32_lt [of t]
  by (auto simp: ahead_def unat_sub_if' word_unat_eq_iff word_le_nat_alt)

lemma timer_invD:
  assumes "timer_inv T" "valid_slot s" "n \<in> set (slot_list T s)"
  shows "loc (unat (tn_expire n)) (unat (tm_time T)) = s" "unat (tn_expire n - tm_time T) < 2 ^ 31"
  using assms by (auto simp: timer_inv_def)

lemma near_current: "loc e c = Near (c mod 256) \<longleftrightarrow> e = c"
proof
  assume "loc e c = Near (c mod 256)"
  then have "e div 256 = c div 256" "e mod 256 = c mod 256" by (auto simp: loc_def agree_def split: if_splits)
  then show "e = c" by (metis div_mult_mod_eq)
qed (simp add: loc_def agree_def)

text \<open>The slot of the current time holds exactly the nodes that expire now.\<close>

lemma take_current_spec:
  assumes "timer_inv T" "take_current T = (ns, T')"
  shows "timer_inv T'" "tm_time T' = tm_time T" "map tn_event ns = due T (tm_time T)"
    "due T' = (due T)(tm_time T := [])"
    "\<And>s n. valid_slot s \<Longrightarrow> n \<in> set (slot_list T' s) \<Longrightarrow> tn_expire n \<noteq> tm_time T"
proof -
  let ?c = "unat (tm_time T)"
  let ?i = "?c mod 256"
  have ti: "unat (tm_time T AND TIME_NEAR_MASK) = ?i" unfolding masks unat_and_mask by simp
  then have ns: "ns = tm_near T ! ?i" and T': "T' = T\<lparr>tm_near := (tm_near T)[?i := []]\<rparr>"
    using assms(2) by (auto simp: take_current_def Let_def)
  have len: "length (tm_near T) = 256" using assms(1) by (simp add: timer_inv_def timer_shape_def)
  have sl: "slot_list T' s = (if s = Near ?i then [] else slot_list T s)" for s
    using len by (cases s) (auto simp: T' nth_list_update)
  show "timer_inv T'"
    using assms(1) unfolding timer_inv_def sl by (auto simp: T' timer_shape_def)
  show "tm_time T' = tm_time T" by (simp add: T')
  have all: "tn_expire n = tm_time T" if "n \<in> set (tm_near T ! ?i)" for n
    using timer_invD(1) [OF assms(1), of "Near ?i" n] that by (simp add: near_current word_unat_eq_iff)
  have "loc ?c ?c = Near ?i" by (simp add: near_current)
  then show "map tn_event ns = due T (tm_time T)" using all by (simp add: due_def ns)
  have "due T' e = ((due T)(tm_time T := [])) e" for e
    using sl near_current [of "unat e" ?c] by (auto simp: due_def T' word_unat_eq_iff)
  then show "due T' = (due T)(tm_time T := [])" by blast
  show "tn_expire n \<noteq> tm_time T" if "valid_slot s" "n \<in> set (slot_list T' s)" for s n
    using timer_invD(1) [OF assms(1) that(1), of n] that sl [of s] near_current [of ?c ?c]
    by (auto split: if_splits)
qed

lemma timer_inv_add_node:
  assumes "timer_inv T" "unat (tn_expire n - tm_time T) < 2 ^ 31"
  shows "timer_inv (add_node n T)" "due (add_node n T) = (due T)(tn_expire n := due T (tn_expire n) @ [tn_event n])"
proof -
  have sh: "timer_shape T" using assms(1) by (simp add: timer_inv_def)
  note sl = slot_list_add_node [OF sh, of _ n]
  show "timer_inv (add_node n T)"
    using assms sl by (auto simp: timer_inv_def timer_shape_add_node split: if_splits)
  have "due (add_node n T) e = ((due T)(tn_expire n := due T (tn_expire n) @ [tn_event n])) e" for e
    using sl [OF valid_loc] by (auto simp: due_def)
  then show "due (add_node n T) = (due T)(tn_expire n := due T (tn_expire n) @ [tn_event n])" by blast
qed

lemma slot_list_move:
  assumes "timer_shape T" "valid_slot (Level l i)" "valid_slot s"
  shows "slot_list (move_list l i T) s =
    (if s = Level l i then [] else slot_list T s) @
    filter (\<lambda>n. loc (unat (tn_expire n)) (unat (tm_time T)) = s) (slot_list T (Level l i))"
    and "timer_shape (move_list l i T)" and "tm_time (move_list l i T) = tm_time T"
proof -
  let ?T = "T\<lparr>tm_t := (tm_t T)[l := (tm_t T ! l)[i := []]]\<rparr>"
  have sh: "timer_shape ?T" using assms(1,2) by (auto simp: timer_shape_def nth_list_update)
  have "slot_list ?T s = (if s = Level l i then [] else slot_list T s)"
    using assms by (cases s) (auto simp: timer_shape_def nth_list_update)
  with fold_add_node [OF sh] assms(3)
  show "slot_list (move_list l i T) s =
      (if s = Level l i then [] else slot_list T s) @
      filter (\<lambda>n. loc (unat (tn_expire n)) (unat (tm_time T)) = s) (slot_list T (Level l i))"
    "timer_shape (move_list l i T)" "tm_time (move_list l i T) = tm_time T"
    by (simp_all add: move_list_def Let_def)
qed

text \<open>The node lists after the time went to \<open>ct\<close> and the list in slot \<open>m\<close>, if any, was moved.\<close>

definition moved :: "slot option \<Rightarrow> timer \<Rightarrow> timer \<Rightarrow> bool" where
  "moved m T T' \<longleftrightarrow> timer_shape T' \<and> tm_time T' = tm_time T + 1 \<and>
     (\<forall>s. valid_slot s \<longrightarrow> slot_list T' s = (if m = Some s then [] else slot_list T s) @
        (case m of None \<Rightarrow> [] | Some ms \<Rightarrow>
           filter (\<lambda>n. loc (unat (tn_expire n)) (unat (tm_time T + 1)) = s) (slot_list T ms)))"

lemma filter_other_slot:
  "timer_inv T \<Longrightarrow> valid_slot s \<Longrightarrow> s \<noteq> loc (unat e) (unat (tm_time T)) \<Longrightarrow>
   filter (\<lambda>n. tn_expire n = e) (slot_list T s) = []"
  by (auto simp: filter_empty_conv dest: timer_invD(1))

lemma moved_correct:
  assumes inv: "timer_inv T" and mv: "moved m T T'" and vm: "\<And>s. m = Some s \<Longrightarrow> valid_slot s"
    and none: "\<And>s n. valid_slot s \<Longrightarrow> n \<in> set (slot_list T s) \<Longrightarrow> tn_expire n \<noteq> tm_time T"
    and step: "\<And>e :: u32. ahead (unat e) (unat (tm_time T)) \<Longrightarrow> m \<noteq> Some (loc (unat e) (unat (tm_time T))) \<Longrightarrow>
                 loc (unat e) (unat (tm_time T + 1)) = loc (unat e) (unat (tm_time T))"
  shows "timer_inv T' \<and> due T' = due T"
proof
  let ?c = "unat (tm_time T)" and ?c' = "unat (tm_time T + 1)"
  have sl: "slot_list T' s = (if m = Some s then [] else slot_list T s) @
        (case m of None \<Rightarrow> [] | Some ms \<Rightarrow> filter (\<lambda>n. loc (unat (tn_expire n)) ?c' = s) (slot_list T ms))"
    if "valid_slot s" for s using mv that by (simp add: moved_def)
  have ah: "ahead (unat (tn_expire n)) ?c" if "valid_slot s" "n \<in> set (slot_list T s)" for s n
    using none [OF that] timer_invD(2) [OF inv that] ahead_word by blast
  have dist: "unat (tn_expire n - tm_time T') < 2 ^ 31" if "valid_slot s" "n \<in> set (slot_list T s)" for s n
  proof -
    have "tm_time T' = tm_time T + 1" using mv by (simp add: moved_def)
    moreover have "unat (tn_expire n - tm_time T - 1) \<le> unat (tn_expire n - tm_time T)"
      using none [OF that] by (simp add: unat_minus_one)
    ultimately show ?thesis using timer_invD(2) [OF inv that] by (simp add: diff_diff_eq)
  qed
  have stay: "loc (unat (tn_expire n)) ?c' = s" if "valid_slot s" "n \<in> set (slot_list T s)" "m \<noteq> Some s" for s n
    using step [OF ah [OF that(1,2)]] timer_invD(1) [OF inv that(1,2)] that(3) by simp
  have time: "tm_time T' = tm_time T + 1" using mv by (simp add: moved_def)
  have "loc (unat (tn_expire n)) (unat (tm_time T')) = s \<and> unat (tn_expire n - tm_time T') < 2 ^ 31"
    if "valid_slot s" "n \<in> set (slot_list T' s)" for s n
  proof -
    from sl [OF that(1)] that(2) consider "m \<noteq> Some s" "n \<in> set (slot_list T s)"
      | ms where "m = Some ms" "n \<in> set (slot_list T ms)" "loc (unat (tn_expire n)) ?c' = s"
      by (auto split: option.splits if_splits)
    then show ?thesis
    proof cases
      case 1
      then show ?thesis using stay [OF that(1)] dist [OF that(1)] time by simp
    next
      case (2 ms)
      then show ?thesis using dist [OF vm [OF 2(1)]] time by simp
    qed
  qed
  moreover have "timer_shape T'" using mv by (simp add: moved_def)
  ultimately show "timer_inv T'" unfolding timer_inv_def by blast
  have "due T' e = due T e" for e
  proof -
    let ?f = "filter (\<lambda>n. tn_expire n = e)"
    have t: "?f (slot_list T' (loc (unat e) ?c')) =
        (if m = Some (loc (unat e) ?c') then [] else ?f (slot_list T (loc (unat e) ?c'))) @
        (case m of None \<Rightarrow> [] | Some ms \<Rightarrow> ?f (slot_list T ms))"
      using sl [OF valid_loc, of "unat e" ?c'] by (auto split: option.splits intro!: filter_cong)
    have "\<dots> = ?f (slot_list T (loc (unat e) ?c))"
    proof (cases "m = Some (loc (unat e) ?c)")
      case True
      then show ?thesis using filter_other_slot [OF inv valid_loc, of "unat e" ?c' e] by auto
    next
      case False
      then have second: "(case m of None \<Rightarrow> [] | Some ms \<Rightarrow> ?f (slot_list T ms)) = []"
        using filter_other_slot [OF inv vm] by (auto split: option.splits)
      show ?thesis
      proof (cases "loc (unat e) ?c' = loc (unat e) ?c")
        case True
        with False second show ?thesis by simp
      next
        case ne: False
        then have "?f (slot_list T (loc (unat e) ?c)) = []"
          using step [of e] False ah [OF valid_loc, of _ "unat e" ?c] by (auto simp: filter_empty_conv)
        then show ?thesis using second filter_other_slot [OF inv valid_loc ne] by simp
      qed
    qed
    with t mv show ?thesis by (simp add: due_def moved_def)
  qed
  then show "due T' = due T" by blast
qed

lemma timer_shift_spec:
  assumes inv: "timer_inv T"
    and none: "\<And>s n. valid_slot s \<Longrightarrow> n \<in> set (slot_list T s) \<Longrightarrow> tn_expire n \<noteq> tm_time T"
  shows "\<exists>T'. timer_shift T = Some T' \<and> timer_inv T' \<and> tm_time T' = tm_time T + 1 \<and> due T' = due T"
proof -
  let ?T = "T\<lparr>tm_time := tm_time T + 1\<rparr>"
  have sh: "timer_shape T" "timer_shape ?T" using inv by (auto simp: timer_inv_def timer_shape_def)
  have sl: "slot_list ?T s = slot_list T s" for s by (cases s) simp_all
  have mv: "moved (Some (Level l i)) T (move_list l i ?T)" if "valid_slot (Level l i)" for l i
    using slot_list_move [OF sh(2) that] slot_list_move(2,3) [OF sh(2) that that] sl
    by (simp add: moved_def del: slot_list.simps)
  have suc: "unat (tm_time T + 1) = Suc (unat (tm_time T))" "Suc (unat (tm_time T)) < 2 ^ 32"
    if "tm_time T + 1 \<noteq> 0"
    using that unat_u32_lt [of "tm_time T"]
    by (auto simp: unat_word_ariths(1) word_unat_eq_iff mod_Suc split: if_splits)
  show ?thesis
  proof (cases "tm_time T + 1 = 0")
    case True
    then have "tm_time T = - 1" by (simp add: eq_neg_iff_add_eq_0)
    then have c: "unat (tm_time T) = 2 ^ 32 - 1" by (simp add: unsigned_minus_1_eq_mask mask_eq_exp_minus_1)
    have m: "moved (Some (Level 3 0)) T (move_list 3 0 ?T)" by (rule mv) simp
    have "timer_inv (move_list 3 0 ?T) \<and> due (move_list 3 0 ?T) = due T"
      by (rule moved_correct [OF inv m _ none]) (use loc_wrap True c in auto)
    with m True show ?thesis by (simp add: timer_shift_def moved_def)
  next
    case False
    note sl = shift_loop_target [OF False]
    show ?thesis
    proof (cases "shift_target (unat (tm_time T + 1))")
      case None
      have m: "moved None T ?T" using sh by (simp add: moved_def \<open>\<And>s. slot_list ?T s = slot_list T s\<close>)
      have "timer_inv ?T \<and> due ?T = due T"
        by (rule moved_correct [OF inv m _ none])
          (use loc_step [OF _ suc(2) [OF False]] suc(1) [OF False] None in simp_all)
      with None False sl show ?thesis by (simp add: timer_shift_def)
    next
      case (Some p)
      then obtain l i where p: "shift_target (unat (tm_time T + 1)) = Some (l, i)" by (cases p) auto
      then have v: "valid_slot (Level l i)" by (auto simp: shift_target_def split: if_splits)
      have "loc (unat e) (unat (tm_time T + 1)) = loc (unat e) (unat (tm_time T))"
        if "ahead (unat e) (unat (tm_time T))" "Some (Level l i) \<noteq> Some (loc (unat e) (unat (tm_time T)))" for e :: u32
        using loc_step [OF that(1) suc(2) [OF False]] suc(1) [OF False] p that(2) by auto
      then have "timer_inv (move_list l i ?T) \<and> due (move_list l i ?T) = due T"
        using v by (intro moved_correct [OF inv mv [OF v] _ none]) auto
      with mv [OF v] p False sl show ?thesis by (simp add: timer_shift_def moved_def)
    qed
  qed
qed

text \<open>The loop of \<open>timer_shift\<close> ends whatever the wheel holds.\<close>

lemma timer_shift_returns: "\<exists>T'. timer_shift T = Some T'"
  by (cases "tm_time T + 1 = 0")
    (auto simp: timer_shift_def Let_def shift_loop_target split: option.splits)

lemma due_ahead:
  assumes "timer_inv T" "due T e \<noteq> []"
  shows "unat (e - tm_time T) < 2 ^ 31"
  using assms timer_invD(2) [OF assms(1) valid_loc] by (auto simp: due_def filter_empty_conv)

section \<open>Ticks\<close>

lemma u32_add_inj: "j < 2 ^ 32 \<Longrightarrow> k < 2 ^ 32 \<Longrightarrow> t + of_nat j = t + of_nat k \<longleftrightarrow> j = k" for t :: u32
  unfolding add_left_cancel by (simp add: word_unat_eq_iff unsigned_of_nat take_bit_nat_eq_self)

definition event_messages :: "timer_event list \<Rightarrow> (u32 \<times> skynet_message) list" where
  "event_messages evs = map (\<lambda>ev. (te_handle ev, timeout_message (te_session ev))) evs"

lemma event_messages_append [simp]: "event_messages (xs @ ys) = event_messages xs @ event_messages ys"
  by (simp add: event_messages_def)

lemma dispatch_events: "dispatch_list ns = event_messages (map tn_event ns)"
  by (simp add: dispatch_list_def event_messages_def)

lemma timer_execute_spec:
  assumes "timer_inv T" "timer_execute T = (out, T')"
  shows "timer_inv T' \<and> tm_time T' = tm_time T \<and> out = event_messages (due T (tm_time T)) \<and>
         due T' = (due T)(tm_time T := [])"
    and "\<And>s n. valid_slot s \<Longrightarrow> n \<in> set (slot_list T' s) \<Longrightarrow> tn_expire n \<noteq> tm_time T"
proof -
  obtain ns T1 where tc: "take_current T = (ns, T1)" by force
  have eq: "T' = T1 \<and> out = dispatch_list ns"
  proof (cases "ns = []")
    case True
    let ?i = "unat (tm_time T AND TIME_NEAR_MASK)"
    have e: "tm_near T ! ?i = []" and T1: "T1 = T\<lparr>tm_near := (tm_near T)[?i := []]\<rparr>"
      using True tc by (auto simp: take_current_def Let_def)
    have "(tm_near T)[?i := []] = tm_near T" using list_update_id [of "tm_near T" ?i] unfolding e .
    with T1 have "T1 = T" by simp
    with True tc assms(2) show ?thesis by (simp add: timer_execute_def dispatch_list_def)
  next
    case False
    with tc assms(2) show ?thesis by (simp add: timer_execute_def)
  qed
  note sp = take_current_spec [OF assms(1) tc]
  from sp eq show "timer_inv T' \<and> tm_time T' = tm_time T \<and> out = event_messages (due T (tm_time T)) \<and>
         due T' = (due T)(tm_time T := [])"
    by (simp add: dispatch_events)
  show "tn_expire n \<noteq> tm_time T" if "valid_slot s" "n \<in> set (slot_list T' s)" for s n
    using sp(5) [OF that(1), of n] that(2) eq by simp
qed

lemma timer_update_spec:
  assumes "timer_inv T"
  shows "\<exists>T'. timer_update T = Some (event_messages (due T (tm_time T) @ due T (tm_time T + 1)), T') \<and>
           timer_inv T' \<and> tm_time T' = tm_time T + 1 \<and>
           due T' = (due T)(tm_time T := [], tm_time T + 1 := [])"
proof -
  obtain o1 T1 where e1: "timer_execute T = (o1, T1)" by force
  note s1 = timer_execute_spec [OF assms e1]
  obtain T2 where s2: "timer_shift T1 = Some T2" "timer_inv T2" "tm_time T2 = tm_time T + 1"
    "due T2 = (due T)(tm_time T := [])"
    using timer_shift_spec [of T1] s1 by auto
  obtain o2 T3 where e2: "timer_execute T2 = (o2, T3)" by force
  note s3 = timer_execute_spec(1) [OF s2(2) e2]
  have "timer_update T = Some (o1 @ o2, T3)"
    by (simp add: timer_update_def e1 s2(1) e2)
  with s1(1) s2 s3 show ?thesis by simp
qed

text \<open>The ticks that follow, with the messages of each.\<close>

fun ticks :: "nat \<Rightarrow> timer \<Rightarrow> ((u32 \<times> skynet_message) list list \<times> timer) option" where
  "ticks 0 T = Some ([], T)"
| "ticks (Suc n) T =
     (case timer_update T of
        None \<Rightarrow> None
      | Some (out, T') \<Rightarrow> (case ticks n T' of None \<Rightarrow> None | Some (outs, T'') \<Rightarrow> Some (out # outs, T'')))"

lemma ticks_spec:
  assumes "timer_inv T" "due T (tm_time T) = []" "n < 2 ^ 32"
  shows "\<exists>T'. ticks n T = Some (map (\<lambda>i. event_messages (due T (tm_time T + of_nat i))) [1..<Suc n], T') \<and>
           timer_inv T' \<and> tm_time T' = tm_time T + of_nat n \<and>
           due T' = (\<lambda>e. if 1 \<le> unat (e - tm_time T) \<and> unat (e - tm_time T) \<le> n then [] else due T e)"
  using assms
proof (induction n arbitrary: T)
  case 0
  then show ?case by (auto simp: fun_eq_iff)
next
  case (Suc n)
  obtain T1 where T1: "timer_update T = Some (event_messages (due T (tm_time T + 1)), T1)"
    "timer_inv T1" "tm_time T1 = tm_time T + 1" "due T1 = (due T)(tm_time T := [], tm_time T + 1 := [])"
    using timer_update_spec [OF Suc.prems(1)] Suc.prems(2) by auto
  obtain T2 where T2: "ticks n T1 = Some (map (\<lambda>i. event_messages (due T1 (tm_time T1 + of_nat i))) [1..<Suc n], T2)"
    "timer_inv T2" "tm_time T2 = tm_time T1 + of_nat n"
    "due T2 = (\<lambda>e. if 1 \<le> unat (e - tm_time T1) \<and> unat (e - tm_time T1) \<le> n then [] else due T1 e)"
    using Suc.IH [OF T1(2)] T1(3,4) Suc.prems(3) by auto
  have small: "due T1 (tm_time T1 + of_nat i) = due T (tm_time T + of_nat (Suc i))" if "1 \<le> i" "i \<le> n" for i
    using that Suc.prems(3) T1(3,4) u32_add_inj [of "Suc i" 0 "tm_time T"] u32_add_inj [of "Suc i" 1 "tm_time T"]
    by (simp add: ac_simps)
  have "due T2 e = (if 1 \<le> unat (e - tm_time T) \<and> unat (e - tm_time T) \<le> Suc n then [] else due T e)" for e
  proof (cases "e = tm_time T")
    case True
    then have "unat (e - tm_time T1) = 2 ^ 32 - 1"
      by (simp add: T1(3) unsigned_minus_1_eq_mask mask_eq_exp_minus_1)
    with True Suc.prems(2,3) T1(4) show ?thesis by (simp add: T2(4))
  next
    case False
    then have d: "unat (e - tm_time T1) = unat (e - tm_time T) - 1" "unat (e - tm_time T) \<noteq> 0"
      using unat_minus_one [of "e - tm_time T"] by (simp_all add: T1(3) diff_diff_eq word_unat_eq_iff [of _ 0, symmetric, simplified])
    show ?thesis
    proof (cases "e = tm_time T + 1")
      case True
      then show ?thesis by (simp add: T2(4) T1(4))
    next
      case ne: False
      then have "unat (e - tm_time T) \<noteq> 1"
        by (metis add.commute diff_add_cancel unat_1 word_unat_eq_iff)
      with d ne False show ?thesis by (simp add: T2(4) T1(4)) linarith
    qed
  qed
  moreover have "map (\<lambda>i. event_messages (due T (tm_time T + of_nat i))) [1..<Suc (Suc n)] =
      event_messages (due T (tm_time T + 1)) # map (\<lambda>i. event_messages (due T1 (tm_time T1 + of_nat i))) [1..<Suc n]"
  proof -
    have "[1..<Suc (Suc n)] = 1 # map Suc [1..<Suc n]"
      by (simp add: upt_conv_Cons map_Suc_upt del: upt_Suc)
    then show ?thesis using small by (auto simp del: upt_Suc of_nat_Suc) simp
  qed
  ultimately show ?case
    using T1 T2 by (auto simp: add.assoc)
qed

lemma timer_inv_create: "timer_inv timer_create_timer" "due timer_create_timer = (\<lambda>_. [])"
proof -
  have "slot_list timer_create_timer s = []" if "valid_slot s" for s
    using that by (cases s) (simp_all add: timer_create_timer_def TIME_NEAR_def TIME_LEVEL_def)
  then show "timer_inv timer_create_timer" "due timer_create_timer = (\<lambda>_. [])"
    using valid_loc
    by (auto simp: timer_inv_def due_def timer_shape_def timer_create_timer_def TIME_NEAR_def TIME_LEVEL_def)
qed

lemma timer_add_spec:
  assumes "timer_inv T" "0 < d" "d < 2 ^ 31"
  shows "timer_inv (timer_add ev d T)" "tm_time (timer_add ev d T) = tm_time T"
    "due (timer_add ev d T) = (due T)(tm_time T + of_int d := due T (tm_time T + of_int d) @ [ev])"
proof -
  have "unat (of_int d :: u32) = nat d"
    using assms(2,3) by (simp add: unat_eq_nat_uint unsigned_of_int take_bit_int_eq_self)
  then have "unat (of_int d + tm_time T - tm_time T) < 2 ^ 31" using assms(2,3) by simp
  then show "timer_inv (timer_add ev d T)" "tm_time (timer_add ev d T) = tm_time T"
    "due (timer_add ev d T) = (due T)(tm_time T + of_int d := due T (tm_time T + of_int d) @ [ev])"
    using timer_inv_add_node [OF assms(1), of "\<lparr>tn_expire = of_int d + tm_time T, tn_event = ev\<rparr>"]
    by (simp_all add: timer_add_def add.commute)
qed

text \<open>
  C5: a timer set \<open>d\<close> ticks ahead fires with the \<open>d\<close>-th tick and with no other, behind the
  events that were pending for that tick, and every other pending event fires as it would
  have fired without it. This holds for every value of the 32-bit tick counter, so also when
  the counter wraps before the timer expires, and however the node cascades between the
  levels of the wheel.
\<close>

theorem timer_fires_on_time:
  assumes "timer_inv T" "due T (tm_time T) = []" "0 < d" "d < 2 ^ 31" "n < 2 ^ 32"
  shows "\<exists>T'. ticks n (timer_add ev (int d) T) = Some (map (\<lambda>i. event_messages
           (due T (tm_time T + of_nat i) @ (if i = d then [ev] else []))) [1..<Suc n], T') \<and> timer_inv T'"
proof -
  let ?A = "timer_add ev (int d) T"
  have A: "timer_inv ?A" "tm_time ?A = tm_time T"
    "due ?A = (due T)(tm_time T + of_nat d := due T (tm_time T + of_nat d) @ [ev])"
    using timer_add_spec [OF assms(1), of "int d" ev] assms(3,4) by simp_all
  have ne: "tm_time T + of_nat i = tm_time T + of_nat d \<longleftrightarrow> i = d" if "i < 2 ^ 32" for i
    using that assms(4) by (intro u32_add_inj) simp_all
  have "due ?A (tm_time ?A) = []" using A(2,3) assms(2,3) ne [of 0] by simp
  from ticks_spec [OF A(1) this assms(5)]
  have "\<exists>T'. ticks n ?A = Some (map (\<lambda>i. event_messages (due ?A (tm_time T + of_nat i))) [1..<Suc n], T') \<and> timer_inv T'"
    using A(2) by auto
  moreover have "due ?A (tm_time T + of_nat i) = due T (tm_time T + of_nat i) @ (if i = d then [ev] else [])"
    if "i < 2 ^ 32" for i using ne [OF that] A(3) by (simp del: add_left_cancel)
  then have "map (\<lambda>i. event_messages (due ?A (tm_time T + of_nat i))) [1..<Suc n] =
     map (\<lambda>i. event_messages (due T (tm_time T + of_nat i) @ (if i = d then [ev] else []))) [1..<Suc n]"
    using assms(5) by (intro map_cong) (auto simp del: event_messages_append)
  ultimately show ?thesis by (simp only:)
qed

section \<open>Timers set while the timer thread runs\<close>

text \<open>
  The timer thread releases the lock while it dispatches a list, and other threads set timers
  whenever they hold it. \<open>tc_clock\<close> counts the ticks without wrapping, \<open>tc_set\<close> lists the
  events set with the tick they are meant for, \<open>tc_fired\<close> those pushed with the tick of the push.
\<close>

datatype tphase = Idle | Before_shift | After_shift

record timer_conf =
  tc_timer :: timer
  tc_phase :: tphase
  tc_clock :: nat
  tc_set :: "(timer_event \<times> nat) list"
  tc_fired :: "(timer_event \<times> nat) list"

definition timer_conf_init :: timer_conf where
  "timer_conf_init = \<lparr>tc_timer = timer_create_timer, tc_phase = Idle, tc_clock = 0, tc_set = [], tc_fired = []\<rparr>"

inductive timer_step :: "timer_conf \<Rightarrow> timer_conf \<Rightarrow> bool" where
  step_add: "0 < d \<Longrightarrow> d < 2 ^ 31 \<Longrightarrow>
    timer_step c (c\<lparr>tc_timer := timer_add ev (int d) (tc_timer c), tc_set := tc_set c @ [(ev, tc_clock c + d)]\<rparr>)"
| step_begin: "tc_phase c = Idle \<Longrightarrow> timer_step c (c\<lparr>tc_phase := Before_shift\<rparr>)"
| step_drain: "tc_phase c \<noteq> Idle \<Longrightarrow> take_current (tc_timer c) = (ns, T) \<Longrightarrow> ns \<noteq> [] \<Longrightarrow>
    timer_step c (c\<lparr>tc_timer := T, tc_fired := tc_fired c @ map (\<lambda>n. (tn_event n, tc_clock c)) ns\<rparr>)"
| step_shift: "tc_phase c = Before_shift \<Longrightarrow> fst (take_current (tc_timer c)) = [] \<Longrightarrow>
    timer_shift (tc_timer c) = Some T \<Longrightarrow>
    timer_step c (c\<lparr>tc_timer := T, tc_phase := After_shift, tc_clock := Suc (tc_clock c)\<rparr>)"
| step_end: "tc_phase c = After_shift \<Longrightarrow> fst (take_current (tc_timer c)) = [] \<Longrightarrow>
    timer_step c (c\<lparr>tc_phase := Idle\<rparr>)"

inductive_cases timer_stepE: "timer_step c c'"

definition at_tick :: "nat \<Rightarrow> (timer_event \<times> nat) list \<Rightarrow> timer_event list" where
  "at_tick k ps = map fst (filter (\<lambda>p. snd p = k) ps)"

lemma at_tick_append [simp]: "at_tick k (ps @ qs) = at_tick k ps @ at_tick k qs"
  by (simp add: at_tick_def)

definition timer_conf_inv :: "timer_conf \<Rightarrow> bool" where
  "timer_conf_inv c \<longleftrightarrow> timer_inv (tc_timer c) \<and> tm_time (tc_timer c) = of_nat (tc_clock c) \<and>
     (\<forall>k. at_tick k (tc_set c) = at_tick k (tc_fired c) @
        (if tc_clock c \<le> k \<and> k < tc_clock c + 2 ^ 31 then due (tc_timer c) (of_nat k) else []))"

lemma timer_conf_inv_init: "timer_conf_inv timer_conf_init"
  using timer_inv_create by (simp add: timer_conf_inv_def timer_conf_init_def at_tick_def)
    (simp add: timer_create_timer_def)

lemma timer_conf_inv_step:
  assumes "timer_step c c'" "timer_conf_inv c"
  shows "timer_conf_inv c'"
  using assms
proof cases
  case (step_add d ev)
  have inv: "timer_inv (tc_timer c)" using assms(2) by (simp add: timer_conf_inv_def)
  have eq: "of_nat k = (of_nat (tc_clock c) + of_nat d :: u32) \<longleftrightarrow> k = tc_clock c + d"
    if "tc_clock c \<le> k" "k < tc_clock c + 2 ^ 31" for k
    using u32_add_inj [of "k - tc_clock c" d "of_nat (tc_clock c)"] that step_add(3)
    by (auto simp flip: of_nat_add)
  show ?thesis
    using assms(2) timer_add_spec [OF inv, of "int d" ev] step_add eq
    by (auto simp: timer_conf_inv_def at_tick_def)
next
  case step_begin
  with assms(2) show ?thesis by (simp add: timer_conf_inv_def)
next
  case (step_drain ns T)
  have inv: "timer_inv (tc_timer c)" using assms(2) by (simp add: timer_conf_inv_def)
  note sp = take_current_spec [OF inv step_drain(3)]
  have eq: "of_nat k = (of_nat (tc_clock c) :: u32) \<longleftrightarrow> k = tc_clock c"
    if "tc_clock c \<le> k" "k < tc_clock c + 2 ^ 31" for k
    using u32_add_inj [of "k - tc_clock c" 0 "of_nat (tc_clock c)"] that
    by (auto simp flip: of_nat_add)
  have fired: "at_tick k (map (\<lambda>n. (tn_event n, tc_clock c)) ns) =
      (if k = tc_clock c then due (tc_timer c) (tm_time (tc_timer c)) else [])" for k
    using sp(3) by (auto simp: at_tick_def filter_map o_def)
  show ?thesis
    using assms(2) sp step_drain(1) eq fired by (auto simp: timer_conf_inv_def)
next
  case (step_shift T)
  let ?T = "tc_timer c"
  have inv: "timer_inv ?T" and time: "tm_time ?T = of_nat (tc_clock c)"
    using assms(2) by (simp_all add: timer_conf_inv_def)
  obtain T1 where tc: "take_current ?T = ([], T1)" using step_shift(3) by (cases "take_current ?T") auto
  note sp = take_current_spec [OF inv tc]
  have now: "due ?T (of_nat (tc_clock c)) = []" using sp(3) time by simp
  have "tn_expire n \<noteq> tm_time ?T" if "valid_slot s" "n \<in> set (slot_list ?T s)" for s n
  proof
    assume e: "tn_expire n = tm_time ?T"
    with that timer_invD(1) [OF inv that] have "tn_event n \<in> set (due ?T (tm_time ?T))" by (auto simp: due_def)
    with now time show False by simp
  qed
  with timer_shift_spec [OF inv] step_shift(4) have T: "timer_inv T" "tm_time T = tm_time ?T + 1" "due T = due ?T"
    by auto
  have far: "due ?T (of_nat (tc_clock c + 2 ^ 31)) = []"
    using due_ahead [OF inv, of "of_nat (tc_clock c + 2 ^ 31)"] time by (auto simp: unsigned_of_nat)
  have win: "(if Suc (tc_clock c) \<le> k \<and> k < Suc (tc_clock c) + 2 ^ 31 then due ?T (of_nat k) else []) =
      (if tc_clock c \<le> k \<and> k < tc_clock c + 2 ^ 31 then due ?T (of_nat k) else [])" for k
    using now far by (cases "k = tc_clock c"; cases "k = tc_clock c + 2 ^ 31") auto
  have "at_tick k (tc_set c) = at_tick k (tc_fired c) @
      (if Suc (tc_clock c) \<le> k \<and> k < Suc (tc_clock c) + 2 ^ 31 then due ?T (of_nat k) else [])" for k
    unfolding win using assms(2) by (simp only: timer_conf_inv_def)
  then show ?thesis using T step_shift(1) time by (simp add: timer_conf_inv_def add.commute)
next
  case step_end
  with assms(2) show ?thesis by (simp add: timer_conf_inv_def)
qed

text \<open>
  C11: in every interleaving of the timer thread with threads that set timers, the events
  pushed at tick \<open>k\<close> are the first ones of those set for tick \<open>k\<close>, in the order they were set,
  and once the clock has passed \<open>k\<close> they are all of them: no event fires early, late or twice,
  and none is lost.
\<close>

theorem timer_interleaving:
  assumes "timer_step\<^sup>*\<^sup>* timer_conf_init c"
  shows "(\<exists>rest. at_tick k (tc_set c) = at_tick k (tc_fired c) @ rest) \<and>
         (k < tc_clock c \<longrightarrow> at_tick k (tc_fired c) = at_tick k (tc_set c))"
proof -
  from assms have "timer_conf_inv c"
    by (induction rule: rtranclp_induct) (auto intro: timer_conf_inv_init timer_conf_inv_step)
  then show ?thesis by (auto simp: timer_conf_inv_def)
qed

section \<open>Witnesses\<close>

definition demo_event :: timer_event where "demo_event = \<lparr>te_handle = 9, te_session = 4\<rparr>"

theorem timer_fires_on_time_witness:
  "\<exists>T'. ticks 300 (timer_add demo_event 299 timer_create_timer) =
     Some (replicate 298 [] @ [[(9, timeout_message 4)]] @ [[]], T')"
proof -
  have "\<exists>T'. ticks 300 (timer_add demo_event (int 299) timer_create_timer) = Some (map (\<lambda>i. event_messages
      (due timer_create_timer (tm_time timer_create_timer + of_nat i) @ (if i = 299 then [demo_event] else [])))
      [1..<Suc 300], T') \<and> timer_inv T'"
    by (rule timer_fires_on_time [OF timer_inv_create(1)]) (simp_all add: timer_inv_create(2))
  moreover have "map (\<lambda>i. event_messages (due timer_create_timer (tm_time timer_create_timer + of_nat i) @
      (if i = 299 then [demo_event] else []))) [1..<Suc 300] = replicate 298 [] @ [[(9, timeout_message 4)]] @ [[]]"
    by (rule nth_equalityI)
      (auto simp: timer_inv_create(2) event_messages_def demo_event_def nth_append nth_Cons' simp del: upt_Suc)
  ultimately show ?thesis by auto
qed

theorem timer_interleaving_witness:
  "\<exists>c. timer_step\<^sup>*\<^sup>* timer_conf_init c \<and> tc_set c = [(demo_event, 7)] \<and>
     (\<exists>rest. at_tick 7 (tc_set c) = at_tick 7 (tc_fired c) @ rest)"
proof -
  let ?c = "timer_conf_init\<lparr>tc_timer := timer_add demo_event (int 7) (tc_timer timer_conf_init),
     tc_set := tc_set timer_conf_init @ [(demo_event, tc_clock timer_conf_init + 7)]\<rparr>"
  have "timer_step\<^sup>*\<^sup>* timer_conf_init ?c"
    using step_add [of 7 timer_conf_init demo_event] by auto
  from this timer_interleaving [OF this, of 7] show ?thesis
    by (intro exI [of _ ?c]) (simp add: timer_conf_init_def)
qed

end
