(* ===== verification/Modules.thy ===== *)
theory Modules
  imports CStrings
begin

text \<open>
  The C service modules of \<open>skynet-src/skynet_module.c\<close>: a table of at most 32 modules that
  are searched by name and loaded on demand along the service path. The dynamic linker is a
  parameter: \<open>dlopen\<close> maps a file name to the address of a library and \<open>dlsym\<close> a symbol of
  a library to an address.
\<close>

section \<open>Data\<close>

record skynet_module =
  md_name :: string
  md_module :: nat
  md_create :: "nat option"
  md_init :: "nat option"
  md_release :: "nat option"
  md_signal :: "nat option"

definition MAX_MODULE_TYPE :: nat where "MAX_MODULE_TYPE = 32"

text \<open>\<open>struct modules\<close>: \<open>count\<close> is the length of the list.\<close>

record modules =
  ms_path :: string
  ms_m :: "skynet_module list"

section \<open>Operations\<close>

definition skynet_module_init :: "string \<Rightarrow> modules" where
  "skynet_module_init path = \<lparr>ms_path = path, ms_m = []\<rparr>"

text \<open>
  \<open>_try_open\<close>: every segment of the path, the first question mark replaced by the name, until
  a library opens. A segment without question mark ends the process.
\<close>

function try_open :: "(string \<Rightarrow> nat option) \<Rightarrow> string \<Rightarrow> string \<Rightarrow> nat option res" where
  "try_open dlopen name path =
     (let p = dropWhile (\<lambda>c. c = CHR '';'') path in
      if p = [] then Inr None
      else
        let seg = takeWhile (\<lambda>c. c \<noteq> CHR '';'') p;
            l = dropWhile (\<lambda>c. c \<noteq> CHR '';'') p;
            i = length (takeWhile (\<lambda>c. c \<noteq> CHR ''?'') seg)
        in if i < length seg then
             (case dlopen (take i seg @ name @ drop (i + 1) seg) of
                Some dl \<Rightarrow> Inr (Some dl)
              | None \<Rightarrow> try_open dlopen name l)
           else Inl (Exit_process ''_try_open''))"
  by pat_completeness auto
termination
proof (relation "measure (\<lambda>(dlopen, name, path). length path)")
  fix path :: string and p l :: string
  assume p: "p = dropWhile (\<lambda>c. c = CHR '';'') path" "p \<noteq> []" "l = dropWhile (\<lambda>c. c \<noteq> CHR '';'') p"
  then have "hd p \<noteq> CHR '';''" using hd_dropWhile [of "\<lambda>c. c = CHR '';''" path] by simp
  with p(2,3) have "length l < length p"
    by (cases p) (auto simp: le_imp_less_Suc length_dropWhile_le)
  also have "length p \<le> length path" using p(1) by (simp add: length_dropWhile_le)
  finally show "((dlopen, name, l), dlopen', name', path) \<in> measure (\<lambda>(dlopen, name, path). length path)"
    for dlopen dlopen' :: "string \<Rightarrow> nat option" and name name' :: string by simp
qed simp

declare try_open.simps [simp del]

fun find_module :: "skynet_module list \<Rightarrow> string \<Rightarrow> nat \<Rightarrow> nat option" where
  "find_module [] name i = None"
| "find_module (m # ms) name i = (if strcmp (md_name m) name = 0 then Some i else find_module ms name (Suc i))"

definition module_query :: "modules \<Rightarrow> string \<Rightarrow> nat option" where
  "module_query M name = find_module (ms_m M) name 0"

text \<open>\<open>get_api\<close>: the symbol is the part of the module name behind the last dot, and the suffix.\<close>

definition api_symbol :: "string \<Rightarrow> string \<Rightarrow> string" where
  "api_symbol mod_name api = (let tmp = mod_name @ api in
     if CHR ''.'' \<in> set tmp then rev (takeWhile (\<lambda>c. c \<noteq> CHR ''.'') (rev tmp)) else tmp)"

definition get_api :: "(nat \<Rightarrow> string \<Rightarrow> nat option) \<Rightarrow> nat \<Rightarrow> string \<Rightarrow> string \<Rightarrow> nat option" where
  "get_api dlsym dl mod_name api = dlsym dl (api_symbol mod_name api)"

definition open_sym :: "(nat \<Rightarrow> string \<Rightarrow> nat option) \<Rightarrow> string \<Rightarrow> nat \<Rightarrow> skynet_module" where
  "open_sym dlsym name dl = \<lparr>md_name = name, md_module = dl,
     md_create = get_api dlsym dl name ''_create'', md_init = get_api dlsym dl name ''_init'',
     md_release = get_api dlsym dl name ''_release'', md_signal = get_api dlsym dl name ''_signal''\<rparr>"

definition skynet_module_query ::
  "(string \<Rightarrow> nat option) \<Rightarrow> (nat \<Rightarrow> string \<Rightarrow> nat option) \<Rightarrow> string \<Rightarrow> modules \<Rightarrow> (nat option \<times> modules) res"
where
  "skynet_module_query dlopen dlsym name M =
     (case module_query M name of
        Some i \<Rightarrow> Inr (Some i, M)
      | None \<Rightarrow>
          if length (ms_m M) < MAX_MODULE_TYPE then
            res_bind (try_open dlopen name (ms_path M)) (\<lambda>dl.
              case dl of
                None \<Rightarrow> Inr (None, M)
              | Some dl \<Rightarrow>
                  let m = open_sym dlsym name dl in
                  if md_init m \<noteq> None then Inr (Some (length (ms_m M)), M\<lparr>ms_m := ms_m M @ [m]\<rparr>)
                  else Inr (None, M))
          else Inr (None, M))"

definition skynet_module_insert :: "skynet_module \<Rightarrow> modules \<Rightarrow> modules res" where
  "skynet_module_insert m M =
     res_assert ''skynet_module_insert''
       (module_query M (md_name m) = None \<and> length (ms_m M) < MAX_MODULE_TYPE)
       (Inr (M\<lparr>ms_m := ms_m M @ [m]\<rparr>))"

section \<open>Invariant\<close>

definition modules_inv :: "modules \<Rightarrow> bool" where
  "modules_inv M \<longleftrightarrow> length (ms_m M) \<le> MAX_MODULE_TYPE \<and> distinct (map md_name (ms_m M))"

lemma find_module_Some:
  "find_module ms name i = Some j \<Longrightarrow> i \<le> j \<and> j < i + length ms \<and> md_name (ms ! (j - i)) = name"
proof (induction ms arbitrary: i)
  case (Cons m ms)
  show ?case
  proof (cases "md_name m = name")
    case False
    with Cons.IH [of "Suc i"] Cons.prems
    have "Suc i \<le> j \<and> j < Suc i + length ms \<and> md_name (ms ! (j - Suc i)) = name" by simp
    moreover from this have "j - i = Suc (j - Suc i)" by auto
    ultimately show ?thesis by auto
  qed (use Cons.prems in simp)
qed simp

lemma find_module_None: "find_module ms name i = None \<longleftrightarrow> name \<notin> set (map md_name ms)"
  by (induction ms arbitrary: i) auto

lemma find_module_append:
  "find_module (ms @ [m]) name i =
     (case find_module ms name i of
        Some j \<Rightarrow> Some j
      | None \<Rightarrow> if md_name m = name then Some (i + length ms) else None)"
proof (induction ms arbitrary: i)
  case (Cons a ms)
  show ?case using Cons [of "Suc i"] by (cases "md_name a = name") (simp_all add: option.case_eq_if)
qed simp

text \<open>
  A module is loaded at most once. A query that finds or loads a module returns an index
  that every later query for the name returns without loading anything; the indices of the
  modules already loaded do not change, at most 32 are kept and no name occurs twice.
\<close>

theorem module_query_stable:
  assumes "modules_inv M" "skynet_module_query dlopen dlsym name M = Inr (r, M')"
  shows "modules_inv M' \<and>
         (\<forall>i < length (ms_m M). ms_m M' ! i = ms_m M ! i) \<and>
         (\<forall>i. r = Some i \<longrightarrow> i < length (ms_m M') \<and> md_name (ms_m M' ! i) = name \<and>
            skynet_module_query dlopen' dlsym' name M' = Inr (Some i, M'))"
proof (cases "module_query M name")
  case (Some i)
  with assms find_module_Some [of "ms_m M" name 0 i] show ?thesis
    by (auto simp: skynet_module_query_def module_query_def)
next
  case None
  then have new: "name \<notin> set (map md_name (ms_m M))" by (simp add: module_query_def find_module_None)
  from assms(2) None consider "r = None" "M' = M"
    | m where "r = Some (length (ms_m M))" "M' = M\<lparr>ms_m := ms_m M @ [m]\<rparr>" "md_name m = name"
        "length (ms_m M) < MAX_MODULE_TYPE"
    by (auto simp: skynet_module_query_def open_sym_def Let_def res_splits split: if_splits option.splits)
  then show ?thesis
  proof cases
    case (2 m)
    then have "module_query M' name = Some (length (ms_m M))"
      using None by (simp add: module_query_def find_module_append)
    then show ?thesis
      using 2 new assms(1) by (auto simp: modules_inv_def nth_append skynet_module_query_def)
  qed (use assms in auto)
qed

definition demo_dlopen :: "string \<Rightarrow> nat option" where
  "demo_dlopen f = (if f = ''./cservice/snlua.so'' then Some 4 else None)"

theorem module_query_stable_witness:
  "\<exists>M'. skynet_module_query demo_dlopen (\<lambda>_ s. if s = ''snlua_init'' then Some 9 else None) ''snlua''
          (skynet_module_init ''./?.so;./cservice/?.so'') = Inr (Some 0, M') \<and>
        skynet_module_query (\<lambda>_. None) (\<lambda>_ _. None) ''snlua'' M' = Inr (Some 0, M')"
proof -
  let ?M = "skynet_module_init ''./?.so;./cservice/?.so''"
  have "\<exists>M'. skynet_module_query demo_dlopen (\<lambda>_ s. if s = ''snlua_init'' then Some 9 else None) ''snlua'' ?M = Inr (Some 0, M')"
    by (simp add: skynet_module_query_def skynet_module_init_def module_query_def MAX_MODULE_TYPE_def
        try_open.simps demo_dlopen_def open_sym_def get_api_def api_symbol_def Let_def)
  then obtain M' where M': "skynet_module_query demo_dlopen (\<lambda>_ s. if s = ''snlua_init'' then Some 9 else None) ''snlua'' ?M = Inr (Some 0, M')" ..
  have "modules_inv ?M" by (simp add: modules_inv_def skynet_module_init_def)
  from module_query_stable [OF this M'] M' show ?thesis by blast
qed

end
