(* ===== verification/Kernel.thy ===== *)
theory Kernel
  imports HandleStorage Timer Modules
begin

text \<open>
  The kernel of \<open>skynet-src/skynet_server.c\<close> with the parts it drives: contexts and their
  reference counts, sending, the command interface, dispatching of queues, error reports
  (\<open>skynet_error.c\<close>), the harbor switch (\<open>skynet_harbor.c\<close>), the monitor
  (\<open>skynet_monitor.c\<close>), the environment (\<open>skynet_env.c\<close>) and the message log
  (\<open>skynet_log.c\<close>). The state is one record; contexts and queues live in heaps, so a pointer
  to a freed context is a fault. What the service modules do when they are called, and what
  the linker, the clock and the file system answer, are the functions of the record
  \<open>services\<close>, an argument of every operation that reaches them.
\<close>

section \<open>Data\<close>

record skynet_context =
  cx_instance :: nat
  cx_mod :: nat
  cx_cb_ud :: nat
  cx_cb :: "nat option"
  cx_queue :: nat
  cx_logfile :: "string option"
  cx_cpu_cost :: u64
  cx_cpu_start :: u64
  cx_result :: string
  cx_handle :: u32
  cx_session_id :: c_int
  cx_ref :: int
  cx_message_count :: c_int
  cx_init :: bool
  cx_endless :: bool
  cx_profile :: bool

text \<open>
  \<open>G_NODE\<close>, the handle storage, the queues, the timer, the module table, \<open>HARBOR\<close> and
  \<open>REMOTE\<close>, the environment, the static \<open>logger\<close> of \<open>skynet_error\<close>, and the handle each
  dispatching thread has set last.
\<close>

record kernel =
  k_ctxs :: "nat \<Rightarrow> skynet_context option"
  k_fresh :: nat
  k_mqs :: mq_heap
  k_handles :: "nat handle_storage"
  k_timer :: timer
  k_modules :: modules
  k_total :: int
  k_monitor_exit :: u32
  k_profile :: bool
  k_harbor :: u32
  k_remote :: "nat option"
  k_env :: "string \<rightharpoonup> string"
  k_logger :: u32
  k_current_handle :: u32

record services =
  sv_dlopen :: "string \<Rightarrow> nat option"
  sv_dlsym :: "nat \<Rightarrow> string \<Rightarrow> nat option"
  sv_create :: "nat \<Rightarrow> kernel \<Rightarrow> (nat option \<times> kernel) res"
  sv_init :: "nat \<Rightarrow> nat \<Rightarrow> nat \<Rightarrow> string option \<Rightarrow> kernel \<Rightarrow> (int \<times> kernel) res"
  sv_release :: "nat \<Rightarrow> nat \<Rightarrow> kernel \<Rightarrow> kernel res"
  sv_signal :: "nat \<Rightarrow> nat \<Rightarrow> int \<Rightarrow> kernel \<Rightarrow> kernel res"
  sv_cb :: "nat \<Rightarrow> nat \<Rightarrow> nat \<Rightarrow> int \<Rightarrow> c_int \<Rightarrow> u32 \<Rightarrow> payload option \<Rightarrow> u64 \<Rightarrow> kernel \<Rightarrow> (int \<times> kernel) res"
  sv_thread_time :: "kernel \<Rightarrow> u64"
  sv_fopen :: "string \<Rightarrow> kernel \<Rightarrow> bool"
  sv_ctime :: "u64 \<Rightarrow> string"
  sv_lf :: "u64 \<Rightarrow> string"

definition PTYPE_TEXT :: int where "PTYPE_TEXT = 0"
definition PTYPE_CLIENT :: int where "PTYPE_CLIENT = 3"
definition PTYPE_SYSTEM :: int where "PTYPE_SYSTEM = 4"
definition PTYPE_HARBOR :: int where "PTYPE_HARBOR = 5"
definition PTYPE_SOCKET :: int where "PTYPE_SOCKET = 6"
definition PTYPE_ERROR :: int where "PTYPE_ERROR = 7"
definition PTYPE_TAG_DONTCOPY :: int where "PTYPE_TAG_DONTCOPY = 0x10000"
definition PTYPE_TAG_ALLOCSESSION :: int where "PTYPE_TAG_ALLOCSESSION = 0x20000"
definition MESSAGE_TYPE_MASK :: u64 where "MESSAGE_TYPE_MASK = 0x00ffffffffffffff"

definition string_bytes :: "string \<Rightarrow> bytes" where "string_bytes s = map of_char s"

section \<open>Contexts and reference counts\<close>

definition upd_ctx :: "nat \<Rightarrow> (skynet_context \<Rightarrow> skynet_context) \<Rightarrow> kernel \<Rightarrow> kernel" where
  "upd_ctx a f k = k\<lparr>k_ctxs := (k_ctxs k)(a := map_option f (k_ctxs k a))\<rparr>"

text \<open>\<open>skynet_context_handle\<close>, as the handle storage calls it.\<close>

definition ctx_handle :: "kernel \<Rightarrow> nat \<Rightarrow> u32" where
  "ctx_handle k a = (case k_ctxs k a of None \<Rightarrow> 0 | Some c \<Rightarrow> cx_handle c)"

definition skynet_context_newsession :: "nat \<Rightarrow> kernel \<Rightarrow> (int \<times> kernel) res" where
  "skynet_context_newsession a k =
     res_deref ''skynet_context_newsession'' (k_ctxs k a) (\<lambda>c.
       let session = cx_session_id c + 1 in
       if sint session \<le> 0 then Inr (1, upd_ctx a (\<lambda>c. c\<lparr>cx_session_id := 1\<rparr>) k)
       else Inr (sint session, upd_ctx a (\<lambda>c. c\<lparr>cx_session_id := session\<rparr>) k))"

definition skynet_context_grab :: "nat \<Rightarrow> kernel \<Rightarrow> kernel res" where
  "skynet_context_grab a k =
     res_deref ''skynet_context_grab'' (k_ctxs k a) (\<lambda>c.
       Inr (upd_ctx a (\<lambda>c. c\<lparr>cx_ref := cx_ref c + 1\<rparr>) k))"

definition skynet_context_reserve :: "nat \<Rightarrow> kernel \<Rightarrow> kernel res" where
  "skynet_context_reserve a k =
     res_bind (skynet_context_grab a k) (\<lambda>k. Inr (k\<lparr>k_total := k_total k - 1\<rparr>))"

definition skynet_module_instance_create :: "services \<Rightarrow> nat \<Rightarrow> kernel \<Rightarrow> (nat option \<times> kernel) res" where
  "skynet_module_instance_create sv m k =
     (case md_create (ms_m (k_modules k) ! m) of
        Some f \<Rightarrow> sv_create sv f k
      | None \<Rightarrow> Inr (Some (2 ^ 64 - 1), k))"

definition skynet_module_instance_init ::
  "services \<Rightarrow> nat \<Rightarrow> nat \<Rightarrow> nat \<Rightarrow> string option \<Rightarrow> kernel \<Rightarrow> (int \<times> kernel) res" where
  "skynet_module_instance_init sv m inst ctx parm k =
     res_deref ''skynet_module_instance_init'' (md_init (ms_m (k_modules k) ! m))
       (\<lambda>f. sv_init sv f inst ctx parm k)"

definition skynet_module_instance_release :: "services \<Rightarrow> nat \<Rightarrow> nat \<Rightarrow> kernel \<Rightarrow> kernel res" where
  "skynet_module_instance_release sv m inst k =
     (case md_release (ms_m (k_modules k) ! m) of Some f \<Rightarrow> sv_release sv f inst k | None \<Rightarrow> Inr k)"

definition skynet_module_instance_signal :: "services \<Rightarrow> nat \<Rightarrow> nat \<Rightarrow> int \<Rightarrow> kernel \<Rightarrow> kernel res" where
  "skynet_module_instance_signal sv m inst sig k =
     (case md_signal (ms_m (k_modules k) ! m) of Some f \<Rightarrow> sv_signal sv f inst sig k | None \<Rightarrow> Inr k)"

definition delete_context :: "services \<Rightarrow> nat \<Rightarrow> kernel \<Rightarrow> kernel res" where
  "delete_context sv a k =
     res_deref ''delete_context'' (k_ctxs k a) (\<lambda>c.
     res_bind (skynet_module_instance_release sv (cx_mod c) (cx_instance c) k) (\<lambda>k.
     res_bind (skynet_mq_mark_release (cx_queue c) (k_mqs k)) (\<lambda>h.
       Inr (k\<lparr>k_mqs := h, k_ctxs := (k_ctxs k)(a := None), k_total := k_total k - 1\<rparr>))))"

definition skynet_context_release :: "services \<Rightarrow> nat \<Rightarrow> kernel \<Rightarrow> (nat option \<times> kernel) res" where
  "skynet_context_release sv a k =
     res_deref ''skynet_context_release'' (k_ctxs k a) (\<lambda>c.
       let k = upd_ctx a (\<lambda>c. c\<lparr>cx_ref := cx_ref c - 1\<rparr>) k in
       if cx_ref c - 1 = 0 then res_bind (delete_context sv a k) (\<lambda>k. Inr (None, k))
       else Inr (Some a, k))"

definition skynet_handle_grab :: "u32 \<Rightarrow> kernel \<Rightarrow> (nat option \<times> kernel) res" where
  "skynet_handle_grab handle k =
     (case handle_lookup (ctx_handle k) (k_handles k) handle of
        None \<Rightarrow> Inr (None, k)
      | Some a \<Rightarrow> res_bind (skynet_context_grab a k) (\<lambda>k. Inr (Some a, k)))"

definition skynet_handle_retire :: "services \<Rightarrow> u32 \<Rightarrow> kernel \<Rightarrow> (int \<times> kernel) res" where
  "skynet_handle_retire sv handle k =
     (case handle_retire (ctx_handle k) handle (k_handles k) of
        (None, s) \<Rightarrow> Inr (0, k\<lparr>k_handles := s\<rparr>)
      | (Some a, s) \<Rightarrow>
          res_bind (skynet_context_release sv a (k\<lparr>k_handles := s\<rparr>)) (\<lambda>(_, k). Inr (1, k)))"

section \<open>Pushing, errors and the harbor\<close>

definition skynet_context_push :: "services \<Rightarrow> u32 \<Rightarrow> skynet_message \<Rightarrow> kernel \<Rightarrow> (int \<times> kernel) res" where
  "skynet_context_push sv handle message k =
     res_bind (skynet_handle_grab handle k) (\<lambda>(r, k).
       case r of
         None \<Rightarrow> Inr (-1, k)
       | Some a \<Rightarrow>
           res_deref ''skynet_context_push'' (k_ctxs k a) (\<lambda>c.
           res_bind (skynet_mq_push (cx_queue c) message (k_mqs k)) (\<lambda>h.
           res_bind (skynet_context_release sv a (k\<lparr>k_mqs := h\<rparr>)) (\<lambda>(_, k). Inr (0, k)))))"

definition skynet_context_endless :: "services \<Rightarrow> u32 \<Rightarrow> kernel \<Rightarrow> kernel res" where
  "skynet_context_endless sv handle k =
     res_bind (skynet_handle_grab handle k) (\<lambda>(r, k).
       case r of
         None \<Rightarrow> Inr k
       | Some a \<Rightarrow>
           res_bind (skynet_context_release sv a (upd_ctx a (\<lambda>c. c\<lparr>cx_endless := True\<rparr>) k))
             (\<lambda>(_, k). Inr k))"

text \<open>
  \<open>skynet_error\<close> with the formatted text: a copy with its terminator is pushed to the service
  named logger, whose handle is looked up until it is found and then kept.
\<close>

definition skynet_error :: "services \<Rightarrow> nat option \<Rightarrow> string \<Rightarrow> kernel \<Rightarrow> kernel res" where
  "skynet_error sv context text k =
     (let k = (if k_logger k = 0 then k\<lparr>k_logger := skynet_handle_findname ''logger'' (k_handles k)\<rparr> else k) in
      if k_logger k = 0 then Inr k
      else
        let smsg = \<lparr>msg_source = (case context of None \<Rightarrow> 0 | Some a \<Rightarrow> ctx_handle k a), msg_session = 0,
                     msg_data = Some (Block (string_bytes text @ [0])),
                     msg_sz = of_nat (length text) OR push_bit MESSAGE_TYPE_SHIFT (of_int PTYPE_TEXT)\<rparr>
        in res_bind (skynet_context_push sv (k_logger k) smsg k) (\<lambda>(_, k). Inr k))"

definition skynet_context_send ::
  "nat \<Rightarrow> payload option \<Rightarrow> u64 \<Rightarrow> u32 \<Rightarrow> int \<Rightarrow> int \<Rightarrow> kernel \<Rightarrow> kernel res" where
  "skynet_context_send a msg sz source type session k =
     res_deref ''skynet_context_send'' (k_ctxs k a) (\<lambda>c.
       let smsg = \<lparr>msg_source = source, msg_session = of_int session, msg_data = msg,
                    msg_sz = sz OR push_bit MESSAGE_TYPE_SHIFT (of_int type)\<rparr>
       in res_bind (skynet_mq_push (cx_queue c) smsg (k_mqs k)) (\<lambda>h. Inr (k\<lparr>k_mqs := h\<rparr>)))"

text \<open>The size of \<open>struct remote_message\<close> on a 64-bit machine.\<close>

definition sizeof_remote_message :: u64 where "sizeof_remote_message = 40"

definition skynet_harbor_send ::
  "string \<Rightarrow> u32 \<Rightarrow> payload option \<Rightarrow> u64 \<Rightarrow> u32 \<Rightarrow> int \<Rightarrow> kernel \<Rightarrow> kernel res" where
  "skynet_harbor_send name handle message sz source session k =
     (let type = uint (drop_bit MESSAGE_TYPE_SHIFT sz); sz = sz AND MESSAGE_TYPE_MASK in
      res_assert ''skynet_harbor_send'' (type \<noteq> PTYPE_SYSTEM \<and> type \<noteq> PTYPE_HARBOR)
        (res_deref ''skynet_harbor_send'' (k_remote k) (\<lambda>a.
           skynet_context_send a (Some (Remote_message name handle message sz)) sizeof_remote_message
             source type session k)))"

definition skynet_harbor_message_isremote :: "u32 \<Rightarrow> kernel \<Rightarrow> bool res" where
  "skynet_harbor_message_isremote handle k =
     res_assert ''skynet_harbor_message_isremote'' (k_harbor k \<noteq> NOT 0)
       (let h = handle AND NOT HANDLE_MASK in Inr (h \<noteq> k_harbor k \<and> h \<noteq> 0))"

definition skynet_harbor_init :: "int \<Rightarrow> kernel \<Rightarrow> kernel" where
  "skynet_harbor_init harbor k = k\<lparr>k_harbor := push_bit HANDLE_REMOTE_SHIFT (of_int harbor)\<rparr>"

definition skynet_harbor_start :: "nat \<Rightarrow> kernel \<Rightarrow> kernel res" where
  "skynet_harbor_start a k = res_bind (skynet_context_reserve a k) (\<lambda>k. Inr (k\<lparr>k_remote := Some a\<rparr>))"

definition skynet_harbor_exit :: "services \<Rightarrow> kernel \<Rightarrow> kernel res" where
  "skynet_harbor_exit sv k =
     (case k_remote k of
        None \<Rightarrow> Inr k
      | Some a \<Rightarrow> res_bind (skynet_context_release sv a (k\<lparr>k_remote := None\<rparr>)) (\<lambda>(_, k). Inr k))"

definition skynet_isremote :: "u32 \<Rightarrow> kernel \<Rightarrow> (bool \<times> int) res" where
  "skynet_isremote handle k =
     res_bind (skynet_harbor_message_isremote handle k) (\<lambda>r. Inr (r, uint (drop_bit HANDLE_REMOTE_SHIFT handle)))"

section \<open>Sending\<close>

text \<open>
  \<open>_filter_args\<close>. The copy of a block reads \<open>sz\<close> bytes of it and appends a terminator; a
  struct is passed by its sender with its own size.
\<close>

definition copy_payload :: "u64 \<Rightarrow> payload \<Rightarrow> payload res" where
  "copy_payload sz p =
     (case p of
        Block bs \<Rightarrow> if unat sz \<le> length bs then Inr (Block (take (unat sz) bs @ [0]))
                    else Inl (Out_of_bounds ''_filter_args'')
      | _ \<Rightarrow> Inr p)"

definition filter_args ::
  "nat option \<Rightarrow> int \<Rightarrow> int \<Rightarrow> payload option \<Rightarrow> u64 \<Rightarrow> kernel \<Rightarrow> (int \<times> payload option \<times> u64 \<times> kernel) res"
where
  "filter_args context type session data sz k =
     (let needcopy = (type AND PTYPE_TAG_DONTCOPY = 0);
          allocsession = (type AND PTYPE_TAG_ALLOCSESSION \<noteq> 0);
          ty = type AND 0xff in
      res_bind
        (if allocsession then
           res_assert ''_filter_args'' (session = 0)
             (res_deref ''_filter_args'' context (\<lambda>a. skynet_context_newsession a k))
         else Inr (session, k)) (\<lambda>(session, k).
      res_bind
        (case data of
           Some p \<Rightarrow> if needcopy then res_bind (copy_payload sz p) (\<lambda>p. Inr (Some p)) else Inr data
         | None \<Rightarrow> Inr None) (\<lambda>data.
      Inr (session, data, sz OR push_bit MESSAGE_TYPE_SHIFT (of_int ty), k))))"

text \<open>The source of a message: the sender's own handle when it gives zero.\<close>

definition source_handle :: "string \<Rightarrow> nat option \<Rightarrow> u32 \<Rightarrow> kernel \<Rightarrow> u32 res" where
  "source_handle tag context source k =
     (if source = 0
      then res_deref tag context (\<lambda>a. res_deref tag (k_ctxs k a) (\<lambda>c. Inr (cx_handle c)))
      else Inr source)"

definition skynet_send ::
  "services \<Rightarrow> nat option \<Rightarrow> u32 \<Rightarrow> u32 \<Rightarrow> int \<Rightarrow> int \<Rightarrow> payload option \<Rightarrow> u64 \<Rightarrow> kernel \<Rightarrow> (int \<times> kernel) res"
where
  "skynet_send sv context source destination type session data sz k =
     (if sz AND MESSAGE_TYPE_MASK \<noteq> sz then
        res_bind (skynet_error sv context (''The message to '' @ fmt_x destination @ '' is too large'') k)
          (\<lambda>k. Inr (-1, k))
      else
        res_bind (filter_args context type session data sz k) (\<lambda>(session, data, sz, k).
        res_bind (source_handle ''skynet_send'' context source k) (\<lambda>source.
        if destination = 0 then Inr (session, k)
        else
          res_bind (skynet_harbor_message_isremote destination k) (\<lambda>remote.
          if remote then
            res_bind (skynet_harbor_send '''' destination data sz source session k) (\<lambda>k. Inr (session, k))
          else
            res_bind (skynet_context_push sv destination
                \<lparr>msg_source = source, msg_session = of_int session, msg_data = data, msg_sz = sz\<rparr> k) (\<lambda>(r, k).
              if r \<noteq> 0 then Inr (-1, k) else Inr (session, k))))))"

definition skynet_sendname ::
  "services \<Rightarrow> nat option \<Rightarrow> u32 \<Rightarrow> string \<Rightarrow> int \<Rightarrow> int \<Rightarrow> payload option \<Rightarrow> u64 \<Rightarrow> kernel \<Rightarrow> (int \<times> kernel) res"
where
  "skynet_sendname sv context source addr type session data sz k =
     res_bind (source_handle ''skynet_sendname'' context source k) (\<lambda>source.
     if take 1 addr = '':'' then
       skynet_send sv context source (ucast (strtoul16 (drop 1 addr))) type session data sz k
     else if take 1 addr = ''.'' then
       let des = skynet_handle_findname (drop 1 addr) (k_handles k) in
       if des = 0 then Inr (-1, k)
       else skynet_send sv context source des type session data sz k
     else
       res_bind (filter_args context type session data sz k) (\<lambda>(session, data, sz, k).
       res_bind (skynet_harbor_send (copy_name addr) 0 data sz source session k) (\<lambda>k. Inr (session, k))))"

text \<open>\<open>drop_message\<close>: tells the sender of a message that will not be delivered.\<close>

definition drop_message :: "services \<Rightarrow> u32 \<Rightarrow> skynet_message \<Rightarrow> kernel \<Rightarrow> kernel res" where
  "drop_message sv handle msg k =
     res_assert ''drop_message'' (handle \<noteq> 0)
       (res_bind (skynet_send sv None handle (msg_source msg) PTYPE_ERROR 0 None 0 k) (\<lambda>(_, k). Inr k))"

end
