(* ===== verification/Server.thy ===== *)
theory Server
  imports Kernel
begin

text \<open>
  The rest of \<open>skynet_server.c\<close>: launching a service, dispatching the messages of a queue, the
  commands a service can issue; and the monitor, the environment, the message log, the
  forwarding of socket events and the ticking of the timer on the whole kernel.
\<close>

section \<open>Environment\<close>

definition skynet_getenv :: "string \<Rightarrow> kernel \<Rightarrow> string option" where
  "skynet_getenv key k = k_env k key"

definition skynet_setenv :: "string \<Rightarrow> string \<Rightarrow> kernel \<Rightarrow> kernel res" where
  "skynet_setenv key value k =
     res_assert ''skynet_setenv'' (k_env k key = None) (Inr (k\<lparr>k_env := (k_env k)(key \<mapsto> value)\<rparr>))"

section \<open>Message log\<close>

definition skynet_log_open :: "services \<Rightarrow> nat \<Rightarrow> u32 \<Rightarrow> kernel \<Rightarrow> (string option \<times> kernel) res" where
  "skynet_log_open sv ctx handle k =
     (case skynet_getenv ''logpath'' k of
        None \<Rightarrow> Inr (None, k)
      | Some logpath \<Rightarrow>
          let tmp = logpath @ ''/'' @ fmt_08x handle @ ''.log'' in
          if sv_fopen sv tmp k then
            let current = tm_current (k_timer k);
                ti = ucast (tm_starttime (k_timer k)) + current div 100 in
            res_bind (skynet_error sv (Some ctx) (''Open log file '' @ tmp) k) (\<lambda>k.
              Inr (Some (''open time: '' @ fmt_u (ucast current) @ '' '' @ sv_ctime sv ti), k))
          else
            res_bind (skynet_error sv (Some ctx) (''Open log file '' @ tmp @ '' fail'') k) (\<lambda>k. Inr (None, k)))"

definition skynet_log_close :: "services \<Rightarrow> nat \<Rightarrow> u32 \<Rightarrow> kernel \<Rightarrow> kernel res" where
  "skynet_log_close sv ctx handle k = skynet_error sv (Some ctx) (''Close log file :'' @ fmt_08x handle) k"

definition fmt_02x :: "u8 \<Rightarrow> string" where
  "fmt_02x b = (let s = show_base 16 (unat b) in replicate (2 - length s) CHR ''0'' @ s)"

definition log_blob :: "bytes \<Rightarrow> string" where
  "log_blob bs = concat (map fmt_02x bs)"

text \<open>The conversion \<open>%*s\<close>: the string up to its terminator, padded to the width on the left.\<close>

definition fmt_width_s :: "int \<Rightarrow> bytes \<Rightarrow> string res" where
  "fmt_width_s w bs =
     (if 0 \<in> set bs then
        let s = map (\<lambda>b. char_of (unat b)) (takeWhile (\<lambda>b. b \<noteq> 0) bs)
        in Inr (replicate (nat w - length s) CHR '' '' @ s)
      else Inl (Out_of_bounds ''log_socket''))"

definition log_socket :: "payload \<Rightarrow> string res" where
  "log_socket p =
     (case p of
        Socket_message type sid ud buffer tail \<Rightarrow>
          let head = ''[socket] '' @ fmt_d type @ '' '' @ fmt_d sid @ '' '' @ fmt_d ud @ '' '' in
          (case buffer of
             None \<Rightarrow>
               let sz = length (takeWhile (\<lambda>b. b \<noteq> 0) tail) in
               res_bind (fmt_width_s (int sz) tail) (\<lambda>s. Inr (head @ ''['' @ s @ '']'' @ [CHR 0x0A]))
           | Some b \<Rightarrow>
               if ud < 0 \<or> nat ud > length b then Inl (Out_of_bounds ''log_socket'')
               else Inr (head @ log_blob (take (nat ud) b) @ [CHR 0x0A]))
      | _ \<Rightarrow> Inl (Bad_pointer ''log_socket''))"

definition skynet_log_output ::
  "u32 \<Rightarrow> int \<Rightarrow> c_int \<Rightarrow> payload option \<Rightarrow> u64 \<Rightarrow> kernel \<Rightarrow> string res" where
  "skynet_log_output source type session buffer sz k =
     (if type = PTYPE_SOCKET then res_deref ''log_socket'' buffer log_socket
      else
        let head = '':'' @ fmt_08x source @ '' '' @ fmt_d type @ '' '' @ fmt_d (sint session) @ '' '' @
                   fmt_u (ucast (tm_current (k_timer k))) @ '' '' in
        if sz = 0 then Inr (head @ [CHR 0x0A])
        else case buffer of
               Some (Block bs) \<Rightarrow>
                 if unat sz \<le> length bs then Inr (head @ log_blob (take (unat sz) bs) @ [CHR 0x0A])
                 else Inl (Out_of_bounds ''log_blob'')
             | _ \<Rightarrow> Inl (Bad_pointer ''log_blob''))"

section \<open>Launching a service\<close>

definition new_context :: "nat \<Rightarrow> nat \<Rightarrow> bool \<Rightarrow> skynet_context" where
  "new_context inst m profile = \<lparr>cx_instance = inst, cx_mod = m, cx_cb_ud = 0, cx_cb = None, cx_queue = 0,
     cx_logfile = None, cx_cpu_cost = 0, cx_cpu_start = 0, cx_result = '''', cx_handle = 0,
     cx_session_id = 0, cx_ref = 2, cx_message_count = 0, cx_init = False, cx_endless = False,
     cx_profile = profile\<rparr>"

text \<open>From the allocation of the context to the creation of its queue.\<close>

definition context_alloc :: "nat \<Rightarrow> nat \<Rightarrow> kernel \<Rightarrow> (nat \<times> kernel) run" where
  "context_alloc m inst k =
     (let a = k_fresh k;
          k = k\<lparr>k_ctxs := (k_ctxs k)(a \<mapsto> new_context inst m (k_profile k)), k_fresh := Suc a\<rparr> in
      run_bind (skynet_handle_register (ctx_handle k) a (k_handles k)) (\<lambda>(s, handle).
        let k = upd_ctx a (\<lambda>c. c\<lparr>cx_handle := handle\<rparr>) (k\<lparr>k_handles := s\<rparr>);
            (q, h) = skynet_mq_create handle (k_mqs k);
            k = upd_ctx a (\<lambda>c. c\<lparr>cx_queue := q\<rparr>) (k\<lparr>k_mqs := h\<rparr>)
        in Some (Inr (a, k\<lparr>k_total := k_total k + 1\<rparr>))))"

definition skynet_context_new ::
  "services \<Rightarrow> string \<Rightarrow> string option \<Rightarrow> kernel \<Rightarrow> (nat option \<times> kernel) run" where
  "skynet_context_new sv name param k =
     run_bind (Some (skynet_module_query (sv_dlopen sv) (sv_dlsym sv) name (k_modules k))) (\<lambda>(mr, ms).
       let k = k\<lparr>k_modules := ms\<rparr> in
       case mr of
         None \<Rightarrow> Some (Inr (None, k))
       | Some m \<Rightarrow>
     run_bind (Some (skynet_module_instance_create sv m k)) (\<lambda>(ir, k).
       case ir of
         None \<Rightarrow> Some (Inr (None, k))
       | Some inst \<Rightarrow>
     run_bind (context_alloc m inst k) (\<lambda>(a, k).
     run_bind (Some (res_deref ''skynet_context_new'' (k_ctxs k a) Inr)) (\<lambda>c.
       let queue = cx_queue c; handle = cx_handle c in
     run_bind (Some (skynet_module_instance_init sv m inst a param k)) (\<lambda>(r, k).
       if r = 0 then
         run_bind (Some (skynet_context_release sv a k)) (\<lambda>(ret, k).
           let k = (if ret \<noteq> None then upd_ctx a (\<lambda>c. c\<lparr>cx_init := True\<rparr>) k else k) in
         run_bind (Some (skynet_globalmq_push (k_mqs k) queue)) (\<lambda>h.
           let k = k\<lparr>k_mqs := h\<rparr> in
           if ret \<noteq> None then
             run_bind (Some (skynet_error sv ret
                 (''LAUNCH '' @ name @ '' '' @ (case param of Some p \<Rightarrow> p | None \<Rightarrow> '''')) k)) (\<lambda>k.
               Some (Inr (ret, k)))
           else Some (Inr (ret, k))))
       else
         run_bind (Some (skynet_error sv (Some a) (''FAILED launch '' @ name) k)) (\<lambda>k.
         run_bind (Some (skynet_context_release sv a k)) (\<lambda>(_, k).
         run_bind (Some (skynet_handle_retire sv handle k)) (\<lambda>(_, k).
         run_bind (skynet_mq_release k_mqs (\<lambda>h k. k\<lparr>k_mqs := h\<rparr>) (drop_message sv handle) queue k) (\<lambda>k.
           Some (Inr (None, k)))))))))))"

section \<open>Dispatching\<close>

record skynet_monitor =
  sm_version :: c_int
  sm_check_version :: c_int
  sm_source :: u32
  sm_destination :: u32

definition skynet_monitor_new :: skynet_monitor where
  "skynet_monitor_new = \<lparr>sm_version = 0, sm_check_version = 0, sm_source = 0, sm_destination = 0\<rparr>"

definition skynet_monitor_trigger :: "u32 \<Rightarrow> u32 \<Rightarrow> skynet_monitor \<Rightarrow> skynet_monitor" where
  "skynet_monitor_trigger source destination sm =
     sm\<lparr>sm_source := source, sm_destination := destination, sm_version := sm_version sm + 1\<rparr>"

definition skynet_monitor_check :: "services \<Rightarrow> skynet_monitor \<Rightarrow> kernel \<Rightarrow> (skynet_monitor \<times> kernel) res" where
  "skynet_monitor_check sv sm k =
     (if sm_version sm = sm_check_version sm then
        if sm_destination sm \<noteq> 0 then
          res_bind (skynet_context_endless sv (sm_destination sm) k) (\<lambda>k.
          res_bind (skynet_error sv None (''A message from [ :'' @ fmt_08x (sm_source sm) @ '' ] to [ :'' @
              fmt_08x (sm_destination sm) @ '' ] maybe in an endless loop (version = '' @
              fmt_d (sint (sm_version sm)) @ '')'') k) (\<lambda>k. Inr (sm, k)))
        else Inr (sm, k)
      else Inr (sm\<lparr>sm_check_version := sm_version sm\<rparr>, k))"

text \<open>The call of the callback; a message it does not keep is freed.\<close>

definition dispatch_message :: "services \<Rightarrow> nat \<Rightarrow> skynet_message \<Rightarrow> kernel \<Rightarrow> kernel res" where
  "dispatch_message sv a msg k =
     res_deref ''dispatch_message'' (k_ctxs k a) (\<lambda>c.
     res_assert ''dispatch_message'' (cx_init c)
       (let k = k\<lparr>k_current_handle := cx_handle c\<rparr>;
            type = uint (drop_bit MESSAGE_TYPE_SHIFT (msg_sz msg));
            sz = msg_sz msg AND MESSAGE_TYPE_MASK in
        res_bind
          (case cx_logfile c of
             None \<Rightarrow> Inr k
           | Some f \<Rightarrow>
               res_bind (skynet_log_output (msg_source msg) type (msg_session msg) (msg_data msg) sz k) (\<lambda>s.
                 Inr (upd_ctx a (\<lambda>c. c\<lparr>cx_logfile := Some (f @ s)\<rparr>) k))) (\<lambda>k.
        let k = upd_ctx a (\<lambda>c. c\<lparr>cx_message_count := cx_message_count c + 1\<rparr>) k in
        res_deref ''dispatch_message'' (cx_cb c) (\<lambda>cb.
        if cx_profile c then
          let start = sv_thread_time sv k;
              k = upd_ctx a (\<lambda>c. c\<lparr>cx_cpu_start := start\<rparr>) k in
          res_bind (sv_cb sv cb a (cx_cb_ud c) type (msg_session msg) (msg_source msg) (msg_data msg) sz k)
            (\<lambda>(_, k). Inr (upd_ctx a (\<lambda>c. c\<lparr>cx_cpu_cost := cx_cpu_cost c + (sv_thread_time sv k - cx_cpu_start c)\<rparr>) k))
        else
          res_bind (sv_cb sv cb a (cx_cb_ud c) type (msg_session msg) (msg_source msg) (msg_data msg) sz k)
            (\<lambda>(_, k). Inr k)))))"

text \<open>
  One iteration of the loop of \<open>skynet_context_message_dispatch\<close> behind the pop, for the
  message \<open>msg\<close> of the queue \<open>q\<close> of the context \<open>a\<close>.
\<close>

definition dispatch_body ::
  "services \<Rightarrow> nat \<Rightarrow> nat \<Rightarrow> u32 \<Rightarrow> skynet_message \<Rightarrow> skynet_monitor \<times> kernel \<Rightarrow> (skynet_monitor \<times> kernel) res"
where
  "dispatch_body sv q a handle msg st =
     (case st of (sm, k) \<Rightarrow>
      res_deref ''skynet_mq_overload'' (mh_queues (k_mqs k) q) (\<lambda>mq.
      let (overload, mq') = skynet_mq_overload mq;
          k = k\<lparr>k_mqs := mh_set q mq' (k_mqs k)\<rparr> in
      res_bind
        (if overload \<noteq> 0
         then skynet_error sv (Some a) (''May overload, message queue length = '' @ fmt_d (int overload)) k
         else Inr k) (\<lambda>k.
      let sm = skynet_monitor_trigger (msg_source msg) handle sm in
      res_deref ''skynet_context_message_dispatch'' (k_ctxs k a) (\<lambda>c.
      res_bind (if cx_cb c = None then Inr k else dispatch_message sv a msg k) (\<lambda>k.
      Inr (skynet_monitor_trigger 0 0 sm, k))))))"

text \<open>Popping the queue \<open>q\<close>: the message, \<open>None\<close> when the queue is empty and leaves the global queue.\<close>

definition kernel_pop :: "nat \<Rightarrow> kernel \<Rightarrow> (skynet_message option \<times> kernel) res" where
  "kernel_pop q k =
     res_deref ''skynet_mq_pop'' (mh_queues (k_mqs k) q) (\<lambda>mq.
       case skynet_mq_pop mq of (ret, m, mq') \<Rightarrow>
         let k = k\<lparr>k_mqs := mh_set q mq' (k_mqs k)\<rparr> in
         if ret = 0 then res_deref ''skynet_mq_pop'' m (\<lambda>m. Inr (Some m, k)) else Inr (None, k))"

text \<open>The iterations after the first; the flag tells that the queue ran empty.\<close>

fun dispatch_loop ::
  "services \<Rightarrow> nat \<Rightarrow> nat \<Rightarrow> u32 \<Rightarrow> nat \<Rightarrow> skynet_monitor \<times> kernel \<Rightarrow> (bool \<times> skynet_monitor \<times> kernel) res"
where
  "dispatch_loop sv q a handle 0 st = Inr (False, st)"
| "dispatch_loop sv q a handle (Suc n) (sm, k) =
     res_bind (kernel_pop q k) (\<lambda>(m, k).
       case m of
         None \<Rightarrow> Inr (True, sm, k)
       | Some msg \<Rightarrow> res_bind (dispatch_body sv q a handle msg (sm, k)) (dispatch_loop sv q a handle n))"

text \<open>
  The number of iterations: one, and with a weight that is not negative as many as the length
  of the queue behind the first message shifted by the weight, if that is more.
\<close>

definition dispatch_count :: "int \<Rightarrow> nat \<Rightarrow> nat" where
  "dispatch_count weight len = (if weight \<ge> 0 then max 1 (drop_bit (nat weight) len) else 1)"

definition dispatch_queue ::
  "services \<Rightarrow> nat \<Rightarrow> nat \<Rightarrow> u32 \<Rightarrow> int \<Rightarrow> skynet_monitor \<times> kernel \<Rightarrow> (bool \<times> skynet_monitor \<times> kernel) res"
where
  "dispatch_queue sv q a handle weight st =
     (case st of (sm, k) \<Rightarrow>
      res_bind (kernel_pop q k) (\<lambda>(m, k).
        case m of
          None \<Rightarrow> Inr (True, sm, k)
        | Some msg \<Rightarrow>
            res_deref ''skynet_mq_length'' (mh_queues (k_mqs k) q) (\<lambda>mq.
            let n = dispatch_count weight (skynet_mq_length mq) in
            res_bind (dispatch_body sv q a handle msg (sm, k)) (dispatch_loop sv q a handle (n - 1)))))"

definition kernel_globalmq_pop :: "kernel \<Rightarrow> (nat option \<times> kernel) res" where
  "kernel_globalmq_pop k = res_bind (skynet_globalmq_pop (k_mqs k)) (\<lambda>(r, h). Inr (r, k\<lparr>k_mqs := h\<rparr>))"

definition dispatch_context ::
  "services \<Rightarrow> nat \<Rightarrow> int \<Rightarrow> skynet_monitor \<times> kernel \<Rightarrow> (nat option \<times> skynet_monitor \<times> kernel) run"
where
  "dispatch_context sv q weight st =
     (case st of (sm, k) \<Rightarrow>
      run_bind (Some (res_deref ''skynet_mq_handle'' (mh_queues (k_mqs k) q) (\<lambda>mq. Inr (mq_handle mq)))) (\<lambda>handle.
      run_bind (Some (skynet_handle_grab handle k)) (\<lambda>(r, k).
        case r of
          None \<Rightarrow>
            run_bind (skynet_mq_release k_mqs (\<lambda>h k. k\<lparr>k_mqs := h\<rparr>) (drop_message sv handle) q k) (\<lambda>k.
            run_bind (Some (kernel_globalmq_pop k)) (\<lambda>(r, k). Some (Inr (r, sm, k))))
        | Some a \<Rightarrow>
            run_bind (Some (dispatch_queue sv q a handle weight (sm, k))) (\<lambda>(empty, sm, k).
            if empty then
              run_bind (Some (skynet_context_release sv a k)) (\<lambda>(_, k).
              run_bind (Some (kernel_globalmq_pop k)) (\<lambda>(r, k). Some (Inr (r, sm, k))))
            else
              run_bind (Some (res_deref ''skynet_context_message_dispatch'' (k_ctxs k a) (\<lambda>c.
                res_assert ''skynet_context_message_dispatch'' (q = cx_queue c) (Inr ())))) (\<lambda>_.
              run_bind (Some (kernel_globalmq_pop k)) (\<lambda>(nq, k).
              run_bind (case nq of
                  None \<Rightarrow> Some (Inr (Some q, k))
                | Some q' \<Rightarrow> Some (res_bind (skynet_globalmq_push (k_mqs k) q) (\<lambda>h. Inr (Some q', k\<lparr>k_mqs := h\<rparr>))))
                (\<lambda>(r, k). run_bind (Some (skynet_context_release sv a k)) (\<lambda>(_, k). Some (Inr (r, sm, k))))))))))"

definition skynet_context_message_dispatch ::
  "services \<Rightarrow> nat option \<Rightarrow> int \<Rightarrow> skynet_monitor \<times> kernel \<Rightarrow> (nat option \<times> skynet_monitor \<times> kernel) run"
where
  "skynet_context_message_dispatch sv q weight st =
     (case q of
        Some q \<Rightarrow> dispatch_context sv q weight st
      | None \<Rightarrow>
          (case st of (sm, k) \<Rightarrow>
            run_bind (Some (kernel_globalmq_pop k)) (\<lambda>(r, k).
              case r of None \<Rightarrow> Some (Inr (None, sm, k)) | Some q \<Rightarrow> dispatch_context sv q weight (sm, k))))"

text \<open>\<open>skynet_context_dispatchall\<close>, for the logger when the start of the system fails.\<close>

partial_function (option) skynet_context_dispatchall :: "services \<Rightarrow> nat \<Rightarrow> kernel \<Rightarrow> kernel run" where
  "skynet_context_dispatchall sv a k =
     (case k_ctxs k a of
        None \<Rightarrow> Some (Inl (Bad_pointer ''skynet_context_dispatchall''))
      | Some c \<Rightarrow>
         (case kernel_pop (cx_queue c) k of
            Inl e \<Rightarrow> Some (Inl e)
          | Inr (m, k) \<Rightarrow>
             (case m of
                None \<Rightarrow> Some (Inr k)
              | Some msg \<Rightarrow>
                 (case dispatch_message sv a msg k of
                    Inl e \<Rightarrow> Some (Inl e)
                  | Inr k \<Rightarrow> skynet_context_dispatchall sv a k))))"

section \<open>Commands\<close>

text \<open>A command returns a string or NULL; \<open>context->result\<close> keeps the last one it printed.\<close>

type_synonym cmd_result = "(string option \<times> kernel) res"

definition set_result :: "nat \<Rightarrow> string \<Rightarrow> kernel \<Rightarrow> cmd_result" where
  "set_result a s k =
     res_deref ''result'' (k_ctxs k a) (\<lambda>c. Inr (Some s, upd_ctx a (\<lambda>c. c\<lparr>cx_result := s\<rparr>) k))"

definition int_of_long :: "int \<Rightarrow> int" where
  "int_of_long i = sint (of_int i :: c_int)"

text \<open>\<open>skynet_context_push\<close> as \<open>skynet_timeout\<close> calls it.\<close>

definition kernel_push :: "services \<Rightarrow> u32 \<Rightarrow> skynet_message \<Rightarrow> kernel res \<Rightarrow> int \<times> kernel res" where
  "kernel_push sv handle m rk =
     (case rk of
        Inl e \<Rightarrow> (0, Inl e)
      | Inr k \<Rightarrow> (case skynet_context_push sv handle m k of Inl e \<Rightarrow> (0, Inl e) | Inr (r, k) \<Rightarrow> (r, Inr k)))"

definition kernel_timeout :: "services \<Rightarrow> u32 \<Rightarrow> int \<Rightarrow> int \<Rightarrow> kernel \<Rightarrow> (int \<times> kernel) res" where
  "kernel_timeout sv handle time session k =
     (case skynet_timeout (kernel_push sv) handle time session (Inr k, k_timer k) of
        (r, rk, T) \<Rightarrow> res_bind rk (\<lambda>k. Inr (r, k\<lparr>k_timer := T\<rparr>)))"

definition cmd_timeout :: "services \<Rightarrow> nat \<Rightarrow> string \<Rightarrow> kernel \<Rightarrow> cmd_result" where
  "cmd_timeout sv a param k =
     res_bind (skynet_context_newsession a k) (\<lambda>(session, k).
     res_bind (kernel_timeout sv (ctx_handle k a) (int_of_long (strtol10 param)) session k) (\<lambda>(_, k).
     set_result a (fmt_d session) k))"

definition cmd_reg :: "services \<Rightarrow> nat \<Rightarrow> string option \<Rightarrow> kernel \<Rightarrow> cmd_result" where
  "cmd_reg sv a param k =
     (case param of
        None \<Rightarrow> set_result a ('':'' @ fmt_x (ctx_handle k a)) k
      | Some p \<Rightarrow>
          if p = [] then set_result a ('':'' @ fmt_x (ctx_handle k a)) k
          else if hd p = CHR ''.'' then
            res_bind (skynet_handle_namehandle (ctx_handle k a) (tl p) (k_handles k)) (\<lambda>(r, s).
              Inr (r, k\<lparr>k_handles := s\<rparr>))
          else
            res_bind (skynet_error sv (Some a) (''Can't register global name '' @ p @ '' in C'') k)
              (\<lambda>k. Inr (None, k)))"

definition cmd_query :: "nat \<Rightarrow> string \<Rightarrow> kernel \<Rightarrow> cmd_result" where
  "cmd_query a param k =
     (if take 1 param = ''.'' then
        let handle = skynet_handle_findname (tl param) (k_handles k) in
        if handle \<noteq> 0 then set_result a ('':'' @ fmt_x handle) k else Inr (None, k)
      else Inr (None, k))"

text \<open>
  \<open>sscanf(param, "%s %s", name, handle)\<close>: the two words; a word that is missing leaves its
  buffer as it was, uninitialised.
\<close>

definition scan_word :: "string \<Rightarrow> string option \<times> string" where
  "scan_word s = (let t = dropWhile is_space s; w = takeWhile (\<lambda>c. \<not> is_space c) t in
     (if w = [] then None else Some w, dropWhile (\<lambda>c. \<not> is_space c) t))"

definition cmd_name :: "services \<Rightarrow> nat \<Rightarrow> string \<Rightarrow> kernel \<Rightarrow> cmd_result" where
  "cmd_name sv a param k =
     (let (name, rest) = scan_word param; (handle, _) = scan_word rest in
      case (name, handle) of
        (Some name, Some handle) \<Rightarrow>
          if hd handle \<noteq> CHR '':'' then Inr (None, k)
          else
            let handle_id = ucast (strtoul16 (tl handle)) :: u32 in
            if handle_id = 0 then Inr (None, k)
            else if hd name = CHR ''.'' then
              res_bind (skynet_handle_namehandle handle_id (tl name) (k_handles k)) (\<lambda>(r, s).
                Inr (r, k\<lparr>k_handles := s\<rparr>))
            else
              res_bind (skynet_error sv (Some a) (''Can't set global name '' @ name @ '' in C'') k)
                (\<lambda>k. Inr (None, k))
      | _ \<Rightarrow> Inl (Uninitialised ''cmd_name''))"

definition handle_exit :: "services \<Rightarrow> nat \<Rightarrow> u32 \<Rightarrow> kernel \<Rightarrow> kernel res" where
  "handle_exit sv a handle k =
     (let (target, text) = (if handle = 0 then (ctx_handle k a, ''KILL self'')
                            else (handle, ''KILL :'' @ fmt_x handle)) in
      res_bind (skynet_error sv (Some a) text k) (\<lambda>k.
      res_bind
        (if k_monitor_exit k \<noteq> 0
         then res_bind (skynet_send sv (Some a) target (k_monitor_exit k) PTYPE_CLIENT 0 None 0 k) (\<lambda>(_, k). Inr k)
         else Inr k) (\<lambda>k.
      res_bind (skynet_handle_retire sv target k) (\<lambda>(_, k). Inr k))))"

definition cmd_exit :: "services \<Rightarrow> nat \<Rightarrow> kernel \<Rightarrow> cmd_result" where
  "cmd_exit sv a k = res_bind (handle_exit sv a 0 k) (\<lambda>k. Inr (None, k))"

definition tohandle :: "services \<Rightarrow> nat \<Rightarrow> string \<Rightarrow> kernel \<Rightarrow> (u32 \<times> kernel) res" where
  "tohandle sv a param k =
     (if take 1 param = '':'' then Inr (ucast (strtoul16 (tl param)), k)
      else if take 1 param = ''.'' then Inr (skynet_handle_findname (tl param) (k_handles k), k)
      else res_bind (skynet_error sv (Some a) (''Can't convert '' @ param @ '' to handle'') k) (\<lambda>k. Inr (0, k)))"

definition skynet_queryname :: "services \<Rightarrow> nat \<Rightarrow> string \<Rightarrow> kernel \<Rightarrow> (u32 \<times> kernel) res" where
  "skynet_queryname sv a name k =
     (if take 1 name = '':'' then Inr (ucast (strtoul16 (tl name)), k)
      else if take 1 name = ''.'' then Inr (skynet_handle_findname (tl name) (k_handles k), k)
      else res_bind (skynet_error sv (Some a) (''Don't support query global name '' @ name) k) (\<lambda>k. Inr (0, k)))"

definition cmd_kill :: "services \<Rightarrow> nat \<Rightarrow> string \<Rightarrow> kernel \<Rightarrow> cmd_result" where
  "cmd_kill sv a param k =
     res_bind (tohandle sv a param k) (\<lambda>(handle, k).
       if handle \<noteq> 0 then res_bind (handle_exit sv a handle k) (\<lambda>k. Inr (None, k)) else Inr (None, k))"

text \<open>\<open>strsep\<close>: the part before the first delimiter, and the rest unless there is none.\<close>

definition strsep :: "string \<Rightarrow> string option \<Rightarrow> string option \<times> string option" where
  "strsep delim s =
     (case s of
        None \<Rightarrow> (None, None)
      | Some s \<Rightarrow>
          let w = takeWhile (\<lambda>c. c \<notin> set delim) s; r = dropWhile (\<lambda>c. c \<notin> set delim) s in
          (Some w, if r = [] then None else Some (tl r)))"

definition launch_args :: "string \<Rightarrow> string \<times> string option" where
  "launch_args param =
     (let (md, args) = strsep ('' '' @ [CHR 0x09, CHR 0x0D, CHR 0x0A]) (Some param);
          (args, _) = strsep [CHR 0x0D, CHR 0x0A] args
      in (case md of Some m \<Rightarrow> m | None \<Rightarrow> '''', args))"

definition cmd_launch :: "services \<Rightarrow> nat \<Rightarrow> string \<Rightarrow> kernel \<Rightarrow> (string option \<times> kernel) run" where
  "cmd_launch sv a param k =
     (let (md, args) = launch_args param in
      run_bind (skynet_context_new sv md args k) (\<lambda>(inst, k).
        case inst of
          None \<Rightarrow> Some (Inr (None, k))
        | Some i \<Rightarrow> Some (set_result a (id_to_hex (ctx_handle k i)) k)))"

definition cmd_getenv :: "string \<Rightarrow> kernel \<Rightarrow> cmd_result" where
  "cmd_getenv param k = Inr (skynet_getenv param k, k)"

definition cmd_setenv :: "string \<Rightarrow> kernel \<Rightarrow> cmd_result" where
  "cmd_setenv param k =
     (let key = takeWhile (\<lambda>c. c \<noteq> CHR '' '') param; rest = dropWhile (\<lambda>c. c \<noteq> CHR '' '') param in
      if rest = [] then Inr (None, k)
      else res_bind (skynet_setenv key (tl rest) k) (\<lambda>k. Inr (None, k)))"

definition cmd_starttime :: "nat \<Rightarrow> kernel \<Rightarrow> cmd_result" where
  "cmd_starttime a k = set_result a (fmt_u (tm_starttime (k_timer k))) k"

text \<open>\<open>skynet_handle_retireall\<close> on the kernel, where a release may run the code of a service.\<close>

partial_function (option) retire_slots :: "services \<Rightarrow> nat \<Rightarrow> nat \<Rightarrow> kernel \<Rightarrow> (nat \<times> kernel) run" where
  "retire_slots sv i n k =
     (if i < length (hs_slot (k_handles k)) then
        let handle = (case hs_slot (k_handles k) ! i of None \<Rightarrow> 0 | Some a \<Rightarrow> ctx_handle k a) in
        if handle \<noteq> 0 then
          (case skynet_handle_retire sv handle k of
             Inl e \<Rightarrow> Some (Inl e)
           | Inr (r, k) \<Rightarrow> retire_slots sv (Suc i) (if r \<noteq> 0 then Suc n else n) k)
        else retire_slots sv (Suc i) n k
      else Some (Inr (n, k)))"

partial_function (option) kernel_retireall :: "services \<Rightarrow> kernel \<Rightarrow> kernel run" where
  "kernel_retireall sv k =
     (case retire_slots sv 0 0 k of
        None \<Rightarrow> None
      | Some (Inl e) \<Rightarrow> Some (Inl e)
      | Some (Inr (n, k)) \<Rightarrow> if n = 0 then Some (Inr k) else kernel_retireall sv k)"

definition cmd_abort :: "services \<Rightarrow> kernel \<Rightarrow> (string option \<times> kernel) run" where
  "cmd_abort sv k = run_bind (kernel_retireall sv k) (\<lambda>k. Some (Inr (None, k)))"

definition cmd_monitor :: "services \<Rightarrow> nat \<Rightarrow> string option \<Rightarrow> kernel \<Rightarrow> cmd_result" where
  "cmd_monitor sv a param k =
     (if param = None \<or> param = Some '''' then
        if k_monitor_exit k \<noteq> 0 then set_result a ('':'' @ fmt_x (k_monitor_exit k)) k else Inr (None, k)
      else
        res_bind (tohandle sv a (the param) k) (\<lambda>(handle, k). Inr (None, k\<lparr>k_monitor_exit := handle\<rparr>)))"

definition cmd_stat :: "services \<Rightarrow> nat \<Rightarrow> string \<Rightarrow> kernel \<Rightarrow> cmd_result" where
  "cmd_stat sv a param k =
     res_deref ''cmd_stat'' (k_ctxs k a) (\<lambda>c.
       if param = ''mqlen'' then
         res_deref ''cmd_stat'' (mh_queues (k_mqs k) (cx_queue c)) (\<lambda>q.
           set_result a (fmt_d (int (skynet_mq_length q))) k)
       else if param = ''endless'' then
         if cx_endless c then set_result a ''1'' (upd_ctx a (\<lambda>c. c\<lparr>cx_endless := False\<rparr>) k)
         else set_result a ''0'' k
       else if param = ''cpu'' then set_result a (sv_lf sv (cx_cpu_cost c)) k
       else if param = ''time'' then
         if cx_profile c then set_result a (sv_lf sv (sv_thread_time sv k - cx_cpu_start c)) k
         else set_result a ''0'' k
       else if param = ''message'' then set_result a (fmt_d (sint (cx_message_count c))) k
       else set_result a '''' k)"

definition cmd_logon :: "services \<Rightarrow> nat \<Rightarrow> string \<Rightarrow> kernel \<Rightarrow> cmd_result" where
  "cmd_logon sv a param k =
     res_bind (tohandle sv a param k) (\<lambda>(handle, k).
     if handle = 0 then Inr (None, k)
     else res_bind (skynet_handle_grab handle k) (\<lambda>(r, k).
       case r of
         None \<Rightarrow> Inr (None, k)
       | Some b \<Rightarrow>
           res_deref ''cmd_logon'' (k_ctxs k b) (\<lambda>c.
           res_bind
             (if cx_logfile c = None then
                res_bind (skynet_log_open sv a handle k) (\<lambda>(f, k).
                  Inr (if f = None then k else upd_ctx b (\<lambda>c. if cx_logfile c = None then c\<lparr>cx_logfile := f\<rparr> else c) k))
              else Inr k) (\<lambda>k.
           res_bind (skynet_context_release sv b k) (\<lambda>(_, k). Inr (None, k))))))"

definition cmd_logoff :: "services \<Rightarrow> nat \<Rightarrow> string \<Rightarrow> kernel \<Rightarrow> cmd_result" where
  "cmd_logoff sv a param k =
     res_bind (tohandle sv a param k) (\<lambda>(handle, k).
     if handle = 0 then Inr (None, k)
     else res_bind (skynet_handle_grab handle k) (\<lambda>(r, k).
       case r of
         None \<Rightarrow> Inr (None, k)
       | Some b \<Rightarrow>
           res_deref ''cmd_logoff'' (k_ctxs k b) (\<lambda>c.
           res_bind
             (if cx_logfile c \<noteq> None
              then skynet_log_close sv a handle (upd_ctx b (\<lambda>c. c\<lparr>cx_logfile := None\<rparr>) k)
              else Inr k) (\<lambda>k.
           res_bind (skynet_context_release sv b k) (\<lambda>(_, k). Inr (None, k))))))"

text \<open>\<open>strtol\<close> with base 0: hexadecimal behind 0x, octal behind 0, decimal otherwise.\<close>

definition strtol0 :: "string \<Rightarrow> int" where
  "strtol0 s =
     (let (neg, t) = read_sign (dropWhile is_space s);
          n = int (if skip_0x t \<noteq> t then fst (read_digits 16 0 (skip_0x t))
                   else if take 1 t = ''0'' then fst (read_digits 8 0 t)
                   else fst (read_digits 10 0 t))
      in if neg then max (- (2 ^ 63)) (- n) else min (2 ^ 63 - 1) n)"

definition cmd_signal :: "services \<Rightarrow> nat \<Rightarrow> string \<Rightarrow> kernel \<Rightarrow> cmd_result" where
  "cmd_signal sv a param k =
     res_bind (tohandle sv a param k) (\<lambda>(handle, k).
     if handle = 0 then Inr (None, k)
     else res_bind (skynet_handle_grab handle k) (\<lambda>(r, k).
       case r of
         None \<Rightarrow> Inr (None, k)
       | Some b \<Rightarrow>
           res_deref ''cmd_signal'' (k_ctxs k b) (\<lambda>c.
           let p = dropWhile (\<lambda>c. c \<noteq> CHR '' '') param;
               sig = (if p = [] then 0 else int_of_long (strtol0 p)) in
           res_bind (skynet_module_instance_signal sv (cx_mod c) (cx_instance c) sig k) (\<lambda>k.
           res_bind (skynet_context_release sv b k) (\<lambda>(_, k). Inr (None, k))))))"

text \<open>
  \<open>skynet_command\<close>: the table \<open>cmd_funcs\<close>, searched in order. A command that reads its
  parameter dereferences it, so NULL is a fault for all but four of them.
\<close>

definition skynet_command ::
  "services \<Rightarrow> nat \<Rightarrow> string \<Rightarrow> string option \<Rightarrow> kernel \<Rightarrow> (string option \<times> kernel) run" where
  "skynet_command sv a cmd param k =
     (let need = (\<lambda>f. Some (res_deref cmd param (\<lambda>p. f p k))) in
      if cmd = ''TIMEOUT'' then need (cmd_timeout sv a)
      else if cmd = ''REG'' then Some (cmd_reg sv a param k)
      else if cmd = ''QUERY'' then need (cmd_query a)
      else if cmd = ''NAME'' then need (cmd_name sv a)
      else if cmd = ''EXIT'' then Some (cmd_exit sv a k)
      else if cmd = ''KILL'' then need (cmd_kill sv a)
      else if cmd = ''LAUNCH'' then
        (case param of None \<Rightarrow> Some (Inl (Bad_pointer cmd)) | Some p \<Rightarrow> cmd_launch sv a p k)
      else if cmd = ''GETENV'' then need cmd_getenv
      else if cmd = ''SETENV'' then need cmd_setenv
      else if cmd = ''STARTTIME'' then Some (cmd_starttime a k)
      else if cmd = ''ABORT'' then cmd_abort sv k
      else if cmd = ''MONITOR'' then Some (cmd_monitor sv a param k)
      else if cmd = ''STAT'' then need (cmd_stat sv a)
      else if cmd = ''LOGON'' then need (cmd_logon sv a)
      else if cmd = ''LOGOFF'' then need (cmd_logoff sv a)
      else if cmd = ''SIGNAL'' then need (cmd_signal sv a)
      else Some (Inr (None, k)))"

definition skynet_callback :: "nat \<Rightarrow> nat \<Rightarrow> nat option \<Rightarrow> kernel \<Rightarrow> kernel res" where
  "skynet_callback a ud cb k =
     res_deref ''skynet_callback'' (k_ctxs k a) (\<lambda>c.
       Inr (upd_ctx a (\<lambda>c. c\<lparr>cx_cb := cb, cx_cb_ud := ud\<rparr>) k))"

section \<open>Socket events, signals and the start of the node\<close>

text \<open>\<open>forward_message\<close> of \<open>skynet_socket.c\<close>; \<open>sizeof(struct skynet_socket_message)\<close> is 24.\<close>

definition forward_message ::
  "services \<Rightarrow> int \<Rightarrow> bool \<Rightarrow> int \<Rightarrow> u32 \<Rightarrow> int \<Rightarrow> bytes option \<Rightarrow> kernel \<Rightarrow> kernel res" where
  "forward_message sv type padding sid opaque ud data k =
     (let tail = (if padding then (case data of None \<Rightarrow> [] | Some d \<Rightarrow> take 128 (takeWhile (\<lambda>b. b \<noteq> 0) d)) else []);
          buffer = (if padding then None else data);
          msg = \<lparr>msg_source = 0, msg_session = 0,
                 msg_data = Some (Socket_message type sid ud buffer tail),
                 msg_sz = (24 + of_nat (length tail)) OR push_bit MESSAGE_TYPE_SHIFT (of_int PTYPE_SOCKET)\<rparr>
      in res_bind (skynet_context_push sv opaque msg k) (\<lambda>(_, k). Inr k))"

definition signal_hup :: "services \<Rightarrow> kernel \<Rightarrow> kernel res" where
  "signal_hup sv k =
     (let logger = skynet_handle_findname ''logger'' (k_handles k) in
      if logger \<noteq> 0 then
        res_bind (skynet_context_push sv logger
            \<lparr>msg_source = 0, msg_session = 0, msg_data = None,
             msg_sz = push_bit MESSAGE_TYPE_SHIFT (of_int PTYPE_SYSTEM)\<rparr> k) (\<lambda>(_, k). Inr k)
      else Inr k)"

text \<open>The state before the first service, as \<open>skynet_start\<close> sets it up.\<close>

definition kernel_init :: "int \<Rightarrow> string \<Rightarrow> bool \<Rightarrow> u32 \<Rightarrow> u32 \<Rightarrow> u64 \<Rightarrow> kernel" where
  "kernel_init harbor module_path profile sec cs now =
     skynet_harbor_init harbor \<lparr>k_ctxs = (\<lambda>_. None), k_fresh = 0, k_mqs = mq_heap_empty,
       k_handles = skynet_handle_init harbor, k_timer = skynet_timer_init sec cs now,
       k_modules = skynet_module_init module_path, k_total = 0, k_monitor_exit = 0, k_profile = profile,
       k_harbor = NOT 0, k_remote = None, k_env = Map.empty, k_logger = 0,
       k_current_handle = - 1\<rparr>"

text \<open>The weight of a worker thread.\<close>

definition worker_weight :: "nat \<Rightarrow> int" where
  "worker_weight i =
     (if i < 4 then -1 else if i < 8 then 0 else if i < 16 then 1 else if i < 24 then 2
      else if i < 32 then 3 else 0)"

end
