(* ===== verification/KernelProps.thy ===== *)
theory KernelProps
  imports Server
begin

text \<open>
  Theorems on the kernel. The abstract state of a node is the partial map \<open>inbox\<close> from
  handles to the messages waiting for the service; the invariant \<open>kinv\<close> relates it to the
  heaps, the handle table and the reference counts.
\<close>

section \<open>Invariant and abstraction\<close>

definition mqs_ok :: "mq_heap \<Rightarrow> bool" where
  "mqs_ok h \<longleftrightarrow> (\<exists>xs. gq_inv h xs \<and> (\<forall>a \<in> set xs. \<forall>q. mh_queues h a = Some q \<longrightarrow> mq_in_global q \<or> mq_release q)) \<and>
     (\<forall>a q. mh_queues h a = Some q \<longrightarrow> mq_inv q)"

text \<open>A registered context is alive, referenced, and owns a live queue of its own.\<close>

definition ctx_ok :: "kernel \<Rightarrow> nat \<Rightarrow> bool" where
  "ctx_ok k a \<longleftrightarrow> (\<exists>c q. k_ctxs k a = Some c \<and> 1 \<le> cx_ref c \<and>
     mh_queues (k_mqs k) (cx_queue c) = Some q \<and> \<not> mq_release q)"

definition ctx_queue :: "kernel \<Rightarrow> nat \<Rightarrow> nat" where
  "ctx_queue k a = (case k_ctxs k a of None \<Rightarrow> 0 | Some c \<Rightarrow> cx_queue c)"

definition registered :: "kernel \<Rightarrow> nat set" where
  "registered k = {a. Some a \<in> set (hs_slot (k_handles k))}"

definition kinv :: "kernel \<Rightarrow> bool" where
  "kinv k \<longleftrightarrow> storage_inv (ctx_handle k) (k_handles k) \<and> mqs_ok (k_mqs k) \<and>
     (\<forall>a \<in> registered k. ctx_ok k a) \<and> inj_on (ctx_queue k) (registered k) \<and>
     (\<forall>a. k_fresh k \<le> a \<longrightarrow> k_ctxs k a = None)"

definition inbox :: "kernel \<Rightarrow> u32 \<rightharpoonup> skynet_message list" where
  "inbox k h = (case handle_lookup (ctx_handle k) (k_handles k) h of
      None \<Rightarrow> None
    | Some a \<Rightarrow> map_option mq_content (mh_queues (k_mqs k) (ctx_queue k a)))"

section \<open>Messages of one queue\<close>

text \<open>
  Replacing a queue by one with the same link and scheduling it if it was not scheduled, which
  is how \<open>skynet_mq_push\<close> and \<open>skynet_mq_mark_release\<close> end.
\<close>

lemma schedule_spec:
  assumes "mqs_ok h" "mh_queues h a = Some q" "\<not> mq_release q" "mq_inv q'" "mq_next q' = mq_next q"
    "mq_in_global q' \<or> mq_release q'"
  shows "\<exists>h'. (if mq_in_global q then Inr (mh_set a q' h) else skynet_globalmq_push (mh_set a q' h) a) = Inr h' \<and>
           mqs_ok h' \<and> mh_fresh h' = mh_fresh h \<and>
           (\<forall>b. map_option mq_content (mh_queues h' b) = map_option mq_content (((mh_queues h)(a \<mapsto> q')) b)) \<and>
           (\<forall>b. map_option mq_release (mh_queues h' b) = map_option mq_release (((mh_queues h)(a \<mapsto> q')) b))"
proof -
  obtain xs where xs: "gq_inv h xs" "\<forall>b \<in> set xs. \<forall>q. mh_queues h b = Some q \<longrightarrow> mq_in_global q \<or> mq_release q"
    and inv: "\<And>b q. mh_queues h b = Some q \<Longrightarrow> mq_inv q"
    using assms(1) by (auto simp: mqs_ok_def)
  let ?h = "mh_set a q' h"
  have g: "gq_inv ?h xs" using gq_inv_set [OF xs(1) assms(2)] assms(5) by simp
  show ?thesis
  proof (cases "mq_in_global q")
    case True
    have "mqs_ok ?h"
      unfolding mqs_ok_def using xs(2) inv assms(4,6) g by (intro conjI exI [of _ xs]) auto
    with True show ?thesis by simp
  next
    case False
    have "a \<notin> set xs" using xs(2) False assms(2,3) by auto
    then obtain h' where h': "skynet_globalmq_push ?h a = Inr h'" "gq_inv h' (xs @ [a])"
      "\<And>b. mh_core h' b = mh_core ?h b" "mh_fresh h' = mh_fresh ?h"
      using gq_push [OF g, of a q'] by auto
    have core: "\<exists>q2. mh_queues ?h b = Some q2 \<and> mq_content q1 = mq_content q2 \<and> mq_inv q1 = mq_inv q2 \<and>
        mq_in_global q1 = mq_in_global q2 \<and> mq_release q1 = mq_release q2"
      if "mh_queues h' b = Some q1" for b q1
      using mh_core_Some [OF h'(3) that] by metis
    have none: "mh_queues h' b = None \<longleftrightarrow> mh_queues ?h b = None" for b
      using h'(3) [of b] mh_core_None by metis
    have "mqs_ok h'"
      unfolding mqs_ok_def
    proof (intro conjI exI [of _ "xs @ [a]"] ballI allI impI)
      show "gq_inv h' (xs @ [a])" by (rule h'(2))
      show "mq_in_global q1 \<or> mq_release q1" if "b \<in> set (xs @ [a])" "mh_queues h' b = Some q1" for b q1
        using core [OF that(2)] that(1) xs(2) assms(6) by (auto split: if_splits)
      show "mq_inv q1" if "mh_queues h' b = Some q1" for b q1
        using core [OF that] assms(4) inv by (auto split: if_splits)
    qed
    moreover have "map_option mq_content (mh_queues h' b) = map_option mq_content (mh_queues ?h b)"
      "map_option mq_release (mh_queues h' b) = map_option mq_release (mh_queues ?h b)" for b
      using core [of b] none [of b] by (cases "mh_queues h' b"; auto)+
    ultimately show ?thesis using False h'(1,4) by (intro exI [of _ h']) simp
  qed
qed

text \<open>Pushing to a live queue appends to its content and disturbs no other queue.\<close>

lemma mq_push_spec:
  assumes "mqs_ok h" "mh_queues h a = Some q" "\<not> mq_release q"
  shows "\<exists>h'. skynet_mq_push a m h = Inr h' \<and> mqs_ok h' \<and> mh_fresh h' = mh_fresh h \<and>
           map_option mq_content (mh_queues h' a) = Some (mq_content q @ [m]) \<and>
           (\<forall>b. b \<noteq> a \<longrightarrow> map_option mq_content (mh_queues h' b) = map_option mq_content (mh_queues h b)) \<and>
           (\<forall>b. map_option mq_release (mh_queues h' b) = map_option mq_release (mh_queues h b))"
proof -
  let ?q = "(mq_store m q)\<lparr>mq_in_global := True\<rparr>"
  have "mq_inv q" using assms(1,2) by (auto simp: mqs_ok_def)
  note st = mq_store_content_inv [OF this, of m]
  have "skynet_mq_push a m h = (if mq_in_global q then Inr (mh_set a ?q h) else skynet_globalmq_push (mh_set a ?q h) a)"
  proof -
    have e: "?q = mq_store m q" if "mq_in_global q" using that by simp
    have "skynet_mq_push a m h = Inr (mh_set a ?q h)" if "mq_in_global q"
      unfolding e [OF that] using that assms(2) by (simp add: skynet_mq_push_def)
    then show ?thesis using assms(2) by (simp add: skynet_mq_push_def Let_def)
  qed
  moreover have "mq_inv ?q" "mq_next ?q = mq_next q" "mq_in_global ?q \<or> mq_release ?q" using st by simp_all
  ultimately obtain h' where "skynet_mq_push a m h = Inr h'" "mqs_ok h'" "mh_fresh h' = mh_fresh h"
      "\<And>b. map_option mq_content (mh_queues h' b) = map_option mq_content (((mh_queues h)(a \<mapsto> ?q)) b)"
      "\<And>b. map_option mq_release (mh_queues h' b) = map_option mq_release (((mh_queues h)(a \<mapsto> ?q)) b)"
    using schedule_spec [OF assms, of ?q] by auto
  with st assms(2) show ?thesis by (intro exI [of _ h']) simp
qed

lemma mq_mark_spec:
  assumes "mqs_ok h" "mh_queues h a = Some q" "\<not> mq_release q"
  shows "\<exists>h'. skynet_mq_mark_release a h = Inr h' \<and> mqs_ok h' \<and> mh_fresh h' = mh_fresh h \<and>
           (\<forall>b. map_option mq_content (mh_queues h' b) = map_option mq_content (mh_queues h b)) \<and>
           (\<forall>b. map_option mq_release (mh_queues h' b) =
              (if b = a then Some True else map_option mq_release (mh_queues h b)))"
proof -
  let ?q = "q\<lparr>mq_release := True\<rparr>"
  have "mq_inv ?q" using assms(1,2) by (auto simp: mqs_ok_def)
  then have "\<exists>h'. (if mq_in_global q then Inr (mh_set a ?q h) else skynet_globalmq_push (mh_set a ?q h) a) = Inr h' \<and>
           mqs_ok h' \<and> mh_fresh h' = mh_fresh h \<and>
           (\<forall>b. map_option mq_content (mh_queues h' b) = map_option mq_content (((mh_queues h)(a \<mapsto> ?q)) b)) \<and>
           (\<forall>b. map_option mq_release (mh_queues h' b) = map_option mq_release (((mh_queues h)(a \<mapsto> ?q)) b))"
    by (intro schedule_spec [OF assms]) simp_all
  moreover have "skynet_mq_mark_release a h =
      (if mq_in_global q then Inr (mh_set a ?q h) else skynet_globalmq_push (mh_set a ?q h) a)"
    using assms(2,3) by (simp add: skynet_mq_mark_release_def Let_def)
  ultimately obtain h' where "skynet_mq_mark_release a h = Inr h'" "mqs_ok h'" "mh_fresh h' = mh_fresh h"
      "\<And>b. map_option mq_content (mh_queues h' b) = map_option mq_content (((mh_queues h)(a \<mapsto> ?q)) b)"
      "\<And>b. map_option mq_release (mh_queues h' b) = map_option mq_release (((mh_queues h)(a \<mapsto> ?q)) b)"
    by auto
  with assms(2) show ?thesis by (intro exI [of _ h']) simp
qed

section \<open>Pushing\<close>

lemma registered_lookup:
  "kinv k \<Longrightarrow> handle_lookup (ctx_handle k) (k_handles k) h = Some a \<longleftrightarrow> ctx_handle k a = h \<and> a \<in> registered k"
  by (simp add: kinv_def lookup_slot registered_def)

lemma kinv_ctx_ok: "kinv k \<Longrightarrow> a \<in> registered k \<Longrightarrow> ctx_ok k a"
  by (simp add: kinv_def)

text \<open>The invariant depends on the queues only through their liveness.\<close>

lemma kinv_mqs:
  assumes "kinv k" "mqs_ok h" "\<And>b. map_option mq_release (mh_queues h b) = map_option mq_release (mh_queues (k_mqs k) b)"
  shows "kinv (k\<lparr>k_mqs := h\<rparr>)"
proof -
  have f: "ctx_handle (k\<lparr>k_mqs := h\<rparr>) = ctx_handle k" "registered (k\<lparr>k_mqs := h\<rparr>) = registered k"
    "ctx_queue (k\<lparr>k_mqs := h\<rparr>) = ctx_queue k"
    by (auto simp: ctx_handle_def registered_def ctx_queue_def fun_eq_iff)
  have "ctx_ok (k\<lparr>k_mqs := h\<rparr>) a" if ok: "ctx_ok k a" for a
  proof -
    from ok obtain c q where c: "k_ctxs k a = Some c" "1 \<le> cx_ref c"
      "mh_queues (k_mqs k) (cx_queue c) = Some q" "\<not> mq_release q" by (auto simp: ctx_ok_def)
    with assms(3) [of "cx_queue c"] show ?thesis by (auto simp: ctx_ok_def)
  qed
  with assms(1,2) show ?thesis unfolding kinv_def f by simp
qed

lemma upd_ctx_simps [simp]:
  "k_mqs (upd_ctx a f k) = k_mqs k" "k_handles (upd_ctx a f k) = k_handles k" "k_fresh (upd_ctx a f k) = k_fresh k"
  "k_modules (upd_ctx a f k) = k_modules k" "k_total (upd_ctx a f k) = k_total k"
  "k_ctxs (upd_ctx a f k) = (k_ctxs k)(a := map_option f (k_ctxs k a))"
  by (simp_all add: upd_ctx_def)

lemma upd_ctx_twice: "upd_ctx a f (upd_ctx a g k) = upd_ctx a (f \<circ> g) k"
  by (simp add: upd_ctx_def option.map_comp)

lemma upd_ctx_id: "(\<And>c. k_ctxs k a = Some c \<Longrightarrow> f c = c) \<Longrightarrow> upd_ctx a f k = k"
  by (cases "k_ctxs k a") (simp_all add: upd_ctx_def fun_upd_idem)

lemma push_registered:
  assumes "kinv k" "handle_lookup (ctx_handle k) (k_handles k) h = Some a"
    "k_ctxs k a = Some c" "skynet_mq_push (cx_queue c) m (k_mqs k) = Inr h'"
  shows "skynet_context_push sv h m k = Inr (0, k\<lparr>k_mqs := h'\<rparr>)"
proof -
  let ?k1 = "upd_ctx a (\<lambda>c. c\<lparr>cx_ref := cx_ref c + 1\<rparr>) k"
  have "a \<in> registered k" using assms(1,2) by (simp add: registered_lookup)
  then have ref: "1 \<le> cx_ref c" using kinv_ctx_ok [OF assms(1), of a] assms(3) by (auto simp: ctx_ok_def)
  have k1: "k_ctxs ?k1 a = Some (c\<lparr>cx_ref := cx_ref c + 1\<rparr>)" "k_mqs ?k1 = k_mqs k"
    using assms(3) by (simp_all add: upd_ctx_def)
  have "upd_ctx a (\<lambda>c. c\<lparr>cx_ref := cx_ref c - 1\<rparr>) (?k1\<lparr>k_mqs := h'\<rparr>) = k\<lparr>k_mqs := h'\<rparr>"
    using assms(3) by (simp add: upd_ctx_def fun_upd_idem)
  with assms k1 ref show ?thesis
    by (simp add: skynet_context_push_def skynet_handle_grab_def skynet_context_grab_def
        skynet_context_release_def Let_def)
qed

lemma push_spec:
  assumes "kinv k"
  shows "case inbox k h of
           None \<Rightarrow> skynet_context_push sv h m k = Inr (-1, k)
         | Some ms \<Rightarrow> \<exists>h'. skynet_context_push sv h m k = Inr (0, k\<lparr>k_mqs := h'\<rparr>) \<and> kinv (k\<lparr>k_mqs := h'\<rparr>) \<and>
             inbox (k\<lparr>k_mqs := h'\<rparr>) = (inbox k)(h \<mapsto> ms @ [m])"
proof (cases "handle_lookup (ctx_handle k) (k_handles k) h")
  case None
  then show ?thesis
    by (simp add: inbox_def skynet_context_push_def skynet_handle_grab_def)
next
  case (Some a)
  then have reg: "ctx_handle k a = h" "a \<in> registered k" using assms by (simp_all add: registered_lookup)
  from kinv_ctx_ok [OF assms reg(2)] obtain c q where c: "k_ctxs k a = Some c"
    "mh_queues (k_mqs k) (cx_queue c) = Some q" "\<not> mq_release q" by (auto simp: ctx_ok_def)
  have qa: "ctx_queue k a = cx_queue c" using c(1) by (simp add: ctx_queue_def)
  obtain h' where h': "skynet_mq_push (cx_queue c) m (k_mqs k) = Inr h'" "mqs_ok h'"
    "map_option mq_content (mh_queues h' (cx_queue c)) = Some (mq_content q @ [m])"
    "\<And>b. b \<noteq> cx_queue c \<Longrightarrow> map_option mq_content (mh_queues h' b) = map_option mq_content (mh_queues (k_mqs k) b)"
    "\<And>b. map_option mq_release (mh_queues h' b) = map_option mq_release (mh_queues (k_mqs k) b)"
    using mq_push_spec [of "k_mqs k" "cx_queue c" q m] assms c(2,3) by (auto simp: kinv_def)
  have inv: "kinv (k\<lparr>k_mqs := h'\<rparr>)" using kinv_mqs [OF assms h'(2) h'(5)] .
  have f: "ctx_handle (k\<lparr>k_mqs := h'\<rparr>) = ctx_handle k" "ctx_queue (k\<lparr>k_mqs := h'\<rparr>) = ctx_queue k"
    by (auto simp: ctx_handle_def ctx_queue_def fun_eq_iff)
  have "inbox (k\<lparr>k_mqs := h'\<rparr>) x = ((inbox k)(h \<mapsto> mq_content q @ [m])) x" for x
  proof (cases "handle_lookup (ctx_handle k) (k_handles k) x")
    case (Some b)
    have b: "ctx_handle k b = x" "b \<in> registered k" using Some assms by (simp_all add: registered_lookup)
    have inj: "ctx_queue k b = ctx_queue k a \<Longrightarrow> b = a"
      using assms b(2) reg(2) by (auto simp: kinv_def inj_on_def)
    show ?thesis
    proof (cases "b = a")
      case True
      then show ?thesis using Some b(1) reg(1) h'(3) qa by (simp add: inbox_def f)
    next
      case False
      then have "ctx_queue k b \<noteq> cx_queue c" using inj qa by auto
      moreover have "x \<noteq> h"
        using False Some \<open>handle_lookup (ctx_handle k) (k_handles k) h = Some a\<close> by auto
      ultimately show ?thesis using Some h'(4) by (simp add: inbox_def f)
    qed
  qed (use Some in \<open>auto simp: inbox_def f\<close>)
  moreover have "inbox k h = Some (mq_content q)" using Some c(2) qa by (simp add: inbox_def)
  ultimately show ?thesis
    using push_registered [OF assms Some c(1) h'(1)] inv by (auto intro!: exI [of _ h'])
qed

section \<open>Sending\<close>

lemma kinv_frame:
  assumes "k_ctxs k' = k_ctxs k" "k_fresh k' = k_fresh k" "k_mqs k' = k_mqs k" "k_handles k' = k_handles k"
  shows "kinv k' = kinv k" "inbox k' = inbox k"
proof -
  have "ctx_handle k' = ctx_handle k" "ctx_queue k' = ctx_queue k" "registered k' = registered k" "ctx_ok k' = ctx_ok k"
    using assms by (auto simp: ctx_handle_def ctx_queue_def registered_def ctx_ok_def fun_eq_iff)
  then show "kinv k' = kinv k" "inbox k' = inbox k"
    using assms unfolding kinv_def by (simp, intro ext, simp add: inbox_def cong: option.case_cong)
qed

lemma kinv_upd_ctx:
  assumes "\<And>c. cx_handle (f c) = cx_handle c \<and> cx_queue (f c) = cx_queue c \<and> cx_ref (f c) = cx_ref c"
  shows "kinv (upd_ctx a f k) = kinv k" "inbox (upd_ctx a f k) = inbox k"
proof -
  have e: "ctx_handle (upd_ctx a f k) = ctx_handle k" "ctx_queue (upd_ctx a f k) = ctx_queue k"
    "registered (upd_ctx a f k) = registered k"
    using assms by (auto simp: ctx_handle_def ctx_queue_def registered_def upd_ctx_def fun_eq_iff split: option.splits)
  have ok: "ctx_ok (upd_ctx a f k) b = ctx_ok k b" for b
    using assms by (cases "b = a"; cases "k_ctxs k b") (auto simp: ctx_ok_def upd_ctx_def)
  have "(\<forall>b \<ge> k_fresh k. k_ctxs (upd_ctx a f k) b = None) \<longleftrightarrow> (\<forall>b \<ge> k_fresh k. k_ctxs k b = None)"
    by (auto simp: upd_ctx_def split: if_splits)
  then show "kinv (upd_ctx a f k) = kinv k" unfolding kinv_def e ok by (simp add: upd_ctx_def)
  show "inbox (upd_ctx a f k) = inbox k"
    unfolding inbox_def [abs_def] e by (simp cong: option.case_cong)
qed

text \<open>Reporting an error reaches the inbox of the logger and nothing else.\<close>

lemma error_spec:
  assumes "kinv k"
  shows "\<exists>k'. skynet_error sv ctx text k = Inr k' \<and> kinv k' \<and> k_ctxs k' = k_ctxs k \<and>
           k_handles k' = k_handles k \<and> k_monitor_exit k' = k_monitor_exit k \<and>
           (\<forall>h. h \<noteq> k_logger k' \<longrightarrow> inbox k' h = inbox k h)"
proof -
  let ?k = "if k_logger k = 0 then k\<lparr>k_logger := skynet_handle_findname ''logger'' (k_handles k)\<rparr> else k"
  have fr: "kinv ?k" "inbox ?k = inbox k" "k_ctxs ?k = k_ctxs k" "k_handles ?k = k_handles k"
    "k_monitor_exit ?k = k_monitor_exit k"
    using assms kinv_frame [of ?k k] by auto
  show ?thesis
  proof (cases "k_logger ?k = 0")
    case True
    then have "skynet_error sv ctx text k = Inr ?k" by (simp add: skynet_error_def Let_def)
    with fr show ?thesis by auto
  next
    case False
    let ?m = "\<lparr>msg_source = (case ctx of None \<Rightarrow> 0 | Some a \<Rightarrow> ctx_handle ?k a), msg_session = 0,
        msg_data = Some (Block (string_bytes text @ [0])),
        msg_sz = of_nat (length text) OR push_bit MESSAGE_TYPE_SHIFT (of_int PTYPE_TEXT)\<rparr>"
    have e: "skynet_error sv ctx text k = res_bind (skynet_context_push sv (k_logger ?k) ?m ?k) (\<lambda>(_, k). Inr k)"
      using False unfolding skynet_error_def Let_def by simp
    show ?thesis
    proof (cases "inbox ?k (k_logger ?k)")
      case None
      then have "skynet_error sv ctx text k = Inr ?k"
        using push_spec [OF fr(1), where h = "k_logger ?k" and sv = sv and m = ?m] unfolding e by simp
      with fr show ?thesis by auto
    next
      case (Some ms)
      then obtain h' where h': "skynet_context_push sv (k_logger ?k) ?m ?k = Inr (0, ?k\<lparr>k_mqs := h'\<rparr>)"
        "kinv (?k\<lparr>k_mqs := h'\<rparr>)" "inbox (?k\<lparr>k_mqs := h'\<rparr>) = (inbox ?k)(k_logger ?k \<mapsto> ms @ [?m])"
        using push_spec [OF fr(1), where h = "k_logger ?k" and sv = sv and m = ?m] by auto
      have "skynet_error sv ctx text k = Inr (?k\<lparr>k_mqs := h'\<rparr>)" unfolding e h'(1) by simp
      with h'(2,3) fr show ?thesis
        by (intro exI [of _ "?k\<lparr>k_mqs := h'\<rparr>"]) (simp del: fun_upd_apply add: fun_upd_other)
    qed
  qed
qed

lemma type_bits:
  assumes "0 \<le> type" "type < 256"
  shows "type AND PTYPE_TAG_DONTCOPY = 0" "type AND PTYPE_TAG_ALLOCSESSION = 0" "type AND 0xff = type"
proof -
  have t: "take_bit 8 type = type" using assms by (simp add: take_bit_int_eq_self)
  have m: "(0xff :: int) = Bit_Operations.mask 8" by (simp add: mask_eq_exp_minus_1)
  show "type AND 0xff = type" unfolding m take_bit_eq_mask [symmetric] by (rule t)
  have "take_bit 8 type AND 0x10000 = 0" "take_bit 8 type AND 0x20000 = 0"
    by (simp_all add: take_bit_eq_mask mask_eq_exp_minus_1 and.assoc)
  then show "type AND PTYPE_TAG_DONTCOPY = 0" "type AND PTYPE_TAG_ALLOCSESSION = 0"
    unfolding t by (simp_all add: PTYPE_TAG_DONTCOPY_def PTYPE_TAG_ALLOCSESSION_def)
qed

text \<open>The type in the high byte of the size and the size itself can be read back.\<close>

lemma type_size_roundtrip:
  assumes "0 \<le> type" "type < 256" "n < 2 ^ 56"
  defines "w \<equiv> of_nat n OR push_bit MESSAGE_TYPE_SHIFT (of_int type) :: u64"
  shows "uint (drop_bit MESSAGE_TYPE_SHIFT w) = type" "w AND MESSAGE_TYPE_MASK = of_nat n"
    "(of_nat n :: u64) AND MESSAGE_TYPE_MASK = of_nat n"
proof -
  have m: "MESSAGE_TYPE_MASK = Bit_Operations.mask 56"
    by (simp add: MESSAGE_TYPE_MASK_def mask_eq_exp_minus_1)
  have n: "take_bit 56 (of_nat n :: u64) = of_nat n"
    using assms(3) by (simp add: word_unat_eq_iff unsigned_take_bit_eq unsigned_of_nat take_bit_nat_eq_self)
  then have hi: "\<not> bit (of_nat n :: u64) i" if "56 \<le> i" for i
    using that by (metis bit_take_bit_iff not_le)
  show "(of_nat n :: u64) AND MESSAGE_TYPE_MASK = of_nat n"
    unfolding m take_bit_eq_mask [symmetric] by (rule n)
  then have "bit w i \<and> i < 56 \<longleftrightarrow> bit (of_nat n :: u64) i" for i
    using hi [of i] by (cases "i < 56") (auto simp: w_def bit_or_iff bit_push_bit_iff MESSAGE_TYPE_SHIFT_def)
  then show "w AND MESSAGE_TYPE_MASK = of_nat n"
    unfolding m take_bit_eq_mask [symmetric] by (intro bit_word_eqI) (auto simp: bit_take_bit_iff)
  have "drop_bit 56 (of_nat n :: u64) = 0" by (rule bit_word_eqI) (simp add: bit_drop_bit_eq hi)
  then have "drop_bit MESSAGE_TYPE_SHIFT w = drop_bit 56 (push_bit 56 (of_int type :: u64))"
    by (simp add: w_def MESSAGE_TYPE_SHIFT_def)
  also have "\<dots> = take_bit 8 (of_int type)"
    by (rule bit_word_eqI) (auto simp: bit_simps)
  finally show "uint (drop_bit MESSAGE_TYPE_SHIFT w) = type"
    using assms(1,2) by (simp add: unsigned_take_bit_eq unsigned_of_int take_bit_int_eq_self)
qed


section \<open>Sessions\<close>

lemma sint_Suc: "sint (x + 1) = (if sint x = 2 ^ 31 - 1 then - (2 ^ 31) else sint x + 1)" for x :: c_int
proof -
  have b: "- (2 ^ 31) \<le> sint x" "sint x < 2 ^ 31" using sint_greater_eq [of x] sint_less [of x] by simp_all
  have "sint (x + 1) = signed_take_bit 31 (sint x + 1)" by (simp add: sint_word_ariths)
  also have "\<dots> = (if sint x = 2 ^ 31 - 1 then - (2 ^ 31) else sint x + 1)"
  proof (cases "sint x = 2 ^ 31 - 1")
    case False
    with b have "signed_take_bit 31 (sint x + 1) = sint x + 1" by (intro signed_take_bit_int_eq_self) simp_all
    with False show ?thesis by simp
  qed simp
  finally show ?thesis .
qed

text \<open>
  A session number is positive; the numbers a context hands out count up by one and start
  again at one behind the largest signed 32-bit number.
\<close>

theorem session_positive:
  assumes "k_ctxs k a = Some c"
  shows "\<exists>s k'. skynet_context_newsession a k = Inr (s, k') \<and> 0 < s \<and> s < 2 ^ 31 \<and>
           s = (if sint (cx_session_id c) < 0 \<or> sint (cx_session_id c) = 2 ^ 31 - 1 then 1
                else sint (cx_session_id c) + 1) \<and>
           k_ctxs k' = (k_ctxs k)(a \<mapsto> c\<lparr>cx_session_id := of_int s\<rparr>)"
proof -
  let ?x = "cx_session_id c"
  have w: "word_of_int (sint ?x + 1) = ?x + 1" by simp
  consider "sint ?x < 0 \<or> sint ?x = 2 ^ 31 - 1" | "0 \<le> sint ?x" "sint ?x < 2 ^ 31 - 1"
    using sint_less [of ?x] by force
  then show ?thesis
    by cases (use assms w in \<open>auto simp: skynet_context_newsession_def Let_def sint_Suc upd_ctx_def\<close>)
qed

section \<open>The monitor\<close>

lemma trigger_version: "sm_version ((skynet_monitor_trigger s d ^^ n) sm) = sm_version sm + of_nat n"
  and trigger_check: "sm_check_version ((skynet_monitor_trigger s d ^^ n) sm) = sm_check_version sm"
  by (induction n) (simp_all add: skynet_monitor_trigger_def)

text \<open>
  The watchdog raises no false alarm and misses no hang: after a check, a worker that has
  started or finished a message since then (fewer than \<open>2^32\<close> times) passes the next check
  without any effect on the kernel; one that is still inside the same message gets the
  destination marked as endless and a report sent.
\<close>

theorem monitor_detects_hang:
  assumes "kinv k" "sm_version sm = sm_check_version sm"
  shows "(0 < n \<and> n < 2 ^ 32 \<longrightarrow>
            (\<exists>sm'. skynet_monitor_check sv ((skynet_monitor_trigger s d ^^ n) sm) k = Inr (sm', k) \<and>
                  sm_version sm' = sm_check_version sm')) \<and>
         (\<forall>a. sm_destination sm \<noteq> 0 \<and> handle_lookup (ctx_handle k) (k_handles k) (sm_destination sm) = Some a \<longrightarrow>
            (\<exists>k' c. skynet_monitor_check sv sm k = Inr (sm, k') \<and> k_ctxs k' a = Some c \<and> cx_endless c))"
proof -
  have one: "\<exists>sm'. skynet_monitor_check sv ((skynet_monitor_trigger s d ^^ n) sm) k = Inr (sm', k) \<and>
      sm_version sm' = sm_check_version sm'" if "0 < n" "n < 2 ^ 32"
  proof -
    have "(of_nat n :: c_int) \<noteq> 0" using that u32_add_inj [of n 0 0] by simp
    then show ?thesis using assms(2) by (simp add: skynet_monitor_check_def trigger_version trigger_check)
  qed
  have two: "\<exists>k' c. skynet_monitor_check sv sm k = Inr (sm, k') \<and> k_ctxs k' a = Some c \<and> cx_endless c"
    if dst: "sm_destination sm \<noteq> 0" "handle_lookup (ctx_handle k) (k_handles k) (sm_destination sm) = Some a" for a
  proof -
    have "a \<in> registered k" using dst(2) assms(1) by (simp add: registered_lookup)
    then obtain c where c: "k_ctxs k a = Some c" "1 \<le> cx_ref c"
      using kinv_ctx_ok [OF assms(1), of a] by (auto simp: ctx_ok_def)
    let ?k = "upd_ctx a (\<lambda>c. c\<lparr>cx_endless := True\<rparr>) k"
    have "skynet_context_endless sv (sm_destination sm) k = Inr ?k"
      using c dst(2)
      by (simp add: skynet_context_endless_def skynet_handle_grab_def skynet_context_grab_def
          skynet_context_release_def upd_ctx_def Let_def)
    moreover have "kinv ?k" using assms(1) by (subst kinv_upd_ctx) simp_all
    moreover from this obtain k' where "skynet_error sv None (''A message from [ :'' @ fmt_08x (sm_source sm) @ '' ] to [ :'' @
              fmt_08x (sm_destination sm) @ '' ] maybe in an endless loop (version = '' @
              fmt_d (sint (sm_version sm)) @ '')'') ?k = Inr k'" "k_ctxs k' = k_ctxs ?k"
      using error_spec by blast
    ultimately have "skynet_monitor_check sv sm k = Inr (sm, k')" "k_ctxs k' a = Some (c\<lparr>cx_endless := True\<rparr>)"
      using assms(2) dst(1) c(1) unfolding skynet_monitor_check_def by (simp_all add: upd_ctx_def)
    then show ?thesis by auto
  qed
  from one two show ?thesis by blast
qed

section \<open>Launching and retiring\<close>

lemma storage_cong:
  assumes "\<And>c. Some c \<in> set (hs_slot s) \<Longrightarrow> hof c = hof' c" "storage_inv hof s"
  shows "storage_inv hof' s" "handle_lookup hof' s = handle_lookup hof s"
proof -
  obtain n where n: "n \<le> 24" "length (hs_slot s) = 2 ^ n"
    using assms(2) by (auto simp: storage_inv_def slots_inv_def)
  have eq: "hof' c = hof c" if "i < length (hs_slot s)" "hs_slot s ! i = Some c" for i c
    using assms(1) that by (metis nth_mem)
  show "storage_inv hof' s"
    using assms(2) eq unfolding storage_inv_def slots_inv_def by auto
  have "slot_hash (length (hs_slot s)) h < length (hs_slot s)" for h
    using slot_hash_less [of n h] n by simp
  then show "handle_lookup hof' s = handle_lookup hof s"
    using eq by (intro ext) (auto simp: handle_lookup_def split: option.splits, metis)
qed

lemma registered_iff:
  "storage_inv (ctx_handle k) (k_handles k) \<Longrightarrow>
   a \<in> registered k \<longleftrightarrow> handle_lookup (ctx_handle k) (k_handles k) (ctx_handle k a) = Some a"
  by (simp add: registered_def lookup_slot)

lemma fresh_queue:
  assumes "mqs_ok h" "skynet_mq_create handle h = (q, h')"
  shows "mqs_ok h'" "mh_queues h q = None" "mh_queues h' = (mh_queues h)(q \<mapsto> mq_new handle)"
proof -
  obtain xs where xs: "gq_inv h xs" "\<forall>b \<in> set xs. \<forall>q. mh_queues h b = Some q \<longrightarrow> mq_in_global q \<or> mq_release q"
    using assms(1) by (auto simp: mqs_ok_def)
  note cr = gq_inv_create [OF xs(1) assms(2)]
  then show "mh_queues h q = None" "mh_queues h' = (mh_queues h)(q \<mapsto> mq_new handle)" by blast+
  have "q \<notin> set xs" using cr gq_inv_live [OF xs(1), of q] by auto
  with cr xs(2) have "gq_inv h' xs \<and> (\<forall>b \<in> set xs. \<forall>q. mh_queues h' b = Some q \<longrightarrow> mq_in_global q \<or> mq_release q)"
    by auto
  then show "mqs_ok h'" using cr assms(1) mq_inv_new unfolding mqs_ok_def by (auto split: if_splits)
qed

lemma launch_spec:
  assumes "kinv k" "length (hs_slot (k_handles k)) < 2 ^ 24 \<or> None \<in> set (hs_slot (k_handles k))"
  shows "\<exists>a h k'. context_alloc m inst k = Some (Inr (a, k')) \<and> kinv k' \<and>
           inbox k h = None \<and> inbox k' = (inbox k)(h \<mapsto> []) \<and> ctx_handle k' a = h \<and>
           h AND NOT HANDLE_MASK = hs_harbor (k_handles k) \<and> k_total k' = k_total k + 1 \<and>
           (\<forall>b. b \<noteq> a \<longrightarrow> k_ctxs k' b = k_ctxs k b) \<and> k_harbor k' = k_harbor k \<and>
           handle_lookup (ctx_handle k') (k_handles k') h = Some a \<and>
           hs_name (k_handles k') = hs_name (k_handles k) \<and> hs_name_count (k_handles k') = hs_name_count (k_handles k)"
proof -
  let ?a = "k_fresh k" and ?hof = "ctx_handle k" and ?s = "k_handles k"
  let ?k1 = "k\<lparr>k_ctxs := (k_ctxs k)(?a \<mapsto> new_context inst m (k_profile k)), k_fresh := Suc ?a\<rparr>"
  have dead: "k_ctxs k ?a = None" and st: "storage_inv ?hof ?s" and mq: "mqs_ok (k_mqs k)"
    using assms(1) by (auto simp: kinv_def)
  have nr: "?a \<notin> registered k"
    using kinv_ctx_ok [OF assms(1), of ?a] dead by (auto simp: ctx_ok_def)
  have hof1: "ctx_handle ?k1 = ?hof"
    using dead by (auto simp: ctx_handle_def new_context_def fun_eq_iff)
  obtain s' h where reg: "skynet_handle_register ?hof ?a ?s = Some (Inr (s', h))"
    "h AND NOT HANDLE_MASK = hs_harbor ?s" "handle_lookup ?hof ?s h = None"
    "slots_inv (?hof(?a := h)) s'" "handle_lookup (?hof(?a := h)) s' = (handle_lookup ?hof ?s)(h \<mapsto> ?a)"
    "hs_name s' = hs_name ?s" "hs_name_count s' = hs_name_count ?s"
    using handle_register_spec [of ?hof ?s ?a] st nr assms(2) by (auto simp: storage_inv_def registered_def)
  obtain q hq where cq: "skynet_mq_create h (k_mqs k) = (q, hq)" by force
  note fq = fresh_queue [OF mq cq]
  let ?c = "(new_context inst m (k_profile k))\<lparr>cx_handle := h, cx_queue := q\<rparr>"
  let ?k' = "k\<lparr>k_ctxs := (k_ctxs k)(?a \<mapsto> ?c), k_fresh := Suc ?a, k_mqs := hq, k_handles := s',
     k_total := k_total k + 1\<rparr>"
  have run: "context_alloc m inst k = Some (Inr (?a, ?k'))"
    using reg(1) hof1 cq by (simp add: context_alloc_def Let_def upd_ctx_def)
  have hof': "ctx_handle ?k' = ?hof(?a := h)" by (auto simp: ctx_handle_def fun_eq_iff)
  have st': "storage_inv (?hof(?a := h)) s'"
    using reg(4,6,7) st by (auto simp: storage_inv_def names_inv_def hs_names_def)
  have regs: "registered ?k' = insert ?a (registered k)"
  proof -
    have "b \<in> registered ?k' \<longleftrightarrow> b = ?a \<or> b \<in> registered k" for b
      using registered_iff [of ?k' b] registered_iff [OF st, of b] st' reg(3,5) by (auto simp: hof')
    then show ?thesis by auto
  qed
  have cq': "ctx_queue ?k' = (ctx_queue k)(?a := q)" by (auto simp: ctx_queue_def fun_eq_iff)
  have other: "ctx_queue k b \<noteq> q" if "b \<in> registered k" for b
    using kinv_ctx_ok [OF assms(1) that] fq(2) by (auto simp: ctx_ok_def ctx_queue_def)
  have ok: "ctx_ok ?k' b" if "b \<in> registered ?k'" for b
  proof (cases "b = ?a")
    case True
    then show ?thesis using fq(3) by (simp add: ctx_ok_def new_context_def mq_new_def)
  next
    case False
    with that regs have b: "b \<in> registered k" by simp
    with kinv_ctx_ok [OF assms(1) this] other [OF this] False fq(3) show ?thesis
      by (auto simp: ctx_ok_def ctx_queue_def)
  qed
  have inv: "kinv ?k'"
    unfolding kinv_def
  proof (intro conjI ballI)
    show "storage_inv (ctx_handle ?k') (k_handles ?k')" using st' by (simp add: hof')
    show "mqs_ok (k_mqs ?k')" using fq(1) by simp
    show "ctx_ok ?k' b" if "b \<in> registered ?k'" for b by (rule ok [OF that])
    show "inj_on (ctx_queue ?k') (registered ?k')"
      unfolding regs cq' using assms(1) other nr by (auto simp: inj_on_def kinv_def)
    show "\<forall>b. k_fresh ?k' \<le> b \<longrightarrow> k_ctxs ?k' b = None" using assms(1) by (simp add: kinv_def)
  qed
  have "inbox ?k' x = ((inbox k)(h \<mapsto> [])) x" for x
  proof (cases "x = h")
    case True
    then show ?thesis using fq(3) mq_content_new by (simp add: inbox_def hof' reg(5) cq')
  next
    case False
    show ?thesis
    proof (cases "handle_lookup ?hof ?s x")
      case (Some b)
      then have "b \<in> registered k" using assms(1) by (simp add: registered_lookup)
      with other nr False fq(3) Some show ?thesis by (auto simp: inbox_def hof' reg(5) cq')
    qed (use False in \<open>simp add: inbox_def hof' reg(5)\<close>)
  qed
  then have "inbox ?k' = (inbox k)(h \<mapsto> [])" by blast
  moreover have "inbox k h = None" using reg(3) by (simp add: inbox_def)
  moreover have "ctx_handle ?k' ?a = h" by (simp add: hof')
  ultimately show ?thesis using run inv reg(2,6,7)
    by (intro exI [of _ ?a] exI [of _ h] exI [of _ ?k']) (simp add: hof' reg(5))
qed

text \<open>
  Launching a service gives it a handle of this node that no service has, and an empty
  inbox; every other service keeps its handle, its context and its inbox, and the count of
  contexts grows by one.
\<close>

theorem launch_registers:
  assumes "kinv k" "length (hs_slot (k_handles k)) < 2 ^ 24 \<or> None \<in> set (hs_slot (k_handles k))"
  shows "\<exists>a h k'. context_alloc m inst k = Some (Inr (a, k')) \<and> kinv k' \<and>
           inbox k h = None \<and> inbox k' = (inbox k)(h \<mapsto> []) \<and> ctx_handle k' a = h \<and>
           h AND NOT HANDLE_MASK = hs_harbor (k_handles k) \<and> k_total k' = k_total k + 1 \<and>
           (\<forall>b. b \<noteq> a \<longrightarrow> k_ctxs k' b = k_ctxs k b)"
  using launch_spec [OF assms, of m inst] by blast

text \<open>Release functions that only free what their instance owns.\<close>

definition quiet_release :: "services \<Rightarrow> bool" where
  "quiet_release sv \<longleftrightarrow> (\<forall>f i k. sv_release sv f i k = Inr k)"

text \<open>Dropping the last reference of a context: it is freed, its queue is marked and scheduled.\<close>

lemma release_last:
  assumes "quiet_release sv" "mqs_ok (k_mqs k)" "k_ctxs k a = Some c" "cx_ref c = 1"
    "mh_queues (k_mqs k) (cx_queue c) = Some q" "\<not> mq_release q"
  shows "\<exists>h'. skynet_context_release sv a k =
      Inr (None, k\<lparr>k_ctxs := (k_ctxs k)(a := None), k_mqs := h', k_total := k_total k - 1\<rparr>) \<and> mqs_ok h' \<and>
      (\<forall>b. map_option mq_content (mh_queues h' b) = map_option mq_content (mh_queues (k_mqs k) b)) \<and>
      (\<forall>b. map_option mq_release (mh_queues h' b) =
         (if b = cx_queue c then Some True else map_option mq_release (mh_queues (k_mqs k) b)))"
proof -
  obtain h' where h': "skynet_mq_mark_release (cx_queue c) (k_mqs k) = Inr h'" "mqs_ok h'"
      "\<forall>b. map_option mq_content (mh_queues h' b) = map_option mq_content (mh_queues (k_mqs k) b)"
      "\<forall>b. map_option mq_release (mh_queues h' b) =
         (if b = cx_queue c then Some True else map_option mq_release (mh_queues (k_mqs k) b))"
    using mq_mark_spec [OF assms(2,5,6)] by auto
  have "skynet_module_instance_release sv m i k0 = Inr k0" for m i k0
    using assms(1) by (simp add: skynet_module_instance_release_def quiet_release_def split: option.splits)
  with h' assms(3,4) show ?thesis
    by (intro exI [of _ h'])
      (simp add: skynet_context_release_def delete_context_def Let_def upd_ctx_def)
qed

lemma retire_storage:
  assumes "kinv k" "handle_lookup (ctx_handle k) (k_handles k) h = Some a"
  defines "s \<equiv> snd (handle_retire (ctx_handle k) h (k_handles k))"
  shows "handle_retire (ctx_handle k) h (k_handles k) = (Some a, s)"
    and "handle_lookup (ctx_handle k) s = (handle_lookup (ctx_handle k) (k_handles k))(h := None)"
    and "storage_inv (ctx_handle k) s"
    and "Some b \<in> set (hs_slot s) \<longleftrightarrow> b \<noteq> a \<and> b \<in> registered k"
proof -
  let ?hof = "ctx_handle k"
  have st: "storage_inv ?hof (k_handles k)" using assms(1) by (auto simp: kinv_def)
  show "handle_retire ?hof h (k_handles k) = (Some a, s)"
    using handle_retire_spec [of ?hof "k_handles k" h] st assms(2)
    by (auto simp: storage_inv_def names_inv_def prod_eq_iff s_def)
  show look: "handle_lookup ?hof s = (handle_lookup ?hof (k_handles k))(h := None)" and st': "storage_inv ?hof s"
    using registry.look_del [OF st, of h] registry.invar_del [OF st, of h] by (simp_all add: s_def)
  have "?hof a = h" using assms(1,2) by (simp add: registered_lookup)
  then show "Some b \<in> set (hs_slot s) \<longleftrightarrow> b \<noteq> a \<and> b \<in> registered k"
    using lookup_slot [OF st', of "?hof b" b] registered_iff [OF st, of b] look assms(2) by (auto split: if_splits)
qed

text \<open>Whatever the release did to the context and to its queue, the node without the handle is well formed
  and the other services keep their messages.\<close>

lemma kinv_retired:
  assumes k: "kinv k" "handle_lookup (ctx_handle k) (k_handles k) h = Some a" "k_ctxs k a = Some c"
    and k': "k_handles k' = snd (handle_retire (ctx_handle k) h (k_handles k))" "mqs_ok (k_mqs k')" "k_fresh k' = k_fresh k"
      "k_ctxs k' = (k_ctxs k)(a := oc)"
      "\<And>b. map_option mq_content (mh_queues (k_mqs k') b) = map_option mq_content (mh_queues (k_mqs k) b)"
      "\<And>b. b \<noteq> cx_queue c \<Longrightarrow> map_option mq_release (mh_queues (k_mqs k') b) = map_option mq_release (mh_queues (k_mqs k) b)"
  shows "kinv k'" "inbox k' = (inbox k)(h := None)"
proof -
  let ?hof = "ctx_handle k" and ?s = "snd (handle_retire (ctx_handle k) h (k_handles k))"
  note look = retire_storage(2) [OF k(1,2)] and st' = retire_storage(3) [OF k(1,2)] and keep = retire_storage(4) [OF k(1,2)]
  have a: "?hof a = h" "a \<in> registered k" using k(1,2) by (simp_all add: registered_lookup)
  have hof': "ctx_handle k' b = ?hof b" "ctx_queue k' b = ctx_queue k b" if "b \<noteq> a" for b
    using that k'(4) by (simp_all add: ctx_handle_def ctx_queue_def)
  have regs: "registered k' = registered k - {a}" using keep k'(1) by (auto simp: registered_def)
  have sc: "storage_inv (ctx_handle k') ?s" "handle_lookup (ctx_handle k') ?s = handle_lookup ?hof ?s"
    using storage_cong [of ?s ?hof "ctx_handle k'"] keep hof' st' by auto
  have "ctx_ok k' b" if "b \<in> registered k'" for b
  proof -
    from that regs have b: "b \<in> registered k" "b \<noteq> a" by auto
    from kinv_ctx_ok [OF k(1) b(1)] obtain d r where d: "k_ctxs k b = Some d" "1 \<le> cx_ref d"
      "mh_queues (k_mqs k) (cx_queue d) = Some r" "\<not> mq_release r" by (auto simp: ctx_ok_def)
    moreover have "cx_queue d \<noteq> cx_queue c"
      using k(1,3) b a(2) d(1) by (auto simp: kinv_def inj_on_def ctx_queue_def)
    ultimately show ?thesis using b(2) k'(4) k'(6) [of "cx_queue d"] by (auto simp: ctx_ok_def)
  qed
  moreover have "inj_on (ctx_queue k') (registered k')"
    using k(1) hof' unfolding regs by (auto simp: kinv_def inj_on_def)
  moreover have "\<forall>b. k_fresh k' \<le> b \<longrightarrow> k_ctxs k' b = None" using k(1,3) k'(3,4) by (auto simp: kinv_def)
  ultimately show "kinv k'" using sc(1) k'(1,2) by (simp add: kinv_def)
  have "inbox k' x = ((inbox k)(h := None)) x" for x
  proof (cases "handle_lookup ?hof ?s x")
    case None
    then show ?thesis using sc(2) k'(1) look by (auto simp: inbox_def split: if_splits)
  next
    case (Some b)
    then have "b \<noteq> a" "x \<noteq> h" using look a(1) lookup_slot [OF st', of x b] keep by (auto split: if_splits)
    with Some look sc(2) k'(1,5) hof'(2) show ?thesis by (simp add: inbox_def)
  qed
  then show "inbox k' = (inbox k)(h := None)" by blast
qed

text \<open>
  C15: retiring a service removes it from the directory at once: its handle has no inbox any
  more, no other service is touched. If nobody else holds a reference, the context is freed
  and its queue survives, marked for release, with every message that was waiting, so that
  the dispatcher can answer the senders; otherwise only the reference is dropped.
\<close>

theorem retire_service:
  assumes "kinv k" "quiet_release sv" "handle_lookup (ctx_handle k) (k_handles k) h = Some a" "k_ctxs k a = Some c"
  shows "\<exists>k'. skynet_handle_retire sv h k = Inr (1, k') \<and> kinv k' \<and> inbox k' = (inbox k)(h := None) \<and>
           (if cx_ref c = 1
            then k_ctxs k' a = None \<and> k_total k' = k_total k - 1 \<and>
                 (\<exists>q. mh_queues (k_mqs k') (cx_queue c) = Some q \<and> mq_release q \<and> Some (mq_content q) = inbox k h)
            else k_ctxs k' a = Some (c\<lparr>cx_ref := cx_ref c - 1\<rparr>))"
proof -
  let ?s = "snd (handle_retire (ctx_handle k) h (k_handles k))"
  let ?k = "k\<lparr>k_handles := ?s\<rparr>"
  have mq: "mqs_ok (k_mqs k)" using assms(1) by (auto simp: kinv_def)
  note rest = kinv_retired [OF assms(1,3,4)]
  have "a \<in> registered k" using assms(1,3) by (simp add: registered_lookup)
  from kinv_ctx_ok [OF assms(1) this] assms(4) obtain q where q: "1 \<le> cx_ref c"
    "mh_queues (k_mqs k) (cx_queue c) = Some q" "\<not> mq_release q" by (auto simp: ctx_ok_def)
  have rt: "skynet_handle_retire sv h k = res_bind (skynet_context_release sv a ?k) (\<lambda>(_, k). Inr (1, k))"
    unfolding skynet_handle_retire_def by (subst retire_storage(1) [OF assms(1,3)]) simp
  have ib: "inbox k h = Some (mq_content q)" using assms(3,4) q(2) by (simp add: inbox_def ctx_queue_def)
  show ?thesis
  proof (cases "cx_ref c = 1")
    case True
    obtain h' where rl: "skynet_context_release sv a ?k =
        Inr (None, ?k\<lparr>k_ctxs := (k_ctxs k)(a := None), k_mqs := h', k_total := k_total k - 1\<rparr>)" "mqs_ok h'"
      "\<And>b. map_option mq_content (mh_queues h' b) = map_option mq_content (mh_queues (k_mqs k) b)"
      "\<And>b. map_option mq_release (mh_queues h' b) =
         (if b = cx_queue c then Some True else map_option mq_release (mh_queues (k_mqs k) b))"
      using release_last [OF assms(2), of ?k a c q] mq assms(4) True q(2,3) by auto
    let ?k' = "?k\<lparr>k_ctxs := (k_ctxs k)(a := None), k_mqs := h', k_total := k_total k - 1\<rparr>"
    have "kinv ?k'" "inbox ?k' = (inbox k)(h := None)" using rl by (auto intro!: rest [where oc = None])
    moreover obtain q' where "mh_queues h' (cx_queue c) = Some q'" "mq_release q'" "mq_content q' = mq_content q"
      using rl(3,4) [of "cx_queue c"] q(2) by auto
    ultimately show ?thesis using True rl(1) ib by (intro exI [of _ ?k']) (simp add: rt)
  next
    case False
    let ?oc = "Some (c\<lparr>cx_ref := cx_ref c - 1\<rparr>)"
    let ?k' = "?k\<lparr>k_ctxs := (k_ctxs k)(a := ?oc)\<rparr>"
    have "skynet_context_release sv a ?k = Inr (Some a, ?k')"
      using False assms(4) by (simp add: skynet_context_release_def Let_def upd_ctx_def)
    moreover have "kinv ?k'" "inbox ?k' = (inbox k)(h := None)" using mq by (auto intro!: rest [where oc = ?oc])
    ultimately show ?thesis using False by (intro exI [of _ ?k']) (simp add: rt)
  qed
qed

section \<open>Names\<close>

text \<open>
  A service that registered a local name is found under it: the name command returns the
  name, a query for it prints the handle in hexadecimal behind a colon, and that text,
  resolved as an address, is the handle again. No inbox changes.
\<close>

theorem register_then_query:
  assumes "kinv k" "k_ctxs k a = Some c" "cx_handle c \<noteq> 0" "map_of (hs_names (k_handles k)) name = None"
    "hs_name_count (k_handles k) < MAX_SLOT_SIZE div 2"
  shows "\<exists>k1 k2 text. cmd_reg sv a (Some (CHR ''.'' # name)) k = Inr (Some name, k1) \<and>
           cmd_query a (CHR ''.'' # name) k1 = Inr (Some text, k2) \<and>
           tohandle sv a text k2 = Inr (cx_handle c, k2) \<and> kinv k1 \<and> inbox k1 = inbox k"
proof -
  let ?s = "k_handles k"
  have st: "storage_inv (ctx_handle k) ?s" using assms(1) by (simp add: kinv_def)
  have hc: "ctx_handle k a = cx_handle c" using assms(2) by (simp add: ctx_handle_def)
  obtain s' where s': "skynet_handle_namehandle (cx_handle c) name ?s = Inr (Some name, s')" "names_inv s'"
    "hs_slot s' = hs_slot ?s" "skynet_handle_findname name s' = cx_handle c"
    using name_registry_spec [of ?s "cx_handle c" name] st assms(4,5) by (auto simp: storage_inv_def)
  have harbor: "hs_harbor s' = hs_harbor ?s"
    using s'(1) by (auto simp: skynet_handle_namehandle_def insert_name_before_def Let_def res_splits
        split: sum.splits if_splits)
  let ?k1 = "k\<lparr>k_handles := s'\<rparr>"
  let ?t = "CHR '':'' # fmt_x (cx_handle c)"
  let ?k2 = "upd_ctx a (\<lambda>c. c\<lparr>cx_result := ?t\<rparr>) ?k1"
  have "cmd_reg sv a (Some (CHR ''.'' # name)) k = Inr (Some name, ?k1)"
    using s'(1) hc by (simp add: cmd_reg_def)
  moreover have "cmd_query a (CHR ''.'' # name) ?k1 = Inr (Some ?t, ?k2)"
    using s'(4) assms(2,3) by (simp add: cmd_query_def set_result_def Let_def)
  moreover have "tohandle sv a ?t ?k2 = Inr (cx_handle c, ?k2)"
    by (simp add: tohandle_def strtoul16_fmt_x unsigned_ucast_eq take_bit_word_eq_self)
  moreover have look: "handle_lookup f s' = handle_lookup f ?s" for f :: "nat \<Rightarrow> u32"
    using s'(3) by (intro ext) (simp add: handle_lookup_def)
  have fr: "ctx_handle ?k1 = ctx_handle k" "registered ?k1 = registered k" "ctx_queue ?k1 = ctx_queue k"
    "ctx_ok ?k1 = ctx_ok k"
    using s'(3) by (auto simp: ctx_handle_def registered_def ctx_queue_def ctx_ok_def fun_eq_iff)
  have "storage_inv (ctx_handle k) s'"
    using st s'(2,3) harbor by (simp add: storage_inv_def slots_inv_def)
  then have "kinv ?k1" using assms(1) unfolding kinv_def fr by simp
  moreover have "inbox ?k1 = inbox k"
    by (intro ext) (simp add: inbox_def fr look cong: option.case_cong)
  ultimately show ?thesis by blast
qed

section \<open>Logging socket events\<close>

text \<open>
  The text behind a forwarded socket event carries no terminator, and the log prints it with
  the conversion \<open>%*s\<close>, whose star is a width and no limit: it reads past the end of the block.
\<close>

lemma log_socket_overrun:
  assumes "0 \<notin> set tail"
  shows "log_socket (Socket_message type sid ud None tail) = Inl (Out_of_bounds ''log_socket'')"
  using assms by (simp add: log_socket_def fmt_width_s_def Let_def)

lemma forwarded_text_unterminated: "0 \<notin> set (take 128 (takeWhile (\<lambda>b. b \<noteq> 0) d))" for d :: bytes
  by (auto dest!: in_set_takeD set_takeWhileD)

section \<open>Witnesses\<close>

definition demo_services :: services where
  "demo_services = \<lparr>sv_dlopen = (\<lambda>_. None), sv_dlsym = (\<lambda>_ _. None), sv_create = (\<lambda>_ k. Inr (Some 1, k)),
     sv_init = (\<lambda>_ _ _ _ k. Inr (0, k)), sv_release = (\<lambda>_ _ k. Inr k), sv_signal = (\<lambda>_ _ _ k. Inr k),
     sv_cb = (\<lambda>_ _ _ _ _ _ _ _ k. Inr (0, k)), sv_thread_time = (\<lambda>_. 0), sv_fopen = (\<lambda>_ _. False),
     sv_ctime = (\<lambda>_. ''''), sv_lf = (\<lambda>_. ''0.000000'')\<rparr>"

definition boot_kernel :: kernel where
  "boot_kernel = kernel_init 1 ''./cservice/?.so'' False 0 0 0"

lemma boot_kernel_inv: "kinv boot_kernel" "inbox boot_kernel = Map.empty"
  "length (hs_slot (k_handles boot_kernel)) < 2 ^ 24" "k_harbor boot_kernel = 0x01000000"
  "k_ctxs boot_kernel = Map.empty" "hs_name_count (k_handles boot_kernel) = 0"
proof -
  have f: "k_handles boot_kernel = skynet_handle_init 1" "k_mqs boot_kernel = mq_heap_empty"
    "k_ctxs boot_kernel = Map.empty" "k_fresh boot_kernel = 0"
    by (simp_all add: boot_kernel_def kernel_init_def skynet_harbor_init_def)
  have slots: "set (hs_slot (skynet_handle_init 1 :: nat handle_storage)) = {None}"
    by (simp add: skynet_handle_init_def DEFAULT_SLOT_SIZE_def)
  have "mqs_ok mq_heap_empty"
    unfolding mqs_ok_def using gq_inv_empty by (auto simp: mq_heap_empty_def)
  moreover have "registered boot_kernel = {}" using slots by (auto simp: registered_def f)
  ultimately show inv: "kinv boot_kernel" by (simp add: kinv_def f storage_inv_init)
  show "inbox boot_kernel = Map.empty"
  proof
    fix h
    have "handle_lookup (ctx_handle boot_kernel) (k_handles boot_kernel) h = None"
      using registered_lookup [OF inv, of h] \<open>registered boot_kernel = {}\<close> by (metis empty_iff not_None_eq)
    then show "inbox boot_kernel h = None" by (simp add: inbox_def)
  qed
  show "length (hs_slot (k_handles boot_kernel)) < 2 ^ 24" "k_ctxs boot_kernel = Map.empty"
    "hs_name_count (k_handles boot_kernel) = 0"
    by (simp_all add: f skynet_handle_init_def DEFAULT_SLOT_SIZE_def)
  show "k_harbor boot_kernel = 0x01000000"
    by (simp add: boot_kernel_def kernel_init_def skynet_harbor_init_def HANDLE_REMOTE_SHIFT_def push_bit_eq_mult)
qed

text \<open>A node with one service, launched by the code.\<close>

lemma demo_node: "\<exists>k a h c. kinv k \<and> inbox k = [h \<mapsto> []] \<and> k_harbor k = 0x01000000 \<and>
   h AND NOT HANDLE_MASK = 0x01000000 \<and> h \<noteq> 0 \<and> handle_lookup (ctx_handle k) (k_handles k) h = Some a \<and>
   k_ctxs k a = Some c \<and> cx_handle c = h \<and> map_of (hs_names (k_handles k)) ''db'' = None \<and>
   hs_name_count (k_handles k) = 0"
proof -
  obtain a h k where k: "kinv k" "inbox k = [h \<mapsto> []]" "ctx_handle k a = h"
    "h AND NOT HANDLE_MASK = hs_harbor (k_handles boot_kernel)" "k_harbor k = 0x01000000"
    "handle_lookup (ctx_handle k) (k_handles k) h = Some a" "hs_name_count (k_handles k) = 0"
    using launch_spec [OF boot_kernel_inv(1), of 0 1] boot_kernel_inv by auto
  have hb: "hs_harbor (k_handles boot_kernel) = 0x01000000"
    by (simp add: boot_kernel_def kernel_init_def skynet_harbor_init_def skynet_handle_init_def
        HANDLE_REMOTE_SHIFT_def push_bit_eq_mult)
  have "a \<in> registered k" using k(1,6) by (simp add: registered_lookup)
  then obtain c where "k_ctxs k a = Some c" using kinv_ctx_ok [OF k(1), of a] by (auto simp: ctx_ok_def)
  moreover from this k(3) have "cx_handle c = h" by (simp add: ctx_handle_def)
  moreover have "h \<noteq> 0" using k(4) hb by auto
  ultimately show ?thesis using k hb by (intro exI [of _ k] exI [of _ a] exI [of _ h] exI [of _ c]) (simp add: hs_names_def)
qed


theorem session_positive_witness:
  "\<exists>k a c s k'. k_ctxs k a = Some c \<and> skynet_context_newsession a k = Inr (s, k') \<and> 0 < s"
proof -
  obtain k :: kernel and a c where "k_ctxs k a = Some c" using demo_node by blast
  then show ?thesis using session_positive [of k a c] by blast
qed

theorem monitor_detects_hang_witness:
  "\<exists>k sm'. kinv k \<and>
     skynet_monitor_check demo_services ((skynet_monitor_trigger 1 2 ^^ 2) skynet_monitor_new) k = Inr (sm', k)"
proof -
  obtain k where k: "kinv k" using demo_node by blast
  have "sm_version skynet_monitor_new = sm_check_version skynet_monitor_new" by (simp add: skynet_monitor_new_def)
  from monitor_detects_hang [OF k this, of 2 demo_services 1 2] k show ?thesis by auto
qed

theorem launch_registers_witness:
  "\<exists>a h k'. context_alloc 0 1 boot_kernel = Some (Inr (a, k')) \<and> inbox k' = [h \<mapsto> []] \<and> ctx_handle k' a = h"
  using launch_registers [OF boot_kernel_inv(1), of 0 1] boot_kernel_inv(2,3) by auto

theorem retire_service_witness:
  "\<exists>k h k'. inbox k h = Some [] \<and> skynet_handle_retire demo_services h k = Inr (1, k') \<and> inbox k' h = None"
proof -
  obtain k a h c where k: "kinv k" "inbox k = [h \<mapsto> []]" "handle_lookup (ctx_handle k) (k_handles k) h = Some a"
    "k_ctxs k a = Some c"
    using demo_node by blast
  have "quiet_release demo_services" by (simp add: quiet_release_def demo_services_def)
  from retire_service [OF k(1) this k(3,4)] obtain k' where
    k': "skynet_handle_retire demo_services h k = Inr (1, k')" "inbox k' = (inbox k)(h := None)" by blast
  have "inbox k h = Some []" "inbox k' h = None" using k(2) k'(2) by simp_all
  with k'(1) show ?thesis by blast
qed

theorem register_then_query_witness:
  "\<exists>k a c k1 k2 text. k_ctxs k a = Some c \<and> cmd_reg demo_services a (Some ''.db'') k = Inr (Some ''db'', k1) \<and>
     cmd_query a ''.db'' k1 = Inr (Some text, k2) \<and> tohandle demo_services a text k2 = Inr (cx_handle c, k2)"
proof -
  obtain k a h c where k: "kinv k" "k_ctxs k a = Some c" "cx_handle c = h" "h \<noteq> 0"
    "map_of (hs_names (k_handles k)) ''db'' = None" "hs_name_count (k_handles k) = 0"
    using demo_node by blast
  then show ?thesis
    using register_then_query [of k a c "''db''" demo_services] by (auto simp: MAX_SLOT_SIZE_def) blast
qed

end
