(* ===== verification/HashId.thy ===== *)
theory HashId
  imports Prelude
begin

text \<open>
  The table of socket ids of the gate, \<open>service-src/hashid.h\<close>: an array of nodes, a node being
  free when its id is -1, and buckets that chain nodes through \<open>next\<close>. A pointer into the node
  array is an index. The loops follow the links, so a loop that does not end has the value
  \<open>None\<close>. The table is shown to implement a finite map from ids to node indices.
\<close>

section \<open>Data and operations\<close>

record hashid =
  hi_hashmod :: int
  hi_cap :: nat
  hi_count :: int
  hi_id :: "int list"
  hi_next :: "nat option list"
  hi_hash :: "nat option list"

function hashcap_loop :: "nat \<Rightarrow> nat \<Rightarrow> nat" where
  "hashcap_loop hashcap mx = (if 0 < hashcap \<and> hashcap < mx then hashcap_loop (hashcap * 2) mx else hashcap)"
  by pat_completeness auto
termination by (relation "measure (\<lambda>(h, m). m - h)") auto

declare hashcap_loop.simps [simp del]

definition hashid_init :: "nat \<Rightarrow> hashid" where
  "hashid_init mx =
     (let hashcap = hashcap_loop 16 mx in
      \<lparr>hi_hashmod = int hashcap - 1, hi_cap = mx, hi_count = 0, hi_id = replicate mx (-1),
       hi_next = replicate mx None, hi_hash = replicate hashcap None\<rparr>)"

definition hashid_clear :: "hashid \<Rightarrow> hashid" where
  "hashid_clear hi = \<lparr>hi_hashmod = 1, hi_cap = 0, hi_count = 0, hi_id = [], hi_next = [], hi_hash = []\<rparr>"

definition bucket :: "hashid \<Rightarrow> int \<Rightarrow> nat" where
  "bucket hi uid = nat (uid AND hi_hashmod hi)"

partial_function (option) lookup_loop :: "hashid \<Rightarrow> int \<Rightarrow> nat option \<Rightarrow> int option" where
  "lookup_loop hi uid c =
     (case c of
        None \<Rightarrow> Some (-1)
      | Some x \<Rightarrow> if hi_id hi ! x = uid then Some (int x) else lookup_loop hi uid (hi_next hi ! x))"

definition hashid_lookup :: "hashid \<Rightarrow> int \<Rightarrow> int option" where
  "hashid_lookup hi uid = lookup_loop hi uid (hi_hash hi ! bucket hi uid)"

definition hashid_unlink :: "nat \<Rightarrow> hashid \<Rightarrow> int \<times> hashid" where
  "hashid_unlink c hi =
     (int c, hi\<lparr>hi_id := (hi_id hi)[c := -1], hi_next := (hi_next hi)[c := None], hi_count := hi_count hi - 1\<rparr>)"

partial_function (option) remove_loop :: "int \<Rightarrow> nat \<Rightarrow> hashid \<Rightarrow> (int \<times> hashid) option" where
  "remove_loop uid c hi =
     (case hi_next hi ! c of
        None \<Rightarrow> Some (-1, hi)
      | Some t \<Rightarrow>
          if hi_id hi ! t = uid
          then Some (hashid_unlink t (hi\<lparr>hi_next := (hi_next hi)[c := hi_next hi ! t]\<rparr>))
          else remove_loop uid t hi)"

definition hashid_remove :: "int \<Rightarrow> hashid \<Rightarrow> (int \<times> hashid) option" where
  "hashid_remove uid hi =
     (let h = bucket hi uid in
      case hi_hash hi ! h of
        None \<Rightarrow> Some (-1, hi)
      | Some c \<Rightarrow>
          if hi_id hi ! c = uid
          then Some (hashid_unlink c (hi\<lparr>hi_hash := (hi_hash hi)[h := hi_next hi ! c]\<rparr>))
          else remove_loop uid c hi)"

text \<open>The search for a free node, from position \<open>id % cap\<close> on; ids are not negative.\<close>

function free_loop :: "hashid \<Rightarrow> int \<Rightarrow> nat \<Rightarrow> nat option" where
  "free_loop hi uid i =
     (if i < hi_cap hi then
        let index = nat ((int i + uid) mod int (hi_cap hi)) in
        if hi_id hi ! index = -1 then Some index else free_loop hi uid (Suc i)
      else None)"
  by pat_completeness auto
termination by (relation "measure (\<lambda>(hi, uid, i). hi_cap hi - i)") auto

declare free_loop.simps [simp del]

definition hashid_insert :: "int \<Rightarrow> hashid \<Rightarrow> (int \<times> hashid) res" where
  "hashid_insert uid hi =
     (case free_loop hi uid 0 of
        None \<Rightarrow> Inl (Assert_fail ''hashid_insert'')
      | Some c \<Rightarrow>
          res_assert ''hashid_insert'' (hi_next hi ! c = None)
            (let h = bucket hi uid in
             Inr (int c, hi\<lparr>hi_count := hi_count hi + 1, hi_id := (hi_id hi)[c := uid],
                   hi_next := (if hi_hash hi ! h \<noteq> None then (hi_next hi)[c := hi_hash hi ! h] else hi_next hi),
                   hi_hash := (hi_hash hi)[h := Some c]\<rparr>)))"

definition hashid_full :: "hashid \<Rightarrow> bool" where
  "hashid_full hi \<longleftrightarrow> hi_count hi = int (hi_cap hi)"

section \<open>Invariant\<close>

fun chain :: "nat option list \<Rightarrow> nat option \<Rightarrow> nat list \<Rightarrow> bool" where
  "chain nx p [] \<longleftrightarrow> p = None"
| "chain nx p (x # xs) \<longleftrightarrow> p = Some x \<and> x < length nx \<and> chain nx (nx ! x) xs"

text \<open>
  Each bucket is a chain of exactly the nodes whose id hashes to it; ids are not negative and
  occur once; a free node is linked to nothing; \<open>count\<close> counts the nodes in use.
\<close>

definition hi_used :: "hashid \<Rightarrow> nat set" where
  "hi_used hi = {x. x < hi_cap hi \<and> hi_id hi ! x \<noteq> -1}"

definition chains_ok :: "hashid \<Rightarrow> (nat \<Rightarrow> nat list) \<Rightarrow> bool" where
  "chains_ok hi cs \<longleftrightarrow> (\<forall>h < length (hi_hash hi). chain (hi_next hi) (hi_hash hi ! h) (cs h) \<and> distinct (cs h) \<and>
     set (cs h) = {x \<in> hi_used hi. bucket hi (hi_id hi ! x) = h})"

definition hashid_inv :: "hashid \<Rightarrow> bool" where
  "hashid_inv hi \<longleftrightarrow> length (hi_id hi) = hi_cap hi \<and> length (hi_next hi) = hi_cap hi \<and>
     (\<exists>n. length (hi_hash hi) = 2 ^ n) \<and> hi_hashmod hi = int (length (hi_hash hi)) - 1 \<and>
     (\<forall>x \<in> hi_used hi. 0 \<le> hi_id hi ! x) \<and> inj_on (\<lambda>x. hi_id hi ! x) (hi_used hi) \<and>
     (\<forall>x < hi_cap hi. x \<notin> hi_used hi \<longrightarrow> hi_next hi ! x = None) \<and>
     hi_count hi = int (card (hi_used hi)) \<and> (\<exists>cs. chains_ok hi cs)"

text \<open>The map the table implements.\<close>

definition hi_map :: "hashid \<Rightarrow> int \<rightharpoonup> nat" where
  "hi_map hi uid = (if uid \<noteq> -1 \<and> (\<exists>x \<in> hi_used hi. hi_id hi ! x = uid)
     then Some (THE x. x \<in> hi_used hi \<and> hi_id hi ! x = uid) else None)"

lemma bucket_less: "hashid_inv hi \<Longrightarrow> bucket hi uid < length (hi_hash hi)"
proof -
  assume inv: "hashid_inv hi"
  then obtain n where n: "length (hi_hash hi) = 2 ^ n" by (auto simp: hashid_inv_def)
  have "hi_hashmod hi = Bit_Operations.mask n" using inv n by (simp add: hashid_inv_def mask_eq_exp_minus_1)
  then have "uid AND hi_hashmod hi = uid mod 2 ^ n" by (simp flip: take_bit_eq_mask add: take_bit_eq_mod)
  then have "uid AND hi_hashmod hi < 2 ^ n" "0 \<le> uid AND hi_hashmod hi" by simp_all
  then show ?thesis unfolding bucket_def n by (simp add: nat_less_iff)
qed

lemma hashcap_loop_pow2: "\<exists>n. h = 2 ^ n \<Longrightarrow> \<exists>n. hashcap_loop h m = 2 ^ n"
proof (induction h m rule: hashcap_loop.induct)
  case (1 h m)
  then obtain n where "h = 2 ^ n" by blast
  then have "\<exists>n. h * 2 = 2 ^ n" by (intro exI [of _ "Suc n"]) simp
  with 1 show ?case by (subst hashcap_loop.simps) auto
qed

lemma hashid_inv_init: "hashid_inv (hashid_init mx)"
proof -
  have "\<exists>n. (16 :: nat) = 2 ^ n" by (rule exI [of _ 4]) simp
  moreover have "hi_used (hashid_init mx) = {}" by (auto simp: hi_used_def hashid_init_def Let_def)
  ultimately show ?thesis
    using hashcap_loop_pow2 [of 16 mx]
    by (simp add: hashid_inv_def chains_ok_def) (auto simp: hashid_init_def Let_def intro!: exI [of _ "\<lambda>_. []"])
qed

lemma hi_map_Some: "hashid_inv hi \<Longrightarrow> hi_map hi uid = Some x \<longleftrightarrow> x \<in> hi_used hi \<and> hi_id hi ! x = uid"
proof -
  assume inv: "hashid_inv hi"
  have uniq: "x = y" if "x \<in> hi_used hi" "y \<in> hi_used hi" "hi_id hi ! x = hi_id hi ! y" for x y
    using inv that by (auto simp: hashid_inv_def inj_on_def)
  have "hi_map hi uid = Some x" if "x \<in> hi_used hi" "hi_id hi ! x = uid"
  proof -
    have "(THE x. x \<in> hi_used hi \<and> hi_id hi ! x = uid) = x" using that uniq by (intro the_equality) auto
    moreover have "uid \<noteq> -1" using that by (auto simp: hi_used_def)
    ultimately show ?thesis using that by (auto simp: hi_map_def)
  qed
  moreover have "x \<in> hi_used hi \<and> hi_id hi ! x = uid" if m: "hi_map hi uid = Some x"
  proof -
    from m obtain y where y: "y \<in> hi_used hi" "hi_id hi ! y = uid" by (auto simp: hi_map_def split: if_splits)
    then have "hi_map hi uid = Some y"
    proof -
      have "(THE x. x \<in> hi_used hi \<and> hi_id hi ! x = uid) = y" using y uniq by (intro the_equality) auto
      moreover have "uid \<noteq> -1" using y by (auto simp: hi_used_def)
      ultimately show ?thesis using y by (auto simp: hi_map_def)
    qed
    with m y show ?thesis by simp
  qed
  ultimately show ?thesis by blast
qed

section \<open>Looking up\<close>

lemma lookup_loop_find:
  "chain (hi_next hi) p xs \<Longrightarrow>
   lookup_loop hi uid p = Some (case find (\<lambda>x. hi_id hi ! x = uid) xs of None \<Rightarrow> -1 | Some x \<Rightarrow> int x)"
  by (induction xs arbitrary: p) (simp_all add: lookup_loop.simps)

lemma hashid_lookup_map:
  assumes "hashid_inv hi"
  shows "hashid_lookup hi uid = Some (case hi_map hi uid of None \<Rightarrow> -1 | Some x \<Rightarrow> int x)"
proof -
  let ?h = "bucket hi uid"
  obtain cs where cs: "chains_ok hi cs" using assms by (auto simp: hashid_inv_def)
  then have c: "chain (hi_next hi) (hi_hash hi ! ?h) (cs ?h)"
    "set (cs ?h) = {x \<in> hi_used hi. bucket hi (hi_id hi ! x) = ?h}"
    using bucket_less [OF assms, of uid] by (auto simp: chains_ok_def)
  show ?thesis
  proof (cases "find (\<lambda>x. hi_id hi ! x = uid) (cs ?h)")
    case None
    then have "\<forall>x \<in> hi_used hi. hi_id hi ! x \<noteq> uid" using c(2) by (auto simp: find_None_iff)
    then have "hi_map hi uid = None" by (auto simp: hi_map_def)
    with None lookup_loop_find [OF c(1)] show ?thesis by (simp add: hashid_lookup_def)
  next
    case (Some x)
    then have "x \<in> set (cs ?h)" "hi_id hi ! x = uid" by (auto simp: find_Some_iff)
    then have "x \<in> hi_used hi" "hi_id hi ! x = uid" using c(2) by auto
    then have "hi_map hi uid = Some x" using hi_map_Some [OF assms] by simp
    with Some lookup_loop_find [OF c(1)] show ?thesis by (simp add: hashid_lookup_def)
  qed
qed

section \<open>Inserting\<close>

lemma free_loop_Some: "free_loop hi uid i = Some x \<Longrightarrow> x < hi_cap hi \<and> hi_id hi ! x = -1"
proof (induction hi uid i rule: free_loop.induct)
  case (1 hi uid i)
  show ?case
  proof (cases "i < hi_cap hi")
    case True
    then have "nat ((int i + uid) mod int (hi_cap hi)) < hi_cap hi" by (simp add: nat_less_iff)
    with True 1 show ?thesis by (auto simp: free_loop.simps [of hi uid i] Let_def split: if_splits)
  qed (use 1 in \<open>simp add: free_loop.simps [of hi uid i]\<close>)
qed

lemma free_loop_None:
  "free_loop hi uid i = None \<Longrightarrow> i \<le> j \<Longrightarrow> j < hi_cap hi \<Longrightarrow> hi_id hi ! nat ((int j + uid) mod int (hi_cap hi)) \<noteq> -1"
proof (induction hi uid i rule: free_loop.induct)
  case (1 hi uid i)
  then have i: "i < hi_cap hi" by simp
  with "1.prems"(1) have "hi_id hi ! nat ((int i + uid) mod int (hi_cap hi)) \<noteq> -1" "free_loop hi uid (Suc i) = None"
    by (auto simp: free_loop.simps [of hi uid i] Let_def split: if_splits)
  with "1.IH" [OF i refl] "1.prems" show ?case by (cases "i = j") auto
qed

lemma free_loop_full:
  assumes "free_loop hi uid 0 = None" "x < hi_cap hi"
  shows "hi_id hi ! x \<noteq> -1"
proof -
  let ?c = "int (hi_cap hi)" and ?j = "nat ((int x - uid) mod int (hi_cap hi))"
  have c: "0 < ?c" using assms(2) by simp
  have "(int ?j + uid) mod ?c = (int x - uid + uid) mod ?c" using c by (simp add: mod_add_left_eq)
  then have "nat ((int ?j + uid) mod ?c) = x" using assms(2) by simp
  moreover have "?j < hi_cap hi" using c by (simp add: nat_less_iff)
  ultimately show ?thesis using free_loop_None [OF assms(1), of ?j] by simp
qed

lemma chain_cong: "(\<And>y. y \<in> set xs \<Longrightarrow> nx' ! y = nx ! y) \<Longrightarrow> length nx' = length nx \<Longrightarrow> chain nx' p xs = chain nx p xs"
  by (induction xs arbitrary: p) auto

lemma hashid_insert_spec:
  assumes inv: "hashid_inv hi" and uid: "0 \<le> uid" "hi_map hi uid = None" and room: "\<not> hashid_full hi"
  shows "\<exists>x hi'. hashid_insert uid hi = Inr (int x, hi') \<and> x < hi_cap hi \<and> x \<notin> hi_used hi \<and>
           hashid_inv hi' \<and> hi_map hi' = (hi_map hi)(uid \<mapsto> x) \<and> hi_cap hi' = hi_cap hi"
proof -
  have fin: "finite (hi_used hi)" and sub: "hi_used hi \<subseteq> {..<hi_cap hi}" by (auto simp: hi_used_def)
  have "free_loop hi uid 0 \<noteq> None"
  proof
    assume "free_loop hi uid 0 = None"
    then have "hi_used hi = {..<hi_cap hi}" using free_loop_full by (auto simp: hi_used_def)
    with inv room show False by (simp add: hashid_inv_def hashid_full_def)
  qed
  then obtain c where c: "free_loop hi uid 0 = Some c" "c < hi_cap hi" "hi_id hi ! c = -1"
    using free_loop_Some by blast
  then have cu: "c \<notin> hi_used hi" by (simp add: hi_used_def)
  have len: "length (hi_id hi) = hi_cap hi" "length (hi_next hi) = hi_cap hi" and nc: "hi_next hi ! c = None"
    using inv cu c(2) by (auto simp: hashid_inv_def)
  obtain cs where cs: "chains_ok hi cs" using inv by (auto simp: hashid_inv_def)
  let ?h = "bucket hi uid"
  have hl: "?h < length (hi_hash hi)" by (rule bucket_less [OF inv])
  have nx: "(if hi_hash hi ! ?h \<noteq> None then (hi_next hi)[c := hi_hash hi ! ?h] else hi_next hi) = (hi_next hi)[c := hi_hash hi ! ?h]"
    using nc list_update_id [of "hi_next hi" c] by (cases "hi_hash hi ! ?h") simp_all
  let ?hi = "hi\<lparr>hi_count := hi_count hi + 1, hi_id := (hi_id hi)[c := uid],
     hi_next := (hi_next hi)[c := hi_hash hi ! ?h], hi_hash := (hi_hash hi)[?h := Some c]\<rparr>"
  have run: "hashid_insert uid hi = Inr (int c, ?hi)"
    using c(1) nc nx by (simp add: hashid_insert_def Let_def)
  have used: "hi_used ?hi = insert c (hi_used hi)" using uid(1) c(2) len by (auto simp: hi_used_def nth_list_update)
  have bk: "bucket ?hi = bucket hi" by (simp add: bucket_def fun_eq_iff)
  have ids: "hi_id ?hi ! x = (if x = c then uid else hi_id hi ! x)" for x
    using c(2) len by (auto simp: nth_list_update)
  have notin: "hi_id hi ! x \<noteq> uid" if "x \<in> hi_used hi" for x
    using that uid(2) hi_map_Some [OF inv, of uid x] by auto
  have "chains_ok ?hi (cs(?h := c # cs ?h))"
    unfolding chains_ok_def
  proof (intro allI impI)
    fix h assume "h < length (hi_hash ?hi)"
    then have h: "h < length (hi_hash hi)" by simp
    have ok: "chain (hi_next hi) (hi_hash hi ! h) (cs h)" "distinct (cs h)"
      "set (cs h) = {x \<in> hi_used hi. bucket hi (hi_id hi ! x) = h}" using cs h by (auto simp: chains_ok_def)
    then have cn: "c \<notin> set (cs h)" using cu by auto
    then have ch: "chain ((hi_next hi)[c := hi_hash hi ! ?h]) (hi_hash hi ! h) (cs h)"
      using ok(1) by (subst chain_cong [where nx = "hi_next hi"]) (metis nth_list_update_neq, simp_all)
    show "chain (hi_next ?hi) (hi_hash ?hi ! h) ((cs(?h := c # cs ?h)) h) \<and> distinct ((cs(?h := c # cs ?h)) h) \<and>
        set ((cs(?h := c # cs ?h)) h) = {x \<in> hi_used ?hi. bucket ?hi (hi_id ?hi ! x) = h}"
      using ok cn ch h hl c(2) len cu unfolding used bk ids by (auto simp: nth_list_update split: if_splits)
  qed
  moreover have "inj_on (\<lambda>x. hi_id ?hi ! x) (hi_used ?hi)"
  proof -
    have "inj_on (\<lambda>x. hi_id hi ! x) (hi_used hi)" using inv by (simp add: hashid_inv_def)
    then have "inj_on (\<lambda>x. hi_id ?hi ! x) (hi_used hi)"
      using cu unfolding ids by (auto simp: inj_on_def)
    then show ?thesis using notin cu unfolding used ids by (auto simp: inj_on_insert)
  qed
  moreover have "\<forall>x < hi_cap ?hi. x \<notin> hi_used ?hi \<longrightarrow> hi_next ?hi ! x = None"
    using inv unfolding used by (auto simp: hashid_inv_def nth_list_update)
  moreover have "\<forall>x \<in> hi_used ?hi. 0 \<le> hi_id ?hi ! x"
    using inv uid(1) unfolding used ids by (auto simp: hashid_inv_def)
  moreover have "hi_count ?hi = int (card (hi_used ?hi))"
    using inv cu fin unfolding used by (simp add: hashid_inv_def)
  ultimately have inv': "hashid_inv ?hi" using inv unfolding hashid_inv_def by auto
  have "hi_map ?hi k = Some x \<longleftrightarrow> ((hi_map hi)(uid \<mapsto> c)) k = Some x" for k x
    using hi_map_Some [OF inv', of k x] hi_map_Some [OF inv, of k x] notin cu unfolding used ids by auto
  then have "hi_map ?hi = (hi_map hi)(uid \<mapsto> c)" by (intro ext) (metis option.exhaust)
  then show ?thesis using run c(2) cu inv' by (intro exI [of _ c] exI [of _ ?hi]) simp
qed

section \<open>Removing\<close>

lemma remove_loop_spec:
  assumes "chain (hi_next hi) (Some c) (c # ys)" "distinct (c # ys)"
  shows "case find (\<lambda>x. hi_id hi ! x = uid) ys of
           None \<Rightarrow> remove_loop uid c hi = Some (-1, hi)
         | Some t \<Rightarrow> \<exists>nx. remove_loop uid c hi =
               Some (int t, hi\<lparr>hi_id := (hi_id hi)[t := -1], hi_next := nx, hi_count := hi_count hi - 1\<rparr>) \<and>
             length nx = length (hi_next hi) \<and> chain nx (Some c) (c # remove1 t ys) \<and>
             (\<forall>y. y \<notin> set (c # ys) \<longrightarrow> nx ! y = hi_next hi ! y) \<and> nx ! t = None"
  using assms
proof (induction ys arbitrary: c)
  case Nil
  then show ?case by (simp add: remove_loop.simps)
next
  case (Cons t zs)
  have nx: "hi_next hi ! c = Some t" "t < length (hi_next hi)" "c < length (hi_next hi)" using Cons.prems(1) by auto
  show ?case
  proof (cases "hi_id hi ! t = uid")
    case True
    let ?nx = "((hi_next hi)[c := hi_next hi ! t])[t := None]"
    have "chain ?nx (hi_next hi ! t) zs"
      using Cons.prems by (subst chain_cong [where nx = "hi_next hi"]) (auto simp: nth_list_update)
    moreover have "remove_loop uid c hi =
        Some (int t, hi\<lparr>hi_id := (hi_id hi)[t := -1], hi_next := ?nx, hi_count := hi_count hi - 1\<rparr>)"
      using True nx by (simp add: remove_loop.simps hashid_unlink_def)
    ultimately show ?thesis using True nx Cons.prems(2) by (auto simp: nth_list_update)
  next
    case False
    have step: "remove_loop uid c hi = remove_loop uid t hi"
      using False nx(1) by (simp add: remove_loop.simps [of uid c hi])
    have IH: "case find (\<lambda>x. hi_id hi ! x = uid) zs of
           None \<Rightarrow> remove_loop uid t hi = Some (-1, hi)
         | Some x \<Rightarrow> \<exists>nx. remove_loop uid t hi =
               Some (int x, hi\<lparr>hi_id := (hi_id hi)[x := -1], hi_next := nx, hi_count := hi_count hi - 1\<rparr>) \<and>
             length nx = length (hi_next hi) \<and> chain nx (Some t) (t # remove1 x zs) \<and>
             (\<forall>y. y \<notin> set (t # zs) \<longrightarrow> nx ! y = hi_next hi ! y) \<and> nx ! x = None"
      using Cons.prems nx(1) by (intro Cons.IH) auto
    show ?thesis
    proof (cases "find (\<lambda>x. hi_id hi ! x = uid) zs")
      case None
      with IH step False show ?thesis by simp
    next
      case (Some x)
      with IH obtain nx' where nx': "remove_loop uid t hi =
          Some (int x, hi\<lparr>hi_id := (hi_id hi)[x := -1], hi_next := nx', hi_count := hi_count hi - 1\<rparr>)"
        "length nx' = length (hi_next hi)" "chain nx' (Some t) (t # remove1 x zs)"
        "\<And>y. y \<notin> set (t # zs) \<Longrightarrow> nx' ! y = hi_next hi ! y" "nx' ! x = None" by auto
      have "x \<noteq> t" using Some False by (auto simp: find_Some_iff)
      moreover have "nx' ! c = Some t" using nx'(4) [of c] Cons.prems(2) nx(1) by auto
      ultimately have "chain nx' (Some c) (c # remove1 x (t # zs))" using nx'(2,3) nx(3) by simp
      then show ?thesis using Some False step nx' by (intro option.case_eq_if [THEN iffD2]) auto
    qed
  qed
qed

text \<open>Removing an id that is in the table takes its node out of the chain of its bucket.\<close>

lemma hashid_remove_chain:
  assumes "chain (hi_next hi) (hi_hash hi ! bucket hi uid) xs" "distinct xs"
  shows "case find (\<lambda>x. hi_id hi ! x = uid) xs of
           None \<Rightarrow> hashid_remove uid hi = Some (-1, hi)
         | Some t \<Rightarrow> \<exists>nx p. hashid_remove uid hi =
               Some (int t, hi\<lparr>hi_id := (hi_id hi)[t := -1], hi_next := nx, hi_count := hi_count hi - 1,
                 hi_hash := (hi_hash hi)[bucket hi uid := p]\<rparr>) \<and>
             length nx = length (hi_next hi) \<and> chain nx p (remove1 t xs) \<and>
             (\<forall>y. y \<notin> set xs \<longrightarrow> nx ! y = hi_next hi ! y) \<and> nx ! t = None"
proof (cases xs)
  case Nil
  with assms show ?thesis by (simp add: hashid_remove_def)
next
  case (Cons c ys)
  have hc: "hi_hash hi ! bucket hi uid = Some c" "c < length (hi_next hi)" using assms Cons by auto
  show ?thesis
  proof (cases "hi_id hi ! c = uid")
    case True
    let ?nx = "(hi_next hi)[c := None]"
    have "chain ?nx (hi_next hi ! c) ys"
      using assms Cons by (subst chain_cong [where nx = "hi_next hi"]) (auto simp: nth_list_update)
    then show ?thesis
      using True hc Cons
      by (auto simp: hashid_remove_def hashid_unlink_def intro!: exI [of _ ?nx] exI [of _ "hi_next hi ! c"])
  next
    case False
    have step: "hashid_remove uid hi = remove_loop uid c hi" using False hc by (simp add: hashid_remove_def)
    have same: "(hi_hash hi)[bucket hi uid := Some c] = hi_hash hi" using hc(1) by (metis list_update_id)
    have sp: "case find (\<lambda>x. hi_id hi ! x = uid) ys of
           None \<Rightarrow> remove_loop uid c hi = Some (-1, hi)
         | Some t \<Rightarrow> \<exists>nx. remove_loop uid c hi =
               Some (int t, hi\<lparr>hi_id := (hi_id hi)[t := -1], hi_next := nx, hi_count := hi_count hi - 1\<rparr>) \<and>
             length nx = length (hi_next hi) \<and> chain nx (Some c) (c # remove1 t ys) \<and>
             (\<forall>y. y \<notin> set (c # ys) \<longrightarrow> nx ! y = hi_next hi ! y) \<and> nx ! t = None"
      using assms Cons hc by (intro remove_loop_spec) auto
    show ?thesis
    proof (cases "find (\<lambda>x. hi_id hi ! x = uid) ys")
      case None
      with sp step False Cons show ?thesis by simp
    next
      case (Some t)
      with sp obtain nx where nx: "remove_loop uid c hi =
          Some (int t, hi\<lparr>hi_id := (hi_id hi)[t := -1], hi_next := nx, hi_count := hi_count hi - 1\<rparr>)"
        "length nx = length (hi_next hi)" "chain nx (Some c) (c # remove1 t ys)"
        "\<forall>y. y \<notin> set (c # ys) \<longrightarrow> nx ! y = hi_next hi ! y" "nx ! t = None" by auto
      have "t \<noteq> c" using Some False by (auto simp: find_Some_iff)
      then have "remove1 t xs = c # remove1 t ys" using Cons by simp
      then show ?thesis
        using Some False Cons step nx same by (intro option.case_eq_if [THEN iffD2])
          (auto intro!: exI [of _ nx] exI [of _ "Some c"] simp del: chain.simps)
    qed
  qed
qed

lemma hashid_remove_spec:
  assumes inv: "hashid_inv hi"
  shows "\<exists>hi'. hashid_remove uid hi = Some (case hi_map hi uid of None \<Rightarrow> -1 | Some x \<Rightarrow> int x, hi') \<and>
           hashid_inv hi' \<and> hi_map hi' = (hi_map hi)(uid := None) \<and> hi_cap hi' = hi_cap hi"
proof -
  let ?h = "bucket hi uid"
  obtain cs where cs: "chains_ok hi cs" using inv by (auto simp: hashid_inv_def)
  have hl: "?h < length (hi_hash hi)" by (rule bucket_less [OF inv])
  have ok: "chain (hi_next hi) (hi_hash hi ! ?h) (cs ?h)" "distinct (cs ?h)"
    "set (cs ?h) = {x \<in> hi_used hi. bucket hi (hi_id hi ! x) = ?h}" using cs hl by (auto simp: chains_ok_def)
  note rc = hashid_remove_chain [OF ok(1,2)]
  show ?thesis
  proof (cases "find (\<lambda>x. hi_id hi ! x = uid) (cs ?h)")
    case None
    then have "hi_map hi uid = None" using ok(3) by (auto simp: find_None_iff hi_map_def)
    with None rc inv show ?thesis by (auto simp: fun_upd_idem)
  next
    case (Some t)
    then have t: "t \<in> set (cs ?h)" "hi_id hi ! t = uid" by (auto simp: find_Some_iff)
    then have tu: "t \<in> hi_used hi" using ok(3) by auto
    then have mt: "hi_map hi uid = Some t" using t hi_map_Some [OF inv] by simp
    from Some rc obtain nx p where r: "hashid_remove uid hi =
        Some (int t, hi\<lparr>hi_id := (hi_id hi)[t := -1], hi_next := nx, hi_count := hi_count hi - 1,
          hi_hash := (hi_hash hi)[?h := p]\<rparr>)" (is "_ = Some (_, ?hi)")
      "length nx = length (hi_next hi)" "chain nx p (remove1 t (cs ?h))"
      "\<And>y. y \<notin> set (cs ?h) \<Longrightarrow> nx ! y = hi_next hi ! y" "nx ! t = None" by auto
    have len: "length (hi_id hi) = hi_cap hi" "length (hi_next hi) = hi_cap hi"
      using inv by (auto simp: hashid_inv_def)
    have tc: "t < hi_cap hi" using tu by (simp add: hi_used_def)
    have ids: "hi_id ?hi ! x = (if x = t then -1 else hi_id hi ! x)" for x
      using tc len by (auto simp: nth_list_update)
    have used: "hi_used ?hi = hi_used hi - {t}" using ids by (auto simp: hi_used_def)
    have bk: "bucket ?hi = bucket hi" by (simp add: bucket_def fun_eq_iff)
    have "chains_ok ?hi (cs(?h := remove1 t (cs ?h)))"
      unfolding chains_ok_def
    proof (intro allI impI)
      fix h assume "h < length (hi_hash ?hi)"
      then have h: "h < length (hi_hash hi)" by simp
      have okh: "chain (hi_next hi) (hi_hash hi ! h) (cs h)" "distinct (cs h)"
        "set (cs h) = {x \<in> hi_used hi. bucket hi (hi_id hi ! x) = h}" using cs h by (auto simp: chains_ok_def)
      show "chain (hi_next ?hi) (hi_hash ?hi ! h) ((cs(?h := remove1 t (cs ?h))) h) \<and>
          distinct ((cs(?h := remove1 t (cs ?h))) h) \<and>
          set ((cs(?h := remove1 t (cs ?h))) h) = {x \<in> hi_used ?hi. bucket ?hi (hi_id ?hi ! x) = h}"
      proof (cases "h = ?h")
        case True
        then show ?thesis using r(3) hl ok(2,3) unfolding used bk ids by (auto simp: set_remove1_eq)
      next
        case False
        then have "\<And>y. y \<in> set (cs h) \<Longrightarrow> nx ! y = hi_next hi ! y" using okh(3) ok(3) r(4) by auto
        then have "chain nx (hi_hash hi ! h) (cs h)" using okh(1) r(2) by (subst chain_cong) auto
        moreover have "bucket hi (hi_id hi ! t) = ?h" using t(2) by simp
        ultimately show ?thesis using False okh(2,3) unfolding used bk ids by auto
      qed
    qed
    moreover have "inj_on (\<lambda>x. hi_id ?hi ! x) (hi_used ?hi)"
      using inv unfolding used ids by (auto simp: inj_on_def hashid_inv_def)
    moreover have "\<forall>x < hi_cap ?hi. x \<notin> hi_used ?hi \<longrightarrow> hi_next ?hi ! x = None"
      using inv r(4,5) ok(3) unfolding used by (auto simp: hashid_inv_def)
    moreover have "\<forall>x \<in> hi_used ?hi. 0 \<le> hi_id ?hi ! x"
      using inv unfolding used ids by (auto simp: hashid_inv_def)
    moreover have "hi_count ?hi = int (card (hi_used ?hi))"
    proof -
      have fin: "finite (hi_used hi)" by (simp add: hi_used_def)
      then have "0 < card (hi_used hi)" using tu by (auto simp: card_gt_0_iff)
      then show ?thesis using inv tu fin unfolding used by (simp add: hashid_inv_def of_nat_diff)
    qed
    ultimately have inv': "hashid_inv ?hi" using inv r(2) unfolding hashid_inv_def by auto
    have "hi_map ?hi k = Some x \<longleftrightarrow> ((hi_map hi)(uid := None)) k = Some x" for k x
      using hi_map_Some [OF inv', of k x] hi_map_Some [OF inv, of k x] mt t(2) hi_map_Some [OF inv, of uid x]
      unfolding used ids by auto
    then have "hi_map ?hi = (hi_map hi)(uid := None)" by (intro ext) (metis option.exhaust)
    then show ?thesis using r(1) mt inv' by (intro exI [of _ ?hi]) simp
  qed
qed

section \<open>The table is a finite map\<close>

definition hi_delete :: "int \<Rightarrow> hashid \<Rightarrow> hashid" where
  "hi_delete uid hi = (if uid = -1 then hi else snd (the (hashid_remove uid hi)))"

interpretation hashid: id_table hashid_inv hi_map hi_delete
proof
  fix hi uid
  assume inv: "hashid_inv hi"
  show "hashid_inv (hi_delete uid hi)" "hi_map (hi_delete uid hi) = (hi_map hi)(uid := None)"
  proof -
    have none: "hi_map hi (-1) = None" by (simp add: hi_map_def)
    have "hashid_inv (hi_delete uid hi) \<and> hi_map (hi_delete uid hi) = (hi_map hi)(uid := None)"
    proof (cases "uid = -1")
      case True
      with inv none show ?thesis by (simp add: hi_delete_def fun_upd_idem)
    next
      case False
      with hashid_remove_spec [OF inv, of uid] show ?thesis by (auto simp: hi_delete_def)
    qed
    then show "hashid_inv (hi_delete uid hi)" "hi_map (hi_delete uid hi) = (hi_map hi)(uid := None)" by auto
  qed
qed



end
