(* ===== verification/DataBuffer.thy ===== *)
theory DataBuffer
  imports Prelude
begin

text \<open>
  The stream buffer of the gate, \<open>service-src/databuffer.h\<close>: the data blocks of a socket in
  arrival order, an offset into the first one, and the length field of the package that is
  being received. The linked list from \<open>head\<close> to \<open>tail\<close> is a list of blocks; the pool of list
  nodes is the number of allocated batches of 1023 and of nodes on the free list.
\<close>

section \<open>Data and operations\<close>

definition MESSAGEPOOL :: nat where "MESSAGEPOOL = 1023"

record databuffer =
  db_header :: int
  db_offset :: nat
  db_size :: int
  db_msgs :: "bytes list"

record messagepool =
  mp_pool :: nat
  mp_freelist :: nat

definition databuffer_zero :: databuffer where
  "databuffer_zero = \<lparr>db_header = 0, db_offset = 0, db_size = 0, db_msgs = []\<rparr>"

definition messagepool_free :: "messagepool \<Rightarrow> messagepool" where
  "messagepool_free mp = \<lparr>mp_pool = 0, mp_freelist = 0\<rparr>"

text \<open>\<open>_return_message\<close>: the first node goes back to the free list.\<close>

definition return_message :: "databuffer \<times> messagepool \<Rightarrow> (databuffer \<times> messagepool) res" where
  "return_message st =
     (case st of (db, mp) \<Rightarrow>
      case db_msgs db of
        [] \<Rightarrow> Inl (Bad_pointer ''_return_message'')
      | m # ms \<Rightarrow> Inr (db\<lparr>db_msgs := ms\<rparr>, mp\<lparr>mp_freelist := Suc (mp_freelist mp)\<rparr>))"

text \<open>The loop of \<open>databuffer_read\<close>, over the blocks.\<close>

function read_loop :: "nat \<Rightarrow> databuffer \<times> messagepool \<Rightarrow> (bytes \<times> databuffer \<times> messagepool) res" where
  "read_loop sz (db, mp) =
     (case db_msgs db of
        [] \<Rightarrow> Inl (Bad_pointer ''databuffer_read'')
      | m # ms \<Rightarrow>
          let bsz = length m - db_offset db in
          if bsz > sz then
            Inr (take sz (drop (db_offset db) m), db\<lparr>db_offset := db_offset db + sz\<rparr>, mp)
          else if bsz = sz then
            res_bind (return_message (db\<lparr>db_offset := 0\<rparr>, mp)) (\<lambda>st. Inr (drop (db_offset db) m, st))
          else
            (case return_message (db, mp) of
               Inl e \<Rightarrow> Inl e
             | Inr (db', mp') \<Rightarrow>
                 res_bind (read_loop (sz - bsz) (db'\<lparr>db_offset := 0\<rparr>, mp')) (\<lambda>(b, st).
                   Inr (drop (db_offset db) m @ b, st))))"
  by pat_completeness auto
termination
  by (relation "measure (\<lambda>(sz, db, mp). length (db_msgs db))") (auto simp: return_message_def)

declare read_loop.simps [simp del]

definition databuffer_read ::
  "nat \<Rightarrow> databuffer \<times> messagepool \<Rightarrow> (bytes \<times> databuffer \<times> messagepool) res" where
  "databuffer_read sz st =
     (case st of (db, mp) \<Rightarrow>
      res_assert ''databuffer_read'' (db_size db \<ge> int sz)
        (read_loop sz (db\<lparr>db_size := db_size db - int sz\<rparr>, mp)))"

definition databuffer_push :: "bytes \<Rightarrow> databuffer \<times> messagepool \<Rightarrow> databuffer \<times> messagepool" where
  "databuffer_push data st =
     (case st of (db, mp) \<Rightarrow>
      (db\<lparr>db_size := db_size db + int (length data), db_msgs := db_msgs db @ [data]\<rparr>,
       if mp_freelist mp \<noteq> 0 then mp\<lparr>mp_freelist := mp_freelist mp - 1\<rparr>
       else \<lparr>mp_pool = Suc (mp_pool mp), mp_freelist = MESSAGEPOOL - 1\<rparr>))"

text \<open>The length field, big-endian, of two or four bytes; four bytes make a signed number.\<close>

definition header_value :: "bytes \<Rightarrow> int" where
  "header_value plen =
     (if length plen = 2 then
        sint (push_bit 8 (ucast (plen ! 0)) OR ucast (plen ! 1) :: c_int)
      else
        sint (push_bit 24 (ucast (plen ! 0)) OR push_bit 16 (ucast (plen ! 1)) OR
              push_bit 8 (ucast (plen ! 2)) OR ucast (plen ! 3) :: c_int))"

definition databuffer_readheader ::
  "nat \<Rightarrow> databuffer \<times> messagepool \<Rightarrow> (int \<times> databuffer \<times> messagepool) res" where
  "databuffer_readheader header_size st =
     (case st of (db, mp) \<Rightarrow>
      let finish = (\<lambda>(db, mp). (if db_size db < db_header db then -1 else db_header db, db, mp)) in
      if db_header db = 0 then
        if db_size db < int header_size then Inr (-1, db, mp)
        else res_bind (databuffer_read header_size (db, mp)) (\<lambda>(plen, db, mp).
               Inr (finish (db\<lparr>db_header := header_value plen\<rparr>, mp)))
      else Inr (finish (db, mp)))"

definition databuffer_reset :: "databuffer \<Rightarrow> databuffer" where
  "databuffer_reset db = db\<lparr>db_header := 0\<rparr>"

definition databuffer_clear :: "databuffer \<times> messagepool \<Rightarrow> databuffer \<times> messagepool" where
  "databuffer_clear st =
     (case st of (db, mp) \<Rightarrow>
      (databuffer_zero, mp\<lparr>mp_freelist := mp_freelist mp + length (db_msgs db)\<rparr>))"

section \<open>Abstraction\<close>

text \<open>The bytes that have arrived and are not read yet.\<close>

definition db_content :: "databuffer \<Rightarrow> bytes" where
  "db_content db = drop (db_offset db) (concat (db_msgs db))"

definition db_inv :: "databuffer \<Rightarrow> bool" where
  "db_inv db \<longleftrightarrow> db_size db = int (length (db_content db)) \<and>
     (case db_msgs db of [] \<Rightarrow> db_offset db = 0 | m # ms \<Rightarrow> db_offset db \<le> length m)"

text \<open>Nodes of the pool: those on the free list and those of this buffer.\<close>

definition pool_nodes :: "databuffer \<times> messagepool \<Rightarrow> nat" where
  "pool_nodes st = mp_freelist (snd st) + length (db_msgs (fst st))"

lemma db_inv_zero [simp]: "db_inv databuffer_zero" "db_content databuffer_zero = []"
  by (simp_all add: db_inv_def db_content_def databuffer_zero_def)

lemma db_inv_header [simp]: "db_inv (db\<lparr>db_header := h\<rparr>) = db_inv db" "db_content (db\<lparr>db_header := h\<rparr>) = db_content db"
  by (cases "db_msgs db"; simp add: db_inv_def db_content_def)+

lemma databuffer_push_spec:
  assumes "db_inv db"
  shows "\<exists>db' mp'. databuffer_push data (db, mp) = (db', mp') \<and> db_inv db' \<and>
           db_content db' = db_content db @ data \<and> db_header db' = db_header db \<and>
           pool_nodes (db', mp') + MESSAGEPOOL * mp_pool mp = pool_nodes (db, mp) + MESSAGEPOOL * mp_pool mp'"
  using assms
  by (cases "db_msgs db") (auto simp: databuffer_push_def db_inv_def db_content_def pool_nodes_def MESSAGEPOOL_def)

lemma read_loop_spec:
  assumes "sz \<le> length (db_content db)" "0 < sz" "case db_msgs db of [] \<Rightarrow> db_offset db = 0 | m # ms \<Rightarrow> db_offset db \<le> length m"
  shows "\<exists>db' mp'. read_loop sz (db, mp) = Inr (take sz (db_content db), db', mp') \<and>
           db_content db' = drop sz (db_content db) \<and> db_size db' = db_size db \<and> db_header db' = db_header db \<and>
           (case db_msgs db' of [] \<Rightarrow> db_offset db' = 0 | m # ms \<Rightarrow> db_offset db' \<le> length m) \<and>
           pool_nodes (db', mp') = pool_nodes (db, mp) \<and> mp_pool mp' = mp_pool mp"
  using assms
proof (induction "db_msgs db" arbitrary: db sz mp)
  case Nil
  then show ?case by (simp add: db_content_def)
next
  case (Cons m ms)
  have msgs: "db_msgs db = m # ms" using Cons.hyps(2) by simp
  let ?bsz = "length m - db_offset db"
  have off: "db_offset db \<le> length m" using Cons.prems(3) msgs by simp
  have con: "db_content db = drop (db_offset db) m @ concat ms" using off msgs by (simp add: db_content_def)
  consider "?bsz > sz" | "?bsz = sz" | "?bsz < sz" by linarith
  then show ?case
  proof cases
    case 1
    then show ?thesis using msgs con off
      by (simp add: read_loop.simps db_content_def pool_nodes_def drop_drop add.commute)
  next
    case 2
    moreover have "case ms of [] \<Rightarrow> True | m # ms \<Rightarrow> True" by (cases ms) simp_all
    ultimately show ?thesis using msgs con off
      by (auto simp: read_loop.simps return_message_def db_content_def pool_nodes_def split: list.splits)
  next
    case 3
    let ?db = "db\<lparr>db_msgs := ms, db_offset := 0\<rparr>" and ?mp = "mp\<lparr>mp_freelist := Suc (mp_freelist mp)\<rparr>"
    have c: "db_content ?db = concat ms" by (simp add: db_content_def)
    have "\<exists>db' mp'. read_loop (sz - ?bsz) (?db, ?mp) = Inr (take (sz - ?bsz) (db_content ?db), db', mp') \<and>
           db_content db' = drop (sz - ?bsz) (db_content ?db) \<and> db_size db' = db_size ?db \<and> db_header db' = db_header ?db \<and>
           (case db_msgs db' of [] \<Rightarrow> db_offset db' = 0 | m # ms \<Rightarrow> db_offset db' \<le> length m) \<and>
           pool_nodes (db', mp') = pool_nodes (?db, ?mp) \<and> mp_pool mp' = mp_pool ?mp"
      using 3 Cons.prems(1) con c by (intro Cons.hyps(1)) (auto split: list.splits)
    with 3 msgs con off c show ?thesis
      by (auto simp: read_loop.simps [of sz db mp] return_message_def pool_nodes_def)
  qed
qed

lemma databuffer_read_spec:
  assumes "db_inv db" "0 < sz" "sz \<le> length (db_content db)"
  shows "\<exists>db' mp'. databuffer_read sz (db, mp) = Inr (take sz (db_content db), db', mp') \<and> db_inv db' \<and>
           db_content db' = drop sz (db_content db) \<and> db_header db' = db_header db \<and>
           pool_nodes (db', mp') = pool_nodes (db, mp) \<and> mp_pool mp' = mp_pool mp"
proof -
  let ?db = "db\<lparr>db_size := db_size db - int sz\<rparr>"
  have c: "db_content ?db = db_content db" by (simp add: db_content_def)
  obtain db' mp' where r: "read_loop sz (?db, mp) = Inr (take sz (db_content db), db', mp')"
    "db_content db' = drop sz (db_content db)" "db_size db' = db_size ?db" "db_header db' = db_header db"
    "case db_msgs db' of [] \<Rightarrow> db_offset db' = 0 | m # ms \<Rightarrow> db_offset db' \<le> length m"
    "pool_nodes (db', mp') = pool_nodes (db, mp)" "mp_pool mp' = mp_pool mp"
    using read_loop_spec [of sz ?db mp] assms c
    by (cases "db_msgs db") (auto simp: db_inv_def pool_nodes_def)
  have "databuffer_read sz (db, mp) = Inr (take sz (db_content db), db', mp')"
    using r(1) assms(1,3) by (simp add: databuffer_read_def db_inv_def)
  moreover have "db_inv db'" using r(2,3,5) assms by (simp add: db_inv_def)
  ultimately show ?thesis using r by blast
qed

lemma databuffer_clear_spec:
  "\<exists>mp'. databuffer_clear (db, mp) = (databuffer_zero, mp') \<and> pool_nodes (databuffer_zero, mp') = pool_nodes (db, mp) \<and>
     mp_pool mp' = mp_pool mp"
  by (simp add: databuffer_clear_def pool_nodes_def databuffer_zero_def)

lemma databuffer_readheader_spec:
  assumes inv: "db_inv db" and hs: "0 < hs"
  shows "\<exists>r db' mp'. databuffer_readheader hs (db, mp) = Inr (r, db', mp') \<and> db_inv db' \<and>
           pool_nodes (db', mp') = pool_nodes (db, mp) \<and> mp_pool mp' = mp_pool mp \<and>
           (let h = (if db_header db = 0 then header_value (take hs (db_content db)) else db_header db);
                c = (if db_header db = 0 then drop hs (db_content db) else db_content db)
            in if db_header db = 0 \<and> length (db_content db) < hs
               then r = -1 \<and> db_header db' = 0 \<and> db_content db' = db_content db
               else r = (if int (length c) < h then -1 else h) \<and> db_header db' = h \<and> db_content db' = c)"
proof -
  have sz: "\<And>db. db_inv db \<Longrightarrow> db_size db = int (length (db_content db))" by (simp add: db_inv_def)
  consider "db_header db = 0" "length (db_content db) < hs" | "db_header db = 0" "hs \<le> length (db_content db)"
    | "db_header db \<noteq> 0" by linarith
  then show ?thesis
  proof cases
    case 1
    then show ?thesis using inv sz by (simp add: databuffer_readheader_def)
  next
    case 2
    obtain db' mp' where r: "databuffer_read hs (db, mp) = Inr (take hs (db_content db), db', mp')" "db_inv db'"
      "db_content db' = drop hs (db_content db)" "pool_nodes (db', mp') = pool_nodes (db, mp)" "mp_pool mp' = mp_pool mp"
      using databuffer_read_spec [OF inv hs 2(2)] by blast
    then show ?thesis using 2 inv sz [OF inv] sz [OF r(2)]
      by (simp add: databuffer_readheader_def Let_def res_simps pool_nodes_def)
  next
    case 3
    then show ?thesis using inv sz by (simp add: databuffer_readheader_def)
  qed
qed

section \<open>The length field\<close>

text \<open>Two bytes give a number below \<open>2 ^ 16\<close>.\<close>

lemma header_value_2: "header_value [a, b] = 256 * uint a + uint b"
  using uint_lt2p [of a] uint_lt2p [of b]
  by (simp add: header_value_def sint_uint be_word2 signed_take_bit_31)

lemma header_value_4:
  "header_value [a, b, c, d] =
     (let v = 16777216 * uint a + 65536 * uint b + 256 * uint c + uint d in if v < 2 ^ 31 then v else v - 2 ^ 32)"
  using uint_lt2p [of a] uint_lt2p [of b] uint_lt2p [of c] uint_lt2p [of d]
  by (simp add: header_value_def sint_uint be_word4 signed_take_bit_31 Let_def)

end
