(* ===== verification/Gate.thy ===== *)
theory Gate
  imports Server HashId DataBuffer
begin

text \<open>
  The gate service, \<open>service-src/service_gate.c\<close>: it listens on a port, numbers its
  connections through the table of \<open>HashId\<close>, cuts the byte stream of each connection into
  packages with the buffer of \<open>DataBuffer\<close>, and forwards every package to the broker, to the
  agent of the connection or to the watchdog. The calls it makes into the kernel and the
  socket layer are recorded in order in the field \<open>g_calls\<close>; what \<open>skynet_queryname\<close> and
  \<open>skynet_socket_listen\<close> answer is the record \<open>gate_env\<close>.
\<close>

section \<open>Data\<close>

record connection =
  c_id :: int
  c_agent :: u32
  c_client :: u32
  c_remote_name :: string
  c_buffer :: databuffer

datatype gate_call =
    Call_close int
  | Call_start int
  | Call_listen string int int
  | Call_socket_send int bytes
  | Call_send u32 u32 int int bytes \<comment> \<open>source, destination, type, session, data\<close>
  | Call_error string
  | Call_callback

record gate =
  g_listen_id :: int
  g_watchdog :: u32
  g_broker :: u32
  g_client_tag :: int
  g_header_size :: nat
  g_max_connection :: nat
  g_hash :: hashid
  g_conn :: "connection list"
  g_mp :: messagepool
  g_calls :: "gate_call list"

record gate_env =
  ge_queryname :: "string \<Rightarrow> u32"
  ge_listen :: "string \<Rightarrow> int \<Rightarrow> int \<Rightarrow> int"

definition SKYNET_SOCKET_TYPE_DATA :: int where "SKYNET_SOCKET_TYPE_DATA = 1"
definition SKYNET_SOCKET_TYPE_CONNECT :: int where "SKYNET_SOCKET_TYPE_CONNECT = 2"
definition SKYNET_SOCKET_TYPE_CLOSE :: int where "SKYNET_SOCKET_TYPE_CLOSE = 3"
definition SKYNET_SOCKET_TYPE_ACCEPT :: int where "SKYNET_SOCKET_TYPE_ACCEPT = 4"
definition SKYNET_SOCKET_TYPE_ERROR :: int where "SKYNET_SOCKET_TYPE_ERROR = 5"
definition SKYNET_SOCKET_TYPE_WARNING :: int where "SKYNET_SOCKET_TYPE_WARNING = 7"

definition BACKLOG :: int where "BACKLOG = 32"

definition emit :: "gate_call list \<Rightarrow> gate \<Rightarrow> gate" where
  "emit cs g = g\<lparr>g_calls := g_calls g @ cs\<rparr>"

section \<open>Creation and release\<close>

definition connection_zero :: connection where
  "connection_zero = \<lparr>c_id = 0, c_agent = 0, c_client = 0, c_remote_name = '''', c_buffer = databuffer_zero\<rparr>"

definition gate_create :: gate where
  "gate_create =
     \<lparr>g_listen_id = -1, g_watchdog = 0, g_broker = 0, g_client_tag = 0, g_header_size = 0, g_max_connection = 0,
      g_hash = \<lparr>hi_hashmod = 0, hi_cap = 0, hi_count = 0, hi_id = [], hi_next = [], hi_hash = []\<rparr>,
      g_conn = [], g_mp = \<lparr>mp_pool = 0, mp_freelist = 0\<rparr>, g_calls = []\<rparr>"

definition gate_release :: "gate \<Rightarrow> gate" where
  "gate_release g =
     (let g = emit (map (\<lambda>c. Call_close (c_id c)) (filter (\<lambda>c. c_id c \<ge> 0) (g_conn g))) g;
          g = (if g_listen_id g \<ge> 0 then emit [Call_close (g_listen_id g)] g else g)
      in g\<lparr>g_mp := messagepool_free (g_mp g), g_hash := hashid_clear (g_hash g), g_conn := []\<rparr>)"

section \<open>Control commands\<close>

text \<open>
  The text of a command is copied to a local array with a NUL behind it; \<open>cstr_at\<close> is the C
  string that starts at an offset of such an array.
\<close>

definition cstr_at :: "string \<Rightarrow> nat \<Rightarrow> string res" where
  "cstr_at buf p =
     (if CHR 0x00 \<in> set (drop p buf) then Inr (takeWhile (\<lambda>c. c \<noteq> CHR 0x00) (drop p buf))
      else Inl (Out_of_bounds ''cstr_at''))"

text \<open>\<open>_parm\<close>: the characters behind the command and its spaces move to the front.\<close>

definition parm :: "string \<Rightarrow> nat \<Rightarrow> nat \<Rightarrow> string" where
  "parm msg sz command_sz =
     (let rest = dropWhile (\<lambda>c. c = CHR '' '') (drop command_sz (take sz msg)) in
      rest @ CHR 0x00 # drop (Suc (length rest)) msg)"

text \<open>\<open>strsep\<close> at an offset: the field starts there, its delimiter becomes NUL.\<close>

definition strsep_at :: "string \<Rightarrow> nat \<Rightarrow> (nat option \<times> string) res" where
  "strsep_at buf p =
     res_bind (cstr_at buf p) (\<lambda>s.
       let w = takeWhile (\<lambda>c. c \<noteq> CHR '' '') s in
       if length w = length s then Inr (None, buf)
       else Inr (Some (p + length w + 1), buf[p + length w := CHR 0x00]))"

text \<open>
  \<open>memcmp(command, lit, n) == 0\<close>, byte by byte up to the first difference; equality beyond
  the terminating NUL of the literal would read behind it.
\<close>

fun memcmp_lit :: "string \<Rightarrow> string \<Rightarrow> nat \<Rightarrow> bool res" where
  "memcmp_lit cmd lit 0 = Inr True"
| "memcmp_lit (c # cmd) (l # lit) (Suc n) = (if c = l then memcmp_lit cmd lit n else Inr False)"
| "memcmp_lit (c # cmd) [] (Suc n) =
     (if c \<noteq> CHR 0x00 then Inr False else if n = 0 then Inr True else Inl (Out_of_bounds ''memcmp''))"
| "memcmp_lit [] lit (Suc n) = Inl (Out_of_bounds ''memcmp'')"

definition gate_lookup :: "gate \<Rightarrow> int \<Rightarrow> int run" where
  "gate_lookup g uid = map_option Inr (hashid_lookup (g_hash g) uid)"

definition upd_conn :: "nat \<Rightarrow> (connection \<Rightarrow> connection) \<Rightarrow> gate \<Rightarrow> gate" where
  "upd_conn x f g = g\<lparr>g_conn := (g_conn g)[x := f (g_conn g ! x)]\<rparr>"

definition forward_agent :: "gate \<Rightarrow> int \<Rightarrow> u32 \<Rightarrow> u32 \<Rightarrow> gate run" where
  "forward_agent g fd agentaddr clientaddr =
     run_bind (gate_lookup g fd) (\<lambda>x.
       if x \<ge> 0 then Some (Inr (upd_conn (nat x) (\<lambda>c. c\<lparr>c_agent := agentaddr, c_client := clientaddr\<rparr>) g))
       else Some (Inr g))"

definition ctrl_kick :: "gate \<Rightarrow> string \<Rightarrow> gate run" where
  "ctrl_kick g tmp =
     run_bind (Some (cstr_at tmp 0)) (\<lambda>command.
     let uid = int_of_long (strtol10 command) in
     run_bind (gate_lookup g uid) (\<lambda>x. Some (Inr (if x \<ge> 0 then emit [Call_close uid] g else g))))"

definition ctrl_start :: "gate \<Rightarrow> string \<Rightarrow> gate run" where
  "ctrl_start g tmp =
     run_bind (Some (cstr_at tmp 0)) (\<lambda>command.
     let uid = int_of_long (strtol10 command) in
     run_bind (gate_lookup g uid) (\<lambda>x. Some (Inr (if x \<ge> 0 then emit [Call_start uid] g else g))))"

definition ctrl_forward :: "gate \<Rightarrow> string \<Rightarrow> gate run" where
  "ctrl_forward g tmp =
     run_bind (Some (strsep_at tmp 0)) (\<lambda>(client, tmp).
       case client of
         None \<Rightarrow> Some (Inr g)
       | Some agent \<Rightarrow>
           run_bind (Some (cstr_at tmp 0)) (\<lambda>idstr.
           run_bind (Some (strsep_at tmp agent)) (\<lambda>(client, tmp).
             case client of
               None \<Rightarrow> Some (Inr g)
             | Some client \<Rightarrow>
                 run_bind (Some (cstr_at tmp (agent + 1))) (\<lambda>agentstr.
                 run_bind (Some (cstr_at tmp (client + 1))) (\<lambda>clientstr.
                   forward_agent g (int_of_long (strtol10 idstr)) (ucast (strtoul16 agentstr))
                     (ucast (strtoul16 clientstr)))))))"

definition ctrl :: "gate_env \<Rightarrow> gate \<Rightarrow> bytes \<Rightarrow> gate run" where
  "ctrl env g msg =
     (let sz = length msg; tmp = bytes_string msg @ [CHR 0x00] in
      if sz = 0 then Some (Inr g)
      else
        let i = length (takeWhile (\<lambda>c. c \<noteq> CHR '' '') (take sz tmp)) in
        run_bind (Some (memcmp_lit tmp ''kick'' i)) (\<lambda>kick.
        if kick then ctrl_kick g (parm tmp sz i) else
        run_bind (Some (memcmp_lit tmp ''forward'' i)) (\<lambda>forward.
        if forward then ctrl_forward g (parm tmp sz i) else
        run_bind (Some (memcmp_lit tmp ''broker'' i)) (\<lambda>broker.
        if broker then
          run_bind (Some (cstr_at (parm tmp sz i) 0)) (\<lambda>command.
            Some (Inr (g\<lparr>g_broker := ge_queryname env command\<rparr>))) else
        run_bind (Some (memcmp_lit tmp ''start'' i)) (\<lambda>start.
        if start then ctrl_start g (parm tmp sz i) else
        run_bind (Some (memcmp_lit tmp ''close'' i)) (\<lambda>close.
        if close then
          Some (Inr (if g_listen_id g \<ge> 0 then (emit [Call_close (g_listen_id g)] g)\<lparr>g_listen_id := -1\<rparr> else g)) else
        run_bind (Some (cstr_at tmp 0)) (\<lambda>command.
          Some (Inr (emit [Call_error (''[gate] Unkown command : '' @ command)] g)))))))))"

section \<open>Reports and packages\<close>

definition report :: "gate \<Rightarrow> string \<Rightarrow> gate res" where
  "report g text =
     (if g_watchdog g = 0 then Inr g
      else if length text \<ge> 1024 then Inl (Out_of_bounds ''_report'')
      else Inr (emit [Call_send 0 (g_watchdog g) PTYPE_TEXT 0 (string_bytes text)] g))"

definition put_buffer :: "nat \<Rightarrow> databuffer \<times> messagepool \<Rightarrow> gate \<Rightarrow> gate" where
  "put_buffer x st g = upd_conn x (\<lambda>c. c\<lparr>c_buffer := fst st\<rparr>) (g\<lparr>g_mp := snd st\<rparr>)"

definition get_buffer :: "nat \<Rightarrow> gate \<Rightarrow> databuffer \<times> messagepool" where
  "get_buffer x g = (c_buffer (g_conn g ! x), g_mp g)"

definition forward :: "gate \<Rightarrow> nat \<Rightarrow> nat \<Rightarrow> gate res" where
  "forward g x n =
     (let c = g_conn g ! x in
      if g_broker g \<noteq> 0 then
        res_bind (databuffer_read n (get_buffer x g)) (\<lambda>(temp, st).
          Inr (emit [Call_send 0 (g_broker g) (g_client_tag g OR PTYPE_TAG_DONTCOPY) 1 temp] (put_buffer x st g)))
      else if c_agent c \<noteq> 0 then
        res_bind (databuffer_read n (get_buffer x g)) (\<lambda>(temp, st).
          Inr (emit [Call_send (c_client c) (c_agent c) (g_client_tag g OR PTYPE_TAG_DONTCOPY) 1 temp]
                 (put_buffer x st g)))
      else if g_watchdog g \<noteq> 0 then
        res_bind (databuffer_read n (get_buffer x g)) (\<lambda>(temp, st).
          Inr (emit [Call_send 0 (g_watchdog g) (PTYPE_TEXT OR PTYPE_TAG_DONTCOPY) 1
                       (string_bytes (fmt_d (c_id c) @ '' data '') @ temp)] (put_buffer x st g)))
      else Inr g)"

partial_function (option) package_loop :: "nat \<Rightarrow> int \<Rightarrow> gate \<Rightarrow> gate run" where
  "package_loop x sid g =
     (case databuffer_readheader (g_header_size g) (get_buffer x g) of
        Inl e \<Rightarrow> Some (Inl e)
      | Inr (n, st) \<Rightarrow>
          let g = put_buffer x st g in
          if n < 0 then Some (Inr g)
          else if n > 0 then
            if n \<ge> 0x1000000 then
              Some (Inr (emit [Call_close sid, Call_error ''Recv socket message > 16M'']
                (put_buffer x (databuffer_clear (get_buffer x g)) g)))
            else
              (case forward g x (nat n) of
                 Inl e \<Rightarrow> Some (Inl e)
               | Inr g \<Rightarrow> package_loop x sid (upd_conn x (\<lambda>c. c\<lparr>c_buffer := databuffer_reset (c_buffer c)\<rparr>) g))
          else package_loop x sid g)"

definition gate_dispatch_message :: "gate \<Rightarrow> nat \<Rightarrow> int \<Rightarrow> bytes \<Rightarrow> gate run" where
  "gate_dispatch_message g x sid data =
     package_loop x sid (put_buffer x (databuffer_push data (get_buffer x g)) g)"

section \<open>Socket events\<close>

definition socket_data :: "gate \<Rightarrow> int \<Rightarrow> bytes \<Rightarrow> gate run" where
  "socket_data g sid data =
     run_bind (gate_lookup g sid) (\<lambda>x.
       if x \<ge> 0 then gate_dispatch_message g (nat x) sid data
       else Some (Inr (emit [Call_error (''Drop unknown connection '' @ fmt_d sid @ '' message''), Call_close sid] g)))"

definition socket_connect :: "gate \<Rightarrow> int \<Rightarrow> gate run" where
  "socket_connect g sid =
     (if sid = g_listen_id g then Some (Inr g)
      else run_bind (gate_lookup g sid) (\<lambda>x.
        Some (Inr (if x < 0 then emit [Call_error (''Close unknown connection '' @ fmt_d sid), Call_close sid] g else g))))"

definition socket_close :: "gate \<Rightarrow> int \<Rightarrow> gate run" where
  "socket_close g sid =
     (case hashid_remove sid (g_hash g) of
        None \<Rightarrow> None
      | Some (x, h) \<Rightarrow>
          let g = g\<lparr>g_hash := h\<rparr> in
          if x \<ge> 0 then
            let g = put_buffer (nat x) (databuffer_clear (get_buffer (nat x) g)) g;
                g = upd_conn (nat x) (\<lambda>c. connection_zero\<lparr>c_id := -1\<rparr>) g
            in Some (report g (fmt_d sid @ '' close''))
          else Some (Inr g))"

definition socket_accept :: "gate \<Rightarrow> int \<Rightarrow> int \<Rightarrow> bytes \<Rightarrow> gate res" where
  "socket_accept g sid ud text =
     res_assert ''dispatch_socket_message'' (g_listen_id g = sid)
       (if hashid_full (g_hash g) then Inr (emit [Call_close ud] g)
        else
          res_bind (hashid_insert ud (g_hash g)) (\<lambda>(x, h).
            let name = takeWhile (\<lambda>c. c \<noteq> CHR 0x00) (bytes_string (take 31 text));
                g = upd_conn (nat x) (\<lambda>c. c\<lparr>c_id := ud, c_remote_name := name\<rparr>) (g\<lparr>g_hash := h\<rparr>)
            in res_bind (report g (fmt_d ud @ '' open '' @ fmt_d ud @ '' '' @ name @ '':0'')) (\<lambda>g.
               Inr (emit [Call_error (''socket open: '' @ fmt_x (of_int ud))] g))))"

definition dispatch_socket_message :: "gate \<Rightarrow> int \<Rightarrow> int \<Rightarrow> int \<Rightarrow> bytes option \<Rightarrow> bytes \<Rightarrow> gate run" where
  "dispatch_socket_message g type sid ud buffer text =
     (if type = SKYNET_SOCKET_TYPE_DATA then
        (case buffer of None \<Rightarrow> Some (Inl (Bad_pointer ''message'')) | Some data \<Rightarrow> socket_data g sid (take (nat ud) data))
      else if type = SKYNET_SOCKET_TYPE_CONNECT then socket_connect g sid
      else if type = SKYNET_SOCKET_TYPE_CLOSE \<or> type = SKYNET_SOCKET_TYPE_ERROR then socket_close g sid
      else if type = SKYNET_SOCKET_TYPE_ACCEPT then Some (socket_accept g sid ud text)
      else if type = SKYNET_SOCKET_TYPE_WARNING then
        Some (Inr (emit [Call_error (''fd ('' @ fmt_d sid @ '') send buffer ('' @ fmt_d ud @ '')K'')] g))
      else Some (Inr g))"

section \<open>The callback of the service\<close>

text \<open>The socket id in the last four bytes of a client message, little-endian.\<close>

definition client_id :: "bytes \<Rightarrow> u32" where
  "client_id b = ucast (b ! 0) OR push_bit 8 (ucast (b ! 1)) OR push_bit 16 (ucast (b ! 2)) OR push_bit 24 (ucast (b ! 3))"

definition gate_cb :: "gate_env \<Rightarrow> gate \<Rightarrow> int \<Rightarrow> u32 \<Rightarrow> payload \<Rightarrow> (int \<times> gate) run" where
  "gate_cb env g type source msg =
     (case msg of
        Block b \<Rightarrow>
          if type = PTYPE_TEXT then run_bind (ctrl env g b) (\<lambda>g. Some (Inr (0, g)))
          else if type = PTYPE_CLIENT then
            if length b \<le> 4 then
              Some (Inr (0, emit [Call_error (''Invalid client message from '' @ fmt_x source)] g))
            else
              let uid = client_id (drop (length b - 4) b) in
              run_bind (gate_lookup g (sint uid)) (\<lambda>x.
                if x \<ge> 0 then Some (Inr (1, emit [Call_socket_send (sint uid) (take (length b - 4) b)] g))
                else Some (Inr (0, emit [Call_error
                  (''Invalid client id '' @ fmt_d (sint uid) @ '' from '' @ fmt_x source)] g)))
          else if type = PTYPE_SOCKET then Some (Inl (Bad_pointer ''_cb''))
          else Some (Inr (0, g))
      | Socket_message t sid ud buffer text \<Rightarrow>
          if type = PTYPE_SOCKET then
            run_bind (dispatch_socket_message g t sid ud buffer text) (\<lambda>g. Some (Inr (0, g)))
          else Some (Inl (Bad_pointer ''_cb''))
      | _ \<Rightarrow> Some (Inl (Bad_pointer ''_cb'')))"

section \<open>Initialisation\<close>

definition strchr_split :: "char \<Rightarrow> string \<Rightarrow> (string \<times> string) option" where
  "strchr_split d s = (if d \<in> set s then Some (takeWhile (\<lambda>c. c \<noteq> d) s, tl (dropWhile (\<lambda>c. c \<noteq> d) s)) else None)"

definition start_listen :: "gate_env \<Rightarrow> gate \<Rightarrow> string \<Rightarrow> int \<times> gate" where
  "start_listen env g listen_addr =
     (let (host, portstr) = (case strchr_split CHR '':'' listen_addr of
                               None \<Rightarrow> ('''', listen_addr) | Some (h, p) \<Rightarrow> (h, p));
          port = int_of_long (strtol10 portstr)
      in if port \<le> 0 then (1, emit [Call_error (''Invalid gate address '' @ listen_addr)] g)
         else
           let sid = ge_listen env host port BACKLOG;
               g = (emit [Call_listen host port BACKLOG] g)\<lparr>g_listen_id := sid\<rparr>
           in if sid < 0 then (1, g) else (0, emit [Call_start sid] g))"

text \<open>The conversion \<open>%d\<close> of \<open>sscanf\<close>.\<close>

definition scan_int :: "string \<Rightarrow> int option \<times> string" where
  "scan_int s =
     (let (neg, t) = read_sign (dropWhile is_space s) in
      case t of
        [] \<Rightarrow> (None, [])
      | c # cs \<Rightarrow>
          if digit_value 10 c = None then (None, t)
          else (Some (int_of_long (strtol10 (dropWhile is_space s))), snd (read_digits 10 0 t)))"

text \<open>\<open>sscanf(parm, "%c %s %s %d %d", ...)\<close>; the last number may be missing.\<close>

definition scan_parm :: "string \<Rightarrow> (char \<times> string \<times> string \<times> int \<times> int option) option" where
  "scan_parm s =
     (case s of
        [] \<Rightarrow> None
      | header # s \<Rightarrow>
          let (watchdog, s) = scan_word s; (binding, s) = scan_word s; (tag, s) = scan_int s; (mx, s) = scan_int s in
          (case (watchdog, binding, tag) of
             (Some w, Some b, Some t) \<Rightarrow> Some (header, w, b, t, mx)
           | _ \<Rightarrow> None))"

definition gate_init :: "gate_env \<Rightarrow> gate \<Rightarrow> string option \<Rightarrow> int \<times> gate" where
  "gate_init env g p =
     (case p of
        None \<Rightarrow> (1, g)
      | Some p \<Rightarrow>
          case scan_parm p of
            None \<Rightarrow> (1, emit [Call_error (''Invalid gate parm '' @ p)] g)
          | Some (header, watchdog, binding, client_tag, mx) \<Rightarrow>
              let mx = (case mx of None \<Rightarrow> 0 | Some m \<Rightarrow> m) in
              if mx \<le> 0 then (1, emit [Call_error ''Need max connection''] g)
              else if header \<noteq> CHR ''S'' \<and> header \<noteq> CHR ''L'' then
                (1, emit [Call_error ''Invalid data header style''] g)
              else
                let client_tag = (if client_tag = 0 then PTYPE_CLIENT else client_tag);
                    g = g\<lparr>g_watchdog := (if hd watchdog = CHR ''!'' then 0 else ge_queryname env watchdog)\<rparr>
                in if hd watchdog \<noteq> CHR ''!'' \<and> g_watchdog g = 0
                   then (1, emit [Call_error (''Invalid watchdog '' @ watchdog)] g)
                   else
                     let g = g\<lparr>g_hash := hashid_init (nat mx),
                               g_conn := replicate (nat mx) (connection_zero\<lparr>c_id := -1\<rparr>),
                               g_max_connection := nat mx, g_client_tag := client_tag,
                               g_header_size := (if header = CHR ''S'' then 2 else 4)\<rparr>
                     in start_listen env (emit [Call_callback] g) binding)"

end
