(* ===== verification/SocketMessages.thy ===== *)
theory SocketMessages
  imports SocketProps KernelProps Gate
begin

text \<open>
  The socket messages of services, \<open>skynet-src/skynet_socket.c\<close>: the socket server of \<open>SocketServer\<close> over the
  kernel of \<open>Kernel\<close>. An event becomes one message in the queue of the service that owns the socket, and a
  datagram can be answered to the address it came from. The file keeps one socket server; it is an
  argument here. The return value of \<open>skynet_socket_poll\<close> tells whether to go on; the flag \<open>more\<close>, which
  only decides whether idle workers are woken, is left out.
\<close>

section \<open>Calls of services\<close>

definition skynet_socket_init :: "(nat \<Rightarrow> socket) \<Rightarrow> socket_server" where
  "skynet_socket_init = socket_server_create"

definition skynet_socket_exit :: "socket_server \<Rightarrow> socket_server" where
  "skynet_socket_exit = socket_server_exit"

definition skynet_socket_free :: "socket_server \<Rightarrow> socket_server res" where
  "skynet_socket_free = socket_server_release"

definition skynet_socket_send :: "int \<Rightarrow> sbuf \<Rightarrow> socket_server \<Rightarrow> (int \<times> socket_server) res" where
  "skynet_socket_send = socket_server_send"

definition skynet_socket_send_lowpriority :: "int \<Rightarrow> sbuf \<Rightarrow> socket_server \<Rightarrow> (int \<times> socket_server) res" where
  "skynet_socket_send_lowpriority = socket_server_send_lowpriority"

text \<open>\<open>source\<close> is the handle of the calling service.\<close>

definition skynet_socket_listen :: "u32 \<Rightarrow> int \<Rightarrow> socket_server \<Rightarrow> int \<times> socket_server" where
  "skynet_socket_listen source = socket_server_listen (unat source)"

definition skynet_socket_connect :: "u32 \<Rightarrow> string \<Rightarrow> int \<Rightarrow> socket_server \<Rightarrow> int \<times> socket_server" where
  "skynet_socket_connect source = socket_server_connect (unat source)"

definition skynet_socket_bind :: "u32 \<Rightarrow> int \<Rightarrow> socket_server \<Rightarrow> int \<times> socket_server" where
  "skynet_socket_bind source = socket_server_bind (unat source)"

definition skynet_socket_close :: "u32 \<Rightarrow> int \<Rightarrow> socket_server \<Rightarrow> socket_server" where
  "skynet_socket_close source = socket_server_close (unat source)"

definition skynet_socket_shutdown :: "u32 \<Rightarrow> int \<Rightarrow> socket_server \<Rightarrow> socket_server" where
  "skynet_socket_shutdown source = socket_server_shutdown (unat source)"

definition skynet_socket_start :: "u32 \<Rightarrow> int \<Rightarrow> socket_server \<Rightarrow> socket_server" where
  "skynet_socket_start source = socket_server_start (unat source)"

definition skynet_socket_nodelay :: "int \<Rightarrow> socket_server \<Rightarrow> socket_server" where
  "skynet_socket_nodelay = socket_server_nodelay"

definition skynet_socket_udp :: "u32 \<Rightarrow> int \<Rightarrow> bool \<Rightarrow> socket_server \<Rightarrow> int \<times> socket_server" where
  "skynet_socket_udp source = socket_server_udp (unat source)"

definition skynet_socket_udp_connect :: "int \<Rightarrow> sockaddr option \<Rightarrow> socket_server \<Rightarrow> int \<times> socket_server" where
  "skynet_socket_udp_connect = socket_server_udp_connect"

definition skynet_socket_udp_send :: "int \<Rightarrow> bytes \<Rightarrow> sbuf \<Rightarrow> bytes \<Rightarrow> socket_server \<Rightarrow> (int \<times> socket_server) res" where
  "skynet_socket_udp_send = socket_server_udp_send"

definition SKYNET_SOCKET_TYPE_UDP :: int where "SKYNET_SOCKET_TYPE_UDP = 6"

text \<open>The address that follows the data of a datagram.\<close>

definition skynet_socket_udp_address :: "int \<Rightarrow> int \<Rightarrow> int \<Rightarrow> bytes \<Rightarrow> bytes option" where
  "skynet_socket_udp_address type sid ud buffer =
     (if type \<noteq> SKYNET_SOCKET_TYPE_UDP then None
      else socket_server_udp_address \<lparr>sm_id = sid, sm_opaque = 0, sm_ud = ud, sm_data = Data buffer\<rparr>)"

section \<open>Events\<close>

text \<open>The type of the message and whether the text is copied behind it.\<close>

fun message_type :: "socket_event \<Rightarrow> (int \<times> bool) option" where
  "message_type SOCKET_DATA = Some (SKYNET_SOCKET_TYPE_DATA, False)"
| "message_type SOCKET_CLOSE = Some (SKYNET_SOCKET_TYPE_CLOSE, False)"
| "message_type SOCKET_OPEN = Some (SKYNET_SOCKET_TYPE_CONNECT, True)"
| "message_type SOCKET_ERR = Some (SKYNET_SOCKET_TYPE_ERROR, True)"
| "message_type SOCKET_ACCEPT = Some (SKYNET_SOCKET_TYPE_ACCEPT, True)"
| "message_type SOCKET_UDP = Some (SKYNET_SOCKET_TYPE_UDP, False)"
| "message_type SOCKET_WARNING = Some (SKYNET_SOCKET_TYPE_WARNING, False)"
| "message_type SOCKET_EXIT = None"

definition result_data :: "sm_data \<Rightarrow> bytes option" where
  "result_data d = (case d of No_data \<Rightarrow> None | Text s \<Rightarrow> Some (string_bytes s) | Peer b \<Rightarrow> Some b | Data b \<Rightarrow> Some b)"

definition skynet_socket_poll ::
  "services \<Rightarrow> os list \<Rightarrow> socket_message \<Rightarrow> socket_server \<times> kernel \<Rightarrow> (bool \<times> socket_server \<times> kernel) run" where
  "skynet_socket_poll sv ks junk = (\<lambda>(ss, k).
     run_bind (socket_server_poll ks junk ss) (\<lambda>(ty, r, ss).
       Some (case ty of
         None \<Rightarrow> res_bind (skynet_error sv None ''Unknown socket message type -1.'' k) (\<lambda>k. Inr (True, ss, k))
       | Some t \<Rightarrow>
           (case message_type t of
              None \<Rightarrow> Inr (False, ss, k)
            | Some (n, padding) \<Rightarrow>
                res_bind (forward_message sv n padding (sm_id r) (of_nat (sm_opaque r)) (sm_ud r) (result_data (sm_data r)) k)
                  (\<lambda>k. Inr (True, ss, k))))))"

lemma socket_event_delivered:
  assumes k: "kinv k" and p: "socket_server_poll ks junk ss = Some (Inr (Some t, r, ss'))" and t: "message_type t = Some (n, False)"
    and own: "inbox k (of_nat (sm_opaque r)) = Some ms"
  shows "\<exists>k' m. skynet_socket_poll sv ks junk (ss, k) = Some (Inr (True, ss', k')) \<and> kinv k' \<and>
    inbox k' = (inbox k)(of_nat (sm_opaque r) \<mapsto> ms @ [m]) \<and>
    msg_data m = Some (Socket_message n (sm_id r) (sm_ud r) (result_data (sm_data r)) [])"
proof -
  let ?m = "\<lparr>msg_source = 0, msg_session = 0, msg_data = Some (Socket_message n (sm_id r) (sm_ud r) (result_data (sm_data r)) []),
    msg_sz = 24 OR push_bit MESSAGE_TYPE_SHIFT (of_int PTYPE_SOCKET)\<rparr>"
  obtain h where h: "skynet_context_push sv (of_nat (sm_opaque r)) ?m k = Inr (0, k\<lparr>k_mqs := h\<rparr>)" "kinv (k\<lparr>k_mqs := h\<rparr>)"
    "inbox (k\<lparr>k_mqs := h\<rparr>) = (inbox k)(of_nat (sm_opaque r) \<mapsto> ms @ [?m])"
    using push_spec [OF k, where h = "of_nat (sm_opaque r)" and sv = sv and m = ?m] own by auto
  have "forward_message sv n False (sm_id r) (of_nat (sm_opaque r)) (sm_ud r) (result_data (sm_data r)) k = Inr (k\<lparr>k_mqs := h\<rparr>)"
    using h(1) by (simp add: forward_message_def)
  then have "skynet_socket_poll sv ks junk (ss, k) = Some (Inr (True, ss', k\<lparr>k_mqs := h\<rparr>))"
    using p t by (simp add: skynet_socket_poll_def run_bind_def)
  then show ?thesis using h(2,3) by (intro exI [of _ "k\<lparr>k_mqs := h\<rparr>"] exI [of _ ?m]) simp
qed

lemma poll_data:
  assumes q: "\<not> ss_checkctrl ss \<or> ss_pipe ss = []" and e: "ss_event_index ss < length (ss_ev ss)"
    "ss_ev ss ! ss_event_index ss = \<lparr>ev_s = Some i, ev_read = True, ev_write = w\<rparr>"
    and s: "s_type (ss_slot ss i) = SOCKET_TYPE_CONNECTED" "s_protocol (ss_slot ss i) = PROTOCOL_TCP"
    and b: "os_read o1 = Got b" "b \<noteq> []" "0 < s_size (ss_slot ss i)"
  shows "\<exists>ss'. socket_server_poll [o1] junk ss = Some (Inr (Some SOCKET_DATA,
      socket_result (ss_slot ss i) (int (length (take (s_size (ss_slot ss i)) b))) (Data (take (s_size (ss_slot ss i)) b)), ss'))"
proof -
  have n: "take (s_size (ss_slot ss i)) b \<noteq> []" using b by simp
  have "\<exists>ss'. poll_step o1 junk ss = Inr (Return (Some SOCKET_DATA),
      socket_result (ss_slot ss i) (int (length (take (s_size (ss_slot ss i)) b))) (Data (take (s_size (ss_slot ss i)) b)), ss')"
    using q e s b n by (auto simp: poll_step_def poll_event_def poll_transfer_def forward_message_tcp_def Let_def)
  then show ?thesis by auto
qed

text \<open>
  C33: when a connected TCP socket is readable, the bytes the system gives, as many as one read takes, become the
  buffer of one message in the queue of the service that owns the socket, with the identifier of the socket
  and their number; no other queue changes.
\<close>

theorem socket_data_delivered:
  assumes "kinv k" "\<not> ss_checkctrl ss \<or> ss_pipe ss = []" "ss_event_index ss < length (ss_ev ss)"
    "ss_ev ss ! ss_event_index ss = \<lparr>ev_s = Some i, ev_read = True, ev_write = w\<rparr>"
    "s_type (ss_slot ss i) = SOCKET_TYPE_CONNECTED" "s_protocol (ss_slot ss i) = PROTOCOL_TCP"
    "os_read o1 = Got b" "b \<noteq> []" "0 < s_size (ss_slot ss i)"
    "s_opaque (ss_slot ss i) = unat owner" "inbox k owner = Some ms"
  shows "\<exists>ss' k' m. skynet_socket_poll sv [o1] junk (ss, k) = Some (Inr (True, ss', k')) \<and> kinv k' \<and>
    inbox k' = (inbox k)(owner \<mapsto> ms @ [m]) \<and>
    msg_data m = Some (Socket_message SKYNET_SOCKET_TYPE_DATA (s_id (ss_slot ss i)) (int (min (s_size (ss_slot ss i)) (length b)))
      (Some (take (s_size (ss_slot ss i)) b)) [])"
proof -
  let ?r = "socket_result (ss_slot ss i) (int (length (take (s_size (ss_slot ss i)) b))) (Data (take (s_size (ss_slot ss i)) b))"
  obtain ss' where p: "socket_server_poll [o1] junk ss = Some (Inr (Some SOCKET_DATA, ?r, ss'))"
    using poll_data [OF assms(2-9)] by blast
  have r: "of_nat (sm_opaque ?r) = owner" using assms(10) by (simp add: socket_result_def)
  show ?thesis using socket_event_delivered [OF assms(1) p, of SKYNET_SOCKET_TYPE_DATA ms sv] r assms(11)
    by (auto simp: socket_result_def result_data_def min.commute)
qed

definition readable_server :: "u32 \<Rightarrow> socket_server" where
  "readable_server owner = (demo_server [] [] 0 [])
     \<lparr>ss_slot := (\<lambda>_. no_sock)(2 := no_sock\<lparr>s_type := SOCKET_TYPE_CONNECTED, s_id := 2, s_size := 64, s_opaque := unat owner\<rparr>),
      ss_ev := [\<lparr>ev_s = Some 2, ev_read = True, ev_write = False\<rparr>], ss_event_index := 0, ss_pipe := []\<rparr>"

theorem socket_data_delivered_witness:
  "\<exists>k owner ss' k' m. inbox k owner = Some [] \<and>
     skynet_socket_poll demo_services [(quiet_os [])\<lparr>os_read := Got [1, 2, 3]\<rparr>] no_message (readable_server owner, k) = Some (Inr (True, ss', k')) \<and>
     inbox k' owner = Some [m] \<and> msg_data m = Some (Socket_message SKYNET_SOCKET_TYPE_DATA 2 3 (Some [1, 2, 3]) [])"
proof -
  obtain k h where k: "kinv k" "inbox k = [h \<mapsto> []]" using demo_node by blast
  then have "inbox k h = Some []" by simp
  moreover have "\<exists>ss' k' m. skynet_socket_poll demo_services [(quiet_os [])\<lparr>os_read := Got [1, 2, 3]\<rparr>] no_message (readable_server h, k) =
      Some (Inr (True, ss', k')) \<and> kinv k' \<and> inbox k' = (inbox k)(h \<mapsto> [] @ [m]) \<and>
    msg_data m = Some (Socket_message SKYNET_SOCKET_TYPE_DATA (s_id (ss_slot (readable_server h) 2))
      (int (min (s_size (ss_slot (readable_server h) 2)) (length [1, 2, 3 :: u8]))) (Some (take (s_size (ss_slot (readable_server h) 2)) [1, 2, 3])) [])"
    by (rule socket_data_delivered [OF k(1), where w = False]) (use k in \<open>simp_all add: readable_server_def quiet_os_def no_sock_def\<close>)
  ultimately show ?thesis by (fastforce simp: readable_server_def)
qed

section \<open>Datagrams\<close>

fun sockaddr_ok :: "protocol \<Rightarrow> sockaddr \<Rightarrow> bool" where
  "sockaddr_ok PROTOCOL_UDP (SA_v4 port x) = (length port = 2 \<and> length x = 4)"
| "sockaddr_ok PROTOCOL_UDPv6 (SA_v6 port x) = (length port = 2 \<and> length x = 16)"
| "sockaddr_ok p a = False"

lemma udp_address_roundtrip:
  assumes "sockaddr_ok p sa"
  shows "udp_address_size (hd (gen_udp_address sa)) = Some (length (gen_udp_address sa))"
    "udp_socket_address p (gen_udp_address sa @ rest) = Some sa" "gen_udp_address sa \<noteq> []"
  using assms by (cases "(p, sa)" rule: sockaddr_ok.cases; simp add: gen_udp_address_def udp_address_size_def protocol_byte_def udp_socket_address_def)+

text \<open>
  C34: an answer to a datagram goes where the datagram came from: the message for a datagram carries its data and the
  sender, the address a service reads from it is accepted by \<open>socket_server_udp_send\<close>, and the request makes
  the server call \<open>sendto\<close> with the data and the port and address of the sender, for IPv4 and IPv6.
\<close>

theorem udp_answer_returns:
  assumes s: "s_type (ss_slot ss (HASH_ID sid)) = SOCKET_TYPE_CONNECTED" "s_protocol (ss_slot ss (HASH_ID sid)) = p" "s_id (ss_slot ss (HASH_ID sid)) = sid"
    "s_high (ss_slot ss (HASH_ID sid)) = []" "s_low (ss_slot ss (HASH_ID sid)) = []" "ss_pipe ss = []"
    and r: "os_recv k1 = Recv b sa" "sockaddr_ok p sa" "length b \<le> 65535" and t: "os_sendto k2 = Sent (length d) # ws"
  shows "\<exists>r addr ss1 ss2. forward_message_udp (HASH_ID sid) k1 m ss = Inr (Some SOCKET_UDP, r, ss) \<and>
    sm_id r = sid \<and> (\<exists>data. sm_data r = Data data \<and> take (nat (sm_ud r)) data = b \<and>
      skynet_socket_udp_address SKYNET_SOCKET_TYPE_UDP sid (sm_ud r) data = Some addr) \<and>
    skynet_socket_udp_send sid addr (Plain a d) junk ss = Inr (0, ss1) \<and> ctrl_cmd k2 m ss1 = Inr (None, m, ss2) \<and>
    ss_calls ss2 = ss_calls ss @ [Sys_sendto (s_fd (ss_slot ss (HASH_ID sid))) d (sockaddr_bytes (Some sa)), Free_buffer (Plain a d)]"
proof -
  let ?s = "ss_slot ss (HASH_ID sid)" and ?addr = "gen_udp_address sa"
  note rt = udp_address_roundtrip [OF r(2)]
  have p: "(case sa of SA_v4 _ _ \<Rightarrow> PROTOCOL_UDP | SA_v6 _ _ \<Rightarrow> PROTOCOL_UDPv6) = p" "p \<noteq> PROTOCOL_TCP"
    using r(2) by (cases "(p, sa)" rule: sockaddr_ok.cases; simp)+
  have 1: "forward_message_udp (HASH_ID sid) k1 m ss = Inr (Some SOCKET_UDP, socket_result ?s (int (length b)) (Data (b @ ?addr)), ss)"
    using r(1,3) p(1) s(2) by (simp add: forward_message_udp_def Let_def)
  have 2: "skynet_socket_udp_address SKYNET_SOCKET_TYPE_UDP sid (int (length b)) (b @ ?addr) = Some ?addr"
    using rt(1) by (simp add: skynet_socket_udp_address_def socket_server_udp_address_def Let_def)
  let ?q = "Req_send_udp sid (Plain a d) (?addr @ drop (length ?addr) junk)"
  have 3: "skynet_socket_udp_send sid ?addr (Plain a d) junk ss = Inr (0, send_request ?q ss)"
    using s rt(1) by (simp add: skynet_socket_udp_send_def socket_server_udp_send_def Let_def)
  have 4: "ctrl_cmd k2 m (send_request ?q ss) = Inr (None, m, log_calls [Sys_sendto (s_fd ?s) d (sockaddr_bytes (Some sa)), Free_buffer (Plain a d)] ss)"
    using s t p(2) rt(2) by (simp add: ctrl_cmd_def send_request_def send_socket_def send_object_init_def Let_def send_buffer_empty_def log_calls_def)
  show ?thesis using 1 2 3 4 s(3)
    by (intro exI conjI) (auto simp: socket_result_def log_calls_def)
qed

definition udp_server :: socket_server where
  "udp_server = (demo_server [] [] 0 [])
     \<lparr>ss_slot := (\<lambda>_. no_sock)(1 := no_sock\<lparr>s_type := SOCKET_TYPE_CONNECTED, s_protocol := PROTOCOL_UDP, s_id := 1, s_fd := 9\<rparr>)\<rparr>"

theorem udp_answer_returns_witness:
  "\<exists>addr ss1 ss2. skynet_socket_udp_send 1 addr (Plain 5 [7]) [] udp_server = Inr (0, ss1) \<and>
     ctrl_cmd ((quiet_os [])\<lparr>os_sendto := [Sent 1]\<rparr>) no_message ss1 = Inr (None, no_message, ss2) \<and>
     ss_calls ss2 = [Sys_sendto 9 [7] [1, 2, 127, 0, 0, 1], Free_buffer (Plain 5 [7])]"
proof -
  have u: "ss_slot udp_server 1 = no_sock\<lparr>s_type := SOCKET_TYPE_CONNECTED, s_protocol := PROTOCOL_UDP, s_id := 1, s_fd := 9\<rparr>"
    "ss_pipe udp_server = []" "ss_calls udp_server = []" by (simp_all add: udp_server_def demo_server_def)
  have h: "HASH_ID 1 = 1" by (simp add: HASH_ID_1)
  show ?thesis
    using udp_answer_returns [of udp_server 1 PROTOCOL_UDP "(quiet_os [])\<lparr>os_recv := Recv [3] (SA_v4 [1, 2] [127, 0, 0, 1])\<rparr>" "[3]" "SA_v4 [1, 2] [127, 0, 0, 1]"
        "(quiet_os [])\<lparr>os_sendto := [Sent 1]\<rparr>" "[7]" "[]" no_message 5 "[]"] unfolding h u
    by (simp add: no_sock_def sockaddr_bytes_def) blast
qed

end
