(* ===== verification/SocketBufferProps.thy ===== *)
theory SocketBufferProps
  imports SocketBuffer
begin

text \<open>
  What the receive buffers of \<open>SocketBuffer\<close> promise: a buffer is a queue of bytes, a line ends at the first
  separator, and nodes and blocks are neither lost nor used twice, however many buffers share a pool.
\<close>

section \<open>The contents of a buffer\<close>

definition contents :: "socket_buffer \<Rightarrow> bytes" where
  "contents sb = drop (sb_offset sb) (concat (map bn_msg (sb_nodes sb)))"

definition nodes_ok :: "socket_buffer \<Rightarrow> bool" where
  "nodes_ok sb = ((\<forall>n\<in>set (sb_nodes sb). bn_msg n \<noteq> []) \<and>
     (case sb_nodes sb of [] \<Rightarrow> sb_offset sb = 0 | n # _ \<Rightarrow> sb_offset sb < length (bn_msg n)))"

definition buffer_ok :: "socket_buffer \<Rightarrow> bool" where
  "buffer_ok sb = (nodes_ok sb \<and> sb_size sb = int (length (contents sb)))"

text \<open>Nodes that leave a buffer go to the free list, and their blocks are freed.\<close>

definition released :: "buffer_node list \<Rightarrow> buffer_pool \<Rightarrow> buffer_pool" where
  "released ns pool = pool\<lparr>bp_free := rev (map bn_addr ns) @ bp_free pool, bp_freed := bp_freed pool @ map bn_ptr ns\<rparr>"

lemma released_Nil [simp]: "released [] pool = pool"
  by (simp add: released_def)

lemma released_Cons: "released (n # ns) pool = released ns (released [n] pool)"
  by (simp add: released_def)

lemma return_free_node_Cons:
  "sb_nodes sb = n # ns \<Longrightarrow> return_free_node (pool, sb) = (released [n] pool, sb\<lparr>sb_offset := 0, sb_nodes := ns\<rparr>)"
  by (simp add: return_free_node_def released_def Let_def)

lemma contents_Cons:
  "sb_nodes sb = n # ns \<Longrightarrow> nodes_ok sb \<Longrightarrow> contents sb = drop (sb_offset sb) (bn_msg n) @ concat (map bn_msg ns)"
  by (simp add: contents_def nodes_ok_def)

lemma nodes_ok_tail:
  "sb_nodes sb = n # ns \<Longrightarrow> nodes_ok sb \<Longrightarrow> nodes_ok (sb\<lparr>sb_offset := 0, sb_nodes := ns\<rparr>)"
  by (cases ns) (simp_all add: nodes_ok_def)

lemma contents_tail [simp]: "contents (sb\<lparr>sb_offset := 0, sb_nodes := ns\<rparr>) = concat (map bn_msg ns)"
  by (simp add: contents_def)

lemma contents_empty: "nodes_ok sb \<Longrightarrow> contents sb = [] \<longleftrightarrow> sb_nodes sb = []"
  by (cases "sb_nodes sb") (auto simp: contents_def nodes_ok_def)

text \<open>What a read leaves: some nodes are returned, and the rest of the bytes.\<close>

definition reads :: "nat \<Rightarrow> buffer_pool \<times> socket_buffer \<Rightarrow> buffer_pool \<times> socket_buffer \<Rightarrow> bool" where
  "reads sz st st' = (\<exists>gone. sb_nodes (snd st) = gone @ sb_nodes (snd st') \<and> fst st' = released gone (fst st) \<and>
     sb_size (snd st') = sb_size (snd st) \<and> nodes_ok (snd st') \<and> contents (snd st') = drop sz (contents (snd st)))"

lemma reads_skip:
  assumes "sb_nodes sb = n # ns" "nodes_ok sb" "sz < length (drop (sb_offset sb) (bn_msg n))"
  shows "reads sz (pool, sb) (pool, sb\<lparr>sb_offset := sb_offset sb + sz\<rparr>)"
  using assms by (auto simp: reads_def nodes_ok_def contents_def add.commute intro!: exI [of _ "[]"])

lemma reads_node:
  assumes "sb_nodes sb = n # ns" "nodes_ok sb" "sz = length (drop (sb_offset sb) (bn_msg n))"
  shows "reads sz (pool, sb) (return_free_node (pool, sb))"
  using assms nodes_ok_tail [OF assms(1,2)] unfolding return_free_node_Cons [OF assms(1)] reads_def
  by (intro exI [of _ "[n]"]) (simp add: contents_Cons [OF assms(1,2)])

lemma reads_trans:
  assumes "reads a st1 st2" "reads b st2 st3"
  shows "reads (a + b) st1 st3"
proof -
  obtain g1 where g1: "sb_nodes (snd st1) = g1 @ sb_nodes (snd st2)" "fst st2 = released g1 (fst st1)"
    "sb_size (snd st2) = sb_size (snd st1)" "contents (snd st2) = drop a (contents (snd st1))" using assms(1) by (auto simp: reads_def)
  obtain g2 where g2: "sb_nodes (snd st2) = g2 @ sb_nodes (snd st3)" "fst st3 = released g2 (fst st2)"
    "sb_size (snd st3) = sb_size (snd st2)" "nodes_ok (snd st3)" "contents (snd st3) = drop b (contents (snd st2))"
    using assms(2) by (auto simp: reads_def)
  have "fst st3 = released (g1 @ g2) (fst st1)" using g1(2) g2(2) by (simp add: released_def)
  then show ?thesis using g1 g2 unfolding reads_def by (intro exI [of _ "g1 @ g2"]) (simp add: add.commute)
qed

lemma return_offset: "return_free_node (pool, sb\<lparr>sb_offset := k\<rparr>) = return_free_node (pool, sb)"
  by (simp add: return_free_node_def Let_def)

lemma pop_loop_reads:
  "nodes_ok (snd st) \<Longrightarrow> sz \<le> length (contents (snd st)) \<Longrightarrow> 0 < sz \<Longrightarrow>
   \<exists>st'. pop_loop sz skip st = Inr (take (sz - skip) (contents (snd st)), st') \<and> reads sz st st'"
proof (induction sz skip st rule: pop_loop.induct)
  case (1 sz skip pool sb)
  then have ok: "nodes_ok sb" "sz \<le> length (contents sb)" "0 < sz" by simp_all
  then obtain n ns where ns: "sb_nodes sb = n # ns" using contents_empty [of sb] by (cases "sb_nodes sb") auto
  define d where "d = drop (sb_offset sb) (bn_msg n)"
  have c: "contents sb = d @ concat (map bn_msg ns)" using contents_Cons [OF ns ok(1)] by (simp add: d_def)
  show ?case
  proof (cases "length d \<ge> sz")
    case True
    have "reads sz (pool, sb) (if length d = sz then return_free_node (pool, sb\<lparr>sb_offset := sb_offset sb + sz\<rparr>) else (pool, sb\<lparr>sb_offset := sb_offset sb + sz\<rparr>))"
      using True reads_skip [OF ns ok(1), of sz pool] reads_node [OF ns ok(1), of sz pool]
      by (cases "length d = sz") (auto simp: return_offset d_def)
    then show ?thesis using True c ns by (simp add: Let_def flip: d_def)
  next
    case False
    have m: "reads (length d) (pool, sb) (return_free_node (pool, sb))" by (rule reads_node [OF ns ok(1)]) (simp add: d_def)
    have t: "snd (return_free_node (pool, sb)) = sb\<lparr>sb_offset := 0, sb_nodes := ns\<rparr>" by (simp add: return_free_node_Cons [OF ns])
    have "\<exists>st'. pop_loop (sz - length d) skip (return_free_node (pool, sb)) =
        Inr (take (sz - length d - skip) (contents (snd (return_free_node (pool, sb)))), st') \<and>
        reads (sz - length d) (return_free_node (pool, sb)) st'"
      using "1.IH" [OF ns d_def refl] False nodes_ok_tail [OF ns ok(1)] ok(2) c by (simp add: t)
    then obtain st' where st': "pop_loop (sz - length d) skip (return_free_node (pool, sb)) = Inr (take (sz - length d - skip) (concat (map bn_msg ns)), st')"
      "reads (sz - length d) (return_free_node (pool, sb)) st'" by (auto simp: t)
    have r: "reads sz (pool, sb) st'" using reads_trans [OF m st'(2)] False by simp
    have "take (min (sz - skip) (length d)) d @ take (sz - length d - skip) (concat (map bn_msg ns)) = take (sz - skip) (contents sb)"
      by (simp add: c add.commute min_def)
    then have "pop_loop sz skip (pool, sb) = Inr (take (sz - skip) (contents sb), st')"
      using ns False st'(1) by (simp add: Let_def flip: d_def)
    then show ?thesis using r by simp
  qed
qed

lemma pop_lstring_reads:
  assumes ok: "nodes_ok sb" and ne: "sb_nodes sb \<noteq> []" and sz: "sz \<le> length (contents sb)"
  shows "\<exists>st'. pop_lstring sz skip (pool, sb) = Inr (take (sz - skip) (contents sb), st') \<and> reads sz (pool, sb) st'"
proof -
  obtain n ns where ns: "sb_nodes sb = n # ns" using ne by (cases "sb_nodes sb") auto
  define d where "d = drop (sb_offset sb) (bn_msg n)"
  have c: "contents sb = d @ concat (map bn_msg ns)" using contents_Cons [OF ns ok] by (simp add: d_def)
  consider (less) "sz < length d" | (eq) "sz = length d" | (more) "sz > length d" by linarith
  then show ?thesis
  proof cases
    case less
    then show ?thesis using reads_skip [OF ns ok, of sz pool] ns c by (simp add: pop_lstring_def Let_def flip: d_def)
  next
    case eq
    then show ?thesis using reads_node [OF ns ok, of sz pool] ns c by (simp add: pop_lstring_def Let_def flip: d_def)
  next
    case more
    then show ?thesis using pop_loop_reads [of "(pool, sb)" sz skip] ok sz ns by (simp add: pop_lstring_def Let_def flip: d_def)
  qed
qed

section \<open>Lines\<close>

text \<open>Where a separator stands first, in a text that is not cut.\<close>

fun first_sep :: "bytes \<Rightarrow> bytes \<Rightarrow> nat option" where
  "first_sep sep [] = (if sep = [] then Some 0 else None)"
| "first_sep sep (x # xs) = (if take (length sep) (x # xs) = sep then Some 0 else map_option Suc (first_sep sep xs))"

lemma first_sep_short: "length xs < length sep \<Longrightarrow> first_sep sep xs = None"
  by (induction xs) auto

lemma first_sep_bound: "first_sep sep xs = Some i \<Longrightarrow> i + length sep \<le> length xs"
proof (induction xs arbitrary: i)
  case (Cons x xs)
  show ?case
  proof (cases "take (length sep) (x # xs) = sep")
    case True
    then have "length sep \<le> length (x # xs)" using length_take [of "length sep" "x # xs"] by simp
    then show ?thesis using Cons.prems True by simp
  qed (use Cons in auto)
qed (simp split: if_splits)

lemma check_sep_iff:
  "length sep \<le> length (drop start (concat ms)) \<Longrightarrow> ms \<noteq> [] \<Longrightarrow> start \<le> length (hd ms) \<Longrightarrow>
   check_sep ms start sep = Inr (take (length sep) (drop start (concat ms)) = sep)"
proof (induction ms start sep rule: check_sep.induct)
  case (2 m ms start sep)
  define d where "d = drop start m"
  have st: "start \<le> length m" "int (length m) - int start = int (length d)" "drop start (concat (m # ms)) = d @ concat ms"
    using "2.prems"(3) by (simp_all add: d_def)
  show ?case
  proof (cases "length sep \<le> length d")
    case True
    then show ?thesis unfolding check_sep.simps st(2) st(3) by (simp add: Let_def d_def)
  next
    case False
    have ne: "length sep - length d \<le> length (concat ms)" "ms \<noteq> []" using "2.prems"(1) False unfolding st(3) by auto
    have eq: "take (length sep) (d @ concat ms) = sep \<longleftrightarrow> d = take (length d) sep \<and> take (length (drop (length d) sep)) (concat ms) = drop (length d) sep"
      using False by (auto simp: take_all append_eq_conv_conj)
    show ?thesis
    proof (cases "0 < length d \<and> d \<noteq> take (length d) sep")
      case True
      then show ?thesis unfolding check_sep.simps st(2) st(3) eq using False by (simp add: Let_def flip: d_def)
    next
      case same: False
      have "check_sep ms 0 (drop (length d) sep) = Inr (take (length (drop (length d) sep)) (drop 0 (concat ms)) = drop (length d) sep)"
        using "2.IH" [OF refl] False same ne by (simp add: st(2) flip: d_def)
      moreover have "d = take (length d) sep" using same by auto
      ultimately show ?thesis unfolding check_sep.simps st(2) st(3) eq using False same by (simp add: Let_def flip: d_def)
    qed
  qed
qed simp

lemma readline_loop_first:
  "\<forall>m\<in>set ms. m \<noteq> [] \<Longrightarrow> ms \<noteq> [] \<Longrightarrow> start < length (hd ms) \<Longrightarrow> n = length (drop start (concat ms)) + 1 - length sep \<Longrightarrow>
   readline_loop n i ms start (int (length (hd ms)) - int start) sep = Inr (map_option ((+) i) (first_sep sep (drop start (concat ms))))"
proof (induction n arbitrary: i ms start)
  case 0
  then show ?case using first_sep_short [of "drop start (concat ms)" sep] by simp
next
  case (Suc n)
  obtain m ks where ms: "ms = m # ks" using Suc.prems(2) by (cases ms) auto
  have lt: "start < length m" using Suc.prems(3) ms by simp
  define c where "c = drop start (concat ms)"
  have cc: "c = m ! start # drop (Suc start) (concat ms)" using lt by (simp add: c_def ms Cons_nth_drop_Suc nth_append [symmetric])
  have f: "check_sep ms start sep = Inr (take (length sep) c = sep)"
    using check_sep_iff [of sep start ms] Suc.prems ms by (simp add: c_def)
  show ?case
  proof (cases "take (length sep) c = sep")
    case True
    then have "first_sep sep c = Some 0" by (simp add: cc)
    then show ?thesis using f True by (simp flip: c_def)
  next
    case False
    then have fs: "first_sep sep c = map_option Suc (first_sep sep (drop (Suc start) (concat ms)))" by (simp add: cc)
    have n: "n = length (drop (Suc start) (concat ms)) + 1 - length sep" using Suc.prems(4) by (simp flip: c_def add: cc)
    show ?thesis
    proof (cases "Suc start = length m")
      case True
      have rest: "drop (Suc start) (concat ms) = concat ks" using True ms by simp
      show ?thesis
      proof (cases ks)
        case Nil
        have "sep \<noteq> []" using False by auto
        then have "first_sep sep c = None" using fs rest Nil by simp
        moreover have "readline_loop (Suc n) i ms start (int (length (hd ms)) - int start) sep = Inr None" using f False True Nil ms by simp
        ultimately show ?thesis by (simp flip: c_def)
      next
        case (Cons m' ms')
        have "readline_loop n (Suc i) ks 0 (int (length m')) sep = Inr (map_option (\<lambda>j. Suc (i + j)) (first_sep sep (concat ks)))"
        proof -
          have "n = length (drop 0 (concat ks)) + 1 - length sep" using n unfolding rest by simp
          then show ?thesis using Suc.IH [of ks 0 "Suc i"] Suc.prems(1) ms Cons by simp
        qed
        then have "readline_loop (Suc n) i ms start (int (length (hd ms)) - int start) sep =
            Inr (map_option (\<lambda>j. Suc (i + j)) (first_sep sep (concat ks)))" using f False True Cons ms by simp
        then show ?thesis unfolding c_def [symmetric] fs rest by (simp add: option.map_comp comp_def)
      qed
    next
      case more: False
      then have "readline_loop n (Suc i) ms (Suc start) (int (length m) - int (Suc start)) sep =
          Inr (map_option (\<lambda>j. Suc (i + j)) (first_sep sep (drop (Suc start) (concat ms))))"
        using Suc.IH [of ms "Suc start" "Suc i"] Suc.prems(1,2) n ms lt by simp
      moreover have "int (length m) - int start - 1 = int (length m) - int (Suc start)" "int (length m) - int start - 1 \<noteq> 0"
        using more lt by simp_all
      ultimately have "readline_loop (Suc n) i ms start (int (length (hd ms)) - int start) sep =
          Inr (map_option (\<lambda>j. Suc (i + j)) (first_sep sep (drop (Suc start) (concat ms))))" using f False ms by (simp add: diff_diff_eq add.commute)
      then show ?thesis unfolding c_def [symmetric] fs by (simp add: option.map_comp comp_def)
    qed
  qed
qed

section \<open>Operations\<close>

lemma push_contents:
  assumes "nodes_ok sb" "d \<noteq> []"
  shows "nodes_ok (sb\<lparr>sb_nodes := sb_nodes sb @ [\<lparr>bn_addr = a, bn_ptr = p, bn_msg = d\<rparr>], sb_size := z\<rparr>)"
    "contents (sb\<lparr>sb_nodes := sb_nodes sb @ [\<lparr>bn_addr = a, bn_ptr = p, bn_msg = d\<rparr>], sb_size := z\<rparr>) = contents sb @ d"
  using assms by (cases "sb_nodes sb"; simp add: nodes_ok_def contents_def)+

lemma lpushbuffer_spec:
  assumes "buffer_ok sb" "d \<noteq> []" "lpushbuffer p d (pool, sb) = (n, pool', sb')"
  shows "buffer_ok sb' \<and> contents sb' = contents sb @ d \<and> n = int (length (contents sb'))"
  using assms push_contents [of sb d] by (auto simp: lpushbuffer_def Let_def buffer_ok_def)

lemma buffer_ok_size: "contents (sb\<lparr>sb_size := z\<rparr>) = contents sb" "nodes_ok (sb\<lparr>sb_size := z\<rparr>) = nodes_ok sb"
  by (simp_all add: contents_def nodes_ok_def split: list.split)

lemma map_option_plus_0: "map_option ((+) (0 :: nat)) x = x"
  by (cases x) simp_all

lemma lpopbuffer_spec:
  assumes ok: "buffer_ok sb" and sz: "0 \<le> sz"
  shows "\<exists>pool' sb'. lpopbuffer sz (pool, sb) =
      Inr (Inr (if sz = 0 \<or> length (contents sb) < nat sz then None else Some (take (nat sz) (contents sb)), int (length (contents sb')), pool', sb')) \<and>
    buffer_ok sb' \<and> contents sb' = (if length (contents sb) < nat sz then contents sb else drop (nat sz) (contents sb)) \<and>
    (\<exists>gone. sb_nodes sb = gone @ sb_nodes sb' \<and> pool' = released gone pool)"
proof (cases "sb_size sb < sz \<or> sz = 0")
  case True
  then show ?thesis using ok by (intro exI [of _ pool] exI [of _ sb]) (auto simp: lpopbuffer_def buffer_ok_def intro!: exI [of _ "[]"])
next
  case False
  then have n: "nat sz \<le> length (contents sb)" "0 < sz" using ok sz by (auto simp: buffer_ok_def)
  have "contents sb \<noteq> []" using n by auto
  then have "sb_nodes sb \<noteq> []" by (auto simp: contents_def)
  then obtain st' where p: "pop_lstring (nat sz) 0 (pool, sb) = Inr (take (nat sz) (contents sb), st')" "reads (nat sz) (pool, sb) st'"
    using pop_lstring_reads [of sb "nat sz" 0 pool] ok n(1) by (auto simp: buffer_ok_def)
  obtain pool' sb' where st': "st' = (pool', sb')" by fastforce
  obtain gone where g: "sb_nodes sb = gone @ sb_nodes sb'" "pool' = released gone pool" "sb_size sb' = sb_size sb" "nodes_ok sb'"
    "contents sb' = drop (nat sz) (contents sb)" using p(2) by (auto simp: reads_def st')
  let ?sb = "sb'\<lparr>sb_size := sb_size sb' - sz\<rparr>"
  have len: "sb_size sb' - sz = int (length (contents ?sb))" using g ok n by (simp add: buffer_ok_size buffer_ok_def)
  have "lpopbuffer sz (pool, sb) = Inr (Inr (Some (take (nat sz) (contents sb)), sb_size sb' - sz, pool', ?sb))"
    using False n p(1) by (simp add: lpopbuffer_def st' Let_def)
  moreover have "buffer_ok ?sb" using g(4) len by (simp add: buffer_ok_def buffer_ok_size)
  ultimately show ?thesis using g(1,2,5) n len
    by (intro exI [of _ pool'] exI [of _ ?sb]) (auto simp: buffer_ok_size)
qed

lemma lreadline_spec:
  assumes ok: "buffer_ok sb"
  shows "\<exists>pool' sb'. lreadline check sep (pool, sb) =
      Inr (case (if contents sb = [] then None else first_sep sep (contents sb)) of
             None \<Rightarrow> No_line | Some i \<Rightarrow> if check then Line_found else Line (take i (contents sb)), pool', sb') \<and>
    buffer_ok sb' \<and>
    contents sb' = (case (if contents sb = [] \<or> check then None else first_sep sep (contents sb)) of
      None \<Rightarrow> contents sb | Some i \<Rightarrow> drop (i + length sep) (contents sb)) \<and>
    (\<exists>gone. sb_nodes sb = gone @ sb_nodes sb' \<and> pool' = released gone pool)"
proof (cases "sb_nodes sb")
  case Nil
  then have "contents sb = []" by (simp add: contents_def)
  then show ?thesis using Nil ok by (auto simp: lreadline_def intro!: exI [of _ "[]"])
next
  case (Cons n ns)
  have nk: "nodes_ok sb" "sb_size sb = int (length (contents sb))" using ok by (simp_all add: buffer_ok_def)
  then have ne: "contents sb \<noteq> []" using Cons contents_empty [of sb] by simp
  have lp: "readline_loop (nat (sb_size sb - int (length sep) + 1)) 0 (map bn_msg (sb_nodes sb)) (sb_offset sb)
      (int (length (bn_msg n)) - int (sb_offset sb)) sep = Inr (first_sep sep (contents sb))"
  proof -
    have "nat (sb_size sb - int (length sep) + 1) = length (contents sb) + 1 - length sep" unfolding nk(2) by linarith
    then show ?thesis using readline_loop_first [of "map bn_msg (sb_nodes sb)" "sb_offset sb" _ sep 0] nk(1) Cons
      by (simp add: nodes_ok_def contents_def map_option_plus_0)
  qed
  have lr: "lreadline check sep (pool, sb) = (case first_sep sep (contents sb) of
      None \<Rightarrow> Inr (No_line, pool, sb)
    | Some i \<Rightarrow> if check then Inr (Line_found, pool, sb)
        else res_bind (pop_lstring (i + length sep) (length sep) (pool, sb)) (\<lambda>(s, pool, sb).
          Inr (Line s, pool, sb\<lparr>sb_size := sb_size sb - int (i + length sep)\<rparr>)))"
    unfolding lreadline_def using lp Cons by simp
  show ?thesis
  proof (cases "first_sep sep (contents sb)")
    case None
    then show ?thesis using ok lr by (auto intro!: exI [of _ "[]"])
  next
    case (Some i)
    show ?thesis
    proof (cases check)
      case True
      then show ?thesis using ok lr Some ne by (auto intro!: exI [of _ "[]"])
    next
      case False
      have b: "i + length sep \<le> length (contents sb)" by (rule first_sep_bound [OF Some])
      obtain pool' sb' where p: "pop_lstring (i + length sep) (length sep) (pool, sb) = Inr (take i (contents sb), pool', sb')"
        "reads (i + length sep) (pool, sb) (pool', sb')"
        using pop_lstring_reads [OF nk(1) _ b, of "length sep" pool] Cons by auto
      obtain gone where g: "sb_nodes sb = gone @ sb_nodes sb'" "pool' = released gone pool" "sb_size sb' = sb_size sb" "nodes_ok sb'"
        "contents sb' = drop (i + length sep) (contents sb)" using p(2) by (auto simp: reads_def)
      let ?sb = "sb'\<lparr>sb_size := sb_size sb' - int (i + length sep)\<rparr>"
      have "lreadline check sep (pool, sb) = Inr (Line (take i (contents sb)), pool', ?sb)" using lr Some False p(1) by simp
      moreover have "buffer_ok ?sb" using g(3-5) nk(2) b by (simp add: buffer_ok_def buffer_ok_size)
      moreover have "contents ?sb = drop (i + length sep) (contents sb)" using g(5) by (simp add: buffer_ok_size)
      ultimately show ?thesis using g(1,2) Some False ne by (intro exI [of _ pool'] exI [of _ ?sb]) simp
    qed
  qed
qed

lemma clear_loop_released:
  "clear_loop (pool, sb) = (released (sb_nodes sb) pool, if sb_nodes sb = [] then sb else sb\<lparr>sb_offset := 0, sb_nodes := []\<rparr>)"
proof (induction "sb_nodes sb" arbitrary: pool sb)
  case Nil
  then show ?case by simp
next
  case (Cons n ns)
  note ns = Cons.hyps(2) [symmetric]
  have "clear_loop (pool, sb) = clear_loop (released [n] pool, sb\<lparr>sb_offset := 0, sb_nodes := ns\<rparr>)"
    using ns return_free_node_Cons [OF ns, of pool] by simp
  also have "\<dots> = (released ns (released [n] pool), sb\<lparr>sb_offset := 0, sb_nodes := []\<rparr>)"
    using Cons.hyps(1) [of "sb\<lparr>sb_offset := 0, sb_nodes := ns\<rparr>" "released [n] pool"] by (cases ns) simp_all
  finally show ?case using ns by (simp add: released_Cons [of n ns])
qed

lemma readall_loop_clear:
  "nodes_ok sb \<Longrightarrow> readall_loop (pool, sb) = (contents sb, clear_loop (pool, sb))"
proof (induction "sb_nodes sb" arbitrary: pool sb)
  case Nil
  then show ?case by (simp add: contents_def)
next
  case (Cons n ns)
  note ns = Cons.hyps(2) [symmetric]
  have "readall_loop (released [n] pool, sb\<lparr>sb_offset := 0, sb_nodes := ns\<rparr>) =
      (concat (map bn_msg ns), clear_loop (released [n] pool, sb\<lparr>sb_offset := 0, sb_nodes := ns\<rparr>))"
    using Cons.hyps(1) [of "sb\<lparr>sb_offset := 0, sb_nodes := ns\<rparr>" "released [n] pool"] nodes_ok_tail [OF ns Cons.prems] by simp
  then show ?case using ns return_free_node_Cons [OF ns, of pool] contents_Cons [OF ns Cons.prems] by simp
qed

lemma lclearbuffer_spec:
  assumes "buffer_ok sb" "lclearbuffer (pool, sb) = (pool', sb')"
  shows "pool' = released (sb_nodes sb) pool \<and> sb_nodes sb' = [] \<and> buffer_ok sb' \<and> contents sb' = []"
  using assms by (auto simp: lclearbuffer_def clear_loop_released buffer_ok_def nodes_ok_def contents_def simp del: clear_loop.simps split: if_splits)

lemma lreadall_spec:
  assumes "buffer_ok sb" "lreadall (pool, sb) = (b, pool', sb')"
  shows "b = contents sb \<and> lclearbuffer (pool, sb) = (pool', sb')"
  using assms by (auto simp: lreadall_def lclearbuffer_def readall_loop_clear buffer_ok_def simp del: readall_loop.simps clear_loop.simps split: prod.splits)

section \<open>Several buffers and one pool\<close>

datatype buf_op = B_push nat nat bytes | B_pop nat int | B_line nat bool bytes | B_all nat | B_clear nat

fun buf_index :: "buf_op \<Rightarrow> nat" where
  "buf_index (B_push i p d) = i" | "buf_index (B_pop i sz) = i" | "buf_index (B_line i c sep) = i"
| "buf_index (B_all i) = i" | "buf_index (B_clear i) = i"

text \<open>Blocks that arrive are not empty, and sizes are not negative.\<close>

fun buf_valid :: "buf_op \<Rightarrow> bool" where
  "buf_valid (B_push i p d) = (d \<noteq> [])" | "buf_valid (B_pop i sz) = (0 \<le> sz)" | "buf_valid q = True"

fun buf_step :: "buf_op \<Rightarrow> buffer_pool \<times> socket_buffer list \<Rightarrow> (buffer_pool \<times> socket_buffer list) res" where
  "buf_step (B_push i p d) (pool, bs) = (let (n, pool, sb) = lpushbuffer p d (pool, bs ! i) in Inr (pool, bs[i := sb]))"
| "buf_step (B_pop i sz) (pool, bs) =
     res_bind (lpopbuffer sz (pool, bs ! i)) (\<lambda>r. case r of Inl e \<Rightarrow> Inr (pool, bs) | Inr (s, n, pool, sb) \<Rightarrow> Inr (pool, bs[i := sb]))"
| "buf_step (B_line i check sep) (pool, bs) =
     res_bind (lreadline check sep (pool, bs ! i)) (\<lambda>(r, pool, sb). Inr (pool, bs[i := sb]))"
| "buf_step (B_all i) (pool, bs) = (let (b, pool, sb) = lreadall (pool, bs ! i) in Inr (pool, bs[i := sb]))"
| "buf_step (B_clear i) (pool, bs) = (let (pool, sb) = lclearbuffer (pool, bs ! i) in Inr (pool, bs[i := sb]))"

fun buf_run :: "buf_op list \<Rightarrow> buffer_pool \<times> socket_buffer list \<Rightarrow> (buffer_pool \<times> socket_buffer list) res" where
  "buf_run [] st = Inr st"
| "buf_run (q # qs) st = res_bind (buf_step q st) (buf_run qs)"

text \<open>The blocks that were given.\<close>

fun pushed :: "buf_op list \<Rightarrow> nat list" where
  "pushed [] = []" | "pushed (B_push i p d # qs) = p # pushed qs" | "pushed (q # qs) = pushed qs"

definition all_nodes :: "socket_buffer list \<Rightarrow> buffer_node list" where
  "all_nodes bs = concat (map sb_nodes bs)"

definition pool_ok :: "nat list \<Rightarrow> buffer_pool \<times> socket_buffer list \<Rightarrow> bool" where
  "pool_ok ps = (\<lambda>(pool, bs). (\<forall>sb\<in>set bs. buffer_ok sb) \<and>
     mset (bp_free pool) + mset (map bn_addr (all_nodes bs)) = mset [0..<bp_top pool] \<and>
     mset (bp_freed pool) + mset (map bn_ptr (all_nodes bs)) = mset ps)"

lemma all_nodes_update:
  "i < length bs \<Longrightarrow> mset (all_nodes (bs[i := sb])) + mset (sb_nodes (bs ! i)) = mset (all_nodes bs) + mset (sb_nodes sb)"
  by (induction bs arbitrary: i) (auto simp: all_nodes_def nth_Cons' split: nat.split)

lemma all_nodes_image:
  assumes "i < length bs"
  shows "mset (map f (all_nodes (bs[i := sb]))) + mset (map f (sb_nodes (bs ! i))) = mset (map f (all_nodes bs)) + mset (map f (sb_nodes sb))"
  using arg_cong [OF all_nodes_update [OF assms, of sb], of "image_mset f"] by simp

lemma pool_ok_release:
  assumes ok: "pool_ok ps (pool, bs)" and i: "i < length bs" and g: "sb_nodes (bs ! i) = gone @ sb_nodes sb" and sb: "buffer_ok sb"
  shows "pool_ok ps (released gone pool, bs[i := sb])"
proof -
  have m: "mset (map f (all_nodes bs)) = mset (map f (all_nodes (bs[i := sb]))) + mset (map f gone)" for f :: "buffer_node \<Rightarrow> nat"
    using all_nodes_image [OF i, of f sb] unfolding g by simp
  have "\<forall>b\<in>set (bs[i := sb]). buffer_ok b" using ok sb set_update_subset_insert [of bs i sb] by (auto simp: pool_ok_def)
  then show ?thesis using ok m [of bn_addr] m [of bn_ptr] by (simp add: pool_ok_def released_def ac_simps)
qed

lemma pool_ok_push:
  assumes ok: "pool_ok ps (pool, bs)" and i: "i < length bs" and d: "d \<noteq> []" and e: "lpushbuffer p d (pool, bs ! i) = (n, pool', sb)"
  shows "pool_ok (p # ps) (pool', bs[i := sb])"
proof -
  define q where "q = (if bp_free pool = [] then
      let tsz = (if bp_len pool = 0 then 1 else bp_len pool);
          size = (if tsz \<le> LARGE_PAGE_NODE - 3 then push_bit tsz 8 else push_bit (LARGE_PAGE_NODE - 3) 8)
      in (lnewpool size pool)\<lparr>bp_len := tsz + 1\<rparr> else pool)"
  have q: "bp_free q \<noteq> []" "bp_freed q = bp_freed pool"
    "mset (bp_free q) + mset (map bn_addr (all_nodes bs)) = mset [0..<bp_top q]"
  proof -
    have upt: "mset [a..<a + n] + mset [0..<a] = mset [0..<a + n]" for a n using upt_add_eq_append [of 0 a n] by simp
    have pos: "0 < (push_bit k 8 :: nat)" for k by (simp add: push_bit_eq_mult)
    show "bp_free q \<noteq> []" "bp_freed q = bp_freed pool" using pos by (auto simp: q_def lnewpool_def Let_def)
    show "mset (bp_free q) + mset (map bn_addr (all_nodes bs)) = mset [0..<bp_top q]"
      using ok upt by (auto simp: pool_ok_def q_def lnewpool_def Let_def simp del: mset_upt)
  qed
  have r: "pool' = q\<lparr>bp_free := tl (bp_free q)\<rparr>" "sb_nodes sb = sb_nodes (bs ! i) @ [\<lparr>bn_addr = hd (bp_free q), bn_ptr = p, bn_msg = d\<rparr>]"
    using e by (auto simp: lpushbuffer_def Let_def q_def)
  have m: "mset (map f (all_nodes (bs[i := sb]))) = mset (map f (all_nodes bs)) + {#f \<lparr>bn_addr = hd (bp_free q), bn_ptr = p, bn_msg = d\<rparr>#}"
    for f :: "buffer_node \<Rightarrow> nat" using all_nodes_image [OF i, of f sb] unfolding r(2) by simp
  have "buffer_ok (bs ! i)" using ok i by (simp add: pool_ok_def)
  then have "buffer_ok sb" using lpushbuffer_spec [OF _ d e] by simp
  then have "\<forall>b\<in>set (bs[i := sb]). buffer_ok b" using ok set_update_subset_insert [of bs i sb] by (auto simp: pool_ok_def)
  moreover have "mset (bp_free q) = mset (tl (bp_free q)) + {#hd (bp_free q)#}" using q(1) by (cases "bp_free q") simp_all
  ultimately show ?thesis using ok q(2,3) m [of bn_addr] m [of bn_ptr] by (simp add: pool_ok_def r(1) ac_simps)
qed

lemma buf_step_ok:
  assumes ok: "pool_ok ps (pool, bs)" and i: "buf_index q < length bs" and v: "buf_valid q"
  shows "\<exists>pool' bs'. buf_step q (pool, bs) = Inr (pool', bs') \<and> length bs' = length bs \<and> pool_ok (pushed [q] @ ps) (pool', bs')"
proof -
  let ?sb = "bs ! buf_index q"
  have sb: "buffer_ok ?sb" using ok i by (simp add: pool_ok_def)
  show ?thesis
  proof (cases q)
    case (B_push j p d)
    obtain n pool' sb' where e: "lpushbuffer p d (pool, bs ! j) = (n, pool', sb')" by (metis prod_cases3)
    then show ?thesis using pool_ok_push [OF ok _ _ e] i v B_push by simp
  next
    case (B_pop j sz)
    then show ?thesis using lpopbuffer_spec [OF sb, of sz pool] pool_ok_release [OF ok i] i v by force
  next
    case (B_line j c sep)
    then show ?thesis using lreadline_spec [OF sb, of c sep pool] pool_ok_release [OF ok i] i by force
  next
    case (B_all j)
    obtain b pool' sb' where e: "lreadall (pool, ?sb) = (b, pool', sb')" by (metis prod_cases3)
    then have "lclearbuffer (pool, ?sb) = (pool', sb')" using lreadall_spec [OF sb e] by simp
    then show ?thesis using lclearbuffer_spec [OF sb] e pool_ok_release [OF ok i, of "sb_nodes ?sb" sb'] i B_all by simp
  next
    case (B_clear j)
    obtain pool' sb' where e: "lclearbuffer (pool, ?sb) = (pool', sb')" by fastforce
    then show ?thesis using lclearbuffer_spec [OF sb e] pool_ok_release [OF ok i, of "sb_nodes ?sb" sb'] i B_clear by simp
  qed
qed

lemma pushed_Cons: "pushed (q # qs) = pushed [q] @ pushed qs"
  by (cases q) simp_all

lemma pool_ok_mset: "mset ps = mset qs \<Longrightarrow> pool_ok ps st = pool_ok qs st"
  by (simp add: pool_ok_def)

lemma buf_run_ok:
  "pool_ok ps (pool, bs) \<Longrightarrow> \<forall>q\<in>set qs. buf_index q < length bs \<and> buf_valid q \<Longrightarrow>
   \<exists>pool' bs'. buf_run qs (pool, bs) = Inr (pool', bs') \<and> pool_ok (pushed qs @ ps) (pool', bs')"
proof (induction qs arbitrary: ps pool bs)
  case (Cons q qs)
  obtain pool1 bs1 where 1: "buf_step q (pool, bs) = Inr (pool1, bs1)" "length bs1 = length bs" "pool_ok (pushed [q] @ ps) (pool1, bs1)"
    using buf_step_ok [OF Cons.prems(1), of q] Cons.prems(2) by auto
  obtain pool' bs' where 2: "buf_run qs (pool1, bs1) = Inr (pool', bs')" "pool_ok (pushed qs @ pushed [q] @ ps) (pool', bs')"
    using Cons.IH [OF 1(3)] Cons.prems(2) 1(2) by auto
  then have "pool_ok (pushed (q # qs) @ ps) (pool', bs')" 
    using pool_ok_mset [of "pushed qs @ pushed [q] @ ps" "pushed (q # qs) @ ps" "(pool', bs')"] by (simp add: pushed_Cons [of q qs] ac_simps)
  then show ?case using 1(1) 2(1) by simp
qed simp

text \<open>
  A receive buffer is a queue of bytes: pushing a block appends it and returns the number of bytes held;
  popping \<open>sz\<close> bytes gives the first \<open>sz\<close> of them, or nil when there are fewer; reading all gives them all; and
  no call fails.
\<close>

theorem socket_buffer_is_byte_queue:
  assumes "buffer_ok sb" "d \<noteq> []" "0 < sz"
  shows "(\<exists>pool' sb'. lpushbuffer p d (pool, sb) = (int (length (contents sb @ d)), pool', sb') \<and> buffer_ok sb' \<and> contents sb' = contents sb @ d) \<and>
    (\<exists>pool' sb'. lpopbuffer sz (pool, sb) =
        Inr (Inr (if length (contents sb) < nat sz then None else Some (take (nat sz) (contents sb)), int (length (contents sb')), pool', sb')) \<and>
      buffer_ok sb' \<and> contents sb' = (if length (contents sb) < nat sz then contents sb else drop (nat sz) (contents sb))) \<and>
    (\<exists>pool' sb'. lreadall (pool, sb) = (contents sb, pool', sb') \<and> buffer_ok sb' \<and> contents sb' = [])"
proof (intro conjI)
  obtain n pool1 sb1 where 1: "lpushbuffer p d (pool, sb) = (n, pool1, sb1)" by (metis prod_cases3)
  then show "\<exists>pool' sb'. lpushbuffer p d (pool, sb) = (int (length (contents sb @ d)), pool', sb') \<and> buffer_ok sb' \<and> contents sb' = contents sb @ d"
    using lpushbuffer_spec [OF assms(1,2) 1] by simp
  show "\<exists>pool' sb'. lpopbuffer sz (pool, sb) =
        Inr (Inr (if length (contents sb) < nat sz then None else Some (take (nat sz) (contents sb)), int (length (contents sb')), pool', sb')) \<and>
      buffer_ok sb' \<and> contents sb' = (if length (contents sb) < nat sz then contents sb else drop (nat sz) (contents sb))"
    using lpopbuffer_spec [OF assms(1), of sz pool] assms(3) by fastforce
  obtain b pool2 sb2 where 2: "lreadall (pool, sb) = (b, pool2, sb2)" by (metis prod_cases3)
  then show "\<exists>pool' sb'. lreadall (pool, sb) = (contents sb, pool', sb') \<and> buffer_ok sb' \<and> contents sb' = []"
    using lreadall_spec [OF assms(1) 2] lclearbuffer_spec [OF assms(1), of pool pool2 sb2] by simp
qed

definition demo_buffer :: socket_buffer where
  "demo_buffer = \<lparr>sb_size = 4, sb_offset = 1,
     sb_nodes = [\<lparr>bn_addr = 0, bn_ptr = 100, bn_msg = [1, 2, 13]\<rparr>, \<lparr>bn_addr = 1, bn_ptr = 101, bn_msg = [10, 3]\<rparr>]\<rparr>"

lemma demo_contents: "contents demo_buffer = [2, 13, 10, 3]"
  by (simp add: contents_def demo_buffer_def)

lemma demo_buffer_ok: "buffer_ok demo_buffer"
  by (simp add: buffer_ok_def demo_contents) (simp add: nodes_ok_def demo_buffer_def)

theorem socket_buffer_is_byte_queue_witness:
  "\<exists>pool' sb'. lpopbuffer 3 (new_pool, demo_buffer) = Inr (Inr (Some [2, 13, 10], 1, pool', sb')) \<and> contents sb' = [3]"
proof -
  have "\<exists>pool' sb'. lpopbuffer 3 (new_pool, demo_buffer) = Inr (Inr (Some [2, 13, 10], int (length (contents sb')), pool', sb')) \<and> contents sb' = [3]"
    using socket_buffer_is_byte_queue [OF demo_buffer_ok, of "[1]" 3 0 new_pool] by (simp add: demo_contents) blast
  then show ?thesis by fastforce
qed

text \<open>
  C35: reading a line from a buffer that holds bytes gives what stands before the first separator and removes it
  together with the separator, however the bytes are cut into blocks; without a separator the buffer stays as it is.
\<close>

theorem readline_first_separator:
  assumes "buffer_ok sb" "contents sb \<noteq> []"
  shows "\<exists>pool' sb'. lreadline False sep (pool, sb) =
      Inr (case first_sep sep (contents sb) of None \<Rightarrow> No_line | Some i \<Rightarrow> Line (take i (contents sb)), pool', sb') \<and>
    buffer_ok sb' \<and>
    contents sb' = (case first_sep sep (contents sb) of None \<Rightarrow> contents sb | Some i \<Rightarrow> drop (i + length sep) (contents sb))"
  using lreadline_spec [OF assms(1), of False sep pool] assms(2) by (auto split: option.splits)

theorem readline_first_separator_witness:
  "\<exists>pool' sb'. lreadline False [13, 10] (new_pool, demo_buffer) = Inr (Line [2], pool', sb') \<and> contents sb' = [3]"
  using readline_first_separator [of demo_buffer "[13, 10]" new_pool] by (simp add: demo_buffer_ok demo_contents) blast


definition demo_buf_ops :: "buf_op list" where
  "demo_buf_ops = [B_push 0 100 [1, 2], B_push 1 200 [7], B_push 0 101 [13, 10], B_line 0 False [13, 10], B_pop 1 5, B_clear 1]"


text \<open>A negative size makes the code dereference the head of an empty list.\<close>

lemma negative_pop_crashes: "lpopbuffer (- 1) (new_pool, lnewbuffer) = Inl (Bad_pointer ''pop_lstring'')"
  by (simp add: lpopbuffer_def lnewbuffer_def)

text \<open>An address with its brackets in the wrong order makes \<open>memcpy\<close> copy a negative size.\<close>

lemma swapped_brackets_overrun: "address_port ''][:1'' None = Inl (Out_of_bounds ''address_port'')"
  by (simp add: address_port_def strchr_def)

end
