(* ===== verification/Stm.thy ===== *)
theory Stm
  imports Prelude
begin

text \<open>
  Shared messages, \<open>lualib-src/lua-stm.c\<close>: a writer publishes copies of a message, readers of other services
  take the current one. The object and its copies are counted; the last user frees them. A section under
  the lock is one step, except that a reader that gives up the object still has to unlock. The model has one
  object, its writer and any number of readers, each a thread of its own. The theorems: a copy is freed exactly
  when nobody holds it, and the only access to freed memory is that unlock.
\<close>

section \<open>Memory\<close>

record stm_object =
  so_reference :: int
  so_copy :: "nat option"

record stm_copy =
  sc_reference :: int
  sc_sz :: nat
  sc_msg :: bytes

record stm_heap =
  hp_obj :: "stm_object option" \<comment> \<open>\<open>None\<close> when it is freed\<close>
  hp_copies :: "nat \<Rightarrow> stm_copy option"
  hp_next :: nat \<comment> \<open>the address of the next copy\<close>

definition stm_newcopy :: "bytes \<Rightarrow> stm_heap \<Rightarrow> nat \<times> stm_heap" where
  "stm_newcopy msg h =
     (hp_next h, h\<lparr>hp_copies := (hp_copies h)(hp_next h \<mapsto> \<lparr>sc_reference = 1, sc_sz = length msg, sc_msg = msg\<rparr>), hp_next := Suc (hp_next h)\<rparr>)"

definition stm_new :: "bytes \<Rightarrow> stm_heap" where
  "stm_new msg =
     (let (copy, h) = stm_newcopy msg \<lparr>hp_obj = None, hp_copies = Map.empty, hp_next = 0\<rparr>
      in h\<lparr>hp_obj := Some \<lparr>so_reference = 1, so_copy = Some copy\<rparr>\<rparr>)"

definition stm_releasecopy :: "nat option \<Rightarrow> stm_heap \<Rightarrow> stm_heap res" where
  "stm_releasecopy copy h =
     (case copy of
        None \<Rightarrow> Inr h
      | Some a \<Rightarrow> res_deref ''stm_releasecopy'' (hp_copies h a) (\<lambda>c.
          if sc_reference c - 1 = 0 then Inr (h\<lparr>hp_copies := (hp_copies h)(a := None)\<rparr>)
          else Inr (h\<lparr>hp_copies := (hp_copies h)(a \<mapsto> c\<lparr>sc_reference := sc_reference c - 1\<rparr>)\<rparr>)))"

definition stm_release :: "stm_heap \<Rightarrow> stm_heap res" where
  "stm_release h =
     res_deref ''stm_release'' (hp_obj h) (\<lambda>obj.
       res_assert ''stm_release'' (so_copy obj \<noteq> None)
         (res_bind (stm_releasecopy (so_copy obj) h) (\<lambda>h.
            if so_reference obj - 1 > 0 then Inr (h\<lparr>hp_obj := Some (obj\<lparr>so_copy := None, so_reference := so_reference obj - 1\<rparr>)\<rparr>)
            else Inr (h\<lparr>hp_obj := None\<rparr>))))"

text \<open>\<open>stm_releasereader\<close> up to the unlock; the flag says that the unlock is to follow.\<close>

definition stm_releasereader :: "stm_heap \<Rightarrow> (bool \<times> stm_heap) res" where
  "stm_releasereader h =
     res_deref ''stm_releasereader'' (hp_obj h) (\<lambda>obj.
       if so_reference obj - 1 = 0 then
         res_assert ''stm_releasereader'' (so_copy obj = None) (Inr (False, h\<lparr>hp_obj := None\<rparr>))
       else Inr (True, h\<lparr>hp_obj := Some (obj\<lparr>so_reference := so_reference obj - 1\<rparr>)\<rparr>))"

definition rwlock_runlock :: "stm_heap \<Rightarrow> stm_heap res" where
  "rwlock_runlock h = res_deref ''rwlock_runlock'' (hp_obj h) (\<lambda>obj. Inr h)"

definition stm_grab :: "stm_heap \<Rightarrow> stm_heap res" where
  "stm_grab h =
     res_deref ''stm_grab'' (hp_obj h) (\<lambda>obj.
       res_assert ''stm_grab'' (so_reference obj > 0) (Inr (h\<lparr>hp_obj := Some (obj\<lparr>so_reference := so_reference obj + 1\<rparr>)\<rparr>)))"

definition stm_copy_of :: "stm_heap \<Rightarrow> (nat option \<times> stm_heap) res" where
  "stm_copy_of h =
     res_deref ''stm_copy'' (hp_obj h) (\<lambda>obj.
       case so_copy obj of
         None \<Rightarrow> Inr (None, h)
       | Some a \<Rightarrow> res_deref ''stm_copy'' (hp_copies h a) (\<lambda>c.
           res_assert ''stm_copy'' (sc_reference c > 0)
             (Inr (Some a, h\<lparr>hp_copies := (hp_copies h)(a \<mapsto> c\<lparr>sc_reference := sc_reference c + 1\<rparr>)\<rparr>))))"

text \<open>\<open>stm_update\<close> up to the release of the old copy, which is returned.\<close>

definition stm_update :: "bytes \<Rightarrow> stm_heap \<Rightarrow> (nat option \<times> stm_heap) res" where
  "stm_update msg h =
     (let (copy, h) = stm_newcopy msg h in
      res_deref ''stm_update'' (hp_obj h) (\<lambda>obj. Inr (so_copy obj, h\<lparr>hp_obj := Some (obj\<lparr>so_copy := Some copy\<rparr>)\<rparr>)))"

section \<open>The Lua functions as threads\<close>

text \<open>
  A reader has released the object or not, may still have to unlock it, keeps the copy it saw last, and
  inside \<open>lread\<close> the copy it has just taken.
\<close>

record boxreader =
  rd_obj :: bool
  rd_unlock :: bool
  rd_last :: "nat option"
  rd_copy :: "nat option option"

record stm_state =
  st_heap :: stm_heap
  st_writer :: bool \<comment> \<open>the writer has the object\<close>
  st_old :: "nat option option" \<comment> \<open>inside \<open>lupdate\<close>: the old copy, to be released\<close>
  st_tokens :: nat \<comment> \<open>results of \<open>lcopy\<close> that are no readers yet\<close>
  st_readers :: "boxreader list"

datatype stm_op =
  L_copy | L_update bytes | L_update_release | L_deletewriter | L_newreader
| L_read nat | L_read_release nat | L_deletereader nat | L_deletereader_unlock nat | L_deletereader_release nat

definition lnewwriter :: "bytes \<Rightarrow> stm_state" where
  "lnewwriter msg = \<lparr>st_heap = stm_new msg, st_writer = True, st_old = None, st_tokens = 0, st_readers = []\<rparr>"

definition upd_reader :: "nat \<Rightarrow> (boxreader \<Rightarrow> boxreader) \<Rightarrow> stm_state \<Rightarrow> stm_state" where
  "upd_reader j f st = st\<lparr>st_readers := (st_readers st)[j := f (st_readers st ! j)]\<rparr>"

text \<open>The writer can lock only when no reader holds the lock.\<close>

definition unlocked :: "stm_state \<Rightarrow> bool" where
  "unlocked st = list_all (\<lambda>r. \<not> rd_unlock r) (st_readers st)"

definition lcopy :: "stm_state \<Rightarrow> stm_state res" where
  "lcopy st = res_bind (stm_grab (st_heap st)) (\<lambda>h. Inr (st\<lparr>st_heap := h, st_tokens := st_tokens st + 1\<rparr>))"

definition lupdate :: "bytes \<Rightarrow> stm_state \<Rightarrow> stm_state res" where
  "lupdate msg st = res_bind (stm_update msg (st_heap st)) (\<lambda>(old, h). Inr (st\<lparr>st_heap := h, st_old := Some old\<rparr>))"

definition lupdate_release :: "stm_state \<Rightarrow> stm_state res" where
  "lupdate_release st = res_bind (stm_releasecopy (the (st_old st)) (st_heap st)) (\<lambda>h. Inr (st\<lparr>st_heap := h, st_old := None\<rparr>))"

definition ldeletewriter :: "stm_state \<Rightarrow> stm_state res" where
  "ldeletewriter st = res_bind (stm_release (st_heap st)) (\<lambda>h. Inr (st\<lparr>st_heap := h, st_writer := False\<rparr>))"

definition lnewreader :: "stm_state \<Rightarrow> stm_state res" where
  "lnewreader st = Inr (st\<lparr>st_tokens := st_tokens st - 1,
     st_readers := st_readers st @ [\<lparr>rd_obj = True, rd_unlock = False, rd_last = None, rd_copy = None\<rparr>]\<rparr>)"

definition lread :: "nat \<Rightarrow> stm_state \<Rightarrow> stm_state res" where
  "lread j st = res_bind (stm_copy_of (st_heap st)) (\<lambda>(copy, h). Inr (upd_reader j (\<lambda>r. r\<lparr>rd_copy := Some copy\<rparr>) (st\<lparr>st_heap := h\<rparr>)))"

text \<open>The copy that is not news is released, or else the last one, and the new one is kept.\<close>

definition lread_release :: "nat \<Rightarrow> stm_state \<Rightarrow> stm_state res" where
  "lread_release j st =
     (let r = st_readers st ! j; copy = the (rd_copy r) in
      if copy = rd_last r then
        res_bind (stm_releasecopy copy (st_heap st)) (\<lambda>h. Inr (upd_reader j (\<lambda>r. r\<lparr>rd_copy := None\<rparr>) (st\<lparr>st_heap := h\<rparr>)))
      else
        res_bind (stm_releasecopy (rd_last r) (st_heap st)) (\<lambda>h.
          Inr (upd_reader j (\<lambda>r. r\<lparr>rd_copy := None, rd_last := copy\<rparr>) (st\<lparr>st_heap := h\<rparr>))))"

definition ldeletereader :: "nat \<Rightarrow> stm_state \<Rightarrow> stm_state res" where
  "ldeletereader j st = res_bind (stm_releasereader (st_heap st)) (\<lambda>(u, h).
     Inr (upd_reader j (\<lambda>r. r\<lparr>rd_obj := False, rd_unlock := u\<rparr>) (st\<lparr>st_heap := h\<rparr>)))"

definition ldeletereader_unlock :: "nat \<Rightarrow> stm_state \<Rightarrow> stm_state res" where
  "ldeletereader_unlock j st = res_bind (rwlock_runlock (st_heap st)) (\<lambda>h. Inr (upd_reader j (\<lambda>r. r\<lparr>rd_unlock := False\<rparr>) (st\<lparr>st_heap := h\<rparr>)))"

definition ldeletereader_release :: "nat \<Rightarrow> stm_state \<Rightarrow> stm_state res" where
  "ldeletereader_release j st = res_bind (stm_releasecopy (rd_last (st_readers st ! j)) (st_heap st)) (\<lambda>h.
     Inr (upd_reader j (\<lambda>r. r\<lparr>rd_last := None\<rparr>) (st\<lparr>st_heap := h\<rparr>)))"

text \<open>Which step can be taken when.\<close>

fun stm_enabled :: "stm_op \<Rightarrow> stm_state \<Rightarrow> bool" where
  "stm_enabled L_copy st = (st_writer st \<and> st_old st = None)"
| "stm_enabled (L_update msg) st = (st_writer st \<and> st_old st = None \<and> unlocked st)"
| "stm_enabled L_update_release st = (st_old st \<noteq> None)"
| "stm_enabled L_deletewriter st = (st_writer st \<and> st_old st = None \<and> unlocked st)"
| "stm_enabled L_newreader st = (st_tokens st > 0)"
| "stm_enabled (L_read j) st = (j < length (st_readers st) \<and> rd_obj (st_readers st ! j) \<and> rd_copy (st_readers st ! j) = None)"
| "stm_enabled (L_read_release j) st = (j < length (st_readers st) \<and> rd_copy (st_readers st ! j) \<noteq> None)"
| "stm_enabled (L_deletereader j) st = (j < length (st_readers st) \<and> rd_obj (st_readers st ! j) \<and> rd_copy (st_readers st ! j) = None)"
| "stm_enabled (L_deletereader_unlock j) st = (j < length (st_readers st) \<and> rd_unlock (st_readers st ! j))"
| "stm_enabled (L_deletereader_release j) st =
     (j < length (st_readers st) \<and> \<not> rd_obj (st_readers st ! j) \<and> \<not> rd_unlock (st_readers st ! j))"

fun stm_step :: "stm_op \<Rightarrow> stm_state \<Rightarrow> stm_state res" where
  "stm_step L_copy st = lcopy st"
| "stm_step (L_update msg) st = lupdate msg st"
| "stm_step L_update_release st = lupdate_release st"
| "stm_step L_deletewriter st = ldeletewriter st"
| "stm_step L_newreader st = lnewreader st"
| "stm_step (L_read j) st = lread j st"
| "stm_step (L_read_release j) st = lread_release j st"
| "stm_step (L_deletereader j) st = ldeletereader j st"
| "stm_step (L_deletereader_unlock j) st = ldeletereader_unlock j st"
| "stm_step (L_deletereader_release j) st = ldeletereader_release j st"

inductive stm_reach :: "stm_state \<Rightarrow> bool" where
  stm_init: "stm_reach (lnewwriter msg)"
| stm_next: "stm_reach st \<Longrightarrow> stm_enabled q st \<Longrightarrow> stm_step q st = Inr st' \<Longrightarrow> stm_reach st'"

section \<open>The invariant\<close>

text \<open>Every holder of a copy.\<close>

definition opt_mset :: "nat option \<Rightarrow> nat multiset" where
  "opt_mset x = (case x of None \<Rightarrow> {#} | Some a \<Rightarrow> {#a#})"

definition rd_holds :: "boxreader \<Rightarrow> nat multiset" where
  "rd_holds r = opt_mset (rd_last r) + (case rd_copy r of None \<Rightarrow> {#} | Some c \<Rightarrow> opt_mset c)"

definition holders :: "stm_state \<Rightarrow> nat multiset" where
  "holders st = (case hp_obj (st_heap st) of None \<Rightarrow> {#} | Some obj \<Rightarrow> opt_mset (so_copy obj)) +
     (case st_old st of None \<Rightarrow> {#} | Some c \<Rightarrow> opt_mset c) + (\<Sum>r\<leftarrow>st_readers st. rd_holds r)"

definition refs :: "stm_heap \<Rightarrow> nat \<Rightarrow> int" where
  "refs h a = (case hp_copies h a of None \<Rightarrow> 0 | Some c \<Rightarrow> sc_reference c)"

definition copies_ok :: "nat multiset \<Rightarrow> stm_heap \<Rightarrow> bool" where
  "copies_ok H h = ((\<forall>a. refs h a = int (count H a)) \<and> (\<forall>a c. hp_copies h a = Some c \<longrightarrow> 0 < sc_reference c) \<and>
     (\<forall>a\<ge>hp_next h. hp_copies h a = None))"

definition users :: "stm_state \<Rightarrow> nat" where
  "users st = (if st_writer st then 1 else 0) + st_tokens st + (\<Sum>r\<leftarrow>st_readers st. if rd_obj r then 1 else 0)"

definition obj_ok :: "stm_state \<Rightarrow> bool" where
  "obj_ok st = (case hp_obj (st_heap st) of
     None \<Rightarrow> users st = 0
   | Some obj \<Rightarrow> 0 < users st \<and> so_reference obj = int (users st) \<and> (so_copy obj \<noteq> None \<longleftrightarrow> st_writer st))"

definition readers_ok :: "stm_state \<Rightarrow> bool" where
  "readers_ok st = ((\<forall>r\<in>set (st_readers st). \<not> rd_obj r \<longrightarrow> rd_copy r = None) \<and> (\<forall>r\<in>set (st_readers st). rd_unlock r \<longrightarrow> \<not> rd_obj r))"

definition stm_ok :: "stm_state \<Rightarrow> bool" where
  "stm_ok st = (copies_ok (holders st) (st_heap st) \<and> obj_ok st \<and> readers_ok st)"

lemma opt_mset_simps [simp]: "opt_mset None = {#}" "opt_mset (Some a) = {#a#}"
  by (simp_all add: opt_mset_def)

lemma copies_ok_at:
  assumes "copies_ok H h" "a \<in># H"
  shows "\<exists>x. hp_copies h a = Some x \<and> sc_reference x = int (count H a) \<and> a < hp_next h"
proof -
  have "refs h a = int (count H a)" using assms(1) by (simp add: copies_ok_def)
  then obtain x where x: "hp_copies h a = Some x" "sc_reference x = int (count H a)" using assms(2) by (auto simp: refs_def count_eq_zero_iff split: option.splits)
  then show ?thesis using assms(1) by (metis copies_ok_def linorder_not_less option.distinct(1))
qed

lemma copies_ok_upd:
  assumes ok: "copies_ok H h" and a: "a < hp_next h" and r: "int (count K a) = (case x of None \<Rightarrow> 0 | Some c \<Rightarrow> sc_reference c)"
    "\<And>b. b \<noteq> a \<Longrightarrow> count K b = count H b" "\<And>c. x = Some c \<Longrightarrow> 0 < sc_reference c"
  shows "copies_ok K (h\<lparr>hp_copies := (hp_copies h)(a := x)\<rparr>)"
proof -
  have "refs (h\<lparr>hp_copies := (hp_copies h)(a := x)\<rparr>) b = int (count K b)" for b
    using ok r(1,2) by (cases "b = a") (simp_all add: copies_ok_def refs_def)
  then show ?thesis using ok a r(3) by (auto simp: copies_ok_def)
qed

lemma releasecopy_ok:
  assumes "copies_ok (H + opt_mset c) h"
  shows "\<exists>h'. stm_releasecopy c h = Inr h' \<and> copies_ok H h' \<and> hp_obj h' = hp_obj h"
proof (cases c)
  case (Some a)
  obtain x where x: "hp_copies h a = Some x" "sc_reference x = int (count H a) + 1" "a < hp_next h"
    using copies_ok_at [OF assms, of a] Some by auto
  let ?y = "if count H a = 0 then None else Some (x\<lparr>sc_reference := sc_reference x - 1\<rparr>)"
  have "stm_releasecopy c h = Inr (h\<lparr>hp_copies := (hp_copies h)(a := ?y)\<rparr>)" using x Some by (cases "count H a = 0") (simp_all add: stm_releasecopy_def count_eq_zero_iff)
  moreover have "copies_ok H (h\<lparr>hp_copies := (hp_copies h)(a := ?y)\<rparr>)"
    by (rule copies_ok_upd [OF assms x(3)]) (use x(2) Some in \<open>auto split: if_splits\<close>)
  ultimately show ?thesis by simp
qed (use assms in \<open>simp add: stm_releasecopy_def\<close>)

lemma newcopy_ok:
  assumes "copies_ok H h"
  shows "copies_ok (add_mset (hp_next h) H) (snd (stm_newcopy msg h))" "fst (stm_newcopy msg h) = hp_next h"
    "hp_obj (snd (stm_newcopy msg h)) = hp_obj h"
proof -
  have "hp_copies h (hp_next h) = None" using assms by (simp add: copies_ok_def)
  then have "int (count H (hp_next h)) = 0" using assms unfolding copies_ok_def refs_def by (metis option.case(1))
  moreover have "copies_ok H (h\<lparr>hp_next := Suc (hp_next h)\<rparr>)" using assms by (simp add: copies_ok_def refs_def)
  moreover have eq: "h\<lparr>hp_next := n, hp_copies := c\<rparr> = h\<lparr>hp_copies := c, hp_next := n\<rparr>" for n c by (cases h) simp
  ultimately show "copies_ok (add_mset (hp_next h) H) (snd (stm_newcopy msg h))"
    using copies_ok_upd [of H "h\<lparr>hp_next := Suc (hp_next h)\<rparr>" "hp_next h" "add_mset (hp_next h) H" "Some \<lparr>sc_reference = 1, sc_sz = length msg, sc_msg = msg\<rparr>"]
    unfolding stm_newcopy_def snd_conv eq [symmetric] by simp
qed (simp_all add: stm_newcopy_def)

lemma copy_of_ok:
  assumes "copies_ok H h" "hp_obj h = Some obj" "opt_mset (so_copy obj) \<subseteq># H"
  shows "\<exists>h'. stm_copy_of h = Inr (so_copy obj, h') \<and> copies_ok (H + opt_mset (so_copy obj)) h' \<and> hp_obj h' = hp_obj h"
proof (cases "so_copy obj")
  case (Some a)
  then have c: "a \<in># H" using assms(3) by simp
  then obtain x where x: "hp_copies h a = Some x" "sc_reference x = int (count H a)" "a < hp_next h" using copies_ok_at [OF assms(1)] by blast
  let ?h = "h\<lparr>hp_copies := (hp_copies h)(a \<mapsto> x\<lparr>sc_reference := sc_reference x + 1\<rparr>)\<rparr>"
  have "stm_copy_of h = Inr (Some a, ?h)" using assms(2) Some x c by (simp add: stm_copy_of_def)
  moreover have "copies_ok (H + {#a#}) ?h" by (rule copies_ok_upd [OF assms(1) x(3)]) (use x in auto)
  ultimately show ?thesis using Some by simp
qed (use assms in \<open>simp add: stm_copy_of_def\<close>)

section \<open>Steps\<close>

lemma holders_reader:
  assumes "j < length (st_readers st)"
  shows "holders (upd_reader j f st) + rd_holds (st_readers st ! j) = holders st + rd_holds (f (st_readers st ! j))"
proof -
  have "(\<Sum>r\<leftarrow>(st_readers st)[j := f (st_readers st ! j)]. rd_holds r) + rd_holds (st_readers st ! j) =
      (\<Sum>r\<leftarrow>st_readers st. rd_holds r) + rd_holds (f (st_readers st ! j))" by (rule sum_list_upd [OF assms])
  then show ?thesis by (simp add: holders_def upd_reader_def add.assoc)
qed

lemma holders_heap: "hp_obj h = hp_obj (st_heap st) \<Longrightarrow> holders (st\<lparr>st_heap := h\<rparr>) = holders st"
  by (simp add: holders_def)

lemma users_reader:
  assumes "j < length (st_readers st)"
  shows "users (upd_reader j f st) + (if rd_obj (st_readers st ! j) then 1 else 0) = users st + (if rd_obj (f (st_readers st ! j)) then 1 else 0)"
proof -
  have "(\<Sum>r\<leftarrow>(st_readers st)[j := f (st_readers st ! j)]. if rd_obj r then 1 else (0 :: nat)) + (if rd_obj (st_readers st ! j) then 1 else 0) =
      (\<Sum>r\<leftarrow>st_readers st. if rd_obj r then 1 else 0) + (if rd_obj (f (st_readers st ! j)) then 1 else 0)"
    by (rule sum_list_upd [OF assms])
  then show ?thesis by (simp add: users_def upd_reader_def)
qed

lemma readers_ok_upd:
  assumes "readers_ok st" "\<not> rd_obj (f (st_readers st ! j)) \<longrightarrow> rd_copy (f (st_readers st ! j)) = None"
    "rd_unlock (f (st_readers st ! j)) \<longrightarrow> \<not> rd_obj (f (st_readers st ! j))"
  shows "readers_ok (upd_reader j f st)"
  using assms set_update_subset_insert [of "st_readers st" j "f (st_readers st ! j)"] by (auto simp: readers_ok_def upd_reader_def)

text \<open>A reader does something with its copies only: the object stays as it is.\<close>

lemma reader_step_ok:
  assumes ok: "stm_ok st" and j: "j < length (st_readers st)" and obj: "hp_obj h = hp_obj (st_heap st)"
    and f: "rd_obj (f (st_readers st ! j)) = rd_obj (st_readers st ! j)" "rd_unlock (f (st_readers st ! j)) = rd_unlock (st_readers st ! j)"
    "\<not> rd_obj (st_readers st ! j) \<longrightarrow> rd_copy (f (st_readers st ! j)) = None"
    and c: "copies_ok (holders (upd_reader j f st)) h"
  shows "stm_ok (upd_reader j f (st\<lparr>st_heap := h\<rparr>))"
proof -
  have u: "users (upd_reader j f (st\<lparr>st_heap := h\<rparr>)) = users st"
    using users_reader [OF j, of f] f(1) by (auto simp: users_def upd_reader_def)
  have hh: "holders (upd_reader j f (st\<lparr>st_heap := h\<rparr>)) = holders (upd_reader j f st)" using obj by (simp add: holders_def upd_reader_def)
  have "rd_unlock (st_readers st ! j) \<longrightarrow> \<not> rd_obj (st_readers st ! j)" using ok j by (simp add: stm_ok_def readers_ok_def)
  then have "readers_ok (upd_reader j f st)" using readers_ok_upd [of st f j] ok f by (simp add: stm_ok_def)
  then have "readers_ok (upd_reader j f (st\<lparr>st_heap := h\<rparr>))" by (simp add: readers_ok_def upd_reader_def)
  moreover have "obj_ok (upd_reader j f (st\<lparr>st_heap := h\<rparr>))"
    using ok obj unfolding stm_ok_def obj_ok_def u by (simp add: upd_reader_def split: option.splits)
  ultimately show ?thesis using c hh by (simp add: stm_ok_def) (simp add: upd_reader_def)
qed

lemma obj_present:
  assumes "stm_ok st" "0 < users st"
  shows "\<exists>obj. hp_obj (st_heap st) = Some obj \<and> so_reference obj = int (users st) \<and> (so_copy obj \<noteq> None \<longleftrightarrow> st_writer st)"
  using assms by (auto simp: stm_ok_def obj_ok_def split: option.splits)

lemma users_pos:
  "st_writer st \<Longrightarrow> 0 < users st" "0 < st_tokens st \<Longrightarrow> 0 < users st"
  "j < length (st_readers st) \<Longrightarrow> rd_obj (st_readers st ! j) \<Longrightarrow> 0 < users st"
proof -
  assume j: "j < length (st_readers st)" "rd_obj (st_readers st ! j)"
  have "users (upd_reader j (\<lambda>r. r\<lparr>rd_obj := False\<rparr>) st) + 1 = users st" using users_reader [OF j(1), of "\<lambda>r. r\<lparr>rd_obj := False\<rparr>"] j(2) by simp
  then show "0 < users st" by simp
qed (simp_all add: users_def)

lemma lcopy_ok:
  assumes "stm_ok st" "st_writer st"
  shows "\<exists>st'. lcopy st = Inr st' \<and> stm_ok st'"
proof -
  obtain obj where o: "hp_obj (st_heap st) = Some obj" "so_reference obj = int (users st)" "so_copy obj \<noteq> None \<longleftrightarrow> st_writer st"
    using obj_present [OF assms(1) users_pos(1) [OF assms(2)]] by blast
  let ?st = "st\<lparr>st_heap := (st_heap st)\<lparr>hp_obj := Some (obj\<lparr>so_reference := so_reference obj + 1\<rparr>)\<rparr>, st_tokens := st_tokens st + 1\<rparr>"
  have u: "users ?st = users st + 1" by (simp add: users_def)
  have hl: "holders ?st = holders st" using o(1) by (simp add: holders_def)
  have "lcopy st = Inr ?st" using o users_pos(1) [OF assms(2)] by (simp add: lcopy_def stm_grab_def)
  moreover have "obj_ok ?st" unfolding obj_ok_def u using o by simp
  moreover have "copies_ok (holders ?st) (st_heap ?st)" unfolding hl using assms(1) by (simp add: stm_ok_def copies_ok_def refs_def)
  moreover have "readers_ok ?st" using assms(1) by (simp add: stm_ok_def readers_ok_def)
  ultimately show ?thesis by (simp add: stm_ok_def)
qed

lemma lupdate_ok:
  assumes "stm_ok st" "st_writer st" "st_old st = None"
  shows "\<exists>st'. lupdate msg st = Inr st' \<and> stm_ok st'"
proof -
  obtain obj where o: "hp_obj (st_heap st) = Some obj" "so_reference obj = int (users st)" "so_copy obj \<noteq> None \<longleftrightarrow> st_writer st"
    using obj_present [OF assms(1) users_pos(1) [OF assms(2)]] by blast
  define h where "h = snd (stm_newcopy msg (st_heap st))"
  have n: "copies_ok (add_mset (hp_next (st_heap st)) (holders st)) h" "stm_newcopy msg (st_heap st) = (hp_next (st_heap st), h)" "hp_obj h = Some obj"
    using newcopy_ok [of "holders st" "st_heap st" msg] assms(1) o(1) by (simp_all add: stm_ok_def h_def stm_newcopy_def)
  let ?st = "st\<lparr>st_heap := h\<lparr>hp_obj := Some (obj\<lparr>so_copy := Some (hp_next (st_heap st))\<rparr>)\<rparr>, st_old := Some (so_copy obj)\<rparr>"
  have u: "users ?st = users st" by (simp add: users_def)
  have hl: "holders ?st = add_mset (hp_next (st_heap st)) (holders st)" using o(1) assms(3) by (simp add: holders_def)
  have "lupdate msg st = Inr ?st" using n by (simp add: lupdate_def stm_update_def)
  moreover have "obj_ok ?st" unfolding obj_ok_def u using o assms(2) users_pos(1) [OF assms(2)] by simp
  moreover have "copies_ok (holders ?st) (st_heap ?st)" unfolding hl using n(1) by (simp add: copies_ok_def refs_def)
  moreover have "readers_ok ?st" using assms(1) by (simp add: stm_ok_def readers_ok_def)
  ultimately show ?thesis by (simp add: stm_ok_def)
qed

lemma lupdate_release_ok:
  assumes "stm_ok st" "st_old st \<noteq> None"
  shows "\<exists>st'. lupdate_release st = Inr st' \<and> stm_ok st'"
proof -
  obtain c where c: "st_old st = Some c" using assms(2) by blast
  have "holders st = holders (st\<lparr>st_old := None\<rparr>) + opt_mset c" using c by (simp add: holders_def ac_simps)
  then obtain h where h: "stm_releasecopy c (st_heap st) = Inr h" "copies_ok (holders (st\<lparr>st_old := None\<rparr>)) h" "hp_obj h = hp_obj (st_heap st)"
    using releasecopy_ok [of "holders (st\<lparr>st_old := None\<rparr>)" c "st_heap st"] assms(1) by (auto simp: stm_ok_def)
  let ?st = "st\<lparr>st_heap := h, st_old := None\<rparr>"
  have u: "users ?st = users st" "holders ?st = holders (st\<lparr>st_old := None\<rparr>)" using h(3) by (simp_all add: users_def holders_def)
  have "obj_ok ?st" unfolding obj_ok_def u using assms(1) h(3) by (simp add: stm_ok_def obj_ok_def split: option.splits)
  moreover have "readers_ok ?st" using assms(1) by (simp add: stm_ok_def readers_ok_def)
  ultimately have "stm_ok ?st" using h(2) unfolding stm_ok_def u by simp
  then show ?thesis using h(1) c by (simp add: lupdate_release_def)
qed

lemma ldeletewriter_ok:
  assumes "stm_ok st" "st_writer st" "st_old st = None"
  shows "\<exists>st'. ldeletewriter st = Inr st' \<and> stm_ok st'"
proof -
  obtain obj where o: "hp_obj (st_heap st) = Some obj" "so_reference obj = int (users st)" "so_copy obj \<noteq> None"
    using obj_present [OF assms(1) users_pos(1) [OF assms(2)]] assms(2) by blast
  let ?H = "\<Sum>r\<leftarrow>st_readers st. rd_holds r"
  have "holders st = ?H + opt_mset (so_copy obj)" using o(1) assms(3) by (simp add: holders_def ac_simps)
  then obtain h where h: "stm_releasecopy (so_copy obj) (st_heap st) = Inr h" "copies_ok ?H h" "hp_obj h = Some obj"
    using releasecopy_ok [of ?H "so_copy obj" "st_heap st"] assms(1) o(1) by (auto simp: stm_ok_def)
  define x where "x = (if users st - 1 > 0 then Some (obj\<lparr>so_copy := None, so_reference := so_reference obj - 1\<rparr>) else None)"
  let ?st = "st\<lparr>st_heap := h\<lparr>hp_obj := x\<rparr>, st_writer := False\<rparr>"
  have u: "users ?st = users st - 1" using assms(2) by (simp add: users_def)
  have "ldeletewriter st = Inr ?st" using o h(1) by (auto simp: ldeletewriter_def stm_release_def x_def)
  moreover have "obj_ok ?st" unfolding obj_ok_def u using o(2) by (auto simp: x_def)
  moreover have "holders ?st = ?H" using assms(3) by (simp add: holders_def x_def)
  moreover have "readers_ok ?st" using assms(1) by (simp add: stm_ok_def readers_ok_def)
  ultimately show ?thesis using h(2) by (auto simp: stm_ok_def copies_ok_def refs_def)
qed

lemma lnewreader_ok:
  assumes "stm_ok st" "0 < st_tokens st"
  shows "\<exists>st'. lnewreader st = Inr st' \<and> stm_ok st'"
  using assms by (auto simp: lnewreader_def stm_ok_def holders_def rd_holds_def obj_ok_def users_def readers_ok_def split: option.splits)

lemma obj_copy_held: "hp_obj (st_heap st) = Some obj \<Longrightarrow> opt_mset (so_copy obj) \<subseteq># holders st"
  by (simp add: holders_def add.assoc)

lemma lread_ok:
  assumes ok: "stm_ok st" and j: "j < length (st_readers st)" "rd_obj (st_readers st ! j)" "rd_copy (st_readers st ! j) = None"
  shows "\<exists>st'. lread j st = Inr st' \<and> stm_ok st'"
proof -
  obtain obj where o: "hp_obj (st_heap st) = Some obj" using obj_present [OF ok users_pos(3) [OF j(1,2)]] by blast
  obtain h where h: "stm_copy_of (st_heap st) = Inr (so_copy obj, h)" "copies_ok (holders st + opt_mset (so_copy obj)) h" "hp_obj h = hp_obj (st_heap st)"
    using copy_of_ok [of "holders st" "st_heap st" obj] ok o obj_copy_held by (auto simp: stm_ok_def)
  let ?f = "\<lambda>r. r\<lparr>rd_copy := Some (so_copy obj)\<rparr>"
  have "holders (upd_reader j ?f st) = holders st + opt_mset (so_copy obj)" using holders_reader [OF j(1), of ?f] j(3) by (simp add: rd_holds_def ac_simps)
  then have "stm_ok (upd_reader j ?f (st\<lparr>st_heap := h\<rparr>))" using reader_step_ok [OF ok j(1) h(3), of ?f] j h(2) by simp
  then show ?thesis using h(1) by (simp add: lread_def)
qed

text \<open>A reader lets go of a copy.\<close>

lemma reader_release_ok:
  assumes ok: "stm_ok st" and j: "j < length (st_readers st)"
    and f: "rd_obj (f (st_readers st ! j)) = rd_obj (st_readers st ! j)" "rd_unlock (f (st_readers st ! j)) = rd_unlock (st_readers st ! j)"
    "\<not> rd_obj (st_readers st ! j) \<longrightarrow> rd_copy (f (st_readers st ! j)) = None"
    and c: "rd_holds (st_readers st ! j) = rd_holds (f (st_readers st ! j)) + opt_mset c"
  shows "\<exists>h. stm_releasecopy c (st_heap st) = Inr h \<and> stm_ok (upd_reader j f (st\<lparr>st_heap := h\<rparr>))"
proof -
  have "holders st = holders (upd_reader j f st) + opt_mset c" using holders_reader [OF j, of f] c by (simp add: ac_simps)
  then obtain h where h: "stm_releasecopy c (st_heap st) = Inr h" "copies_ok (holders (upd_reader j f st)) h" "hp_obj h = hp_obj (st_heap st)"
    using releasecopy_ok [of "holders (upd_reader j f st)" c "st_heap st"] ok by (auto simp: stm_ok_def)
  then show ?thesis using reader_step_ok [OF ok j h(3) f h(2)] by blast
qed

lemma lread_release_ok:
  assumes ok: "stm_ok st" and j: "j < length (st_readers st)" "rd_copy (st_readers st ! j) \<noteq> None"
  shows "\<exists>st'. lread_release j st = Inr st' \<and> stm_ok st'"
proof -
  obtain c where c: "rd_copy (st_readers st ! j) = Some c" using j(2) by blast
  show ?thesis
  proof (cases "c = rd_last (st_readers st ! j)")
    case True
    then show ?thesis using reader_release_ok [OF ok j(1), of "\<lambda>r. r\<lparr>rd_copy := None\<rparr>" c] c by (auto simp: rd_holds_def lread_release_def Let_def)
  next
    case False
    have "rd_holds (st_readers st ! j) = rd_holds ((st_readers st ! j)\<lparr>rd_copy := None, rd_last := c\<rparr>) + opt_mset (rd_last (st_readers st ! j))"
      using c by (simp add: rd_holds_def)
    then obtain h where "stm_releasecopy (rd_last (st_readers st ! j)) (st_heap st) = Inr h"
      "stm_ok (upd_reader j (\<lambda>r. r\<lparr>rd_copy := None, rd_last := c\<rparr>) (st\<lparr>st_heap := h\<rparr>))"
      using reader_release_ok [OF ok j(1), of "\<lambda>r. r\<lparr>rd_copy := None, rd_last := c\<rparr>" "rd_last (st_readers st ! j)"] by auto
    then show ?thesis using False c by (simp add: lread_release_def Let_def)
  qed
qed

lemma ldeletereader_release_ok:
  assumes ok: "stm_ok st" and j: "j < length (st_readers st)" "\<not> rd_obj (st_readers st ! j)"
  shows "\<exists>st'. ldeletereader_release j st = Inr st' \<and> stm_ok st'"
proof -
  have "rd_copy (st_readers st ! j) = None" using ok j by (simp add: stm_ok_def readers_ok_def)
  then show ?thesis using reader_release_ok [OF ok j(1), of "\<lambda>r. r\<lparr>rd_last := None\<rparr>" "rd_last (st_readers st ! j)"]
    by (auto simp: rd_holds_def ldeletereader_release_def)
qed

lemma ldeletereader_ok:
  assumes ok: "stm_ok st" and j: "j < length (st_readers st)" "rd_obj (st_readers st ! j)" "rd_copy (st_readers st ! j) = None"
  shows "\<exists>st'. ldeletereader j st = Inr st' \<and> stm_ok st'"
proof -
  obtain obj where o: "hp_obj (st_heap st) = Some obj" "so_reference obj = int (users st)" "so_copy obj \<noteq> None \<longleftrightarrow> st_writer st"
    using obj_present [OF ok users_pos(3) [OF j(1,2)]] by blast
  define lst where "lst = (users st = 1)"
  define x where "x = (if lst then None else Some (obj\<lparr>so_reference := so_reference obj - 1\<rparr>))"
  let ?f = "\<lambda>r. r\<lparr>rd_obj := False, rd_unlock := \<not> lst\<rparr>"
  let ?st = "upd_reader j ?f (st\<lparr>st_heap := (st_heap st)\<lparr>hp_obj := x\<rparr>\<rparr>)"
  have uj: "users (upd_reader j ?f st) + 1 = users st" using users_reader [OF j(1), of ?f] j(2) by simp
  have "users ?st = users (upd_reader j ?f st)" by (simp add: users_def upd_reader_def)
  then have u: "users ?st = users st - 1" using uj by simp
  have nw: "so_copy obj = None" if lst
  proof (rule ccontr)
    assume "so_copy obj \<noteq> None"
    then have "st_writer (upd_reader j ?f st)" using o(3) by (simp add: upd_reader_def)
    then have "0 < users (upd_reader j ?f st)" by (rule users_pos(1))
    then show False using uj that by (simp add: lst_def)
  qed
  have e: "ldeletereader j st = Inr ?st" using o(1,2) nw by (auto simp: ldeletereader_def stm_releasereader_def x_def lst_def)
  have "holders ?st = holders (upd_reader j ?f st)" using o(1) nw by (auto simp: holders_def upd_reader_def x_def)
  also have "\<dots> = holders st" using holders_reader [OF j(1), of ?f] by (simp add: rd_holds_def)
  finally have "copies_ok (holders ?st) (st_heap ?st)" using ok by (simp add: stm_ok_def copies_ok_def refs_def) (simp add: upd_reader_def)
  moreover have "obj_ok ?st" unfolding obj_ok_def u using o uj by (auto simp: x_def lst_def upd_reader_def)
  moreover have r0: "readers_ok (st\<lparr>st_heap := (st_heap st)\<lparr>hp_obj := x\<rparr>\<rparr>)" using ok by (simp add: stm_ok_def readers_ok_def)
  have "readers_ok ?st" by (rule readers_ok_upd [OF r0]) (use j(3) in simp_all)
  ultimately show ?thesis using e by (simp add: stm_ok_def)
qed

lemma ldeletereader_unlock_ok:
  assumes ok: "stm_ok st" and j: "j < length (st_readers st)" and o: "hp_obj (st_heap st) \<noteq> None"
  shows "\<exists>st'. ldeletereader_unlock j st = Inr st' \<and> stm_ok st'"
proof -
  let ?f = "\<lambda>r. r\<lparr>rd_unlock := False\<rparr>" and ?st = "upd_reader j (\<lambda>r. r\<lparr>rd_unlock := False\<rparr>) st"
  have "users ?st = users st" using users_reader [OF j, of ?f] by (simp split: if_splits)
  moreover have "holders ?st = holders st" using holders_reader [OF j, of ?f] by (simp add: rd_holds_def)
  moreover have c: "\<not> rd_obj (st_readers st ! j) \<longrightarrow> rd_copy (st_readers st ! j) = None" using ok j by (simp add: stm_ok_def readers_ok_def)
  have "readers_ok ?st" by (rule readers_ok_upd) (use ok c in \<open>simp_all add: stm_ok_def\<close>)
  moreover have "st_heap ?st = st_heap st" "st_writer ?st = st_writer st" by (simp_all add: upd_reader_def)
  ultimately have "stm_ok ?st" using ok by (simp add: stm_ok_def obj_ok_def split: option.splits)
  moreover have "ldeletereader_unlock j st = Inr ?st" using o by (auto simp: ldeletereader_unlock_def rwlock_runlock_def upd_reader_def)
  ultimately show ?thesis by blast
qed

lemmas stm_ops_ok = lcopy_ok lupdate_ok lupdate_release_ok ldeletewriter_ok lnewreader_ok lread_ok lread_release_ok
  ldeletereader_ok ldeletereader_release_ok

lemma stm_step_ok:
  assumes "stm_ok st" "stm_enabled q st"
  shows "(\<exists>st'. stm_step q st = Inr st' \<and> stm_ok st') \<or>
    (\<exists>j. q = L_deletereader_unlock j) \<and> hp_obj (st_heap st) = None \<and> stm_step q st = Inl (Bad_pointer ''rwlock_runlock'')"
proof (cases "\<exists>j. q = L_deletereader_unlock j")
  case True
  then obtain j where q: "q = L_deletereader_unlock j" by blast
  show ?thesis
  proof (cases "hp_obj (st_heap st)")
    case None
    then show ?thesis using q by (simp add: ldeletereader_unlock_def rwlock_runlock_def)
  next
    case (Some obj)
    then show ?thesis using ldeletereader_unlock_ok [OF assms(1), of j] assms(2) q by simp
  qed
next
  case False
  have "\<exists>st'. stm_step q st = Inr st' \<and> stm_ok st'"
    using stm_ops_ok assms False by (cases q) simp_all
  then show ?thesis ..
qed

lemma stm_init_ok: "stm_ok (lnewwriter msg)"
  by (simp add: stm_ok_def lnewwriter_def stm_new_def stm_newcopy_def holders_def copies_ok_def refs_def obj_ok_def users_def readers_ok_def)

lemma stm_reach_ok: "stm_reach st \<Longrightarrow> stm_ok st"
proof (induction rule: stm_reach.induct)
  case (stm_next st q st')
  then show ?case using stm_step_ok [of st q] by auto
qed (rule stm_init_ok)

section \<open>Theorems\<close>

text \<open>
  C39: in every interleaving of the writer and its readers, a copy exists exactly as long as the object, an update
  in progress or a reader holds it, with that number as its count, and no step fails an assertion or touches
  freed memory, except the unlock of a reader that gave the object up after the object was freed.
\<close>

theorem stm_copies_counted:
  assumes "stm_reach st"
  shows "(\<forall>a. (hp_copies (st_heap st) a \<noteq> None \<longleftrightarrow> a \<in># holders st) \<and>
      (\<forall>c. hp_copies (st_heap st) a = Some c \<longrightarrow> sc_reference c = int (count (holders st) a))) \<and>
    (\<forall>q e. stm_enabled q st \<longrightarrow> stm_step q st = Inl e \<longrightarrow>
      (\<exists>j. q = L_deletereader_unlock j) \<and> hp_obj (st_heap st) = None \<and> e = Bad_pointer ''rwlock_runlock'')"
proof -
  have ok: "stm_ok st" by (rule stm_reach_ok [OF assms])
  then have cs: "copies_ok (holders st) (st_heap st)" by (simp add: stm_ok_def)
  have "(hp_copies (st_heap st) a \<noteq> None \<longleftrightarrow> a \<in># holders st) \<and>
      (\<forall>c. hp_copies (st_heap st) a = Some c \<longrightarrow> sc_reference c = int (count (holders st) a))" for a
  proof (cases "hp_copies (st_heap st) a")
    case None
    then show ?thesis using copies_ok_at [OF cs, of a] by auto
  next
    case (Some c)
    then have "refs (st_heap st) a = int (count (holders st) a)" "0 < sc_reference c" using cs by (simp_all add: copies_ok_def)
    then show ?thesis using Some by (simp add: refs_def flip: count_greater_zero_iff)
  qed
  moreover have "(\<exists>j. q = L_deletereader_unlock j) \<and> hp_obj (st_heap st) = None \<and> e = Bad_pointer ''rwlock_runlock''"
    if "stm_enabled q st" "stm_step q st = Inl e" for q e using stm_step_ok [OF ok that(1)] that(2) by auto
  ultimately show ?thesis by blast
qed

fun stm_run :: "stm_op list \<Rightarrow> stm_state \<Rightarrow> stm_state res" where
  "stm_run [] st = Inr st"
| "stm_run (q # qs) st = (if stm_enabled q st then res_bind (stm_step q st) (stm_run qs) else Inr st)"

lemma stm_run_reach: "stm_reach st \<Longrightarrow> stm_run qs st = Inr st' \<Longrightarrow> stm_reach st'"
proof (induction qs arbitrary: st)
  case (Cons q qs)
  then show ?case by (cases "stm_enabled q st"; cases "stm_step q st") (auto intro: stm_next)
qed simp

lemmas stm_eval = lnewwriter_def stm_new_def stm_newcopy_def lcopy_def stm_grab_def lnewreader_def ldeletewriter_def stm_release_def
  stm_releasecopy_def ldeletereader_def stm_releasereader_def upd_reader_def unlocked_def lread_def stm_copy_of_def lread_release_def
  Let_def

text \<open>
  C40: two readers that give the object up at the same time after the writer is gone: the second one frees the object
  while the first one still holds its lock, and the unlock of the first one is an access to freed memory.
\<close>

theorem stm_unlock_after_free:
  "\<exists>st j. stm_reach st \<and> stm_enabled (L_deletereader_unlock j) st \<and>
     stm_step (L_deletereader_unlock j) st = Inl (Bad_pointer ''rwlock_runlock'')"
proof -
  let ?qs = "[L_copy, L_copy, L_newreader, L_newreader, L_deletewriter, L_deletereader 0, L_deletereader 1]"
  have "\<exists>st. stm_run ?qs (lnewwriter [1]) = Inr st \<and> hp_obj (st_heap st) = None \<and> stm_enabled (L_deletereader_unlock 0) st"
    by (simp add: stm_eval)
  then obtain st where st: "stm_run ?qs (lnewwriter [1]) = Inr st" "hp_obj (st_heap st) = None" "stm_enabled (L_deletereader_unlock 0) st" by blast
  then show ?thesis using stm_run_reach [OF stm_init st(1)] by (intro exI [of _ st] exI [of _ 0]) (simp add: ldeletereader_unlock_def rwlock_runlock_def)
qed

theorem stm_copies_counted_witness:
  "\<exists>st c. stm_run [L_copy, L_newreader, L_read 0] (lnewwriter [1]) = Inr st \<and> hp_copies (st_heap st) 0 = Some c \<and>
     sc_reference c = int (count (holders st) 0) \<and> sc_reference c = 2"
proof -
  have "\<exists>st c. stm_run [L_copy, L_newreader, L_read 0] (lnewwriter [1]) = Inr st \<and> hp_copies (st_heap st) 0 = Some c \<and> sc_reference c = 2"
    by (simp add: stm_eval)
  then obtain st c where st: "stm_run [L_copy, L_newreader, L_read 0] (lnewwriter [1]) = Inr st" "hp_copies (st_heap st) 0 = Some c" "sc_reference c = 2"
    by blast
  then show ?thesis using stm_copies_counted [OF stm_run_reach [OF stm_init st(1)]] by blast
qed

end
