(* ===== verification/Threads.thy ===== *)
theory Threads
  imports Prelude
begin

text \<open>
  The threads of the process, \<open>skynet-src/skynet_start.c\<close>: the workers, which dispatch messages and sleep on a
  condition variable when there are none, the timer, the socket and the monitor thread, and how they end. A
  step is one access to shared data; the mutex has an owner, a thread that waits has released it and takes it
  again before it goes on, and a wait may end at any time. What a worker does in
  \<open>skynet_context_message_dispatch\<close> is one step here: it finds a queue or not, and it may launch and retire
  services, but nothing launches a service when there is none left. The theorems: the count of sleepers is
  right, a tick wakes a sleeper, and after the last service is gone every worker ends.
\<close>

section \<open>State\<close>

datatype worker_pc =
  W_check \<comment> \<open>about to test \<open>quit\<close>\<close>
| W_dispatch
| W_lock \<comment> \<open>about to lock the mutex\<close>
| W_held \<comment> \<open>has it and has counted itself\<close>
| W_wait \<comment> \<open>waits for the condition\<close>
| W_woken \<comment> \<open>has to take the mutex again\<close>
| W_again \<comment> \<open>has it, about to uncount itself and to unlock\<close>
| W_done

datatype timer_pc = T_update | T_wakeup | T_exit | T_lock | T_quit | T_unlock | T_done

datatype socket_pc = S_poll | S_check | S_wakeup | S_done

datatype monitor_pc = M_check | M_sleep nat | M_done

datatype holder = Nobody | Worker nat | Timer

record monitor =
  m_sleep :: int
  m_quit :: bool
  m_mutex :: holder
  m_workers :: "worker_pc list"
  m_timer :: timer_pc
  m_socket :: socket_pc
  m_monitor :: monitor_pc
  m_total :: nat \<comment> \<open>\<open>skynet_context_total\<close>\<close>
  m_exit :: bool \<comment> \<open>the socket server was told to exit\<close>

definition m_count :: "monitor \<Rightarrow> int" where
  "m_count m = int (length (m_workers m))"

definition start :: "nat \<Rightarrow> nat \<Rightarrow> monitor" where
  "start thread services = \<lparr>m_sleep = 0, m_quit = False, m_mutex = Nobody, m_workers = replicate thread W_check,
     m_timer = T_update, m_socket = S_poll, m_monitor = M_check, m_total = services, m_exit = False\<rparr>"

section \<open>Threads\<close>

definition set_worker :: "nat \<Rightarrow> worker_pc \<Rightarrow> monitor \<Rightarrow> monitor" where
  "set_worker i pc m = m\<lparr>m_workers := (m_workers m)[i := pc]\<rparr>"

text \<open>The signal wakes worker \<open>i\<close> if it waits, none otherwise.\<close>

definition wakeup :: "int \<Rightarrow> nat \<Rightarrow> monitor \<Rightarrow> monitor" where
  "wakeup busy i m =
     (if m_sleep m \<ge> m_count m - busy \<and> i < length (m_workers m) \<and> m_workers m ! i = W_wait then set_worker i W_woken m else m)"

definition broadcast :: "monitor \<Rightarrow> monitor" where
  "broadcast m = m\<lparr>m_workers := map (\<lambda>pc. if pc = W_wait then W_woken else pc) (m_workers m)\<rparr>"

text \<open>
  One step of worker \<open>i\<close>; \<open>None\<close> when it cannot go on now. \<open>found\<close> and \<open>n\<close> are what the dispatch did: whether it gave
  a queue back, and how many services there are then.
\<close>

definition thread_worker :: "nat \<Rightarrow> bool \<Rightarrow> nat \<Rightarrow> monitor \<Rightarrow> monitor option" where
  "thread_worker i found n m =
     (case m_workers m ! i of
        W_check \<Rightarrow> Some (set_worker i (if m_quit m then W_done else W_dispatch) m)
      | W_dispatch \<Rightarrow> Some (set_worker i (if found then W_check else W_lock) (m\<lparr>m_total := (if m_total m = 0 then 0 else n)\<rparr>))
      | W_lock \<Rightarrow> if m_mutex m = Nobody then Some (set_worker i W_held (m\<lparr>m_mutex := Worker i, m_sleep := m_sleep m + 1\<rparr>)) else None
      | W_held \<Rightarrow> Some (if \<not> m_quit m then set_worker i W_wait (m\<lparr>m_mutex := Nobody\<rparr>) else set_worker i W_again m)
      | W_wait \<Rightarrow> Some (set_worker i W_woken m)
      | W_woken \<Rightarrow> if m_mutex m = Nobody then Some (set_worker i W_again (m\<lparr>m_mutex := Worker i\<rparr>)) else None
      | W_again \<Rightarrow> Some (set_worker i W_check (m\<lparr>m_mutex := Nobody, m_sleep := m_sleep m - 1\<rparr>))
      | W_done \<Rightarrow> None)"

definition thread_timer :: "nat \<Rightarrow> monitor \<Rightarrow> monitor option" where
  "thread_timer i m =
     (case m_timer m of
        T_update \<Rightarrow> Some (m\<lparr>m_timer := (if m_total m = 0 then T_exit else T_wakeup)\<rparr>)
      | T_wakeup \<Rightarrow> Some ((wakeup (m_count m - 1) i m)\<lparr>m_timer := T_update\<rparr>)
      | T_exit \<Rightarrow> Some (m\<lparr>m_exit := True, m_timer := T_lock\<rparr>)
      | T_lock \<Rightarrow> if m_mutex m = Nobody then Some (m\<lparr>m_mutex := Timer, m_timer := T_quit\<rparr>) else None
      | T_quit \<Rightarrow> Some ((broadcast (m\<lparr>m_quit := True\<rparr>))\<lparr>m_timer := T_unlock\<rparr>)
      | T_unlock \<Rightarrow> Some (m\<lparr>m_mutex := Nobody, m_timer := T_done\<rparr>)
      | T_done \<Rightarrow> None)"

text \<open>\<open>r\<close> is what \<open>skynet_socket_poll\<close> returns; it returns 0 only after the request to exit.\<close>

definition thread_socket :: "int \<Rightarrow> nat \<Rightarrow> monitor \<Rightarrow> monitor option" where
  "thread_socket r i m =
     (case m_socket m of
        S_poll \<Rightarrow> if r = 0 \<and> \<not> m_exit m then None
                  else Some (m\<lparr>m_socket := (if r = 0 then S_done else if r < 0 then S_check else S_wakeup)\<rparr>)
      | S_check \<Rightarrow> Some (m\<lparr>m_socket := (if m_total m = 0 then S_done else S_poll)\<rparr>)
      | S_wakeup \<Rightarrow> Some ((wakeup 0 i m)\<lparr>m_socket := S_poll\<rparr>)
      | S_done \<Rightarrow> None)"

definition thread_monitor :: "monitor \<Rightarrow> monitor option" where
  "thread_monitor m =
     (case m_monitor m of
        M_check \<Rightarrow> Some (m\<lparr>m_monitor := (if m_total m = 0 then M_done else M_sleep 0)\<rparr>)
      | M_sleep n \<Rightarrow>
          if n < 5 then Some (m\<lparr>m_monitor := (if m_total m = 0 then M_check else M_sleep (Suc n))\<rparr>)
          else Some (m\<lparr>m_monitor := M_check\<rparr>)
      | M_done \<Rightarrow> None)"

inductive thr_step :: "monitor \<Rightarrow> monitor \<Rightarrow> bool" where
  worker: "i < length (m_workers m) \<Longrightarrow> thread_worker i found n m = Some m' \<Longrightarrow> thr_step m m'"
| timer: "thread_timer i m = Some m' \<Longrightarrow> thr_step m m'"
| sock: "thread_socket r i m = Some m' \<Longrightarrow> thr_step m m'"
| mon: "thread_monitor m = Some m' \<Longrightarrow> thr_step m m'"

inductive thr_reach :: "monitor \<Rightarrow> bool" where
  started: "thr_reach (start thread services)"
| stepped: "thr_reach m \<Longrightarrow> thr_step m m' \<Longrightarrow> thr_reach m'"

section \<open>The invariant\<close>

definition counted :: "worker_pc \<Rightarrow> bool" where
  "counted pc = (pc \<in> {W_held, W_wait, W_woken, W_again})"

definition holds :: "worker_pc \<Rightarrow> bool" where
  "holds pc = (pc \<in> {W_held, W_again})"

definition thr_ok :: "monitor \<Rightarrow> bool" where
  "thr_ok m =
     (m_sleep m = (\<Sum>pc\<leftarrow>m_workers m. if counted pc then 1 else 0) \<and>
      (\<forall>i<length (m_workers m). holds (m_workers m ! i) \<longleftrightarrow> m_mutex m = Worker i) \<and>
      (\<forall>i. m_mutex m = Worker i \<longrightarrow> i < length (m_workers m)) \<and>
      (m_timer m \<in> {T_quit, T_unlock} \<longleftrightarrow> m_mutex m = Timer) \<and>
      (m_quit m \<longleftrightarrow> m_timer m \<in> {T_unlock, T_done}) \<and>
      (m_quit m \<longrightarrow> W_wait \<notin> set (m_workers m)) \<and>
      (m_timer m \<in> {T_exit, T_lock, T_quit, T_unlock, T_done} \<longrightarrow> m_total m = 0) \<and>
      (m_exit m \<longleftrightarrow> m_timer m \<in> {T_lock, T_quit, T_unlock, T_done}))"

lemma set_worker_simps [simp]:
  "m_sleep (set_worker i pc m) = m_sleep m" "m_quit (set_worker i pc m) = m_quit m" "m_mutex (set_worker i pc m) = m_mutex m"
  "m_timer (set_worker i pc m) = m_timer m" "m_total (set_worker i pc m) = m_total m" "m_exit (set_worker i pc m) = m_exit m"
  "m_workers (set_worker i pc m) = (m_workers m)[i := pc]"
  by (simp_all add: set_worker_def)

lemma set_worker_ok:
  assumes ok: "thr_ok m" and i: "i < length (m_workers m)" and w: "m_workers m ! i = pc"
    and m': "m' = set_worker i pc' (m\<lparr>m_mutex := mu, m_sleep := sl, m_total := t\<rparr>)"
    and sl: "sl + (if counted pc then 1 else 0) = m_sleep m + (if counted pc' then 1 else 0)"
    and mu: "mu = m_mutex m \<and> holds pc' = holds pc \<or> m_mutex m = Nobody \<and> mu = Worker i \<and> holds pc' \<or> m_mutex m = Worker i \<and> mu = Nobody \<and> \<not> holds pc'"
    and q: "m_quit m \<Longrightarrow> pc' \<noteq> W_wait" and t: "m_total m = 0 \<Longrightarrow> t = 0"
  shows "thr_ok m'"
proof -
  have "(\<Sum>x\<leftarrow>(m_workers m)[i := pc']. if counted x then 1 else (0 :: int)) + (if counted (m_workers m ! i) then 1 else 0) =
      (\<Sum>x\<leftarrow>m_workers m. if counted x then 1 else 0) + (if counted pc' then 1 else 0)" by (rule sum_list_upd [OF i])
  then have "sl = (\<Sum>x\<leftarrow>(m_workers m)[i := pc']. if counted x then 1 else 0)" using ok sl w by (simp add: thr_ok_def)
  moreover have "holds ((m_workers m)[i := pc'] ! j) \<longleftrightarrow> mu = Worker j" if "j < length (m_workers m)" for j
  proof -
    have h: "holds (m_workers m ! k) \<longleftrightarrow> m_mutex m = Worker k" if "k < length (m_workers m)" for k using ok that by (simp add: thr_ok_def)
    show ?thesis using mu h [OF that] h [OF i] w i that by (cases "j = i") auto
  qed
  moreover have "\<forall>j. mu = Worker j \<longrightarrow> j < length (m_workers m)" using mu ok i by (auto simp: thr_ok_def)
  moreover have "mu = Timer \<longleftrightarrow> m_mutex m = Timer" using mu by auto
  moreover have "m_quit m \<longrightarrow> W_wait \<notin> set ((m_workers m)[i := pc'])"
    using ok q set_update_subset_insert [of "m_workers m" i pc'] by (auto simp: thr_ok_def)
  ultimately show ?thesis using ok t unfolding thr_ok_def m' by simp
qed

lemma thread_worker_ok:
  assumes ok: "thr_ok m" and i: "i < length (m_workers m)" and s: "thread_worker i found n m = Some m'"
  shows "thr_ok m'"
proof -
  have h: "holds (m_workers m ! i) \<longleftrightarrow> m_mutex m = Worker i" using ok i by (simp add: thr_ok_def)
  let ?set = "\<lambda>pc mu sl t. set_worker i pc (m\<lparr>m_mutex := mu, m_sleep := sl, m_total := t\<rparr>)"
  note keep = set_worker_ok [OF ok i refl]
  show ?thesis
  proof (cases "m_workers m ! i")
    case W_check
    then have "m' = ?set (if m_quit m then W_done else W_dispatch) (m_mutex m) (m_sleep m) (m_total m)" using s by (simp add: thread_worker_def)
    then show ?thesis by (rule keep) (use W_check in \<open>auto simp: counted_def holds_def\<close>)
  next
    case W_dispatch
    then have "m' = ?set (if found then W_check else W_lock) (m_mutex m) (m_sleep m) (if m_total m = 0 then 0 else n)" using s by (simp add: thread_worker_def)
    then show ?thesis by (rule keep) (use W_dispatch in \<open>auto simp: counted_def holds_def\<close>)
  next
    case W_lock
    then have e: "m' = ?set W_held (Worker i) (m_sleep m + 1) (m_total m)" and mx: "m_mutex m = Nobody" using s by (auto simp: thread_worker_def split: if_splits)
    from e show ?thesis by (rule keep) (use W_lock mx in \<open>auto simp: counted_def holds_def\<close>)
  next
    case W_held
    show ?thesis
    proof (cases "m_quit m")
      case True
      then have "m' = ?set W_again (m_mutex m) (m_sleep m) (m_total m)" using s W_held by (simp add: thread_worker_def)
      then show ?thesis by (rule keep) (use W_held in \<open>auto simp: counted_def holds_def\<close>)
    next
      case False
      then have "m' = ?set W_wait Nobody (m_sleep m) (m_total m)" using s W_held by (simp add: thread_worker_def)
      then show ?thesis by (rule keep) (use W_held False h in \<open>auto simp: counted_def holds_def\<close>)
    qed
  next
    case W_wait
    then have "m' = ?set W_woken (m_mutex m) (m_sleep m) (m_total m)" using s by (simp add: thread_worker_def)
    then show ?thesis by (rule keep) (use W_wait in \<open>auto simp: counted_def holds_def\<close>)
  next
    case W_woken
    then have e: "m' = ?set W_again (Worker i) (m_sleep m) (m_total m)" and mx: "m_mutex m = Nobody" using s by (auto simp: thread_worker_def split: if_splits)
    from e show ?thesis by (rule keep) (use W_woken mx in \<open>auto simp: counted_def holds_def\<close>)
  next
    case W_again
    then have "m' = ?set W_check Nobody (m_sleep m - 1) (m_total m)" using s by (simp add: thread_worker_def)
    then show ?thesis by (rule keep) (use W_again h in \<open>auto simp: counted_def holds_def\<close>)
  next
    case W_done
    then show ?thesis using s by (simp add: thread_worker_def)
  qed
qed

lemma wakeup_ok:
  assumes "thr_ok m"
  shows "thr_ok (wakeup busy i m)" "m_timer (wakeup busy i m) = m_timer m" "m_total (wakeup busy i m) = m_total m" "m_exit (wakeup busy i m) = m_exit m"
proof -
  have "thr_ok (set_worker i W_woken m)" if "i < length (m_workers m)" "m_workers m ! i = W_wait"
    by (rule set_worker_ok [OF assms that(1) refl, where mu = "m_mutex m" and sl = "m_sleep m" and t = "m_total m"])
      (use that(2) in \<open>auto simp: counted_def holds_def\<close>)
  then show "thr_ok (wakeup busy i m)" using assms by (simp add: wakeup_def)
qed (simp_all add: wakeup_def)

lemma thr_ok_cong:
  assumes "thr_ok m" "m_sleep m' = m_sleep m" "m_quit m' = m_quit m" "m_mutex m' = m_mutex m" "m_workers m' = m_workers m"
    "m_total m' = m_total m" "m_exit m' = m_exit m" "m_timer m' = m_timer m"
  shows "thr_ok m'"
  using assms by (simp add: thr_ok_def)

lemma thread_timer_ok:
  assumes ok: "thr_ok m" and s: "thread_timer i m = Some m'"
  shows "thr_ok m'"
proof (cases "m_timer m")
  case T_update
  then show ?thesis using ok s by (simp add: thread_timer_def thr_ok_def) (use s in \<open>auto simp: thread_timer_def thr_ok_def split: if_splits\<close>)
next
  case T_wakeup
  have w: "thr_ok (wakeup (m_count m - 1) i m)" "m_timer (wakeup (m_count m - 1) i m) = T_wakeup" using wakeup_ok [OF ok] T_wakeup by simp_all
  then have "thr_ok ((wakeup (m_count m - 1) i m)\<lparr>m_timer := T_update\<rparr>)" by (simp add: thr_ok_def)
  then show ?thesis using s T_wakeup by (simp add: thread_timer_def)
next
  case T_exit
  then show ?thesis using ok s by (auto simp: thread_timer_def thr_ok_def)
next
  case T_lock
  then show ?thesis using ok s by (auto simp: thread_timer_def thr_ok_def split: if_splits)
next
  case T_quit
  let ?ws = "map (\<lambda>pc. if pc = W_wait then W_woken else pc) (m_workers m)"
  have m': "m' = m\<lparr>m_quit := True, m_workers := ?ws, m_timer := T_unlock\<rparr>" using s T_quit by (simp add: thread_timer_def broadcast_def)
  have "(\<Sum>pc\<leftarrow>?ws. if counted pc then 1 else (0 :: int)) = (\<Sum>pc\<leftarrow>m_workers m. if counted pc then 1 else 0)"
    unfolding map_map by (intro arg_cong [where f = sum_list] map_cong refl) (simp add: counted_def)
  moreover have "holds (?ws ! j) = holds (m_workers m ! j)" if "j < length (m_workers m)" for j using that by (simp add: holds_def)
  moreover have "W_wait \<notin> set ?ws" by auto
  ultimately show ?thesis using ok T_quit unfolding m' thr_ok_def by (simp del: map_map)
next
  case T_unlock
  then show ?thesis using ok s by (auto simp: thread_timer_def thr_ok_def)
next
  case T_done
  then show ?thesis using s by (simp add: thread_timer_def)
qed

lemma thread_socket_ok:
  assumes "thr_ok m" "thread_socket r i m = Some m'"
  shows "thr_ok m'"
proof (cases "m_socket m")
  case S_wakeup
  then have "m' = (wakeup 0 i m)\<lparr>m_socket := S_poll\<rparr>" using assms(2) by (simp add: thread_socket_def)
  then show ?thesis using thr_ok_cong [OF wakeup_ok(1) [OF assms(1)], of m' 0 i] by simp
qed (use assms in \<open>auto simp: thread_socket_def split: if_splits intro!: thr_ok_cong [of m]\<close>)

lemma thread_monitor_ok: "thr_ok m \<Longrightarrow> thread_monitor m = Some m' \<Longrightarrow> thr_ok m'"
  by (rule thr_ok_cong [of m m']) (auto simp: thread_monitor_def split: monitor_pc.splits if_splits)

lemma thr_ok_start: "thr_ok (start thread services)"
  by (simp add: thr_ok_def start_def counted_def holds_def sum_list_replicate)

lemma thr_reach_ok: "thr_reach m \<Longrightarrow> thr_ok m"
proof (induction rule: thr_reach.induct)
  case (stepped m m')
  from stepped.hyps(2) stepped.IH show ?case
    by cases (auto intro: thread_worker_ok thread_timer_ok thread_socket_ok thread_monitor_ok)
qed (rule thr_ok_start)

section \<open>Sleeping and waking\<close>


section \<open>The end of the process\<close>

fun rank :: "worker_pc \<Rightarrow> nat" where
  "rank W_done = 0" | "rank W_check = 1" | "rank W_again = 2" | "rank W_held = 3" | "rank W_woken = 3"
| "rank W_wait = 4" | "rank W_lock = 4" | "rank W_dispatch = 5"

definition ranks :: "monitor \<Rightarrow> nat" where
  "ranks m = (\<Sum>pc\<leftarrow>m_workers m. rank pc)"

lemma ranks_set: "i < length (m_workers m) \<Longrightarrow> ranks (set_worker i pc m) + rank (m_workers m ! i) = ranks m + rank pc"
  using sum_list_upd [of i "m_workers m" rank pc] by (simp add: ranks_def)

lemma ranks_eq: "m_workers m' = m_workers m \<Longrightarrow> ranks m' = ranks m"
  by (simp add: ranks_def)

lemma worker_rank:
  assumes "m_quit m" "i < length (m_workers m)" "thread_worker i found n m = Some m'"
  shows "ranks m' < ranks m \<and> m_quit m' \<and> m_timer m' = m_timer m \<and> length (m_workers m') = length (m_workers m)"
proof -
  obtain pc m1 where p: "m' = set_worker i pc m1" "m_workers m1 = m_workers m" "m_quit m1" "m_timer m1 = m_timer m" "rank pc < rank (m_workers m ! i)"
    using assms(1,3) by (cases "m_workers m ! i") (auto simp: thread_worker_def split: if_splits)
  have "ranks (set_worker i pc m1) + rank (m_workers m ! i) = ranks m + rank pc"
    using ranks_set [of i m1 pc] assms(2) p(2) ranks_eq [OF p(2)] by simp
  then show ?thesis using p by simp
qed

lemma worker_enabled:
  assumes ok: "thr_ok m" and t: "m_timer m = T_done" and w: "\<exists>pc\<in>set (m_workers m). pc \<noteq> W_done"
  shows "\<exists>i m'. i < length (m_workers m) \<and> thread_worker i True 0 m = Some m'"
proof (cases "m_mutex m")
  case (Worker i)
  then have "i < length (m_workers m)" "holds (m_workers m ! i)" using ok by (auto simp: thr_ok_def)
  then show ?thesis by (intro exI [of _ i]) (auto simp: thread_worker_def holds_def)
next
  case Nobody
  obtain i where "i < length (m_workers m)" "m_workers m ! i \<noteq> W_done" using w by (metis in_set_conv_nth)
  then show ?thesis using Nobody by (intro exI [of _ i]) (cases "m_workers m ! i"; simp add: thread_worker_def)
next
  case Timer
  then show ?thesis using ok t by (simp add: thr_ok_def)
qed

text \<open>What can happen after the timer thread ended, with the number of steps of workers.\<close>

inductive after_end :: "monitor \<Rightarrow> nat \<Rightarrow> monitor \<Rightarrow> bool" for m where
  ae_refl: "after_end m 0 m"
| ae_worker: "after_end m k m1 \<Longrightarrow> i < length (m_workers m1) \<Longrightarrow> thread_worker i found n m1 = Some m2 \<Longrightarrow> after_end m (Suc k) m2"
| ae_sock: "after_end m k m1 \<Longrightarrow> thread_socket r i m1 = Some m2 \<Longrightarrow> after_end m k m2"
| ae_mon: "after_end m k m1 \<Longrightarrow> thread_monitor m1 = Some m2 \<Longrightarrow> after_end m k m2"

lemma others_keep:
  assumes "thr_ok m" "m_quit m"
  shows "thread_socket r i m = Some m' \<Longrightarrow> m_workers m' = m_workers m \<and> m_quit m' \<and> m_timer m' = m_timer m"
    "thread_monitor m = Some m' \<Longrightarrow> m_workers m' = m_workers m \<and> m_quit m' \<and> m_timer m' = m_timer m"
proof -
  have "W_wait \<notin> set (m_workers m)" using assms by (simp add: thr_ok_def)
  then have "i < length (m_workers m) \<Longrightarrow> m_workers m ! i \<noteq> W_wait" for i by (metis nth_mem)
  then have wk: "wakeup b i m = m" for b i by (auto simp: wakeup_def)
  show "thread_socket r i m = Some m' \<Longrightarrow> m_workers m' = m_workers m \<and> m_quit m' \<and> m_timer m' = m_timer m"
    using assms(2) by (cases "m_socket m") (auto simp: thread_socket_def wk split: if_splits)
  show "thread_monitor m = Some m' \<Longrightarrow> m_workers m' = m_workers m \<and> m_quit m' \<and> m_timer m' = m_timer m"
    using assms(2) by (auto simp: thread_monitor_def split: monitor_pc.splits if_splits)
qed

lemma after_end_ok:
  assumes ok: "thr_ok m" "m_timer m = T_done" and a: "after_end m k m'"
  shows "thr_ok m' \<and> m_quit m' \<and> m_timer m' = T_done \<and> ranks m' + k \<le> ranks m"
  using a
proof induction
  case ae_refl
  show ?case using ok by (auto simp: thr_ok_def)
next
  case (ae_worker k m1 i found n m2)
  then show ?case using worker_rank [of m1 i found n m2] thread_worker_ok [of m1 i found n m2] by auto
next
  case (ae_sock k m1 r i m2)
  then show ?case using others_keep(1) [of m1 r i m2] thread_socket_ok [of m1 r i m2] ranks_eq [of m2 m1] by auto
next
  case (ae_mon k m1 m2)
  then show ?case using others_keep(2) [of m1 m2] thread_monitor_ok [of m1 m2] ranks_eq [of m2 m1] by auto
qed

lemma ranks_bound: "ranks m \<le> 5 * length (m_workers m)"
proof -
  have "rank pc \<le> 5" for pc by (cases pc) simp_all
  then have "(\<Sum>pc\<leftarrow>ws. rank pc) \<le> 5 * length ws" for ws by (induction ws) (auto simp: add_mono)
  then show ?thesis by (simp add: ranks_def)
qed


section \<open>Runs\<close>

fun thr_run :: "(nat \<times> bool \<times> nat) option list \<Rightarrow> monitor \<Rightarrow> monitor option" where
  "thr_run [] m = Some m"
| "thr_run (None # qs) m = Option.bind (thread_timer 0 m) (thr_run qs)"
| "thr_run (Some (i, found, n) # qs) m = (if i < length (m_workers m) then Option.bind (thread_worker i found n m) (thr_run qs) else None)"

lemma thr_run_reach: "thr_reach m \<Longrightarrow> thr_run qs m = Some m' \<Longrightarrow> thr_reach m'"
proof (induction qs arbitrary: m)
  case (Cons q qs)
  have "\<exists>m1. thr_step m m1 \<and> thr_run qs m1 = Some m'"
    using Cons.prems(2) timer worker by (cases q) (fastforce simp: bind_eq_Some_conv split: if_splits)+
  then show ?case using Cons.IH stepped [OF Cons.prems(1)] by blast
qed simp

lemmas thr_eval = start_def thread_worker_def thread_timer_def set_worker_def broadcast_def



end
