(* ===== verification/Scheduler.thy ===== *)
theory Scheduler
  imports MessageQueue
begin

text \<open>
  The message queues under concurrency. The state is the heap of queues and, for every
  thread, the queues it holds: a worker holds the queue it took from the global queue until
  it puts it back or parks it, a thread that creates a service holds the new queue until it
  publishes it. One rule of \<open>sched_step\<close> is one critical section of \<open>skynet_mq.c\<close> as called
  from \<open>skynet_context_new\<close>, \<open>skynet_context_message_dispatch\<close>, \<open>skynet_context_push\<close>,
  \<open>delete_context\<close> and \<open>_drop_queue\<close>; any thread may move at any time.

  A message is pushed only while the sender has the receiving context grabbed
  (\<open>skynet_context_push\<close>), and \<open>delete_context\<close> marks the queue when the last reference is
  gone, so the guard of \<open>send\<close> is that the queue is not marked. The same holds for
  \<open>park\<close>: the worker has the context of its queue grabbed.
\<close>

section \<open>States and steps\<close>

record sched =
  sc_heap :: mq_heap
  sc_own :: "nat \<Rightarrow> nat list"

definition sched_init :: sched where
  "sched_init = \<lparr>sc_heap = mq_heap_empty, sc_own = (\<lambda>_. [])\<rparr>"

definition own_add :: "nat \<Rightarrow> nat \<Rightarrow> (nat \<Rightarrow> nat list) \<Rightarrow> (nat \<Rightarrow> nat list)" where
  "own_add t a ow = ow(t := a # ow t)"

definition own_del :: "nat \<Rightarrow> nat \<Rightarrow> (nat \<Rightarrow> nat list) \<Rightarrow> (nat \<Rightarrow> nat list)" where
  "own_del t a ow = ow(t := remove1 a (ow t))"

inductive sched_step :: "sched \<Rightarrow> sched \<Rightarrow> bool" where
  create: "skynet_mq_create handle (sc_heap s) = (a, h') \<Longrightarrow>
     sched_step s \<lparr>sc_heap = h', sc_own = own_add t a (sc_own s)\<rparr>"
| publish: "a \<in> set (sc_own s t) \<Longrightarrow> skynet_globalmq_push (sc_heap s) a = Inr h' \<Longrightarrow>
     sched_step s \<lparr>sc_heap = h', sc_own = own_del t a (sc_own s)\<rparr>"
| take: "skynet_globalmq_pop (sc_heap s) = Inr (Some a, h') \<Longrightarrow>
     sched_step s \<lparr>sc_heap = h', sc_own = own_add t a (sc_own s)\<rparr>"
| send: "mh_queues (sc_heap s) a = Some q \<Longrightarrow> \<not> mq_release q \<Longrightarrow>
     skynet_mq_push a m (sc_heap s) = Inr h' \<Longrightarrow> sched_step s (s\<lparr>sc_heap := h'\<rparr>)"
| dispatch: "a \<in> set (sc_own s t) \<Longrightarrow> mh_queues (sc_heap s) a = Some q \<Longrightarrow>
     skynet_mq_pop q = (0, Some m, q') \<Longrightarrow> sched_step s (s\<lparr>sc_heap := mh_set a q' (sc_heap s)\<rparr>)"
| park: "a \<in> set (sc_own s t) \<Longrightarrow> mh_queues (sc_heap s) a = Some q \<Longrightarrow> \<not> mq_release q \<Longrightarrow>
     skynet_mq_pop q = (1, None, q') \<Longrightarrow>
     sched_step s \<lparr>sc_heap = mh_set a q' (sc_heap s), sc_own = own_del t a (sc_own s)\<rparr>"
| mark: "skynet_mq_mark_release a (sc_heap s) = Inr h' \<Longrightarrow> sched_step s (s\<lparr>sc_heap := h'\<rparr>)"
| drop: "a \<in> set (sc_own s t) \<Longrightarrow> mh_queues (sc_heap s) a = Some q \<Longrightarrow> mq_release q \<Longrightarrow>
     skynet_mq_pop q = (1, None, q') \<Longrightarrow> mq_release_block a (mh_set a q' (sc_heap s)) = Inr h' \<Longrightarrow>
     sched_step s \<lparr>sc_heap = h', sc_own = own_del t a (sc_own s)\<rparr>"

inductive sched_reachable :: "sched \<Rightarrow> bool" where
  start: "sched_reachable sched_init"
| step: "sched_reachable s \<Longrightarrow> sched_step s s' \<Longrightarrow> sched_reachable s'"

section \<open>The invariant\<close>

text \<open>
  \<open>placed\<close>: the queue is in the global queue or held by a thread. The invariant says that
  no queue is in two places, and that a queue is in one exactly when its \<open>in_global\<close> flag
  or its release mark is set; a queue with messages has one of the two set.
\<close>

definition placed :: "nat list \<Rightarrow> (nat \<Rightarrow> nat list) \<Rightarrow> nat \<Rightarrow> bool" where
  "placed xs ow a \<longleftrightarrow> a \<in> set xs \<or> (\<exists>t. a \<in> set (ow t))"

definition own_ok :: "(nat \<Rightarrow> mq option) \<Rightarrow> nat list \<Rightarrow> (nat \<Rightarrow> nat list) \<Rightarrow> bool" where
  "own_ok hp xs ow \<longleftrightarrow> (\<forall>t. distinct (ow t)) \<and>
     (\<forall>t u. t \<noteq> u \<longrightarrow> set (ow t) \<inter> set (ow u) = {}) \<and>
     (\<forall>t. set (ow t) \<inter> set xs = {}) \<and> (\<forall>t. \<forall>a \<in> set (ow t). hp a \<noteq> None)"

definition queue_ok :: "bool \<Rightarrow> mq \<Rightarrow> bool" where
  "queue_ok pl q \<longleftrightarrow> mq_inv q \<and> (pl \<longleftrightarrow> mq_in_global q \<or> mq_release q) \<and>
     (mq_content q \<noteq> [] \<longrightarrow> mq_in_global q \<or> mq_release q)"

definition sched_inv :: "sched \<Rightarrow> bool" where
  "sched_inv s \<longleftrightarrow> (\<exists>xs. gq_inv (sc_heap s) xs \<and> own_ok (mh_queues (sc_heap s)) xs (sc_own s) \<and>
     (\<forall>a q. mh_queues (sc_heap s) a = Some q \<longrightarrow> queue_ok (placed xs (sc_own s) a) q))"

lemma sched_invI:
  assumes "gq_inv (sc_heap s) xs" "own_ok (mh_queues (sc_heap s)) xs (sc_own s)"
    "\<And>a q. mh_queues (sc_heap s) a = Some q \<Longrightarrow> queue_ok (placed xs (sc_own s) a) q"
  shows "sched_inv s"
  using assms by (auto simp: sched_inv_def)

lemma sched_inv_init: "sched_inv sched_init"
  using gq_inv_empty
  by (intro sched_invI [of _ "[]"]) (auto simp: sched_init_def own_ok_def mq_heap_empty_def)

lemma placed_add: "placed xs (own_add t a ow) b \<longleftrightarrow> b = a \<or> placed xs ow b"
  by (auto simp: placed_def own_add_def)

lemma placed_del:
  "own_ok hp xs ow \<Longrightarrow> a \<in> set (ow t) \<Longrightarrow> placed xs (own_del t a ow) b \<longleftrightarrow> b \<noteq> a \<and> placed xs ow b"
  by (auto simp: placed_def own_del_def own_ok_def split: if_splits)

lemma own_ok_del:
  "own_ok hp xs ow \<Longrightarrow> own_ok hp xs (own_del t a ow)"
  by (fastforce simp: own_ok_def own_del_def dest: notin_set_remove1)

lemma own_ok_add:
  "own_ok hp xs ow \<Longrightarrow> hp a \<noteq> None \<Longrightarrow> \<not> placed xs ow a \<Longrightarrow> own_ok hp xs (own_add t a ow)"
  by (auto simp: own_ok_def own_add_def placed_def)

lemma own_ok_live:
  "own_ok hp xs ow \<Longrightarrow> (\<And>a. hp a \<noteq> None \<Longrightarrow> hp' a \<noteq> None) \<Longrightarrow> own_ok hp' xs ow"
  by (fastforce simp: own_ok_def)

lemma own_ok_snoc: "own_ok hp xs ow \<Longrightarrow> (\<And>t. a \<notin> set (ow t)) \<Longrightarrow> own_ok hp (xs @ [a]) ow"
  by (auto simp: own_ok_def)

lemma own_ok_tl: "own_ok hp (a # xs) ow \<Longrightarrow> own_ok hp xs ow"
  by (auto simp: own_ok_def)

lemma own_ok_held:
  assumes "own_ok hp xs ow" "a \<in> set (ow t)"
  shows "a \<notin> set xs" "\<exists>q. hp a = Some q"
  using assms by (auto simp: own_ok_def)

lemma own_ok_one: "own_ok hp xs ow \<Longrightarrow> a \<in> set (ow t) \<Longrightarrow> a \<in> set (ow u) \<Longrightarrow> u = t"
  unfolding own_ok_def by blast

lemma own_ok_queued: "own_ok hp xs ow \<Longrightarrow> a \<in> set xs \<Longrightarrow> a \<notin> set (ow t)"
  using own_ok_held(1) by blast

lemma queue_ok_core:
  assumes "mh_core h' b = mh_core h b" "mh_queues h' b = Some q'"
    "\<And>q. mh_queues h b = Some q \<Longrightarrow> queue_ok P q"
  shows "queue_ok P q'"
  using assms(1,2)
proof (rule mh_core_Some)
  fix q assume "mh_queues h b = Some q" "mq_content q' = mq_content q" "mq_inv q' = mq_inv q"
    "mq_in_global q' = mq_in_global q" "mq_release q' = mq_release q"
  with assms(3) [of q] show ?thesis by (simp add: queue_ok_def)
qed

lemma core_live: "(\<forall>b. mh_core h' b = mh_core h b) \<Longrightarrow> mh_queues h' b \<noteq> None \<longleftrightarrow> mh_queues h b \<noteq> None"
  by (metis mh_core_None)

text \<open>Replacing one queue record, without touching its link.\<close>

lemma sched_inv_set:
  assumes "gq_inv (sc_heap s) xs" "own_ok (mh_queues (sc_heap s)) xs (sc_own s)"
    "\<And>b q. mh_queues (sc_heap s) b = Some q \<Longrightarrow> queue_ok (placed xs (sc_own s) b) q"
    "mh_queues (sc_heap s) a = Some q" "mq_next q' = mq_next q" "queue_ok (placed xs (sc_own s) a) q'"
  shows "sched_inv (s\<lparr>sc_heap := mh_set a q' (sc_heap s)\<rparr>)"
proof (rule sched_invI [of _ xs])
  show "gq_inv (sc_heap (s\<lparr>sc_heap := mh_set a q' (sc_heap s)\<rparr>)) xs"
    using gq_inv_set [OF assms(1,4,5)] by simp
  show "own_ok (mh_queues (sc_heap (s\<lparr>sc_heap := mh_set a q' (sc_heap s)\<rparr>))) xs
      (sc_own (s\<lparr>sc_heap := mh_set a q' (sc_heap s)\<rparr>))"
    using own_ok_live [OF assms(2), of "(mh_queues (sc_heap s))(a := Some q')"] by simp
qed (use assms(3,6) in \<open>auto split: if_splits\<close>)

text \<open>Replacing the record of an unplaced queue and pushing it to the global queue.\<close>

lemma sched_inv_set_push:
  assumes "gq_inv (sc_heap s) xs" "own_ok (mh_queues (sc_heap s)) xs (sc_own s)"
    "\<And>b q. mh_queues (sc_heap s) b = Some q \<Longrightarrow> queue_ok (placed xs (sc_own s) b) q"
    "mh_queues (sc_heap s) a = Some q" "mq_next q' = mq_next q" "\<not> placed xs (sc_own s) a"
    "queue_ok True q'"
  shows "\<exists>h'. skynet_globalmq_push (mh_set a q' (sc_heap s)) a = Inr h' \<and> sched_inv (s\<lparr>sc_heap := h'\<rparr>)"
proof -
  let ?h = "mh_set a q' (sc_heap s)"
  have "gq_inv ?h xs" using gq_inv_set [OF assms(1,4,5)] .
  moreover have na: "a \<notin> set xs" "\<And>t. a \<notin> set (sc_own s t)" using assms(6) by (auto simp: placed_def)
  ultimately obtain h' where h': "skynet_globalmq_push ?h a = Inr h'" "gq_inv h' (xs @ [a])"
    and core: "\<forall>b. mh_core h' b = mh_core ?h b"
    using gq_push [of ?h xs a q'] by auto
  have live: "mh_queues h' b \<noteq> None" if "mh_queues (sc_heap s) b \<noteq> None" for b
    using core_live [OF core, of b] that by auto
  have "sched_inv (s\<lparr>sc_heap := h'\<rparr>)"
  proof (rule sched_invI [of _ "xs @ [a]"])
    show "own_ok (mh_queues (sc_heap (s\<lparr>sc_heap := h'\<rparr>))) (xs @ [a]) (sc_own (s\<lparr>sc_heap := h'\<rparr>))"
      using own_ok_snoc [OF own_ok_live [OF assms(2)] na(2)] live by simp
  next
    fix b q1 assume "mh_queues (sc_heap (s\<lparr>sc_heap := h'\<rparr>)) b = Some q1"
    then have "mh_queues h' b = Some q1" by simp
    with core have "queue_ok (b = a \<or> placed xs (sc_own s) b) q1"
      by (rule_tac queue_ok_core [of h' b ?h]) (use assms(3,7) in \<open>auto split: if_splits\<close>)
    moreover have "placed (xs @ [a]) (sc_own s) b \<longleftrightarrow> b = a \<or> placed xs (sc_own s) b"
      by (auto simp: placed_def)
    ultimately show "queue_ok (placed (xs @ [a]) (sc_own (s\<lparr>sc_heap := h'\<rparr>)) b) q1" by simp
  qed (use h' in simp)
  with h' show ?thesis by blast
qed

section \<open>Every step keeps the invariant and meets its assertions\<close>

lemma sched_invE:
  assumes "sched_inv s"
  obtains xs where "gq_inv (sc_heap s) xs" "own_ok (mh_queues (sc_heap s)) xs (sc_own s)"
    "\<And>a q. mh_queues (sc_heap s) a = Some q \<Longrightarrow> queue_ok (placed xs (sc_own s) a) q"
  using assms unfolding sched_inv_def by blast

lemma own_ok_unplaced_fresh:
  assumes "gq_inv h xs" "own_ok (mh_queues h) xs ow" "mh_queues h a = None"
  shows "\<not> placed xs ow a"
  using assms gq_inv_live by (fastforce simp: placed_def own_ok_def)

lemma create_inv:
  assumes "sched_inv s" "skynet_mq_create handle (sc_heap s) = (a, h')"
  shows "sched_inv \<lparr>sc_heap = h', sc_own = own_add t a (sc_own s)\<rparr>"
proof (rule sched_invE [OF assms(1)])
  fix xs
  assume i: "gq_inv (sc_heap s) xs" "own_ok (mh_queues (sc_heap s)) xs (sc_own s)"
    "\<And>a q. mh_queues (sc_heap s) a = Some q \<Longrightarrow> queue_ok (placed xs (sc_own s) a) q"
  note c = gq_inv_create [OF i(1) assms(2)]
  then have np: "\<not> placed xs (sc_own s) a" using own_ok_unplaced_fresh [OF i(1,2)] by blast
  have "own_ok (mh_queues h') xs (sc_own s)" using own_ok_live [OF i(2), of "mh_queues h'"] c by auto
  then have "own_ok (mh_queues h') xs (own_add t a (sc_own s))"
    using own_ok_add [OF _ _ np] c by simp
  then show ?thesis
    using c i(3) mq_inv_new [of handle] mq_content_new [of handle]
    by (intro sched_invI [of _ xs])
      (auto simp: placed_add queue_ok_def mq_new_def split: if_splits)
qed

lemma publish_inv:
  assumes "sched_inv s" "a \<in> set (sc_own s t)"
  shows "\<exists>h'. skynet_globalmq_push (sc_heap s) a = Inr h' \<and>
           sched_inv \<lparr>sc_heap = h', sc_own = own_del t a (sc_own s)\<rparr>"
proof (rule sched_invE [OF assms(1)])
  fix xs
  assume i: "gq_inv (sc_heap s) xs" "own_ok (mh_queues (sc_heap s)) xs (sc_own s)"
    "\<And>a q. mh_queues (sc_heap s) a = Some q \<Longrightarrow> queue_ok (placed xs (sc_own s) a) q"
  from i(2) assms(2) obtain q where q: "a \<notin> set xs" "mh_queues (sc_heap s) a = Some q"
    using own_ok_held [of _ xs "sc_own s" a t] by blast
  obtain h' where h': "skynet_globalmq_push (sc_heap s) a = Inr h'" "gq_inv h' (xs @ [a])"
    and core: "\<forall>b. mh_core h' b = mh_core (sc_heap s) b"
    using gq_push [OF i(1) q] by auto
  have na: "a \<notin> set (own_del t a (sc_own s) u)" for u
    using placed_del [OF i(2) assms(2), of a] by (auto simp: placed_def)
  have ok: "own_ok (mh_queues h') (xs @ [a]) (own_del t a (sc_own s))"
    using own_ok_snoc [OF own_ok_del [OF own_ok_live [OF i(2)]] na] core_live [OF core] by auto
  have "placed (xs @ [a]) (own_del t a (sc_own s)) b = placed xs (sc_own s) b" for b
    using placed_del [OF i(2) assms(2), of b] assms(2) by (auto simp: placed_def)
  then have "sched_inv \<lparr>sc_heap = h', sc_own = own_del t a (sc_own s)\<rparr>"
    using h' ok core i(3) by (intro sched_invI [of _ "xs @ [a]"]) (auto intro: queue_ok_core)
  with h'(1) show ?thesis by blast
qed

lemma take_inv:
  assumes "sched_inv s"
  shows "\<exists>r h'. skynet_globalmq_pop (sc_heap s) = Inr (r, h') \<and>
           (case r of None \<Rightarrow> h' = sc_heap s
            | Some a \<Rightarrow> sched_inv \<lparr>sc_heap = h', sc_own = own_add t a (sc_own s)\<rparr>)"
proof (rule sched_invE [OF assms(1)])
  fix xs
  assume i: "gq_inv (sc_heap s) xs" "own_ok (mh_queues (sc_heap s)) xs (sc_own s)"
    "\<And>a q. mh_queues (sc_heap s) a = Some q \<Longrightarrow> queue_ok (placed xs (sc_own s) a) q"
  show ?thesis
  proof (cases xs)
    case Nil
    with i(1) show ?thesis by (auto dest: gq_pop_Nil)
  next
    case (Cons a ys)
    obtain h' where h': "skynet_globalmq_pop (sc_heap s) = Inr (Some a, h')" "gq_inv h' ys"
      and core: "\<forall>b. mh_core h' b = mh_core (sc_heap s) b"
      using gq_pop_Cons [of "sc_heap s" a ys] i(1) Cons by auto
    have "a \<notin> set ys" using i(1) Cons by (auto simp: gq_inv_def)
    then have np: "\<not> placed ys (sc_own s) a"
      using own_ok_queued [OF i(2), of a] Cons by (simp add: placed_def)
    have live: "mh_queues h' a \<noteq> None"
      using core_live [OF core, of a] gq_inv_live [OF i(1), of a] Cons by simp
    have "own_ok (mh_queues h') xs (sc_own s)"
      using own_ok_live [OF i(2), of "mh_queues h'"] core_live [OF core] by blast
    then have "own_ok (mh_queues h') ys (sc_own s)" using own_ok_tl Cons by blast
    then have "own_ok (mh_queues h') ys (own_add t a (sc_own s))"
      using live np by (intro own_ok_add)
    moreover have "placed ys (own_add t a (sc_own s)) b = placed xs (sc_own s) b" for b
      using Cons unfolding placed_add by (auto simp: placed_def)
    ultimately have "sched_inv \<lparr>sc_heap = h', sc_own = own_add t a (sc_own s)\<rparr>"
      using h' core i(3) by (intro sched_invI [of _ ys]) (auto intro: queue_ok_core)
    with h'(1) show ?thesis by force
  qed
qed

lemma send_inv:
  assumes "sched_inv s" "mh_queues (sc_heap s) a = Some q" "\<not> mq_release q"
  shows "\<exists>h'. skynet_mq_push a m (sc_heap s) = Inr h' \<and> sched_inv (s\<lparr>sc_heap := h'\<rparr>)"
proof (rule sched_invE [OF assms(1)])
  fix xs
  assume i: "gq_inv (sc_heap s) xs" "own_ok (mh_queues (sc_heap s)) xs (sc_own s)"
    "\<And>a q. mh_queues (sc_heap s) a = Some q \<Longrightarrow> queue_ok (placed xs (sc_own s) a) q"
  note ok = i(3) [OF assms(2)]
  then have "mq_inv (mq_store m q)" by (simp add: queue_ok_def ring.invar_enq)
  then show ?thesis
    using sched_inv_set [OF i assms(2), of "mq_store m q"] ok assms(2,3)
      sched_inv_set_push [OF i assms(2), of "(mq_store m q)\<lparr>mq_in_global := True\<rparr>"]
    by (cases "mq_in_global q") (auto simp: skynet_mq_push_def queue_ok_def)
qed

lemma dispatch_inv:
  assumes "sched_inv s" "mh_queues (sc_heap s) a = Some q" "skynet_mq_pop q = (0, Some m, q')"
  shows "sched_inv (s\<lparr>sc_heap := mh_set a q' (sc_heap s)\<rparr>)"
proof (rule sched_invE [OF assms(1)])
  fix xs
  assume i: "gq_inv (sc_heap s) xs" "own_ok (mh_queues (sc_heap s)) xs (sc_own s)"
    "\<And>a q. mh_queues (sc_heap s) a = Some q \<Longrightarrow> queue_ok (placed xs (sc_own s) a) q"
  note ok = i(3) [OF assms(2)]
  then have inv: "mq_inv q" by (simp add: queue_ok_def)
  from mq_pop_some [OF inv mq_pop_0_content [OF inv assms(3)]] assms(3)
  have "mq_inv q'" "mq_in_global q' = mq_in_global q" "mq_release q' = mq_release q"
    "mq_next q' = mq_next q" by auto
  then show ?thesis
    using sched_inv_set [OF i assms(2), of q'] ok mq_pop_0_content [OF inv assms(3)]
    by (auto simp: queue_ok_def)
qed

lemma mark_inv:
  assumes "sched_inv s" "mh_queues (sc_heap s) a = Some q" "\<not> mq_release q"
  shows "\<exists>h'. skynet_mq_mark_release a (sc_heap s) = Inr h' \<and> sched_inv (s\<lparr>sc_heap := h'\<rparr>)"
proof (rule sched_invE [OF assms(1)])
  fix xs
  assume i: "gq_inv (sc_heap s) xs" "own_ok (mh_queues (sc_heap s)) xs (sc_own s)"
    "\<And>a q. mh_queues (sc_heap s) a = Some q \<Longrightarrow> queue_ok (placed xs (sc_own s) a) q"
  show ?thesis
    using sched_inv_set [OF i assms(2), of "q\<lparr>mq_release := True\<rparr>"] i(3) [OF assms(2)] assms(2,3)
      sched_inv_set_push [OF i assms(2), of "q\<lparr>mq_release := True\<rparr>"]
    by (cases "mq_in_global q") (auto simp: skynet_mq_mark_release_def queue_ok_def)
qed

lemma park_inv:
  assumes "sched_inv s" "a \<in> set (sc_own s t)" "mh_queues (sc_heap s) a = Some q" "\<not> mq_release q"
    "skynet_mq_pop q = (1, None, q')"
  shows "sched_inv \<lparr>sc_heap = mh_set a q' (sc_heap s), sc_own = own_del t a (sc_own s)\<rparr>"
proof (rule sched_invE [OF assms(1)])
  fix xs
  assume i: "gq_inv (sc_heap s) xs" "own_ok (mh_queues (sc_heap s)) xs (sc_own s)"
    "\<And>a q. mh_queues (sc_heap s) a = Some q \<Longrightarrow> queue_ok (placed xs (sc_own s) a) q"
  have inv: "mq_inv q" using i(3) [OF assms(3)] by (simp add: queue_ok_def)
  note q' = mq_pop_1_content [OF inv assms(5)]
  have "queue_ok False q'"
    using q' assms(4) mq_inv_parked [OF inv] by (simp add: queue_ok_def)
  moreover have "own_ok ((mh_queues (sc_heap s))(a := Some q')) xs (own_del t a (sc_own s))"
    using own_ok_live [OF own_ok_del [OF i(2)], of "(mh_queues (sc_heap s))(a := Some q')" t a] by simp
  moreover have "gq_inv (mh_set a q' (sc_heap s)) xs"
    using gq_inv_set [OF i(1) assms(3), of q'] q' by simp
  ultimately show ?thesis
    using i(3) placed_del [OF i(2) assms(2)]
    by (intro sched_invI [of _ xs]) (auto split: if_splits)
qed

lemma drop_inv:
  assumes "sched_inv s" "a \<in> set (sc_own s t)" "mh_queues (sc_heap s) a = Some q"
    "skynet_mq_pop q = (1, None, q')"
  shows "mq_release_block a (mh_set a q' (sc_heap s)) = Inr (mh_free a (mh_set a q' (sc_heap s))) \<and>
         sched_inv \<lparr>sc_heap = mh_free a (mh_set a q' (sc_heap s)), sc_own = own_del t a (sc_own s)\<rparr>"
proof (rule sched_invE [OF assms(1)])
  fix xs
  assume i: "gq_inv (sc_heap s) xs" "own_ok (mh_queues (sc_heap s)) xs (sc_own s)"
    "\<And>a q. mh_queues (sc_heap s) a = Some q \<Longrightarrow> queue_ok (placed xs (sc_own s) a) q"
  let ?h = "mh_free a (mh_set a q' (sc_heap s))"
  have na: "a \<notin> set xs" using own_ok_held [OF i(2) assms(2)] by blast
  have inv: "mq_inv q" using i(3) [OF assms(3)] by (simp add: queue_ok_def)
  then have nxt: "mq_next q' = None"
    using mq_pop_1_content [OF inv assms(4)] i(1) assms(3) na by (auto simp: gq_inv_def)
  have "a \<notin> set (own_del t a (sc_own s) u)" for u
    using placed_del [OF i(2) assms(2), of a] by (auto simp: placed_def)
  then have "own_ok (mh_queues ?h) xs (own_del t a (sc_own s))"
    using own_ok_del [OF i(2), of t a] by (fastforce simp: own_ok_def)
  moreover have "gq_inv ?h xs"
    using gq_inv_free [OF i(1) na] by (simp add: mh_free_def mh_set_def)
  ultimately have "sched_inv \<lparr>sc_heap = ?h, sc_own = own_del t a (sc_own s)\<rparr>"
    using i(3) placed_del [OF i(2) assms(2)]
    by (intro sched_invI [of _ xs]) (auto split: if_splits)
  with nxt show ?thesis by (simp add: mq_release_block_def)
qed

lemma sched_step_inv:
  assumes "sched_step s s'" "sched_inv s"
  shows "sched_inv s'"
  using assms
proof (cases rule: sched_step.cases)
  case (create handle a h' t)
  with create_inv [OF assms(2)] show ?thesis by blast
next
  case (publish a t h')
  with publish_inv [OF assms(2) publish(2)] show ?thesis by auto
next
  case (take a h' t)
  with take_inv [OF assms(2), of t] show ?thesis by auto
next
  case (send a q m h')
  with send_inv [OF assms(2) send(2,3), of m] show ?thesis by force
next
  case (dispatch a t q m q')
  with dispatch_inv [OF assms(2) dispatch(3,4)] show ?thesis by blast
next
  case (park a t q q')
  with park_inv [OF assms(2) park(2-5)] show ?thesis by blast
next
  case (mark a h')
  then obtain q where "mh_queues (sc_heap s) a = Some q" "\<not> mq_release q"
    by (auto simp: skynet_mq_mark_release_def res_splits)
  with mark_inv [OF assms(2) this] mark show ?thesis by force
next
  case (drop a t q q' h')
  with drop_inv [OF assms(2) drop(2,3,5)] show ?thesis by auto
qed

lemma sched_reachable_inv: "sched_reachable s \<Longrightarrow> sched_inv s"
  by (induction rule: sched_reachable.induct) (auto simp: sched_inv_init sched_step_inv)

section \<open>Properties of the scheduler\<close>

lemma linked_unique: "linked hp p xs \<Longrightarrow> linked hp p ys \<Longrightarrow> xs = ys"
proof (induction xs arbitrary: p ys)
  case Nil
  then show ?case by (cases ys) auto
next
  case (Cons x xs)
  then show ?case by (cases ys) auto
qed

text \<open>
  C1: a message queue is never in the hands of two threads, and never in the global queue
  while a thread holds it. Since a service runs only on the thread that holds its queue, no
  service is executed by two workers at once, whatever the interleaving.
\<close>

theorem service_runs_on_one_thread:
  assumes "sched_reachable s" "a \<in> set (sc_own s t)"
  shows "(\<forall>u. a \<in> set (sc_own s u) \<longrightarrow> u = t) \<and> count_list (sc_own s t) a = 1 \<and>
         (\<forall>xs. linked (mh_queues (sc_heap s)) (gq_head (sc_heap s)) xs \<longrightarrow> a \<notin> set xs)"
proof (rule sched_invE [OF sched_reachable_inv [OF assms(1)]])
  fix xs
  assume i: "gq_inv (sc_heap s) xs" "own_ok (mh_queues (sc_heap s)) xs (sc_own s)"
  then have "a \<notin> set ys" if "linked (mh_queues (sc_heap s)) (gq_head (sc_heap s)) ys" for ys
    using linked_unique [OF that] own_ok_held(1) [OF i(2) assms(2)] by (auto simp: gq_inv_def)
  moreover have "count_list (sc_own s t) a = 1"
    using i(2) assms(2) by (intro count_list_distinct) (auto simp: own_ok_def)
  ultimately show ?thesis using own_ok_one [OF i(2) assms(2)] by blast
qed

text \<open>
  C2: no wake-up is lost. A live queue that holds a message is in the global queue or held by
  a thread, so some worker will come to it.
\<close>

theorem pending_queue_is_scheduled:
  assumes "sched_reachable s" "mh_queues (sc_heap s) a = Some q" "mq_content q \<noteq> []"
  shows "(\<exists>t. a \<in> set (sc_own s t)) \<or>
         (\<exists>xs. linked (mh_queues (sc_heap s)) (gq_head (sc_heap s)) xs \<and> a \<in> set xs)"
proof (rule sched_invE [OF sched_reachable_inv [OF assms(1)]])
  fix xs
  assume "gq_inv (sc_heap s) xs"
    "\<And>a q. mh_queues (sc_heap s) a = Some q \<Longrightarrow> queue_ok (placed xs (sc_own s) a) q"
  with assms(2,3) show ?thesis by (fastforce simp: queue_ok_def placed_def gq_inv_def)
qed


text \<open>A run of two steps, for the witnesses: thread 0 creates a service and a message is sent to it.\<close>

definition demo_sched :: sched where
  "demo_sched = \<lparr>sc_heap = snd (skynet_mq_create 1 mq_heap_empty), sc_own = own_add 0 0 (\<lambda>_. [])\<rparr>"

definition demo_sched2 :: sched where
  "demo_sched2 = \<lparr>sc_heap = mh_set 0 (mq_store demo_message (mq_new 1)) (sc_heap demo_sched),
                  sc_own = own_add 0 0 (\<lambda>_. [])\<rparr>"

lemma demo_reachable: "sched_reachable demo_sched"
proof (rule sched_reachable.step [OF sched_reachable.start])
  show "sched_step sched_init demo_sched"
    using sched_step.create [of 1 sched_init 0 "snd (skynet_mq_create 1 mq_heap_empty)" 0]
    by (simp add: demo_sched_def sched_init_def skynet_mq_create_def mq_heap_empty_def Let_def)
qed

lemma demo_heap: "mh_queues (sc_heap demo_sched) 0 = Some (mq_new 1)"
  by (simp add: demo_sched_def skynet_mq_create_def mq_heap_empty_def Let_def)

lemma demo2_reachable: "sched_reachable demo_sched2"
proof (rule sched_reachable.step [OF demo_reachable])
  have "skynet_mq_push 0 demo_message (sc_heap demo_sched) = Inr (sc_heap demo_sched2)"
    by (simp add: skynet_mq_push_def demo_heap demo_sched2_def Let_def) (simp add: mq_new_def)
  then show "sched_step demo_sched demo_sched2"
    using sched_step.send [of demo_sched 0 "mq_new 1" demo_message "sc_heap demo_sched2"] demo_heap
    by (simp add: demo_sched2_def demo_sched_def) (simp add: mq_new_def)
qed

theorem service_runs_on_one_thread_witness:
  "sched_reachable demo_sched \<and> 0 \<in> set (sc_own demo_sched 0) \<and>
   count_list (sc_own demo_sched 0) 0 = 1"
proof -
  have own: "0 \<in> set (sc_own demo_sched 0)" by (simp add: demo_sched_def own_add_def)
  from service_runs_on_one_thread [OF demo_reachable own] demo_reachable own show ?thesis by simp
qed

theorem pending_queue_is_scheduled_witness:
  "mq_content (mq_store demo_message (mq_new 1)) \<noteq> [] \<and>
   ((\<exists>t. 0 \<in> set (sc_own demo_sched2 t)) \<or>
    (\<exists>xs. linked (mh_queues (sc_heap demo_sched2)) (gq_head (sc_heap demo_sched2)) xs \<and> 0 \<in> set xs))"
proof -
  have q: "mh_queues (sc_heap demo_sched2) 0 = Some (mq_store demo_message (mq_new 1))"
    by (simp add: demo_sched2_def)
  have ne: "mq_content (mq_store demo_message (mq_new 1)) \<noteq> []"
    using mq_store_content_inv [OF mq_inv_new] by simp
  from pending_queue_is_scheduled [OF demo2_reachable q ne] ne show ?thesis by simp
qed


end
