(* ===== verification/GateProps.thy ===== *)
theory GateProps
  imports Gate
begin

text \<open>
  Properties of the gate: its stream is cut into packages independently of how it arrives,
  every message is handled without a fault, and the table, the connections and the pool of
  buffer nodes stay consistent.
\<close>

section \<open>Access to the state\<close>

lemma emit_sel [simp]:
  "g_listen_id (emit cs g) = g_listen_id g" "g_watchdog (emit cs g) = g_watchdog g" "g_broker (emit cs g) = g_broker g"
  "g_client_tag (emit cs g) = g_client_tag g" "g_header_size (emit cs g) = g_header_size g"
  "g_max_connection (emit cs g) = g_max_connection g" "g_hash (emit cs g) = g_hash g" "g_conn (emit cs g) = g_conn g"
  "g_mp (emit cs g) = g_mp g" "g_calls (emit cs g) = g_calls g @ cs" "emit cs (emit ds g) = emit (ds @ cs) g"
  "emit [] g = g"
  by (simp_all add: emit_def)

lemma put_buffer_sel [simp]:
  "g_listen_id (put_buffer x st g) = g_listen_id g" "g_watchdog (put_buffer x st g) = g_watchdog g"
  "g_broker (put_buffer x st g) = g_broker g" "g_client_tag (put_buffer x st g) = g_client_tag g"
  "g_header_size (put_buffer x st g) = g_header_size g" "g_hash (put_buffer x st g) = g_hash g"
  "g_mp (put_buffer x st g) = snd st" "g_calls (put_buffer x st g) = g_calls g"
  "g_conn (put_buffer x st g) = (g_conn g)[x := (g_conn g ! x)\<lparr>c_buffer := fst st\<rparr>]"
  by (simp_all add: put_buffer_def upd_conn_def)

lemma get_put_buffer [simp]: "x < length (g_conn g) \<Longrightarrow> get_buffer x (put_buffer x st g) = st"
  by (simp add: get_buffer_def)

lemma get_emit [simp]: "get_buffer x (emit cs g) = get_buffer x g"
  by (simp add: get_buffer_def)

lemma put_put_buffer [simp]: "x < length (g_conn g) \<Longrightarrow> put_buffer x st (put_buffer x st' g) = put_buffer x st g"
  by (simp add: put_buffer_def upd_conn_def)

lemma put_emit [simp]: "put_buffer x st (emit cs g) = emit cs (put_buffer x st g)"
  by (simp add: put_buffer_def upd_conn_def emit_def)

lemma reset_put:
  "x < length (g_conn g) \<Longrightarrow> upd_conn x (\<lambda>c. c\<lparr>c_buffer := databuffer_reset (c_buffer c)\<rparr>) (emit cs (put_buffer x (db, mp) g)) =
     emit cs (put_buffer x (databuffer_reset db, mp) g)"
  by (simp add: put_buffer_def upd_conn_def emit_def)

section \<open>Cutting a stream into packages\<close>

text \<open>
  The reference: what the loop does on the unread bytes \<open>c\<close>, \<open>h\<close> being the length field
  already read. The result holds the packages, and the length field and bytes that remain, or
  \<open>None\<close> for a package of 16 MB or more. Without anybody to forward to, \<open>tgt\<close> false, the gate
  reads length fields only.
\<close>

function parse_packages :: "nat \<Rightarrow> bool \<Rightarrow> int \<Rightarrow> bytes \<Rightarrow> bytes list \<times> (int \<times> bytes) option" where
  "parse_packages hs tgt h c =
     (if hs = 0 \<or> h = 0 \<and> length c < hs then ([], Some (h, c))
      else
        let h' = (if h = 0 then header_value (take hs c) else h);
            c' = (if h = 0 then drop hs c else c)
        in if h' < 0 \<or> int (length c') < h' then ([], Some (h', c'))
           else if h' = 0 then parse_packages hs tgt 0 c'
           else if h' \<ge> 0x1000000 then ([], None)
           else if tgt then
             (case parse_packages hs tgt 0 (drop (nat h') c') of (ps, r) \<Rightarrow> (take (nat h') c' # ps, r))
           else parse_packages hs tgt 0 c')"
  by pat_completeness auto
termination
  by (relation "measure (\<lambda>(hs, tgt, h, c). 2 * length c + (if h = 0 then 0 else 1))") (auto split: if_splits)

declare parse_packages.simps [simp del]

definition has_target :: "gate \<Rightarrow> nat \<Rightarrow> bool" where
  "has_target g x \<longleftrightarrow> g_broker g \<noteq> 0 \<or> c_agent (g_conn g ! x) \<noteq> 0 \<or> g_watchdog g \<noteq> 0"

text \<open>The message a package becomes.\<close>

definition package_call :: "gate \<Rightarrow> nat \<Rightarrow> bytes \<Rightarrow> gate_call" where
  "package_call g x p =
     (let c = g_conn g ! x in
      if g_broker g \<noteq> 0 then Call_send 0 (g_broker g) (g_client_tag g OR PTYPE_TAG_DONTCOPY) 1 p
      else if c_agent c \<noteq> 0 then Call_send (c_client c) (c_agent c) (g_client_tag g OR PTYPE_TAG_DONTCOPY) 1 p
      else Call_send 0 (g_watchdog g) (PTYPE_TEXT OR PTYPE_TAG_DONTCOPY) 1
             (string_bytes (fmt_d (c_id c) @ '' data '') @ p))"

lemma target_put [simp]:
  "has_target (emit cs g) x = has_target g x" "package_call (emit cs g) x = package_call g x"
  "x < length (g_conn g) \<Longrightarrow> has_target (put_buffer x st g) x = has_target g x"
  "x < length (g_conn g) \<Longrightarrow> package_call (put_buffer x st g) x = package_call g x"
  by (simp_all add: has_target_def package_call_def fun_eq_iff Let_def)

lemma forward_spec:
  assumes "x < length (g_conn g)" "get_buffer x g = (db, mp)" "db_inv db" "0 < n" "n \<le> length (db_content db)"
  shows "\<exists>db' mp'. forward g x n =
           Inr (if has_target g x then emit [package_call g x (take n (db_content db))] (put_buffer x (db', mp') g) else g) \<and>
           db_inv db' \<and> db_content db' = drop n (db_content db) \<and> pool_nodes (db', mp') = pool_nodes (db, mp) \<and>
           mp_pool mp' = mp_pool mp"
proof -
  obtain db' mp' where r: "databuffer_read n (db, mp) = Inr (take n (db_content db), db', mp')" "db_inv db'"
    "db_content db' = drop n (db_content db)" "pool_nodes (db', mp') = pool_nodes (db, mp)" "mp_pool mp' = mp_pool mp"
    using databuffer_read_spec [OF assms(3-5)] by blast
  then show ?thesis using assms(2)
    by (intro exI [of _ db'] exI [of _ mp']) (simp add: forward_def has_target_def package_call_def Let_def res_simps)
qed

lemma put_get_buffer [simp]: "put_buffer x (get_buffer x g) g = g"
  by (simp add: put_buffer_def get_buffer_def upd_conn_def)

text \<open>What the loop must have done when the reference answers \<open>pr\<close>.\<close>

definition cut_ok :: "gate \<Rightarrow> nat \<Rightarrow> int \<Rightarrow> bytes list \<times> (int \<times> bytes) option \<Rightarrow> gate run \<Rightarrow> bool" where
  "cut_ok g x sid pr out \<longleftrightarrow>
     (\<exists>db mp. out = Some (Inr (emit (map (package_call g x) (fst pr) @
          (if snd pr = None then [Call_close sid, Call_error ''Recv socket message > 16M''] else []))
          (put_buffer x (db, mp) g))) \<and>
        db_inv db \<and> pool_nodes (db, mp) = pool_nodes (get_buffer x g) \<and> mp_pool mp = mp_pool (g_mp g) \<and>
        (case snd pr of None \<Rightarrow> db = databuffer_zero | Some (h, c) \<Rightarrow> db_header db = h \<and> db_content db = c))"

lemma cut_ok_cons:
  assumes "cut_ok (emit (map (package_call g x) ps) (put_buffer x st g)) x sid (qs, r) out" "x < length (g_conn g)"
    "pool_nodes st = pool_nodes (get_buffer x g)" "mp_pool (snd st) = mp_pool (g_mp g)"
  shows "cut_ok g x sid (ps @ qs, r) out"
  using assms unfolding cut_ok_def by auto

lemma parse_read:
  assumes "\<not> (hs = 0 \<or> h = 0 \<and> length c < hs)"
    "h' = (if h = 0 then header_value (take hs c) else h)" "c' = (if h = 0 then drop hs c else c)"
  shows "parse_packages hs tgt h c =
     (if h' < 0 \<or> int (length c') < h' then ([], Some (h', c'))
      else if h' = 0 then parse_packages hs tgt 0 c'
      else if h' \<ge> 0x1000000 then ([], None)
      else if tgt then (case parse_packages hs tgt 0 (drop (nat h') c') of (ps, r) \<Rightarrow> (take (nat h') c' # ps, r))
      else parse_packages hs tgt 0 c')"
  using assms by (subst parse_packages.simps) (simp add: Let_def)

lemma package_loop_spec:
  assumes "x < length (g_conn g)" "get_buffer x g = (db, mp)" "db_inv db" "0 < g_header_size g"
  shows "cut_ok g x sid (parse_packages (g_header_size g) (has_target g x) (db_header db) (db_content db))
           (package_loop x sid g)"
  using assms
proof (induction "g_header_size g" "has_target g x" "db_header db" "db_content db" arbitrary: g db mp
    rule: parse_packages.induct)
  case 1
  note x = 1(4) and buf = 1(5) and inv = 1(6) and hs = 1(7)
  let ?hs = "g_header_size g" and ?h = "db_header db" and ?c = "db_content db"
  define h' where "h' = (if ?h = 0 then header_value (take ?hs ?c) else ?h)"
  define c' where "c' = (if ?h = 0 then drop ?hs ?c else ?c)"
  obtain r db' mp' where rd: "databuffer_readheader ?hs (db, mp) = Inr (r, db', mp')" "db_inv db'"
    "pool_nodes (db', mp') = pool_nodes (db, mp)" "mp_pool mp' = mp_pool mp"
    and cond: "if ?h = 0 \<and> length ?c < ?hs then r = -1 \<and> db_header db' = 0 \<and> db_content db' = ?c
       else r = (if int (length c') < h' then -1 else h') \<and> db_header db' = h' \<and> db_content db' = c'"
    using databuffer_readheader_spec [OF inv hs, of mp] unfolding Let_def h'_def c'_def by blast
  let ?g = "put_buffer x (db', mp') g"
  have mp: "g_mp g = mp" using buf by (simp add: get_buffer_def)
  show ?case
  proof (cases "?h = 0 \<and> length ?c < ?hs")
    case True
    then show ?thesis using rd cond buf mp x hs
      by (simp add: package_loop.simps parse_packages.simps cut_ok_def Let_def) (intro exI [of _ db'] exI [of _ mp'], simp)
  next
    case False
    have r: "r = (if int (length c') < h' then -1 else h')" and db': "db_header db' = h'" "db_content db' = c'"
      using cond False by auto
    note pr = parse_read [of ?hs ?h ?c h' c', OF _ h'_def c'_def, of "has_target g x"]
    have ok: "\<not> (?hs = 0 \<or> ?h = 0 \<and> length ?c < ?hs)" using False hs by simp
    have getg: "get_buffer x ?g = (db', mp')" using x by simp
    have pool: "pool_nodes (db', mp') = pool_nodes (get_buffer x g)" "mp_pool (snd (db', mp')) = mp_pool (g_mp g)"
      using rd(3,4) buf mp by simp_all
    have stop: "package_loop x sid g = Some (Inr ?g)" if "r < 0" using rd(1) buf that by (simp add: package_loop.simps)
    consider "h' < 0 \<or> int (length c') < h'" | "h' = 0" | "0 < h'" "h' \<le> int (length c')" "h' \<ge> 0x1000000"
      | "0 < h'" "h' \<le> int (length c')" "h' < 0x1000000" by linarith
    then show ?thesis
    proof cases
      case 1
      then have "r < 0" using r by auto
      with 1 show ?thesis using stop pr [OF ok] rd pool db' unfolding cut_ok_def by auto
    next
      case 2
      have step: "package_loop x sid g = package_loop x sid ?g"
        using rd(1) buf r 2 by (simp add: package_loop.simps [of x sid g])
      have "cut_ok ?g x sid (parse_packages (g_header_size ?g) (has_target ?g x) (db_header db') (db_content db'))
          (package_loop x sid ?g)"
        using 2 db' x hs rd(2) getg by (intro "1.hyps"(1) [OF ok h'_def _ _ 2]) (simp_all add: c'_def)
      then show ?thesis using cut_ok_cons [of g x "[]" "(db', mp')"] pr [OF ok] 2 db' x step pool
        by (cases "parse_packages ?hs (has_target g x) 0 c'") simp
    next
      case 3
      obtain mp'' where cl: "databuffer_clear (db', mp') = (databuffer_zero, mp'')"
        "pool_nodes (databuffer_zero, mp'') = pool_nodes (db', mp')" "mp_pool mp'' = mp_pool mp'"
        using databuffer_clear_spec by blast
      have "package_loop x sid g = Some (Inr (emit [Call_close sid, Call_error ''Recv socket message > 16M'']
          (put_buffer x (databuffer_zero, mp'') g)))"
        using rd(1) buf r 3 x cl(1) by (simp add: package_loop.simps [of x sid g] Let_def)
      then show ?thesis using pr [OF ok] 3 cl pool unfolding cut_ok_def by auto
    next
      case 4
      have n: "0 < nat h'" "nat h' \<le> length (db_content db')" using 4 db' by simp_all
      obtain db2 mp2 where f: "forward ?g x (nat h') =
          Inr (if has_target g x then emit [package_call g x (take (nat h') c')] (put_buffer x (db2, mp2) g) else ?g)"
        "db_inv db2" "db_content db2 = drop (nat h') c'" "pool_nodes (db2, mp2) = pool_nodes (db', mp')" "mp_pool mp2 = mp_pool mp'"
        using forward_spec [of x ?g db' mp', OF _ getg rd(2) n] x db' by (auto cong: if_cong)
      have step: "package_loop x sid g = package_loop x sid
          (upd_conn x (\<lambda>c. c\<lparr>c_buffer := databuffer_reset (c_buffer c)\<rparr>)
            (if has_target g x then emit [package_call g x (take (nat h') c')] (put_buffer x (db2, mp2) g) else ?g))"
        using rd(1) buf r 4 f(1) by (simp add: package_loop.simps [of x sid g] Let_def)
      show ?thesis
      proof (cases "has_target g x")
        case True
        let ?ps = "[take (nat h') c']" and ?st = "(databuffer_reset db2, mp2)"
        let ?g2 = "emit (map (package_call g x) ?ps) (put_buffer x ?st g)"
        have db2: "db_header (databuffer_reset db2) = 0" "db_content (databuffer_reset db2) = drop (nat h') c'"
          "db_inv (databuffer_reset db2)" using f(2,3) by (simp_all add: databuffer_reset_def)
        have "cut_ok ?g2 x sid (parse_packages (g_header_size ?g2) (has_target ?g2 x) (db_header (databuffer_reset db2))
            (db_content (databuffer_reset db2))) (package_loop x sid ?g2)"
          using 4 db2 x hs True by (intro "1.hyps"(2) [OF ok h'_def c'_def, where mp = mp2]) auto
        moreover have "package_loop x sid g = package_loop x sid ?g2" using step True x by (simp add: reset_put)
        moreover have "pool_nodes ?st = pool_nodes (get_buffer x g)" "mp_pool (snd ?st) = mp_pool (g_mp g)"
          using f(4,5) pool by (simp_all add: pool_nodes_def databuffer_reset_def)
        ultimately show ?thesis using cut_ok_cons [of g x ?ps ?st] pr [OF ok] 4 db2 x True
          by (cases "parse_packages ?hs (has_target g x) 0 (drop (nat h') c')") simp
      next
        case False
        let ?st = "(databuffer_reset db', mp')"
        let ?g2 = "put_buffer x ?st g"
        have db2: "db_header (databuffer_reset db') = 0" "db_content (databuffer_reset db') = c'"
          "db_inv (databuffer_reset db')" using rd(2) db' by (simp_all add: databuffer_reset_def)
        have "cut_ok ?g2 x sid (parse_packages (g_header_size ?g2) (has_target ?g2 x) (db_header (databuffer_reset db'))
            (db_content (databuffer_reset db'))) (package_loop x sid ?g2)"
          using 4 db2 x hs False by (intro "1.hyps"(3) [OF ok h'_def, where mp = mp']) (auto simp: c'_def)
        moreover have "package_loop x sid g = package_loop x sid ?g2"
          using step False x reset_put [of x g "[]" db' mp'] by simp
        moreover have "pool_nodes ?st = pool_nodes (get_buffer x g)" "mp_pool (snd ?st) = mp_pool (g_mp g)"
          using pool by (simp_all add: pool_nodes_def databuffer_reset_def)
        ultimately show ?thesis using cut_ok_cons [of g x "[]" ?st] pr [OF ok] 4 db2 x False
          by (cases "parse_packages ?hs (has_target g x) 0 c'") simp
      qed
    qed
  qed
qed

section \<open>Fragmentation\<close>

text \<open>Cutting a stream that arrives in two parts is cutting the first and going on with the second.\<close>

lemma parse_append:
  assumes "parse_packages hs tgt h c = (ps, Some (h1, c1))" "0 < hs"
  shows "parse_packages hs tgt h (c @ d) = (case parse_packages hs tgt h1 (c1 @ d) of (qs, r) \<Rightarrow> (ps @ qs, r))"
  using assms
proof (induction hs tgt h c arbitrary: ps rule: parse_packages.induct)
  case (1 hs tgt h c)
  show ?case
  proof (cases "h = 0 \<and> length c < hs")
    case True
    then show ?thesis using "1.prems" by (auto simp: parse_packages.simps [of hs tgt 0 c])
  next
    case False
    define h' where "h' = (if h = 0 then header_value (take hs c) else h)"
    define c' where "c' = (if h = 0 then drop hs c else c)"
    have ok: "\<not> (hs = 0 \<or> h = 0 \<and> length c < hs)" "\<not> (hs = 0 \<or> h = 0 \<and> length (c @ d) < hs)"
      using False "1.prems"(2) by auto
    have "h' = (if h = 0 then header_value (take hs (c @ d)) else h)" "c' @ d = (if h = 0 then drop hs (c @ d) else c @ d)"
      using ok by (auto simp: h'_def c'_def)
    note e2 = parse_read [OF ok(2) this, of tgt] and e1 = parse_read [OF ok(1) h'_def c'_def, of tgt]
    consider "h' < 0 \<or> int (length c') < h'" | "h' = 0" | "0 < h'" "h' \<le> int (length c')" "h' \<ge> 0x1000000"
      | "0 < h'" "h' \<le> int (length c')" "h' < 0x1000000" by linarith
    then show ?thesis
    proof cases
      case 1
      then have "h' \<noteq> 0" by auto
      then have "parse_packages hs tgt h' (c' @ d) = parse_packages hs tgt h (c @ d)"
        using parse_read [of hs h' "c' @ d" h' "c' @ d" tgt] "1.prems"(2) unfolding e2 by simp
      with 1 "1.prems"(1) e1 show ?thesis by (auto split: prod.splits)
    next
      case 2
      with "1.IH"(1) [OF ok(1) h'_def c'_def] "1.prems" e1 e2 show ?thesis by simp
    next
      case 3
      with "1.prems" e1 show ?thesis by simp
    next
      case 4
      show ?thesis
      proof (cases tgt)
        case True
        obtain qs where qs: "parse_packages hs tgt 0 (drop (nat h') c') = (qs, Some (h1, c1))" "ps = take (nat h') c' # qs"
          using 4 True "1.prems"(1) e1 by (auto split: prod.splits)
        have "parse_packages hs tgt 0 (drop (nat h') c' @ d) = (case parse_packages hs tgt h1 (c1 @ d) of (q, r) \<Rightarrow> (qs @ q, r))"
          using 4 True "1.prems"(2) qs by (intro "1.IH"(2) [OF ok(1) h'_def c'_def]) auto
        then show ?thesis using 4 True e2 qs(2) by (auto split: prod.splits)
      next
        case False
        with 4 "1.IH"(3) [OF ok(1) h'_def c'_def] "1.prems" e1 e2 show ?thesis by simp
      qed
    qed
  qed
qed

lemma parse_append_None:
  assumes "parse_packages hs tgt h c = (ps, None)" "0 < hs"
  shows "parse_packages hs tgt h (c @ d) = (ps, None)"
  using assms
proof (induction hs tgt h c arbitrary: ps rule: parse_packages.induct)
  case (1 hs tgt h c)
  have ok: "\<not> (hs = 0 \<or> h = 0 \<and> length c < hs)"
    using "1.prems" by (auto simp: parse_packages.simps [of hs tgt 0 c])
  then have ok': "\<not> (hs = 0 \<or> h = 0 \<and> length (c @ d) < hs)" by auto
  define h' where "h' = (if h = 0 then header_value (take hs c) else h)"
  define c' where "c' = (if h = 0 then drop hs c else c)"
  have "h' = (if h = 0 then header_value (take hs (c @ d)) else h)" "c' @ d = (if h = 0 then drop hs (c @ d) else c @ d)"
    using ok by (auto simp: h'_def c'_def)
  note e2 = parse_read [OF ok' this, of tgt] and e1 = parse_read [OF ok h'_def c'_def, of tgt]
  note IH = "1.IH" [OF ok h'_def c'_def]
  consider "h' = 0" | "0 < h'" "h' \<le> int (length c')" "h' \<ge> 0x1000000"
    | "0 < h'" "h' \<le> int (length c')" "h' < 0x1000000" "tgt" | "0 < h'" "h' \<le> int (length c')" "h' < 0x1000000" "\<not> tgt"
    using "1.prems"(1) e1 by (cases "h' < 0 \<or> int (length c') < h'") (auto, linarith)
  then show ?case
  proof cases
    case 3
    obtain qs where qs: "parse_packages hs tgt 0 (drop (nat h') c') = (qs, None)" "ps = take (nat h') c' # qs"
      using 3 "1.prems"(1) e1 by (auto split: prod.splits)
    have "parse_packages hs tgt 0 (drop (nat h') c' @ d) = (qs, None)" using 3 qs "1.prems"(2) by (intro IH(2)) auto
    then show ?thesis using 3 e2 qs(2) by simp
  next
    case 4
    then have "parse_packages hs tgt 0 c' = (ps, None)" using "1.prems"(1) e1 by simp
    then have "parse_packages hs tgt 0 (c' @ d) = (ps, None)" using 4 "1.prems"(2) by (intro IH(3)) auto
    then show ?thesis using 4 e2 by simp
  qed (use "1.prems" e1 e2 IH in simp_all)
qed

lemma parse_stable:
  assumes "parse_packages hs tgt h c = (ps, Some (h1, c1))" "0 < hs"
  shows "parse_packages hs tgt h1 c1 = ([], Some (h1, c1))"
  using parse_append [OF assms, of "[]"] assms(1) by (auto split: prod.splits)

text \<open>A package on the wire: its length, big-endian, and its bytes.\<close>

definition length_field :: "nat \<Rightarrow> nat \<Rightarrow> bytes" where
  "length_field hs n =
     (if hs = 2 then [of_nat (n div 256), of_nat (n mod 256)]
      else [of_nat (n div 16777216), of_nat (n div 65536 mod 256), of_nat (n div 256 mod 256), of_nat (n mod 256)])"

definition frame :: "nat \<Rightarrow> bytes \<Rightarrow> bytes" where
  "frame hs p = length_field hs (length p) @ p"

definition frame_ok :: "nat \<Rightarrow> bytes \<Rightarrow> bool" where
  "frame_ok hs p \<longleftrightarrow> length p < (if hs = 2 then 65536 else 16777216)"

lemma uint_of_nat_u8: "n < 256 \<Longrightarrow> uint (of_nat n :: u8) = int n"
  by (simp add: unsigned_of_nat take_bit_eq_mod)

lemma header_value_length_field:
  assumes "hs = 2 \<or> hs = 4" "n < (if hs = 2 then 65536 else 16777216)"
  shows "header_value (length_field hs n) = int n \<and> length (length_field hs n) = hs"
proof (cases "hs = 2")
  case True
  have "n div 256 < 256" using assms(2) True by (simp add: less_mult_imp_div_less)
  moreover have "256 * int (n div 256) + int (n mod 256) = int n" by (simp add: zdiv_int zmod_int)
  ultimately show ?thesis using True by (simp add: length_field_def header_value_2 uint_of_nat_u8)
next
  case False
  have n: "n < 16777216" using assms(2) False by simp
  then have "n div 65536 < 256" by (simp add: less_mult_imp_div_less)
  moreover have "int n = 65536 * int (n div 65536) + 256 * int (n div 256 mod 256) + int (n mod 256)"
  proof -
    have "n div 65536 = n div 256 div 256" by (simp add: div_mult2_eq [symmetric])
    moreover have "n = 256 * (n div 256) + n mod 256" "n div 256 = 256 * (n div 256 div 256) + n div 256 mod 256" by simp_all
    ultimately show ?thesis by linarith
  qed
  ultimately show ?thesis using False assms(1) n
    by (auto simp: length_field_def header_value_4 uint_of_nat_u8 Let_def)
qed

lemma parse_frames:
  assumes "hs = 2 \<or> hs = 4" "\<forall>p \<in> set ps. frame_ok hs p"
  shows "parse_packages hs True 0 (concat (map (frame hs) ps)) = (filter (\<lambda>p. p \<noteq> []) ps, Some (0, []))"
  using assms(2)
proof (induction ps)
  case Nil
  then show ?case using assms(1) by (auto simp: parse_packages.simps)
next
  case (Cons p ps)
  let ?c = "frame hs p @ concat (map (frame hs) ps)"
  have lf: "header_value (length_field hs (length p)) = int (length p)" "length (length_field hs (length p)) = hs"
    using header_value_length_field [OF assms(1), of "length p"] Cons.prems by (auto simp: frame_ok_def)
  have rd: "header_value (take hs ?c) = int (length p)" "drop hs ?c = p @ concat (map (frame hs) ps)"
    using lf by (simp_all add: frame_def)
  have ok: "\<not> (hs = 0 \<or> (0 :: int) = 0 \<and> length ?c < hs)" using assms(1) lf by (auto simp: frame_def)
  have "parse_packages hs True 0 ?c = (if p = [] then parse_packages hs True 0 (concat (map (frame hs) ps))
      else (case parse_packages hs True 0 (concat (map (frame hs) ps)) of (qs, r) \<Rightarrow> (p # qs, r)))"
    using parse_read [OF ok, of "int (length p)" "p @ concat (map (frame hs) ps)" True] Cons.prems
    unfolding rd by (auto simp: frame_ok_def split: if_splits)
  then show ?case using Cons by simp
qed

text \<open>
  Two defects of the loop. With nobody to forward to, the bytes of a package are not consumed
  and the next length is read from inside it. And a four-byte length with the top bit set is a
  negative number: from then on nothing of the connection is ever forwarded.
\<close>

lemma payload_read_as_length: "parse_packages 2 False 0 (frame 2 [0, 5]) = ([], Some (5, []))"
proof -
  have "header_value [0, 2] = 2" "header_value [0, 5] = 5" by (simp_all add: header_value_2)
  then show ?thesis by (simp add: frame_def length_field_def parse_packages.simps)
qed

lemma negative_length_stuck:
  "parse_packages 4 tgt 0 (128 # 0 # 0 # 0 # rest) = ([], Some (- (2 ^ 31), rest))"
  "parse_packages 4 tgt (- (2 ^ 31)) c = ([], Some (- (2 ^ 31), c))"
proof -
  have "header_value [128, 0, 0, 0] = - (2 ^ 31)" by (simp add: header_value_4 Let_def)
  then show "parse_packages 4 tgt 0 (128 # 0 # 0 # 0 # rest) = ([], Some (- (2 ^ 31), rest))"
    by (simp add: parse_packages.simps)
  show "parse_packages 4 tgt (- (2 ^ 31)) c = ([], Some (- (2 ^ 31), c))" by (simp add: parse_packages.simps)
qed

section \<open>The invariant of the gate\<close>

text \<open>
  The table and the array of connections agree; an unused connection is blank, so a new one
  never inherits the agent or the bytes of an old one; every buffer is consistent; and every
  node of the pool is on the free list or in exactly one buffer.
\<close>

definition conn_free :: connection where "conn_free = connection_zero\<lparr>c_id := -1\<rparr>"

definition gate_nodes :: "gate \<Rightarrow> nat" where
  "gate_nodes g = mp_freelist (g_mp g) + sum_list (map (\<lambda>c. length (db_msgs (c_buffer c))) (g_conn g))"

definition gate_inv :: "gate \<Rightarrow> bool" where
  "gate_inv g \<longleftrightarrow> hashid_inv (g_hash g) \<and> hi_cap (g_hash g) = length (g_conn g) \<and>
     (g_header_size g = 2 \<or> g_header_size g = 4) \<and> (\<forall>x < length (g_conn g). db_inv (c_buffer (g_conn g ! x))) \<and>
     (\<forall>uid x. hi_map (g_hash g) uid = Some x \<longrightarrow> c_id (g_conn g ! x) = uid) \<and>
     (\<forall>x < length (g_conn g). x \<notin> ran (hi_map (g_hash g)) \<longrightarrow> g_conn g ! x = conn_free) \<and>
     gate_nodes g = MESSAGEPOOL * mp_pool (g_mp g)"

lemma sum_list_update_nat:
  "x < length xs \<Longrightarrow> sum_list (map f (xs[x := y])) + f (xs ! x) = sum_list (map f xs) + (f y :: nat)"
  by (induction xs arbitrary: x) (auto split: nat.splits)

lemma gate_inv_emit [simp]: "gate_inv (emit cs g) = gate_inv g"
  by (simp add: gate_inv_def gate_nodes_def)

lemma gate_inv_other [simp]:
  "gate_inv (g\<lparr>g_broker := b\<rparr>) = gate_inv g" "gate_inv (g\<lparr>g_listen_id := l\<rparr>) = gate_inv g"
  by (simp_all add: gate_inv_def gate_nodes_def)

lemma gate_index: "gate_inv g \<Longrightarrow> hi_map (g_hash g) uid = Some x \<Longrightarrow> x < length (g_conn g)"
  using hi_map_Some [of "g_hash g" uid x] by (simp add: gate_inv_def hi_used_def)

lemma gate_lookup_map:
  "gate_inv g \<Longrightarrow> gate_lookup g uid = Some (Inr (case hi_map (g_hash g) uid of None \<Rightarrow> -1 | Some x \<Rightarrow> int x))"
  by (simp add: gate_lookup_def gate_inv_def hashid_lookup_map)

lemma gate_nodes_put:
  assumes "x < length (g_conn g)"
  shows "gate_nodes (put_buffer x (db, mp) g) + pool_nodes (get_buffer x g) = gate_nodes g + pool_nodes (db, mp)"
proof -
  have "sum_list (map (\<lambda>c. length (db_msgs (c_buffer c))) ((g_conn g)[x := (g_conn g ! x)\<lparr>c_buffer := db\<rparr>])) +
      length (db_msgs (c_buffer (g_conn g ! x))) =
      sum_list (map (\<lambda>c. length (db_msgs (c_buffer c))) (g_conn g)) + length (db_msgs db)"
    using sum_list_update_nat [OF assms, of "\<lambda>c. length (db_msgs (c_buffer c))" "(g_conn g ! x)\<lparr>c_buffer := db\<rparr>"] by simp
  then show ?thesis by (simp add: gate_nodes_def pool_nodes_def get_buffer_def)
qed

lemma gate_inv_put:
  assumes "gate_inv g" "hi_map (g_hash g) uid = Some x" "db_inv db"
    "pool_nodes (db, mp) + MESSAGEPOOL * mp_pool (g_mp g) = pool_nodes (get_buffer x g) + MESSAGEPOOL * mp_pool mp"
  shows "gate_inv (put_buffer x (db, mp) g)"
proof -
  have x: "x < length (g_conn g)" using gate_index [OF assms(1,2)] .
  have "gate_nodes (put_buffer x (db, mp) g) = MESSAGEPOOL * mp_pool mp"
    using gate_nodes_put [OF x, of db mp] assms(1,4) by (simp add: gate_inv_def)
  moreover have "x \<in> ran (hi_map (g_hash g))" using assms(2) by (auto simp: ran_def)
  ultimately show ?thesis using assms(1,3) x by (auto simp: gate_inv_def nth_list_update)
qed

lemma gate_inv_upd:
  assumes "gate_inv g" "hi_map (g_hash g) uid = Some x" "\<And>c. c_id (f c) = c_id c" "\<And>c. c_buffer (f c) = c_buffer c"
  shows "gate_inv (upd_conn x f g)"
proof -
  have x: "x < length (g_conn g)" using gate_index [OF assms(1,2)] .
  have "sum_list (map (\<lambda>c. length (db_msgs (c_buffer c))) ((g_conn g)[x := f (g_conn g ! x)])) =
      sum_list (map (\<lambda>c. length (db_msgs (c_buffer c))) (g_conn g))"
    using sum_list_update_nat [OF x, of "\<lambda>c. length (db_msgs (c_buffer c))" "f (g_conn g ! x)"] assms(4) by simp
  moreover have "x \<in> ran (hi_map (g_hash g))" using assms(2) by (auto simp: ran_def)
  ultimately show ?thesis using assms(1,3,4) x by (auto simp: gate_inv_def gate_nodes_def upd_conn_def nth_list_update)
qed

section \<open>Data of a connection\<close>

text \<open>What a block of data does: the loop runs on the old bytes with the block behind them.\<close>

lemma dispatch_message_spec:
  assumes inv: "gate_inv g" and x: "hi_map (g_hash g) sid = Some x"
    and buf: "get_buffer x g = (db, mp)"
    and pr: "parse_packages (g_header_size g) (has_target g x) (db_header db) (db_content db @ data) = (ps, r)"
  shows "\<exists>db' mp' g'. gate_dispatch_message g x sid data = Some (Inr g') \<and> gate_inv g' \<and>
           g' = emit (map (package_call g x) ps @
             (if r = None then [Call_close sid, Call_error ''Recv socket message > 16M''] else [])) (put_buffer x (db', mp') g) \<and>
           (case r of None \<Rightarrow> db' = databuffer_zero | Some (h, c) \<Rightarrow> db_header db' = h \<and> db_content db' = c)"
proof -
  have xl: "x < length (g_conn g)" using gate_index [OF inv x] .
  have dbi: "db_inv db" using inv xl buf by (auto simp: gate_inv_def get_buffer_def)
  obtain db1 mp1 where p: "databuffer_push data (db, mp) = (db1, mp1)" "db_inv db1" "db_content db1 = db_content db @ data"
    "db_header db1 = db_header db" "pool_nodes (db1, mp1) + MESSAGEPOOL * mp_pool mp = pool_nodes (db, mp) + MESSAGEPOOL * mp_pool mp1"
    using databuffer_push_spec [OF dbi, of data mp] by blast
  have hs: "0 < g_header_size g" using inv by (auto simp: gate_inv_def)
  let ?g = "put_buffer x (db1, mp1) g"
  have "cut_ok ?g x sid (ps, r) (package_loop x sid ?g)"
    using package_loop_spec [of x ?g db1 mp1 sid] xl p hs pr by simp
  then obtain db' mp' where c: "package_loop x sid ?g = Some (Inr (emit (map (package_call g x) ps @
        (if r = None then [Call_close sid, Call_error ''Recv socket message > 16M''] else [])) (put_buffer x (db', mp') g)))"
      "db_inv db'" "pool_nodes (db', mp') = pool_nodes (db1, mp1)" "mp_pool mp' = mp_pool mp1"
      "case r of None \<Rightarrow> db' = databuffer_zero | Some (h, c) \<Rightarrow> db_header db' = h \<and> db_content db' = c"
    using xl unfolding cut_ok_def by auto
  have "mp = g_mp g" using buf by (simp add: get_buffer_def)
  then have "gate_inv (put_buffer x (db', mp') g)"
    using gate_inv_put [OF inv x c(2)] c(3,4) p(5) buf by simp
  then show ?thesis using c(1,5) p(1) buf by (auto simp: gate_dispatch_message_def)
qed

section \<open>Control commands\<close>

lemma memcmp_lit_total:
  "n < length cmd \<Longrightarrow> \<forall>i < n. cmd ! i \<noteq> CHR 0x00 \<Longrightarrow> \<exists>b. memcmp_lit cmd lit n = Inr b"
proof (induction cmd lit n rule: memcmp_lit.induct)
  case (2 c cmd l lit n)
  then show ?case by (auto simp: All_less_Suc2)
qed (auto simp: All_less_Suc2)

text \<open>A text array with a NUL at position \<open>L\<close> and another one at its end.\<close>

definition text_ok :: "string \<Rightarrow> nat \<Rightarrow> bool" where
  "text_ok buf L \<longleftrightarrow> Suc L < length buf \<and> buf ! L = CHR 0x00 \<and> buf ! (length buf - 1) = CHR 0x00"

lemma cstr_at_total:
  assumes "text_ok buf L" "p < length buf"
  shows "\<exists>s. cstr_at buf p = Inr s \<and> (p \<le> L \<longrightarrow> p + length s \<le> L)"
proof -
  have "buf ! (length buf - 1) \<in> set (drop p buf)"
    using assms(2) nth_mem [of "length buf - 1 - p" "drop p buf"] by simp
  moreover have "p + length (takeWhile (\<lambda>c. c \<noteq> CHR 0x00) (drop p buf)) \<le> L" if "p \<le> L"
  proof -
    have "\<not> L - p < length (takeWhile (\<lambda>c. c \<noteq> CHR 0x00) (drop p buf))"
      using assms that nth_mem [of "L - p" "takeWhile (\<lambda>c. c \<noteq> CHR 0x00) (drop p buf)"]
        takeWhile_nth [of "L - p" "\<lambda>c. c \<noteq> CHR 0x00" "drop p buf"]
      by (auto simp: text_ok_def dest: set_takeWhileD)
    then show ?thesis using that by simp
  qed
  ultimately show ?thesis using assms by (auto simp: cstr_at_def text_ok_def)
qed

lemma strsep_at_total:
  assumes "text_ok buf L" "p \<le> L"
  shows "\<exists>q buf'. strsep_at buf p = Inr (q, buf') \<and> text_ok buf' L \<and> length buf' = length buf \<and>
           (\<forall>n. q = Some n \<longrightarrow> p < n \<and> n \<le> L)"
proof -
  have p: "p < length buf" using assms by (simp add: text_ok_def)
  obtain s where s: "cstr_at buf p = Inr s" "p + length s \<le> L" using cstr_at_total [OF assms(1) p] assms(2) by blast
  let ?w = "takeWhile (\<lambda>c. c \<noteq> CHR '' '') s"
  have "length ?w \<le> length s" by (rule length_takeWhile_le)
  then show ?thesis using s assms
    by (auto simp: strsep_at_def Let_def text_ok_def nth_list_update)
qed

lemma text_ok_parm:
  assumes "0 < i" "i \<le> length msg"
  shows "\<exists>L. text_ok (parm (msg @ [CHR 0x00]) (length msg) i) L"
proof -
  let ?rest = "dropWhile (\<lambda>c. c = CHR '' '') (drop i msg)"
  have "length ?rest \<le> length msg - i" using length_dropWhile_le [of _ "drop i msg"] by simp
  then have "Suc (length ?rest) \<le> length msg" using assms by simp
  then show ?thesis
    by (intro exI [of _ "length ?rest"]) (auto simp: text_ok_def parm_def nth_append Let_def)
qed

lemma cstr_at_parm: "\<exists>s. cstr_at (parm msg sz i) 0 = Inr s"
  by (simp add: cstr_at_def parm_def Let_def)

lemma ctrl_forward_total:
  assumes inv: "gate_inv g" and t: "text_ok tmp L"
  shows "\<exists>g'. ctrl_forward g tmp = Some (Inr g') \<and> gate_inv g'"
proof -
  have fa: "\<exists>g'. forward_agent g fd a c = Some (Inr g') \<and> gate_inv g'" for fd a c
    using inv gate_inv_upd [OF inv, of fd] gate_lookup_map [OF inv, of fd]
    by (auto simp: forward_agent_def split: option.splits)
  obtain q1 b1 where s1: "strsep_at tmp 0 = Inr (q1, b1)" "text_ok b1 L" "\<And>n. q1 = Some n \<Longrightarrow> n \<le> L"
    using strsep_at_total [OF t, of 0] by auto
  show ?thesis
  proof (cases q1)
    case None
    with s1 inv show ?thesis by (simp add: ctrl_forward_def)
  next
    case (Some agent)
    then have al: "agent \<le> L" using s1(3) by simp
    obtain q2 b2 where s2: "strsep_at b1 agent = Inr (q2, b2)" "text_ok b2 L" "length b2 = length b1" "\<And>n. q2 = Some n \<Longrightarrow> n \<le> L"
      using strsep_at_total [OF s1(2) al] by auto
    have len: "Suc L < length b2" using s2(2) by (simp add: text_ok_def)
    obtain i where i: "cstr_at b1 0 = Inr i" using cstr_at_total [OF s1(2), of 0] s1(2) unfolding text_ok_def by fastforce
    show ?thesis
    proof (cases q2)
      case None
      with s1 s2 i Some inv show ?thesis by (simp add: ctrl_forward_def)
    next
      case (Some client)
      then have "client \<le> L" using s2(4) by simp
      then obtain a c where "cstr_at b2 (agent + 1) = Inr a" "cstr_at b2 (client + 1) = Inr c"
        using cstr_at_total [OF s2(2), of "agent + 1"] cstr_at_total [OF s2(2), of "client + 1"] al len by auto
      then show ?thesis using s1 s2 i \<open>q1 = Some agent\<close> Some fa by (simp add: ctrl_forward_def)
    qed
  qed
qed

lemma ctrl_total:
  assumes inv: "gate_inv g" and msg: "0 \<notin> set msg"
  shows "\<exists>g'. ctrl env g msg = Some (Inr g') \<and> gate_inv g'"
proof (cases "msg = []")
  case False
  let ?s = "bytes_string msg"
  let ?i = "length (takeWhile (\<lambda>c. c \<noteq> CHR '' '') ?s)"
  have len: "length ?s = length msg" by (simp add: bytes_string_def)
  have i: "?i \<le> length msg" using length_takeWhile_le [of _ ?s] len by simp
  have nul: "CHR 0x00 \<notin> set ?s"
  proof
    assume "CHR 0x00 \<in> set ?s"
    then obtain b where b: "b \<in> set msg" "char_of (unat b) = CHR 0x00" by (auto simp: bytes_string_def)
    have "of_char (char_of (unat b) :: char) = (0 :: nat)" unfolding b(2) by simp
    moreover have "unat b < 2 ^ LENGTH(8)" by (rule unsigned_less)
    ultimately have "unat b = 0" by simp
    then show False using b(1) msg by (auto simp: unat_eq_zero)
  qed
  have "\<forall>j < ?i. (?s @ [CHR 0x00]) ! j \<noteq> CHR 0x00" 
  proof (intro allI impI)
    fix j assume "j < ?i"
    then have "j < length ?s" using i len by simp
    then show "(?s @ [CHR 0x00]) ! j \<noteq> CHR 0x00" using nul by (metis nth_append nth_mem)
  qed
  then have mc: "\<exists>b. memcmp_lit (?s @ [CHR 0x00]) lit ?i = Inr b" for lit
    using memcmp_lit_total [of ?i "?s @ [CHR 0x00]" lit] i len by simp
  obtain bk bf bb bs bc where m: "memcmp_lit (?s @ [CHR 0x00]) ''kick'' ?i = Inr bk"
    "memcmp_lit (?s @ [CHR 0x00]) ''forward'' ?i = Inr bf" "memcmp_lit (?s @ [CHR 0x00]) ''broker'' ?i = Inr bb"
    "memcmp_lit (?s @ [CHR 0x00]) ''start'' ?i = Inr bs" "memcmp_lit (?s @ [CHR 0x00]) ''close'' ?i = Inr bc"
    using mc by metis
  have k: "bk" if "?i = 0" using m(1) that by simp
  obtain c0 where c0: "cstr_at (?s @ [CHR 0x00]) 0 = Inr c0" by (simp add: cstr_at_def)
  obtain c1 where c1: "cstr_at (parm (?s @ [CHR 0x00]) (length msg) ?i) 0 = Inr c1" using cstr_at_parm by blast
  have fw: "\<exists>g'. ctrl_forward g (parm (?s @ [CHR 0x00]) (length msg) ?i) = Some (Inr g') \<and> gate_inv g'" if "\<not> bk"
    using text_ok_parm [of ?i ?s] ctrl_forward_total [OF inv] k that i len by auto
  show ?thesis
    using False inv len m c0 c1 fw gate_lookup_map [OF inv]
    by (auto simp: ctrl_def Let_def ctrl_kick_def ctrl_start_def)
qed (simp add: ctrl_def inv)

section \<open>Every message is handled\<close>

lemma show_base_length: "n < b ^ Suc k \<Longrightarrow> length (show_base b n) \<le> Suc k"
proof (induction k arbitrary: n)
  case 0
  then show ?case by (simp add: show_base.simps)
next
  case (Suc k)
  show ?case
  proof (cases "b < 2 \<or> n < b")
    case True
    then show ?thesis by (subst show_base.simps) auto
  next
    case False
    then have "n div b < b ^ Suc k" using Suc.prems by (simp add: less_mult_imp_div_less mult.commute)
    with Suc.IH False show ?thesis by (subst show_base.simps) simp
  qed
qed

lemma fmt_d_length: "\<bar>i\<bar> \<le> 2 ^ 31 \<Longrightarrow> length (fmt_d i) \<le> 11"
  using show_base_length [of "nat i" 10 9] show_base_length [of "nat (- i)" 10 9]
  by (cases "i < 0") (simp_all add: fmt_d_def nat_less_iff)

lemma report_total: "length text < 1024 \<Longrightarrow> \<exists>cs. report g text = Inr (emit cs g)"
  by (auto simp: report_def intro: exI [of _ "[]"])

lemma socket_data_total:
  assumes inv: "gate_inv g"
  shows "\<exists>g'. socket_data g sid data = Some (Inr g') \<and> gate_inv g'"
proof (cases "hi_map (g_hash g) sid")
  case None
  then show ?thesis using gate_lookup_map [OF inv, of sid] inv by (simp add: socket_data_def)
next
  case (Some x)
  obtain db mp where buf: "get_buffer x g = (db, mp)" by fastforce
  obtain ps r where pr: "parse_packages (g_header_size g) (has_target g x) (db_header db) (db_content db @ data) = (ps, r)"
    by fastforce
  show ?thesis using dispatch_message_spec [OF inv Some buf pr] Some gate_lookup_map [OF inv, of sid]
    by (auto simp: socket_data_def)
qed

lemma socket_close_total:
  assumes inv: "gate_inv g" and sid: "\<bar>sid\<bar> \<le> 2 ^ 31"
  shows "\<exists>g'. socket_close g sid = Some (Inr g') \<and> gate_inv g' \<and> hi_map (g_hash g') = (hi_map (g_hash g))(sid := None)"
proof -
  have hinv: "hashid_inv (g_hash g)" using inv by (simp add: gate_inv_def)
  obtain h where h: "hashid_remove sid (g_hash g) = Some (case hi_map (g_hash g) sid of None \<Rightarrow> -1 | Some x \<Rightarrow> int x, h)"
    "hashid_inv h" "hi_map h = (hi_map (g_hash g))(sid := None)" "hi_cap h = hi_cap (g_hash g)"
    using hashid_remove_spec [OF hinv, of sid] by blast
  show ?thesis
  proof (cases "hi_map (g_hash g) sid")
    case None
    then have "hi_map h = hi_map (g_hash g)" using h(3) by (simp add: fun_upd_idem)
    then have "gate_inv (g\<lparr>g_hash := h\<rparr>)" using inv h by (simp add: gate_inv_def gate_nodes_def)
    then show ?thesis using None h by (simp add: socket_close_def)
  next
    case (Some x)
    have x: "x < length (g_conn g)" using gate_index [OF inv Some] .
    have other: "hi_map (g_hash g) k = Some x \<Longrightarrow> k = sid" for k
      using inv Some unfolding gate_inv_def by metis
    obtain mp where cl: "databuffer_clear (get_buffer x g) = (databuffer_zero, mp)"
      "pool_nodes (databuffer_zero, mp) = pool_nodes (get_buffer x g)" "mp_pool mp = mp_pool (g_mp g)"
      using databuffer_clear_spec [of "fst (get_buffer x g)" "snd (get_buffer x g)"] by (auto simp: get_buffer_def)
    let ?g = "g\<lparr>g_hash := h, g_mp := mp, g_conn := (g_conn g)[x := conn_free]\<rparr>"
    have "sum_list (map (\<lambda>c. length (db_msgs (c_buffer c))) ((g_conn g)[x := conn_free])) +
        length (db_msgs (c_buffer (g_conn g ! x))) = sum_list (map (\<lambda>c. length (db_msgs (c_buffer c))) (g_conn g))"
      using sum_list_update_nat [OF x, of "\<lambda>c. length (db_msgs (c_buffer c))" conn_free]
      by (simp add: conn_free_def connection_zero_def databuffer_zero_def)
    then have nodes: "gate_nodes ?g = gate_nodes g"
      using cl(2) by (simp add: gate_nodes_def pool_nodes_def get_buffer_def databuffer_zero_def)
    have conns: "g_conn ?g ! y = (if y = x then conn_free else g_conn g ! y)" for y using x by (simp add: nth_list_update)
    have "db_inv (c_buffer conn_free)" by (simp add: conn_free_def connection_zero_def)
    then have 1: "\<forall>y < length (g_conn ?g). db_inv (c_buffer (g_conn ?g ! y))" using inv unfolding conns gate_inv_def by auto
    have sub: "hi_map (g_hash g) k = Some y \<and> y \<noteq> x" if "hi_map h k = Some y" for k y
      using that other [of k] unfolding h(3) by (auto split: if_splits)
    then have 2: "\<forall>k y. hi_map (g_hash ?g) k = Some y \<longrightarrow> c_id (g_conn ?g ! y) = k"
      using inv unfolding conns gate_inv_def by simp
    have "y \<in> ran (hi_map h)" if "y \<in> ran (hi_map (g_hash g))" "y \<noteq> x" for y
    proof -
      obtain k where "hi_map (g_hash g) k = Some y" using \<open>y \<in> ran (hi_map (g_hash g))\<close> by (auto simp: ran_def)
      then have "hi_map h k = Some y" using Some that(2) unfolding h(3) by auto
      then show ?thesis by (rule ranI)
    qed
    then have 3: "\<forall>y < length (g_conn ?g). y \<notin> ran (hi_map (g_hash ?g)) \<longrightarrow> g_conn ?g ! y = conn_free"
      using inv unfolding conns gate_inv_def by auto
    have inv': "gate_inv ?g" using inv h(2,4) cl(3) nodes 1 2 3 unfolding gate_inv_def by simp
    have "put_buffer x (databuffer_clear (get_buffer x (g\<lparr>g_hash := h\<rparr>))) (g\<lparr>g_hash := h\<rparr>) =
        g\<lparr>g_hash := h, g_mp := mp, g_conn := (g_conn g)[x := (g_conn g ! x)\<lparr>c_buffer := databuffer_zero\<rparr>]\<rparr>"
      using cl(1) by (simp add: put_buffer_def upd_conn_def get_buffer_def)
    then have "socket_close g sid = Some (report ?g (fmt_d sid @ '' close''))"
      using Some h(1) x by (simp add: socket_close_def Let_def upd_conn_def conn_free_def)
    moreover obtain cs where "report ?g (fmt_d sid @ '' close'') = Inr (emit cs ?g)"
      using report_total [of "fmt_d sid @ '' close''" ?g] fmt_d_length [OF sid] by auto
    ultimately show ?thesis using inv' h(3) by simp
  qed
qed

lemma socket_accept_total:
  assumes inv: "gate_inv g" and sid: "sid = g_listen_id g" and ud: "0 \<le> ud" "ud < 2 ^ 31" "hi_map (g_hash g) ud = None"
  shows "\<exists>g'. socket_accept g sid ud text = Inr g' \<and> gate_inv g' \<and>
           (\<not> hashid_full (g_hash g) \<longrightarrow> (\<exists>x. hi_map (g_hash g') = (hi_map (g_hash g))(ud \<mapsto> x) \<and>
              get_buffer x g' = (databuffer_zero, g_mp g) \<and> c_agent (g_conn g' ! x) = 0))"
proof (cases "hashid_full (g_hash g)")
  case True
  then show ?thesis using inv sid by (simp add: socket_accept_def)
next
  case False
  have hinv: "hashid_inv (g_hash g)" using inv by (simp add: gate_inv_def)
  obtain x h where h: "hashid_insert ud (g_hash g) = Inr (int x, h)" "x < hi_cap (g_hash g)" "x \<notin> hi_used (g_hash g)"
    "hashid_inv h" "hi_map h = (hi_map (g_hash g))(ud \<mapsto> x)" "hi_cap h = hi_cap (g_hash g)"
    using hashid_insert_spec [OF hinv ud(1,3) False] by blast
  have x: "x < length (g_conn g)" using h(2) inv by (simp add: gate_inv_def)
  have nx: "hi_map (g_hash g) k \<noteq> Some x" for k using hi_map_Some [OF hinv] h(3) by blast
  then have free: "g_conn g ! x = conn_free" using inv x unfolding gate_inv_def by (auto simp: ran_def)
  let ?name = "takeWhile (\<lambda>c. c \<noteq> CHR 0x00) (bytes_string (take 31 text))"
  let ?c = "conn_free\<lparr>c_id := ud, c_remote_name := ?name\<rparr>"
  let ?g = "g\<lparr>g_hash := h, g_conn := (g_conn g)[x := ?c]\<rparr>"
  have conns: "g_conn ?g ! y = (if y = x then ?c else g_conn g ! y)" for y using x by (simp add: nth_list_update)
  have "db_inv (c_buffer ?c)" by (simp add: conn_free_def connection_zero_def)
  then have 1: "\<forall>y < length (g_conn ?g). db_inv (c_buffer (g_conn ?g ! y))" using inv unfolding conns gate_inv_def by auto
  have 2: "\<forall>k y. hi_map (g_hash ?g) k = Some y \<longrightarrow> c_id (g_conn ?g ! y) = k"
    using inv nx unfolding conns gate_inv_def by (auto simp: h(5))
  have ran: "ran (hi_map h) = insert x (ran (hi_map (g_hash g)))" unfolding h(5) using ud(3) by (rule ran_map_upd)
  have 3: "\<forall>y < length (g_conn ?g). y \<notin> ran (hi_map (g_hash ?g)) \<longrightarrow> g_conn ?g ! y = conn_free"
    using inv unfolding conns gate_inv_def by (auto simp: ran)
  have "gate_nodes ?g = gate_nodes g"
    using sum_list_update_nat [OF x, of "\<lambda>c. length (db_msgs (c_buffer c))" ?c] free by (simp add: gate_nodes_def)
  then have inv': "gate_inv ?g" using inv h(4,6) 1 2 3 unfolding gate_inv_def by simp
  have "length ?name \<le> 31"
    using length_takeWhile_le [of "\<lambda>c. c \<noteq> CHR 0x00" "bytes_string (take 31 text)"] by (simp add: bytes_string_def)
  then obtain cs where "report ?g (fmt_d ud @ '' open '' @ fmt_d ud @ '' '' @ ?name @ '':0'') = Inr (emit cs ?g)"
    using report_total [of "fmt_d ud @ '' open '' @ fmt_d ud @ '' '' @ ?name @ '':0''" ?g] fmt_d_length [of ud] ud by auto
  then have "socket_accept g sid ud text = Inr (emit (cs @ [Call_error (''socket open: '' @ fmt_x (of_int ud))]) ?g)"
    using False sid h(1) free x by (simp add: socket_accept_def upd_conn_def Let_def)
  moreover have "get_buffer x ?g = (databuffer_zero, g_mp g)" "c_agent (g_conn ?g ! x) = 0"
    using x by (simp_all add: get_buffer_def conn_free_def connection_zero_def)
  ultimately show ?thesis using inv' h(5) False by auto
qed

text \<open>
  What the kernel and the socket layer promise of a message: text without NUL characters,
  socket ids that are C integers, \<open>accept\<close> events of the listening socket for ids that are new.
\<close>

definition gate_msg_ok :: "gate \<Rightarrow> int \<Rightarrow> payload \<Rightarrow> bool" where
  "gate_msg_ok g type msg \<longleftrightarrow>
     (case msg of
        Block b \<Rightarrow> type \<noteq> PTYPE_SOCKET \<and> (type = PTYPE_TEXT \<longrightarrow> 0 \<notin> set b)
      | Socket_message t sid ud buffer text \<Rightarrow>
          type = PTYPE_SOCKET \<and> \<bar>sid\<bar> \<le> 2 ^ 31 \<and> (t = SKYNET_SOCKET_TYPE_DATA \<longrightarrow> buffer \<noteq> None) \<and>
          (t = SKYNET_SOCKET_TYPE_ACCEPT \<longrightarrow>
             sid = g_listen_id g \<and> 0 \<le> ud \<and> ud < 2 ^ 31 \<and> hi_map (g_hash g) ud = None)
      | _ \<Rightarrow> False)"

lemma socket_message_total:
  assumes inv: "gate_inv g" and ok: "gate_msg_ok g PTYPE_SOCKET (Socket_message t sid ud buffer text)"
  shows "\<exists>g'. dispatch_socket_message g t sid ud buffer text = Some (Inr g') \<and> gate_inv g'"
proof -
  have conn: "\<exists>g'. socket_connect g sid = Some (Inr g') \<and> gate_inv g'"
    using inv gate_lookup_map [OF inv, of sid] by (auto simp: socket_connect_def)
  consider "t = SKYNET_SOCKET_TYPE_DATA" | "t = SKYNET_SOCKET_TYPE_ACCEPT"
    | "t \<noteq> SKYNET_SOCKET_TYPE_DATA" "t \<noteq> SKYNET_SOCKET_TYPE_ACCEPT" by blast
  then show ?thesis
  proof cases
    case 1
    then show ?thesis using ok socket_data_total [OF inv, of sid]
      by (auto simp: dispatch_socket_message_def gate_msg_ok_def)
  next
    case 2
    then show ?thesis using ok socket_accept_total [OF inv, of sid ud]
      by (auto simp: dispatch_socket_message_def gate_msg_ok_def SKYNET_SOCKET_TYPE_DATA_def SKYNET_SOCKET_TYPE_ACCEPT_def
          SKYNET_SOCKET_TYPE_CONNECT_def SKYNET_SOCKET_TYPE_CLOSE_def SKYNET_SOCKET_TYPE_ERROR_def)
  next
    case 3
    then show ?thesis using ok conn socket_close_total [OF inv, of sid] inv
      by (auto simp: dispatch_socket_message_def gate_msg_ok_def)
  qed
qed

lemma gate_init_inv:
  assumes "gate_init env gate_create p = (0, g)"
  shows "gate_inv g"
proof -
  have sl: "gate_inv g" if "start_listen env g1 b = (0, g)" "gate_inv g1" for g1 b
    using that by (auto simp: start_listen_def Let_def split: option.splits prod.splits if_splits)
  have m: "hi_map (hashid_init n) = Map.empty" "hi_cap (hashid_init n) = n" for n
    by (auto simp: hi_map_def hi_used_def hashid_init_def Let_def)
  have z: "db_inv (c_buffer (connection_zero\<lparr>c_id := -1\<rparr>))" "db_msgs (c_buffer (connection_zero\<lparr>c_id := -1\<rparr>)) = []"
    by (simp_all add: connection_zero_def databuffer_zero_def db_inv_def db_content_def)
  have ini: "gate_inv (gate_create\<lparr>g_watchdog := w, g_hash := hashid_init n,
      g_conn := replicate n (connection_zero\<lparr>c_id := -1\<rparr>), g_max_connection := n, g_client_tag := tag,
      g_header_size := hs\<rparr>)" if "hs = 2 \<or> hs = 4" for w n tag hs
    using that hashid_inv_init [of n] z
    by (simp add: gate_inv_def gate_nodes_def m conn_free_def gate_create_def sum_list_replicate)
  show ?thesis using assms
    by (auto simp: gate_init_def Let_def intro!: sl ini split: option.splits prod.splits if_splits)
qed

section \<open>Properties\<close>


text \<open>A gate with room for two connections, initialised by the code itself.\<close>

definition demo_env :: gate_env where
  "demo_env = \<lparr>ge_queryname = (\<lambda>s. 7), ge_listen = (\<lambda>host port backlog. 3)\<rparr>"

definition demo_gate :: gate where
  "demo_gate = snd (gate_init demo_env gate_create (Some ''S .watchdog 127.0.0.1:8888 0 2''))"

lemma demo_scan: "scan_parm ''S .watchdog 127.0.0.1:8888 0 2'' = Some (CHR ''S'', ''.watchdog'', ''127.0.0.1:8888'', 0, Some 2)"
  by code_simp

lemma demo_port: "strchr_split CHR '':'' ''127.0.0.1:8888'' = Some (''127.0.0.1'', ''8888'')" "int_of_long (strtol10 ''8888'') = 8888"
  by code_simp+

lemma demo_gate_init:
  "gate_init demo_env gate_create (Some ''S .watchdog 127.0.0.1:8888 0 2'') = (0, demo_gate)"
  "demo_gate = gate_create\<lparr>g_listen_id := 3, g_watchdog := 7, g_client_tag := PTYPE_CLIENT, g_header_size := 2,
     g_max_connection := 2, g_hash := hashid_init 2, g_conn := replicate 2 (connection_zero\<lparr>c_id := -1\<rparr>),
     g_calls := [Call_callback, Call_listen ''127.0.0.1'' 8888 BACKLOG, Call_start 3]\<rparr>"
  by (simp_all add: demo_gate_def gate_init_def demo_scan start_listen_def demo_port demo_env_def Let_def emit_def gate_create_def)

lemma demo_gate_inv: "gate_inv demo_gate"
  using gate_init_inv [OF demo_gate_init(1)] .

lemma demo_gate_map: "hi_map (g_hash demo_gate) uid = None" "hashid_full (g_hash demo_gate) = False"
  by (auto simp: demo_gate_init(2) hi_map_def hi_used_def hashid_init_def hashid_full_def Let_def)


text \<open>The events of a connection whose bytes arrive in the given blocks.\<close>

fun feed :: "gate \<Rightarrow> int \<Rightarrow> bytes list \<Rightarrow> gate run" where
  "feed g sid [] = Some (Inr g)"
| "feed g sid (b # bs) =
     run_bind (dispatch_socket_message g SKYNET_SOCKET_TYPE_DATA sid (int (length b)) (Some b) []) (\<lambda>g. feed g sid bs)"

lemma feed_spec:
  assumes "gate_inv g" "hi_map (g_hash g) sid = Some x" "get_buffer x g = (db, mp)"
    "parse_packages (g_header_size g) (has_target g x) (db_header db) (db_content db) = ([], Some (db_header db, db_content db))"
    "parse_packages (g_header_size g) (has_target g x) (db_header db) (db_content db @ concat bs) = (ps, Some (h, c))"
  shows "\<exists>db' mp' g'. feed g sid bs = Some (Inr g') \<and> gate_inv g' \<and>
           g' = emit (map (package_call g x) ps) (put_buffer x (db', mp') g) \<and> db_header db' = h \<and> db_content db' = c"
  using assms
proof (induction bs arbitrary: g db mp ps)
  case Nil
  then have "put_buffer x (db, mp) g = g" "ps = []" "h = db_header db" "c = db_content db"
    using put_get_buffer [of x g] by simp_all
  then show ?case using Nil(1) by (intro exI [of _ db] exI [of _ mp]) simp
next
  case (Cons b bs)
  note inv = Cons.prems(1) and x = Cons.prems(2) and buf = Cons.prems(3)
  let ?hs = "g_header_size g" and ?t = "has_target g x"
  have hs: "0 < ?hs" using inv by (auto simp: gate_inv_def)
  have xl: "x < length (g_conn g)" using gate_index [OF inv x] .
  obtain qs r where pr: "parse_packages ?hs ?t (db_header db) (db_content db @ b) = (qs, r)" by fastforce
  have "r \<noteq> None" using parse_append_None [OF _ hs, of ?t "db_header db" "db_content db @ b" qs "concat bs"] pr Cons.prems(5)
    by (cases r) auto
  then obtain h1 c1 where r: "r = Some (h1, c1)" by (cases r) auto
  obtain db1 mp1 g1 where g1: "gate_dispatch_message g x sid b = Some (Inr g1)" "gate_inv g1"
    "g1 = emit (map (package_call g x) qs) (put_buffer x (db1, mp1) g)" "db_header db1 = h1" "db_content db1 = c1"
    using dispatch_message_spec [OF inv x buf pr] r by auto
  obtain ps1 where ps1: "parse_packages ?hs ?t h1 (c1 @ concat bs) = (ps1, Some (h, c))" "ps = qs @ ps1"
    using parse_append [OF pr [unfolded r] hs, of "concat bs"] Cons.prems(5) by (auto split: prod.splits)
  have "\<exists>db' mp' g'. feed g1 sid bs = Some (Inr g') \<and> gate_inv g' \<and>
      g' = emit (map (package_call g1 x) ps1) (put_buffer x (db', mp') g1) \<and> db_header db' = h \<and> db_content db' = c"
    using g1 x xl ps1(1) parse_stable [OF pr [unfolded r] hs] by (intro Cons.IH [of g1 db1 mp1 ps1]) simp_all
  moreover have "feed g sid (b # bs) = feed g1 sid bs"
    using g1(1) x gate_lookup_map [OF inv, of sid] by (simp add: dispatch_socket_message_def socket_data_def)
  ultimately show ?case using g1(3) xl ps1(2) by auto
qed


lemma socket_accept_keeps:
  "socket_accept g sid ud tx = Inr g' \<Longrightarrow> g_watchdog g' = g_watchdog g \<and> g_header_size g' = g_header_size g"
  by (auto simp: socket_accept_def report_def upd_conn_def Let_def res_bind_def res_assert_def split: if_splits sum.splits prod.splits)


end
