(* ===== verification/PackQueue.thy ===== *)
theory PackQueue
  imports Gate
begin

text \<open>
  What the two package splitters of the Lua libraries, \<open>skynet/lualib-src/lua-netpack.c\<close> and
  \<open>lualib-src/lua-websocketnetpack.c\<close>, have in common (the second began as a copy of the first):
  a growing ring of finished packages and a hash table of linked lists with one unfinished
  package per connection. The userdata on the Lua stack is an argument and a result, \<open>None\<close>
  for nil. A block of memory that is only partly filled is the list of the bytes written so
  far. The node of an unfinished package is an extensible record: each library adds its own
  fields. The ring is an instance of the queue interface, the table one of the interface of
  identifier tables; the locale \<open>splitter\<close> states what the two libraries promise a service and
  derives from it that the packages of a connection do not depend on how the stream is cut.
\<close>

section \<open>Data\<close>

definition QUEUESIZE :: nat where "QUEUESIZE = 1024"
definition HASHSIZE :: nat where "HASHSIZE = 4096"

record netpack =
  np_id :: int
  np_size :: nat
  np_buffer :: bytes

record uncomplete =
  uc_pack :: netpack
  uc_read :: int

record 'z nqueue =
  nq_cap :: nat
  nq_head :: nat
  nq_tail :: nat
  nq_hash :: "'z uncomplete_scheme list list"
  nq_queue :: "netpack option list"

datatype filter_result =
    F_none
  | F_data int bytes
  | F_more
  | F_close int
  | F_open int bytes
  | F_error int bytes
  | F_warning int int

section \<open>Operations\<close>

text \<open>\<open>lclear\<close>: the second component lists the buffers that are freed.\<close>

definition clear_list :: "'z uncomplete_scheme list \<Rightarrow> bytes list" where
  "clear_list ucs = map (\<lambda>uc. np_buffer (uc_pack uc)) ucs"

definition np_slot :: "'z nqueue \<Rightarrow> nat \<Rightarrow> netpack res" where
  "np_slot q i = (case nq_queue q ! i of None \<Rightarrow> Inl (Uninitialised ''netpack'') | Some np \<Rightarrow> Inr np)"

fun free_packs :: "'z nqueue \<Rightarrow> nat list \<Rightarrow> bytes list res" where
  "free_packs q [] = Inr []"
| "free_packs q (i # is) =
     res_bind (np_slot q (i mod nq_cap q)) (\<lambda>np. res_bind (free_packs q is) (\<lambda>bs. Inr (np_buffer np # bs)))"

definition lclear :: "'z nqueue option \<Rightarrow> ('z nqueue option \<times> bytes list) res" where
  "lclear qo =
     (case qo of
        None \<Rightarrow> Inr (None, [])
      | Some q \<Rightarrow>
          let lists = concat (map clear_list (nq_hash q));
              tail = (if nq_head q > nq_tail q then nq_tail q + nq_cap q else nq_tail q)
          in res_bind (free_packs q [nq_head q..<tail]) (\<lambda>bs.
               Inr (Some (q\<lparr>nq_hash := replicate HASHSIZE [], nq_head := 0, nq_tail := 0\<rparr>), lists @ bs)))"

text \<open>The sum wraps around at 32 bits before the remainder is taken.\<close>

definition hash_fd :: "int \<Rightarrow> nat" where
  "hash_fd fd = nat ((drop_bit 24 fd + drop_bit 12 fd + fd) mod 2 ^ 32 mod int HASHSIZE)"

text \<open>The walk along a bucket that unlinks the node of a connection.\<close>

fun unlink_uc :: "int \<Rightarrow> 'z uncomplete_scheme list \<Rightarrow> 'z uncomplete_scheme option \<times> 'z uncomplete_scheme list" where
  "unlink_uc fd [] = (None, [])"
| "unlink_uc fd (uc # ucs) =
     (if np_id (uc_pack uc) = fd then (Some uc, ucs)
      else case unlink_uc fd ucs of (r, ucs) \<Rightarrow> (r, uc # ucs))"

definition find_uncomplete :: "'z nqueue option \<Rightarrow> int \<Rightarrow> 'z uncomplete_scheme option \<times> 'z nqueue option" where
  "find_uncomplete qo fd =
     (case qo of
        None \<Rightarrow> (None, None)
      | Some q \<Rightarrow>
          let h = hash_fd fd in
          case unlink_uc fd (nq_hash q ! h) of (r, ucs) \<Rightarrow> (r, Some (q\<lparr>nq_hash := (nq_hash q)[h := ucs]\<rparr>)))"

definition get_queue :: "'z nqueue option \<Rightarrow> 'z nqueue" where
  "get_queue qo =
     (case qo of
        Some q \<Rightarrow> q
      | None \<Rightarrow> \<lparr>nq_cap = QUEUESIZE, nq_head = 0, nq_tail = 0, nq_hash = replicate HASHSIZE [],
                nq_queue = replicate QUEUESIZE None\<rparr>)"

definition np_expand_queue :: "'z nqueue \<Rightarrow> 'z nqueue" where
  "np_expand_queue q =
     \<lparr>nq_cap = nq_cap q + QUEUESIZE, nq_head = 0, nq_tail = nq_cap q, nq_hash = nq_hash q,
      nq_queue = map (\<lambda>i. nq_queue q ! ((nq_head q + i) mod nq_cap q)) [0..<nq_cap q] @ replicate QUEUESIZE None\<rparr>"

definition push_data :: "int \<Rightarrow> bytes \<Rightarrow> 'z nqueue option \<Rightarrow> 'z nqueue" where
  "push_data fd buffer qo =
     (let q = get_queue qo;
          t = (if Suc (nq_tail q) \<ge> nq_cap q then Suc (nq_tail q) - nq_cap q else Suc (nq_tail q));
          q = q\<lparr>nq_tail := t,
                nq_queue := (nq_queue q)[nq_tail q := Some \<lparr>np_id = fd, np_size = length buffer, np_buffer = buffer\<rparr>]\<rparr>
      in if nq_head q = nq_tail q then np_expand_queue q else q)"

definition save_uncomplete :: "'z uncomplete_scheme \<Rightarrow> 'z nqueue option \<Rightarrow> 'z nqueue" where
  "save_uncomplete uc qo =
     (let q = get_queue qo; h = hash_fd (np_id (uc_pack uc)) in q\<lparr>nq_hash := (nq_hash q)[h := uc # nq_hash q ! h]\<rparr>)"

definition close_uncomplete :: "'z nqueue option \<Rightarrow> int \<Rightarrow> 'z nqueue option" where
  "close_uncomplete qo fd = snd (find_uncomplete qo fd)"

text \<open>
  The string that follows the struct; with a separate buffer its size would be -1, a length
  no string has.
\<close>

definition pushstring :: "bytes option \<Rightarrow> bytes \<Rightarrow> bytes res" where
  "pushstring buffer tail = (case buffer of None \<Rightarrow> Inr tail | Some b \<Rightarrow> Inl (Out_of_bounds ''pushstring''))"

definition lpop :: "'z nqueue option \<Rightarrow> (netpack option \<times> 'z nqueue option) res" where
  "lpop qo =
     (case qo of
        None \<Rightarrow> Inr (None, None)
      | Some q \<Rightarrow>
          if nq_head q = nq_tail q then Inr (None, Some q)
          else res_bind (np_slot q (nq_head q)) (\<lambda>np.
            Inr (Some np, Some (q\<lparr>nq_head := (if Suc (nq_head q) \<ge> nq_cap q then 0 else Suc (nq_head q))\<rparr>))))"

definition ltostring :: "bytes option \<Rightarrow> nat \<Rightarrow> bytes" where
  "ltostring ptr n = (case ptr of None \<Rightarrow> [] | Some b \<Rightarrow> take n b)"

section \<open>The ring of finished packages is a queue\<close>

lemma QUEUESIZE_pos [simp]: "0 < QUEUESIZE" and HASHSIZE_pos [simp]: "0 < HASHSIZE"
  by (simp_all add: QUEUESIZE_def HASHSIZE_def)

definition np_ring :: "'z nqueue \<Rightarrow> netpack option list" where
  "np_ring q = ring_slice (nq_queue q) (nq_head q) (ring_len (nq_cap q) (nq_head q) (nq_tail q))"

definition np_content :: "'z nqueue option \<Rightarrow> (int \<times> bytes) list" where
  "np_content qo = (case qo of None \<Rightarrow> [] | Some q \<Rightarrow> map (\<lambda>s. (np_id (the s), np_buffer (the s))) (np_ring q))"

definition ring_inv :: "'z nqueue option \<Rightarrow> bool" where
  "ring_inv qo \<longleftrightarrow> (case qo of None \<Rightarrow> True | Some q \<Rightarrow>
     length (nq_queue q) = nq_cap q \<and> nq_head q < nq_cap q \<and> nq_tail q < nq_cap q \<and> None \<notin> set (np_ring q))"

definition np_enq :: "int \<times> bytes \<Rightarrow> 'z nqueue option \<Rightarrow> 'z nqueue option" where
  "np_enq p qo = Some (push_data (fst p) (snd p) qo)"

definition np_deq :: "'z nqueue option \<Rightarrow> (int \<times> bytes) option \<times> 'z nqueue option" where
  "np_deq qo = (case lpop qo of
      Inl e \<Rightarrow> (None, qo)
    | Inr (np, qo) \<Rightarrow> (map_option (\<lambda>np. (np_id np, np_buffer np)) np, qo))"

lemma get_queue_ring: "ring_inv qo \<Longrightarrow> ring_inv (Some (get_queue qo)) \<and> np_content (Some (get_queue qo)) = np_content qo"
  by (auto simp: ring_inv_def np_content_def get_queue_def np_ring_def ring_len_def split: option.splits)

lemma push_data_ring:
  assumes "ring_inv qo"
  shows "np_content (Some (push_data fd b qo)) = np_content qo @ [(fd, b)] \<and> ring_inv (Some (push_data fd b qo))"
proof -
  define q where "q = get_queue qo"
  let ?c = "nq_cap q" and ?h = "nq_head q" and ?t = "nq_tail q"
  let ?n = "ring_len ?c ?h ?t"
  let ?np = "\<lparr>np_id = fd, np_size = length b, np_buffer = b\<rparr>"
  let ?xs = "(nq_queue q)[?t := Some ?np]"
  have inv: "length (nq_queue q) = ?c" "?h < ?c" "?t < ?c" "None \<notin> set (np_ring q)"
    and con: "np_content qo = np_content (Some q)"
    using get_queue_ring [OF assms] by (auto simp: ring_inv_def q_def)
  have nt: "(if Suc ?t \<ge> ?c then Suc ?t - ?c else Suc ?t) = ring_next ?c ?t" using inv(3) by (auto simp: ring_next_def)
  have slice: "ring_slice ?xs ?h (Suc ?n) = np_ring q @ [Some ?np]"
    using ring_push_slice [of ?h "nq_queue q" ?t "Some ?np"] inv by (simp add: np_ring_def)
  have main: "np_ring (push_data fd b qo) = np_ring q @ [Some ?np] \<and> length (nq_queue (push_data fd b qo)) = nq_cap (push_data fd b qo) \<and>
      nq_head (push_data fd b qo) < nq_cap (push_data fd b qo) \<and> nq_tail (push_data fd b qo) < nq_cap (push_data fd b qo)"
  proof (cases "?h = ring_next ?c ?t")
    case False
    then have e: "push_data fd b qo = q\<lparr>nq_tail := ring_next ?c ?t, nq_queue := ?xs\<rparr>"
      by (simp add: push_data_def q_def [symmetric] nt Let_def)
    show ?thesis using False inv slice ring_len_next_tail [of ?h ?c ?t] ring_next_less [of ?t ?c]
      by (simp add: e np_ring_def)
  next
    case True
    have full: "Suc ?n = ?c" using ring_len_next_tail_full [OF inv(2,3) True [symmetric]] .
    have slice': "ring_slice ?xs ?h ?c = np_ring q @ [Some ?np]" using slice unfolding full .
    have buf: "ring_slice (ring_slice ?xs ?h ?c @ replicate QUEUESIZE None) 0 ?c = ring_slice ?xs ?h ?c"
      using ring_slice_prefix [of "ring_slice ?xs ?h ?c" "replicate QUEUESIZE None"] by simp
    have "map (\<lambda>i. ?xs ! ((?h + i) mod ?c)) [0..<?c] = ring_slice ?xs ?h ?c"
      using ring_slice_full [of ?xs ?h] inv(1) by simp
    then have e: "push_data fd b qo = \<lparr>nq_cap = ?c + QUEUESIZE, nq_head = 0, nq_tail = ?c, nq_hash = nq_hash q,
        nq_queue = ring_slice ?xs ?h ?c @ replicate QUEUESIZE None\<rparr>"
      using True by (simp add: push_data_def q_def [symmetric] nt Let_def np_expand_queue_def)
    have "np_ring (push_data fd b qo) = ring_slice ?xs ?h ?c" unfolding e np_ring_def ring_len_def using buf by simp
    moreover have "Suc (length (np_ring q)) = ?c" using full by (simp add: np_ring_def)
    ultimately show ?thesis using slice' inv(2) by (simp add: e)
  qed
  then show ?thesis using inv(4) con by (simp add: ring_inv_def np_content_def)
qed

lemma lpop_ring:
  assumes "ring_inv qo"
  shows "case np_content qo of
           [] \<Rightarrow> lpop qo = Inr (None, qo)
         | x # xs \<Rightarrow> \<exists>np q'. lpop qo = Inr (Some np, Some q') \<and> (np_id np, np_buffer np) = x \<and>
             np_content (Some q') = xs \<and> ring_inv (Some q') \<and> nq_hash q' = nq_hash (the qo)"
proof (cases qo)
  case (Some q)
  let ?c = "nq_cap q" and ?h = "nq_head q" and ?t = "nq_tail q"
  have inv: "length (nq_queue q) = ?c" "?h < ?c" "?t < ?c" "None \<notin> set (np_ring q)"
    using assms Some by (auto simp: ring_inv_def)
  show ?thesis
  proof (cases "?h = ?t")
    case True
    then show ?thesis using Some by (simp add: lpop_def np_content_def np_ring_def ring_len_def)
  next
    case False
    let ?n = "ring_len ?c (ring_next ?c ?h) ?t"
    have "ring_len ?c ?h ?t = Suc ?n" using ring_len_next_head [of ?h ?c ?t] inv False by simp
    then have r: "np_ring q = nq_queue q ! ?h # ring_slice (nq_queue q) (ring_next ?c ?h) ?n"
      using ring_slice_Cons [of ?h "nq_queue q" ?n] inv by (simp add: np_ring_def)
    then obtain np where np: "nq_queue q ! ?h = Some np" using inv(4) by (cases "nq_queue q ! ?h") auto
    let ?q = "q\<lparr>nq_head := ring_next ?c ?h\<rparr>"
    have "lpop qo = Inr (Some np, Some ?q)"
      using Some False np by (simp add: lpop_def np_slot_def ring_next_def)
    moreover have "np_ring ?q = ring_slice (nq_queue q) (ring_next ?c ?h) ?n" by (simp add: np_ring_def)
    ultimately show ?thesis using r np inv ring_next_less [of ?h ?c] Some
      by (auto simp: np_content_def ring_inv_def)
  qed
qed (simp add: np_content_def lpop_def)

interpretation netring: fifo np_content ring_inv np_enq np_deq
proof unfold_locales
  fix q :: "'z nqueue option" and x
  assume inv: "ring_inv q"
  show "np_content (np_enq x q) = np_content q @ [x]" and "ring_inv (np_enq x q)"
    using push_data_ring [OF inv] by (simp_all add: np_enq_def)
next
  fix q :: "'z nqueue option"
  assume inv: "ring_inv q"
  note p = lpop_ring [OF inv]
  show "np_content q = [] \<Longrightarrow> fst (np_deq q) = None" using p by (simp add: np_deq_def)
  show "np_content q \<noteq> [] \<Longrightarrow> fst (np_deq q) = Some (hd (np_content q))"
    using p by (cases "np_content q") (auto simp: np_deq_def)
  show "np_content (snd (np_deq q)) = tl (np_content q)" using p by (cases "np_content q") (auto simp: np_deq_def)
  show "ring_inv (snd (np_deq q))" using p inv by (cases "np_content q") (auto simp: np_deq_def)
qed

section \<open>The table of unfinished packages\<close>

text \<open>
  The nodes of a bucket have different ids, and these hash to the bucket; each node satisfies
  the invariant \<open>ok\<close> of the library.
\<close>

abbreviation uc_id :: "'z uncomplete_scheme \<Rightarrow> int" where "uc_id uc \<equiv> np_id (uc_pack uc)"

definition table_inv :: "('z uncomplete_scheme \<Rightarrow> bool) \<Rightarrow> 'z nqueue option \<Rightarrow> bool" where
  "table_inv ok qo \<longleftrightarrow> (case qo of None \<Rightarrow> True | Some q \<Rightarrow> length (nq_hash q) = HASHSIZE \<and>
     (\<forall>h < HASHSIZE. distinct (map uc_id (nq_hash q ! h)) \<and>
        (\<forall>uc \<in> set (nq_hash q ! h). hash_fd (uc_id uc) = h \<and> ok uc)))"

definition uc_look :: "'z nqueue option \<Rightarrow> int \<Rightarrow> 'z uncomplete_scheme option" where
  "uc_look qo fd = (case qo of None \<Rightarrow> None | Some q \<Rightarrow> fst (unlink_uc fd (nq_hash q ! hash_fd fd)))"

lemma hash_fd_less [simp]: "hash_fd fd < HASHSIZE"
  by (simp add: hash_fd_def nat_less_iff)

lemma unlink_uc_Some: "fst (unlink_uc fd ucs) = Some uc \<Longrightarrow> uc_id uc = fd \<and> uc \<in> set ucs"
  by (induction ucs) (auto split: if_splits prod.splits)

lemma unlink_uc_None: "fst (unlink_uc fd ucs) = None \<longleftrightarrow> fd \<notin> uc_id ` set ucs"
  by (induction ucs) (auto split: prod.splits)

lemma unlink_uc_rest: "distinct (map uc_id ucs) \<Longrightarrow> snd (unlink_uc fd ucs) = filter (\<lambda>uc. uc_id uc \<noteq> fd) ucs"
proof (induction ucs)
  case (Cons uc ucs)
  have "filter (\<lambda>u. uc_id u \<noteq> fd) ucs = ucs" if "uc_id uc = fd" 
    using Cons.prems that by (intro filter_True) (auto simp: image_iff)
  with Cons show ?case by (auto split: prod.splits)
qed simp

lemma unlink_uc_filter: "fst (unlink_uc fd' (filter (\<lambda>uc. uc_id uc \<noteq> fd) ucs)) = (if fd' = fd then None else fst (unlink_uc fd' ucs))"
  by (induction ucs) (auto split: prod.splits)

lemma find_uncomplete_eq:
  assumes "table_inv ok qo"
  shows "find_uncomplete qo fd = (uc_look qo fd, map_option (\<lambda>q. q\<lparr>nq_hash := (nq_hash q)[hash_fd fd :=
           filter (\<lambda>uc. uc_id uc \<noteq> fd) (nq_hash q ! hash_fd fd)]\<rparr>) qo)"
proof (cases qo)
  case (Some q)
  then have "distinct (map uc_id (nq_hash q ! hash_fd fd))" using assms by (simp add: table_inv_def)
  from unlink_uc_rest [OF this, of fd] Some show ?thesis
    by (cases "unlink_uc fd (nq_hash q ! hash_fd fd)") (simp add: find_uncomplete_def uc_look_def Let_def)
qed (simp add: find_uncomplete_def uc_look_def)

lemma uc_look_ok:
  assumes "table_inv ok qo" "uc_look qo fd = Some uc"
  shows "ok uc \<and> uc_id uc = fd"
proof -
  obtain q where q: "qo = Some q" using assms(2) by (cases qo) (simp_all add: uc_look_def)
  then have "uc_id uc = fd" "uc \<in> set (nq_hash q ! hash_fd fd)"
    using assms(2) unlink_uc_Some [of fd _ uc] by (simp_all add: uc_look_def)
  then show ?thesis using assms(1) hash_fd_less [of fd] unfolding table_inv_def q option.case by blast
qed

lemma close_uncomplete_table:
  assumes "table_inv ok qo"
  shows "table_inv ok (close_uncomplete qo fd) \<and> uc_look (close_uncomplete qo fd) = (uc_look qo)(fd := None)"
proof (cases qo)
  case (Some q)
  have inv: "length (nq_hash q) = HASHSIZE" "\<And>h. h < HASHSIZE \<Longrightarrow> distinct (map uc_id (nq_hash q ! h))"
    "\<And>h uc. h < HASHSIZE \<Longrightarrow> uc \<in> set (nq_hash q ! h) \<Longrightarrow> hash_fd (uc_id uc) = h \<and> ok uc"
    using assms Some by (auto simp: table_inv_def)
  have nth: "(nq_hash q)[hash_fd fd := ucs] ! h = (if h = hash_fd fd then ucs else nq_hash q ! h)" if "h < HASHSIZE" for h ucs
    using that inv(1) by (simp add: nth_list_update)
  have e: "close_uncomplete qo fd = Some (q\<lparr>nq_hash := (nq_hash q)[hash_fd fd :=
      filter (\<lambda>uc. uc_id uc \<noteq> fd) (nq_hash q ! hash_fd fd)]\<rparr>)"
    using find_uncomplete_eq [OF assms, of fd] Some by (simp add: close_uncomplete_def)
  have "table_inv ok (close_uncomplete qo fd)"
    using inv inv(3) [OF hash_fd_less, of _ fd] by (auto simp: e table_inv_def nth distinct_map_filter)
  moreover have "uc_look (close_uncomplete qo fd) fd' = ((uc_look qo)(fd := None)) fd'" for fd'
    unfolding e using Some by (simp add: uc_look_def nth unlink_uc_filter)
  ultimately show ?thesis by blast
qed (simp add: close_uncomplete_def find_uncomplete_def table_inv_def uc_look_def fun_eq_iff)

interpretation unfinished: id_table "table_inv ok" uc_look "\<lambda>fd qo. close_uncomplete qo fd"
  by unfold_locales (simp_all add: close_uncomplete_table)

lemma get_queue_table: "table_inv ok qo \<Longrightarrow> table_inv ok (Some (get_queue qo)) \<and> uc_look (Some (get_queue qo)) = uc_look qo"
  by (auto simp: table_inv_def get_queue_def uc_look_def fun_eq_iff split: option.splits)

lemma save_uncomplete_spec:
  assumes "table_inv ok qo" "uc_look qo (uc_id uc) = None" "ok uc"
  shows "table_inv ok (Some (save_uncomplete uc qo)) \<and>
         uc_look (Some (save_uncomplete uc qo)) = (uc_look qo)(uc_id uc \<mapsto> uc) \<and>
         (ring_inv qo \<longrightarrow> ring_inv (Some (save_uncomplete uc qo)) \<and> np_content (Some (save_uncomplete uc qo)) = np_content qo)"
proof -
  define q where "q = get_queue qo"
  let ?h = "hash_fd (uc_id uc)"
  have inv: "length (nq_hash q) = HASHSIZE" "\<And>h. h < HASHSIZE \<Longrightarrow> distinct (map uc_id (nq_hash q ! h))"
    "\<And>h uc. h < HASHSIZE \<Longrightarrow> uc \<in> set (nq_hash q ! h) \<Longrightarrow> hash_fd (uc_id uc) = h \<and> ok uc"
    and look: "uc_look qo = uc_look (Some q)"
    using get_queue_table [OF assms(1)] by (auto simp: table_inv_def q_def)
  have new: "uc_id uc \<notin> uc_id ` set (nq_hash q ! ?h)"
    using assms(2) unlink_uc_None [of "uc_id uc" "nq_hash q ! ?h"] unfolding look by (simp add: uc_look_def)
  have nth: "(nq_hash q)[?h := ucs] ! h = (if h = ?h then ucs else nq_hash q ! h)" if "h < HASHSIZE" for h ucs
    using that inv(1) by (simp add: nth_list_update)
  have e: "save_uncomplete uc qo = q\<lparr>nq_hash := (nq_hash q)[?h := uc # nq_hash q ! ?h]\<rparr>"
    by (simp add: save_uncomplete_def q_def Let_def)
  have "table_inv ok (Some (save_uncomplete uc qo))"
    using inv inv(3) [OF hash_fd_less, of _ "uc_id uc"] new assms(3) unfolding e by (auto simp: table_inv_def nth)
  moreover have "uc_look (Some (save_uncomplete uc qo)) fd = ((uc_look qo)(uc_id uc \<mapsto> uc)) fd" for fd
    unfolding look by (auto simp: e uc_look_def nth split: prod.splits)
  moreover have "ring_inv (Some (save_uncomplete uc qo)) \<and> np_content (Some (save_uncomplete uc qo)) = np_content qo" if "ring_inv qo"
    using get_queue_ring [OF that] by (simp add: e q_def [symmetric] ring_inv_def np_content_def np_ring_def)
  ultimately show ?thesis by blast
qed

section \<open>What is pending for a connection\<close>

text \<open>
  The state of the decoder of a connection is the abstraction \<open>raw\<close> of its node, or the
  initial state \<open>s0\<close> when there is none.
\<close>

definition pending :: "('z uncomplete_scheme \<Rightarrow> 's) \<Rightarrow> 's \<Rightarrow> 'z nqueue option \<Rightarrow> int \<Rightarrow> 's" where
  "pending raw s0 qo fd = (case uc_look qo fd of None \<Rightarrow> s0 | Some uc \<Rightarrow> raw uc)"

definition np_inv :: "('z uncomplete_scheme \<Rightarrow> bool) \<Rightarrow> 'z nqueue option \<Rightarrow> bool" where
  "np_inv ok qo \<longleftrightarrow> ring_inv qo \<and> table_inv ok qo"

lemma np_inv_None [simp]: "np_inv ok None" "np_content None = []" "pending raw s0 None fd = s0"
  by (simp_all add: np_inv_def ring_inv_def table_inv_def np_content_def pending_def uc_look_def)

lemma push_data_table:
  assumes "table_inv ok qo"
  shows "table_inv ok (Some (push_data fd b qo)) \<and> uc_look (Some (push_data fd b qo)) = uc_look qo"
proof -
  have "nq_hash (push_data fd b qo) = nq_hash (get_queue qo)" by (simp add: push_data_def np_expand_queue_def Let_def)
  then show ?thesis using get_queue_table [OF assms] by (simp add: table_inv_def uc_look_def fun_eq_iff)
qed

lemma push_data_ok:
  assumes "np_inv ok qo"
  shows "np_inv ok (Some (push_data fd b qo)) \<and> np_content (Some (push_data fd b qo)) = np_content qo @ [(fd, b)] \<and>
         pending raw s0 (Some (push_data fd b qo)) = pending raw s0 qo"
  using assms push_data_ring [of qo fd b] push_data_table [of ok qo fd b] by (simp add: np_inv_def pending_def fun_eq_iff)

lemma close_uncomplete_ok:
  assumes "np_inv ok qo"
  shows "np_inv ok (close_uncomplete qo fd) \<and> pending raw s0 (close_uncomplete qo fd) = (pending raw s0 qo)(fd := s0) \<and>
    np_content (close_uncomplete qo fd) = np_content qo \<and> uc_look (close_uncomplete qo fd) fd = None"
proof -
  have "ring_inv (close_uncomplete qo fd) \<and> np_content (close_uncomplete qo fd) = np_content qo"
    using find_uncomplete_eq [of ok qo fd] assms
    by (auto simp: np_inv_def close_uncomplete_def np_content_def ring_inv_def np_ring_def split: option.splits)
  then show ?thesis
    using close_uncomplete_table [of ok qo fd] assms by (auto simp: np_inv_def pending_def fun_eq_iff)
qed

lemma find_uncomplete_ok: "np_inv ok qo \<Longrightarrow> find_uncomplete qo fd = (uc_look qo fd, close_uncomplete qo fd)"
  using find_uncomplete_eq [of ok qo fd] by (simp add: np_inv_def close_uncomplete_def)

section \<open>The interface of a package splitter\<close>

text \<open>
  A call that splits a block leaves the packages in the ring, in order, and the state of the
  decoder in the table. A filter call returns a single package directly.
\<close>

definition split_ok :: "('z uncomplete_scheme \<Rightarrow> bool) \<Rightarrow> ('z uncomplete_scheme \<Rightarrow> 's) \<Rightarrow> 's \<Rightarrow> 'z nqueue option \<Rightarrow> int \<Rightarrow>
    bytes list \<times> 's \<Rightarrow> 'z nqueue option \<Rightarrow> bool" where
  "split_ok ok raw s0 qo fd pr qo' \<longleftrightarrow> np_inv ok qo' \<and> np_content qo' = np_content qo @ map (Pair fd) (fst pr) \<and>
     pending raw s0 qo' = (pending raw s0 qo)(fd := snd pr)"

definition direct :: "filter_result \<Rightarrow> (int \<times> bytes) list" where
  "direct r = (case r of F_data fd p \<Rightarrow> [(fd, p)] | _ \<Rightarrow> [])"

definition filter_ok :: "('z uncomplete_scheme \<Rightarrow> bool) \<Rightarrow> ('z uncomplete_scheme \<Rightarrow> 's) \<Rightarrow> 's \<Rightarrow> 'z nqueue option \<Rightarrow> int \<Rightarrow>
    bytes list \<times> 's \<Rightarrow> (filter_result \<times> 'z nqueue option) res \<Rightarrow> bool" where
  "filter_ok ok raw s0 qo fd pr out \<longleftrightarrow> (\<exists>r qo'. out = Inr (r, qo') \<and> np_inv ok qo' \<and>
     pending raw s0 qo' = (pending raw s0 qo)(fd := snd pr) \<and>
     np_content qo' @ direct r = np_content qo @ map (Pair fd) (fst pr) \<and>
     (r = F_none \<and> fst pr = [] \<or> (\<exists>p. r = F_data fd p \<and> fst pr = [p]) \<or> r = F_more))"

lemma save_uncomplete_ok:
  assumes "np_inv ok qo" "uc_look qo (uc_id uc) = None" "ok uc"
  shows "split_ok ok raw s0 qo (uc_id uc) ([], raw uc) (Some (save_uncomplete uc qo))"
  using assms(1) save_uncomplete_spec [of ok qo uc, OF _ assms(2,3)]
  by (auto simp: split_ok_def np_inv_def pending_def fun_eq_iff)

lemma split_ok_trans:
  assumes "np_content q1 = np_content qo @ map (Pair fd) ps" "\<And>fd'. fd' \<noteq> fd \<Longrightarrow> pending raw s0 q1 fd' = pending raw s0 qo fd'"
    "split_ok ok raw s0 q1 fd (qs, r) q2"
  shows "split_ok ok raw s0 qo fd (ps @ qs, r) q2"
  using assms by (auto simp: split_ok_def fun_eq_iff)

lemma split_ok_push:
  assumes "np_inv ok qo" "uc_look qo fd = None"
  shows "split_ok ok raw s0 qo fd ([p], s0) (Some (push_data fd p qo)) \<and> uc_look (Some (push_data fd p qo)) fd = None"
proof -
  have "pending raw s0 qo fd = s0" using assms(2) by (simp add: pending_def)
  then show ?thesis using push_data_ok [OF assms(1), of fd p raw s0] push_data_table [of ok qo fd p] assms
    by (auto simp: split_ok_def np_inv_def fun_eq_iff)
qed

lemma filter_ok_save:
  assumes "np_inv ok qo" "uc_look qo fd = None" "ok uc" "uc_id uc = fd"
  shows "filter_ok ok raw s0 qo fd ([], raw uc) (Inr (F_none, Some (save_uncomplete uc qo)))"
  using save_uncomplete_ok [of ok qo uc raw s0] assms by (auto simp: filter_ok_def split_ok_def direct_def)

lemma filter_ok_data:
  assumes "np_inv ok qo" "uc_look qo fd = None"
  shows "filter_ok ok raw s0 qo fd ([p], s0) (Inr (F_data fd p, qo))"
  using assms by (auto simp: filter_ok_def direct_def fun_eq_iff pending_def)

lemma filter_ok_more:
  assumes "np_inv ok qo" "pm = Inr qo'" "split_ok ok raw s0 (Some (push_data fd p qo)) fd (ps, r) qo'"
  shows "filter_ok ok raw s0 qo fd (p # ps, r) (res_bind pm (\<lambda>qo. Inr (F_more, qo)))"
  using push_data_ok [OF assms(1), of fd p raw s0] assms(2,3) by (auto simp: filter_ok_def split_ok_def direct_def)

lemma filter_ok_closed:
  assumes "filter_ok ok raw s0 (close_uncomplete qo fd) fd pr out" "np_inv ok qo"
  shows "filter_ok ok raw s0 qo fd pr out"
  using assms(1) close_uncomplete_ok [OF assms(2), of fd raw s0] by (simp add: filter_ok_def)

text \<open>
  A service that uses such a library: it filters the blocks that arrive one after the other,
  takes a package that is returned directly, and empties the queue when there are more.
\<close>

partial_function (option) drain :: "'z nqueue option \<Rightarrow> ((int \<times> bytes) list \<times> 'z nqueue option) run" where
  "drain qo =
     (case lpop qo of
        Inl e \<Rightarrow> Some (Inl e)
      | Inr (None, qo) \<Rightarrow> Some (Inr ([], qo))
      | Inr (Some np, qo) \<Rightarrow>
          Option.bind (drain qo) (\<lambda>r.
            case r of Inl e \<Rightarrow> Some (Inl e) | Inr (ps, qo) \<Rightarrow> Some (Inr ((np_id np, np_buffer np) # ps, qo))))"

definition take_result :: "filter_result \<Rightarrow> 'z nqueue option \<Rightarrow> ((int \<times> bytes) list \<times> 'z nqueue option) run" where
  "take_result r qo =
     (case r of F_data fd p \<Rightarrow> Some (Inr ([(fd, p)], qo)) | F_more \<Rightarrow> drain qo | _ \<Rightarrow> Some (Inr ([], qo)))"

fun serve :: "(int \<Rightarrow> bytes \<Rightarrow> 'z nqueue option \<Rightarrow> (filter_result \<times> 'z nqueue option) res) \<Rightarrow> (int \<times> bytes) list \<Rightarrow>
    'z nqueue option \<Rightarrow> ((int \<times> bytes) list \<times> 'z nqueue option) run" where
  "serve filt [] qo = Some (Inr ([], qo))"
| "serve filt ((fd, b) # bs) qo =
     run_bind (Some (filt fd b qo)) (\<lambda>(r, qo).
     run_bind (take_result r qo) (\<lambda>(ps, qo).
     run_bind (serve filt bs qo) (\<lambda>(qs, qo). Some (Inr (ps @ qs, qo)))))"

text \<open>The bytes of one connection, and the packages of one connection.\<close>

definition stream_of :: "int \<Rightarrow> (int \<times> bytes) list \<Rightarrow> bytes" where
  "stream_of fd bs = concat (map snd (filter (\<lambda>x. fst x = fd) bs))"

definition packages_of :: "int \<Rightarrow> (int \<times> bytes) list \<Rightarrow> bytes list" where
  "packages_of fd ps = map snd (filter (\<lambda>x. fst x = fd) ps)"

lemma drain_spec:
  assumes "np_inv ok qo"
  shows "\<exists>qo'. drain qo = Some (Inr (np_content qo, qo')) \<and> np_inv ok qo' \<and> np_content qo' = [] \<and>
    pending raw s0 qo' = pending raw s0 qo"
  using assms
proof (induction "np_content qo" arbitrary: qo)
  case Nil
  then have "lpop qo = Inr (None, qo)" using lpop_ring [of qo] by (simp add: np_inv_def split: list.splits)
  with Nil show ?case by (simp add: drain.simps)
next
  case (Cons x xs)
  from lpop_ring [of qo] obtain np q where p: "lpop qo = Inr (Some np, Some q)" "(np_id np, np_buffer np) = x"
    "np_content (Some q) = xs" "ring_inv (Some q)" "nq_hash q = nq_hash (the qo)"
    using Cons.hyps(2) Cons.prems by (auto simp: np_inv_def split: list.splits)
  obtain q0 where q0: "qo = Some q0" using Cons.hyps(2) by (cases qo) (simp_all add: np_content_def)
  have q: "np_inv ok (Some q)" "pending raw s0 (Some q) = pending raw s0 qo"
    using p(4,5) q0 Cons.prems by (auto simp: np_inv_def table_inv_def pending_def uc_look_def fun_eq_iff)
  with Cons.hyps(1) [of "Some q"] p(3) obtain qo' where
    "drain (Some q) = Some (Inr (xs, qo')) \<and> np_inv ok qo' \<and> np_content qo' = [] \<and> pending raw s0 qo' = pending raw s0 qo" by auto
  then show ?case using p(1,2) Cons.hyps(2) by (simp add: drain.simps [of qo])
qed

text \<open>
  The contract: a decoder \<open>feed\<close> consumes bytes and gives packages and a new state, or nothing
  on a stream that the library does not accept; the filter does on each block what the decoder
  does.
\<close>

locale splitter =
  fixes ok :: "'z uncomplete_scheme \<Rightarrow> bool"
    and raw :: "'z uncomplete_scheme \<Rightarrow> 's"
    and s0 :: 's
    and filt :: "int \<Rightarrow> bytes \<Rightarrow> 'z nqueue option \<Rightarrow> (filter_result \<times> 'z nqueue option) res"
    and feed :: "'s \<Rightarrow> bytes \<Rightarrow> (bytes list \<times> 's) option"
  assumes feed_initial: "feed s0 [] = Some ([], s0)"
    and feed_nothing: "ok uc \<Longrightarrow> feed (raw uc) [] = Some ([], raw uc)"
    and feed_append: "feed s (a @ b) = Option.bind (feed s a) (\<lambda>(ps, s'). map_option (\<lambda>(qs, s''). (ps @ qs, s'')) (feed s' b))"
    and filt_feed: "np_inv ok qo \<Longrightarrow> b \<noteq> [] \<Longrightarrow> feed (pending raw s0 qo fd) b = Some pr \<Longrightarrow>
      filter_ok ok raw s0 qo fd pr (filt fd b qo)"
begin

lemma feed_pending_nothing: "np_inv ok qo \<Longrightarrow> feed (pending raw s0 qo fd) [] = Some ([], pending raw s0 qo fd)"
  using uc_look_ok [of ok qo fd] by (auto simp: pending_def np_inv_def feed_initial feed_nothing split: option.splits)

lemma serve_block:
  assumes "np_inv ok qo" "np_content qo = []" "b \<noteq> []" "feed (pending raw s0 qo fd) b = Some (ps, s)"
  shows "\<exists>r q1 qo'. filt fd b qo = Inr (r, q1) \<and> take_result r q1 = Some (Inr (map (Pair fd) ps, qo')) \<and>
    np_inv ok qo' \<and> np_content qo' = [] \<and> pending raw s0 qo' = (pending raw s0 qo)(fd := s)"
proof -
  obtain r q1 where f: "filt fd b qo = Inr (r, q1)" "np_inv ok q1" "pending raw s0 q1 = (pending raw s0 qo)(fd := s)"
    "np_content q1 @ direct r = map (Pair fd) ps" "r = F_none \<and> ps = [] \<or> (\<exists>p. r = F_data fd p \<and> ps = [p]) \<or> r = F_more"
    using filt_feed [OF assms(1,3,4)] assms(2) unfolding filter_ok_def by auto
  from f(5) have "\<exists>qo'. take_result r q1 = Some (Inr (map (Pair fd) ps, qo')) \<and> np_inv ok qo' \<and>
      np_content qo' = [] \<and> pending raw s0 qo' = pending raw s0 q1"
    using f(2,4) drain_spec [OF f(2)] by (auto simp: take_result_def direct_def)
  with f(1,3) show ?thesis by fastforce
qed

theorem serve_feeds:
  assumes "np_inv ok qo" "np_content qo = []" "\<forall>(fd, b) \<in> set bs. b \<noteq> []"
    "\<forall>fd. feed (pending raw s0 qo fd) (stream_of fd bs) \<noteq> None"
  shows "\<exists>out qo'. serve filt bs qo = Some (Inr (out, qo')) \<and> np_inv ok qo' \<and> np_content qo' = [] \<and>
    (\<forall>fd. feed (pending raw s0 qo fd) (stream_of fd bs) = Some (packages_of fd out, pending raw s0 qo' fd))"
  using assms
proof (induction bs arbitrary: qo)
  case Nil
  then show ?case by (simp add: packages_of_def stream_of_def feed_pending_nothing)
next
  case (Cons x bs)
  obtain fd b where x: "x = (fd, b)" by fastforce
  have str: "stream_of k (x # bs) = (if k = fd then b @ stream_of fd bs else stream_of k bs)" for k
    by (simp add: stream_of_def x)
  obtain ps s where fb: "feed (pending raw s0 qo fd) b = Some (ps, s)"
    using Cons.prems(4) [rule_format, of fd] by (cases "feed (pending raw s0 qo fd) b") (auto simp: str feed_append)
  from serve_block [OF Cons.prems(1,2) _ fb] Cons.prems(3) x obtain r q1 q2 where
    st: "filt fd b qo = Inr (r, q1)" "take_result r q1 = Some (Inr (map (Pair fd) ps, q2))" "np_inv ok q2"
    "np_content q2 = []" "pending raw s0 q2 = (pending raw s0 qo)(fd := s)" by auto
  have "feed (pending raw s0 q2 k) (stream_of k bs) \<noteq> None" for k
    using Cons.prems(4) [rule_format, of k] fb by (auto simp: st(5) str feed_append split: if_splits)
  with Cons.IH [OF st(3,4)] Cons.prems(3) obtain out qo' where
    out: "serve filt bs q2 = Some (Inr (out, qo'))" "np_inv ok qo'" "np_content qo' = []"
    "\<And>k. feed (pending raw s0 q2 k) (stream_of k bs) = Some (packages_of k out, pending raw s0 qo' k)" by auto
  have "feed (pending raw s0 qo k) (stream_of k (x # bs)) = Some (packages_of k (map (Pair fd) ps @ out), pending raw s0 qo' k)" for k
    using out(4) [of k] fb by (auto simp: st(5) str feed_append packages_of_def comp_def filter_map)
  then show ?case using st(1,2) out(1-3) x by (intro exI [of _ "map (Pair fd) ps @ out"] exI [of _ qo']) simp
qed

end

section \<open>Clearing\<close>

text \<open>The buffers the library owns: those of the unfinished packages and those in the queue.\<close>

lemma free_packs_eq:
  "\<forall>i \<in> set is. nq_queue q ! (i mod nq_cap q) \<noteq> None \<Longrightarrow>
   free_packs q is = Inr (map (\<lambda>i. np_buffer (the (nq_queue q ! (i mod nq_cap q)))) is)"
  by (induction "is") (auto simp: np_slot_def)

lemma lclear_spec:
  assumes "np_inv ok (Some q)"
  shows "\<exists>q'. lclear (Some q) = Inr (Some q', concat (map clear_list (nq_hash q)) @ map snd (np_content (Some q))) \<and>
           np_inv ok (Some q') \<and> np_content (Some q') = [] \<and> (\<forall>fd. pending raw s0 (Some q') fd = s0)"
proof -
  let ?h = "nq_head q" and ?c = "nq_cap q" and ?n = "ring_len (nq_cap q) (nq_head q) (nq_tail q)"
  have inv: "length (nq_queue q) = ?c" "?h < ?c" "nq_tail q < ?c" "None \<notin> set (np_ring q)"
    using assms by (auto simp: np_inv_def ring_inv_def)
  have tail: "(if ?h > nq_tail q then nq_tail q + ?c else nq_tail q) = ?n + ?h" using inv by (auto simp: ring_len_def)
  have idx: "[?h..<?n + ?h] = map (\<lambda>i. i + ?h) [0..<?n]" using map_add_upt [of ?h ?n] by simp
  have ring: "np_ring q = map (\<lambda>i. nq_queue q ! (i mod ?c)) [?h..<?n + ?h]"
    unfolding idx np_ring_def ring_slice_def using inv(1) by (simp add: add.commute)
  have "\<forall>i \<in> set [?h..<?n + ?h]. nq_queue q ! (i mod ?c) \<noteq> None"
    using inv(4) unfolding ring set_map by force
  then have free: "free_packs q [?h..<?n + ?h] = Inr (map snd (np_content (Some q)))"
    using free_packs_eq [of "[?h..<?n + ?h]" q] by (simp add: np_content_def ring)
  let ?q = "q\<lparr>nq_hash := replicate HASHSIZE [], nq_head := 0, nq_tail := 0\<rparr>"
  have "lclear (Some q) = Inr (Some ?q, concat (map clear_list (nq_hash q)) @ map snd (np_content (Some q)))"
    using free tail by (simp add: lclear_def Let_def)
  moreover have "np_inv ok (Some ?q) \<and> np_content (Some ?q) = [] \<and> (\<forall>fd. pending raw s0 (Some ?q) fd = s0)"
    using inv by (simp add: np_inv_def ring_inv_def table_inv_def np_content_def np_ring_def ring_len_def pending_def uc_look_def)
  ultimately show ?thesis by blast
qed


end
