(* ===== verification/Netpack.thy ===== *)
theory Netpack
  imports PackQueue
begin

text \<open>
  The package splitter that Lua gates use, \<open>lualib-src/lua-netpack.c\<close>: packages with a
  two-byte length. The queue and the table are those of \<open>PackQueue\<close>; the node of an unfinished
  package has the first byte of a length field as its own field. The filter is an instance of
  the contract of a package splitter, with the parser of the whole stream as the decoder.
\<close>

section \<open>Data and operations\<close>

record np_uncomplete = uncomplete +
  uc_header :: u8

type_synonym np_queue = "\<lparr>uc_header :: u8\<rparr> nqueue option"

definition read_size :: "u8 \<Rightarrow> u8 \<Rightarrow> nat" where
  "read_size b0 b1 = unat (push_bit 8 (ucast b0) OR ucast b1 :: c_int)"

text \<open>The node for a connection of which one byte of a length, or a part of a package, is there.\<close>

definition uc_one :: "int \<Rightarrow> u8 \<Rightarrow> np_uncomplete" where
  "uc_one fd b = \<lparr>uc_pack = \<lparr>np_id = fd, np_size = 0, np_buffer = []\<rparr>, uc_read = -1, uc_header = b\<rparr>"

definition uc_part :: "int \<Rightarrow> nat \<Rightarrow> bytes \<Rightarrow> np_uncomplete" where
  "uc_part fd pack_size b =
     \<lparr>uc_pack = \<lparr>np_id = fd, np_size = pack_size, np_buffer = b\<rparr>, uc_read = int (length b), uc_header = 0\<rparr>"

fun push_more :: "int \<Rightarrow> bytes \<Rightarrow> np_queue \<Rightarrow> np_queue res" where
  "push_more fd [] qo = Inl (Out_of_bounds ''push_more'')"
| "push_more fd [b] qo = Inr (Some (save_uncomplete (uc_one fd b) qo))"
| "push_more fd (b0 # b1 # buffer) qo =
     (let pack_size = read_size b0 b1 in
      if length buffer < pack_size then Inr (Some (save_uncomplete (uc_part fd pack_size buffer) qo))
      else
        let q = Some (push_data fd (take pack_size buffer) qo); rest = drop pack_size buffer in
        if rest \<noteq> [] then push_more fd rest q else Inr q)"

text \<open>The part of \<open>filter_data\<close> that fills an unfinished package.\<close>

definition fill_uncomplete :: "int \<Rightarrow> np_uncomplete \<Rightarrow> bytes \<Rightarrow> np_queue \<Rightarrow> (filter_result \<times> np_queue) res" where
  "fill_uncomplete fd uc buffer qo =
     (let need = np_size (uc_pack uc) - nat (uc_read uc); np = uc_pack uc in
      if length buffer < need then
        Inr (F_none, Some (save_uncomplete (uc\<lparr>uc_pack := np\<lparr>np_buffer := np_buffer np @ buffer\<rparr>,
                                               uc_read := uc_read uc + int (length buffer)\<rparr>) qo))
      else
        let pack = np_buffer np @ take need buffer; rest = drop need buffer in
        if rest = [] then Inr (F_data fd pack, qo)
        else res_bind (push_more fd rest (Some (push_data fd pack qo))) (\<lambda>qo. Inr (F_more, qo)))"

definition filter_data :: "int \<Rightarrow> bytes \<Rightarrow> np_queue \<Rightarrow> (filter_result \<times> np_queue) res" where
  "filter_data fd buffer qo =
     (case find_uncomplete qo fd of
        (Some uc, qo) \<Rightarrow>
          if uc_read uc < 0 then
            res_assert ''filter_data'' (uc_read uc = -1)
              (case buffer of
                 [] \<Rightarrow> Inl (Out_of_bounds ''filter_data'')
               | b # buffer \<Rightarrow>
                   let pack_size = unat (ucast b OR push_bit 8 (ucast (uc_header uc)) :: c_int) in
                   fill_uncomplete fd (uc\<lparr>uc_pack := (uc_pack uc)\<lparr>np_size := pack_size, np_buffer := []\<rparr>, uc_read := 0\<rparr>)
                     buffer qo)
          else fill_uncomplete fd uc buffer qo
      | (None, qo) \<Rightarrow>
          (case buffer of
             [] \<Rightarrow> Inl (Out_of_bounds ''filter_data'')
           | [b] \<Rightarrow> Inr (F_none, Some (save_uncomplete (uc_one fd b) qo))
           | b0 # b1 # buffer \<Rightarrow>
               let pack_size = read_size b0 b1 in
               if length buffer < pack_size then
                 Inr (F_none, Some (save_uncomplete (uc_part fd pack_size buffer) qo))
               else if length buffer = pack_size then Inr (F_data fd buffer, qo)
               else
                 let qo = Some (push_data fd (take pack_size buffer) qo) in
                 res_bind (push_more fd (drop pack_size buffer) qo) (\<lambda>qo. Inr (F_more, qo))))"

text \<open>\<open>lfilter\<close> on a \<open>struct skynet_socket_message\<close> followed by \<open>tail\<close>.\<close>

definition lfilter ::
  "int \<Rightarrow> int \<Rightarrow> int \<Rightarrow> bytes option \<Rightarrow> bytes \<Rightarrow> np_queue \<Rightarrow> (filter_result \<times> np_queue) res" where
  "lfilter type sid ud buffer tail qo =
     (if type = SKYNET_SOCKET_TYPE_DATA then
        (case buffer of
           None \<Rightarrow> Inl (Assert_fail ''lfilter'')
         | Some data \<Rightarrow> filter_data sid (take (nat ud) data) qo)
      else if type = SKYNET_SOCKET_TYPE_CONNECT then Inr (F_none, qo)
      else if type = SKYNET_SOCKET_TYPE_CLOSE then Inr (F_close sid, close_uncomplete qo sid)
      else if type = SKYNET_SOCKET_TYPE_ACCEPT then
        res_bind (pushstring buffer tail) (\<lambda>s. Inr (F_open ud s, qo))
      else if type = SKYNET_SOCKET_TYPE_ERROR then
        res_bind (pushstring buffer tail) (\<lambda>s. Inr (F_error sid s, close_uncomplete qo sid))
      else if type = SKYNET_SOCKET_TYPE_WARNING then Inr (F_warning sid ud, qo)
      else Inr (F_none, qo))"

definition write_size :: "nat \<Rightarrow> bytes" where
  "write_size len = [of_nat (drop_bit 8 len AND 0xff), of_nat (len AND 0xff)]"

definition lpack :: "bytes \<Rightarrow> (string + bytes)" where
  "lpack ptr =
     (if length ptr \<ge> 0x10000 then Inl (''Invalid size (too long) of data : '' @ fmt_d (int (length ptr)))
      else Inr (write_size (length ptr) @ ptr))"

section \<open>Splitting a stream\<close>

text \<open>The reference: the packages of a stream and the bytes that are left over.\<close>

fun np_parse :: "bytes \<Rightarrow> bytes list \<times> bytes" where
  "np_parse [] = ([], [])"
| "np_parse [b] = ([], [b])"
| "np_parse (b0 # b1 # c) =
     (let n = read_size b0 b1 in
      if length c < n then ([], b0 # b1 # c)
      else case np_parse (drop n c) of (ps, r) \<Rightarrow> (take n c # ps, r))"

text \<open>
  A node holds one byte of a length field, or a package that is not complete; it stands for
  the bytes of the unfinished package.
\<close>

definition uc_ok :: "np_uncomplete \<Rightarrow> bool" where
  "uc_ok uc \<longleftrightarrow> (uc_read uc = -1 \<and> np_buffer (uc_pack uc) = []) \<or>
     (uc_read uc = int (length (np_buffer (uc_pack uc))) \<and> length (np_buffer (uc_pack uc)) < np_size (uc_pack uc) \<and>
      np_size (uc_pack uc) < 65536)"

definition uc_raw :: "np_uncomplete \<Rightarrow> bytes" where
  "uc_raw uc = (if uc_read uc < 0 then [uc_header uc] else write_size (np_size (uc_pack uc)) @ np_buffer (uc_pack uc))"

lemma read_size_eq: "read_size b0 b1 = 256 * unat b0 + unat b1"
  using be_word2 [of b0 b1] unfolding read_size_def uint_nat by linarith

lemma read_size_less: "read_size b0 b1 < 65536"
  using read_size_eq [of b0 b1] unat_u8_lt [of b0] unat_u8_lt [of b1] by simp

lemma and_255_nat: "(n :: nat) AND 255 = n mod 256"
  using take_bit_eq_mask [of 8 n] by (simp add: mask_eq_exp_minus_1 take_bit_eq_mod)

lemma write_size_eq: "write_size n = [of_nat (n div 256 mod 256), of_nat (n mod 256)]"
  by (simp add: write_size_def and_255_nat drop_bit_eq_div)

lemma write_read_size: "write_size (read_size b0 b1) = [b0, b1]"
  using unat_u8_lt [of b0] unat_u8_lt [of b1] by (simp add: write_size_eq read_size_eq)

lemma np_parse_write_size:
  assumes "n < 65536"
  shows "np_parse (write_size n @ c) =
    (if length c < n then ([], write_size n @ c) else (case np_parse (drop n c) of (ps, r) \<Rightarrow> (take n c # ps, r)))"
proof -
  have "n div 256 mod 256 < 256" "n mod 256 < 256" "n div 256 < 256" using assms by (simp_all add: less_mult_imp_div_less)
  then have "read_size (of_nat (n div 256 mod 256)) (of_nat (n mod 256)) = n"
    by (simp add: read_size_eq unsigned_of_nat take_bit_nat_eq_self)
  then show ?thesis by (simp add: write_size_eq)
qed

lemma np_parse_append:
  "np_parse (a @ d) = (case np_parse a of (ps, r) \<Rightarrow> case np_parse (r @ d) of (qs, s) \<Rightarrow> (ps @ qs, s))"
proof (induction a rule: np_parse.induct)
  case (3 b0 b1 c)
  let ?n = "read_size b0 b1"
  show ?case
  proof (cases "length c < ?n")
    case True
    then show ?thesis by (simp split: prod.splits)
  next
    case False
    then have n: "\<not> length (c @ d) < ?n" by simp
    show ?thesis using 3 [OF refl False] n False
      by (auto simp: Let_def split: prod.splits)
  qed
qed (simp_all split: prod.splits)

lemma uc_one_ok [simp]: "uc_ok (uc_one fd b)" "uc_raw (uc_one fd b) = [b]" "uc_id (uc_one fd b) = fd"
  by (simp_all add: uc_one_def uc_ok_def uc_raw_def)

lemma uc_part_ok [simp]:
  "uc_id (uc_part fd n b) = fd" "uc_raw (uc_part fd n b) = write_size n @ b"
  "uc_ok (uc_part fd n b) \<longleftrightarrow> length b < n \<and> n < 65536"
  by (auto simp: uc_part_def uc_ok_def uc_raw_def)


lemmas np_save = save_uncomplete_ok [where ok = uc_ok and raw = uc_raw and ?s0.0 = "[]"]
  filter_ok_save [where ok = uc_ok and raw = uc_raw and ?s0.0 = "[]"]

lemma push_more_ok:
  assumes "np_inv uc_ok qo" "uc_look qo fd = None" "b \<noteq> []"
  shows "\<exists>qo'. push_more fd b qo = Inr qo' \<and> split_ok uc_ok uc_raw [] qo fd (np_parse b) qo'"
  using assms
proof (induction fd b qo rule: push_more.induct)
  case (2 fd b qo)
  then show ?case using np_save(1) [of qo "uc_one fd b"] by simp
next
  case (3 fd b0 b1 buffer qo)
  let ?n = "read_size b0 b1"
  show ?case
  proof (cases "length buffer < ?n")
    case True
    then show ?thesis using 3 np_save(1) [of qo "uc_part fd ?n buffer"] read_size_less [of b0 b1]
      by (simp add: write_read_size)
  next
    case False
    let ?q = "Some (push_data fd (take ?n buffer) qo)"
    have q: "split_ok uc_ok uc_raw [] qo fd ([take ?n buffer], []) ?q" "uc_look ?q fd = None"
      using split_ok_push [OF "3.prems"(1,2), of uc_raw "[]"] by blast+
    show ?thesis
    proof (cases "drop ?n buffer = []")
      case True
      then show ?thesis using False q by auto
    next
      case ne: False
      have "np_inv uc_ok ?q" using q(1) by (simp add: split_ok_def)
      with "3.IH" [OF refl False refl refl ne _ q(2) ne] obtain qo' where
        qo': "push_more fd (drop ?n buffer) ?q = Inr qo'" "split_ok uc_ok uc_raw [] ?q fd (np_parse (drop ?n buffer)) qo'" by auto
      then show ?thesis using False ne q(1) split_ok_trans [of ?q qo fd "[take ?n buffer]" uc_raw "[]"]
        by (cases "np_parse (drop ?n buffer)") (auto simp: split_ok_def)
    qed
  qed
qed simp

lemma filter_ok_rest:
  assumes "np_inv uc_ok qo" "uc_look qo fd = None" "b \<noteq> []" "np_parse b = (ps, r)"
  shows "filter_ok uc_ok uc_raw [] qo fd (p # ps, r) (res_bind (push_more fd b (Some (push_data fd p qo))) (\<lambda>qo. Inr (F_more, qo)))"
proof -
  have q: "np_inv uc_ok (Some (push_data fd p qo))" "uc_look (Some (push_data fd p qo)) fd = None"
    using split_ok_push [OF assms(1,2), of uc_raw "[]" p] by (simp_all add: split_ok_def)
  then show ?thesis using push_more_ok [OF q assms(3)] filter_ok_more [OF assms(1)] assms(4) by auto
qed

lemma fill_uncomplete_ok:
  assumes inv: "np_inv uc_ok qo" "uc_look qo fd = None" and uc: "uc_id uc = fd" "uc_read uc = int (length (np_buffer (uc_pack uc)))"
    "length (np_buffer (uc_pack uc)) \<le> np_size (uc_pack uc)" "np_size (uc_pack uc) < 65536"
  shows "filter_ok uc_ok uc_raw [] qo fd (np_parse (write_size (np_size (uc_pack uc)) @ np_buffer (uc_pack uc) @ buffer))
           (fill_uncomplete fd uc buffer qo)"
proof -
  let ?np = "uc_pack uc" and ?need = "np_size (uc_pack uc) - length (np_buffer (uc_pack uc))"
  let ?uc = "uc\<lparr>uc_pack := ?np\<lparr>np_buffer := np_buffer ?np @ buffer\<rparr>, uc_read := uc_read uc + int (length buffer)\<rparr>"
  note pr = np_parse_write_size [OF uc(4), of "np_buffer ?np @ buffer"]
  show ?thesis
  proof (cases "length buffer < ?need")
    case True
    then have "uc_ok ?uc" "uc_raw ?uc = write_size (np_size ?np) @ np_buffer ?np @ buffer"
      using uc by (simp_all add: uc_ok_def uc_raw_def)
    moreover have "length (np_buffer ?np @ buffer) < np_size ?np" using True uc(3) by simp
    ultimately show ?thesis using np_save(2) [OF inv, of ?uc] True uc unfolding pr
      by (simp add: fill_uncomplete_def Let_def)
  next
    case False
    let ?pack = "np_buffer ?np @ take ?need buffer" and ?rest = "drop ?need buffer"
    have pr': "np_parse (write_size (np_size ?np) @ np_buffer ?np @ buffer) = (case np_parse ?rest of (ps, r) \<Rightarrow> (?pack # ps, r))"
    proof -
      have "\<not> length (np_buffer ?np @ buffer) < np_size ?np" using False uc(3) by simp
      then show ?thesis using uc(3) unfolding pr by simp
    qed
    have run: "fill_uncomplete fd uc buffer qo = (if ?rest = [] then Inr (F_data fd ?pack, qo)
        else res_bind (push_more fd ?rest (Some (push_data fd ?pack qo))) (\<lambda>qo. Inr (F_more, qo)))"
      using False uc(2) by (simp add: fill_uncomplete_def Let_def)
    show ?thesis
    proof (cases "?rest = []")
      case True
      then show ?thesis unfolding pr' run True using filter_ok_data [OF inv] by simp
    next
      case ne: False
      show ?thesis unfolding pr' run using ne filter_ok_rest [OF inv ne] by (cases "np_parse ?rest") simp
    qed
  qed
qed

lemma filter_data_spec:
  assumes inv: "np_inv uc_ok qo" and b: "buffer \<noteq> []"
  shows "filter_ok uc_ok uc_raw [] qo fd (np_parse (pending uc_raw [] qo fd @ buffer)) (filter_data fd buffer qo)"
proof -
  let ?q = "close_uncomplete qo fd"
  have find: "find_uncomplete qo fd = (uc_look qo fd, ?q)"
    using find_uncomplete_ok [OF inv] .
  have q: "np_inv uc_ok ?q" "uc_look ?q fd = None" using close_uncomplete_ok [OF inv, of fd uc_raw "[]"] by auto
  have "filter_ok uc_ok uc_raw [] ?q fd (np_parse (pending uc_raw [] qo fd @ buffer)) (filter_data fd buffer qo)"
  proof (cases "uc_look qo fd")
    case None
    then have p: "pending uc_raw [] qo fd = []" by (simp add: pending_def)
    show ?thesis
    proof (cases buffer rule: np_parse.cases)
      case 1
      with b show ?thesis by simp
    next
      case (2 b0)
      then show ?thesis using None find p np_save(2) [OF q, of "uc_one fd b0"] by (simp add: filter_data_def)
    next
      case many: (3 b0 b1 c)
      let ?n = "read_size b0 b1"
      consider "length c < ?n" | "length c = ?n" | "?n < length c" by linarith
      then show ?thesis
      proof cases
        case 1
        then show ?thesis using many None find p np_save(2) [OF q, of "uc_part fd ?n c"] read_size_less [of b0 b1]
          by (simp add: filter_data_def write_read_size)
      next
        case 2
        then show ?thesis using many None find p filter_ok_data [OF q] by (simp add: filter_data_def)
      next
        case 3
        then have "drop ?n c \<noteq> []" by simp
        from filter_ok_rest [OF q this] 3 show ?thesis using many None find p
          by (cases "np_parse (drop ?n c)") (simp add: filter_data_def Let_def)
      qed
    qed
  next
    case (Some uc)
    have uc: "uc_ok uc" "uc_id uc = fd" using uc_look_ok [OF _ Some] inv by (auto simp: np_inv_def)
    have p: "pending uc_raw [] qo fd = uc_raw uc" using Some by (simp add: pending_def)
    show ?thesis
    proof (cases "uc_read uc < 0")
      case True
      then have r: "uc_read uc = -1" using uc(1) by (auto simp: uc_ok_def)
      obtain b0 c where bc: "buffer = b0 # c" using b by (cases buffer) auto
      let ?n = "read_size (uc_header uc) b0"
      let ?uc = "uc\<lparr>uc_pack := (uc_pack uc)\<lparr>np_size := ?n, np_buffer := []\<rparr>, uc_read := 0\<rparr>"
      have n: "unat (ucast b0 OR push_bit 8 (ucast (uc_header uc)) :: c_int) = ?n" by (simp add: read_size_def or.commute)
      have "filter_ok uc_ok uc_raw [] ?q fd (np_parse (write_size ?n @ c)) (fill_uncomplete fd ?uc c ?q)"
        using fill_uncomplete_ok [OF q, of ?uc c] uc(2) read_size_less [of "uc_header uc" b0] by simp
      then show ?thesis using Some find r bc p n True by (simp add: filter_data_def uc_raw_def write_read_size)
    next
      case False
      then show ?thesis using fill_uncomplete_ok [OF q, of uc buffer] uc p Some find
        by (simp add: filter_data_def uc_raw_def uc_ok_def)
    qed
  qed
  from filter_ok_closed [OF this inv] show ?thesis .
qed

text \<open>The contract of a splitter, with the blocks of socket messages as input.\<close>

definition np_block :: "int \<Rightarrow> bytes \<Rightarrow> np_queue \<Rightarrow> (filter_result \<times> np_queue) res" where
  "np_block fd b qo = lfilter SKYNET_SOCKET_TYPE_DATA fd (int (length b)) (Some b) [] qo"

lemma np_block_eq: "np_block fd b = filter_data fd b"
  by (simp add: np_block_def lfilter_def fun_eq_iff)

interpretation netpack: splitter uc_ok uc_raw "[]" np_block "\<lambda>s b. Some (np_parse (s @ b))"
proof unfold_locales
  fix uc assume "uc_ok uc"
  then show "Some (np_parse (uc_raw uc @ [])) = Some ([], uc_raw uc)"
    using np_parse_write_size [of "np_size (uc_pack uc)" "np_buffer (uc_pack uc)"] by (auto simp: uc_raw_def uc_ok_def)
next
  fix qo b fd pr
  assume "np_inv uc_ok qo" "b \<noteq> []" "Some (np_parse (pending uc_raw [] qo fd @ b)) = Some pr"
  then show "filter_ok uc_ok uc_raw [] qo fd pr (np_block fd b qo)"
    using filter_data_spec [of qo b fd] by (simp add: np_block_eq)
next
  fix s a b :: bytes
  show "Some (np_parse (s @ a @ b)) = Option.bind (Some (np_parse (s @ a)))
      (\<lambda>(ps, s'). map_option (\<lambda>(qs, s''). (ps @ qs, s'')) (Some (np_parse (s' @ b))))"
    using np_parse_append [of "s @ a" b] by (simp split: prod.splits)
qed simp

section \<open>Properties\<close>

abbreviation np_pending :: "np_queue \<Rightarrow> int \<Rightarrow> bytes" where "np_pending \<equiv> pending uc_raw []"

text \<open>
  C9: however the blocks of several connections are cut and interleaved, the service gets
  for every connection exactly the packages of its byte stream, in order, and what is kept for
  the connection is the unfinished rest. The library never runs into its assertions or out of
  its buffers and the loop that empties the queue ends.
\<close>

theorem netpack_fragmentation:
  assumes "np_inv uc_ok qo" "np_content qo = []" "\<forall>(fd, b) \<in> set bs. b \<noteq> []"
  shows "\<exists>out qo'. serve np_block bs qo = Some (Inr (out, qo')) \<and> np_inv uc_ok qo' \<and>
    (\<forall>fd. packages_of fd out = fst (np_parse (np_pending qo fd @ stream_of fd bs)) \<and>
          np_pending qo' fd = snd (np_parse (np_pending qo fd @ stream_of fd bs)))"
  using netpack.serve_feeds [OF assms] by fastforce

theorem netpack_fragmentation_witness:
  "\<exists>out qo'. serve np_block [(7, [0]), (9, [0, 2, 65]), (7, [1, 80, 0]), (9, [66])] None = Some (Inr (out, qo')) \<and>
     packages_of 7 out = [[80]] \<and> packages_of 9 out = [[65, 66]]"
proof -
  have "read_size 0 1 = 1" "read_size 0 2 = 2" by (simp_all add: read_size_eq)
  then have "fst (np_parse [0, 1, 80, 0]) = [[80]]" "fst (np_parse [0, 2, 65, 66]) = [[65, 66]]" by simp_all
  moreover have "stream_of 7 [(7, [0]), (9, [0, 2, 65]), (7, [1, 80, 0]), (9, [66])] = [0, 1, 80, 0]"
    "stream_of 9 [(7, [0]), (9, [0, 2, 65]), (7, [1, 80, 0]), (9, [66])] = [0, 2, 65, 66]"
    by (simp_all add: stream_of_def)
  ultimately show ?thesis
    using netpack_fragmentation [of None "[(7, [0]), (9, [0, 2, 65]), (7, [1, 80, 0]), (9, [66])]"] by fastforce
qed

lemma np_parse_packed:
  assumes "map lpack ps = map Inr ws"
  shows "np_parse (concat ws) = (ps, [])"
  using assms
proof (induction ps arbitrary: ws)
  case (Cons p ps)
  then obtain w ws' where w: "ws = w # ws'" "lpack p = Inr w" "map lpack ps = map Inr ws'" by (cases ws) auto
  have "length p < 65536" "w = write_size (length p) @ p" using w(2) by (auto simp: lpack_def split: if_splits)
  then show ?case using Cons.IH [OF w(3)] w(1) np_parse_write_size [of "length p" "p @ concat ws'"] by simp
qed simp

text \<open>
  What one side packs, the other side gets back: if the bytes of a connection are the
  results of packing a list of messages, whatever the blocks they arrive in and whatever the
  other connections send, the service gets these messages and nothing is left pending.
\<close>

theorem netpack_roundtrip:
  assumes "\<forall>(fd, b) \<in> set bs. b \<noteq> []" "map lpack ps = map Inr ws" "stream_of fd bs = concat ws"
  shows "\<exists>out qo'. serve np_block bs None = Some (Inr (out, qo')) \<and> packages_of fd out = ps \<and> np_pending qo' fd = []"
proof -
  obtain out qo' where "serve np_block bs None = Some (Inr (out, qo'))"
    "\<And>fd. Some (np_parse (np_pending None fd @ stream_of fd bs)) = Some (packages_of fd out, np_pending qo' fd)"
    using netpack.serve_feeds [OF _ _ assms(1), of None] by auto
  then show ?thesis using np_parse_packed [OF assms(2)] assms(3) by (metis append_Nil np_inv_None(3) option.inject prod.inject)
qed

theorem netpack_roundtrip_witness:
  "\<exists>out qo'. serve np_block [(3, [0]), (3, [1, 72, 0, 0])] None = Some (Inr (out, qo')) \<and>
     packages_of 3 out = [[72], []] \<and> np_pending qo' 3 = []"
  by (rule netpack_roundtrip [where ws = "[[0, 1, 72], [0, 0]]"])
    (simp_all add: lpack_def write_size_eq stream_of_def)

text \<open>
  Clearing the library frees every buffer it owns exactly once, those of the unfinished
  packages and those of the queue, and leaves it empty and usable.
\<close>

theorem netpack_clear_frees_all:
  assumes "np_inv uc_ok (Some q)"
  shows "\<exists>q'. lclear (Some q) = Inr (Some q', concat (map clear_list (nq_hash q)) @ map snd (np_content (Some q))) \<and>
           np_inv uc_ok (Some q') \<and> np_content (Some q') = [] \<and> (\<forall>fd. np_pending (Some q') fd = [])"
  by (rule lclear_spec [OF assms])

theorem netpack_clear_frees_all_witness:
  "\<exists>q'. lclear (Some (push_data 4 [1, 2] (None :: np_queue))) =
     Inr (Some q', concat (map clear_list (nq_hash (push_data 4 [1, 2] (None :: np_queue)))) @ [[1, 2]])"
  using netpack_clear_frees_all [of "push_data 4 [1, 2] None"] push_data_ok [of uc_ok None 4 "[1, 2]" uc_raw "[]"] by auto

end
