(* ===== verification/WsNetpack.thy ===== *)
theory WsNetpack
  imports PackQueue
begin

text \<open>
  The package splitter of the WebSocket gate, \<open>lualib-src/lua-websocketnetpack.c\<close>: it collects
  the HTTP request of the handshake, then cuts the stream into WebSocket frames and removes
  their masks. Queue and table are those of \<open>PackQueue\<close>. A write past the 1024 bytes of the
  header field, a read past the received bytes and an allocation of a negative size are
  faults. The first half of the theory is the model of the code.
\<close>

section \<open>Data\<close>

definition HEADERSIZE :: nat where "HEADERSIZE = 1024"
definition MAX_PACKSIZE :: int where "MAX_PACKSIZE = 10 * 1024"

text \<open>
  The fields that \<open>struct uncomplete\<close> has beside those of \<open>lua-netpack.c\<close>: the bytes of \<open>header\<close>
  up to \<open>header_size\<close>, and the mask, an \<open>int\<close> that is only used as four bytes.
\<close>

record ws_uncomplete = uncomplete +
  uc_wheader :: bytes
  uc_mask :: bytes
  uc_ismask :: bool
  uc_unmasked :: int

type_synonym ws_ext = "\<lparr>uc_wheader :: bytes, uc_mask :: bytes, uc_ismask :: bool, uc_unmasked :: int\<rparr>"
type_synonym ws_queue = "ws_ext nqueue option"

text \<open>The local variables that \<open>read_size\<close> sets through pointers.\<close>

record ws_vars =
  v_head :: nat
  v_mask :: bytes
  v_ismask :: bool
  v_unmasked :: int

definition vars0 :: ws_vars where
  "vars0 = \<lparr>v_head = 0, v_mask = [0, 0, 0, 0], v_ismask = False, v_unmasked = 0\<rparr>"

section \<open>The operations shared with \<open>lua-netpack.c\<close>\<close>

definition ws_clear_list :: "ws_uncomplete list \<Rightarrow> bytes list" where "ws_clear_list = clear_list"
definition ws_lclear :: "ws_queue \<Rightarrow> (ws_queue \<times> bytes list) res" where "ws_lclear = lclear"
definition ws_hash_fd :: "int \<Rightarrow> nat" where "ws_hash_fd = hash_fd"
definition ws_find_uncomplete :: "ws_queue \<Rightarrow> int \<Rightarrow> ws_uncomplete option \<times> ws_queue" where
  "ws_find_uncomplete = find_uncomplete"
definition ws_get_queue :: "ws_queue \<Rightarrow> ws_ext nqueue" where "ws_get_queue = get_queue"
definition ws_expand_queue :: "ws_ext nqueue \<Rightarrow> ws_ext nqueue" where "ws_expand_queue = np_expand_queue"
definition ws_close_uncomplete :: "ws_queue \<Rightarrow> int \<Rightarrow> ws_queue" where "ws_close_uncomplete = close_uncomplete"
definition ws_pushstring :: "bytes option \<Rightarrow> bytes \<Rightarrow> bytes res" where "ws_pushstring = pushstring"
definition ws_lpop :: "ws_queue \<Rightarrow> (netpack option \<times> ws_queue) res" where "ws_lpop = lpop"
definition ws_ltostring :: "bytes option \<Rightarrow> nat \<Rightarrow> bytes" where "ws_ltostring = ltostring"

lemmas ws_shared_defs = ws_clear_list_def ws_lclear_def ws_find_uncomplete_def ws_close_uncomplete_def
  ws_pushstring_def ws_lpop_def

text \<open>\<open>push_data\<close>: \<open>buffer\<close> has \<open>size\<close> bytes when \<open>size\<close> is not negative.\<close>

definition ws_push_data :: "int \<Rightarrow> bytes \<Rightarrow> int \<Rightarrow> bool \<Rightarrow> ws_queue \<Rightarrow> ws_queue res" where
  "ws_push_data fd buffer n clone qo =
     (if clone \<and> n < 0 then Inl (Out_of_memory ''push_data'') else Inr (Some (push_data fd buffer qo)))"

text \<open>A zeroed node, which \<open>save_uncomplete\<close> links into its bucket.\<close>

definition ws_node :: "int \<Rightarrow> ws_uncomplete" where
  "ws_node fd = \<lparr>uc_pack = \<lparr>np_id = fd, np_size = 0, np_buffer = []\<rparr>, uc_read = 0, uc_wheader = [],
     uc_mask = [0, 0, 0, 0], uc_ismask = False, uc_unmasked = 0\<rparr>"

definition ws_save_uncomplete :: "ws_uncomplete \<Rightarrow> ws_queue \<Rightarrow> ws_queue" where
  "ws_save_uncomplete uc qo = Some (save_uncomplete uc qo)"

section \<open>Frame headers and masks\<close>

definition be16 :: "bytes \<Rightarrow> c_int" where
  "be16 b = push_bit 8 (ucast (b ! 0)) OR ucast (b ! 1)"

definition be32 :: "bytes \<Rightarrow> u32" where
  "be32 b = push_bit 24 (ucast (b ! 0)) OR push_bit 16 (ucast (b ! 1)) OR push_bit 8 (ucast (b ! 2)) OR ucast (b ! 3)"

text \<open>
  The argument is the memory the 64 bit number is loaded from. On a little-endian machine its
  low half is the first four bytes, and \<open>ntohl\<close> reads these as a big-endian number.
\<close>

definition ntoh64 :: "bytes \<Rightarrow> u64" where
  "ntoh64 b = (let low = be32 (take 4 b); high = be32 (drop 4 b) in push_bit 32 (ucast low) OR ucast high)"

definition read_mask :: "bytes \<Rightarrow> bool \<Rightarrow> nat \<Rightarrow> int \<Rightarrow> ws_vars \<Rightarrow> int \<times> ws_vars" where
  "read_mask b is_mask offset pack_size v =
     (if is_mask then
        if offset + 4 > length b then (-1, v)
        else (pack_size, v\<lparr>v_ismask := True, v_mask := take 4 (drop offset b), v_head := offset + 4\<rparr>)
      else (pack_size, v\<lparr>v_head := offset\<rparr>))"

definition ws_read_size :: "bytes \<Rightarrow> ws_vars \<Rightarrow> int \<times> ws_vars" where
  "ws_read_size b v =
     (if length b < 2 then (-1, v)
      else
        let fin = drop_bit 7 (b ! 0) AND 1;
            rsv1 = drop_bit 6 (b ! 0) AND 1;
            rsv2 = drop_bit 5 (b ! 0) AND 1;
            rsv3 = drop_bit 4 (b ! 0) AND 1;
            opcode = b ! 0 AND 0xf;
            is_mask = drop_bit 7 (b ! 1) AND 1
        in
        if rsv1 \<noteq> 0 \<or> rsv2 \<noteq> 0 \<or> rsv3 \<noteq> 0 then (-2, v)
        else if fin = 0 \<or> opcode = 0 then (-2, v)
        else
          let len = b ! 1 AND 0x7f in
          if len < 0x7e then read_mask b (is_mask \<noteq> 0) 2 (uint len) v
          else if len = 0x7e then
            if length b < 4 then (-1, v) else read_mask b (is_mask \<noteq> 0) 4 (sint (be16 (take 2 (drop 2 b)))) v
          else
            if length b < 10 then (-1, v)
            else read_mask b (is_mask \<noteq> 0) 10 (sint (ucast (ntoh64 (take 8 (drop 2 b))) :: c_int)) v)"

definition decode_wsmask_data :: "bytes \<Rightarrow> int \<Rightarrow> ws_uncomplete \<Rightarrow> bytes \<times> ws_uncomplete" where
  "decode_wsmask_data buffer n uc =
     (if \<not> uc_ismask uc then (take (nat n) buffer, uc)
      else (map (\<lambda>i. buffer ! i XOR uc_mask uc ! nat ((int i + uc_unmasked uc) mod 4)) [0..<nat n],
            uc\<lparr>uc_unmasked := uc_unmasked uc + n\<rparr>))"

lemma ws_read_size_short: "length b < 2 \<Longrightarrow> ws_read_size b v = (-1, v)"
  by (simp add: ws_read_size_def)

text \<open>
  The loops that skip two bytes as long as there is no acceptable frame. In \<open>push_more\<close> the
  condition is \<open><= -2\<close>, in \<open>filter_data_\<close> it is \<open>== -2\<close>.
\<close>

definition ws_refused :: "bool \<Rightarrow> int \<Rightarrow> bool" where
  "ws_refused all n \<longleftrightarrow> (if all then n \<le> -2 else n = -2) \<or> n > MAX_PACKSIZE"

lemma ws_refused_length: "(n, v') = ws_read_size b v \<Longrightarrow> ws_refused all n \<Longrightarrow> 2 \<le> length b"
  using ws_read_size_short [of b v] by (cases "length b < 2") (auto simp: ws_refused_def MAX_PACKSIZE_def split: if_splits)

function (sequential) ws_skip :: "bool \<Rightarrow> bytes \<Rightarrow> ws_vars \<Rightarrow> int \<times> ws_vars \<times> bytes" where
  "ws_skip all b v =
     (case ws_read_size b v of (n, v) \<Rightarrow>
        if ws_refused all n then ws_skip all (drop 2 b) (v\<lparr>v_mask := [0, 0, 0, 0], v_ismask := False, v_unmasked := 0\<rparr>)
        else (n, v, b))"
  by pat_completeness auto

termination
  by (relation "measure (\<lambda>(all, b, v). length b)") (auto dest!: ws_refused_length)

declare ws_skip.simps [simp del]

section \<open>The HTTP request of the handshake\<close>

text \<open>
  The bound of the loop is computed in \<open>uint32_t\<close> and the comparison is unsigned, so with fewer
  than needle length minus one bytes it is close to \<open>2 ^ 32\<close> and the loop leaves the buffer.
\<close>

fun strnpos_loop :: "nat \<Rightarrow> nat \<Rightarrow> bytes \<Rightarrow> bytes \<Rightarrow> int" where
  "strnpos_loop 0 i haystack needle = -1"
| "strnpos_loop (Suc k) i haystack needle =
     (if hd haystack = hd needle \<and> take (length needle) haystack = needle then int i
      else strnpos_loop k (Suc i) (tl haystack) needle)"

definition websocket_strnpos :: "bytes \<Rightarrow> bytes \<Rightarrow> int res" where
  "websocket_strnpos haystack needle =
     res_assert ''websocket_strnpos'' (0 < length needle)
       (if length haystack + 1 < length needle then Inl (Out_of_bounds ''websocket_strnpos'')
        else Inr (strnpos_loop (length haystack + 1 - length needle) 0 haystack needle))"

definition crlf2 :: bytes where "crlf2 = [13, 10, 13, 10]"

definition get_http_header :: "bytes \<Rightarrow> int res" where
  "get_http_header buffer = res_bind (websocket_strnpos buffer crlf2) (\<lambda>n. Inr (if n < 0 then n else n + 4))"

section \<open>Splitting blocks\<close>

text \<open>The start of a block: the length of what comes first, the variables, and the bytes left.\<close>

definition ws_start :: "bool \<Rightarrow> bool \<Rightarrow> bytes \<Rightarrow> ws_vars \<Rightarrow> (int \<times> ws_vars \<times> bytes) res" where
  "ws_start all handshake b v =
     (if handshake then res_bind (get_http_header b) (\<lambda>n. Inr (n, v, b)) else Inr (ws_skip all b v))"

text \<open>The nodes that are saved: with the start of a header, and with a part of a frame.\<close>

definition ws_store_header :: "int \<Rightarrow> bytes \<Rightarrow> ws_queue \<Rightarrow> ws_queue res" where
  "ws_store_header fd b qo =
     (if length b > HEADERSIZE then Inl (Out_of_bounds ''header'')
      else Inr (ws_save_uncomplete ((ws_node fd)\<lparr>uc_read := -1, uc_wheader := b\<rparr>) qo))"

definition ws_frame_node :: "int \<Rightarrow> ws_vars \<Rightarrow> ws_uncomplete" where
  "ws_frame_node fd v = (ws_node fd)\<lparr>uc_mask := v_mask v, uc_ismask := v_ismask v, uc_unmasked := v_unmasked v\<rparr>"

definition ws_store_part :: "int \<Rightarrow> int \<Rightarrow> ws_vars \<Rightarrow> bytes \<Rightarrow> ws_queue \<Rightarrow> ws_queue" where
  "ws_store_part fd n v b qo =
     (case decode_wsmask_data b (int (length b)) (ws_frame_node fd v) of (d, uc) \<Rightarrow>
        ws_save_uncomplete (uc\<lparr>uc_read := int (length b), uc_pack := \<lparr>np_id = fd, np_size = nat n, np_buffer = d\<rparr>\<rparr>) qo)"

lemma ws_skip_result:
  "ws_skip all b v = (n, v', b') \<Longrightarrow> (\<exists>v0. ws_read_size b' v0 = (n, v')) \<and> \<not> ws_refused all n \<and> length b' \<le> length b"
proof (induction all b v rule: ws_skip.induct)
  case (1 all b v)
  obtain m w where r: "ws_read_size b v = (m, w)" by fastforce
  show ?case
  proof (cases "ws_refused all m")
    case True
    with 1 r show ?thesis by (simp add: ws_skip.simps [of all b v]) linarith
  next
    case False
    with "1.prems" r show ?thesis by (auto simp: ws_skip.simps [of all b v])
  qed
qed

lemma ws_read_size_head:
  "ws_read_size b v = (n, v') \<Longrightarrow> n \<noteq> -1 \<Longrightarrow> n \<noteq> -2 \<Longrightarrow> 2 \<le> v_head v' \<and> v_head v' \<le> length b"
  by (auto simp: ws_read_size_def read_mask_def Let_def not_less split: if_splits)

lemma strnpos_loop_cases: "strnpos_loop k i h nd = -1 \<or> int i \<le> strnpos_loop k i h nd"
proof (induction k i h nd rule: strnpos_loop.induct)
  case (2 k i h nd)
  then show ?case by auto
qed simp

lemma get_http_header_cases: "get_http_header b = Inr n \<Longrightarrow> n = -1 \<or> 4 \<le> n"
  using strnpos_loop_cases [of "length b + 1 - length crlf2" 0 b crlf2]
  by (auto simp: get_http_header_def websocket_strnpos_def res_assert_def split: if_splits)

lemma ws_start_progress:
  assumes "ws_start True handshake b vars0 = Inr (n, v, b')" "n \<noteq> -1" "b' \<noteq> []"
  shows "length (drop (nat n) (drop (v_head v) b')) < length b"
proof (cases handshake)
  case True
  then show ?thesis using assms get_http_header_cases [of b n] by (auto simp: ws_start_def res_bind_Inr)
next
  case False
  then have s: "ws_skip True b vars0 = (n, v, b')" using assms(1) by (simp add: ws_start_def)
  then obtain v0 where r: "ws_read_size b' v0 = (n, v)" "\<not> ws_refused True n" "length b' \<le> length b"
    using ws_skip_result by blast
  then have "2 \<le> v_head v" using ws_read_size_head [OF r(1)] assms(2) by (auto simp: ws_refused_def)
  then show ?thesis using r(3) assms(3) by (cases b') auto
qed

function ws_push_more :: "bool \<Rightarrow> int \<Rightarrow> bytes \<Rightarrow> ws_queue \<Rightarrow> ws_queue res" where
  "ws_push_more handshake fd b qo =
     (case ws_start True handshake b vars0 of
        Inl e \<Rightarrow> Inl e
      | Inr (n, v, b') \<Rightarrow>
          if n = -1 then ws_store_header fd b' qo
          else
            let c = drop (v_head v) b' in
            if int (length c) < n \<and> \<not> handshake then Inr (ws_store_part fd n v c qo)
            else
              (case ws_push_data fd (fst (decode_wsmask_data c n (ws_frame_node fd v))) n True qo of
                 Inl e \<Rightarrow> Inl e
               | Inr qo \<Rightarrow> if drop (nat n) c \<noteq> [] then ws_push_more handshake fd (drop (nat n) c) qo else Inr qo))"
  by pat_completeness auto

termination
proof (relation "measure (\<lambda>(handshake, fd, b, qo). length b)")
  fix handshake fd b qo x x2 n y v b' c qo'
  show "((handshake, fd, drop (nat n) c, qo'), handshake, fd, b, qo) \<in> measure (\<lambda>(handshake, fd, b, qo). length b)" if
    "ws_start True handshake b vars0 = Inr x2" "(n, y) = x2" "(v, b') = y" "n \<noteq> -1" "c = drop (v_head v) b'" "drop (nat n) c \<noteq> []"
    using ws_start_progress [of handshake b n v b'] that by (cases "b' = []") auto
qed auto

declare ws_push_more.simps [simp del]

text \<open>The loop that adds bytes to a stored header one at a time.\<close>

fun ws_header_loop :: "bool \<Rightarrow> bytes \<Rightarrow> bytes \<Rightarrow> int \<Rightarrow> ws_vars \<Rightarrow> (int \<times> ws_vars \<times> bytes \<times> bytes) res" where
  "ws_header_loop handshake [] h n v = Inr (n, v, h, [])"
| "ws_header_loop handshake (x # b) h n v =
     (if length h \<ge> HEADERSIZE then Inl (Out_of_bounds ''header'')
      else res_bind (ws_start False handshake (h @ [x]) v) (\<lambda>(n, v, h).
        if n \<ge> 0 \<or> b = [] then Inr (n, v, h, b) else ws_header_loop handshake b h n v))"

text \<open>The part of \<open>filter_data_\<close> that fills an unfinished package.\<close>

definition ws_fill :: "bool \<Rightarrow> int \<Rightarrow> ws_uncomplete \<Rightarrow> bytes \<Rightarrow> ws_queue \<Rightarrow> (filter_result \<times> ws_queue) res" where
  "ws_fill handshake fd uc b qo =
     (let need = int (np_size (uc_pack uc)) - uc_read uc; np = uc_pack uc in
      if int (length b) < need then
        (case decode_wsmask_data b (int (length b)) uc of (d, uc) \<Rightarrow>
           Inr (F_none, ws_save_uncomplete (uc\<lparr>uc_pack := np\<lparr>np_buffer := np_buffer np @ d\<rparr>,
                                               uc_read := uc_read uc + int (length b)\<rparr>) qo))
      else
        let pack = np_buffer np @ fst (decode_wsmask_data b need uc); rest = drop (nat need) b in
        if rest = [] then Inr (F_data fd pack, qo)
        else res_bind (ws_push_data fd pack (int (np_size np)) False qo) (\<lambda>qo.
             res_bind (ws_push_more handshake fd rest qo) (\<lambda>qo. Inr (F_more, qo))))"

text \<open>The part that has collected the header of a package.\<close>

definition ws_headed :: "bool \<Rightarrow> int \<Rightarrow> ws_uncomplete \<Rightarrow> bytes \<Rightarrow> ws_queue \<Rightarrow> (filter_result \<times> ws_queue) res" where
  "ws_headed handshake fd uc b qo =
     res_bind (ws_header_loop handshake b (uc_wheader uc) 0 vars0) (\<lambda>(n, v, h, b).
       let uc = uc\<lparr>uc_wheader := h\<rparr> in
       if n = -1 then Inr (F_none, ws_save_uncomplete uc qo)
       else if n < 0 then Inl (Out_of_memory ''filter_data_'')
       else
         let start = (if handshake then take (nat n) h else []) in
         ws_fill handshake fd (uc\<lparr>uc_pack := \<lparr>np_id = np_id (uc_pack uc), np_size = nat n, np_buffer = start\<rparr>,
                                uc_mask := v_mask v, uc_ismask := v_ismask v, uc_unmasked := v_unmasked v,
                                uc_read := int (length start)\<rparr>) b qo)"

text \<open>The part for a connection that has no unfinished package.\<close>

definition ws_fresh :: "bool \<Rightarrow> int \<Rightarrow> bytes \<Rightarrow> ws_queue \<Rightarrow> (filter_result \<times> ws_queue) res" where
  "ws_fresh handshake fd b qo =
     res_bind (ws_start False handshake b vars0) (\<lambda>(n, v, b).
       if n = -1 then res_bind (ws_store_header fd b qo) (\<lambda>qo. Inr (F_none, qo))
       else
         let b = drop (v_head v) b in
         if int (length b) < n \<and> \<not> handshake then Inr (F_none, ws_store_part fd n v b qo)
         else if int (length b) = n then Inr (F_data fd (fst (decode_wsmask_data b n (ws_frame_node fd v))), qo)
         else res_bind (ws_push_data fd (fst (decode_wsmask_data b n (ws_frame_node fd v))) n True qo) (\<lambda>qo.
              res_bind (ws_push_more handshake fd (drop (nat n) b) qo) (\<lambda>qo. Inr (F_more, qo))))"

definition ws_filter_data :: "int \<Rightarrow> bytes \<Rightarrow> bool \<Rightarrow> ws_queue \<Rightarrow> (filter_result \<times> ws_queue) res" where
  "ws_filter_data fd b handshake qo =
     (case ws_find_uncomplete qo fd of
        (Some uc, qo) \<Rightarrow>
          if uc_read uc < 0 then ws_headed handshake fd uc b qo else ws_fill handshake fd uc b qo
      | (None, qo) \<Rightarrow> ws_fresh handshake fd b qo)"

definition ws_lfilter ::
  "int \<Rightarrow> int \<Rightarrow> int \<Rightarrow> bytes option \<Rightarrow> bytes \<Rightarrow> bool \<Rightarrow> ws_queue \<Rightarrow> (filter_result \<times> ws_queue) res" where
  "ws_lfilter type sid ud buffer tail handshake qo =
     (if type = SKYNET_SOCKET_TYPE_DATA then
        (case buffer of
           None \<Rightarrow> Inl (Assert_fail ''lfilter'')
         | Some data \<Rightarrow> ws_filter_data sid (take (nat ud) data) handshake qo)
      else if type = SKYNET_SOCKET_TYPE_CONNECT then Inr (F_none, qo)
      else if type = SKYNET_SOCKET_TYPE_CLOSE then Inr (F_close sid, ws_close_uncomplete qo sid)
      else if type = SKYNET_SOCKET_TYPE_ACCEPT then
        res_bind (ws_pushstring buffer tail) (\<lambda>s. Inr (F_open ud s, qo))
      else if type = SKYNET_SOCKET_TYPE_ERROR then
        res_bind (ws_pushstring buffer tail) (\<lambda>s. Inr (F_error sid s, ws_close_uncomplete qo sid))
      else if type = SKYNET_SOCKET_TYPE_WARNING then Inr (F_warning sid ud, qo)
      else Inr (F_none, qo))"

section \<open>Building frames\<close>

definition FRAME_SET_FIN :: "u8 \<Rightarrow> u8" where "FRAME_SET_FIN b = push_bit 7 (b AND 0x01)"
definition FRAME_SET_OPCODE :: "u8 \<Rightarrow> u8" where "FRAME_SET_OPCODE b = b AND 0x0F"
definition FRAME_SET_MASK :: "u8 \<Rightarrow> u8" where "FRAME_SET_MASK b = push_bit 7 (b AND 0x01)"
definition FRAME_SET_LENGTH :: "nat \<Rightarrow> nat \<Rightarrow> u8" where "FRAME_SET_LENGTH x idx = of_nat (drop_bit (idx * 8) x AND 0xFF)"

definition ws_lpack :: "bytes \<Rightarrow> bytes" where
  "ws_lpack ptr =
     (let len = length ptr;
          frame_header = (FRAME_SET_FIN 1 OR FRAME_SET_OPCODE 2) #
            (if len < 126 then [FRAME_SET_MASK 0 OR FRAME_SET_LENGTH len 0]
             else (if len < 65536 then [FRAME_SET_MASK 0 OR 126]
                   else (FRAME_SET_MASK 0 OR 127) # map (FRAME_SET_LENGTH len) [7, 6, 5, 4, 3, 2]) @
                  map (FRAME_SET_LENGTH len) [1, 0])
      in frame_header @ ptr)"

end
