(* ===== verification/WsFrames.thy ===== *)
theory WsFrames
  imports WsNetpack
begin

text \<open>
  Correctness of the WebSocket splitter. The reference is a decoder that consumes one byte
  after the other: it collects a frame header, then the payload, and refuses a frame that the
  server does not accept. The filter is an instance of the contract of a package splitter
  with this decoder, and the decoder gives back the payloads of every stream of frames that a
  client may send according to RFC 6455, whatever their masks and length encodings are.
\<close>

section \<open>The reference decoder\<close>

datatype ws_state = Head bytes | Body nat "bytes option" bytes

definition unmask_byte :: "bytes option \<Rightarrow> nat \<Rightarrow> u8 \<Rightarrow> u8" where
  "unmask_byte m i x = (case m of None \<Rightarrow> x | Some k \<Rightarrow> x XOR k ! (i mod 4))"

fun unmask :: "bytes option \<Rightarrow> nat \<Rightarrow> bytes \<Rightarrow> bytes" where
  "unmask m i [] = []"
| "unmask m i (x # b) = unmask_byte m i x # unmask m (Suc i) b"

definition v_key :: "ws_vars \<Rightarrow> bytes option" where
  "v_key v = (if v_ismask v then Some (v_mask v) else None)"

definition ws_begin :: "nat \<Rightarrow> bytes option \<Rightarrow> bytes list \<times> ws_state" where
  "ws_begin n m = (if n = 0 then ([[]], Head []) else ([], Body n m []))"

fun ws_byte :: "ws_state \<Rightarrow> u8 \<Rightarrow> (bytes list \<times> ws_state) option" where
  "ws_byte (Head h) x =
     (case ws_read_size (h @ [x]) vars0 of (n, v) \<Rightarrow>
        if v_head v = 0 then if n = -1 then Some ([], Head (h @ [x])) else None
        else if 0 \<le> n \<and> n \<le> MAX_PACKSIZE then Some (ws_begin (nat n) (v_key v)) else None)"
| "ws_byte (Body n m d) x =
     (let d = d @ [unmask_byte m (length d) x] in
      if length d = n then Some ([d], Head []) else Some ([], Body n m d))"

definition ws_then :: "bytes list \<times> ws_state \<Rightarrow> (ws_state \<Rightarrow> (bytes list \<times> ws_state) option) \<Rightarrow> (bytes list \<times> ws_state) option" where
  "ws_then r f = map_option (\<lambda>(qs, s). (fst r @ qs, s)) (f (snd r))"

fun ws_feed :: "ws_state \<Rightarrow> bytes \<Rightarrow> (bytes list \<times> ws_state) option" where
  "ws_feed s [] = Some ([], s)"
| "ws_feed s (x # b) = Option.bind (ws_byte s x) (\<lambda>r. ws_then r (\<lambda>s. ws_feed s b))"

lemma ws_then_simps [simp]:
  "ws_then ([], s) f = f s" "ws_then (ps, s) (\<lambda>s. Some ([], s)) = Some (ps, s)"
  "ws_then r (\<lambda>s. ws_then (g s) h) = ws_then (fst r @ fst (g (snd r)), snd (g (snd r))) h"
  by (cases "f s"; simp add: ws_then_def) (simp_all add: ws_then_def option.map_comp comp_def case_prod_unfold)

lemma ws_feed_append: "ws_feed s (a @ b) = Option.bind (ws_feed s a) (\<lambda>r. ws_then r (\<lambda>s. ws_feed s b))"
proof (induction a arbitrary: s)
  case (Cons x a)
  show ?case
  proof (cases "ws_byte s x")
    case (Some r)
    with Cons [of "snd r"] show ?thesis
      by (cases "ws_feed (snd r) a") (simp_all add: ws_then_def option.map_comp comp_def case_prod_unfold)
  qed simp
qed simp

lemma length_unmask [simp]: "length (unmask m i b) = length b"
  by (induction b arbitrary: i) simp_all

lemma unmask_append: "unmask m i (a @ b) = unmask m i a @ unmask m (i + length a) b"
  by (induction a arbitrary: i) simp_all

lemma nth_unmask: "j < length b \<Longrightarrow> unmask m i b ! j = unmask_byte m (i + j) (b ! j)"
  by (induction b arbitrary: i j) (auto simp: nth_Cons split: nat.splits)

lemma unmask_involution: "unmask m i (unmask m i b) = b"
  by (induction b arbitrary: i) (simp_all add: unmask_byte_def xor.assoc split: option.splits)

section \<open>Payload bytes\<close>

lemma ws_feed_body_part: "length d + length b < n \<Longrightarrow> ws_feed (Body n m d) b = Some ([], Body n m (d @ unmask m (length d) b))"
  by (induction b arbitrary: d) (simp_all add: Let_def)

lemma ws_feed_body_full:
  "length d + length b = n \<Longrightarrow> b \<noteq> [] \<Longrightarrow> ws_feed (Body n m d) b = Some ([d @ unmask m (length d) b], Head [])"
proof (induction b arbitrary: d)
  case (Cons x b)
  show ?case
  proof (cases "b = []")
    case True
    then show ?thesis using Cons.prems by (simp add: Let_def)
  next
    case False
    then show ?thesis using Cons.prems Cons.IH [of "d @ [unmask_byte m (length d) x]"] by (auto simp: Let_def)
  qed
qed simp

lemma ws_feed_body:
  assumes "length d < n" "n \<le> length d + length b"
  shows "ws_feed (Body n m d) b =
    ws_then ([d @ unmask m (length d) (take (n - length d) b)], Head []) (\<lambda>s. ws_feed s (drop (n - length d) b))"
proof -
  have "ws_feed (Body n m d) (take (n - length d) b) = Some ([d @ unmask m (length d) (take (n - length d) b)], Head [])"
    using assms by (intro ws_feed_body_full) auto
  then show ?thesis using ws_feed_append [of "Body n m d" "take (n - length d) b" "drop (n - length d) b"] by simp
qed

text \<open>The bytes after a header, whether the payload is there or not.\<close>

lemma ws_feed_begin:
  "ws_then (ws_begin n m) (\<lambda>s. ws_feed s b) =
     (if length b < n then Some ([], Body n m (unmask m 0 b))
      else ws_then ([unmask m 0 (take n b)], Head []) (\<lambda>s. ws_feed s (drop n b)))"
proof (cases "n = 0")
  case False
  then show ?thesis using ws_feed_body_part [of "[]" b n m] ws_feed_body [of "[]" n b m]
    by (simp add: ws_begin_def)
qed (simp add: ws_begin_def)

lemma decode_wsmask_data_eq:
  assumes "uc_ismask uc \<Longrightarrow> uc_unmasked uc = int k" "0 \<le> n" "nat n \<le> length b"
  shows "fst (decode_wsmask_data b n uc) = unmask (if uc_ismask uc then Some (uc_mask uc) else None) k (take (nat n) b)"
proof (rule nth_equalityI)
  fix i assume "i < length (fst (decode_wsmask_data b n uc))"
  then have i: "i < nat n" using assms(3) by (simp add: decode_wsmask_data_def split: if_splits)
  have "nat ((int i + int k) mod 4) = (k + i) mod 4" by (simp add: nat_mod_distrib nat_add_distrib add.commute)
  then show "fst (decode_wsmask_data b n uc) ! i =
      unmask (if uc_ismask uc then Some (uc_mask uc) else None) k (take (nat n) b) ! i"
    using i assms by (simp add: decode_wsmask_data_def nth_unmask unmask_byte_def)
qed (use assms(3) in \<open>simp add: decode_wsmask_data_def\<close>)

section \<open>Frame headers\<close>

text \<open>
  Reading a header is a matter of a prefix: it is incomplete, or it is decided by the first
  \<open>v_head\<close> bytes.
\<close>

definition incomplete :: "bytes \<Rightarrow> bool" where
  "incomplete b \<longleftrightarrow> ws_read_size b vars0 = (-1, vars0)"

lemma vars0_head [simp]: "v_head vars0 = 0" "v_ismask vars0 = False" "v_unmasked vars0 = 0"
  by (simp_all add: vars0_def)

lemma incomplete_Nil [simp]: "incomplete []"
  by (simp add: incomplete_def ws_read_size_def)

text \<open>The length of the header that the first two bytes announce, and what the header says.\<close>

definition hdr_need :: "bytes \<Rightarrow> nat" where
  "hdr_need b = (let len = b ! 1 AND 0x7f in (if len < 0x7e then 2 else if len = 0x7e then 4 else 10) +
     (if drop_bit 7 (b ! 1) AND 1 \<noteq> 0 then 4 else 0))"

definition hdr_bad :: "bytes \<Rightarrow> bool" where
  "hdr_bad b \<longleftrightarrow> drop_bit 6 (b ! 0) AND 1 \<noteq> 0 \<or> drop_bit 5 (b ! 0) AND 1 \<noteq> 0 \<or> drop_bit 4 (b ! 0) AND 1 \<noteq> 0 \<or>
     drop_bit 7 (b ! 0) AND 1 = 0 \<or> b ! 0 AND 0xf = 0"

definition hdr_value :: "bytes \<Rightarrow> int \<times> ws_vars" where
  "hdr_value b =
     (let len = b ! 1 AND 0x7f;
          offset = (if len < 0x7e then 2 else if len = 0x7e then 4 else 10);
          n = (if len < 0x7e then uint len else if len = 0x7e then sint (be16 (take 2 (drop 2 b)))
               else sint (ucast (ntoh64 (take 8 (drop 2 b))) :: c_int))
      in read_mask b (drop_bit 7 (b ! 1) AND 1 \<noteq> 0) offset n vars0)"

lemma ws_read_size_cases:
  "ws_read_size b vars0 =
     (if length b < 2 then (-1, vars0) else if hdr_bad b then (-2, vars0)
      else if length b < hdr_need b then (-1, vars0) else hdr_value b)"
  unfolding ws_read_size_def hdr_bad_def hdr_need_def hdr_value_def read_mask_def Let_def by auto

lemma hdr_need_bounds: "2 \<le> hdr_need b" "hdr_need b \<le> 14"
  by (simp_all add: hdr_need_def Let_def)

lemma hdr_value_head:
  assumes "hdr_need b \<le> length b"
  shows "v_head (snd (hdr_value b)) = hdr_need b"
  using assms by (auto simp: hdr_need_def hdr_value_def read_mask_def Let_def split: if_splits)

lemma hdr_prefix:
  assumes "2 \<le> length a"
  shows "hdr_bad (a @ c) = hdr_bad a" "hdr_need (a @ c) = hdr_need a"
    "hdr_need a \<le> length a \<Longrightarrow> hdr_value (a @ c) = hdr_value a"
  using assms
  by (auto simp: hdr_bad_def hdr_need_def hdr_value_def read_mask_def Let_def nth_append split: if_splits)

lemma incomplete_iff: "incomplete b \<longleftrightarrow> length b < 2 \<or> \<not> hdr_bad b \<and> length b < hdr_need b"
proof -
  have "hdr_value b \<noteq> (-1, vars0)" if "hdr_need b \<le> length b"
    using hdr_value_head [OF that] hdr_need_bounds [of b] by (auto simp: prod_eq_iff)
  then show ?thesis unfolding incomplete_def ws_read_size_cases by (auto simp: not_less)
qed

lemma incomplete_prefix: "incomplete (a @ c) \<Longrightarrow> incomplete a"
  using hdr_prefix [of a c] unfolding incomplete_iff by (cases "length a < 2") auto

lemma incomplete_length: "incomplete b \<Longrightarrow> length b < 14"
  using hdr_need_bounds [of b] unfolding incomplete_iff by auto

lemma ws_feed_incomplete: "incomplete (h @ c) \<Longrightarrow> ws_feed (Head h) c = Some ([], Head (h @ c))"
proof (induction c arbitrary: h)
  case (Cons x c)
  have "incomplete (h @ [x])" using incomplete_prefix [of "h @ [x]" c] Cons.prems by simp
  then show ?case using Cons.IH [of "h @ [x]"] Cons.prems by (simp add: incomplete_def)
qed simp

text \<open>The header of a block ends with the shortest prefix that is decided.\<close>

definition hdr_len :: "bytes \<Rightarrow> nat" where
  "hdr_len b = (if hdr_bad b then 2 else hdr_need b)"

lemma hdr_len:
  assumes "\<not> incomplete b"
  shows "2 \<le> hdr_len b" "hdr_len b \<le> length b" "j < hdr_len b \<Longrightarrow> incomplete (take j b)"
    "ws_read_size (take (hdr_len b) b) vars0 = ws_read_size b vars0"
proof -
  have two: "2 \<le> length b" using assms by (auto simp: incomplete_iff)
  show k: "2 \<le> hdr_len b" "hdr_len b \<le> length b" 
    using assms hdr_need_bounds [of b] two by (auto simp: hdr_len_def incomplete_iff)
  have pre: "hdr_bad (take j b) = hdr_bad b" "hdr_need (take j b) = hdr_need b" if "2 \<le> j" "j \<le> length b" for j
    using hdr_prefix(1,2) [of "take j b" "drop j b"] that by simp_all
  show "incomplete (take j b)" if "j < hdr_len b"
    using that pre [of j] k unfolding incomplete_iff by (cases "j < 2") (auto simp: hdr_len_def split: if_splits)
  have "hdr_need b \<le> length b \<Longrightarrow> hdr_value (take (hdr_need b) b) = hdr_value b"
    using pre [of "hdr_need b"] hdr_need_bounds(1) [of b] hdr_prefix(3) [of "take (hdr_need b) b" "drop (hdr_need b) b"] by simp
  then show "ws_read_size (take (hdr_len b) b) vars0 = ws_read_size b vars0"
    using pre [of "hdr_len b"] k two unfolding ws_read_size_cases by (auto simp: hdr_len_def min_def split: if_splits)
qed

text \<open>
  With an incomplete header \<open>h\<close> stored, the first bytes of a block are appended up to the end
  of the header; then the frame is refused, or the payload follows.
\<close>

lemma ws_feed_decided:
  assumes "incomplete h" "b = h @ c" "\<not> incomplete b" "ws_read_size b vars0 = (n, v)"
  shows "length h < hdr_len b"
    "ws_feed (Head h) c = (if v_head v \<noteq> 0 \<and> 0 \<le> n \<and> n \<le> MAX_PACKSIZE
       then ws_then (ws_begin (nat n) (v_key v)) (\<lambda>s. ws_feed s (drop (hdr_len b) b)) else None)"
proof -
  define k where "k = hdr_len b"
  note len = hdr_len [OF assms(3), folded k_def]
  have "\<not> incomplete (take k b)" using len(4) assms(3) by (simp add: incomplete_def)
  then have hk: "length h < k" using assms(1) incomplete_prefix [of "take k h" "drop k h"]
    by (cases "k \<le> length h") (auto simp: assms(2))
  then show "length h < hdr_len b" by (simp add: k_def)
  define j where "j = k - 1 - length h"
  have j: "j < length c" "length h + Suc j = k" using hk len(2) by (auto simp: j_def assms(2))
  have c: "c = take j c @ c ! j # drop (Suc j) c" using j(1) by (rule id_take_nth_drop)
  have h1: "h @ take j c = take (k - 1) b" "(h @ take j c) @ [c ! j] = take k b"
    using j hk by (auto simp: take_Suc_conv_app_nth [of j c, symmetric] j_def [symmetric] assms(2))
  have "incomplete (h @ take j c)" unfolding h1 using len by simp
  moreover have "drop (Suc j) c = drop k b" using j by (auto simp: assms(2))
  ultimately have step: "ws_feed (Head h) c =
      Option.bind (ws_byte (Head (h @ take j c)) (c ! j)) (\<lambda>r. ws_then r (\<lambda>s. ws_feed s (drop k b)))"
    by (subst c, subst ws_feed_append) (simp add: ws_feed_incomplete del: ws_byte.simps)
  have "n \<noteq> -1" if "v_head v = 0"
    using that assms(3,4) hdr_value_head [of b] hdr_need_bounds [of b]
    unfolding ws_read_size_cases incomplete_iff by (auto split: if_splits)
  then show "ws_feed (Head h) c = (if v_head v \<noteq> 0 \<and> 0 \<le> n \<and> n \<le> MAX_PACKSIZE
       then ws_then (ws_begin (nat n) (v_key v)) (\<lambda>s. ws_feed s (drop (hdr_len b) b)) else None)"
    unfolding step ws_byte.simps h1(2) len(4) assms(4) by (simp add: k_def)
qed

lemma hdr_len_read:
  assumes "ws_read_size b vars0 = (n, v)" "v_head v \<noteq> 0"
  shows "v_head v = hdr_len b" "v_unmasked v = 0" "\<not> incomplete b"
proof -
  have r: "\<not> hdr_bad b" "(n, v) = hdr_value b" "hdr_need b \<le> length b"
    using assms by (auto simp: ws_read_size_cases split: if_splits)
  then show "v_head v = hdr_len b" using hdr_value_head [of b] by (simp add: hdr_len_def prod_eq_iff)
  show "v_unmasked v = 0" using r by (auto simp: hdr_value_def read_mask_def Let_def split: if_splits)
  show "\<not> incomplete b" using assms by (auto simp: incomplete_def)
qed

lemma ws_feed_header:
  assumes "incomplete h" "b = h @ c" "\<not> incomplete b" "ws_feed (Head h) c = Some pr"
  obtains n v where "ws_read_size b vars0 = (n, v)" "0 \<le> n" "n \<le> MAX_PACKSIZE" "v_head v = hdr_len b" "length h < v_head v"
    "v_unmasked v = 0" "ws_then (ws_begin (nat n) (v_key v)) (\<lambda>s. ws_feed s (drop (v_head v) b)) = Some pr"
proof -
  obtain n v where r: "ws_read_size b vars0 = (n, v)" by fastforce
  note dec = ws_feed_decided [OF assms(1-3) r]
  have ok: "v_head v \<noteq> 0" "0 \<le> n" "n \<le> MAX_PACKSIZE" using dec(2) assms(4) by (auto split: if_splits)
  show ?thesis using that [OF r ok(2,3)] hdr_len_read [OF r ok(1)] dec ok assms(4) by simp
qed

lemma ws_feed_fresh:
  assumes "\<not> incomplete b" "ws_feed (Head []) b = Some pr"
  obtains n v where "ws_read_size b vars0 = (n, v)" "0 \<le> n" "n \<le> MAX_PACKSIZE" "v_head v \<le> length b" "v_unmasked v = 0"
    "ws_then (ws_begin (nat n) (v_key v)) (\<lambda>s. ws_feed s (drop (v_head v) b)) = Some pr"
proof (rule ws_feed_header [OF incomplete_Nil _ assms])
  fix n v
  assume "ws_read_size b vars0 = (n, v)" "0 \<le> n" "n \<le> MAX_PACKSIZE" "v_head v = hdr_len b" "v_unmasked v = 0"
    "ws_then (ws_begin (nat n) (v_key v)) (\<lambda>s. ws_feed s (drop (v_head v) b)) = Some pr"
  then show thesis using hdr_len(2) [OF assms(1)] that [of n v] by simp
qed simp

section \<open>The nodes of unfinished packages\<close>

definition uc_key :: "ws_uncomplete \<Rightarrow> bytes option" where
  "uc_key uc = (if uc_ismask uc then Some (uc_mask uc) else None)"

definition ws_raw :: "ws_uncomplete \<Rightarrow> ws_state" where
  "ws_raw uc = (if uc_read uc < 0 then Head (uc_wheader uc)
     else Body (np_size (uc_pack uc)) (uc_key uc) (np_buffer (uc_pack uc)))"

definition ws_part_ok :: "ws_uncomplete \<Rightarrow> bool" where
  "ws_part_ok uc \<longleftrightarrow> uc_read uc = int (length (np_buffer (uc_pack uc))) \<and> int (np_size (uc_pack uc)) \<le> MAX_PACKSIZE \<and>
     (uc_ismask uc \<longrightarrow> uc_unmasked uc = uc_read uc)"

definition ws_ok :: "ws_uncomplete \<Rightarrow> bool" where
  "ws_ok uc \<longleftrightarrow> uc_read uc = -1 \<and> uc_wheader uc \<noteq> [] \<and> incomplete (uc_wheader uc) \<or>
     ws_part_ok uc \<and> length (np_buffer (uc_pack uc)) < np_size (uc_pack uc)"

abbreviation ws_split_ok :: "ws_queue \<Rightarrow> int \<Rightarrow> bytes list \<times> ws_state \<Rightarrow> ws_queue \<Rightarrow> bool" where
  "ws_split_ok \<equiv> split_ok ws_ok ws_raw (Head [])"

abbreviation ws_filter_ok :: "ws_queue \<Rightarrow> int \<Rightarrow> bytes list \<times> ws_state \<Rightarrow> (filter_result \<times> ws_queue) res \<Rightarrow> bool" where
  "ws_filter_ok \<equiv> filter_ok ws_ok ws_raw (Head [])"

lemma ws_save_ok:
  assumes "np_inv ws_ok qo" "uc_look qo (uc_id uc) = None" "ws_ok uc"
  shows "ws_split_ok qo (uc_id uc) ([], ws_raw uc) (ws_save_uncomplete uc qo)"
  using save_uncomplete_ok [OF assms] by (simp add: ws_save_uncomplete_def)

lemma ws_filter_save: "ws_split_ok qo fd ([], st) q \<Longrightarrow> ws_filter_ok qo fd ([], st) (Inr (F_none, q))"
  by (auto simp: split_ok_def filter_ok_def direct_def)

lemma ws_store_header_ok:
  assumes "np_inv ws_ok qo" "uc_look qo fd = None" "incomplete b" "b \<noteq> []"
  shows "\<exists>q. ws_store_header fd b qo = Inr q \<and> ws_split_ok qo fd ([], Head b) q"
  using ws_save_ok [OF assms(1), of "(ws_node fd)\<lparr>uc_read := -1, uc_wheader := b\<rparr>"] assms(2-4) incomplete_length [OF assms(3)]
  by (simp add: ws_store_header_def HEADERSIZE_def ws_node_def ws_ok_def ws_raw_def)

lemma ws_frame_node_simps [simp]:
  "uc_key (ws_frame_node fd v) = v_key v" "uc_ismask (ws_frame_node fd v) = v_ismask v"
  "uc_unmasked (ws_frame_node fd v) = v_unmasked v"
  by (simp_all add: ws_frame_node_def ws_node_def uc_key_def v_key_def)

lemma decode_part:
  assumes "uc_ismask uc \<longrightarrow> uc_unmasked uc = int k" "0 \<le> n" "nat n \<le> length b"
  shows "fst (decode_wsmask_data b n uc) = unmask (uc_key uc) k (take (nat n) b)"
  using decode_wsmask_data_eq [of uc k n b] assms by (simp add: uc_key_def)

lemma decode_node:
  "snd (decode_wsmask_data b n uc) = (if uc_ismask uc then uc\<lparr>uc_unmasked := uc_unmasked uc + n\<rparr> else uc)"
  by (simp add: decode_wsmask_data_def)

lemma ws_store_part_ok:
  assumes "np_inv ws_ok qo" "uc_look qo fd = None" "length c < nat n" "n \<le> MAX_PACKSIZE" "v_unmasked v = 0"
  shows "ws_split_ok qo fd ([], Body (nat n) (v_key v) (unmask (v_key v) 0 c)) (ws_store_part fd n v c qo)"
proof -
  let ?uc = "ws_frame_node fd v"
  obtain d uc where d: "decode_wsmask_data c (int (length c)) ?uc = (d, uc)" by fastforce
  then have d1: "d = unmask (v_key v) 0 c" and uc: "uc_key uc = v_key v" "uc_ismask uc \<longrightarrow> uc_unmasked uc = int (length c)"
    using decode_part [of ?uc 0 "int (length c)" c] decode_node [of c "int (length c)" ?uc] assms(5)
    by (auto simp: uc_key_def v_key_def ws_frame_node_def split: if_splits)
  let ?n = "uc\<lparr>uc_read := int (length c), uc_pack := \<lparr>np_id = fd, np_size = nat n, np_buffer = d\<rparr>\<rparr>"
  have "ws_ok ?n" using d1 uc assms(3,4) by (simp add: ws_ok_def ws_part_ok_def MAX_PACKSIZE_def)
  moreover have "ws_raw ?n = Body (nat n) (v_key v) (unmask (v_key v) 0 c)" using d1 uc by (auto simp: ws_raw_def uc_key_def)
  ultimately show ?thesis using ws_save_ok [OF assms(1), of ?n] assms(2) d by (simp add: ws_store_part_def)
qed

section \<open>Splitting blocks\<close>

lemma ws_start_incomplete: "incomplete b \<Longrightarrow> ws_start all False b vars0 = Inr (-1, vars0, b)"
  by (simp add: ws_start_def ws_skip.simps [of all b] incomplete_def ws_refused_def MAX_PACKSIZE_def)

lemma ws_start_frame:
  "ws_read_size b vars0 = (n, v) \<Longrightarrow> 0 \<le> n \<Longrightarrow> n \<le> MAX_PACKSIZE \<Longrightarrow> ws_start all False b vars0 = Inr (n, v, b)"
  by (simp add: ws_start_def ws_skip.simps [of all b] ws_refused_def)

lemma ws_push_more_frame:
  assumes "ws_start True False b vars0 = Inr (n, v, b')" "n \<noteq> -1" "c = drop (v_head v) b'"
  shows "ws_push_more False fd b qo =
    (if int (length c) < n then Inr (ws_store_part fd n v c qo)
     else case ws_push_data fd (fst (decode_wsmask_data c n (ws_frame_node fd v))) n True qo of
        Inl e \<Rightarrow> Inl e
      | Inr qo \<Rightarrow> if drop (nat n) c \<noteq> [] then ws_push_more False fd (drop (nat n) c) qo else Inr qo)"
  unfolding assms(3) by (subst ws_push_more.simps) (simp add: assms(1,2) Let_def del: length_drop drop_drop cong: if_cong sum.case_cong)

lemma ws_push_more_ok:
  assumes "np_inv ws_ok qo" "uc_look qo fd = None" "b \<noteq> []" "ws_feed (Head []) b = Some pr" "\<not> hs"
  shows "\<exists>q. ws_push_more hs fd b qo = Inr q \<and> ws_split_ok qo fd pr q"
  using assms
proof (induction hs fd b qo arbitrary: pr rule: ws_push_more.induct)
  case (1 hs fd b qo)
  have hs: "hs = False" using "1.prems" by simp
  show ?case
  proof (cases "incomplete b")
    case True
    then have "pr = ([], Head b)" using "1.prems"(4) ws_feed_incomplete [of "[]" b] by simp
    then show ?thesis using ws_store_header_ok [OF "1.prems"(1,2) True "1.prems"(3)]
      by (simp add: ws_push_more.simps [of False fd b qo] hs ws_start_incomplete [OF True])
  next
    case False
    obtain n v where r: "ws_read_size b vars0 = (n, v)" "0 \<le> n" "n \<le> MAX_PACKSIZE" "v_head v \<le> length b" "v_unmasked v = 0"
      and pr: "ws_then (ws_begin (nat n) (v_key v)) (\<lambda>s. ws_feed s (drop (v_head v) b)) = Some pr"
      using ws_feed_fresh [OF False "1.prems"(4)] .
    define c where "c = drop (v_head v) b"
    note st = ws_start_frame [OF r(1-3), of True]
    note frame = ws_push_more_frame [OF st _ c_def, of fd qo]
    show ?thesis
    proof (cases "length c < nat n")
      case True
      then have "pr = ([], Body (nat n) (v_key v) (unmask (v_key v) 0 c))" using pr by (simp add: c_def [symmetric] ws_feed_begin)
      moreover have "int (length c) < n" using True by linarith
      ultimately show ?thesis using ws_store_part_ok [OF "1.prems"(1,2) True r(3,5)] r(2) frame by (simp add: hs)
    next
      case ge: False
      define p where "p = unmask (v_key v) 0 (take (nat n) c)"
      define q where "q = Some (push_data fd p qo)"
      have q: "ws_split_ok qo fd ([p], Head []) q" "uc_look q fd = None" "np_inv ws_ok q"
        using split_ok_push [OF "1.prems"(1,2), of ws_raw "Head []" p] by (simp_all add: q_def split_ok_def)
      have pr': "ws_then ([p], Head []) (\<lambda>s. ws_feed s (drop (nat n) c)) = Some pr"
        using pr ge by (simp add: c_def [symmetric] ws_feed_begin p_def)
      have dec: "fst (decode_wsmask_data c n (ws_frame_node fd v)) = p"
        using decode_part [of "ws_frame_node fd v" 0 n c] r ge by (simp add: p_def)
      have push: "ws_push_data fd p n True qo = Inr q" using r(2) by (simp add: ws_push_data_def q_def)
      have ge': "\<not> int (length c) < n" using ge by linarith
      then have run: "ws_push_more hs fd b qo = (if drop (nat n) c \<noteq> [] then ws_push_more hs fd (drop (nat n) c) q else Inr q)"
        using r(2) frame by (simp add: hs dec push)
      show ?thesis
      proof (cases "drop (nat n) c = []")
        case True
        then show ?thesis using run q(1) pr' by simp
      next
        case ne: False
        obtain pr2 where pr2: "ws_feed (Head []) (drop (nat n) c) = Some pr2" "pr = (p # fst pr2, snd pr2)"
          using pr' by (auto simp: ws_then_def)
        obtain q2 where q2: "ws_push_more hs fd (drop (nat n) c) q = Inr q2" "ws_split_ok q fd pr2 q2"
          using "1.IH" [OF st [folded hs] refl refl _ c_def _ _ ne q(3,2) ne pr2(1)] ge' r(2) dec push hs by auto
        then have "ws_split_ok qo fd ([p] @ fst pr2, snd pr2) q2"
          using q(1) by (intro split_ok_trans [of q]) (auto simp: split_ok_def)
        then show ?thesis using run ne q2(1) pr2(2) by simp
      qed
    qed
  qed
qed

lemma ws_filter_more:
  assumes inv: "np_inv ws_ok qo" "uc_look qo fd = None" and ne: "rest \<noteq> []"
    and pr: "ws_then ([p], Head []) (\<lambda>s. ws_feed s rest) = Some pr"
  shows "ws_filter_ok qo fd pr (res_bind (ws_push_more False fd rest (Some (push_data fd p qo))) (\<lambda>qo. Inr (F_more, qo)))"
proof -
  obtain pr2 where pr2: "ws_feed (Head []) rest = Some pr2" "pr = (p # fst pr2, snd pr2)"
    using pr by (auto simp: ws_then_def)
  have q: "np_inv ws_ok (Some (push_data fd p qo))" "uc_look (Some (push_data fd p qo)) fd = None"
    using split_ok_push [OF inv, of ws_raw "Head []" p] by (simp_all add: split_ok_def)
  obtain q' where q': "ws_push_more False fd rest (Some (push_data fd p qo)) = Inr q'"
    "ws_split_ok (Some (push_data fd p qo)) fd (fst pr2, snd pr2) q'"
    using ws_push_more_ok [OF q ne pr2(1), of False] by auto
  show ?thesis unfolding pr2(2) by (rule filter_ok_more [OF inv(1) q'])
qed

lemma ws_fill_ok:
  assumes inv: "np_inv ws_ok qo" "uc_look qo fd = None" and uc: "uc_id uc = fd" "ws_part_ok uc"
    and np: "uc_pack uc = \<lparr>np_id = fd, np_size = n, np_buffer = d\<rparr>" "length d \<le> n"
    and feed: "(if length d < n then ws_feed (Body n (uc_key uc) d) b else ws_then ([d], Head []) (\<lambda>s. ws_feed s b)) = Some pr"
  shows "ws_filter_ok qo fd pr (ws_fill False fd uc b qo)"
proof -
  let ?m = "uc_key uc" and ?need = "n - length d"
  have rd: "uc_read uc = int (length d)" "int n \<le> MAX_PACKSIZE" "uc_ismask uc \<longrightarrow> uc_unmasked uc = int (length d)"
    using uc(2) np(1) by (auto simp: ws_part_ok_def)
  have need: "int (np_size (uc_pack uc)) - uc_read uc = int ?need" using np rd(1) by (simp add: of_nat_diff)
  show ?thesis
  proof (cases "length b < ?need")
    case True
    obtain e uc' where e: "decode_wsmask_data b (int (length b)) uc = (e, uc')" by fastforce
    then have e1: "e = unmask ?m (length d) b" and uc': "uc_key uc' = ?m" "uc_read uc' = uc_read uc"
      "uc_ismask uc' \<longrightarrow> uc_unmasked uc' = int (length d + length b)"
      using decode_part [OF rd(3), of "int (length b)" b] decode_node [of b "int (length b)" uc] rd(3)
      by (auto simp: uc_key_def split: if_splits)
    let ?n = "uc'\<lparr>uc_pack := \<lparr>np_id = fd, np_size = n, np_buffer = d @ e\<rparr>, uc_read := uc_read uc' + int (length b)\<rparr>"
    have pr: "pr = ([], Body n ?m (d @ e))" using feed True ws_feed_body_part [of d b n ?m] e1 by (simp add: less_diff_conv add.commute split: if_splits)
    have "ws_ok ?n" using True e1 uc' rd by (simp add: ws_ok_def ws_part_ok_def)
    moreover have "ws_raw ?n = Body n ?m (d @ e)" using rd(1) uc' by (auto simp: ws_raw_def uc_key_def split: if_splits)
    ultimately have "ws_filter_ok qo fd pr (Inr (F_none, ws_save_uncomplete ?n qo))"
      using ws_save_ok [OF inv(1), of ?n] inv(2) pr ws_filter_save [of qo fd "Body n ?m (d @ e)"] by simp
    then show ?thesis unfolding ws_fill_def need Let_def of_nat_less_iff using True e np(1) by simp
  next
    case False
    define p where "p = d @ unmask ?m (length d) (take ?need b)"
    define rest where "rest = drop ?need b"
    have pr: "ws_then ([p], Head []) (\<lambda>s. ws_feed s rest) = Some pr"
      using feed False ws_feed_body [of d n b ?m] np(2) by (auto simp: p_def rest_def split: if_splits)
    have dec: "np_buffer (uc_pack uc) @ fst (decode_wsmask_data b (int ?need) uc) = p"
      using decode_part [OF rd(3), of "int ?need" b] False np(1) by (simp add: p_def)
    have run: "ws_fill False fd uc b qo = (if rest = [] then Inr (F_data fd p, qo)
        else res_bind (ws_push_more False fd rest (Some (push_data fd p qo))) (\<lambda>qo. Inr (F_more, qo)))"
      unfolding ws_fill_def need Let_def dec using False by (simp add: ws_push_data_def rest_def)
    show ?thesis
    proof (cases "rest = []")
      case True
      then show ?thesis using run pr filter_ok_data [OF inv, of ws_raw "Head []" p] by simp
    next
      case ne: False
      then show ?thesis using ws_filter_more [OF inv ne pr] run by simp
    qed
  qed
qed

lemma ws_header_loop_incomplete:
  "incomplete (h @ b) \<Longrightarrow> b \<noteq> [] \<Longrightarrow> ws_header_loop False b h m vars0 = Inr (-1, vars0, h @ b, [])"
proof (induction b arbitrary: h m)
  case (Cons x b)
  have "incomplete (h @ [x])" using Cons.prems incomplete_prefix [of "h @ [x]" b] by simp
  then show ?case using Cons.IH [of "h @ [x]"] Cons.prems(1) incomplete_length [of "h @ [x]"]
    by (simp add: ws_start_incomplete HEADERSIZE_def)
qed simp

lemma ws_header_loop_complete:
  assumes "length h < k" "k \<le> length (h @ b)" "\<forall>j < k. incomplete (take j (h @ b))"
    "ws_read_size (take k (h @ b)) vars0 = (n, v)" "0 \<le> n" "n \<le> MAX_PACKSIZE"
  shows "ws_header_loop False b h m vars0 = Inr (n, v, take k (h @ b), drop k (h @ b))"
  using assms
proof (induction b arbitrary: h m)
  case (Cons x b)
  have "incomplete h" using Cons.prems(1) Cons.prems(3) [rule_format, of "length h"] by simp
  then have small: "length h < HEADERSIZE" using incomplete_length [of h] by (simp add: HEADERSIZE_def)
  show ?case
  proof (cases "k = Suc (length h)")
    case True
    then show ?thesis using Cons.prems small ws_start_frame [of "h @ [x]" n v False] by simp
  next
    case False
    then have k: "length (h @ [x]) < k" using Cons.prems(1) by simp
    then have "incomplete (h @ [x])" using Cons.prems(3) [rule_format, of "length (h @ [x])"] by simp
    moreover have "b \<noteq> []" using k Cons.prems(2) by auto
    ultimately show ?thesis using Cons.IH [OF k, of "-1"] Cons.prems small by (simp add: ws_start_incomplete)
  qed
qed simp

lemma ws_headed_ok:
  assumes inv: "np_inv ws_ok qo" "uc_look qo fd = None" and uc: "uc_id uc = fd" "ws_ok uc" "uc_read uc = -1"
    and b: "b \<noteq> []" and feed: "ws_feed (Head (uc_wheader uc)) b = Some pr"
  shows "ws_filter_ok qo fd pr (ws_headed False fd uc b qo)"
proof -
  let ?h = "uc_wheader uc"
  have h: "incomplete ?h" "?h \<noteq> []" using uc by (auto simp: ws_ok_def ws_part_ok_def)
  show ?thesis
  proof (cases "incomplete (?h @ b)")
    case True
    let ?uc = "uc\<lparr>uc_wheader := ?h @ b\<rparr>"
    have pr: "pr = ([], Head (?h @ b))" using feed ws_feed_incomplete [OF True] by simp
    have "ws_ok ?uc" "ws_raw ?uc = Head (?h @ b)" using True h(2) uc(3) by (simp_all add: ws_ok_def ws_raw_def)
    then have "ws_filter_ok qo fd pr (Inr (F_none, ws_save_uncomplete ?uc qo))"
      using ws_save_ok [OF inv(1), of ?uc] inv(2) uc(1) pr ws_filter_save [of qo fd "Head (?h @ b)"] by simp
    then show ?thesis by (simp add: ws_headed_def ws_header_loop_incomplete [OF True b])
  next
    case False
    obtain n v where hd: "ws_read_size (?h @ b) vars0 = (n, v)" "0 \<le> n" "n \<le> MAX_PACKSIZE" "v_head v = hdr_len (?h @ b)"
      "length ?h < v_head v" "v_unmasked v = 0"
      and pr: "ws_then (ws_begin (nat n) (v_key v)) (\<lambda>s. ws_feed s (drop (v_head v) (?h @ b))) = Some pr"
      using ws_feed_header [OF h(1) refl False feed] .
    note r = hd(2,3,6) and len = hdr_len [OF False, folded hd(4)]
    define c where "c = drop (v_head v) (?h @ b)"
    define uc' where "uc' = uc\<lparr>uc_wheader := take (v_head v) (?h @ b), uc_pack := \<lparr>np_id = fd, np_size = nat n, np_buffer = []\<rparr>,
      uc_mask := v_mask v, uc_ismask := v_ismask v, uc_unmasked := v_unmasked v, uc_read := 0\<rparr>"
    have key: "uc_key uc' = v_key v" by (simp add: uc'_def uc_key_def v_key_def)
    have "ws_header_loop False b ?h 0 vars0 = Inr (n, v, take (v_head v) (?h @ b), c)"
      using ws_header_loop_complete [OF hd(5) len(2) _ _ r(1,2)] len(3,4) hd(1) by (simp add: c_def)
    then have run: "ws_headed False fd uc b qo = ws_fill False fd uc' c qo"
      using r(1) uc(1) by (simp add: ws_headed_def uc'_def Let_def)
    have "ws_filter_ok qo fd pr (ws_fill False fd uc' c qo)"
    proof (rule ws_fill_ok [OF inv])
      show "ws_part_ok uc'" using r by (simp add: uc'_def ws_part_ok_def)
      show "(if length [] < nat n then ws_feed (Body (nat n) (uc_key uc') []) c
          else ws_then ([[]], Head []) (\<lambda>s. ws_feed s c)) = Some pr"
        using pr unfolding key c_def by (simp add: ws_begin_def split: if_splits)
    qed (simp_all add: uc'_def)
    then show ?thesis unfolding run .
  qed
qed

lemma ws_fresh_ok:
  assumes inv: "np_inv ws_ok qo" "uc_look qo fd = None" and b: "b \<noteq> []" and feed: "ws_feed (Head []) b = Some pr"
  shows "ws_filter_ok qo fd pr (ws_fresh False fd b qo)"
proof (cases "incomplete b")
  case True
  then have "pr = ([], Head b)" using feed ws_feed_incomplete [of "[]" b] by simp
  then show ?thesis using ws_store_header_ok [OF inv True b] ws_start_incomplete [OF True]
    by (auto simp: ws_fresh_def intro: ws_filter_save)
next
  case False
  obtain n v where r: "ws_read_size b vars0 = (n, v)" "0 \<le> n" "n \<le> MAX_PACKSIZE" "v_unmasked v = 0"
    and pr: "ws_then (ws_begin (nat n) (v_key v)) (\<lambda>s. ws_feed s (drop (v_head v) b)) = Some pr"
    using ws_feed_fresh [OF False feed] .
  define c where "c = drop (v_head v) b"
  define p where "p = unmask (v_key v) 0 (take (nat n) c)"
  have run: "ws_fresh False fd b qo =
      (if int (length c) < n then Inr (F_none, ws_store_part fd n v c qo)
       else if int (length c) = n then Inr (F_data fd (fst (decode_wsmask_data c n (ws_frame_node fd v))), qo)
       else res_bind (ws_push_data fd (fst (decode_wsmask_data c n (ws_frame_node fd v))) n True qo) (\<lambda>qo.
            res_bind (ws_push_more False fd (drop (nat n) c) qo) (\<lambda>qo. Inr (F_more, qo))))"
    unfolding ws_fresh_def ws_start_frame [OF r(1-3)] c_def using r(2) by (simp add: Let_def)
  have dec: "fst (decode_wsmask_data c n (ws_frame_node fd v)) = p" if "\<not> int (length c) < n"
    using decode_part [of "ws_frame_node fd v" 0 n c] r that by (simp add: p_def)
  have pr': "ws_then ([p], Head []) (\<lambda>s. ws_feed s (drop (nat n) c)) = Some pr" if "\<not> int (length c) < n"
    using pr that by (simp add: c_def [symmetric] ws_feed_begin p_def zless_nat_eq_int_zless)
  consider "int (length c) < n" | "int (length c) = n" | "n < int (length c)" by linarith
  then show ?thesis
  proof cases
    case 1
    then have lt: "length c < nat n" by linarith
    then have "pr = ([], Body (nat n) (v_key v) (unmask (v_key v) 0 c))" using pr by (simp add: c_def [symmetric] ws_feed_begin)
    then show ?thesis using run 1 ws_filter_save [OF ws_store_part_ok [OF inv lt r(3,4)]] by simp
  next
    case 2
    then have nl: "\<not> int (length c) < n" by simp
    then have "pr = ([p], Head [])" using pr' 2 by auto
    then show ?thesis using run 2 dec [OF nl] filter_ok_data [OF inv, of ws_raw "Head []" p] by simp
  next
    case 3
    then have nl: "\<not> int (length c) < n" and ne: "drop (nat n) c \<noteq> []" using r(2) by auto
    show ?thesis using run 3 nl dec [OF nl] r(2) ws_filter_more [OF inv ne pr' [OF nl]] by (simp add: ws_push_data_def)
  qed
qed

lemma ws_filter_data_spec:
  assumes inv: "np_inv ws_ok qo" and b: "b \<noteq> []" and feed: "ws_feed (pending ws_raw (Head []) qo fd) b = Some pr"
  shows "ws_filter_ok qo fd pr (ws_filter_data fd b False qo)"
proof -
  let ?q = "close_uncomplete qo fd"
  have find: "ws_find_uncomplete qo fd = (uc_look qo fd, ?q)" using find_uncomplete_ok [OF inv] by (simp add: ws_find_uncomplete_def)
  have q: "np_inv ws_ok ?q" "uc_look ?q fd = None" using close_uncomplete_ok [OF inv, of fd ws_raw "Head []"] by auto
  have "ws_filter_ok ?q fd pr (ws_filter_data fd b False qo)"
  proof (cases "uc_look qo fd")
    case None
    then show ?thesis using ws_fresh_ok [OF q b] feed find by (simp add: ws_filter_data_def pending_def)
  next
    case (Some uc)
    have uc: "ws_ok uc" "uc_id uc = fd" using uc_look_ok [OF _ Some] inv by (auto simp: np_inv_def)
    have f: "ws_feed (ws_raw uc) b = Some pr" using feed Some by (simp add: pending_def)
    show ?thesis
    proof (cases "uc_read uc < 0")
      case True
      then have "uc_read uc = -1" using uc(1) by (auto simp: ws_ok_def ws_part_ok_def)
      then show ?thesis using ws_headed_ok [OF q uc(2,1) _ b] f find Some by (simp add: ws_filter_data_def ws_raw_def)
    next
      case False
      then have "ws_part_ok uc" "length (np_buffer (uc_pack uc)) < np_size (uc_pack uc)" using uc(1) by (auto simp: ws_ok_def)
      moreover have "uc_pack uc = \<lparr>np_id = fd, np_size = np_size (uc_pack uc), np_buffer = np_buffer (uc_pack uc)\<rparr>"
        using uc(2) by simp
      ultimately show ?thesis using ws_fill_ok [OF q uc(2), of "np_size (uc_pack uc)" "np_buffer (uc_pack uc)" b pr] f find Some False
        by (simp add: ws_filter_data_def ws_raw_def)
    qed
  qed
  from filter_ok_closed [OF this inv] show ?thesis .
qed

text \<open>The contract of a splitter, with the blocks of socket messages as input.\<close>

definition ws_block :: "int \<Rightarrow> bytes \<Rightarrow> ws_queue \<Rightarrow> (filter_result \<times> ws_queue) res" where
  "ws_block fd b qo = ws_lfilter SKYNET_SOCKET_TYPE_DATA fd (int (length b)) (Some b) [] False qo"

lemma ws_block_eq: "ws_block fd b qo = ws_filter_data fd b False qo"
  by (simp add: ws_block_def ws_lfilter_def)

interpretation websocket: splitter ws_ok ws_raw "Head []" ws_block ws_feed
proof unfold_locales
  fix s a b
  show "ws_feed s (a @ b) = Option.bind (ws_feed s a) (\<lambda>(ps, s'). map_option (\<lambda>(qs, s''). (ps @ qs, s'')) (ws_feed s' b))"
    unfolding ws_feed_append by (simp add: ws_then_def case_prod_unfold)
qed (simp_all add: ws_block_eq ws_filter_data_spec)

end
