(* ===== verification/WsRfc.thy ===== *)
theory WsRfc
  imports WsFrames
begin

text \<open>
  The frames of RFC 6455 as an encoder that is independent of the server, and the properties of
  the WebSocket splitter over streams of such frames: they are delivered whatever the
  fragmentation, and the frames the server itself builds are of this form.
\<close>

section \<open>Frames of RFC 6455\<close>

text \<open>
  A frame as a client builds it: the final bit, an opcode, the mask bit, one of the three
  encodings of the length, the masking key and the masked payload.
\<close>

datatype len_form = L7 | L16 | L64

fun be_bytes :: "nat \<Rightarrow> nat \<Rightarrow> bytes" where
  "be_bytes 0 n = []"
| "be_bytes (Suc k) n = of_nat (n div 256 ^ k) # be_bytes k n"

definition rfc_length :: "len_form \<Rightarrow> bool \<Rightarrow> nat \<Rightarrow> bytes" where
  "rfc_length form m n =
     (case form of
        L7 \<Rightarrow> [of_nat (128 * of_bool m + n)]
      | L16 \<Rightarrow> of_nat (128 * of_bool m + 126) # be_bytes 2 n
      | L64 \<Rightarrow> of_nat (128 * of_bool m + 127) # be_bytes 8 n)"

definition rfc_frame :: "nat \<Rightarrow> len_form \<Rightarrow> bytes option \<Rightarrow> bytes \<Rightarrow> bytes" where
  "rfc_frame opc form key payload =
     of_nat (128 + opc) # rfc_length form (key \<noteq> None) (length payload) @
     (case key of None \<Rightarrow> [] | Some k \<Rightarrow> k) @ unmask key 0 payload"

definition rfc_ok :: "nat \<times> len_form \<times> bytes option \<times> bytes \<Rightarrow> bool" where
  "rfc_ok = (\<lambda>(opc, form, key, payload). 0 < opc \<and> opc < 16 \<and> (form = L7 \<longrightarrow> length payload < 126) \<and>
     (case key of None \<Rightarrow> True | Some k \<Rightarrow> length k = 4) \<and> length payload \<le> 10 * 1024)"

lemma unat_u8_of_nat: "n < 256 \<Longrightarrow> unat (of_nat n :: u8) = n"
  by (simp add: unsigned_of_nat take_bit_nat_eq_self)

lemma first_byte:
  assumes "0 < opc" "opc < (16::nat)"
  shows "drop_bit 6 (of_nat (128 + opc) :: u8) AND 1 = 0" "drop_bit 5 (of_nat (128 + opc) :: u8) AND 1 = 0"
    "drop_bit 4 (of_nat (128 + opc) :: u8) AND 1 = 0" "drop_bit 7 (of_nat (128 + opc) :: u8) AND 1 = 1"
    "(of_nat (128 + opc) :: u8) AND 0xf \<noteq> 0"
proof -
  have "opc \<in> {1, 2, 3, 4, 5, 6, 7, 8, 9, 10, 11, 12, 13, 14, 15}" using assms unfolding insert_iff empty_iff by presburger
  then show "drop_bit 6 (of_nat (128 + opc) :: u8) AND 1 = 0" "drop_bit 5 (of_nat (128 + opc) :: u8) AND 1 = 0"
    "drop_bit 4 (of_nat (128 + opc) :: u8) AND 1 = 0" "drop_bit 7 (of_nat (128 + opc) :: u8) AND 1 = 1"
    "(of_nat (128 + opc) :: u8) AND 0xf \<noteq> 0"
    by auto
qed

lemma second_byte:
  fixes l :: nat
  assumes "l < 128"
  shows "(of_nat (128 * of_bool m + l) :: u8) AND 0x7f = of_nat l" "drop_bit 7 (of_nat (128 * of_bool m + l) :: u8) AND 1 = of_bool m"
proof -
  let ?w = "of_nat (128 * of_bool m + l) :: u8"
  have "?w AND 0x7f = take_bit 7 ?w" by (simp add: take_bit_eq_mask mask_eq_exp_minus_1)
  also have "\<dots> = of_nat (take_bit 7 (128 * of_bool m + l))" by (rule take_bit_of_nat)
  also have "take_bit 7 (128 * of_bool m + l) = l" using assms by (simp add: take_bit_eq_mod)
  finally show "?w AND 0x7f = of_nat l" .
  have "unat ?w = 128 * of_bool m + l" using assms by (intro unat_u8_of_nat) (cases m; simp)
  then have "unat (drop_bit 7 ?w) = of_bool m" using assms unfolding unsigned_drop_bit_eq by (simp add: drop_bit_eq_div take_bit_eq_mod)
  then have "drop_bit 7 ?w = of_bool m" by (simp add: word_unat_eq_iff)
  then show "drop_bit 7 ?w AND 1 = of_bool m" by simp
qed


lemma sint_int:
  fixes w :: "32 word"
  shows "uint w < 2 ^ 31 \<Longrightarrow> sint w = uint w"
  using signed_take_bit_31 [of "uint w"] uint_lt2p [of w] by (simp add: sint_uint)

lemma uint_be_bytes:
  assumes "n < 65536"
  shows "256 * uint (of_nat (n div 256) :: u8) + uint (of_nat n :: u8) = int n"
proof -
  have "unat (of_nat n :: u8) = n mod 256" by (simp add: unsigned_of_nat take_bit_eq_mod)
  moreover have "unat (of_nat (n div 256) :: u8) = n div 256" using assms by (intro unat_u8_of_nat) (simp add: less_mult_imp_div_less)
  ultimately have "256 * uint (of_nat (n div 256) :: u8) + uint (of_nat n :: u8) = int (256 * (n div 256) + n mod 256)"
    unfolding uint_nat by (simp only: of_nat_add of_nat_mult of_nat_numeral)
  then show ?thesis by (simp only: mult_div_mod_eq)
qed

lemma be16_be_bytes: "n < 65536 \<Longrightarrow> sint (be16 (be_bytes 2 n)) = int n"
  using be_word2 [of "of_nat (n div 256)" "of_nat n"] uint_be_bytes [of n]
  by (subst sint_int) (simp_all add: be16_def numeral_2_eq_2)

lemma be_bytes_rev: "be_bytes k n = map (\<lambda>i. of_nat (n div 256 ^ i)) (rev [0..<k])"
  by (induction k) simp_all

lemma be_bytes_8:
  assumes "n < 65536"
  shows "be_bytes 8 n = [0, 0, 0, 0, 0, 0, of_nat (n div 256), of_nat n]"
proof -
  have z: "n div 256 ^ 2 = 0" "n div 256 ^ 3 = 0" "n div 256 ^ 4 = 0" "n div 256 ^ 5 = 0" "n div 256 ^ 6 = 0" "n div 256 ^ 7 = 0"
    using assms by simp_all
  have "rev [0..<8] = [7, 6, 5, 4, 3, 2, 1, 0 :: nat]" by code_simp
  then have "be_bytes 8 n = map (\<lambda>i. of_nat (n div 256 ^ i)) [7, 6, 5, 4, 3, 2, 1, 0]" using be_bytes_rev [of 8 n] by simp
  then show ?thesis unfolding list.map z by simp
qed

lemma ntoh64_be_bytes:
  assumes "n < 65536"
  shows "sint (ucast (ntoh64 (be_bytes 8 n)) :: c_int) = int n"
proof -
  let ?w = "be32 [0, 0, of_nat (n div 256), of_nat n]"
  have w: "uint ?w = int n"
    using be_word4 [of 0 0 "of_nat (n div 256)" "of_nat n"] uint_be_bytes [OF assms] by (simp add: be32_def)
  have "be32 [0, 0, 0, 0] = 0" by (simp add: be32_def)
  then have "ntoh64 (be_bytes 8 n) = ucast ?w" by (simp add: ntoh64_def be_bytes_8 [OF assms])
  moreover have "ucast (ucast ?w :: u64) = ?w" by (rule bit_word_eqI) (simp add: bit_simps)
  ultimately have "(ucast (ntoh64 (be_bytes 8 n)) :: c_int) = ?w" by simp
  then show ?thesis using w assms by (simp add: sint_int)
qed

lemma short_length: "n < 126 \<Longrightarrow> (of_nat n :: u8) < 0x7e" "n < 126 \<Longrightarrow> uint (of_nat n :: u8) = int n"
  by (simp_all add: word_less_nat_alt unat_u8_of_nat uint_nat)

lemma rfc_read:
  assumes "rfc_ok (opc, form, key, payload)" "b = rfc_frame opc form key payload @ rest"
  shows "\<exists>v. ws_read_size b vars0 = (int (length payload), v) \<and> v_head v \<noteq> 0 \<and> v_key v = key \<and>
    drop (v_head v) b = unmask key 0 payload @ rest"
proof -
  let ?n = "length payload"
  have ok: "0 < opc" "opc < 16" "form = L7 \<Longrightarrow> ?n < 126" "case key of None \<Rightarrow> True | Some k \<Rightarrow> length k = 4" "?n < 65536"
    using assms(1) by (auto simp: rfc_ok_def)
  note first = first_byte [OF ok(1,2), unfolded of_nat_add of_nat_numeral]
  note second = second_byte [unfolded of_nat_add of_nat_mult of_nat_numeral of_nat_of_bool]
  note vals = ntoh64_be_bytes [OF ok(5), unfolded be_bytes_8 [OF ok(5)]] be16_be_bytes [OF ok(5), unfolded be_bytes_rev, simplified]
  note defs = ws_read_size_def read_mask_def rfc_frame_def rfc_length_def v_key_def vars0_def
  show ?thesis
  proof (cases form)
    case L7
    then show ?thesis using ok second [of ?n "key \<noteq> None"] short_length [of ?n]
      by (cases key) (auto simp: assms(2) defs first)
  next
    case L16
    then show ?thesis using ok second [of 126 "key \<noteq> None"] vals(2)
      by (cases key) (auto simp: assms(2) defs first numeral_2_eq_2)
  next
    case L64
    then show ?thesis using ok second [of 127 "key \<noteq> None"] vals(1)
      by (cases key) (auto simp: assms(2) defs first be_bytes_8 [OF ok(5)])
  qed
qed

lemma ws_feed_frame:
  assumes "rfc_ok (opc, form, key, payload)"
  shows "ws_feed (Head []) (rfc_frame opc form key payload @ rest) = ws_then ([payload], Head []) (\<lambda>s. ws_feed s rest)"
proof -
  define b where "b = rfc_frame opc form key payload @ rest"
  obtain v where r: "ws_read_size b vars0 = (int (length payload), v)" "v_head v \<noteq> 0" "v_key v = key"
    "drop (v_head v) b = unmask key 0 payload @ rest"
    using rfc_read [OF assms b_def] by blast
  have "int (length payload) \<le> MAX_PACKSIZE" using assms by (auto simp: rfc_ok_def MAX_PACKSIZE_def)
  then have "ws_feed (Head []) b = ws_then (ws_begin (length payload) key) (\<lambda>s. ws_feed s (unmask key 0 payload @ rest))"
    using ws_feed_decided(2) [OF incomplete_Nil _ hdr_len_read(3) [OF r(1,2)] r(1)] hdr_len_read(1) [OF r(1,2)] r by simp
  also have "\<dots> = ws_then ([payload], Head []) (\<lambda>s. ws_feed s rest)"
    by (simp add: ws_feed_begin unmask_involution)
  finally show ?thesis unfolding b_def .
qed

definition rfc_bytes :: "nat \<times> len_form \<times> bytes option \<times> bytes \<Rightarrow> bytes" where
  "rfc_bytes f = rfc_frame (fst f) (fst (snd f)) (fst (snd (snd f))) (snd (snd (snd f)))"

definition rfc_payload :: "nat \<times> len_form \<times> bytes option \<times> bytes \<Rightarrow> bytes" where
  "rfc_payload f = snd (snd (snd f))"

lemma ws_feed_frames:
  "\<forall>f \<in> set fs. rfc_ok f \<Longrightarrow> ws_feed (Head []) (concat (map rfc_bytes fs)) = Some (map rfc_payload fs, Head [])"
proof (induction fs)
  case (Cons f fs)
  then have "rfc_ok (fst f, fst (snd f), fst (snd (snd f)), snd (snd (snd f)))" by simp
  from ws_feed_frame [OF this, of "concat (map rfc_bytes fs)"] Cons show ?case
    by (simp add: rfc_bytes_def [of f] rfc_payload_def [of f] ws_then_def)
qed simp

section \<open>Properties of the stream of frames\<close>

abbreviation ws_pending :: "ws_queue \<Rightarrow> int \<Rightarrow> ws_state" where "ws_pending \<equiv> pending ws_raw (Head [])"

text \<open>
  C19: however the blocks of several connections are cut and interleaved, as long as the
  reference decoder accepts the streams, the service gets for every connection exactly the
  packages the decoder gives, in order, and what is kept for the connection is the state of the
  decoder; no buffer is overrun, no size is negative and every loop ends.
\<close>

theorem websocket_fragmentation:
  assumes "np_inv ws_ok qo" "np_content qo = []" "\<forall>(fd, b) \<in> set bs. b \<noteq> []"
    "\<forall>fd. ws_feed (ws_pending qo fd) (stream_of fd bs) \<noteq> None"
  shows "\<exists>out qo'. serve ws_block bs qo = Some (Inr (out, qo')) \<and> np_inv ws_ok qo' \<and>
    (\<forall>fd. ws_feed (ws_pending qo fd) (stream_of fd bs) = Some (packages_of fd out, ws_pending qo' fd))"
  using websocket.serve_feeds [OF assms] by blast

theorem websocket_fragmentation_witness:
  "\<exists>out qo'. serve ws_block [(5, [0x82]), (6, [0x81, 1]), (5, [2, 72, 73, 0x82]), (6, [90])] None = Some (Inr (out, qo')) \<and>
     packages_of 5 out = [[72, 73]] \<and> packages_of 6 out = [[90]] \<and> ws_pending qo' 5 = Head [0x82]"
proof -
  let ?bs = "[(5, [0x82]), (6, [0x81, 1]), (5, [2, 72, 73, 0x82]), (6, [90])] :: (int \<times> bytes) list"
  have f5: "ws_feed (Head []) [0x82, 2, 72, 73, 0x82] = Some ([[72, 73]], Head [0x82])" by code_simp
  have f6: "ws_feed (Head []) [0x81, 1, 90] = Some ([[90]], Head [])" by code_simp
  have s: "stream_of fd ?bs = (if fd = 5 then [0x82, 2, 72, 73, 0x82] else if fd = 6 then [0x81, 1, 90] else [])" for fd
    by (simp add: stream_of_def)
  have "\<forall>fd. ws_feed (ws_pending None fd) (stream_of fd ?bs) \<noteq> None" unfolding s by (simp add: f5 f6 del: ws_feed.simps(2))
  from websocket_fragmentation [OF _ _ _ this] obtain out qo' where
    "serve ws_block ?bs None = Some (Inr (out, qo'))"
    and o: "\<And>fd. ws_feed (ws_pending None fd) (stream_of fd ?bs) = Some (packages_of fd out, ws_pending qo' fd)" by auto
  moreover have "packages_of 5 out = [[72, 73]] \<and> ws_pending qo' 5 = Head [0x82]" using o [of 5] f5 unfolding s by simp
  moreover have "packages_of 6 out = [[90]]" using o [of 6] f6 unfolding s by simp
  ultimately show ?thesis by blast
qed

text \<open>
  What clients send, the service gets: if the bytes of every connection are frames of RFC
  6455 of at most 10 KB, with any opcode but 0, masked or not, with any of the three encodings
  of the length, the service gets the payloads, unmasked and in order, whatever the blocks the
  frames arrive in.
\<close>

theorem websocket_frames_delivered:
  assumes "\<forall>(fd, b) \<in> set bs. b \<noteq> []" "\<forall>fd. stream_of fd bs = concat (map rfc_bytes (fs fd)) \<and> (\<forall>f \<in> set (fs fd). rfc_ok f)"
  shows "\<exists>out qo'. serve ws_block bs None = Some (Inr (out, qo')) \<and>
    (\<forall>fd. packages_of fd out = map rfc_payload (fs fd) \<and> ws_pending qo' fd = Head [])"
proof -
  have f: "ws_feed (ws_pending None fd) (stream_of fd bs) = Some (map rfc_payload (fs fd), Head [])" for fd
    using ws_feed_frames [of "fs fd"] assms(2) by simp
  then obtain out qo' where o: "serve ws_block bs None = Some (Inr (out, qo'))"
    "\<And>fd. ws_feed (ws_pending None fd) (stream_of fd bs) = Some (packages_of fd out, ws_pending qo' fd)"
    using websocket.serve_feeds [OF _ _ assms(1), of None] by auto
  have "packages_of fd out = map rfc_payload (fs fd) \<and> ws_pending qo' fd = Head []" for fd
    using o(2) [of fd] unfolding f by simp
  then show ?thesis using o(1) by blast
qed

theorem websocket_frames_delivered_witness:
  "\<exists>out qo'. serve ws_block [(5, [0x81, 0x81, 1]), (5, [2, 3, 4, 66])] None = Some (Inr (out, qo')) \<and> packages_of 5 out = [[67]]"
proof -
  let ?f = "(1, L7, Some [1, 2, 3, 4], [67]) :: nat \<times> len_form \<times> bytes option \<times> bytes"
  have "rfc_bytes ?f = [0x81, 0x81, 1, 2, 3, 4, 66]" by code_simp
  then have "\<forall>fd. stream_of fd [(5, [0x81, 0x81, 1]), (5, [2, 3, 4, 66])] = concat (map rfc_bytes (if fd = 5 then [?f] else [])) \<and>
      (\<forall>f \<in> set (if fd = 5 then [?f] else []). rfc_ok f)"
    by (simp add: stream_of_def rfc_ok_def)
  from websocket_frames_delivered [OF _ this] show ?thesis by (fastforce simp: rfc_payload_def)
qed

section \<open>The frames of the server\<close>

definition shortest_form :: "nat \<Rightarrow> len_form" where
  "shortest_form n = (if n < 126 then L7 else if n < 65536 then L16 else L64)"

lemma FRAME_SET_LENGTH_eq: "FRAME_SET_LENGTH n i = of_nat (n div 256 ^ i)"
proof -
  have "(of_nat (drop_bit (i * 8) n AND 255) :: u8) = of_nat (take_bit 8 (drop_bit (i * 8) n))"
    by (simp add: take_bit_eq_mask mask_eq_exp_minus_1)
  also have "\<dots> = of_nat (drop_bit (i * 8) n)" by (rule bit_word_eqI) (simp add: bit_simps)
  finally show ?thesis unfolding FRAME_SET_LENGTH_def by (simp add: drop_bit_eq_div mult.commute [of i] power_mult)
qed

text \<open>
  What \<open>lpack\<close> builds is a frame of RFC 6455 with the binary opcode, no mask and the shortest
  encoding of the length, for payloads of every size.
\<close>

theorem ws_lpack_is_rfc_frame: "ws_lpack p = rfc_frame 2 (shortest_form (length p)) None p"
proof -
  have m: "unmask None 0 p = p" by (induction p rule: rev_induct) (simp_all add: unmask_append unmask_byte_def)
  have b8: "be_bytes 8 n = map (\<lambda>i. of_nat (n div 256 ^ i)) [7, 6, 5, 4, 3, 2, 1, 0]" for n
  proof -
    have "rev [0..<8] = [7, 6, 5, 4, 3, 2, 1, 0 :: nat]" by code_simp
    then show ?thesis using be_bytes_rev [of 8 n] by simp
  qed
  have b2: "be_bytes 2 n = map (\<lambda>i. of_nat (n div 256 ^ i)) [1, 0]" for n by (simp add: numeral_2_eq_2)
  have fin: "FRAME_SET_FIN 1 OR FRAME_SET_OPCODE 2 = of_nat (128 + 2)" by code_simp
  show ?thesis
    unfolding ws_lpack_def rfc_frame_def rfc_length_def shortest_form_def fin b8 b2
    by (simp add: m FRAME_SET_LENGTH_eq FRAME_SET_MASK_def Let_def)
qed

end
