(* ===== verification/WsHandshake.thy ===== *)
theory WsHandshake
  imports WsRfc
begin

text \<open>
  The handshake phase of the WebSocket splitter: a request of at most 1024 bytes that arrives
  in blocks is delivered as one package when its empty line has come. Beside the property, the
  theory has the inputs on which the code leaves its buffers.
\<close>

section \<open>The search for the empty line\<close>

definition occurs :: "bytes \<Rightarrow> nat \<Rightarrow> bool" where
  "occurs b i \<longleftrightarrow> take 4 (drop i b) = crlf2"

lemma crlf2_simps [simp]: "length crlf2 = 4" "crlf2 \<noteq> []" "[] \<noteq> crlf2"
  by (simp_all add: crlf2_def)

lemma occurs_length: "occurs b i \<Longrightarrow> i + 4 \<le> length b"
  using length_take [of 4 "drop i b"] by (auto simp: occurs_def)

lemma occurs_0: "hd h = hd crlf2 \<and> take (length crlf2) h = crlf2 \<longleftrightarrow> occurs h 0"
proof (cases h)
  case (Cons x xs)
  have "x = hd crlf2" if "take 4 (x # xs) = crlf2" using arg_cong [OF that, of hd] by simp
  then show ?thesis using Cons by (auto simp: occurs_def)
qed (simp add: occurs_def)

lemma occurs_tl: "occurs (tl h) j \<longleftrightarrow> h \<noteq> [] \<and> occurs h (Suc j)"
  by (cases h) (auto simp: occurs_def)

lemma strnpos_loop_none: "\<forall>j < k. \<not> occurs h j \<Longrightarrow> strnpos_loop k i h crlf2 = -1"
proof (induction k arbitrary: h i)
  case (Suc k)
  have "\<not> occurs h 0" using Suc.prems by blast
  moreover have "\<not> occurs (tl h) j" if "j < k" for j using Suc.prems that by (simp add: occurs_tl)
  ultimately show ?case using Suc.IH [of "tl h" "Suc i"] unfolding strnpos_loop.simps occurs_0 by simp
qed simp

lemma strnpos_loop_found:
  "occurs h j \<Longrightarrow> \<forall>j' < j. \<not> occurs h j' \<Longrightarrow> j < k \<Longrightarrow> strnpos_loop k i h crlf2 = int (i + j)"
proof (induction k arbitrary: h i j)
  case (Suc k)
  show ?case
  proof (cases j)
    case 0
    then show ?thesis using Suc.prems(1) unfolding strnpos_loop.simps occurs_0 by simp
  next
    case m: (Suc m)
    have "\<not> occurs h 0" using Suc.prems(2) m by blast
    moreover have "occurs (tl h) m" using Suc.prems(1) m occurs_length [of h j] by (auto simp: occurs_tl)
    moreover have "\<forall>j' < m. \<not> occurs (tl h) j'" using Suc.prems(2) m by (auto simp: occurs_tl)
    ultimately show ?thesis using Suc.IH [of "tl h" m "Suc i"] Suc.prems(3) m unfolding strnpos_loop.simps occurs_0 by simp
  qed
qed simp

lemma get_http_header_none:
  assumes "\<forall>j. \<not> occurs b j" "3 \<le> length b"
  shows "get_http_header b = Inr (-1)"
  using strnpos_loop_none [of _ b 0] assms by (simp add: get_http_header_def websocket_strnpos_def res_assert_def)

lemma get_http_header_found:
  assumes "occurs b j" "\<forall>j' < j. \<not> occurs b j'"
  shows "get_http_header b = Inr (int j + 4)"
  using strnpos_loop_found [OF assms, of "length b + 1 - 4" 0] occurs_length [OF assms(1)]
  by (simp add: get_http_header_def websocket_strnpos_def res_assert_def)

text \<open>A request: the empty line is at its end and nowhere before.\<close>

definition request :: "bytes \<Rightarrow> bool" where
  "request r \<longleftrightarrow> 4 \<le> length r \<and> (\<forall>i. occurs r i \<longleftrightarrow> i + 4 = length r)"

lemma occurs_prefix: "occurs a i \<Longrightarrow> occurs (a @ c) i"
  using occurs_length [of a i] by (simp add: occurs_def)

lemma request_prefix:
  assumes "request (p @ c)" "c \<noteq> []" "3 \<le> length p"
  shows "get_http_header p = Inr (-1)"
proof (rule get_http_header_none [OF _ assms(3)], rule allI, rule notI)
  fix j assume "occurs p j"
  then have "occurs (p @ c) j" "j + 4 \<le> length p" using occurs_prefix occurs_length by blast+
  then show False using assms(1,2) by (auto simp: request_def)
qed

lemma request_header:
  assumes "request r"
  shows "get_http_header r = Inr (int (length r))"
proof -
  have i: "occurs r (length r - 4)" "4 \<le> length r" using assms by (auto simp: request_def)
  have "\<not> occurs r j" if "j < length r - 4" for j using assms that by (auto simp: request_def)
  then show ?thesis using get_http_header_found [OF i(1)] i(2) by auto
qed

section \<open>Collecting a request\<close>

lemma hs_loop_part:
  assumes "request (h @ b @ c)" "c \<noteq> []" "b \<noteq> []" "3 \<le> length h" "length (h @ b) \<le> HEADERSIZE"
  shows "ws_header_loop True b h m v = Inr (-1, v, h @ b, [])"
  using assms
proof (induction b arbitrary: h m)
  case (Cons x b)
  have "get_http_header (h @ [x]) = Inr (-1)" using request_prefix [of "h @ [x]" "b @ c"] Cons.prems by simp
  then show ?case using Cons.IH [of "h @ [x]" "-1"] Cons.prems by (simp add: ws_start_def)
qed simp

lemma hs_loop_full:
  assumes "request (h @ b)" "b \<noteq> []" "3 \<le> length h" "length (h @ b) \<le> HEADERSIZE"
  shows "ws_header_loop True b h m v = Inr (int (length (h @ b)), v, h @ b, [])"
  using assms
proof (induction b arbitrary: h m)
  case (Cons x b)
  show ?case
  proof (cases "b = []")
    case True
    then show ?thesis using request_header [of "h @ [x]"] Cons.prems by (simp add: ws_start_def)
  next
    case False
    then have "get_http_header (h @ [x]) = Inr (-1)" using request_prefix [of "h @ [x]" b] Cons.prems by simp
    then show ?thesis using Cons.IH [of "h @ [x]" "-1"] Cons.prems False by (simp add: ws_start_def)
  qed
qed simp

text \<open>While the request of \<open>fd\<close> is being collected, its node is not one of a frame.\<close>

definition hs_ok :: "int \<Rightarrow> ws_uncomplete \<Rightarrow> bool" where
  "hs_ok fd uc \<longleftrightarrow> ws_ok uc \<or> uc_id uc = fd"

definition collecting :: "ws_queue \<Rightarrow> int \<Rightarrow> bytes \<Rightarrow> ws_queue \<Rightarrow> bool" where
  "collecting q0 fd h qo \<longleftrightarrow> np_inv (hs_ok fd) qo \<and> np_content qo = np_content q0 \<and>
     (\<forall>k. k \<noteq> fd \<longrightarrow> uc_look qo k = uc_look q0 k) \<and>
     (if h = [] then uc_look qo fd = None
      else \<exists>uc. uc_look qo fd = Some uc \<and> uc_read uc = -1 \<and> uc_wheader uc = h \<and> uc_id uc = fd)"

fun ws_handshake :: "int \<Rightarrow> bytes list \<Rightarrow> ws_queue \<Rightarrow> (filter_result list \<times> ws_queue) res" where
  "ws_handshake fd [] qo = Inr ([], qo)"
| "ws_handshake fd (b # bs) qo =
     res_bind (ws_lfilter SKYNET_SOCKET_TYPE_DATA fd (int (length b)) (Some b) [] True qo) (\<lambda>(r, qo).
     res_bind (ws_handshake fd bs qo) (\<lambda>(rs, qo). Inr (r # rs, qo)))"

lemma np_inv_mono: "np_inv ok qo \<Longrightarrow> (\<And>uc. ok uc \<Longrightarrow> ok' uc) \<Longrightarrow> np_inv ok' qo"
  by (fastforce simp: np_inv_def table_inv_def split: option.splits)

lemma hs_done:
  assumes "np_inv (hs_ok fd) qo" "uc_look qo fd = None"
  shows "np_inv ws_ok qo"
proof (cases qo)
  case (Some q)
  have "ws_ok uc" if "uc \<in> set (nq_hash q ! h)" "h < HASHSIZE" for uc h
  proof -
    have t: "hash_fd (uc_id uc) = h" "hs_ok fd uc" using assms(1) that by (auto simp: np_inv_def table_inv_def Some)
    have "uc_id uc \<noteq> fd"
      using assms(2) unlink_uc_None [of fd "nq_hash q ! hash_fd fd"] t(1) that(1) by (auto simp: uc_look_def Some)
    then show ?thesis using t(2) by (simp add: hs_ok_def)
  qed
  then show ?thesis using assms(1) by (auto simp: np_inv_def table_inv_def Some)
qed simp

lemma collecting_save:
  assumes "np_inv (hs_ok fd) qo" "np_content qo = np_content q0" "\<forall>k. k \<noteq> fd \<longrightarrow> uc_look qo k = uc_look q0 k"
    "uc_look qo fd = None" "uc_id uc = fd" "uc_read uc = -1" "uc_wheader uc = h" "h \<noteq> []"
  shows "collecting q0 fd h (ws_save_uncomplete uc qo)"
  using save_uncomplete_spec [of "hs_ok fd" qo uc] assms
  by (auto simp: collecting_def np_inv_def ws_save_uncomplete_def hs_ok_def)

lemma collecting_find:
  assumes "collecting q0 fd h qo"
  shows "ws_find_uncomplete qo fd = (uc_look qo fd, close_uncomplete qo fd)" "np_inv (hs_ok fd) (close_uncomplete qo fd)"
    "np_content (close_uncomplete qo fd) = np_content q0" "\<forall>k. k \<noteq> fd \<longrightarrow> uc_look (close_uncomplete qo fd) k = uc_look q0 k"
    "uc_look (close_uncomplete qo fd) fd = None"
  using assms find_uncomplete_ok [of "hs_ok fd" qo fd] close_uncomplete_ok [of "hs_ok fd" qo fd ws_raw "Head []"]
    close_uncomplete_table [of "hs_ok fd" qo fd]
  by (auto simp: collecting_def ws_find_uncomplete_def np_inv_def)

lemma hs_part:
  assumes c: "collecting q0 fd h qo" and r: "request (h @ b @ c)" "c \<noteq> []" "b \<noteq> []" "length (h @ b) \<le> HEADERSIZE"
    and three: "h = [] \<Longrightarrow> 3 \<le> length b" "h \<noteq> [] \<Longrightarrow> 3 \<le> length h"
  shows "\<exists>qo'. ws_filter_data fd b True qo = Inr (F_none, qo') \<and> collecting q0 fd (h @ b) qo'"
proof (cases "h = []")
  case True
  have none: "uc_look qo fd = None" using c True by (simp add: collecting_def)
  have "get_http_header b = Inr (-1)" using request_prefix [of b c] r three(1) True by simp
  then have "ws_filter_data fd b True qo =
      Inr (F_none, ws_save_uncomplete ((ws_node fd)\<lparr>uc_read := -1, uc_wheader := b\<rparr>) (close_uncomplete qo fd))"
    using collecting_find(1) [OF c] none r(4) True by (simp add: ws_filter_data_def ws_fresh_def ws_start_def ws_store_header_def)
  then show ?thesis using collecting_save [OF collecting_find(2-5) [OF c], of _ b] r(3) True by (simp add: ws_node_def)
next
  case False
  obtain uc where uc: "uc_look qo fd = Some uc" "uc_read uc = -1" "uc_wheader uc = h" "uc_id uc = fd"
    using c False by (auto simp: collecting_def)
  have "ws_filter_data fd b True qo = Inr (F_none, ws_save_uncomplete (uc\<lparr>uc_wheader := h @ b\<rparr>) (close_uncomplete qo fd))"
    using collecting_find(1) [OF c] uc hs_loop_part [OF r(1-3) three(2) [OF False] r(4)]
    by (simp add: ws_filter_data_def ws_headed_def)
  then show ?thesis using collecting_save [OF collecting_find(2-5) [OF c], of _ "h @ b"] r(3) uc by simp
qed

lemma hs_full:
  assumes c: "collecting q0 fd h qo" and r: "request (h @ b)" "b \<noteq> []" "length (h @ b) \<le> HEADERSIZE"
    and three: "h \<noteq> [] \<Longrightarrow> 3 \<le> length h"
  shows "\<exists>qo'. ws_filter_data fd b True qo = Inr (F_data fd (h @ b), qo') \<and> collecting q0 fd [] qo'"
proof -
  have "collecting q0 fd [] (close_uncomplete qo fd)" using collecting_find(2-5) [OF c] by (simp add: collecting_def)
  moreover have "ws_filter_data fd b True qo = Inr (F_data fd (h @ b), close_uncomplete qo fd)"
  proof (cases "h = []")
    case True
    have none: "uc_look qo fd = None" using c True by (simp add: collecting_def)
    have "get_http_header b = Inr (int (length b))" using request_header [of b] r(1) True by simp
    then show ?thesis using collecting_find(1) [OF c] none True
      by (simp add: ws_filter_data_def ws_fresh_def ws_start_def ws_frame_node_def ws_node_def decode_wsmask_data_def)
  next
    case False
    obtain uc where uc: "uc_look qo fd = Some uc" "uc_read uc = -1" "uc_wheader uc = h" "uc_id uc = fd"
      using c False by (auto simp: collecting_def)
    then show ?thesis using collecting_find(1) [OF c] hs_loop_full [OF r(1,2) three [OF False] r(3)]
      by (simp add: ws_filter_data_def ws_headed_def ws_fill_def decode_wsmask_data_def Let_def)
  qed
  ultimately show ?thesis by blast
qed

lemma handshake_collects:
  assumes "collecting q0 fd h qo" "request (h @ concat bs)" "bs \<noteq> []" "\<forall>b \<in> set bs. b \<noteq> []" "length (h @ concat bs) \<le> HEADERSIZE"
    "h = [] \<Longrightarrow> 3 \<le> length (hd bs)" "h \<noteq> [] \<Longrightarrow> 3 \<le> length h"
  shows "\<exists>qo'. ws_handshake fd bs qo = Inr (replicate (length bs - 1) F_none @ [F_data fd (h @ concat bs)], qo') \<and>
    collecting q0 fd [] qo'"
  using assms
proof (induction bs arbitrary: h qo)
  case (Cons b bs)
  have lf: "ws_lfilter SKYNET_SOCKET_TYPE_DATA fd (int (length b)) (Some b) [] True qo = ws_filter_data fd b True qo"
    by (simp add: ws_lfilter_def)
  show ?case
  proof (cases "bs = []")
    case True
    then show ?thesis using hs_full [OF Cons.prems(1), of b] Cons.prems lf by auto
  next
    case False
    then have "concat bs \<noteq> []" using Cons.prems(4) by (cases bs) auto
    then obtain q1 where q1: "ws_filter_data fd b True qo = Inr (F_none, q1)" "collecting q0 fd (h @ b) q1"
      using hs_part [OF Cons.prems(1), of b "concat bs"] Cons.prems by auto
    obtain qo' where "ws_handshake fd bs q1 = Inr (replicate (length bs - 1) F_none @ [F_data fd ((h @ b) @ concat bs)], qo')"
      "collecting q0 fd [] qo'"
      using Cons.IH [OF q1(2)] Cons.prems False by fastforce
    then show ?thesis using lf q1(1) False by (cases bs) auto
  qed
qed simp

text \<open>
  A handshake request of at most 1024 bytes that arrives in blocks, the first of at least
  three bytes, is delivered as one package with the block that completes it; nothing is
  delivered before, no other connection is touched and the connection is then ready for frames.
\<close>

theorem handshake_delivers_request:
  assumes "np_inv ws_ok qo" "uc_look qo fd = None" "request (concat bs)" "\<forall>b \<in> set bs. b \<noteq> []" "3 \<le> length (hd bs)"
    "length (concat bs) \<le> HEADERSIZE"
  shows "\<exists>qo'. ws_handshake fd bs qo = Inr (replicate (length bs - 1) F_none @ [F_data fd (concat bs)], qo') \<and>
    np_inv ws_ok qo' \<and> np_content qo' = np_content qo \<and> ws_pending qo' = ws_pending qo"
proof -
  have "np_inv (hs_ok fd) qo" by (rule np_inv_mono [OF assms(1)]) (simp add: hs_ok_def)
  then have c: "collecting qo fd [] qo" using assms(2) by (simp add: collecting_def)
  have "bs \<noteq> []" using assms(3) by (auto simp: request_def)
  then obtain qo' where q: "ws_handshake fd bs qo = Inr (replicate (length bs - 1) F_none @ [F_data fd (concat bs)], qo')"
    "collecting qo fd [] qo'"
    using handshake_collects [OF c, of bs] assms(3-6) by auto
  then have "np_inv ws_ok qo'" using hs_done [of fd qo'] by (simp add: collecting_def)
  moreover have "uc_look qo' k = uc_look qo k" for k using q(2) assms(2) by (cases "k = fd") (simp_all add: collecting_def)
  then have "ws_pending qo' = ws_pending qo" by (simp add: pending_def fun_eq_iff)
  ultimately show ?thesis using q by (auto simp: collecting_def)
qed

lemma request_example: "request [71, 13, 10, 13, 10]"
proof -
  have "occurs [71, 13, 10, 13, 10] i \<longleftrightarrow> i = 1" for i
  proof (cases "i < 2")
    case True
    then have "i = 0 \<or> i = 1" by linarith
    then show ?thesis by (auto simp: occurs_def crlf2_def)
  qed (use occurs_length [of "[71, 13, 10, 13, 10]" i] in auto)
  then show ?thesis by (auto simp: request_def)
qed

theorem handshake_delivers_request_witness:
  "\<exists>qo'. ws_handshake 8 [[71, 13, 10], [13], [10]] None = Inr ([F_none, F_none, F_data 8 [71, 13, 10, 13, 10]], qo') \<and>
     np_inv ws_ok qo' \<and> ws_pending qo' = ws_pending None"
  using handshake_delivers_request [of None 8 "[[71, 13, 10], [13], [10]]"] request_example
  by (auto simp: uc_look_def HEADERSIZE_def numeral_2_eq_2)

section \<open>Inputs the code does not withstand\<close>

text \<open>
  A block of one or two bytes during the handshake makes the search run past the buffer, since
  its bound is computed without a sign.
\<close>

lemma short_handshake_overrun:
  assumes "length b < 3"
  shows "ws_filter_data fd b True None = Inl (Out_of_bounds ''websocket_strnpos'')"
  using assms by (simp add: ws_filter_data_def ws_find_uncomplete_def find_uncomplete_def ws_fresh_def ws_start_def
      get_http_header_def websocket_strnpos_def res_assert_def)

text \<open>A first block of more than 1024 bytes without an empty line is copied past the header field.\<close>

lemma long_handshake_overflow:
  assumes "\<forall>j. \<not> occurs b j" "HEADERSIZE < length b"
  shows "ws_filter_data fd b True None = Inl (Out_of_bounds ''header'')"
  using get_http_header_none [OF assms(1)] assms(2)
  by (simp add: ws_filter_data_def ws_find_uncomplete_def find_uncomplete_def ws_fresh_def ws_start_def
      ws_store_header_def HEADERSIZE_def)


end
