(* ===== verification/Seri.thy ===== *)
theory Seri
  imports Prelude
begin

text \<open>
  The serialisation of Lua values, \<open>lualib-src/lua-seri.c\<close>, with which services exchange
  messages. A Lua value is a datatype; a table is the list of its entries in the order
  \<open>lua_next\<close> visits them, and a table with a \<open>__pairs\<close> metamethod the list of pairs its
  iterator yields. What the Lua library decides on its own is the record \<open>lua\<close>: the border
  \<open>lua_rawlen\<close> picks, and the key a floating point key is normalised to (none for NaN).
  Numbers are written in the byte order of the machine, little-endian. Lua errors are values.
  The reader gets fuel, four times the length of the stream, which is shown to be enough.
\<close>

section \<open>Data\<close>

datatype lval =
    LNil
  | LBool bool
  | LInt u64
  | LReal u64 \<comment> \<open>the representation of a double\<close>
  | LStr bytes
  | LPtr u64
  | LTable "(lval \<times> lval) list"
  | LMeta "(lval \<times> lval) list"
  | LOther string \<comment> \<open>a value of a type that cannot be serialised\<close>

datatype lua_error =
    Invalid_stream nat \<comment> \<open>the number of bytes left\<close>
  | Too_deep
  | Unsupported string
  | Block_too_big
  | Index_is_NaN
  | Null_pointer
  | Seri_fault fault

type_synonym 'a lres = "lua_error + 'a"

definition lbind :: "'a lres \<Rightarrow> ('a \<Rightarrow> 'b lres) \<Rightarrow> 'b lres" where
  "lbind m f = (case m of Inl e \<Rightarrow> Inl e | Inr x \<Rightarrow> f x)"

lemma lbind_simps [simp]: "lbind (Inl e) f = Inl e" "lbind (Inr x) f = f x"
  by (simp_all add: lbind_def)

lemma lbind_cong [fundef_cong]: "m = m' \<Longrightarrow> (\<And>x. m' = Inr x \<Longrightarrow> f x = g x) \<Longrightarrow> lbind m f = lbind m' g"
  by (auto simp: lbind_def split: sum.splits)

lemma lbind_Inr: "lbind m f = Inr y \<longleftrightarrow> (\<exists>x. m = Inr x \<and> f x = Inr y)"
  by (cases m) auto

record lua =
  lua_rawlen :: "(lval \<times> lval) list \<Rightarrow> nat"
  lua_floatkey :: "u64 \<Rightarrow> lval option"

definition TYPE_NIL :: nat where "TYPE_NIL = 0"
definition TYPE_BOOLEAN :: nat where "TYPE_BOOLEAN = 1"
definition TYPE_NUMBER :: nat where "TYPE_NUMBER = 2"
definition TYPE_NUMBER_ZERO :: nat where "TYPE_NUMBER_ZERO = 0"
definition TYPE_NUMBER_BYTE :: nat where "TYPE_NUMBER_BYTE = 1"
definition TYPE_NUMBER_WORD :: nat where "TYPE_NUMBER_WORD = 2"
definition TYPE_NUMBER_DWORD :: nat where "TYPE_NUMBER_DWORD = 4"
definition TYPE_NUMBER_QWORD :: nat where "TYPE_NUMBER_QWORD = 6"
definition TYPE_NUMBER_REAL :: nat where "TYPE_NUMBER_REAL = 8"
definition TYPE_USERDATA :: nat where "TYPE_USERDATA = 3"
definition TYPE_SHORT_STRING :: nat where "TYPE_SHORT_STRING = 4"
definition TYPE_LONG_STRING :: nat where "TYPE_LONG_STRING = 5"
definition TYPE_TABLE :: nat where "TYPE_TABLE = 6"
definition MAX_COOKIE :: nat where "MAX_COOKIE = 32"
definition BLOCK_SIZE :: nat where "BLOCK_SIZE = 128"
definition MAX_DEPTH :: nat where "MAX_DEPTH = 32"

lemmas seri_types = TYPE_NIL_def TYPE_BOOLEAN_def TYPE_NUMBER_def TYPE_NUMBER_ZERO_def TYPE_NUMBER_BYTE_def
  TYPE_NUMBER_WORD_def TYPE_NUMBER_DWORD_def TYPE_NUMBER_QWORD_def TYPE_NUMBER_REAL_def TYPE_USERDATA_def
  TYPE_SHORT_STRING_def TYPE_LONG_STRING_def TYPE_TABLE_def MAX_COOKIE_def

definition COMBINE_TYPE :: "nat \<Rightarrow> nat \<Rightarrow> u8" where
  "COMBINE_TYPE t v = of_nat (t OR push_bit 3 v)"

section \<open>The write buffer\<close>

text \<open>A chain of blocks: the full ones before the current block, and the current one.\<close>

record write_block =
  wb_full :: "bytes list"
  wb_current :: bytes
  wb_len :: int

definition wb_init :: write_block where
  "wb_init = \<lparr>wb_full = [], wb_current = [], wb_len = 0\<rparr>"

definition wb_free :: "write_block \<Rightarrow> write_block" where
  "wb_free wb = \<lparr>wb_full = [], wb_current = [], wb_len = 0\<rparr>"

text \<open>The part of \<open>wb_push\<close> behind the label \<open>_again\<close> and the copy that follows it.\<close>

definition wb_next :: "write_block \<Rightarrow> write_block" where
  "wb_next wb = wb\<lparr>wb_full := wb_full wb @ [wb_current wb], wb_current := []\<rparr>"

function wb_copy :: "bytes \<Rightarrow> write_block \<Rightarrow> write_block" where
  "wb_copy buf wb =
     (if int (length (wb_current wb)) \<le> int BLOCK_SIZE - int (length buf) then
        wb\<lparr>wb_current := wb_current wb @ buf, wb_len := wb_len wb + int (length buf)\<rparr>
      else if length (wb_current wb) < BLOCK_SIZE then
        let copy = BLOCK_SIZE - length (wb_current wb) in
        wb_copy (drop copy buf)
          (wb_next (wb\<lparr>wb_current := wb_current wb @ take copy buf, wb_len := wb_len wb + int copy\<rparr>))
      else wb)"
  by pat_completeness auto
termination by (relation "measure (\<lambda>(buf, wb). length buf)") (auto simp: BLOCK_SIZE_def)

declare wb_copy.simps [simp del]

definition wb_push :: "bytes \<Rightarrow> write_block \<Rightarrow> write_block" where
  "wb_push buf wb = wb_copy buf (if length (wb_current wb) = BLOCK_SIZE then wb_next wb else wb)"

section \<open>Writing\<close>

definition le_bytes :: "nat \<Rightarrow> 'a :: len word \<Rightarrow> bytes" where
  "le_bytes k w = map (\<lambda>i. ucast (drop_bit (8 * i) w)) [0..<k]"

definition wb_nil :: "write_block \<Rightarrow> write_block" where
  "wb_nil wb = wb_push [of_nat TYPE_NIL] wb"

definition wb_boolean :: "bool \<Rightarrow> write_block \<Rightarrow> write_block" where
  "wb_boolean b wb = wb_push [COMBINE_TYPE TYPE_BOOLEAN (if b then 1 else 0)] wb"

definition wb_integer :: "u64 \<Rightarrow> write_block \<Rightarrow> write_block" where
  "wb_integer v wb =
     (let n = (\<lambda>c. [COMBINE_TYPE TYPE_NUMBER c]) in
      if v = 0 then wb_push (n TYPE_NUMBER_ZERO) wb
      else if sint v \<noteq> sint (ucast v :: 32 word) then wb_push (le_bytes 8 v) (wb_push (n TYPE_NUMBER_QWORD) wb)
      else if sint v < 0 then wb_push (le_bytes 4 (ucast v :: 32 word)) (wb_push (n TYPE_NUMBER_DWORD) wb)
      else if sint v < 0x100 then wb_push [ucast v] (wb_push (n TYPE_NUMBER_BYTE) wb)
      else if sint v < 0x10000 then wb_push (le_bytes 2 (ucast v :: 16 word)) (wb_push (n TYPE_NUMBER_WORD) wb)
      else wb_push (le_bytes 4 (ucast v :: 32 word)) (wb_push (n TYPE_NUMBER_DWORD) wb))"

definition wb_real :: "u64 \<Rightarrow> write_block \<Rightarrow> write_block" where
  "wb_real v wb = wb_push (le_bytes 8 v) (wb_push [COMBINE_TYPE TYPE_NUMBER TYPE_NUMBER_REAL] wb)"

definition wb_pointer :: "u64 \<Rightarrow> write_block \<Rightarrow> write_block" where
  "wb_pointer v wb = wb_push (le_bytes 8 v) (wb_push [of_nat TYPE_USERDATA] wb)"

definition wb_string :: "bytes \<Rightarrow> write_block \<Rightarrow> write_block" where
  "wb_string str wb =
     (let len = length str in
      if len < MAX_COOKIE then
        let wb = wb_push [COMBINE_TYPE TYPE_SHORT_STRING len] wb in if len > 0 then wb_push str wb else wb
      else
        let wb = (if len < 0x10000
                  then wb_push (le_bytes 2 (of_nat len :: 16 word)) (wb_push [COMBINE_TYPE TYPE_LONG_STRING 2] wb)
                  else wb_push (le_bytes 4 (of_nat len :: 32 word)) (wb_push [COMBINE_TYPE TYPE_LONG_STRING 4] wb))
        in wb_push str wb)"

text \<open>The value at an integer key, as \<open>lua_rawgeti\<close> gives it.\<close>

definition rawgeti :: "(lval \<times> lval) list \<Rightarrow> nat \<Rightarrow> lval" where
  "rawgeti es i = (case map_of es (LInt (of_nat i)) of None \<Rightarrow> LNil | Some v \<Rightarrow> v)"

definition wb_table_size :: "nat \<Rightarrow> write_block \<Rightarrow> write_block" where
  "wb_table_size array_size wb =
     (if array_size \<ge> MAX_COOKIE - 1
      then wb_integer (of_nat array_size) (wb_push [COMBINE_TYPE TYPE_TABLE (MAX_COOKIE - 1)] wb)
      else wb_push [COMBINE_TYPE TYPE_TABLE array_size] wb)"

text \<open>An integer key the array part has already covered.\<close>

definition in_array :: "nat \<Rightarrow> lval \<Rightarrow> bool" where
  "in_array array_size k = (case k of LInt x \<Rightarrow> 0 < sint x \<and> sint x \<le> int array_size | _ \<Rightarrow> False)"

function pack_one :: "lua \<Rightarrow> nat \<Rightarrow> lval \<Rightarrow> write_block \<Rightarrow> write_block lres"
  and wb_table_array :: "lua \<Rightarrow> nat \<Rightarrow> lval list \<Rightarrow> write_block \<Rightarrow> write_block lres"
  and wb_table_hash :: "lua \<Rightarrow> nat \<Rightarrow> nat \<Rightarrow> (lval \<times> lval) list \<Rightarrow> write_block \<Rightarrow> write_block lres"
  and wb_table_metapairs :: "lua \<Rightarrow> nat \<Rightarrow> (lval \<times> lval) list \<Rightarrow> write_block \<Rightarrow> write_block lres" where
  "pack_one lua depth v wb =
     (if depth > MAX_DEPTH then Inl Too_deep
      else case v of
        LNil \<Rightarrow> Inr (wb_nil wb)
      | LInt x \<Rightarrow> Inr (wb_integer x wb)
      | LReal x \<Rightarrow> Inr (wb_real x wb)
      | LBool b \<Rightarrow> Inr (wb_boolean b wb)
      | LStr s \<Rightarrow> Inr (wb_string s wb)
      | LPtr p \<Rightarrow> Inr (wb_pointer p wb)
      | LTable es \<Rightarrow>
          let n = lua_rawlen lua es in
          lbind (wb_table_array lua (Suc depth) (map (rawgeti es) [1..<Suc n]) (wb_table_size n wb)) (\<lambda>wb.
            wb_table_hash lua (Suc depth) n es wb)
      | LMeta es \<Rightarrow> wb_table_metapairs lua (Suc depth) es (wb_push [COMBINE_TYPE TYPE_TABLE 0] wb)
      | LOther t \<Rightarrow> Inl (Unsupported t))"
| "wb_table_array lua depth [] wb = Inr wb"
| "wb_table_array lua depth (v # vs) wb = lbind (pack_one lua depth v wb) (\<lambda>wb. wb_table_array lua depth vs wb)"
| "wb_table_hash lua depth n [] wb = Inr (wb_nil wb)"
| "wb_table_hash lua depth n ((k, v) # es) wb =
     (if in_array n k then wb_table_hash lua depth n es wb
      else lbind (pack_one lua depth k wb) (\<lambda>wb. lbind (pack_one lua depth v wb) (\<lambda>wb. wb_table_hash lua depth n es wb)))"
| "wb_table_metapairs lua depth [] wb = Inr (wb_nil wb)"
| "wb_table_metapairs lua depth ((k, v) # es) wb =
     (if k = LNil then Inr (wb_nil wb)
      else lbind (pack_one lua depth k wb) (\<lambda>wb. lbind (pack_one lua depth v wb) (\<lambda>wb. wb_table_metapairs lua depth es wb)))"
  by pat_completeness auto
termination
  by (relation "measures [\<lambda>x. case x of Inl (Inl (lua, d, v, wb)) \<Rightarrow> MAX_DEPTH + 2 - d | Inl (Inr (lua, d, vs, wb)) \<Rightarrow> MAX_DEPTH + 2 - d
        | Inr (Inl (lua, d, n, es, wb)) \<Rightarrow> MAX_DEPTH + 2 - d | Inr (Inr (lua, d, es, wb)) \<Rightarrow> MAX_DEPTH + 2 - d,
      \<lambda>x. case x of Inl (Inl (lua, d, v, wb)) \<Rightarrow> 0 | Inl (Inr (lua, d, vs, wb)) \<Rightarrow> Suc (length vs)
        | Inr (Inl (lua, d, n, es, wb)) \<Rightarrow> Suc (length es) | Inr (Inr (lua, d, es, wb)) \<Rightarrow> Suc (length es)]") auto

declare pack_one.simps [simp del]

text \<open>\<open>pack_from\<close> packs the arguments one after the other, \<open>seri\<close> joins the blocks.\<close>

definition pack_from :: "lua \<Rightarrow> lval list \<Rightarrow> write_block \<Rightarrow> write_block lres" where
  "pack_from lua vs wb = wb_table_array lua 0 vs wb"

fun seri :: "bytes list \<Rightarrow> nat \<Rightarrow> bytes lres" where
  "seri blocks 0 = Inr []"
| "seri [] (Suc n) = Inl (Seri_fault (Bad_pointer ''seri''))"
| "seri (b # bs) (Suc n) =
     (if Suc n \<ge> BLOCK_SIZE then
        if length b < BLOCK_SIZE then Inl (Seri_fault (Uninitialised ''seri''))
        else lbind (seri bs (Suc n - BLOCK_SIZE)) (\<lambda>r. Inr (take BLOCK_SIZE b @ r))
      else if length b < Suc n then Inl (Seri_fault (Uninitialised ''seri''))
      else Inr (take (Suc n) b))"

definition luaseri_pack :: "lua \<Rightarrow> lval list \<Rightarrow> bytes lres" where
  "luaseri_pack lua vs =
     lbind (pack_from lua vs wb_init) (\<lambda>wb. seri (wb_full wb @ [wb_current wb]) (nat (wb_len wb)))"

section \<open>Reading\<close>

text \<open>
  The state of the reader is the list of bytes that are left. A negative size, which a length
  of 2 GB or more turns into, passes the check of \<open>rb_read\<close> and is refused by
  \<open>lua_pushlstring\<close>.
\<close>

definition rb_read :: "nat \<Rightarrow> bytes \<Rightarrow> (bytes \<times> bytes) lres" where
  "rb_read sz rb = (if length rb < sz then Inl (Invalid_stream (length rb)) else Inr (take sz rb, drop sz rb))"

definition le_value :: "bytes \<Rightarrow> 'a :: len word" where
  "le_value bs = foldr (\<lambda>b w. ucast b OR push_bit 8 w) bs 0"

definition get_integer :: "nat \<Rightarrow> bytes \<Rightarrow> (u64 \<times> bytes) lres" where
  "get_integer cookie rb =
     (if cookie = TYPE_NUMBER_ZERO then Inr (0, rb)
      else if cookie = TYPE_NUMBER_BYTE then lbind (rb_read 1 rb) (\<lambda>(b, rb). Inr (ucast (le_value b :: 8 word), rb))
      else if cookie = TYPE_NUMBER_WORD then lbind (rb_read 2 rb) (\<lambda>(b, rb). Inr (ucast (le_value b :: 16 word), rb))
      else if cookie = TYPE_NUMBER_DWORD then lbind (rb_read 4 rb) (\<lambda>(b, rb). Inr (scast (le_value b :: 32 word), rb))
      else if cookie = TYPE_NUMBER_QWORD then lbind (rb_read 8 rb) (\<lambda>(b, rb). Inr (le_value b, rb))
      else Inl (Invalid_stream (length rb)))"

definition get_real :: "bytes \<Rightarrow> (u64 \<times> bytes) lres" where
  "get_real rb = lbind (rb_read 8 rb) (\<lambda>(b, rb). Inr (le_value b, rb))"

definition get_pointer :: "bytes \<Rightarrow> (u64 \<times> bytes) lres" where
  "get_pointer rb = lbind (rb_read 8 rb) (\<lambda>(b, rb). Inr (le_value b, rb))"

definition get_buffer :: "int \<Rightarrow> bytes \<Rightarrow> (lval \<times> bytes) lres" where
  "get_buffer len rb =
     (if len < 0 then Inl Block_too_big else lbind (rb_read (nat len) rb) (\<lambda>(p, rb). Inr (LStr p, rb)))"

definition get_long_string :: "nat \<Rightarrow> bytes \<Rightarrow> (lval \<times> bytes) lres" where
  "get_long_string cookie rb =
     (if cookie = 2 then lbind (rb_read 2 rb) (\<lambda>(b, rb). get_buffer (uint (le_value b :: 16 word)) rb)
      else if cookie \<noteq> 4 then Inl (Invalid_stream (length rb))
      else lbind (rb_read 4 rb) (\<lambda>(b, rb). get_buffer (sint (le_value b :: 32 word)) rb))"

text \<open>The values that need no recursion.\<close>

definition push_scalar :: "nat \<Rightarrow> nat \<Rightarrow> bytes \<Rightarrow> (lval \<times> bytes) lres" where
  "push_scalar type cookie rb =
     (if type = TYPE_NIL then Inr (LNil, rb)
      else if type = TYPE_BOOLEAN then Inr (LBool (cookie \<noteq> 0), rb)
      else if type = TYPE_NUMBER then
        if cookie = TYPE_NUMBER_REAL then lbind (get_real rb) (\<lambda>(x, rb). Inr (LReal x, rb))
        else lbind (get_integer cookie rb) (\<lambda>(x, rb). Inr (LInt x, rb))
      else if type = TYPE_USERDATA then lbind (get_pointer rb) (\<lambda>(x, rb). Inr (LPtr x, rb))
      else if type = TYPE_SHORT_STRING then get_buffer (int cookie) rb
      else if type = TYPE_LONG_STRING then get_long_string cookie rb
      else Inl (Invalid_stream (length rb)))"

text \<open>
  Setting a key of a table. A table as a key is compared by identity, and a table that was
  just read is new; a nil value removes the key.
\<close>

definition is_table :: "lval \<Rightarrow> bool" where
  "is_table v = (case v of LTable es \<Rightarrow> True | LMeta es \<Rightarrow> True | _ \<Rightarrow> False)"

definition table_put :: "lval \<Rightarrow> lval \<Rightarrow> (lval \<times> lval) list \<Rightarrow> (lval \<times> lval) list" where
  "table_put k v es =
     (if is_table k then if v = LNil then es else es @ [(k, v)]
      else if v = LNil then filter (\<lambda>e. fst e \<noteq> k) es
      else if k \<in> fst ` set es then map (\<lambda>e. if fst e = k then (k, v) else e) es
      else es @ [(k, v)])"

definition rawset :: "lua \<Rightarrow> lval \<Rightarrow> lval \<Rightarrow> (lval \<times> lval) list \<Rightarrow> (lval \<times> lval) list lres" where
  "rawset lua k v es =
     (case k of
        LReal x \<Rightarrow> (case lua_floatkey lua x of None \<Rightarrow> Inl Index_is_NaN | Some k \<Rightarrow> Inr (table_put k v es))
      | _ \<Rightarrow> Inr (table_put k v es))"

text \<open>The number of array elements; an \<open>int\<close>, so a negative one means none.\<close>

definition table_size :: "nat \<Rightarrow> bytes \<Rightarrow> (nat \<times> bytes) lres" where
  "table_size cookie rb =
     (if cookie = MAX_COOKIE - 1 then
        lbind (rb_read 1 rb) (\<lambda>(t, rb).
          let type = unat (hd t AND 7); c = unat (drop_bit 3 (hd t)) in
          if type \<noteq> TYPE_NUMBER \<or> c = TYPE_NUMBER_REAL then Inl (Invalid_stream (length rb))
          else lbind (get_integer c rb) (\<lambda>(x, rb). Inr (nat (sint (ucast x :: 32 word)), rb)))
      else Inr (cookie, rb))"

definition olbind :: "'a lres option \<Rightarrow> ('a \<Rightarrow> 'b lres option) \<Rightarrow> 'b lres option" where
  "olbind m f = (case m of None \<Rightarrow> None | Some (Inl e) \<Rightarrow> Some (Inl e) | Some (Inr x) \<Rightarrow> f x)"

lemma olbind_simps [simp]: "olbind None f = None" "olbind (Some (Inl e)) f = Some (Inl e)" "olbind (Some (Inr x)) f = f x"
  by (simp_all add: olbind_def)

text \<open>\<open>unpack_one\<close> with \<open>push_value\<close> and \<open>unpack_table\<close>; \<open>None\<close> when the fuel is used up.\<close>

function unpack_one :: "lua \<Rightarrow> nat \<Rightarrow> bytes \<Rightarrow> (lval \<times> bytes) lres option"
  and push_value :: "lua \<Rightarrow> nat \<Rightarrow> nat \<Rightarrow> nat \<Rightarrow> bytes \<Rightarrow> (lval \<times> bytes) lres option"
  and unpack_array :: "lua \<Rightarrow> nat \<Rightarrow> nat \<Rightarrow> nat \<Rightarrow> (lval \<times> lval) list \<Rightarrow> bytes \<Rightarrow> ((lval \<times> lval) list \<times> bytes) lres option"
  and unpack_hash :: "lua \<Rightarrow> nat \<Rightarrow> (lval \<times> lval) list \<Rightarrow> bytes \<Rightarrow> (lval \<times> bytes) lres option" where
  "unpack_one lua fuel rb =
     (case fuel of
        0 \<Rightarrow> None
      | Suc f \<Rightarrow> olbind (Some (rb_read 1 rb)) (\<lambda>(t, rb).
          push_value lua f (unat (hd t AND 7)) (unat (drop_bit 3 (hd t))) rb))"
| "push_value lua fuel type cookie rb =
     (case fuel of
        0 \<Rightarrow> None
      | Suc f \<Rightarrow>
          if type = TYPE_TABLE then
            olbind (Some (table_size cookie rb)) (\<lambda>(n, rb).
            olbind (unpack_array lua f 1 n [] rb) (\<lambda>(es, rb). unpack_hash lua f es rb))
          else Some (push_scalar type cookie rb))"
| "unpack_array lua fuel i n es rb =
     (case n of
        0 \<Rightarrow> Some (Inr (es, rb))
      | Suc n \<Rightarrow>
          (case fuel of
             0 \<Rightarrow> None
           | Suc f \<Rightarrow> olbind (unpack_one lua f rb) (\<lambda>(v, rb).
               unpack_array lua f (Suc i) n (table_put (LInt (of_nat i)) v es) rb)))"
| "unpack_hash lua fuel es rb =
     (case fuel of
        0 \<Rightarrow> None
      | Suc f \<Rightarrow> olbind (unpack_one lua f rb) (\<lambda>(k, rb).
          if k = LNil then Some (Inr (LTable es, rb))
          else olbind (unpack_one lua f rb) (\<lambda>(v, rb).
               olbind (Some (rawset lua k v es)) (\<lambda>es. unpack_hash lua f es rb))))"
  by pat_completeness auto
termination
  by (relation "measure (\<lambda>x. case x of Inl (Inl (lua, f, rb)) \<Rightarrow> f | Inl (Inr (lua, f, t, c, rb)) \<Rightarrow> f
        | Inr (Inl (lua, f, i, n, es, rb)) \<Rightarrow> f | Inr (Inr (lua, f, es, rb)) \<Rightarrow> f)") auto

declare unpack_one.simps [simp del] push_value.simps [simp del] unpack_array.simps [simp del] unpack_hash.simps [simp del]

fun unpack_all :: "lua \<Rightarrow> nat \<Rightarrow> bytes \<Rightarrow> lval list lres option" where
  "unpack_all lua 0 rb = None"
| "unpack_all lua (Suc f) rb =
     (case rb of
        [] \<Rightarrow> Some (Inr [])
      | t # rb \<Rightarrow>
          olbind (push_value lua f (unat (t AND 7)) (unat (drop_bit 3 t)) rb) (\<lambda>(v, rb).
          olbind (unpack_all lua f rb) (\<lambda>vs. Some (Inr (v # vs)))))"

text \<open>The argument: nil, a string, or a pointer to memory and a length.\<close>

datatype seri_arg = Arg_nil | Arg_string bytes | Arg_memory "bytes option" int

definition unpack_bytes :: "lua \<Rightarrow> bytes \<Rightarrow> lval list lres option" where
  "unpack_bytes lua b = unpack_all lua (4 * length b + 4) b"

definition luaseri_unpack :: "lua \<Rightarrow> seri_arg \<Rightarrow> lval list lres option" where
  "luaseri_unpack lua arg =
     (case arg of
        Arg_nil \<Rightarrow> Some (Inr [])
      | Arg_string b \<Rightarrow> unpack_bytes lua b
      | Arg_memory p len \<Rightarrow>
          if len = 0 then Some (Inr [])
          else case p of
            None \<Rightarrow> Some (Inl Null_pointer)
          | Some b \<Rightarrow>
              if len > int (length b) then Some (Inl (Seri_fault (Out_of_bounds ''luaseri_unpack'')))
              else unpack_bytes lua (take (nat len) b))"

section \<open>The write buffer keeps the bytes in order\<close>

definition wb_content :: "write_block \<Rightarrow> bytes" where
  "wb_content wb = concat (wb_full wb) @ wb_current wb"

definition wb_inv :: "write_block \<Rightarrow> bool" where
  "wb_inv wb \<longleftrightarrow> (\<forall>b \<in> set (wb_full wb). length b = BLOCK_SIZE) \<and> length (wb_current wb) \<le> BLOCK_SIZE \<and>
     wb_len wb = int (length (wb_content wb))"

lemma BLOCK_SIZE_pos [simp]: "0 < BLOCK_SIZE" by (simp add: BLOCK_SIZE_def)

lemma wb_init_ok [simp]: "wb_inv wb_init" "wb_content wb_init = []"
  by (simp_all add: wb_init_def wb_inv_def wb_content_def)

lemma wb_copy_spec:
  assumes "wb_inv wb" "length (wb_current wb) < BLOCK_SIZE"
  shows "wb_inv (wb_copy buf wb) \<and> wb_content (wb_copy buf wb) = wb_content wb @ buf"
  using assms
proof (induction buf wb rule: wb_copy.induct)
  case (1 buf wb)
  show ?case
  proof (cases "int (length (wb_current wb)) \<le> int BLOCK_SIZE - int (length buf)")
    case True
    then show ?thesis using 1(2) by (auto simp: wb_copy.simps [of buf wb] wb_inv_def wb_content_def)
  next
    case False
    let ?n = "BLOCK_SIZE - length (wb_current wb)"
    let ?wb = "wb_next (wb\<lparr>wb_current := wb_current wb @ take ?n buf, wb_len := wb_len wb + int ?n\<rparr>)"
    have "wb_inv ?wb" "length (wb_current ?wb) < BLOCK_SIZE" "wb_content ?wb = wb_content wb @ take ?n buf"
      using 1(2,3) False by (auto simp: wb_inv_def wb_content_def wb_next_def)
    with 1(1) [OF False 1(3) refl] False 1(3) show ?thesis by (simp add: wb_copy.simps [of buf wb] Let_def)
  qed
qed

lemma wb_push_ok [simp]:
  assumes "wb_inv wb"
  shows "wb_inv (wb_push buf wb)" "wb_content (wb_push buf wb) = wb_content wb @ buf"
proof -
  have "wb_inv (wb_next wb) \<and> length (wb_current (wb_next wb)) < BLOCK_SIZE \<and> wb_content (wb_next wb) = wb_content wb"
    if "length (wb_current wb) = BLOCK_SIZE" using assms that by (auto simp: wb_next_def wb_inv_def wb_content_def)
  moreover have "length (wb_current wb) < BLOCK_SIZE" if "length (wb_current wb) \<noteq> BLOCK_SIZE"
    using assms that by (simp add: wb_inv_def)
  ultimately have "wb_inv (wb_push buf wb) \<and> wb_content (wb_push buf wb) = wb_content wb @ buf"
    using wb_copy_spec [of wb buf] wb_copy_spec [of "wb_next wb" buf] assms by (auto simp: wb_push_def)
  then show "wb_inv (wb_push buf wb)" "wb_content (wb_push buf wb) = wb_content wb @ buf" by auto
qed

lemma seri_blocks:
  assumes "\<forall>b \<in> set bs. length b = BLOCK_SIZE" "length c \<le> BLOCK_SIZE"
  shows "seri (bs @ [c]) (length (concat bs @ c)) = Inr (concat bs @ c)"
  using assms
proof (induction bs)
  case Nil
  then show ?case by (cases c) auto
next
  case (Cons b bs)
  have "b \<noteq> []" using Cons.prems(1) by (auto simp: BLOCK_SIZE_def)
  then obtain n where n: "length (concat (b # bs) @ c) = Suc n" by (cases b) auto
  have "Suc n \<ge> BLOCK_SIZE" "Suc n - BLOCK_SIZE = length (concat bs @ c)" using n Cons.prems(1) by auto
  then show ?case using Cons unfolding n by simp
qed

lemma seri_content: "wb_inv wb \<Longrightarrow> seri (wb_full wb @ [wb_current wb]) (nat (wb_len wb)) = Inr (wb_content wb)"
  using seri_blocks [of "wb_full wb" "wb_current wb"] by (simp add: wb_inv_def wb_content_def nat_int_add)

section \<open>Numbers\<close>

lemma le_bytes_Suc: "le_bytes (Suc k) w = ucast w # le_bytes k (drop_bit 8 w)"
  by (simp add: le_bytes_def map_upt_Suc add.commute del: upt_Suc)

lemma le_value_bytes: "le_value (le_bytes k w) = take_bit (8 * k) (w :: 'a :: len word)"
proof (induction k arbitrary: w)
  case 0
  then show ?case by (simp add: le_bytes_def le_value_def)
next
  case (Suc k)
  have "le_value (le_bytes (Suc k) w) = ucast (ucast w :: u8) OR push_bit 8 (le_value (le_bytes k (drop_bit 8 w)))"
    by (simp add: le_bytes_Suc le_value_def)
  also have "\<dots> = take_bit (8 * Suc k) w" unfolding Suc
    by (rule bit_word_eqI) (auto simp: bit_simps)
  finally show ?case .
qed

lemma length_le_bytes [simp]: "length (le_bytes k w) = k"
  by (simp add: le_bytes_def)

lemma le_roundtrip [simp]:
  "le_value (le_bytes 8 (v :: u64)) = v" "le_value (le_bytes 4 (w :: u32)) = w" "le_value (le_bytes 2 (u :: 16 word)) = u"
  "le_value [b :: u8] = b"
  by (simp_all add: le_value_bytes take_bit_word_eq_self) (simp add: le_value_def)

lemma COMBINE_TYPE_bits:
  assumes "t < 8" "v < 32"
  shows "unat (COMBINE_TYPE t v AND 7) = t" "unat (drop_bit 3 (COMBINE_TYPE t v)) = v"
proof -
  have t: "take_bit 3 t = t" using assms(1) by (simp add: take_bit_nat_eq_self)
  have "bit t n \<Longrightarrow> n < 3" for n by (subst (asm) t [symmetric]) (simp add: bit_take_bit_iff)
  then have "\<not> bit t n \<or> \<not> bit (push_bit 3 v) n" for n using linorder_not_less by (auto simp: bit_simps)
  then have "t OR push_bit 3 v = t + push_bit 3 v" by (intro disjunctive_add [symmetric]) auto
  then have e: "COMBINE_TYPE t v = of_nat (t + 8 * v)" by (simp add: COMBINE_TYPE_def push_bit_eq_mult mult.commute)
  have u: "unat (COMBINE_TYPE t v) = t + 8 * v" unfolding e unsigned_of_nat using assms by (simp add: take_bit_nat_eq_self)
  have "unat (COMBINE_TYPE t v AND Bit_Operations.mask 3) = t" unfolding unat_and_mask u using assms by simp
  then show "unat (COMBINE_TYPE t v AND 7) = t" by (simp add: mask_eq_exp_minus_1)
  show "unat (drop_bit 3 (COMBINE_TYPE t v)) = v" unfolding unat_drop u using assms by simp
qed

section \<open>The reader ends\<close>

lemma rb_read_shrinks: "rb_read n rb = Inr (b, rb') \<Longrightarrow> length rb' + n = length rb"
  by (auto simp: rb_read_def split: if_splits)

lemma get_integer_shrinks: "get_integer c rb = Inr (x, rb') \<Longrightarrow> length rb' \<le> length rb"
  by (auto simp: get_integer_def lbind_Inr split: if_splits dest!: rb_read_shrinks)

lemma get_buffer_shrinks: "get_buffer n rb = Inr (x, rb') \<Longrightarrow> length rb' \<le> length rb"
  by (auto simp: get_buffer_def lbind_Inr split: if_splits dest!: rb_read_shrinks)

lemma push_scalar_shrinks: "push_scalar t c rb = Inr (v, rb') \<Longrightarrow> length rb' \<le> length rb"
  by (auto simp: push_scalar_def get_real_def get_pointer_def get_long_string_def lbind_Inr split: if_splits
      dest!: rb_read_shrinks get_integer_shrinks get_buffer_shrinks)

lemma table_size_shrinks: "table_size c rb = Inr (n, rb') \<Longrightarrow> length rb' \<le> length rb"
  by (auto simp: table_size_def lbind_Inr Let_def split: if_splits dest!: rb_read_shrinks get_integer_shrinks)

text \<open>A run ended, and if it read a value, at least \<open>k\<close> bytes of the stream are gone.\<close>

definition ends :: "nat \<Rightarrow> bytes \<Rightarrow> ('a \<times> bytes) lres option \<Rightarrow> bool" where
  "ends k rb out \<longleftrightarrow> (case out of None \<Rightarrow> False | Some (Inl e) \<Rightarrow> True | Some (Inr (v, rb')) \<Rightarrow> length rb' + k \<le> length rb)"

lemma ends_bind:
  assumes "ends k rb m" "\<And>x rb'. m = Some (Inr (x, rb')) \<Longrightarrow> length rb' + k \<le> length rb \<Longrightarrow> ends 0 rb' (f x rb')" "j \<le> k"
  shows "ends j rb (olbind m (\<lambda>(x, rb). f x rb))"
proof (cases m)
  case (Some r)
  show ?thesis
  proof (cases r)
    case (Inr p)
    then show ?thesis using assms(1,3) assms(2) [of "fst p" "snd p"] Some
      by (cases p) (auto simp: ends_def split: option.splits sum.splits)
  qed (use Some in \<open>simp add: ends_def\<close>)
qed (use assms(1) in \<open>simp add: ends_def\<close>)

lemma ends_mono: "ends k rb out \<Longrightarrow> j \<le> k \<Longrightarrow> length rb \<le> length rb1 \<Longrightarrow> ends j rb1 out"
  by (auto simp: ends_def split: option.splits sum.splits)

lemma unpack_ends:
  "(3 * length rb + 1 \<le> f \<longrightarrow> ends 1 rb (unpack_one lua f rb)) \<and>
   (3 * length rb + 3 \<le> f \<longrightarrow> ends 0 rb (push_value lua f t c rb)) \<and>
   (3 * length rb + 2 \<le> f \<longrightarrow> ends 0 rb (unpack_array lua f i n es rb)) \<and>
   (3 * length rb + 2 \<le> f \<longrightarrow> ends 0 rb (unpack_hash lua f es rb))"
proof (induction f arbitrary: rb t c i n es)
  case 0
  then show ?case by simp
next
  case (Suc f)
  note one = Suc [THEN conjunct1, rule_format]
    and push = Suc [THEN conjunct2, THEN conjunct1, rule_format]
    and arr = Suc [THEN conjunct2, THEN conjunct2, THEN conjunct1, rule_format]
    and hash = Suc [THEN conjunct2, THEN conjunct2, THEN conjunct2, rule_format]
  have 1: "ends 1 rb (unpack_one lua (Suc f) rb)" if "3 * length rb + 1 \<le> Suc f"
  proof -
    have "ends 1 rb (Some (rb_read 1 rb))" by (simp add: ends_def rb_read_def)
    then show ?thesis using that
      by (auto simp: unpack_one.simps [of lua "Suc f"] intro!: ends_bind push)
  qed
  have 2: "ends 0 rb (push_value lua (Suc f) t c rb)" if "3 * length rb + 3 \<le> Suc f"
  proof (cases "t = TYPE_TABLE")
    case True
    have "ends 0 rb (Some (table_size c rb))" using table_size_shrinks by (auto simp: ends_def split: sum.splits)
    then show ?thesis using True that
      by (auto simp: push_value.simps [of lua "Suc f"] intro!: ends_bind arr hash)
  next
    case False
    then show ?thesis using push_scalar_shrinks
      by (auto simp: push_value.simps [of lua "Suc f"] ends_def split: sum.splits)
  qed
  have 3: "ends 0 rb (unpack_array lua (Suc f) i n es rb)" if "3 * length rb + 2 \<le> Suc f"
  proof (cases n)
    case 0
    then show ?thesis by (simp add: unpack_array.simps ends_def)
  next
    case (Suc m)
    have "ends 1 rb (unpack_one lua f rb)" using that by (intro one) simp
    then show ?thesis using Suc that
      by (auto simp: unpack_array.simps [of lua "Suc f"] intro!: ends_bind arr)
  qed
  have 4: "ends 0 rb (unpack_hash lua (Suc f) es rb)" if "3 * length rb + 2 \<le> Suc f"
  proof -
    have e: "ends 1 r (unpack_one lua f r)" if "length r \<le> length rb" for r
      using that \<open>3 * length rb + 2 \<le> Suc f\<close> by (intro one) simp
    have h: "ends 0 r (olbind (Some (rawset lua k v es)) (\<lambda>es. unpack_hash lua f es r))" if "Suc (length r) \<le> length rb" for k v r
      using that \<open>3 * length rb + 2 \<le> Suc f\<close> by (cases "rawset lua k v es") (auto simp: ends_def [of _ _ "Some (Inl _)"] intro: hash)
    have b: "ends 0 r (if k = LNil then Some (Inr (LTable es, r)) else olbind (unpack_one lua f r) (\<lambda>(v, rb).
        olbind (Some (rawset lua k v es)) (\<lambda>es. unpack_hash lua f es rb)))" if "Suc (length r) \<le> length rb" for k r
      using that by (auto simp: ends_def [of _ _ "Some (Inr _)"] intro!: ends_bind [OF e] h)
    show ?thesis by (auto simp: unpack_hash.simps [of lua "Suc f"] intro!: ends_bind [OF e] b)
  qed
  from 1 2 3 4 show ?case by blast
qed

lemma unpack_all_ends: "4 * length rb + 1 \<le> f \<Longrightarrow> unpack_all lua f rb \<noteq> None"
proof (induction f arbitrary: rb)
  case (Suc f)
  show ?case
  proof (cases rb)
    case (Cons t r)
    have "ends 0 r (push_value lua f ty c r)" for ty c
      using unpack_ends [THEN conjunct2, THEN conjunct1] Suc.prems Cons by simp
    then have p: "ends 0 r (push_value lua f (unat (t AND 7)) (unat (drop_bit 3 t)) r)" .
    show ?thesis
    proof (cases "push_value lua f (unat (t AND 7)) (unat (drop_bit 3 t)) r")
      case None
      with p show ?thesis by (simp add: ends_def)
    next
      case (Some x)
      show ?thesis
      proof (cases x)
        case (Inr y)
        obtain v r' where y: "y = (v, r')" by fastforce
        have "length r' \<le> length r" using p Some Inr y by (simp add: ends_def)
        then have "unpack_all lua f r' \<noteq> None" using Suc.prems Cons by (intro Suc.IH) simp
        then show ?thesis using Cons Some Inr y by (auto simp: olbind_def split: sum.splits)
      qed (use Cons Some in simp)
    qed
  qed simp
qed simp

section \<open>Reading back what was written\<close>

text \<open>
  The value the reader rebuilds: the same, with the entries of every table set in the order
  they are written.
\<close>

definition put_all :: "(lval \<times> lval) list \<Rightarrow> (lval \<times> lval) list \<Rightarrow> (lval \<times> lval) list" where
  "put_all ps es = fold (\<lambda>(k, v). table_put k v) ps es"

lemma put_all_simps [simp]: "put_all [] es = es" "put_all ((k, v) # ps) es = put_all ps (table_put k v es)"
  by (simp_all add: put_all_def)

lemma entry_size: "(k, v) \<in> set es \<Longrightarrow> size v < Suc (size_list (size_prod size size) es)"
  by (induction es) (auto simp: less_Suc_eq_le)

lemma entry_size_takeWhile: "(k, v) \<in> set (takeWhile P es) \<Longrightarrow> size v < Suc (size_list (size_prod size size) es)"
  by (rule entry_size) (auto dest: set_takeWhileD)

lemma rawgeti_size: "size (rawgeti es i) < Suc (size_list (size_prod size size) es)"
  by (auto simp: rawgeti_def intro: entry_size split: option.splits dest: map_of_SomeD)

function rebuilt :: "lua \<Rightarrow> lval \<Rightarrow> lval" where
  "rebuilt lua v =
     (case v of
        LTable es \<Rightarrow>
          LTable (put_all (map (\<lambda>i. (LInt (of_nat i), rebuilt lua (rawgeti es i))) [1..<Suc (lua_rawlen lua es)] @
            map (\<lambda>e. (fst e, rebuilt lua (snd e))) (filter (\<lambda>e. \<not> in_array (lua_rawlen lua es) (fst e)) es)) [])
      | LMeta es \<Rightarrow>
          LTable (put_all (map (\<lambda>e. (fst e, rebuilt lua (snd e))) (takeWhile (\<lambda>e. fst e \<noteq> LNil) es)) [])
      | _ \<Rightarrow> v)"
  by pat_completeness auto
termination
  by (relation "measure (\<lambda>(lua, v). size v)") (auto simp: rawgeti_size intro: entry_size entry_size_takeWhile)

declare rebuilt.simps [simp del]

lemma rebuilt_simps [simp]:
  "rebuilt lua LNil = LNil" "rebuilt lua (LBool b) = LBool b" "rebuilt lua (LInt x) = LInt x" "rebuilt lua (LReal x) = LReal x"
  "rebuilt lua (LStr s) = LStr s" "rebuilt lua (LPtr x) = LPtr x" "rebuilt lua (LOther t) = LOther t"
  by (subst rebuilt.simps, simp)+

text \<open>What a Lua program can pass: keys are set once, never nil, NaN or a table; sizes fit in an \<open>int\<close>.\<close>

definition key_ok :: "lua \<Rightarrow> lval \<Rightarrow> bool" where
  "key_ok lua k \<longleftrightarrow> k \<noteq> LNil \<and> \<not> is_table k \<and> (\<forall>x. k = LReal x \<longrightarrow> lua_floatkey lua x = Some k) \<and>
     (\<forall>s. k = LStr s \<longrightarrow> length s < 2 ^ 31)"

function lval_ok :: "lua \<Rightarrow> lval \<Rightarrow> bool" where
  "lval_ok lua v =
     (case v of
        LStr s \<Rightarrow> length s < 2 ^ 31
      | LTable es \<Rightarrow> lua_rawlen lua es < 2 ^ 31 \<and> distinct (map fst es) \<and>
          (\<forall>e \<in> set es. key_ok lua (fst e) \<and> snd e \<noteq> LNil \<and> lval_ok lua (snd e))
      | LMeta es \<Rightarrow> (\<forall>e \<in> set (takeWhile (\<lambda>e. fst e \<noteq> LNil) es). key_ok lua (fst e) \<and> lval_ok lua (snd e))
      | _ \<Rightarrow> True)"
  by pat_completeness auto
termination
  by (relation "measure (\<lambda>(lua, v). size v)") (auto intro: entry_size entry_size_takeWhile)

declare lval_ok.simps [simp del]

lemma lval_ok_simps [simp]:
  "lval_ok lua LNil" "lval_ok lua (LBool b)" "lval_ok lua (LInt x)" "lval_ok lua (LReal x)" "lval_ok lua (LPtr x)" "lval_ok lua (LOther t)"
  "lval_ok lua (LStr s) \<longleftrightarrow> length s < 2 ^ 31"
  by (subst lval_ok.simps, simp)+

text \<open>The bytes \<open>bs\<close> are a serialisation of \<open>v\<close>.\<close>

definition decodes :: "lua \<Rightarrow> bytes \<Rightarrow> lval \<Rightarrow> bool" where
  "decodes lua bs v \<longleftrightarrow> bs \<noteq> [] \<and> (\<forall>f rest. 3 * length bs + 1 \<le> f \<longrightarrow> unpack_one lua f (bs @ rest) = Some (Inr (v, rest)))"

lemma decodes_scalar:
  assumes "t < 8" "c < 32" "t \<noteq> TYPE_TABLE" "\<And>rest. push_scalar t c (bs @ rest) = Inr (v, rest)"
  shows "decodes lua (COMBINE_TYPE t c # bs) v"
proof -
  have "unpack_one lua f (COMBINE_TYPE t c # bs @ rest) = Some (Inr (v, rest))" if f: "2 \<le> f" for f rest
  proof -
    obtain g where "f = 2 + g" using le_Suc_ex [OF f] by blast
    then have "f = Suc (Suc g)" by simp
    then show ?thesis using assms
      by (simp add: unpack_one.simps [of lua "Suc _"] push_value.simps [of lua "Suc _"] rb_read_def COMBINE_TYPE_bits)
  qed
  then show ?thesis by (simp add: decodes_def)
qed

lemma combine_0: "of_nat t = COMBINE_TYPE t 0"
  by (simp add: COMBINE_TYPE_def)

definition int_cookie :: "u64 \<Rightarrow> nat" where
  "int_cookie v = (if v = 0 then 0 else if sint v \<noteq> sint (ucast v :: 32 word) then 6 else if sint v < 0 then 4
     else if sint v < 0x100 then 1 else if sint v < 0x10000 then 2 else 4)"

definition int_bytes :: "u64 \<Rightarrow> bytes" where
  "int_bytes v = (if v = 0 then [] else if sint v \<noteq> sint (ucast v :: 32 word) then le_bytes 8 v
     else if sint v < 0 then le_bytes 4 (ucast v :: 32 word) else if sint v < 0x100 then [ucast v]
     else if sint v < 0x10000 then le_bytes 2 (ucast v :: 16 word) else le_bytes 4 (ucast v :: 32 word))"

lemma sint_nonneg_uint: "0 \<le> sint (v :: u64) \<Longrightarrow> uint v = sint v"
  using sint_lt [of v] by (simp add: uint_sint take_bit_int_eq_self)

lemma get_integer_int_bytes: "get_integer (int_cookie v) (int_bytes v @ rest) = Inr (v, rest)"
proof -
  have "scast (ucast v :: 32 word) = v" if "sint v = sint (ucast v :: 32 word)"
    unfolding scast_eq that [symmetric] by simp
  moreover have "ucast (ucast v :: 8 word) = v" if "0 \<le> sint v" "sint v < 256"
    using that sint_nonneg_uint [of v] by (simp add: word_uint_eq_iff unsigned_ucast_eq take_bit_eq_mod uint_mod)
  moreover have "ucast (ucast v :: 16 word) = v" if "0 \<le> sint v" "sint v < 65536"
    using that sint_nonneg_uint [of v] by (simp add: word_uint_eq_iff unsigned_ucast_eq take_bit_eq_mod uint_mod)
  ultimately show ?thesis
    by (auto simp: get_integer_def int_cookie_def int_bytes_def rb_read_def seri_types)
qed

lemma int_cookie_less: "int_cookie v < 32" "int_cookie v \<noteq> TYPE_NUMBER_REAL"
  by (simp_all add: int_cookie_def seri_types)

lemma wb_integer_eq [simp]:
  assumes "wb_inv wb"
  shows "wb_inv (wb_integer v wb)" "wb_content (wb_integer v wb) = wb_content wb @ COMBINE_TYPE TYPE_NUMBER (int_cookie v) # int_bytes v"
  using assms by (auto simp: wb_integer_def int_cookie_def int_bytes_def Let_def seri_types)

lemma wb_small_eq [simp]:
  assumes "wb_inv wb"
  shows "wb_inv (wb_nil wb)" "wb_content (wb_nil wb) = wb_content wb @ [COMBINE_TYPE TYPE_NIL 0]"
    "wb_inv (wb_boolean b wb)" "wb_content (wb_boolean b wb) = wb_content wb @ [COMBINE_TYPE TYPE_BOOLEAN (if b then 1 else 0)]"
    "wb_inv (wb_real x wb)" "wb_content (wb_real x wb) = wb_content wb @ COMBINE_TYPE TYPE_NUMBER TYPE_NUMBER_REAL # le_bytes 8 x"
    "wb_inv (wb_pointer x wb)" "wb_content (wb_pointer x wb) = wb_content wb @ COMBINE_TYPE TYPE_USERDATA 0 # le_bytes 8 x"
  using assms by (simp_all add: wb_nil_def wb_boolean_def wb_real_def wb_pointer_def combine_0)

lemma decodes_int: "decodes lua (COMBINE_TYPE TYPE_NUMBER (int_cookie v) # int_bytes v) (LInt v)"
  by (rule decodes_scalar) (auto simp: push_scalar_def seri_types int_cookie_less [unfolded seri_types] get_integer_int_bytes)

lemma decodes_small:
  "decodes lua [COMBINE_TYPE TYPE_NIL 0] LNil"
  "decodes lua [COMBINE_TYPE TYPE_BOOLEAN (if b then 1 else 0)] (LBool b)"
  "decodes lua (COMBINE_TYPE TYPE_NUMBER TYPE_NUMBER_REAL # le_bytes 8 x) (LReal x)"
  "decodes lua (COMBINE_TYPE TYPE_USERDATA 0 # le_bytes 8 x) (LPtr x)"
  by (rule decodes_scalar; simp add: push_scalar_def get_real_def get_pointer_def rb_read_def seri_types)+

text \<open>Strings: a short one has its length in the type byte, a long one two or four bytes of length.\<close>

definition str_bytes :: "bytes \<Rightarrow> bytes" where
  "str_bytes s =
     (if length s < MAX_COOKIE then COMBINE_TYPE TYPE_SHORT_STRING (length s) # s
      else if length s < 0x10000 then COMBINE_TYPE TYPE_LONG_STRING 2 # le_bytes 2 (of_nat (length s) :: 16 word) @ s
      else COMBINE_TYPE TYPE_LONG_STRING 4 # le_bytes 4 (of_nat (length s) :: 32 word) @ s)"

lemma wb_string_eq [simp]:
  assumes "wb_inv wb"
  shows "wb_inv (wb_string s wb)" "wb_content (wb_string s wb) = wb_content wb @ str_bytes s"
  using assms by (auto simp: wb_string_def str_bytes_def Let_def)

lemma decodes_string:
  assumes "length s < 2 ^ 31"
  shows "decodes lua (str_bytes s) (LStr s)"
proof -
  have 2: "uint (of_nat (length s) :: 16 word) = int (length s)" if "length s < 0x10000"
    using that by (simp add: unsigned_of_nat take_bit_nat_eq_self)
  have 4: "sint (of_nat (length s) :: 32 word) = int (length s)"
    using assms by (simp add: sint_uint unsigned_of_nat take_bit_nat_eq_self signed_take_bit_31)
  consider "length s < MAX_COOKIE" | "MAX_COOKIE \<le> length s" "length s < 0x10000"
    | "0x10000 \<le> length s" "\<not> length s < MAX_COOKIE" by (fastforce simp: MAX_COOKIE_def)
  then show ?thesis
  proof cases
    case 1
    then show ?thesis unfolding str_bytes_def
      by (auto simp: push_scalar_def get_buffer_def rb_read_def seri_types intro!: decodes_scalar)
  next
    case c: 2
    then show ?thesis unfolding str_bytes_def
      by (auto simp: push_scalar_def get_long_string_def get_buffer_def rb_read_def seri_types 2 intro!: decodes_scalar)
  next
    case c: 3
    then show ?thesis unfolding str_bytes_def
      by (auto simp: push_scalar_def get_long_string_def get_buffer_def rb_read_def seri_types 4 intro!: decodes_scalar)
  qed
qed

text \<open>The array part and the hash part of a table.\<close>

fun number_from :: "nat \<Rightarrow> lval list \<Rightarrow> (lval \<times> lval) list" where
  "number_from i [] = []"
| "number_from i (v # vs) = (LInt (of_nat i), v) # number_from (Suc i) vs"

definition decodes_array :: "lua \<Rightarrow> bytes \<Rightarrow> lval list \<Rightarrow> bool" where
  "decodes_array lua bs vs \<longleftrightarrow> (\<forall>f i es rest. 3 * length bs + 2 \<le> f \<longrightarrow>
     unpack_array lua f i (length vs) es (bs @ rest) = Some (Inr (put_all (number_from i vs) es, rest)))"

definition decodes_hash :: "lua \<Rightarrow> bytes \<Rightarrow> (lval \<times> lval) list \<Rightarrow> bool" where
  "decodes_hash lua bs ps \<longleftrightarrow> (\<forall>f es rest. 3 * length bs + 2 \<le> f \<longrightarrow>
     unpack_hash lua f es (bs @ rest) = Some (Inr (LTable (put_all ps es), rest)))"

lemma decodes_one: "decodes lua bs v \<Longrightarrow> 3 * length bs + 1 \<le> f \<Longrightarrow> unpack_one lua f (bs @ rest) = Some (Inr (v, rest))"
  by (simp add: decodes_def)

lemma decodes_array_Nil: "decodes_array lua [] []"
  by (simp add: decodes_array_def unpack_array.simps)

lemma decodes_array_Cons:
  assumes "decodes lua b v" "decodes_array lua bs vs"
  shows "decodes_array lua (b @ bs) (v # vs)"
  unfolding decodes_array_def
proof (intro allI impI)
  fix f i es rest
  assume f: "3 * length (b @ bs) + 2 \<le> f"
  then obtain g where g: "f = Suc g" by (cases f) auto
  have "b \<noteq> []" using assms(1) by (simp add: decodes_def)
  then have "3 * length b + 1 \<le> g" "3 * length bs + 2 \<le> g" using f g by (cases b; simp)+
  then show "unpack_array lua f i (length (v # vs)) es ((b @ bs) @ rest) = Some (Inr (put_all (number_from i (v # vs)) es, rest))"
    using assms(2) decodes_one [OF assms(1), of g "bs @ rest"] g
    by (simp add: unpack_array.simps [of lua "Suc g"] decodes_array_def)
qed

lemma decodes_hash_Nil: "decodes_hash lua [COMBINE_TYPE TYPE_NIL 0] []"
  unfolding decodes_hash_def
proof (intro allI impI)
  fix f :: nat and es rest
  assume f: "3 * length [COMBINE_TYPE TYPE_NIL 0] + 2 \<le> f"
  then obtain g where g: "f = Suc g" by (cases f) auto
  then show "unpack_hash lua f es ([COMBINE_TYPE TYPE_NIL 0] @ rest) = Some (Inr (LTable (put_all [] es), rest))"
    using decodes_one [OF decodes_small(1), of g lua rest] f by (simp add: unpack_hash.simps [of lua "Suc g"])
qed

lemma rawset_key_ok: "key_ok lua k \<Longrightarrow> rawset lua k v es = Inr (table_put k v es)"
  by (auto simp: key_ok_def rawset_def split: lval.splits)

lemma decodes_hash_Cons:
  assumes "decodes lua b k" "decodes lua c v" "decodes_hash lua bs ps" "key_ok lua k"
  shows "decodes_hash lua (b @ c @ bs) ((k, v) # ps)"
  unfolding decodes_hash_def
proof (intro allI impI)
  fix f es rest
  assume f: "3 * length (b @ c @ bs) + 2 \<le> f"
  then obtain g where g: "f = Suc g" by (cases f) auto
  have "b \<noteq> []" "c \<noteq> []" using assms(1,2) by (simp_all add: decodes_def)
  then have "3 * length b + 1 \<le> g" "3 * length c + 1 \<le> g" "3 * length bs + 2 \<le> g" using f g by (cases b; simp)+
  moreover have "k \<noteq> LNil" using assms(4) by (simp add: key_ok_def)
  ultimately show "unpack_hash lua f es ((b @ c @ bs) @ rest) = Some (Inr (LTable (put_all ((k, v) # ps) es), rest))"
    using assms(3,4) decodes_one [OF assms(1), of g "c @ bs @ rest"] decodes_one [OF assms(2), of g "bs @ rest"] g
    by (simp add: unpack_hash.simps [of lua "Suc g"] decodes_hash_def rawset_key_ok)
qed

definition size_bytes :: "nat \<Rightarrow> bytes" where
  "size_bytes n = (if n \<ge> MAX_COOKIE - 1
     then COMBINE_TYPE TYPE_TABLE (MAX_COOKIE - 1) # COMBINE_TYPE TYPE_NUMBER (int_cookie (of_nat n)) # int_bytes (of_nat n)
     else [COMBINE_TYPE TYPE_TABLE n])"

lemma wb_table_size_eq [simp]:
  assumes "wb_inv wb"
  shows "wb_inv (wb_table_size n wb)" "wb_content (wb_table_size n wb) = wb_content wb @ size_bytes n"
  using assms by (auto simp: wb_table_size_def size_bytes_def)

lemma decodes_table:
  assumes "n < 2 ^ 31" "decodes_array lua as vs" "length vs = n" "decodes_hash lua hs ps"
  shows "decodes lua (size_bytes n @ as @ hs) (LTable (put_all (number_from 1 vs @ ps) []))"
proof -
  have ne: "size_bytes n \<noteq> []" by (simp add: size_bytes_def)
  have "unpack_one lua f (size_bytes n @ as @ hs @ rest) = Some (Inr (LTable (put_all (number_from 1 vs @ ps) []), rest))"
    if f: "3 * length (size_bytes n @ as @ hs) + 1 \<le> f" for f rest
  proof -
    have "2 \<le> f" using f ne by (cases "size_bytes n") auto
    then obtain g where "f = 2 + g" using le_Suc_ex by blast
    then have g: "f = Suc (Suc g)" by simp
    have fuel: "3 * length as + 2 \<le> g" "3 * length hs + 2 \<le> g" using f g ne by (cases "size_bytes n"; simp)+
    have sz: "sint (ucast (of_nat n :: u64) :: 32 word) = int n"
      using assms(1) by (simp add: sint_uint unsigned_ucast_eq unsigned_of_nat take_bit_nat_eq_self signed_take_bit_31)
    have "\<exists>t c rb. rb_read 1 (size_bytes n @ as @ hs @ rest) = Inr ([t], rb) \<and> unat (t AND 7) = TYPE_TABLE \<and>
        unat (drop_bit 3 t) = c \<and> table_size c rb = Inr (n, as @ hs @ rest)"
      using sz int_cookie_less [of "of_nat n"] get_integer_int_bytes [of "of_nat n" "as @ hs @ rest"]
      by (auto simp: size_bytes_def rb_read_def COMBINE_TYPE_bits table_size_def seri_types)
    then show ?thesis using fuel assms(2-4) g
      by (auto simp: unpack_one.simps [of lua "Suc _"] push_value.simps [of lua "Suc _"] decodes_array_def decodes_hash_def put_all_def)
  qed
  then show ?thesis using ne by (simp add: decodes_def)
qed

lemma rebuilt_scalar: "\<not> is_table v \<Longrightarrow> rebuilt lua v = v"
  by (cases v) (simp_all add: is_table_def)

lemma key_ok_lval: "key_ok lua k \<Longrightarrow> lval_ok lua k \<and> rebuilt lua k = k"
  by (cases k) (simp_all add: key_ok_def is_table_def)

lemma number_from_map: "number_from i (map f [i..<i + n]) = map (\<lambda>j. (LInt (of_nat j), f j)) [i..<i + n]"
proof (induction n arbitrary: i)
  case (Suc n)
  then show ?case using Suc [of "Suc i"] by (simp add: upt_conv_Cons del: upt_Suc)
qed simp

text \<open>The writer added bytes that decode to the value.\<close>

definition wrote :: "write_block \<Rightarrow> write_block \<Rightarrow> (bytes \<Rightarrow> bool) \<Rightarrow> bool" where
  "wrote wb wb' P \<longleftrightarrow> wb_inv wb' \<and> (\<exists>bs. wb_content wb' = wb_content wb @ bs \<and> P bs)"

lemma wroteI: "wb_inv wb' \<Longrightarrow> wb_content wb' = wb_content wb @ bs \<Longrightarrow> P bs \<Longrightarrow> wrote wb wb' P"
  by (auto simp: wrote_def)

lemma wrote_trans:
  assumes "wrote wb wb1 P" "wrote wb1 wb2 Q" "\<And>a b. P a \<Longrightarrow> Q b \<Longrightarrow> R (a @ b)"
  shows "wrote wb wb2 R"
  using assms unfolding wrote_def by (metis append.assoc)

abbreviation rebuilt_pairs :: "lua \<Rightarrow> (lval \<times> lval) list \<Rightarrow> (lval \<times> lval) list" where
  "rebuilt_pairs lua es \<equiv> map (\<lambda>e. (fst e, rebuilt lua (snd e))) es"

lemma wrote_pair:
  assumes "wrote wb wb1 (\<lambda>bs. decodes lua bs (rebuilt lua k))" "wrote wb1 wb2 (\<lambda>bs. decodes lua bs (rebuilt lua v))"
    "wrote wb2 wb3 (\<lambda>bs. decodes_hash lua bs ps)" "key_ok lua k"
  shows "wrote wb wb3 (\<lambda>bs. decodes_hash lua bs ((k, rebuilt lua v) # ps))"
proof -
  have k: "rebuilt lua k = k" using key_ok_lval [OF assms(4)] by simp
  obtain a b c where "wb_content wb1 = wb_content wb @ a" "decodes lua a k" "wb_content wb2 = wb_content wb1 @ b"
    "decodes lua b (rebuilt lua v)" "wb_content wb3 = wb_content wb2 @ c" "decodes_hash lua c ps" "wb_inv wb3"
    using assms(1-3) unfolding wrote_def k by blast
  then show ?thesis using decodes_hash_Cons [of lua a k b "rebuilt lua v" c ps] assms(4) by (intro wroteI [of _ _ "a @ b @ c"]) simp_all
qed

lemma wrote_nil: "wb_inv wb \<Longrightarrow> wrote wb (wb_nil wb) (\<lambda>bs. decodes_hash lua bs [])"
  by (rule wroteI [where bs = "[COMBINE_TYPE TYPE_NIL 0]"]) (simp, simp, rule decodes_hash_Nil)

lemma pack_one_scalar:
  assumes "pack_one lua d v wb = Inr wb'" "\<not> is_table v" "wb_inv wb" "lval_ok lua v"
  shows "wrote wb wb' (\<lambda>bs. decodes lua bs (rebuilt lua v))"
  using assms unfolding rebuilt_scalar [OF assms(2)]
  by (cases v) (auto simp: pack_one.simps is_table_def split: if_splits
      intro!: wroteI decodes_int decodes_small decodes_string)

lemma pack_ok:
  "pack_one lua d v wb = Inr wb' \<Longrightarrow> wb_inv wb \<Longrightarrow> lval_ok lua v \<Longrightarrow>
     wrote wb wb' (\<lambda>bs. decodes lua bs (rebuilt lua v))"
  "wb_table_array lua d vs wb = Inr wb' \<Longrightarrow> wb_inv wb \<Longrightarrow> \<forall>v \<in> set vs. lval_ok lua v \<Longrightarrow>
     wrote wb wb' (\<lambda>bs. decodes_array lua bs (map (rebuilt lua) vs))"
  "wb_table_hash lua d n es wb = Inr wb' \<Longrightarrow> wb_inv wb \<Longrightarrow> \<forall>e \<in> set es. key_ok lua (fst e) \<and> lval_ok lua (snd e) \<Longrightarrow>
     wrote wb wb' (\<lambda>bs. decodes_hash lua bs (rebuilt_pairs lua (filter (\<lambda>e. \<not> in_array n (fst e)) es)))"
  "wb_table_metapairs lua d es wb = Inr wb' \<Longrightarrow> wb_inv wb \<Longrightarrow>
     \<forall>e \<in> set (takeWhile (\<lambda>e. fst e \<noteq> LNil) es). key_ok lua (fst e) \<and> lval_ok lua (snd e) \<Longrightarrow>
     wrote wb wb' (\<lambda>bs. decodes_hash lua bs (rebuilt_pairs lua (takeWhile (\<lambda>e. fst e \<noteq> LNil) es)))"
proof (induction lua d v wb and lua d vs wb and lua d n es wb and lua d es wb arbitrary: wb' and wb' and wb' and wb'
    rule: pack_one_wb_table_array_wb_table_hash_wb_table_metapairs.induct)
  case (1 lua d v wb)
  have d: "\<not> d > MAX_DEPTH" using 1(4) by (auto simp: pack_one.simps [of lua d] split: if_splits)
  show ?case
  proof (cases "is_table v")
    case False
    then show ?thesis using pack_one_scalar 1(4-6) by blast
  next
    case True
    then consider (tab) es where "v = LTable es" | (meta) es where "v = LMeta es"
      by (auto simp: is_table_def split: lval.splits)
    then show ?thesis
    proof cases
      case (tab es)
      let ?n = "lua_rawlen lua es"
      let ?vs = "map (rawgeti es) [1..<Suc ?n]" and ?hs = "filter (\<lambda>e. \<not> in_array ?n (fst e)) es"
      have ok: "?n < 2 ^ 31" "\<forall>e \<in> set es. key_ok lua (fst e) \<and> lval_ok lua (snd e)"
        using 1(6) unfolding tab lval_ok.simps [of lua "LTable es"] by simp_all
      have vs: "\<forall>v \<in> set ?vs. lval_ok lua v"
        using ok(2) by (fastforce simp: rawgeti_def split: option.splits dest: map_of_SomeD)
      obtain wb1 where w: "wb_table_array lua (Suc d) ?vs (wb_table_size ?n wb) = Inr wb1"
        "wb_table_hash lua (Suc d) ?n es wb1 = Inr wb'"
        using 1(4) d tab by (auto simp: pack_one.simps [of lua d] lbind_Inr Let_def simp del: upt_Suc)
      have w0: "wrote wb (wb_table_size ?n wb) (\<lambda>bs. bs = size_bytes ?n)" using 1(5) by (intro wroteI) simp_all
      have w1: "wrote (wb_table_size ?n wb) wb1 (\<lambda>bs. decodes_array lua bs (map (rebuilt lua) ?vs))"
        using 1(1) [OF d tab refl w(1)] 1(5) vs by simp
      then have "wb_inv wb1" by (simp add: wrote_def)
      then have w2: "wrote wb1 wb' (\<lambda>bs. decodes_hash lua bs (rebuilt_pairs lua ?hs))"
        using 1(2) [OF d tab refl w] ok(2) by simp
      have r: "rebuilt lua v = LTable (put_all (number_from 1 (map (rebuilt lua) ?vs) @ rebuilt_pairs lua ?hs) [])"
        unfolding tab using number_from_map [of 1 "rebuilt lua \<circ> rawgeti es" ?n] by (subst rebuilt.simps) (simp add: comp_def del: upt_Suc)
      have w12: "wrote (wb_table_size ?n wb) wb' (\<lambda>bs. \<exists>a b. bs = a @ b \<and> decodes_array lua a (map (rebuilt lua) ?vs) \<and>
          decodes_hash lua b (rebuilt_pairs lua ?hs))"
        by (rule wrote_trans [OF w1 w2]) blast
      have len: "length (map (rebuilt lua) ?vs) = ?n" by simp
      show ?thesis unfolding r
      proof (rule wrote_trans [OF w0 w12])
        fix a b
        assume "a = size_bytes ?n" and "\<exists>x y. b = x @ y \<and> decodes_array lua x (map (rebuilt lua) ?vs) \<and>
          decodes_hash lua y (rebuilt_pairs lua ?hs)"
        then show "decodes lua (a @ b) (LTable (put_all (number_from 1 (map (rebuilt lua) ?vs) @ rebuilt_pairs lua ?hs) []))"
          using decodes_table [OF ok(1) _ len] by blast
      qed
    next
      case (meta es)
      let ?ps = "takeWhile (\<lambda>e. fst e \<noteq> LNil) es"
      have ok: "\<forall>e \<in> set ?ps. key_ok lua (fst e) \<and> lval_ok lua (snd e)"
        using 1(6) unfolding meta lval_ok.simps [of lua "LMeta es"] by simp
      have w: "wb_table_metapairs lua (Suc d) es (wb_push [COMBINE_TYPE TYPE_TABLE 0] wb) = Inr wb'"
        using 1(4) d meta by (auto simp: pack_one.simps [of lua d])
      have w0: "wrote wb (wb_push [COMBINE_TYPE TYPE_TABLE 0] wb) (\<lambda>bs. bs = size_bytes 0)"
        using 1(5) by (intro wroteI) (simp_all add: size_bytes_def MAX_COOKIE_def)
      have w1: "wrote (wb_push [COMBINE_TYPE TYPE_TABLE 0] wb) wb' (\<lambda>bs. decodes_hash lua bs (rebuilt_pairs lua ?ps))"
        using 1(3) [OF d meta w] 1(5) ok by simp
      have r: "rebuilt lua v = LTable (put_all (number_from 1 [] @ rebuilt_pairs lua ?ps) [])"
        unfolding meta by (subst rebuilt.simps) simp
      show ?thesis unfolding r
        by (rule wrote_trans [OF w0 w1]) (use decodes_table [OF _ decodes_array_Nil, of 0] in auto)
    qed
  qed
next
  case (2 lua d wb)
  then show ?case by (intro wroteI [of _ _ "[]"]) (auto simp: decodes_array_Nil)
next
  case (3 lua d v vs wb)
  then obtain wb1 where "pack_one lua d v wb = Inr wb1" "wb_table_array lua d vs wb1 = Inr wb'" by (auto simp: lbind_Inr)
  note w = this
  have 1: "wrote wb wb1 (\<lambda>bs. decodes lua bs (rebuilt lua v))" using 3 w by simp
  then have "wb_inv wb1" by (simp add: wrote_def)
  then have "wrote wb1 wb' (\<lambda>bs. decodes_array lua bs (map (rebuilt lua) vs))" using 3 w by simp
  with 1 show ?case by (rule wrote_trans) (simp add: decodes_array_Cons)
next
  case (4 lua d n wb)
  then show ?case using wrote_nil by auto
next
  case (5 lua d n k v es wb)
  show ?case
  proof (cases "in_array n k")
    case True
    then show ?thesis using 5 by simp
  next
    case False
    obtain wb1 wb2 where w: "pack_one lua d k wb = Inr wb1" "pack_one lua d v wb1 = Inr wb2" "wb_table_hash lua d n es wb2 = Inr wb'"
      using "5.prems"(1) False by (auto simp: lbind_Inr)
    have k: "key_ok lua k" "lval_ok lua v" using "5.prems"(3) False by auto
    have 1: "wrote wb wb1 (\<lambda>bs. decodes lua bs (rebuilt lua k))" using 5 False w k key_ok_lval by simp
    then have "wb_inv wb1" by (simp add: wrote_def)
    then have 2: "wrote wb1 wb2 (\<lambda>bs. decodes lua bs (rebuilt lua v))" using 5 False w k by simp
    then have "wb_inv wb2" by (simp add: wrote_def)
    then have "wrote wb2 wb' (\<lambda>bs. decodes_hash lua bs (rebuilt_pairs lua (filter (\<lambda>e. \<not> in_array n (fst e)) es)))"
      using 5 False w by simp
    from wrote_pair [OF 1 2 this k(1)] False show ?thesis by simp
  qed
next
  case (6 lua d wb)
  then show ?case using wrote_nil by auto
next
  case (7 lua d k v es wb)
  show ?case
  proof (cases "k = LNil")
    case True
    then show ?thesis using 7 wrote_nil by auto
  next
    case False
    obtain wb1 wb2 where w: "pack_one lua d k wb = Inr wb1" "pack_one lua d v wb1 = Inr wb2" "wb_table_metapairs lua d es wb2 = Inr wb'"
      using "7.prems"(1) False by (auto simp: lbind_Inr)
    have k: "key_ok lua k" "lval_ok lua v" using "7.prems"(3) False by auto
    have 1: "wrote wb wb1 (\<lambda>bs. decodes lua bs (rebuilt lua k))" using 7 False w k key_ok_lval by simp
    then have "wb_inv wb1" by (simp add: wrote_def)
    then have 2: "wrote wb1 wb2 (\<lambda>bs. decodes lua bs (rebuilt lua v))" using 7 False w k by simp
    then have "wb_inv wb2" by (simp add: wrote_def)
    then have "wrote wb2 wb' (\<lambda>bs. decodes_hash lua bs (rebuilt_pairs lua (takeWhile (\<lambda>e. fst e \<noteq> LNil) es)))"
      using 7 False w by simp
    from wrote_pair [OF 1 2 this k(1)] False show ?thesis by simp
  qed
qed

section \<open>The rebuilt table has the same content\<close>

lemma map_of_put: "\<not> is_table k \<Longrightarrow> map_of (table_put k v es) = (map_of es)(k := if v = LNil then None else Some v)"
proof -
  assume k: "\<not> is_table k"
  have 1: "map_of (filter (\<lambda>e. fst e \<noteq> k) es) = (map_of es)(k := None)" by (induction es) (auto simp: fun_eq_iff)
  have other: "map_of (map (\<lambda>e. if fst e = k then (k, v) else e) es) x = map_of es x" if "x \<noteq> k" for x
    using that by (induction es) auto
  have same: "map_of (map (\<lambda>e. if fst e = k then (k, v) else e) es) k = Some v" if "k \<in> fst ` set es"
    using that by (induction es) auto
  have 2: "map_of (map (\<lambda>e. if fst e = k then (k, v) else e) es) = (map_of es)(k \<mapsto> v)" if "k \<in> fst ` set es"
    using other same [OF that] by (auto simp: fun_eq_iff)
  have 3: "map_of (es @ [(k, v)]) = (map_of es)(k \<mapsto> v)" if "k \<notin> fst ` set es"
  proof
    have n: "map_of es k = None" using that by (simp add: map_of_eq_None_iff)
    fix x show "map_of (es @ [(k, v)]) x = ((map_of es)(k \<mapsto> v)) x"
      using n by (cases "x = k"; cases "map_of es x") (simp_all add: map_add_def)
  qed
  show ?thesis using k 1 2 3 by (simp add: table_put_def)
qed

lemma map_of_put_all:
  assumes "distinct (map fst ps)" "\<forall>p \<in> set ps. \<not> is_table (fst p)"
  shows "map_of (put_all ps es) k = (case map_of ps k of None \<Rightarrow> map_of es k | Some v \<Rightarrow> if v = LNil then None else Some v)"
  using assms
proof (induction ps arbitrary: es)
  case (Cons p ps)
  obtain a v where p: "p = (a, v)" by fastforce
  have "map_of ps a = None" using Cons.prems(1) p by (simp add: map_of_eq_None_iff)
  then show ?case using Cons p by (cases "map_of ps k") (auto simp: map_of_put)
qed simp

lemma of_nat_u64_inj: "a < 2 ^ 32 \<Longrightarrow> b < 2 ^ 32 \<Longrightarrow> (of_nat a :: u64) = of_nat b \<Longrightarrow> a = b"
  by (simp add: word_of_nat_eq_iff take_bit_nat_eq_self)

lemma in_array_iff:
  assumes "n < 2 ^ 31"
  shows "in_array n k \<longleftrightarrow> (\<exists>i. 1 \<le> i \<and> i \<le> n \<and> k = LInt (of_nat i))"
proof -
  have s: "sint (of_nat i :: u64) = int i" if "i \<le> n" for i
    using that assms by (simp add: sint_uint unsigned_of_nat take_bit_nat_eq_self signed_take_bit_int_eq_self)
  have "1 \<le> nat (sint x) \<and> nat (sint x) \<le> n \<and> x = of_nat (nat (sint x))" if "0 < sint x" "sint x \<le> int n" for x :: u64
    using that by (auto simp: nat_le_iff Suc_le_eq)
  then have "\<exists>i. 1 \<le> i \<and> i \<le> n \<and> x = of_nat i" if "0 < sint x" "sint x \<le> int n" for x :: u64 using that by blast
  then show ?thesis using s by (auto simp: in_array_def split: lval.splits)
qed

lemma rebuilt_nonnil: "rebuilt lua v = LNil \<longleftrightarrow> v = LNil"
  by (cases v) (simp_all add: rebuilt.simps [of lua "LTable _"] rebuilt.simps [of lua "LMeta _"])

lemma map_of_rebuilt_pairs: "map_of (rebuilt_pairs lua es) k = map_option (rebuilt lua) (map_of es k)"
  by (induction es) auto

lemma map_of_filter_keys: "P k \<Longrightarrow> map_of (filter (\<lambda>e. P (fst e)) es) k = map_of es k"
  by (induction es) auto

lemma rebuilt_lookup:
  assumes "lval_ok lua (LTable es)"
  shows "\<exists>fs. rebuilt lua (LTable es) = LTable fs \<and> (\<forall>k. map_of fs k = map_option (rebuilt lua) (map_of es k))"
proof -
  let ?n = "lua_rawlen lua es"
  let ?as = "map (\<lambda>i. (LInt (of_nat i), rebuilt lua (rawgeti es i))) [1..<Suc ?n]"
  let ?hs = "rebuilt_pairs lua (filter (\<lambda>e. \<not> in_array ?n (fst e)) es)"
  have ok: "?n < 2 ^ 31" "distinct (map fst es)" "\<forall>e \<in> set es. key_ok lua (fst e) \<and> snd e \<noteq> LNil \<and> lval_ok lua (snd e)"
    using assms unfolding lval_ok.simps [of lua "LTable es"] by simp_all
  have r: "rebuilt lua (LTable es) = LTable (put_all (?as @ ?hs) [])" by (subst rebuilt.simps) simp
  have inj: "inj_on (\<lambda>i. LInt (of_nat i :: u64)) (set [1..<Suc ?n])"
    using ok(1) of_nat_u64_inj by (auto simp: inj_on_def)
  have das: "distinct (map fst ?as)" using inj by (simp add: distinct_map comp_def del: upt_Suc)
  have dhs: "distinct (map fst ?hs)" using ok(2) by (simp add: comp_def distinct_map_filter)
  have ia: "in_array ?n k" if "k \<in> set (map fst ?as)" for k using that unfolding in_array_iff [OF ok(1)] by auto
  then have "set (map fst ?as) \<inter> set (map fst ?hs) = {}" by (fastforce simp del: upt_Suc)
  then have dist: "distinct (map fst (?as @ ?hs))" using das dhs by simp
  have nt: "\<forall>p \<in> set (?as @ ?hs). \<not> is_table (fst p)" using ok(3) by (auto simp: is_table_def key_ok_def split: lval.splits)
  have val: "rebuilt lua v \<noteq> LNil" if "map_of es k = Some v" for k v
    using ok(3) map_of_SomeD [OF that] by (auto simp: rebuilt_nonnil)
  have "map_of (put_all (?as @ ?hs) []) k = map_option (rebuilt lua) (map_of es k)" for k
  proof (cases "in_array ?n k")
    case True
    then obtain i where i: "1 \<le> i" "i \<le> ?n" "k = LInt (of_nat i)" using in_array_iff [OF ok(1)] by blast
    have "(k, rebuilt lua (rawgeti es i)) \<in> set ?as" using i by (auto simp del: upt_Suc)
    then have "map_of ?as k = Some (rebuilt lua (rawgeti es i))" using das by (simp add: map_of_is_SomeI)
    moreover have "map_of ?hs k = None" using True unfolding map_of_eq_None_iff by auto
    ultimately show ?thesis unfolding map_of_put_all [OF dist nt] using i val
      by (auto simp: map_add_def rawgeti_def rebuilt_nonnil split: option.splits simp del: upt_Suc)
  next
    case False
    then have "map_of ?as k = None" using ia [of k] unfolding map_of_eq_None_iff by auto
    moreover have "map_of (filter (\<lambda>e. \<not> in_array ?n (fst e)) es) k = map_of es k" using False by (rule map_of_filter_keys)
    ultimately show ?thesis unfolding map_of_put_all [OF dist nt] using val
      by (auto simp: map_add_def map_of_rebuilt_pairs split: option.splits simp del: upt_Suc)
  qed
  then show ?thesis using r by blast
qed

section \<open>Properties\<close>

definition decodes_all :: "lua \<Rightarrow> bytes \<Rightarrow> lval list \<Rightarrow> bool" where
  "decodes_all lua bs vs \<longleftrightarrow> (\<forall>f. 4 * length bs + 1 \<le> f \<longrightarrow> unpack_all lua f bs = Some (Inr vs))"

lemma decodes_all_Nil: "decodes_all lua [] []"
  unfolding decodes_all_def
proof (intro allI impI)
  fix f assume "4 * length [] + 1 \<le> f"
  then show "unpack_all lua f [] = Some (Inr [])" by (cases f) simp_all
qed

lemma decodes_all_Cons:
  assumes "decodes lua b v" "decodes_all lua bs vs"
  shows "decodes_all lua (b @ bs) (v # vs)"
  unfolding decodes_all_def
proof (intro allI impI)
  fix f :: nat
  assume f: "4 * length (b @ bs) + 1 \<le> f"
  then obtain g where g: "f = Suc g" by (cases f) auto
  obtain t b' where b: "b = t # b'" using assms(1) by (cases b) (simp_all add: decodes_def)
  have "unpack_one lua f (b @ bs) = Some (Inr (v, bs))" using f by (intro decodes_one [OF assms(1)]) simp
  then have "push_value lua g (unat (t AND 7)) (unat (drop_bit 3 t)) (b' @ bs) = Some (Inr (v, bs))"
    by (simp add: g b unpack_one.simps [of lua "Suc g"] rb_read_def)
  moreover have "unpack_all lua g bs = Some (Inr vs)" using assms(2) f g b by (simp add: decodes_all_def)
  ultimately show "unpack_all lua f (b @ bs) = Some (Inr (v # vs))" by (simp add: g b)
qed

lemma pack_all_decodes:
  assumes "wb_table_array lua d vs wb = Inr wb'" "wb_inv wb" "\<forall>v \<in> set vs. lval_ok lua v"
  shows "wrote wb wb' (\<lambda>bs. decodes_all lua bs (map (rebuilt lua) vs))"
  using assms
proof (induction vs arbitrary: wb)
  case Nil
  then show ?case by (intro wroteI [of _ _ "[]"]) (auto simp: decodes_all_Nil)
next
  case (Cons v vs)
  then obtain wb1 where w: "pack_one lua d v wb = Inr wb1" "wb_table_array lua d vs wb1 = Inr wb'" by (auto simp: lbind_Inr)
  have 1: "wrote wb wb1 (\<lambda>bs. decodes lua bs (rebuilt lua v))" using pack_ok(1) [OF w(1)] Cons.prems by simp
  then have "wrote wb1 wb' (\<lambda>bs. decodes_all lua bs (map (rebuilt lua) vs))"
    using Cons w(2) by (intro Cons.IH) (auto simp: wrote_def)
  with 1 show ?case by (rule wrote_trans) (simp add: decodes_all_Cons)
qed

text \<open>
  When packing fails: something cannot be serialised, or lies more than 32 tables deep.
\<close>

function ldepth :: "lval \<Rightarrow> nat" where
  "ldepth v =
     (case v of
        LTable es \<Rightarrow> foldr max (map (\<lambda>e. Suc (ldepth (snd e))) es) 0
      | LMeta es \<Rightarrow> foldr max (map (\<lambda>e. Suc (ldepth (snd e))) (takeWhile (\<lambda>e. fst e \<noteq> LNil) es)) 0
      | _ \<Rightarrow> 0)"
  by pat_completeness auto
termination by (relation "measure size") (auto intro: entry_size entry_size_takeWhile)

function supported :: "lval \<Rightarrow> bool" where
  "supported v =
     (case v of
        LTable es \<Rightarrow> (\<forall>e \<in> set es. (\<forall>t. fst e \<noteq> LOther t) \<and> supported (snd e))
      | LMeta es \<Rightarrow> (\<forall>e \<in> set (takeWhile (\<lambda>e. fst e \<noteq> LNil) es). (\<forall>t. fst e \<noteq> LOther t) \<and> supported (snd e))
      | LOther t \<Rightarrow> False
      | _ \<Rightarrow> True)"
  by pat_completeness auto
termination by (relation "measure size") (auto intro: entry_size entry_size_takeWhile)

declare ldepth.simps [simp del] supported.simps [simp del]

lemma ldepth_simps [simp]:
  "ldepth LNil = 0" "ldepth (LBool b) = 0" "ldepth (LInt x) = 0" "ldepth (LReal x) = 0" "ldepth (LStr s) = 0"
  "ldepth (LPtr x) = 0" "ldepth (LOther t) = 0"
  by (subst ldepth.simps, simp)+

lemma supported_simps [simp]:
  "supported LNil" "supported (LBool b)" "supported (LInt x)" "supported (LReal x)" "supported (LStr s)" "supported (LPtr x)"
  "supported (LOther t) = False"
  by (subst supported.simps, simp)+

lemma foldr_max_le: "d + foldr max xs (0 :: nat) \<le> m \<longleftrightarrow> d \<le> m \<and> (\<forall>x \<in> set xs. d + x \<le> m)"
  by (induction xs) (auto simp: max_def)

lemma ldepth_table:
  "d + ldepth (LTable es) \<le> m \<longleftrightarrow> d \<le> m \<and> (\<forall>e \<in> set es. Suc d + ldepth (snd e) \<le> m)"
  "d + ldepth (LMeta es) \<le> m \<longleftrightarrow> d \<le> m \<and> (\<forall>e \<in> set (takeWhile (\<lambda>e. fst e \<noteq> LNil) es). Suc d + ldepth (snd e) \<le> m)"
  by (simp_all add: ldepth.simps [of "LTable es"] ldepth.simps [of "LMeta es"] foldr_max_le)

lemma supported_table:
  "supported (LTable es) \<longleftrightarrow> (\<forall>e \<in> set es. (\<forall>t. fst e \<noteq> LOther t) \<and> supported (snd e))"
  "supported (LMeta es) \<longleftrightarrow> (\<forall>e \<in> set (takeWhile (\<lambda>e. fst e \<noteq> LNil) es). (\<forall>t. fst e \<noteq> LOther t) \<and> supported (snd e))"
  by (simp_all add: supported.simps [of "LTable es"] supported.simps [of "LMeta es"])

definition succeeds :: "'a lres \<Rightarrow> bool" where "succeeds r \<longleftrightarrow> (\<exists>x. r = Inr x)"

lemma succeeds_simps [simp]: "succeeds (Inr x)" "\<not> succeeds (Inl e)"
  by (simp_all add: succeeds_def)

lemma succeeds_lbind:
  "(\<And>x. m = Inr x \<Longrightarrow> succeeds (f x) = Q) \<Longrightarrow> succeeds (lbind m f) \<longleftrightarrow> succeeds m \<and> Q"
  by (cases m) auto

definition fits :: "nat \<Rightarrow> lval \<Rightarrow> bool" where
  "fits d v \<longleftrightarrow> d + ldepth v \<le> MAX_DEPTH \<and> supported v"

lemma fits_key: "key_ok lua k \<Longrightarrow> fits d k \<longleftrightarrow> d \<le> MAX_DEPTH \<and> (\<forall>t. k \<noteq> LOther t)"
  by (cases k) (auto simp: fits_def key_ok_def is_table_def)

lemma fits_table:
  assumes "lval_ok lua (LTable es)" "lua_rawlen lua es \<noteq> 0 \<Longrightarrow> es \<noteq> []"
  shows "fits d (LTable es) \<longleftrightarrow> d \<le> MAX_DEPTH \<and>
    (\<forall>v \<in> set (map (rawgeti es) [1..<Suc (lua_rawlen lua es)]). fits (Suc d) v) \<and>
    (\<forall>e \<in> set (filter (\<lambda>e. \<not> in_array (lua_rawlen lua es) (fst e)) es). fits (Suc d) (fst e) \<and> fits (Suc d) (snd e))"
    (is "?L \<longleftrightarrow> ?R")
proof -
  let ?n = "lua_rawlen lua es"
  have ok: "?n < 2 ^ 31" "distinct (map fst es)" "\<And>e. e \<in> set es \<Longrightarrow> key_ok lua (fst e)"
    using assms(1) unfolding lval_ok.simps [of lua "LTable es"] by simp_all
  have L: "?L \<longleftrightarrow> d \<le> MAX_DEPTH \<and> (\<forall>e \<in> set es. fits (Suc d) (snd e) \<and> (\<forall>t. fst e \<noteq> LOther t))"
    by (auto simp: fits_def ldepth_table supported_table)
  have get: "rawgeti es i = snd e" if "e \<in> set es" "fst e = LInt (of_nat i)" for e i
  proof -
    have "(LInt (of_nat i), snd e) \<in> set es" using that by (metis prod.collapse)
    then show ?thesis using ok(2) by (simp add: rawgeti_def map_of_is_SomeI)
  qed
  show ?thesis
  proof
    assume l: ?L
    then have f: "\<And>e. e \<in> set es \<Longrightarrow> fits (Suc d) (snd e) \<and> (\<forall>t. fst e \<noteq> LOther t)" and d: "d \<le> MAX_DEPTH" using L by auto
    have sd: "Suc d \<le> MAX_DEPTH" if "es \<noteq> []" using f [of "hd es"] that by (simp add: fits_def)
    have "fits (Suc d) (rawgeti es i)" if "1 \<le> i" "i \<le> ?n" for i
    proof (cases "map_of es (LInt (of_nat i))")
      case None
      then show ?thesis using sd assms(2) that by (auto simp: rawgeti_def fits_def)
    next
      case (Some v)
      then show ?thesis using f [OF map_of_SomeD [OF Some]] by (simp add: rawgeti_def)
    qed
    moreover have "fits (Suc d) (fst e)" if "e \<in> set es" for e
    proof -
      have "es \<noteq> []" using that by auto
      then show ?thesis using fits_key [OF ok(3) [OF that], of "Suc d"] f [OF that] sd by blast
    qed
    ultimately show ?R using f d by (auto simp: less_Suc_eq_le simp del: upt_Suc)
  next
    assume r: ?R
    have "fits (Suc d) (snd e) \<and> (\<forall>t. fst e \<noteq> LOther t)" if e: "e \<in> set es" for e
    proof (cases "in_array ?n (fst e)")
      case True
      then obtain i where i: "1 \<le> i" "i \<le> ?n" "fst e = LInt (of_nat i)" using in_array_iff [OF ok(1)] by blast
      then have "fits (Suc d) (rawgeti es i)" using r by (auto simp: less_Suc_eq_le simp del: upt_Suc)
      then show ?thesis using get [OF e i(3)] i(3) by simp
    next
      case False
      then have "e \<in> set (filter (\<lambda>e. \<not> in_array ?n (fst e)) es)" using e by simp
      then have "fits (Suc d) (fst e) \<and> fits (Suc d) (snd e)" using r by blast
      then show ?thesis using fits_key [OF ok(3) [OF e]] by blast
    qed
    then show ?L using L r by blast
  qed
qed

lemma pack_succeeds:
  assumes border: "\<And>es. lua_rawlen lua es \<noteq> 0 \<Longrightarrow> es \<noteq> []"
  shows "lval_ok lua v \<Longrightarrow> succeeds (pack_one lua d v wb) \<longleftrightarrow> fits d v"
    "\<forall>v \<in> set vs. lval_ok lua v \<Longrightarrow> succeeds (wb_table_array lua d vs wb) \<longleftrightarrow> (\<forall>v \<in> set vs. fits d v)"
    "\<forall>e \<in> set es. key_ok lua (fst e) \<and> lval_ok lua (snd e) \<Longrightarrow> succeeds (wb_table_hash lua d n es wb) \<longleftrightarrow>
       (\<forall>e \<in> set (filter (\<lambda>e. \<not> in_array n (fst e)) es). fits d (fst e) \<and> fits d (snd e))"
    "\<forall>e \<in> set (takeWhile (\<lambda>e. fst e \<noteq> LNil) es). key_ok lua (fst e) \<and> lval_ok lua (snd e) \<Longrightarrow>
       succeeds (wb_table_metapairs lua d es wb) \<longleftrightarrow>
       (\<forall>e \<in> set (takeWhile (\<lambda>e. fst e \<noteq> LNil) es). fits d (fst e) \<and> fits d (snd e))"
  using border
proof (induction lua d v wb and lua d vs wb and lua d n es wb and lua d es wb
    rule: pack_one_wb_table_array_wb_table_hash_wb_table_metapairs.induct)
  case (1 lua d v wb)
  show ?case
  proof (cases "d > MAX_DEPTH")
    case True
    then show ?thesis by (simp add: pack_one.simps fits_def)
  next
    case d: False
    show ?thesis
    proof (cases v)
      case (LTable es)
      let ?n = "lua_rawlen lua es"
      let ?Q = "\<forall>e \<in> set (filter (\<lambda>e. \<not> in_array ?n (fst e)) es). fits (Suc d) (fst e) \<and> fits (Suc d) (snd e)"
      have ok: "\<forall>e \<in> set es. key_ok lua (fst e) \<and> lval_ok lua (snd e)"
        using "1.prems"(1) unfolding LTable lval_ok.simps [of lua "LTable es"] by simp
      have vs: "\<forall>v \<in> set (map (rawgeti es) [1..<Suc ?n]). lval_ok lua v"
        using ok by (fastforce simp: rawgeti_def split: option.splits dest: map_of_SomeD)
      have run: "pack_one lua d v wb = lbind (wb_table_array lua (Suc d) (map (rawgeti es) [1..<Suc ?n]) (wb_table_size ?n wb))
          (\<lambda>wb. wb_table_hash lua (Suc d) ?n es wb)"
        using d LTable by (simp add: pack_one.simps [of lua d] Let_def del: upt_Suc)
      have "succeeds (pack_one lua d v wb) \<longleftrightarrow>
          succeeds (wb_table_array lua (Suc d) (map (rawgeti es) [1..<Suc ?n]) (wb_table_size ?n wb)) \<and> ?Q"
        unfolding run by (rule succeeds_lbind) (rule 1(2) [OF d LTable refl _ ok "1.prems"(2)])
      also have "succeeds (wb_table_array lua (Suc d) (map (rawgeti es) [1..<Suc ?n]) (wb_table_size ?n wb)) \<longleftrightarrow>
          (\<forall>v \<in> set (map (rawgeti es) [1..<Suc ?n]). fits (Suc d) v)"
        by (rule 1(1) [OF d LTable refl vs]) (rule "1.prems"(2))
      also have "(\<forall>v \<in> set (map (rawgeti es) [1..<Suc ?n]). fits (Suc d) v) \<and> ?Q \<longleftrightarrow> fits d v"
        unfolding LTable using fits_table [OF "1.prems"(1) [unfolded LTable] "1.prems"(2), of d] d by (simp del: upt_Suc set_map set_filter)
      finally show ?thesis .
    next
      case (LMeta es)
      have ok: "\<forall>e \<in> set (takeWhile (\<lambda>e. fst e \<noteq> LNil) es). key_ok lua (fst e) \<and> lval_ok lua (snd e)"
        using "1.prems"(1) unfolding LMeta lval_ok.simps [of lua "LMeta es"] by simp
      have "fits d (LMeta es) \<longleftrightarrow> (\<forall>e \<in> set (takeWhile (\<lambda>e. fst e \<noteq> LNil) es). fits (Suc d) (fst e) \<and> fits (Suc d) (snd e))"
        using d ok fits_key [of lua _ "Suc d"] by (auto simp: fits_def [of d] fits_def [of "Suc d" "snd _"] ldepth_table supported_table)
      then show ?thesis using d 1(3) [OF d LMeta ok "1.prems"(2)] LMeta by (simp add: pack_one.simps [of lua d])
    qed (use d in \<open>simp_all add: pack_one.simps [of lua d] fits_def\<close>)
  qed
next
  case (3 lua d v vs wb)
  then show ?case by (auto simp: succeeds_lbind [of _ _ "\<forall>v \<in> set vs. fits d v"])
next
  case (5 lua d n k v es wb)
  let ?Q = "\<forall>e \<in> set (filter (\<lambda>e. \<not> in_array n (fst e)) es). fits d (fst e) \<and> fits d (snd e)"
  from 5 key_ok_lval [of lua k] show ?case
    by (auto simp: succeeds_lbind [of "pack_one lua d k wb" _ "fits d v \<and> ?Q"] succeeds_lbind [of "pack_one lua d v _" _ ?Q])
next
  case (7 lua d k v es wb)
  let ?Q = "\<forall>e \<in> set (takeWhile (\<lambda>e. fst e \<noteq> LNil) es). fits d (fst e) \<and> fits d (snd e)"
  show ?case
  proof (cases "k = LNil")
    case False
    then show ?thesis using 7 key_ok_lval [of lua k]
      by (simp add: succeeds_lbind [of "pack_one lua d k wb" _ "fits d v \<and> ?Q"] succeeds_lbind [of "pack_one lua d v _" _ ?Q])
  qed simp
qed simp_all

lemma luaseri_pack_succeeds:
  assumes "\<And>es. lua_rawlen lua es \<noteq> 0 \<Longrightarrow> es \<noteq> []" "\<forall>v \<in> set vs. lval_ok lua v"
  shows "succeeds (luaseri_pack lua vs) \<longleftrightarrow> (\<forall>v \<in> set vs. ldepth v \<le> MAX_DEPTH \<and> supported v)"
proof -
  have "succeeds (seri (wb_full wb @ [wb_current wb]) (nat (wb_len wb)))" if "wb_table_array lua 0 vs wb_init = Inr wb" for wb
    using pack_all_decodes [OF that] assms(2) seri_content [of wb] by (simp add: wrote_def)
  then have "succeeds (luaseri_pack lua vs) \<longleftrightarrow> succeeds (wb_table_array lua 0 vs wb_init)"
    by (cases "wb_table_array lua 0 vs wb_init") (simp_all add: luaseri_pack_def pack_from_def)
  then show ?thesis using pack_succeeds(2) [OF assms, of 0 wb_init] by (simp add: fits_def)
qed

text \<open>
  C8: values that one service packs arrive unchanged at another: unpacking the bytes gives
  the same values, scalars bit by bit, and tables with the same content: looking a key up in a
  table that was read gives what the key had in the table that was written, rebuilt in the same
  way. This covers both string formats, all widths of integers, array and hash parts and tables
  with their own iterator.
\<close>

theorem seri_roundtrip:
  assumes "luaseri_pack lua vs = Inr b" "\<forall>v \<in> set vs. lval_ok lua v"
  shows "luaseri_unpack lua (Arg_string b) = Some (Inr (map (rebuilt lua) vs)) \<and>
         (\<forall>v \<in> set vs. \<not> is_table v \<longrightarrow> rebuilt lua v = v) \<and>
         (\<forall>es. lval_ok lua (LTable es) \<longrightarrow> (\<exists>fs. rebuilt lua (LTable es) = LTable fs \<and>
            (\<forall>k. map_of fs k = map_option (rebuilt lua) (map_of es k))))"
proof -
  obtain wb where wb: "wb_table_array lua 0 vs wb_init = Inr wb"
    "seri (wb_full wb @ [wb_current wb]) (nat (wb_len wb)) = Inr b"
    using assms(1) by (auto simp: luaseri_pack_def pack_from_def lbind_Inr)
  have "wrote wb_init wb (\<lambda>bs. decodes_all lua bs (map (rebuilt lua) vs))"
    using pack_all_decodes [OF wb(1)] assms(2) by simp
  then have "b = wb_content wb" "decodes_all lua (wb_content wb) (map (rebuilt lua) vs)"
    using wb(2) seri_content [of wb] by (auto simp: wrote_def)
  then have "luaseri_unpack lua (Arg_string b) = Some (Inr (map (rebuilt lua) vs))"
    by (simp add: luaseri_unpack_def unpack_bytes_def decodes_all_def)
  then show ?thesis using rebuilt_scalar rebuilt_lookup by blast
qed

text \<open>A Lua in which the border of a table is the length of its longest run of keys from 1 on.\<close>

definition demo_lua :: lua where
  "demo_lua = \<lparr>lua_rawlen = (\<lambda>es. length (takeWhile (\<lambda>i. map_of es (LInt (of_nat i)) \<noteq> None) [1..<Suc (length es)])),
     lua_floatkey = (\<lambda>x. Some (LReal x))\<rparr>"

lemma demo_border: "lua_rawlen demo_lua es \<noteq> 0 \<Longrightarrow> es \<noteq> []"
  by (auto simp: demo_lua_def)

definition demo_values :: "lval list" where
  "demo_values = [LInt 300, LStr [104, 105], LTable [(LInt 1, LBool True), (LStr [120], LInt (-1))]]"

lemma demo_values_ok: "\<forall>v \<in> set demo_values. lval_ok demo_lua v" "\<forall>v \<in> set demo_values. ldepth v \<le> MAX_DEPTH \<and> supported v"
  by (simp_all add: demo_values_def lval_ok.simps [of _ "LTable _"] ldepth.simps [of "LTable _"] supported.simps [of "LTable _"]
      key_ok_def is_table_def MAX_DEPTH_def demo_lua_def)

theorem seri_roundtrip_witness:
  "\<exists>b. luaseri_pack demo_lua demo_values = Inr b \<and>
     luaseri_unpack demo_lua (Arg_string b) = Some (Inr (map (rebuilt demo_lua) demo_values))"
proof -
  have "succeeds (luaseri_pack demo_lua demo_values)"
    using luaseri_pack_succeeds [OF demo_border demo_values_ok(1)] demo_values_ok(2) by simp
  then obtain b where "luaseri_pack demo_lua demo_values = Inr b" by (auto simp: succeeds_def)
  then show ?thesis using seri_roundtrip [of demo_lua demo_values b] demo_values_ok(1) by blast
qed

text \<open>
  C17: the reader ends on every argument, whatever the bytes are: it returns values or raises
  an error, and never runs on.
\<close>

theorem unpack_terminates: "\<exists>r. luaseri_unpack lua arg = Some r"
proof -
  have "unpack_bytes lua b \<noteq> None" for b using unpack_all_ends [of b "4 * length b + 4" lua] by (simp add: unpack_bytes_def)
  then show ?thesis by (auto simp: luaseri_unpack_def split: seri_arg.splits option.splits)
qed

text \<open>
  C18: packing raises an error exactly if some value cannot be serialised (a function, a
  thread, full userdata) or tables are nested more than 32 deep; it never fails for another
  reason, in particular never because of its block buffer. The border of a table that has no
  entries is assumed to be 0.
\<close>

theorem pack_fails_iff:
  assumes "\<And>es. lua_rawlen lua es \<noteq> 0 \<Longrightarrow> es \<noteq> []" "\<forall>v \<in> set vs. lval_ok lua v"
  shows "(\<exists>e. luaseri_pack lua vs = Inl e) \<longleftrightarrow> (\<exists>v \<in> set vs. ldepth v > MAX_DEPTH \<or> \<not> supported v)"
proof -
  have "(\<exists>e. luaseri_pack lua vs = Inl e) \<longleftrightarrow> \<not> succeeds (luaseri_pack lua vs)"
    by (cases "luaseri_pack lua vs") simp_all
  then show ?thesis using luaseri_pack_succeeds [OF assms] by (auto simp: not_less)
qed

theorem pack_fails_iff_witness:
  "\<exists>e. luaseri_pack demo_lua [LTable [(LInt 1, LOther ''function'')]] = Inl e"
proof -
  have ok: "\<forall>v \<in> set [LTable [(LInt 1, LOther ''function'')]]. lval_ok demo_lua v"
    by (simp add: lval_ok.simps [of _ "LTable _"] key_ok_def is_table_def demo_lua_def)
  have "\<not> supported (LTable [(LInt 1, LOther ''function'')])" by (simp add: supported.simps [of "LTable _"])
  then show ?thesis using pack_fails_iff [OF demo_border ok] by auto
qed

end
