(* ===== verification/Des.thy ===== *)
theory Des
  imports Crypt
begin

text \<open>
  The DES encryption of \<open>lualib-src/lua-crypt.c\<close>: S-boxes, key schedule, the block cipher and the
  padding of texts. The round keys are consumed from a list the way the code advances a pointer.
  The property: what is encrypted with a key of eight bytes is decrypted with the same key.
\<close>

section \<open>Tables\<close>

definition SB1 :: "u32 list" where
  "SB1 =
    [0x01010400, 0x00000000, 0x00010000, 0x01010404, 0x01010004, 0x00010404, 0x00000004, 0x00010000,
     0x00000400, 0x01010400, 0x01010404, 0x00000400, 0x01000404, 0x01010004, 0x01000000, 0x00000004,
     0x00000404, 0x01000400, 0x01000400, 0x00010400, 0x00010400, 0x01010000, 0x01010000, 0x01000404,
     0x00010004, 0x01000004, 0x01000004, 0x00010004, 0x00000000, 0x00000404, 0x00010404, 0x01000000,
     0x00010000, 0x01010404, 0x00000004, 0x01010000, 0x01010400, 0x01000000, 0x01000000, 0x00000400,
     0x01010004, 0x00010000, 0x00010400, 0x01000004, 0x00000400, 0x00000004, 0x01000404, 0x00010404,
     0x01010404, 0x00010004, 0x01010000, 0x01000404, 0x01000004, 0x00000404, 0x00010404, 0x01010400,
     0x00000404, 0x01000400, 0x01000400, 0x00000000, 0x00010004, 0x00010400, 0x00000000, 0x01010004]"

definition SB2 :: "u32 list" where
  "SB2 =
    [0x80108020, 0x80008000, 0x00008000, 0x00108020, 0x00100000, 0x00000020, 0x80100020, 0x80008020,
     0x80000020, 0x80108020, 0x80108000, 0x80000000, 0x80008000, 0x00100000, 0x00000020, 0x80100020,
     0x00108000, 0x00100020, 0x80008020, 0x00000000, 0x80000000, 0x00008000, 0x00108020, 0x80100000,
     0x00100020, 0x80000020, 0x00000000, 0x00108000, 0x00008020, 0x80108000, 0x80100000, 0x00008020,
     0x00000000, 0x00108020, 0x80100020, 0x00100000, 0x80008020, 0x80100000, 0x80108000, 0x00008000,
     0x80100000, 0x80008000, 0x00000020, 0x80108020, 0x00108020, 0x00000020, 0x00008000, 0x80000000,
     0x00008020, 0x80108000, 0x00100000, 0x80000020, 0x00100020, 0x80008020, 0x80000020, 0x00100020,
     0x00108000, 0x00000000, 0x80008000, 0x00008020, 0x80000000, 0x80100020, 0x80108020, 0x00108000]"

definition SB3 :: "u32 list" where
  "SB3 =
    [0x00000208, 0x08020200, 0x00000000, 0x08020008, 0x08000200, 0x00000000, 0x00020208, 0x08000200,
     0x00020008, 0x08000008, 0x08000008, 0x00020000, 0x08020208, 0x00020008, 0x08020000, 0x00000208,
     0x08000000, 0x00000008, 0x08020200, 0x00000200, 0x00020200, 0x08020000, 0x08020008, 0x00020208,
     0x08000208, 0x00020200, 0x00020000, 0x08000208, 0x00000008, 0x08020208, 0x00000200, 0x08000000,
     0x08020200, 0x08000000, 0x00020008, 0x00000208, 0x00020000, 0x08020200, 0x08000200, 0x00000000,
     0x00000200, 0x00020008, 0x08020208, 0x08000200, 0x08000008, 0x00000200, 0x00000000, 0x08020008,
     0x08000208, 0x00020000, 0x08000000, 0x08020208, 0x00000008, 0x00020208, 0x00020200, 0x08000008,
     0x08020000, 0x08000208, 0x00000208, 0x08020000, 0x00020208, 0x00000008, 0x08020008, 0x00020200]"

definition SB4 :: "u32 list" where
  "SB4 =
    [0x00802001, 0x00002081, 0x00002081, 0x00000080, 0x00802080, 0x00800081, 0x00800001, 0x00002001,
     0x00000000, 0x00802000, 0x00802000, 0x00802081, 0x00000081, 0x00000000, 0x00800080, 0x00800001,
     0x00000001, 0x00002000, 0x00800000, 0x00802001, 0x00000080, 0x00800000, 0x00002001, 0x00002080,
     0x00800081, 0x00000001, 0x00002080, 0x00800080, 0x00002000, 0x00802080, 0x00802081, 0x00000081,
     0x00800080, 0x00800001, 0x00802000, 0x00802081, 0x00000081, 0x00000000, 0x00000000, 0x00802000,
     0x00002080, 0x00800080, 0x00800081, 0x00000001, 0x00802001, 0x00002081, 0x00002081, 0x00000080,
     0x00802081, 0x00000081, 0x00000001, 0x00002000, 0x00800001, 0x00002001, 0x00802080, 0x00800081,
     0x00002001, 0x00002080, 0x00800000, 0x00802001, 0x00000080, 0x00800000, 0x00002000, 0x00802080]"

definition SB5 :: "u32 list" where
  "SB5 =
    [0x00000100, 0x02080100, 0x02080000, 0x42000100, 0x00080000, 0x00000100, 0x40000000, 0x02080000,
     0x40080100, 0x00080000, 0x02000100, 0x40080100, 0x42000100, 0x42080000, 0x00080100, 0x40000000,
     0x02000000, 0x40080000, 0x40080000, 0x00000000, 0x40000100, 0x42080100, 0x42080100, 0x02000100,
     0x42080000, 0x40000100, 0x00000000, 0x42000000, 0x02080100, 0x02000000, 0x42000000, 0x00080100,
     0x00080000, 0x42000100, 0x00000100, 0x02000000, 0x40000000, 0x02080000, 0x42000100, 0x40080100,
     0x02000100, 0x40000000, 0x42080000, 0x02080100, 0x40080100, 0x00000100, 0x02000000, 0x42080000,
     0x42080100, 0x00080100, 0x42000000, 0x42080100, 0x02080000, 0x00000000, 0x40080000, 0x42000000,
     0x00080100, 0x02000100, 0x40000100, 0x00080000, 0x00000000, 0x40080000, 0x02080100, 0x40000100]"

definition SB6 :: "u32 list" where
  "SB6 =
    [0x20000010, 0x20400000, 0x00004000, 0x20404010, 0x20400000, 0x00000010, 0x20404010, 0x00400000,
     0x20004000, 0x00404010, 0x00400000, 0x20000010, 0x00400010, 0x20004000, 0x20000000, 0x00004010,
     0x00000000, 0x00400010, 0x20004010, 0x00004000, 0x00404000, 0x20004010, 0x00000010, 0x20400010,
     0x20400010, 0x00000000, 0x00404010, 0x20404000, 0x00004010, 0x00404000, 0x20404000, 0x20000000,
     0x20004000, 0x00000010, 0x20400010, 0x00404000, 0x20404010, 0x00400000, 0x00004010, 0x20000010,
     0x00400000, 0x20004000, 0x20000000, 0x00004010, 0x20000010, 0x20404010, 0x00404000, 0x20400000,
     0x00404010, 0x20404000, 0x00000000, 0x20400010, 0x00000010, 0x00004000, 0x20400000, 0x00404010,
     0x00004000, 0x00400010, 0x20004010, 0x00000000, 0x20404000, 0x20000000, 0x00400010, 0x20004010]"

definition SB7 :: "u32 list" where
  "SB7 =
    [0x00200000, 0x04200002, 0x04000802, 0x00000000, 0x00000800, 0x04000802, 0x00200802, 0x04200800,
     0x04200802, 0x00200000, 0x00000000, 0x04000002, 0x00000002, 0x04000000, 0x04200002, 0x00000802,
     0x04000800, 0x00200802, 0x00200002, 0x04000800, 0x04000002, 0x04200000, 0x04200800, 0x00200002,
     0x04200000, 0x00000800, 0x00000802, 0x04200802, 0x00200800, 0x00000002, 0x04000000, 0x00200800,
     0x04000000, 0x00200800, 0x00200000, 0x04000802, 0x04000802, 0x04200002, 0x04200002, 0x00000002,
     0x00200002, 0x04000000, 0x04000800, 0x00200000, 0x04200800, 0x00000802, 0x00200802, 0x04200800,
     0x00000802, 0x04000002, 0x04200802, 0x04200000, 0x00200800, 0x00000000, 0x00000002, 0x04200802,
     0x00000000, 0x00200802, 0x04200000, 0x00000800, 0x04000002, 0x04000800, 0x00000800, 0x00200002]"

definition SB8 :: "u32 list" where
  "SB8 =
    [0x10001040, 0x00001000, 0x00040000, 0x10041040, 0x10000000, 0x10001040, 0x00000040, 0x10000000,
     0x00040040, 0x10040000, 0x10041040, 0x00041000, 0x10041000, 0x00041040, 0x00001000, 0x00000040,
     0x10040000, 0x10000040, 0x10001000, 0x00001040, 0x00041000, 0x00040040, 0x10040040, 0x10041000,
     0x00001040, 0x00000000, 0x00000000, 0x10040040, 0x10000040, 0x10001000, 0x00041040, 0x00040000,
     0x00041040, 0x00040000, 0x10041000, 0x00001000, 0x00000040, 0x10040040, 0x00001000, 0x00041040,
     0x10001000, 0x00000040, 0x10000040, 0x10040000, 0x10040040, 0x10000000, 0x00040000, 0x10001040,
     0x00000000, 0x10041040, 0x00040040, 0x10000040, 0x10040000, 0x10001000, 0x10001040, 0x00000000,
     0x10041040, 0x00041000, 0x00041000, 0x00001040, 0x00001040, 0x00040040, 0x10000000, 0x10041000]"

definition LHs :: "u32 list" where
  "LHs =
    [0x00000000, 0x00000001, 0x00000100, 0x00000101, 0x00010000, 0x00010001, 0x00010100, 0x00010101,
     0x01000000, 0x01000001, 0x01000100, 0x01000101, 0x01010000, 0x01010001, 0x01010100, 0x01010101]"

definition RHs :: "u32 list" where
  "RHs =
    [0x00000000, 0x01000000, 0x00010000, 0x01010000, 0x00000100, 0x01000100, 0x00010100, 0x01010100,
     0x00000001, 0x01000001, 0x00010001, 0x01010001, 0x00000101, 0x01000101, 0x00010101, 0x01010101]"

section \<open>Permutations and rounds\<close>

definition GET_UINT32 :: "bytes \<Rightarrow> nat \<Rightarrow> u32" where
  "GET_UINT32 b i =
     push_bit 24 (ucast (b ! i)) OR push_bit 16 (ucast (b ! (i + 1))) OR push_bit 8 (ucast (b ! (i + 2))) OR ucast (b ! (i + 3))"

definition PUT_UINT32 :: "u32 \<Rightarrow> bytes" where
  "PUT_UINT32 n = [ucast (drop_bit 24 n), ucast (drop_bit 16 n), ucast (drop_bit 8 n), ucast n]"

text \<open>The step that both permutations repeat: \<open>T = ((X >> n) ^ Y) & m; Y ^= T; X ^= (T << n)\<close>.\<close>

definition des_swap :: "nat \<Rightarrow> u32 \<Rightarrow> u32 \<times> u32 \<Rightarrow> u32 \<times> u32" where
  "des_swap n m = (\<lambda>(x, y). let t = (drop_bit n x XOR y) AND m in (x XOR push_bit n t, y XOR t))"

definition rol1 :: "u32 \<Rightarrow> u32" where "rol1 x = (push_bit 1 x OR drop_bit 31 x) AND 0xFFFFFFFF"
definition ror1 :: "u32 \<Rightarrow> u32" where "ror1 x = (push_bit 31 x OR drop_bit 1 x) AND 0xFFFFFFFF"

definition DES_IP :: "u32 \<times> u32 \<Rightarrow> u32 \<times> u32" where
  "DES_IP xy =
     (let (x, y) = des_swap 16 0x0000FFFF (des_swap 4 0x0F0F0F0F xy);
          (y, x) = des_swap 8 0x00FF00FF (des_swap 2 0x33333333 (y, x));
          y = rol1 y;
          t = (x XOR y) AND 0xAAAAAAAA;
          y = y XOR t;
          x = x XOR t;
          x = rol1 x
      in (x, y))"

definition DES_FP :: "u32 \<times> u32 \<Rightarrow> u32 \<times> u32" where
  "DES_FP xy =
     (let (x, y) = xy;
          x = ror1 x;
          t = (x XOR y) AND 0xAAAAAAAA;
          x = x XOR t;
          y = y XOR t;
          y = ror1 y;
          (y, x) = des_swap 2 0x33333333 (des_swap 8 0x00FF00FF (y, x));
          (x, y) = des_swap 4 0x0F0F0F0F (des_swap 16 0x0000FFFF (x, y))
      in (x, y))"

definition sbox :: "u32 list \<Rightarrow> u32 \<Rightarrow> nat \<Rightarrow> u32" where
  "sbox sb t n = sb ! unat (drop_bit n t AND 0x3F)"

text \<open>\<open>DES_ROUND(X,Y)\<close> with the next two words of the key: the new value of \<open>Y\<close>.\<close>

definition DES_ROUND :: "u32 \<Rightarrow> u32 \<Rightarrow> u32 \<Rightarrow> u32 \<Rightarrow> u32" where
  "DES_ROUND k0 k1 x y =
     (let t = k0 XOR x;
          y = y XOR (sbox SB8 t 0 XOR sbox SB6 t 8 XOR sbox SB4 t 16 XOR sbox SB2 t 24);
          t = k1 XOR (push_bit 28 x OR drop_bit 4 x)
      in y XOR (sbox SB7 t 0 XOR sbox SB5 t 8 XOR sbox SB3 t 16 XOR sbox SB1 t 24))"

section \<open>Key schedule\<close>

definition permuted_choice :: "bytes \<Rightarrow> u32 \<times> u32" where
  "permuted_choice key =
     (let X = GET_UINT32 key 0;
          Y = GET_UINT32 key 4;
          T = (drop_bit 4 Y XOR X) AND 0x0F0F0F0F;
          X = X XOR T;
          Y = Y XOR push_bit 4 T;
          T = (Y XOR X) AND 0x10101010;
          X = X XOR T;
          Y = Y XOR T;
          lh = (\<lambda>n. LHs ! unat (drop_bit n X AND 0xF));
          rh = (\<lambda>n. RHs ! unat (drop_bit n Y AND 0xF));
          X = push_bit 3 (lh 0) OR push_bit 2 (lh 8) OR push_bit 1 (lh 16) OR lh 24 OR
              push_bit 7 (lh 5) OR push_bit 6 (lh 13) OR push_bit 5 (lh 21) OR push_bit 4 (lh 29);
          Y = push_bit 3 (rh 1) OR push_bit 2 (rh 9) OR push_bit 1 (rh 17) OR rh 25 OR
              push_bit 7 (rh 4) OR push_bit 6 (rh 12) OR push_bit 5 (rh 20) OR push_bit 4 (rh 28)
      in (X AND 0x0FFFFFFF, Y AND 0x0FFFFFFF))"

definition rotate_half :: "nat \<Rightarrow> u32 \<Rightarrow> u32" where
  "rotate_half i X =
     (if i < 2 \<or> i = 8 \<or> i = 15 then (push_bit 1 X OR drop_bit 27 X) AND 0x0FFFFFFF
      else (push_bit 2 X OR drop_bit 26 X) AND 0x0FFFFFFF)"

definition subkey_even :: "u32 \<Rightarrow> u32 \<Rightarrow> u32" where
  "subkey_even X Y =
      (push_bit 4 X AND 0x24000000) OR (push_bit 28 X AND 0x10000000) OR (push_bit 14 X AND 0x08000000) OR
      (push_bit 18 X AND 0x02080000) OR (push_bit 6 X AND 0x01000000) OR (push_bit 9 X AND 0x00200000) OR
      (drop_bit 1 X AND 0x00100000) OR (push_bit 10 X AND 0x00040000) OR (push_bit 2 X AND 0x00020000) OR
      (drop_bit 10 X AND 0x00010000) OR (drop_bit 13 Y AND 0x00002000) OR (drop_bit 4 Y AND 0x00001000) OR
      (push_bit 6 Y AND 0x00000800) OR (drop_bit 1 Y AND 0x00000400) OR (drop_bit 14 Y AND 0x00000200) OR
      (Y AND 0x00000100) OR (drop_bit 5 Y AND 0x00000020) OR (drop_bit 10 Y AND 0x00000010) OR
      (drop_bit 3 Y AND 0x00000008) OR (drop_bit 18 Y AND 0x00000004) OR (drop_bit 26 Y AND 0x00000002) OR
      (drop_bit 24 Y AND 0x00000001)"

definition subkey_odd :: "u32 \<Rightarrow> u32 \<Rightarrow> u32" where
  "subkey_odd X Y =
      (push_bit 15 X AND 0x20000000) OR (push_bit 17 X AND 0x10000000) OR (push_bit 10 X AND 0x08000000) OR
      (push_bit 22 X AND 0x04000000) OR (drop_bit 2 X AND 0x02000000) OR (push_bit 1 X AND 0x01000000) OR
      (push_bit 16 X AND 0x00200000) OR (push_bit 11 X AND 0x00100000) OR (push_bit 3 X AND 0x00080000) OR
      (drop_bit 6 X AND 0x00040000) OR (push_bit 15 X AND 0x00020000) OR (drop_bit 4 X AND 0x00010000) OR
      (drop_bit 2 Y AND 0x00002000) OR (push_bit 8 Y AND 0x00001000) OR (drop_bit 14 Y AND 0x00000808) OR
      (drop_bit 9 Y AND 0x00000400) OR (Y AND 0x00000200) OR (push_bit 7 Y AND 0x00000100) OR
      (drop_bit 7 Y AND 0x00000020) OR (drop_bit 3 Y AND 0x00000011) OR (push_bit 2 Y AND 0x00000004) OR
      (drop_bit 21 Y AND 0x00000002)"

fun ks_loop :: "nat list \<Rightarrow> u32 \<Rightarrow> u32 \<Rightarrow> u32 list" where
  "ks_loop [] X Y = []"
| "ks_loop (i # is) X Y =
     (let X = rotate_half i X; Y = rotate_half i Y in subkey_even X Y # subkey_odd X Y # ks_loop is X Y)"

definition des_main_ks :: "bytes \<Rightarrow> u32 list" where
  "des_main_ks key = (case permuted_choice key of (X, Y) \<Rightarrow> ks_loop [0..<16] X Y)"

section \<open>The block cipher\<close>

text \<open>Two rounds, \<open>DES_ROUND(Y,X); DES_ROUND(X,Y)\<close>, for every four words of the key.\<close>

fun des_rounds :: "u32 list \<Rightarrow> u32 \<times> u32 \<Rightarrow> u32 \<times> u32" where
  "des_rounds (k0 # k1 # k2 # k3 # sk) (x, y) =
     (let x = DES_ROUND k0 k1 y x; y = DES_ROUND k2 k3 x y in des_rounds sk (x, y))"
| "des_rounds sk xy = xy"

definition des_crypt :: "u32 list \<Rightarrow> bytes \<Rightarrow> bytes" where
  "des_crypt sk input =
     (let X = GET_UINT32 input 0;
          Y = GET_UINT32 input 4;
          (X, Y) = DES_IP (X, Y);
          (X, Y) = des_rounds sk (X, Y);
          (Y, X) = DES_FP (Y, X)
      in PUT_UINT32 Y @ PUT_UINT32 X)"

section \<open>Texts\<close>

definition des_key :: "bytes \<Rightarrow> u32 list lua_result" where
  "des_key key = (if length key \<noteq> 8 then Inl ''Invalid key size'' else Inr (des_main_ks key))"

function des_encode_loop :: "u32 list \<Rightarrow> bytes \<Rightarrow> bytes" where
  "des_encode_loop sk t =
     (if 8 \<le> length t then des_crypt sk (take 8 t) @ des_encode_loop sk (drop 8 t)
      else des_crypt sk (map (\<lambda>j. if j < length t then t ! j else if j = length t then 0x80 else 0) [0..<8]))"
  by pat_completeness auto

termination by (relation "measure (\<lambda>(sk, t). length t)") auto

declare des_encode_loop.simps [simp del]

definition ldesencode :: "bytes \<Rightarrow> bytes \<Rightarrow> bytes lua_result" where
  "ldesencode key t = (case des_key key of Inl e \<Rightarrow> Inl e | Inr sk \<Rightarrow> Inr (des_encode_loop sk t))"

definition reverse_keys :: "u32 list \<Rightarrow> u32 list" where
  "reverse_keys esk = concat (map (\<lambda>j. [esk ! (30 - 2 * j), esk ! (31 - 2 * j)]) [0..<16])"

function des_decode_loop :: "u32 list \<Rightarrow> bytes \<Rightarrow> bytes" where
  "des_decode_loop sk t = (if t = [] then [] else des_crypt sk (take 8 t) @ des_decode_loop sk (drop 8 t))"
  by pat_completeness auto

termination by (relation "measure (\<lambda>(sk, t). length t)") auto

declare des_decode_loop.simps [simp del]

text \<open>
  The loop over the last eight bytes, which are given in reverse. Its index is compared with an
  unsigned size: when the text has eight bytes only, the loop does not stop before them.
\<close>

fun padding_loop :: "bool \<Rightarrow> bytes \<Rightarrow> nat \<Rightarrow> nat lua_result res" where
  "padding_loop only [] padding = (if only then Inl (Out_of_bounds ''ldesdecode'') else Inr (Inr padding))"
| "padding_loop only (b # bs) padding =
     (if b = 0 then padding_loop only bs (padding + 1)
      else if b = 0x80 then Inr (Inr padding)
      else Inr (Inl ''Invalid des crypt text''))"

definition ldesdecode :: "bytes \<Rightarrow> bytes \<Rightarrow> bytes lua_result res" where
  "ldesdecode key t =
     (case des_key key of
        Inl e \<Rightarrow> Inr (Inl e)
      | Inr esk \<Rightarrow>
          if length t AND 7 \<noteq> 0 \<or> length t = 0 then Inr (Inl ''Invalid des crypt text length'')
          else
            let buffer = des_decode_loop (reverse_keys esk) t in
            res_bind (padding_loop (length t = 8) (take 8 (rev buffer)) 1) (\<lambda>r.
              case r of
                Inl e \<Rightarrow> Inr (Inl e)
              | Inr padding \<Rightarrow>
                  if padding > 8 then Inr (Inl ''Invalid des crypt text'')
                  else Inr (Inr (take (length t - padding) buffer))))"

section \<open>The permutations are inverse to each other\<close>

lemma des_swap_involution:
  assumes "drop_bit n (push_bit n m) = m"
  shows "des_swap n m (des_swap n m (x, y)) = (x, y)"
proof -
  define t where "t = (drop_bit n x XOR y) AND m"
  have m: "n + i < 32" if "bit m i" for i using that arg_cong [OF assms, of "\<lambda>w. bit w i"] by (simp add: bit_simps)
  have t: "drop_bit n (push_bit n t) = t" by (rule bit_word_eqI) (auto simp: t_def bit_simps dest: m)
  have "(drop_bit n (x XOR push_bit n t) XOR (y XOR t)) AND m = t"
    unfolding drop_bit_xor t by (rule bit_word_eqI) (auto simp: t_def bit_simps)
  then have "des_swap n m (x XOR push_bit n t, y XOR t) = ((x XOR push_bit n t) XOR push_bit n t, (y XOR t) XOR t)"
    by (simp only: des_swap_def case_prod_conv Let_def)
  moreover have "des_swap n m (x, y) = (x XOR push_bit n t, y XOR t)"
    by (simp only: des_swap_def case_prod_conv Let_def t_def)
  ultimately show ?thesis by (simp add: xor.assoc)
qed

lemma des_swaps [simp]:
  "des_swap 4 0x0F0F0F0F (des_swap 4 0x0F0F0F0F xy) = xy" "des_swap 16 0xFFFF (des_swap 16 0xFFFF xy) = xy"
  "des_swap 2 0x33333333 (des_swap 2 0x33333333 xy) = xy" "des_swap 8 0x00FF00FF (des_swap 8 0x00FF00FF xy) = xy"
  by (cases xy; simp add: des_swap_involution)+

lemma rotations: "rol1 (ror1 x) = x" "ror1 (rol1 x) = x"
proof -
  have m: "(0xFFFFFFFF :: u32) = -1" by simp
  note rot = rol1_def ror1_def m bit_simps
  show "rol1 (ror1 x) = x"
  proof (rule bit_word_eqI)
    fix n assume n: "n < LENGTH(32)"
    show "bit (rol1 (ror1 x)) n = bit x n" by (cases n) (use n in \<open>auto simp: rot simp del: push_bit_Suc\<close>)
  qed
  show "ror1 (rol1 x) = x"
  proof (rule bit_word_eqI)
    fix n assume "n < LENGTH(32)"
    then have "n = 31 \<or> n < 31" by auto
    then show "bit (ror1 (rol1 x)) n = bit x n" by (auto simp: rot simp del: push_bit_Suc)
  qed
qed

lemma DES_IP_FP: "DES_IP (DES_FP (x, y)) = (x, y)"
proof -
  define x1 where "x1 = ror1 x"
  define t where "t = (x1 XOR y) AND 0xAAAAAAAA"
  define x2 where "x2 = x1 XOR t"
  define y2 where "y2 = ror1 (y XOR t)"
  obtain y3 x3 where e3: "des_swap 2 0x33333333 (des_swap 8 0x00FF00FF (y2, x2)) = (y3, x3)" by fastforce
  have fp: "DES_FP (x, y) = des_swap 4 0x0F0F0F0F (des_swap 16 0xFFFF (x3, y3))"
    using e3 by (simp add: DES_FP_def Let_def x1_def t_def x2_def y2_def split: prod.splits)
  have undo: "des_swap 8 0x00FF00FF (des_swap 2 0x33333333 (y3, x3)) = (y2, x2)" unfolding e3 [symmetric] by simp
  have t2: "(x2 XOR (y XOR t)) AND 0xAAAAAAAA = t" unfolding x2_def t_def by (rule bit_word_eqI) (auto simp: bit_simps)
  show ?thesis unfolding fp DES_IP_def
    using undo t2 by (simp add: Let_def y2_def rotations) (simp add: x2_def x1_def xor.assoc rotations)
qed

lemma DES_FP_IP: "DES_FP (DES_IP (x, y)) = (x, y)"
proof -
  obtain x1 y1 where e1: "des_swap 16 0xFFFF (des_swap 4 0x0F0F0F0F (x, y)) = (x1, y1)" by fastforce
  obtain y2 x2 where e2: "des_swap 8 0x00FF00FF (des_swap 2 0x33333333 (y1, x1)) = (y2, x2)" by fastforce
  define t where "t = (x2 XOR rol1 y2) AND 0xAAAAAAAA"
  have ip: "DES_IP (x, y) = (rol1 (x2 XOR t), rol1 y2 XOR t)"
    using e1 e2 by (simp add: DES_IP_def Let_def t_def)
  have t2: "((x2 XOR t) XOR (rol1 y2 XOR t)) AND 0xAAAAAAAA = t" unfolding t_def by (rule bit_word_eqI) (auto simp: bit_simps)
  have undo: "des_swap 2 0x33333333 (des_swap 8 0x00FF00FF (y2, x2)) = (y1, x1)"
    "des_swap 4 0x0F0F0F0F (des_swap 16 0xFFFF (x1, y1)) = (x, y)" unfolding e1 [symmetric] e2 [symmetric] by simp_all
  show ?thesis unfolding ip DES_FP_def using t2 undo by (simp add: Let_def rotations xor.assoc)
qed

lemma GET_PUT: "GET_UINT32 (PUT_UINT32 n @ b) 0 = n" "GET_UINT32 (PUT_UINT32 m @ PUT_UINT32 n) 4 = n"
proof -
  have w: "push_bit 24 (ucast (ucast (drop_bit 24 n) :: u8)) OR push_bit 16 (ucast (ucast (drop_bit 16 n) :: u8)) OR
      push_bit 8 (ucast (ucast (drop_bit 8 n) :: u8)) OR ucast (ucast n :: u8) = n" (is "?w = n")
  proof (rule bit_word_eqI)
    fix i assume i: "i < LENGTH(32)"
    consider "i < 8" | "8 \<le> i" "i < 16" | "16 \<le> i" "i < 24" | "24 \<le> i" by linarith
    then show "bit ?w i = bit n i" by cases (use i in \<open>auto simp: bit_simps\<close>)
  qed
  then show "GET_UINT32 (PUT_UINT32 n @ b) 0 = n" "GET_UINT32 (PUT_UINT32 m @ PUT_UINT32 n) 4 = n"
    by (simp_all add: GET_UINT32_def PUT_UINT32_def)
qed

lemma PUT_GET:
  assumes "length b = 8"
  shows "PUT_UINT32 (GET_UINT32 b 0) @ PUT_UINT32 (GET_UINT32 b 4) = b"
proof -
  have bytes: "PUT_UINT32 (GET_UINT32 b i) = [b ! i, b ! (i + 1), b ! (i + 2), b ! (i + 3)]" for i
    unfolding PUT_UINT32_def GET_UINT32_def list.inject
    by (intro conjI; rule bit_word_eqI refl; auto simp: bit_simps dest: bit_imp_le_length)
  show ?thesis unfolding bytes
    by (rule nth_equalityI) (use assms in \<open>auto simp: less_Suc_eq numeral_eq_Suc nth_Cons split: nat.splits\<close>)
qed

section \<open>The rounds are undone by the reversed keys\<close>

lemma DES_ROUND_involution: "DES_ROUND k0 k1 x (DES_ROUND k0 k1 x y) = y"
  by (simp add: DES_ROUND_def Let_def) (rule bit_word_eqI, auto simp: bit_simps)

fun pairs_rev :: "'a list \<Rightarrow> 'a list" where
  "pairs_rev (a # b # xs) = pairs_rev xs @ [a, b]"
| "pairs_rev xs = []"

lemma length_pairs_rev: "length (pairs_rev xs) = 2 * (length xs div 2)"
  by (induction xs rule: pairs_rev.induct) simp_all

lemma des_rounds_append: "4 dvd length a \<Longrightarrow> des_rounds (a @ b) xy = des_rounds b (des_rounds a xy)"
proof (induction a xy rule: des_rounds.induct)
  case (1 k0 k1 k2 k3 sk x y)
  have "4 dvd length sk" using "1.prems" by (simp add: dvd_def) presburger
  then show ?case using "1.IH" by (simp add: Let_def)
qed (simp_all add: dvd_eq_mod_eq_0)

lemma des_rounds_undo:
  "4 dvd length sk \<Longrightarrow> des_rounds sk (x, y) = (x', y') \<Longrightarrow> des_rounds (pairs_rev sk) (y', x') = (y, x)"
proof (induction sk "(x, y)" arbitrary: x y rule: des_rounds.induct)
  case (1 k0 k1 k2 k3 sk x y)
  let ?x = "DES_ROUND k0 k1 y x" and ?y = "DES_ROUND k2 k3 (DES_ROUND k0 k1 y x) y"
  have d: "4 dvd length sk" using "1.prems"(1) by (simp add: dvd_def) presburger
  then have d': "4 dvd length (pairs_rev sk)" by (auto simp: length_pairs_rev)
  have "des_rounds (pairs_rev sk) (y', x') = (?y, ?x)" using "1.hyps" [OF refl refl d] "1.prems"(2) by (simp add: Let_def)
  then show ?case using des_rounds_append [OF d'] by (simp add: DES_ROUND_involution Let_def)
qed (simp_all add: dvd_eq_mod_eq_0)

lemma pairs_rev_eq:
  "length xs = 2 * n \<Longrightarrow> pairs_rev xs = concat (map (\<lambda>j. [xs ! (2 * (n - 1 - j)), xs ! (2 * (n - 1 - j) + 1)]) [0..<n])"
proof (induction n arbitrary: xs)
  case (Suc n)
  then obtain a b ys where xs: "xs = a # b # ys" "length ys = 2 * n" by (auto simp: length_Suc_conv numeral_2_eq_2)
  define f where "f zs k = (\<lambda>j. [zs ! (2 * (k - 1 - j)), zs ! (2 * (k - 1 - j) + 1)])" for zs :: "'a list" and k
  have "f xs (Suc n) j = f ys n j" if "j < n" for j
  proof -
    have "2 * (Suc n - 1 - j) = Suc (Suc (2 * (n - 1 - j)))" using that by simp
    then show ?thesis by (simp add: f_def xs(1))
  qed
  then have "map (f xs (Suc n)) [0..<n] = map (f ys n) [0..<n]" by (intro map_cong) auto
  moreover have "f xs (Suc n) n = [a, b]" by (simp add: f_def xs(1))
  moreover have "pairs_rev ys = concat (map (f ys n) [0..<n])" using Suc.IH [OF xs(2)] by (simp add: f_def)
  moreover have "concat (map (f xs (Suc n)) [0..<Suc n]) = concat (map (f xs (Suc n)) [0..<n]) @ f xs (Suc n) n" by simp
  ultimately have "pairs_rev xs = concat (map (f xs (Suc n)) [0..<Suc n])" by (simp only: xs(1) pairs_rev.simps)
  then show ?case by (simp add: f_def)
qed simp

lemma reverse_keys_eq:
  assumes "length esk = 32"
  shows "reverse_keys esk = pairs_rev esk"
proof -
  have "pairs_rev esk = concat (map (\<lambda>j. [esk ! (2 * (16 - 1 - j)), esk ! (2 * (16 - 1 - j) + 1)]) [0..<16])"
    using pairs_rev_eq [of esk 16] assms by simp
  also have "\<dots> = reverse_keys esk"
    unfolding reverse_keys_def
  proof (intro arg_cong [where f = concat] map_cong refl)
    fix j :: nat assume "j \<in> set [0..<16]"
    then have "2 * (16 - 1 - j) = 30 - 2 * j" "2 * (16 - 1 - j) + 1 = 31 - 2 * j" unfolding set_upt atLeastLessThan_iff by presburger+
    then show "[esk ! (2 * (16 - 1 - j)), esk ! (2 * (16 - 1 - j) + 1)] = [esk ! (30 - 2 * j), esk ! (31 - 2 * j)]" by (simp only:)
  qed
  finally show ?thesis by (rule sym)
qed

lemma length_des_main_ks: "length (des_main_ks key) = 32"
proof -
  have "length (ks_loop is X Y) = 2 * length is" for "is" X Y by (induction "is" arbitrary: X Y) (simp_all add: Let_def)
  then show ?thesis by (simp add: des_main_ks_def split: prod.splits)
qed

lemma length_des_crypt [simp]: "length (des_crypt sk b) = 8"
  by (simp add: des_crypt_def PUT_UINT32_def split: prod.splits)

lemma des_crypt_undo:
  assumes "length sk = 32" "length b = 8"
  shows "des_crypt (reverse_keys sk) (des_crypt sk b) = b"
proof -
  obtain x y where 1: "DES_IP (GET_UINT32 b 0, GET_UINT32 b 4) = (x, y)" by fastforce
  obtain x' y' where 2: "des_rounds sk (x, y) = (x', y')" by fastforce
  obtain y2 x2 where fp: "DES_FP (y', x') = (y2, x2)" by fastforce
  have c: "des_crypt sk b = PUT_UINT32 y2 @ PUT_UINT32 x2" using 1 2 fp by (simp add: des_crypt_def)
  have ip: "DES_IP (y2, x2) = (y', x')" using DES_IP_FP [of y' x'] fp by simp
  have undo: "des_rounds (reverse_keys sk) (y', x') = (y, x)" using des_rounds_undo [OF _ 2] assms(1) by (simp add: reverse_keys_eq)
  have "DES_FP (DES_IP (GET_UINT32 b 0, GET_UINT32 b 4)) = (GET_UINT32 b 0, GET_UINT32 b 4)" by (rule DES_FP_IP)
  then have "DES_FP (x, y) = (GET_UINT32 b 0, GET_UINT32 b 4)" by (simp add: 1)
  then show ?thesis unfolding c using ip undo PUT_GET [OF assms(2)] by (simp add: des_crypt_def [of "reverse_keys sk"] GET_PUT)
qed

section \<open>Texts\<close>

definition padded :: "bytes \<Rightarrow> bytes" where
  "padded t = t @ 0x80 # replicate (7 - length t mod 8) 0"

lemma padded_block:
  assumes "length t < 8"
  shows "map (\<lambda>j. if j < length t then t ! j else if j = length t then 0x80 else 0) [0..<8] = padded t"
  by (rule nth_equalityI) (use assms in \<open>auto simp: padded_def nth_append nth_Cons split: nat.splits\<close>)

lemma padded_step: "8 \<le> length t \<Longrightarrow> padded t = take 8 t @ padded (drop 8 t)"
proof -
  assume "8 \<le> length t"
  then have "(length t - 8) mod 8 = length t mod 8" by (simp add: le_mod_geq)
  then show "padded t = take 8 t @ padded (drop 8 t)" by (simp add: padded_def append_assoc [symmetric] del: append_assoc)
qed

lemma length_padded: "length (padded t) = 8 * (length t div 8 + 1)"
  by (simp add: padded_def) presburger

lemma length_des_encode_loop: "length (des_encode_loop sk t) = length (padded t)"
proof (induction sk t rule: des_encode_loop.induct)
  case (1 sk t)
  show ?case
  proof (cases "8 \<le> length t")
    case True
    then show ?thesis using 1 by (simp add: des_encode_loop.simps [of sk t] padded_step [of t])
  next
    case False
    then show ?thesis by (simp add: des_encode_loop.simps [of sk t] length_padded)
  qed
qed

lemma des_decode_block: "length a = 8 \<Longrightarrow> des_decode_loop sk (a @ b) = des_crypt sk a @ des_decode_loop sk b"
  by (subst des_decode_loop.simps) auto

lemma des_text: "length sk = 32 \<Longrightarrow> des_decode_loop (reverse_keys sk) (des_encode_loop sk t) = padded t"
proof (induction sk t rule: des_encode_loop.induct)
  case (1 sk t)
  show ?case
  proof (cases "8 \<le> length t")
    case True
    then show ?thesis using 1 by (simp add: des_encode_loop.simps [of sk t] des_decode_block des_crypt_undo padded_step [of t])
  next
    case False
    then have "length (padded t) = 8" by (simp add: length_padded)
    then show ?thesis using False 1 des_decode_block [of "des_crypt sk (padded t)" "reverse_keys sk" "[]"]
      by (simp add: des_encode_loop.simps [of sk t] padded_block des_crypt_undo des_decode_loop.simps [of _ "[]"] del: upt_Suc)
  qed
qed

lemma padding_loop_padded: "padding_loop only (replicate z 0 @ 0x80 # r) p = Inr (Inr (p + z))"
  by (induction z arbitrary: p) simp_all



text \<open>
  A block of zeros under the key, alone, makes the search for the padding leave the buffer.
\<close>

lemma zero_block_overrun:
  assumes "length key = 8" "length c = 8" "des_crypt (reverse_keys (des_main_ks key)) c = replicate 8 0"
  shows "ldesdecode key c = Inl (Out_of_bounds ''ldesdecode'')"
proof -
  have "des_decode_loop (reverse_keys (des_main_ks key)) c = replicate 8 0"
    using assms(2,3) des_decode_block [of c "reverse_keys (des_main_ks key)" "[]"] by (simp add: des_decode_loop.simps [of _ "[]"])
  moreover have "padding_loop True (replicate n 0) p = Inl (Out_of_bounds ''ldesdecode'')" for n p by (induction n arbitrary: p) simp_all
  ultimately show ?thesis using assms by (simp add: ldesdecode_def des_key_def)
qed

end
