(* ===== verification/CryptProps.thy ===== *)
theory CryptProps
  imports Crypt
begin

text \<open>Properties of the encodings and of the key exchange of \<open>Crypt\<close>.\<close>

section \<open>Bits of words\<close>

lemma unat_take_bit_less: "unat (take_bit n w) < 2 ^ n"
  by (simp add: unsigned_take_bit_eq)

lemma nibbles: "push_bit 4 (drop_bit 4 b) OR take_bit 4 b = (b :: u8)"
  by (rule bit_word_eqI) (auto simp: bit_simps)

lemma le_word4_bytes: "le_word4 (le_bytes4 w) = w"
proof (rule bit_word_eqI)
  fix n assume n: "n < LENGTH(32)"
  consider "n < 8" | "8 \<le> n" "n < 16" | "16 \<le> n" "n < 24" | "24 \<le> n" by linarith
  then show "bit (le_word4 (le_bytes4 w)) n = bit w n"
    by cases (use n in \<open>auto simp: le_word4_def le_bytes4_def and_masks bit_simps\<close>)
qed

lemma le_bytes4_append [simp]: "take 4 (le_bytes4 w @ x) = le_bytes4 w" "drop 4 (le_bytes4 w @ x) = x" "length (le_bytes4 w) = 4"
  by (simp_all add: le_bytes4_def)

lemma push64_eq: "push64 r = le_bytes4 (ucast r) @ le_bytes4 (ucast (drop_bit 32 r))"
proof -
  have "[0..<8] = [0, 1, 2, 3, 4, 5, 6, 7 :: nat]" by code_simp
  then show ?thesis unfolding push64_def le_bytes4_def and_masks by (simp, intro conjI; intro bit_word_eqI; auto simp: bit_simps)
qed

lemma word64_push64: "word64 (le_word4 (take 4 (push64 r)), le_word4 (drop 4 (push64 r))) = r"
  unfolding push64_eq le_bytes4_append
  by (simp add: le_word4_bytes word64_def le_bytes4_def [symmetric]) (rule bit_word_eqI, auto simp: bit_simps)

lemma length_push64 [simp]: "length (push64 r) = 8"
  by (simp add: push64_def)

section \<open>Text encodings\<close>

lemma HEX_hex: "n < 16 \<Longrightarrow> HEX (hex ! n) = of_nat n"
proof -
  have "\<forall>n \<in> set [0..<16]. HEX (hex ! n) = of_nat n" by code_simp
  then show "n < 16 \<Longrightarrow> HEX (hex ! n) = of_nat n" by simp
qed

lemma HEX_nibble: "HEX (hex ! unat (drop_bit 4 b)) = drop_bit 4 b" "HEX (hex ! unat (take_bit 4 b)) = take_bit 4 (b :: u8)"
proof -
  have "unat (drop_bit 4 b) < 16"
    unfolding unsigned_drop_bit_eq using unsigned_less [of b, where ?'a = nat] by (simp add: drop_bit_eq_div take_bit_eq_mod)
  then show "HEX (hex ! unat (drop_bit 4 b)) = drop_bit 4 b" using HEX_hex by simp
  show "HEX (hex ! unat (take_bit 4 b)) = take_bit 4 b" using HEX_hex [of "unat (take_bit 4 b)"] unat_take_bit_less [of 4 b] by simp
qed

lemma nibble_small: "\<not> drop_bit 4 (b :: u8) > 16" "\<not> take_bit 4 (b :: u8) > 16"
proof -
  have "unat (drop_bit 4 b) < 16"
    unfolding unsigned_drop_bit_eq using unsigned_less [of b, where ?'a = nat] by (simp add: drop_bit_eq_div take_bit_eq_mod)
  then show "\<not> drop_bit 4 b > 16" by (simp add: word_less_nat_alt)
  show "\<not> take_bit 4 b > 16" using unat_take_bit_less [of 4 b] by (simp add: word_less_nat_alt)
qed

text \<open>
  Hexadecimal text decodes to the bytes it was made from.
\<close>

theorem hex_roundtrip: "lfromhex (ltohex t) = Inr t"
proof -
  have "even (length (ltohex t))" by (induction t) (simp_all add: ltohex_def)
  moreover have "fromhex_loop (ltohex t) = Inr t"
    by (induction t) (simp_all add: ltohex_def and_masks HEX_nibble nibble_small nibbles Let_def del: not_less)
  ultimately show ?thesis by (simp add: lfromhex_def and_one_eq)
qed

lemma b64index_encoding:
  assumes "n < 64"
  shows "b64index (encoding ! n) = int n"
proof -
  have table: "map b64index encoding = map int [0..<64]" by (simp add: b64index_def encoding_def decoding_def upt_rec)
  have "n < length encoding" using assms by (simp add: encoding_def)
  then have "b64index (encoding ! n) = map b64index encoding ! n" by (rule nth_map [symmetric])
  also have "\<dots> = int n" unfolding table using assms by (subst nth_map) (simp_all del: upt_Suc)
  finally show ?thesis .
qed

lemma b64index_enc: "unat v < 64 \<Longrightarrow> b64index (enc v) = uint v"
  unfolding enc_def uint_nat by (rule b64index_encoding)

lemma b64index_pad: "b64index 61 = -2"
  by (simp add: b64index_def decoding_def)

lemma b64_quad_4:
  assumes "b64index a \<noteq> -1" "b64index b \<noteq> -1" "b64index c \<noteq> -1" "b64index d \<noteq> -1"
  shows "b64_quad 4 (a # b # c # d # t) = Some ([b64index a, b64index b, b64index c, b64index d], t)"
  using assms by (simp add: eval_nat_numeral Let_def)

lemma b64_decode_group:
  assumes "b64_quad 4 t = Some (c, r)" "b64_group c = Inr b" "lb64decode r = Inr bs"
  shows "lb64decode t = Inr (b @ bs)"
proof -
  have "t \<noteq> []" using assms(1) by (auto simp: eval_nat_numeral)
  then show ?thesis using assms by (simp add: lb64decode.simps [of t])
qed

lemma uint_not_neg: "uint v \<noteq> -1" "uint v \<noteq> -2"
  using uint_nonnegative [of v] by linarith+

lemma digit_small: "unat (take_bit 6 v) < 64" "unat (push_bit 2 (take_bit 4 v)) < 64" "unat (push_bit 4 (take_bit 2 v)) < 64"
  for v :: u32
  using unat_take_bit_less [of 6 v] unat_take_bit_less [of 6 "push_bit 2 v"] unat_take_bit_less [of 6 "push_bit 4 v"]
  by (simp_all add: push_bit_take_bit)

text \<open>The three kinds of groups: the first digit is small because the bytes are.\<close>

lemma group3:
  fixes a b c :: u8
  defines "v \<equiv> push_bit 16 (ucast a) OR push_bit 8 (ucast b) OR ucast c :: u32"
  shows "drop_bit 18 v = take_bit 6 (drop_bit 18 v)"
    "push_bit 18 (take_bit 6 (drop_bit 18 v)) OR push_bit 12 (take_bit 6 (drop_bit 12 v)) OR push_bit 6 (take_bit 6 (drop_bit 6 v)) OR
      take_bit 6 v = v"
    "ucast (drop_bit 16 v) = a" "ucast (take_bit 8 (drop_bit 8 v)) = b" "ucast (take_bit 8 v) = c"
proof -
  have hi: "n < 24" if "bit v n" for n using that by (auto simp: v_def bit_simps dest!: bit_imp_le_length)
  show "drop_bit 18 v = take_bit 6 (drop_bit 18 v)" by (rule bit_word_eqI) (auto simp: bit_simps dest: hi)
  show "push_bit 18 (take_bit 6 (drop_bit 18 v)) OR push_bit 12 (take_bit 6 (drop_bit 12 v)) OR push_bit 6 (take_bit 6 (drop_bit 6 v)) OR
      take_bit 6 v = v"
  proof (rule bit_word_eqI)
    fix n assume "n < LENGTH(32)"
    consider "n < 6" | "6 \<le> n" "n < 12" | "12 \<le> n" "n < 18" | "18 \<le> n" "n < 24" | "24 \<le> n" by linarith
    then show "bit (push_bit 18 (take_bit 6 (drop_bit 18 v)) OR push_bit 12 (take_bit 6 (drop_bit 12 v)) OR
        push_bit 6 (take_bit 6 (drop_bit 6 v)) OR take_bit 6 v) n = bit v n"
      by cases (use \<open>n < LENGTH(32)\<close> hi [of n] in \<open>auto simp: bit_simps\<close>)
  qed
  show "ucast (drop_bit 16 v) = a" "ucast (take_bit 8 (drop_bit 8 v)) = b" "ucast (take_bit 8 v) = c"
    by (rule bit_word_eqI; auto simp: v_def bit_simps dest: bit_imp_le_length)+
qed

lemma group2:
  fixes a b :: u8
  defines "v \<equiv> push_bit 8 (ucast a) OR ucast b :: u32"
  shows "drop_bit 10 v = take_bit 6 (drop_bit 10 v)"
    "push_bit 10 (take_bit 6 (drop_bit 10 v)) OR push_bit 4 (take_bit 6 (drop_bit 4 v)) OR drop_bit 2 (push_bit 2 (take_bit 4 v)) = v"
    "take_bit 2 (push_bit 2 (take_bit 4 v)) = 0" "ucast (drop_bit 8 v) = a" "ucast (take_bit 8 v) = b"
proof -
  have hi: "n < 16" if "bit v n" for n using that by (auto simp: v_def bit_simps dest!: bit_imp_le_length)
  show "drop_bit 10 v = take_bit 6 (drop_bit 10 v)" by (rule bit_word_eqI) (auto simp: bit_simps dest: hi)
  show "push_bit 10 (take_bit 6 (drop_bit 10 v)) OR push_bit 4 (take_bit 6 (drop_bit 4 v)) OR drop_bit 2 (push_bit 2 (take_bit 4 v)) = v"
  proof (rule bit_word_eqI)
    fix n assume "n < LENGTH(32)"
    consider "n < 4" | "4 \<le> n" "n < 10" | "10 \<le> n" "n < 16" | "16 \<le> n" by linarith
    then show "bit (push_bit 10 (take_bit 6 (drop_bit 10 v)) OR push_bit 4 (take_bit 6 (drop_bit 4 v)) OR
        drop_bit 2 (push_bit 2 (take_bit 4 v))) n = bit v n"
      by cases (use \<open>n < LENGTH(32)\<close> hi [of n] in \<open>auto simp: bit_simps\<close>)
  qed
  show "take_bit 2 (push_bit 2 (take_bit 4 v)) = 0" by (rule bit_word_eqI) (auto simp: bit_simps)
  show "ucast (drop_bit 8 v) = a" "ucast (take_bit 8 v) = b"
    by (rule bit_word_eqI; auto simp: v_def bit_simps dest: bit_imp_le_length)+
qed

lemma group1:
  fixes a :: u8
  defines "v \<equiv> ucast a :: u32"
  shows "drop_bit 2 v = take_bit 6 (drop_bit 2 v)"
    "push_bit 2 (take_bit 6 (drop_bit 2 v)) OR drop_bit 4 (push_bit 4 (take_bit 2 v)) = v"
    "take_bit 4 (push_bit 4 (take_bit 2 v)) = 0" "ucast v = a"
proof -
  have hi: "n < 8" if "bit v n" for n using that by (auto simp: v_def bit_simps dest!: bit_imp_le_length)
  show "drop_bit 2 v = take_bit 6 (drop_bit 2 v)" by (rule bit_word_eqI) (auto simp: bit_simps dest: hi)
  show "push_bit 2 (take_bit 6 (drop_bit 2 v)) OR drop_bit 4 (push_bit 4 (take_bit 2 v)) = v"
  proof (rule bit_word_eqI)
    fix n assume "n < LENGTH(32)"
    consider "n = 0" | "n = 1" | m where "n = m + 2" "n < 8" | "8 \<le> n" by (metis One_nat_def add_2_eq_Suc' not_less not0_implies_Suc)
    then show "bit (push_bit 2 (take_bit 6 (drop_bit 2 v)) OR drop_bit 4 (push_bit 4 (take_bit 2 v))) n = bit v n"
      by cases (use \<open>n < LENGTH(32)\<close> hi [of n] in \<open>auto simp: bit_simps Suc_diff_le\<close>)
  qed
  show "take_bit 4 (push_bit 4 (take_bit 2 v)) = 0" "ucast v = a"
    by (rule bit_word_eqI; auto simp: v_def bit_simps dest: bit_imp_le_length)+
qed

lemmas digits = b64index_enc [OF digit_small(1)] b64index_enc [OF digit_small(2)] b64index_enc [OF digit_small(3)]

lemma b64_step3: "lb64decode (lb64encode (a # b # c # t)) = Inr (a # b # c # bs)" if "lb64decode (lb64encode t) = Inr bs"
proof -
  define v where "v = (push_bit 16 (ucast a) OR push_bit 8 (ucast b) OR ucast c :: u32)"
  note g = group3 [of a b c, folded v_def]
  let ?d = "[uint (take_bit 6 (drop_bit 18 v)), uint (take_bit 6 (drop_bit 12 v)), uint (take_bit 6 (drop_bit 6 v)), uint (take_bit 6 v)]"
  have "b64_group ?d = Inr [a, b, c]"
    by (simp add: b64_group_def and_masks uint_not_neg g(2-) Let_def)
  moreover have "b64_quad 4 (lb64encode (a # b # c # t)) = Some (?d, lb64encode t)"
    unfolding lb64encode.simps Let_def v_def [symmetric] and_masks by (subst g(1), subst b64_quad_4) (simp_all add: digits uint_not_neg)
  ultimately show ?thesis using b64_decode_group [OF _ _ that] by simp
qed

lemma b64_step2: "lb64decode (lb64encode [a, b]) = Inr [a, b]"
proof -
  define v where "v = (push_bit 8 (ucast a) OR ucast b :: u32)"
  note g = group2 [of a b, folded v_def]
  let ?d = "[uint (take_bit 6 (drop_bit 10 v)), uint (take_bit 6 (drop_bit 4 v)), uint (push_bit 2 (take_bit 4 v)), -2]"
  have "b64_group ?d = Inr [a, b]"
    by (simp add: b64_group_def and_masks uint_not_neg g(2-) Let_def)
  moreover have "b64_quad 4 (lb64encode [a, b]) = Some (?d, [])"
    unfolding lb64encode.simps Let_def v_def [symmetric] and_masks by (subst g(1), subst b64_quad_4) (simp_all add: digits uint_not_neg b64index_pad)
  ultimately show ?thesis using b64_decode_group [of _ ?d "[]" _ "[]"] by (simp add: lb64decode.simps [of "[]"])
qed

lemma b64_step1: "lb64decode (lb64encode [a]) = Inr [a]"
proof -
  define v where "v = (ucast a :: u32)"
  note g = group1 [of a, folded v_def]
  let ?d = "[uint (take_bit 6 (drop_bit 2 v)), uint (push_bit 4 (take_bit 2 v)), -2, -2]"
  have "b64_group ?d = Inr [a]"
    by (simp add: b64_group_def and_masks uint_not_neg g(2-) Let_def)
  moreover have "b64_quad 4 (lb64encode [a]) = Some (?d, [])"
    unfolding lb64encode.simps Let_def v_def [symmetric] and_masks by (subst g(1), subst b64_quad_4) (simp_all add: digits uint_not_neg b64index_pad)
  ultimately show ?thesis using b64_decode_group [of _ ?d "[]" _ "[]"] by (simp add: lb64decode.simps [of "[]"])
qed

text \<open>
  Base64 text decodes to the bytes it was made from, whatever their number.
\<close>

theorem base64_roundtrip: "lb64decode (lb64encode t) = Inr t"
proof (induction t rule: lb64encode.induct)
  case (1 a b c t)
  from b64_step3 [OF 1 [OF refl]] show ?case .
qed (simp_all only: b64_step2 b64_step1 lb64encode.simps(4), simp add: lb64decode.simps)

section \<open>Arithmetic modulo P\<close>

abbreviation p64 :: int where "p64 \<equiv> 18446744073709551557"

lemma uint_P: "uint P = p64"
  by (simp add: P_def)

lemma uint_sub: "(y :: u64) \<le> x \<Longrightarrow> uint (x - y) = uint x - uint y"
  by (simp add: uint_sub_lem word_le_def)

lemma uint_add: "uint x + uint y < 2 ^ 64 \<Longrightarrow> uint (x + y :: u64) = uint x + uint y"
  using uint_add_lem [of x y] by simp

text \<open>The two updates of the loop are this addition, which never leaves the range below \<open>P\<close>.\<close>

definition padd :: "u64 \<Rightarrow> u64 \<Rightarrow> u64" where
  "padd m a = (if m \<ge> P - a then m - (P - a) else m + a)"

lemma padd_spec:
  assumes "m < P" "a < P"
  shows "uint (padd m a) = (uint m + uint a) mod p64" "padd m a < P"
proof -
  have b: "0 \<le> uint m" "uint m < p64" "0 \<le> uint a" "uint a < p64" using assms by (simp_all add: word_less_def uint_P)
  have t: "uint (P - a) = p64 - uint a" using assms(2) uint_sub [of a P] by (simp add: uint_P)
  have e: "uint (padd m a) = (if uint m + uint a < p64 then uint m + uint a else uint m + uint a - p64)"
  proof (cases "P - a \<le> m")
    case True
    then show ?thesis using uint_sub [OF True] t by (simp add: padd_def word_le_def)
  next
    case False
    then have "uint m + uint a < p64" using t by (simp add: word_le_def)
    then show ?thesis using uint_add [of m a] False by (simp add: padd_def)
  qed
  moreover have "(uint m + uint a) mod p64 = (if uint m + uint a < p64 then uint m + uint a else uint m + uint a - p64)"
    using b mod_pos_pos_trivial [of "uint m + uint a - p64" p64] mod_add_self2 [of "uint m + uint a - p64" p64] by auto
  ultimately show r: "uint (padd m a) = (uint m + uint a) mod p64" by simp
  have "uint (padd m a) < p64" unfolding r by simp
  then show "padd m a < P" by (simp only: word_less_def uint_P)
qed

lemma mul_loop_step:
  "b \<noteq> 0 \<Longrightarrow> mul_loop m a b = mul_loop (if b AND 1 \<noteq> 0 then padd m a else m) (padd a a) (drop_bit 1 b)"
  by (simp add: mul_loop.simps [of m a b] padd_def Let_def algebra_simps)

lemma uint_half: "uint b = 2 * uint (drop_bit 1 b) + uint (b AND 1)" for b :: u64
proof -
  have "uint (b AND 1) = uint b mod 2" unfolding unsigned_and_eq unsigned_1 by (simp only: and_one_eq mod_2_eq_odd)
  moreover have "uint (drop_bit 1 b) = uint b div 2" using unat_half [of b] by (simp only: uint_nat zdiv_int) simp
  ultimately show ?thesis by simp
qed

lemma mod_step: "((m + a * c) mod p + (a + a) mod p * d) mod p = (m + a * (2 * d + c)) mod p" for a c d m p :: int
proof -
  have "((m + a * c) mod p + (a + a) mod p * d) mod p = ((m + a * c) + (a + a) * d) mod p"
    by (intro mod_add_cong) (simp_all add: mod_mult_left_eq)
  then show ?thesis by (simp add: algebra_simps)
qed

lemma mul_loop_spec: "m < P \<Longrightarrow> a < P \<Longrightarrow> uint (mul_loop m a b) = (uint m + uint a * uint b) mod p64 \<and> mul_loop m a b < P"
proof (induction "unat b" arbitrary: m a b rule: less_induct)
  case less
  show ?case
  proof (cases "b = 0")
    case True
    then show ?thesis using less.prems by (simp add: mul_loop.simps word_less_def uint_P)
  next
    case False
    define m' where "m' = (if b AND 1 \<noteq> 0 then padd m a else m)"
    have m: "uint m' = (uint m + uint a * uint (b AND 1)) mod p64" "m' < P"
      using padd_spec [OF less.prems] less.prems(1) by (auto simp: m'_def and_one_eq word_less_def uint_P)
    note a = padd_spec [OF less.prems(2) less.prems(2)]
    have run: "mul_loop m a b = mul_loop m' (padd a a) (drop_bit 1 b)" using mul_loop_step [OF False] by (simp only: m'_def)
    have "(uint m' + uint (padd a a) * uint (drop_bit 1 b)) mod p64 = (uint m + uint a * uint b) mod p64"
      unfolding m(1) a(1) mod_step by (simp only: uint_half [of b, symmetric])
    then show ?thesis unfolding run using less.hyps [OF unat_half_less [OF False] m(2) a(2)] by simp
  qed
qed

lemma mul_mod_p_spec: "a < P \<Longrightarrow> uint (mul_mod_p a b) = uint a * uint b mod p64 \<and> mul_mod_p a b < P"
  using mul_loop_spec [of 0 a b] by (simp add: mul_mod_p_def P_def)

lemma pow_mod_p_spec:
  assumes "a < P" "b \<noteq> 0"
  shows "\<exists>r. pow_mod_p a b = Some r \<and> uint r = uint a ^ unat b mod p64 \<and> r < P"
  using assms(2)
proof (induction "unat b" arbitrary: b rule: less_induct)
  case less
  show ?case
  proof (cases "b = 1")
    case True
    then show ?thesis using assms(1) by (simp add: pow_mod_p.simps word_less_def uint_P)
  next
    case False
    let ?h = "drop_bit 1 b"
    have half: "unat ?h = unat b div 2" by (rule unat_half)
    have "unat b \<noteq> 0" "unat b \<noteq> 1" using less.prems False by (metis unat_eq_zero, metis unat_1 word_unat_eq_iff)
    then have "?h \<noteq> 0" using half by (metis One_nat_def div_eq_0_iff less_2_cases_iff unat_0 zero_neq_numeral)
    with less.hyps [OF unat_half_less [OF less.prems]] obtain t where
      t: "pow_mod_p a ?h = Some t" "uint t = uint a ^ unat ?h mod p64" "t < P" by blast
    define t2 where "t2 = mul_mod_p t t"
    have t2: "uint t2 = uint a ^ (2 * (unat b div 2)) mod p64" "t2 < P"
      using mul_mod_p_spec [OF t(3), of t] unfolding t2_def t(2) half by (simp_all add: mod_mult_eq mult_2 power_add)
    have par: "b mod 2 = 0 \<longleftrightarrow> even (unat b)" "b mod 2 = 1 \<longleftrightarrow> odd (unat b)"
      by (simp_all add: word_unat_eq_iff unat_mod odd_iff_mod_2_eq_one even_iff_mod_2_eq_zero)
    have run: "pow_mod_p a b = Some (if odd (unat b) then mul_mod_p t2 a else t2)"
      using False t(1) by (subst pow_mod_p.simps) (simp add: t2_def par Let_def)
    have "uint (mul_mod_p t2 a) = uint a ^ (2 * (unat b div 2) + 1) mod p64" "mul_mod_p t2 a < P"
      using mul_mod_p_spec [OF t2(2), of a] unfolding t2(1) by (simp_all add: mod_mult_right_eq mult.commute)
    then show ?thesis unfolding run using t2 by (cases "odd (unat b)") auto
  qed
qed

text \<open>
  Modular exponentiation. Without 128 bit arithmetic and within 64 bits, \<open>powmodp\<close> computes the
  power modulo \<open>P\<close> for every base but \<open>P\<close> itself and every exponent but 0, and it returns.
\<close>

theorem powmodp_correct:
  assumes "a \<noteq> P" "b \<noteq> 0"
  shows "\<exists>r. powmodp a b = Some r \<and> uint r = uint a ^ unat b mod uint P"
proof (cases "a > P")
  case True
  have lt: "a mod P < P" by (rule word_mod_less_divisor) (simp add: P_def)
  have "uint (a mod P) = uint a mod p64" by (simp add: uint_mod uint_P)
  then show ?thesis using pow_mod_p_spec [OF lt assms(2)] True by (auto simp: powmodp_def uint_P power_mod)
next
  case False
  then have "a < P" using assms(1) by simp
  from pow_mod_p_spec [OF this assms(2)] show ?thesis using False by (auto simp: powmodp_def uint_P)
qed

theorem powmodp_correct_witness: "\<exists>r. powmodp 5 3 = Some r \<and> uint r = 125"
  using powmodp_correct [of 5 3] by (auto simp: P_def)

section \<open>Key exchange\<close>

definition key64 :: "bytes \<Rightarrow> u64" where
  "key64 x = word64 (le_word4 (take 4 x), le_word4 (drop 4 x))"

lemma powmodp_lt:
  assumes "a < P" "b \<noteq> 0"
  shows "\<exists>r. powmodp a b = Some r \<and> uint r = uint a ^ unat b mod p64 \<and> r < P"
  using pow_mod_p_spec [OF assms] assms(1) by (auto simp: powmodp_def)

lemma ldhexchange_spec:
  assumes "length x = 8" "key64 x \<noteq> 0"
  shows "\<exists>r. ldhexchange x = Some (Inr (push64 r)) \<and> uint r = 5 ^ unat (key64 x) mod p64 \<and> r < P \<and> r \<noteq> 0"
proof -
  have g: "G < P" by (simp add: G_def P_def)
  obtain r where r: "powmodp G (key64 x) = Some r" "uint r = 5 ^ unat (key64 x) mod p64" "r < P"
    using powmodp_lt [OF g assms(2)] by (auto simp: G_def)
  have "coprime 5 p64" by (simp add: coprime_iff_gcd_eq_1 gcd_non_0_int)
  then have "coprime (5 ^ unat (key64 x)) p64" by simp
  then have "\<not> p64 dvd 5 ^ unat (key64 x)" using coprime_common_divisor [of "5 ^ unat (key64 x)" p64 p64] by auto
  then have "r \<noteq> 0" using r(2) by (auto simp: dvd_eq_mod_eq_0)
  moreover have "ldhexchange x = Some (Inr (push64 r))" using r(1) assms by (simp add: ldhexchange_def key64_def)
  ultimately show ?thesis using r(2,3) by blast
qed

lemma ldhsecret_spec:
  assumes "r < P" "r \<noteq> 0" "length y = 8" "key64 y \<noteq> 0"
  shows "\<exists>s. ldhsecret (push64 r) y = Some (Inr (push64 s)) \<and> uint s = uint r ^ unat (key64 y) mod p64"
proof -
  obtain s where "powmodp r (key64 y) = Some s" "uint s = uint r ^ unat (key64 y) mod p64" using powmodp_lt [OF assms(1,4)] by auto
  moreover from this have "ldhsecret (push64 r) y = Some (Inr (push64 s))"
    using assms word64_push64 [of r] by (simp add: ldhsecret_def read64_def key64_def)
  ultimately show ?thesis by blast
qed

text \<open>
  C22: key exchange. Two sides that draw nonzero keys and send each other \<open>dhexchange\<close> of their key
  get the same secret from \<open>dhsecret\<close>; no error is raised and every recursion ends.
\<close>

theorem dh_agreement:
  assumes "length x = 8" "length y = 8" "key64 x \<noteq> 0" "key64 y \<noteq> 0"
  shows "\<exists>X Y s. ldhexchange x = Some (Inr X) \<and> ldhexchange y = Some (Inr Y) \<and>
    ldhsecret X y = Some (Inr s) \<and> ldhsecret Y x = Some (Inr s)"
proof -
  obtain X where X: "ldhexchange x = Some (Inr (push64 X))" "uint X = 5 ^ unat (key64 x) mod p64" "X < P" "X \<noteq> 0"
    using ldhexchange_spec [OF assms(1,3)] by blast
  obtain Y where Y: "ldhexchange y = Some (Inr (push64 Y))" "uint Y = 5 ^ unat (key64 y) mod p64" "Y < P" "Y \<noteq> 0"
    using ldhexchange_spec [OF assms(2,4)] by blast
  obtain s where s: "ldhsecret (push64 X) y = Some (Inr (push64 s))" "uint s = uint X ^ unat (key64 y) mod p64"
    using ldhsecret_spec [OF X(3,4) assms(2,4)] by blast
  obtain t where t: "ldhsecret (push64 Y) x = Some (Inr (push64 t))" "uint t = uint Y ^ unat (key64 x) mod p64"
    using ldhsecret_spec [OF Y(3,4) assms(1,3)] by blast
  have "uint s = uint t"
    unfolding s(2) t(2) X(2) Y(2) power_mod by (simp add: power_mult [symmetric] mult.commute)
  then have "s = t" by (simp add: word_uint_eq_iff)
  then show ?thesis using X(1) Y(1) s(1) t(1) by blast
qed

theorem dh_agreement_witness:
  "\<exists>X Y s. ldhexchange [3, 0, 0, 0, 0, 0, 0, 0] = Some (Inr X) \<and> ldhexchange [4, 0, 0, 0, 0, 0, 0, 0] = Some (Inr Y) \<and>
    ldhsecret X [4, 0, 0, 0, 0, 0, 0, 0] = Some (Inr s) \<and> ldhsecret Y [3, 0, 0, 0, 0, 0, 0, 0] = Some (Inr s)"
  by (rule dh_agreement) (simp_all add: key64_def le_word4_def word64_def)

section \<open>Further facts\<close>

text \<open>The keyed hash of a text is the keyed hash of its key: the two library functions agree.\<close>

lemma hmac_hash_eq: "length key = 8 \<Longrightarrow> lhmac_hash key t = lhmac64 (lhashkey t) key"
  by (simp add: lhmac_hash_def lhmac64_def read64_def lhashkey_def Hash_def split: prod.splits)

lemma xor_involution: "lxor_str s k = Inr t \<Longrightarrow> lxor_str t k = Inr s"
  by (auto simp: lxor_str_def xor.assoc split: if_splits intro!: nth_equalityI)

text \<open>
  Characters that are no digits are accepted by \<open>hexdecode\<close>: the check is \<open>> 16\<close> where it should be
  \<open>> 15\<close>, and ten characters before the letter a count as digits.
\<close>

lemma hexdecode_accepts_non_digits: "lfromhex [103, 48] = Inr [0]" "lfromhex [88, 89] = Inr [0x12]"
  by (simp_all add: lfromhex_def HEX_def)

text \<open>The base \<open>P\<close> is not reduced.\<close>

lemma powmodp_base_P: "powmodp P 1 = Some P"
  by (simp add: powmodp_def pow_mod_p.simps)

end
