(* ===== verification/Sha1.thy ===== *)
theory Sha1
  imports CryptProps
begin

text \<open>
  SHA-1 and HMAC-SHA1, \<open>lualib-src/lsha1.c\<close>: the block transform with its in-place message
  schedule, the context that takes a message in pieces, and the padding. \<open>buffer\<close> is the list
  of the bytes written to it. The unrolled rounds rotate the names of five variables; here the
  tuple is rotated. Words are loaded from memory with the lowest byte first, as on the machines
  the server runs on. The specification is that of FIPS 180-4, with the schedule as a function of
  the block, and of RFC 2104.
\<close>

section \<open>The block transform\<close>

definition rol :: "u32 \<Rightarrow> nat \<Rightarrow> u32" where
  "rol v bits = push_bit bits v OR drop_bit (32 - bits) v"

type_synonym sha_work = "u32 \<times> u32 \<times> u32 \<times> u32 \<times> u32 \<times> u32 list"

definition blk0 :: "u32 list \<Rightarrow> nat \<Rightarrow> u32 list" where
  "blk0 l i = l[i := (rol (l ! i) 24 AND 0xFF00FF00) OR (rol (l ! i) 8 AND 0x00FF00FF)]"

definition blk :: "u32 list \<Rightarrow> nat \<Rightarrow> u32 list" where
  "blk l i = l[i mod 16 := rol (l ! ((i + 13) mod 16) XOR l ! ((i + 8) mod 16) XOR l ! ((i + 2) mod 16) XOR l ! (i mod 16)) 1]"

definition R0 :: "nat \<Rightarrow> sha_work \<Rightarrow> sha_work" where
  "R0 i = (\<lambda>(v, w, x, y, z, l). let l = blk0 l i in
     (z + (((w AND (x XOR y)) XOR y) + l ! i + 0x5A827999 + rol v 5), v, rol w 30, x, y, l))"

definition R1 :: "nat \<Rightarrow> sha_work \<Rightarrow> sha_work" where
  "R1 i = (\<lambda>(v, w, x, y, z, l). let l = blk l i in
     (z + (((w AND (x XOR y)) XOR y) + l ! (i mod 16) + 0x5A827999 + rol v 5), v, rol w 30, x, y, l))"

definition R2 :: "nat \<Rightarrow> sha_work \<Rightarrow> sha_work" where
  "R2 i = (\<lambda>(v, w, x, y, z, l). let l = blk l i in
     (z + ((w XOR x XOR y) + l ! (i mod 16) + 0x6ED9EBA1 + rol v 5), v, rol w 30, x, y, l))"

definition R3 :: "nat \<Rightarrow> sha_work \<Rightarrow> sha_work" where
  "R3 i = (\<lambda>(v, w, x, y, z, l). let l = blk l i in
     (z + ((((w OR x) AND y) OR (w AND x)) + l ! (i mod 16) + 0x8F1BBCDC + rol v 5), v, rol w 30, x, y, l))"

definition R4 :: "nat \<Rightarrow> sha_work \<Rightarrow> sha_work" where
  "R4 i = (\<lambda>(v, w, x, y, z, l). let l = blk l i in
     (z + ((w XOR x XOR y) + l ! (i mod 16) + 0xCA62C1D6 + rol v 5), v, rol w 30, x, y, l))"

definition sha_round :: "nat \<Rightarrow> sha_work \<Rightarrow> sha_work" where
  "sha_round i = (if i < 16 then R0 i else if i < 20 then R1 i else if i < 40 then R2 i else if i < 60 then R3 i else R4 i)"

type_synonym sha_state = "u32 \<times> u32 \<times> u32 \<times> u32 \<times> u32"

definition SHA1_Transform :: "sha_state \<Rightarrow> bytes \<Rightarrow> sha_state" where
  "SHA1_Transform s buffer =
     (case s of (s0, s1, s2, s3, s4) \<Rightarrow>
      let block = map (\<lambda>i. le_word4 (take 4 (drop (4 * i) buffer))) [0..<16];
          (a, b, c, d, e, _) = fold sha_round [0..<80] (s0, s1, s2, s3, s4, block)
      in (s0 + a, s1 + b, s2 + c, s3 + d, s4 + e))"

section \<open>Contexts\<close>

record SHA1_CTX =
  sh_state :: sha_state
  sh_count0 :: u32
  sh_count1 :: u32
  sh_buffer :: bytes

definition sat_SHA1_Init :: SHA1_CTX where
  "sat_SHA1_Init = \<lparr>sh_state = (0x67452301, 0xEFCDAB89, 0x98BADCFE, 0x10325476, 0xC3D2E1F0),
     sh_count0 = 0, sh_count1 = 0, sh_buffer = []\<rparr>"

text \<open>The loop over whole blocks of the input: the state and what is left.\<close>

function transform_loop :: "sha_state \<Rightarrow> bytes \<Rightarrow> sha_state \<times> bytes" where
  "transform_loop s data =
     (if 64 \<le> length data then transform_loop (SHA1_Transform s (take 64 data)) (drop 64 data) else (s, data))"
  by pat_completeness auto

termination by (relation "measure (\<lambda>(s, d). length d)") auto

declare transform_loop.simps [simp del]

text \<open>\<open>len << 3\<close> is computed in \<open>size_t\<close> and compared with the 32 bit counter.\<close>

definition sat_SHA1_Update :: "SHA1_CTX \<Rightarrow> bytes \<Rightarrow> SHA1_CTX" where
  "sat_SHA1_Update ctx data =
     (let len = length data;
          j = unat (drop_bit 3 (sh_count0 ctx) AND 63);
          bits = 8 * len mod 2 ^ 64;
          c0 = sh_count0 ctx + of_nat bits;
          c1 = (if unat c0 < bits then sh_count1 ctx + 1 else sh_count1 ctx) + of_nat (len div 2 ^ 29);
          ctx = ctx\<lparr>sh_count0 := c0, sh_count1 := c1\<rparr>
      in if j + len > 63 then
           let s = SHA1_Transform (sh_state ctx) (take j (sh_buffer ctx) @ take (64 - j) data);
               (s, rest) = transform_loop s (drop (64 - j) data)
           in ctx\<lparr>sh_state := s, sh_buffer := rest\<rparr>
         else ctx\<lparr>sh_buffer := take j (sh_buffer ctx) @ data\<rparr>)"

partial_function (option) pad_loop :: "SHA1_CTX \<Rightarrow> SHA1_CTX option" where
  "pad_loop ctx = (if sh_count0 ctx AND 504 \<noteq> 448 then pad_loop (sat_SHA1_Update ctx [0]) else Some ctx)"

definition be_bytes4 :: "u32 \<Rightarrow> bytes" where
  "be_bytes4 w = map (\<lambda>i. ucast (drop_bit ((3 - i) * 8) w AND 255)) [0..<4]"

definition sat_SHA1_Final :: "SHA1_CTX \<Rightarrow> bytes option" where
  "sat_SHA1_Final ctx =
     (let finalcount = be_bytes4 (sh_count1 ctx) @ be_bytes4 (sh_count0 ctx) in
      map_option (\<lambda>ctx.
        case sh_state (sat_SHA1_Update ctx finalcount) of
          (s0, s1, s2, s3, s4) \<Rightarrow> be_bytes4 s0 @ be_bytes4 s1 @ be_bytes4 s2 @ be_bytes4 s3 @ be_bytes4 s4)
        (pad_loop (sat_SHA1_Update ctx [128])))"

definition lsha1 :: "bytes \<Rightarrow> bytes option" where
  "lsha1 b = sat_SHA1_Final (sat_SHA1_Update sat_SHA1_Init b)"

section \<open>HMAC\<close>

definition xor_key :: "bytes \<Rightarrow> u32 \<Rightarrow> bytes" where
  "xor_key key x = concat (map (\<lambda>i. le_bytes4 (le_word4 (take 4 (drop (4 * i) key)) XOR x)) [0..<16])"

definition lhmac_sha1 :: "bytes \<Rightarrow> bytes \<Rightarrow> bytes option" where
  "lhmac_sha1 key t =
     Option.bind (if length key > 64 then map_option (\<lambda>d. d @ replicate 44 0) (sat_SHA1_Final (sat_SHA1_Update sat_SHA1_Init key))
                  else Some (key @ replicate (64 - length key) 0)) (\<lambda>rkey.
       let rkey = xor_key rkey 0x5c5c5c5c;
           ctx1 = sat_SHA1_Update sat_SHA1_Init rkey;
           rkey = xor_key rkey (0x5c5c5c5c XOR 0x36363636);
           ctx2 = sat_SHA1_Update sat_SHA1_Init rkey;
           ctx2 = sat_SHA1_Update ctx2 t
       in Option.bind (sat_SHA1_Final ctx2) (\<lambda>digest2. sat_SHA1_Final (sat_SHA1_Update ctx1 digest2)))"

section \<open>The specification of FIPS 180-4\<close>

definition be_word4 :: "bytes \<Rightarrow> u32" where
  "be_word4 x = push_bit 24 (ucast (x ! 0)) OR push_bit 16 (ucast (x ! 1)) OR push_bit 8 (ucast (x ! 2)) OR ucast (x ! 3)"

fun schedule :: "bytes \<Rightarrow> nat \<Rightarrow> u32" where
  "schedule m t =
     (if t < 16 then be_word4 (take 4 (drop (4 * t) m))
      else rol (schedule m (t - 3) XOR schedule m (t - 8) XOR schedule m (t - 14) XOR schedule m (t - 16)) 1)"

declare schedule.simps [simp del]

definition Ch :: "u32 \<Rightarrow> u32 \<Rightarrow> u32 \<Rightarrow> u32" where "Ch x y z = (x AND y) XOR (NOT x AND z)"
definition Parity :: "u32 \<Rightarrow> u32 \<Rightarrow> u32 \<Rightarrow> u32" where "Parity x y z = x XOR y XOR z"
definition Maj :: "u32 \<Rightarrow> u32 \<Rightarrow> u32 \<Rightarrow> u32" where "Maj x y z = (x AND y) XOR (x AND z) XOR (y AND z)"

definition fips_f :: "nat \<Rightarrow> u32 \<Rightarrow> u32 \<Rightarrow> u32 \<Rightarrow> u32" where
  "fips_f t = (if t < 20 then Ch else if t < 40 then Parity else if t < 60 then Maj else Parity)"

definition fips_K :: "nat \<Rightarrow> u32" where
  "fips_K t = (if t < 20 then 0x5a827999 else if t < 40 then 0x6ed9eba1 else if t < 60 then 0x8f1bbcdc else 0xca62c1d6)"

definition fips_step :: "bytes \<Rightarrow> nat \<Rightarrow> sha_state \<Rightarrow> sha_state" where
  "fips_step m t = (\<lambda>(a, b, c, d, e). (rol a 5 + fips_f t b c d + e + fips_K t + schedule m t, a, rol b 30, c, d))"

definition fips_block :: "sha_state \<Rightarrow> bytes \<Rightarrow> sha_state" where
  "fips_block s m =
     (case (s, fold (fips_step m) [0..<80] s) of
        ((h0, h1, h2, h3, h4), (a, b, c, d, e)) \<Rightarrow> (a + h0, b + h1, c + h2, d + h3, e + h4))"

definition blocks :: "bytes \<Rightarrow> bytes list" where
  "blocks m = map (\<lambda>i. take 64 (drop (64 * i) m)) [0..<length m div 64]"

definition fips_hash :: "bytes \<Rightarrow> sha_state" where
  "fips_hash m = foldl fips_block (0x67452301, 0xefcdab89, 0x98badcfe, 0x10325476, 0xc3d2e1f0) (blocks m)"

definition fips_padded :: "bytes \<Rightarrow> bytes" where
  "fips_padded m = m @ 0x80 # replicate ((119 - length m mod 64) mod 64) 0 @ map (\<lambda>i. of_nat (8 * length m div 256 ^ i)) [7, 6, 5, 4, 3, 2, 1, 0]"

definition SHA1_spec :: "bytes \<Rightarrow> bytes" where
  "SHA1_spec m = (case fips_hash (fips_padded m) of (s0, s1, s2, s3, s4) \<Rightarrow>
     concat (map (\<lambda>w. [ucast (drop_bit 24 w), ucast (drop_bit 16 w), ucast (drop_bit 8 w), ucast w]) [s0, s1, s2, s3, s4]))"

end
