(* ===== verification/Sha1Props.thy ===== *)
theory Sha1Props
  imports Sha1
begin

text \<open>
  The SHA-1 of \<open>lsha1.c\<close> is that of FIPS 180-4: the unrolled rounds with the sixteen word
  schedule in place compute the block function of the standard; a context that has taken a message,
  in any pieces, holds the hash of its whole blocks, the rest and its length; the padding loop ends.
  \<open>lhmac_sha1\<close> is the keyed hash of RFC 2104.
\<close>

section \<open>The block function\<close>

lemma choice_eq: "(w AND (x XOR y)) XOR y = Ch w x y"
  unfolding Ch_def by (rule bit_word_eqI) (auto simp: bit_simps)

lemma majority_eq: "((w OR x) AND y) OR (w AND x) = Maj w x y"
  unfolding Maj_def by (rule bit_word_eqI) (auto simp: bit_simps)

lemma parity_eq: "w XOR x XOR y = Parity w x y"
  unfolding Parity_def by (simp add: xor.assoc)

lemma bit_byte_high [simp]: "8 \<le> n \<Longrightarrow> \<not> bit (b :: u8) n"
  using bit_imp_le_length [of b n] by auto

lemma all_below_32:
  "(\<forall>n < 32. p (n :: nat)) \<longleftrightarrow> list_all p [0, 1, 2, 3, 4, 5, 6, 7, 8, 9, 10, 11, 12, 13, 14, 15, 16, 17, 18, 19, 20, 21, 22, 23, 24, 25, 26, 27, 28, 29, 30, 31]"
proof -
  have "[0..<32] = [0, 1, 2, 3, 4, 5, 6, 7, 8, 9, 10, 11, 12, 13, 14, 15, 16, 17, 18, 19, 20, 21, 22, 23, 24, 25, 26, 27, 28, 29, 30, 31 :: nat]"
    by code_simp
  moreover have "(\<forall>n < 32. p n) \<longleftrightarrow> list_all p [0..<32]" by (auto simp: list_all_iff)
  ultimately show ?thesis by simp
qed

lemma byte_swap:
  "(rol (le_word4 x) 24 AND 0xFF00FF00) OR (rol (le_word4 x) 8 AND 0x00FF00FF) = be_word4 x"
proof -
  have "\<forall>n < 32. bit ((rol (le_word4 x) 24 AND 0xFF00FF00) OR (rol (le_word4 x) 8 AND 0x00FF00FF)) n = bit (be_word4 x) n"
    unfolding all_below_32 by (simp add: rol_def le_word4_def be_word4_def bit_simps)
  then show ?thesis by (auto intro: bit_word_eqI)
qed

text \<open>Before round \<open>t\<close> the sixteen words hold the last sixteen of the schedule, and the words of
  the block that have not been used.\<close>

definition window :: "bytes \<Rightarrow> nat \<Rightarrow> u32 list \<Rightarrow> bool" where
  "window m t l \<longleftrightarrow> length l = 16 \<and> (\<forall>j < t. t \<le> j + 16 \<longrightarrow> l ! (j mod 16) = schedule m j) \<and>
     (\<forall>j < 16. t \<le> j \<longrightarrow> l ! j = le_word4 (take 4 (drop (4 * j) m)))"

lemma window_blk0:
  assumes "window m t l" "t < 16" "length m = 64"
  shows "window m (Suc t) (blk0 l t)" "blk0 l t ! t = schedule m t"
proof -
  have "blk0 l t = l[t := schedule m t]"
    using assms byte_swap [of "take 4 (drop (4 * t) m)"] schedule.simps [of m t]
    by (simp add: blk0_def window_def)
  then show "window m (Suc t) (blk0 l t)" "blk0 l t ! t = schedule m t"
    using assms by (auto simp: window_def less_Suc_eq nth_list_update)
qed

lemma window_blk:
  assumes "window m t l" "16 \<le> t"
  shows "window m (Suc t) (blk l t)" "blk l t ! (t mod 16) = schedule m t"
proof -
  have l: "length l = 16" and w: "\<And>j. j < t \<Longrightarrow> t \<le> j + 16 \<Longrightarrow> l ! (j mod 16) = schedule m j"
    using assms(1) by (auto simp: window_def)
  have "t + 13 = (t - 3) + 16" "t + 8 = (t - 8) + 16" "t + 2 = (t - 14) + 16" "t = (t - 16) + 16" using assms(2) by simp_all
  then have e: "(t + 13) mod 16 = (t - 3) mod 16" "(t + 8) mod 16 = (t - 8) mod 16" "(t + 2) mod 16 = (t - 14) mod 16"
      "t mod 16 = (t - 16) mod 16"
    by (metis mod_add_self2)+
  have "blk l t = l[t mod 16 := schedule m t]"
    using w [of "t - 3"] w [of "t - 8"] w [of "t - 14"] w [of "t - 16"] assms(2) schedule.simps [of m t]
    unfolding blk_def e by simp
  moreover have "t mod 16 \<noteq> j mod 16" if "j < t" "Suc t \<le> j + 16" for j
  proof
    assume "t mod 16 = j mod 16"
    with that(1) have "16 dvd t - j" using mod_eq_dvd_iff_nat [of j t 16] by simp
    with that show False using dvd_imp_le [of 16 "t - j"] by simp
  qed
  ultimately show "window m (Suc t) (blk l t)" "blk l t ! (t mod 16) = schedule m t"
    using assms(2) w l by (auto simp: window_def less_Suc_eq nth_list_update)
qed

definition with_window :: "bytes \<Rightarrow> nat \<Rightarrow> sha_work \<Rightarrow> sha_state \<Rightarrow> bool" where
  "with_window m t w s \<longleftrightarrow> (case w of (a, b, c, d, e, l) \<Rightarrow> s = (a, b, c, d, e) \<and> window m t l)"

lemma sha_round_step:
  assumes "with_window m t w s" "length m = 64"
  shows "with_window m (Suc t) (sha_round t w) (fips_step m t s)"
proof -
  obtain a b c d e l where w: "w = (a, b, c, d, e, l)" by (cases w)
  have s: "s = (a, b, c, d, e)" and l: "window m t l" using assms(1) by (auto simp: with_window_def w)
  show ?thesis
  proof (cases "t < 16")
    case True
    with window_blk0 [OF l _ assms(2)] show ?thesis
      by (simp add: with_window_def w s sha_round_def R0_def fips_step_def fips_f_def fips_K_def choice_eq Let_def)
  next
    case False
    then have "16 \<le> t" by simp
    from window_blk [OF l this] show ?thesis using False
      by (auto simp: with_window_def w s sha_round_def R1_def R2_def R3_def R4_def fips_step_def fips_f_def fips_K_def choice_eq parity_eq majority_eq Let_def)
  qed
qed

lemma sha_rounds:
  assumes "with_window m 0 w s" "length m = 64"
  shows "with_window m t (fold sha_round [0..<t] w) (fold (fips_step m) [0..<t] s)"
  using assms by (induction t) (simp_all add: sha_round_step)

lemma SHA1_Transform_fips:
  assumes "length m = 64"
  shows "SHA1_Transform s m = fips_block s m"
proof -
  obtain s0 s1 s2 s3 s4 where s: "s = (s0, s1, s2, s3, s4)" by (cases s)
  let ?block = "map (\<lambda>i. le_word4 (take 4 (drop (4 * i) m))) [0..<16]"
  have "with_window m 0 (s0, s1, s2, s3, s4, ?block) s"
    by (simp add: with_window_def s window_def)
  from sha_rounds [OF this assms, of 80] show ?thesis
    by (auto simp: SHA1_Transform_def fips_block_def with_window_def s Let_def add.commute split: prod.splits)
qed


section \<open>Contexts\<close>

lemma length_blocks [simp]: "length (blocks m) = length m div 64"
  by (simp add: blocks_def)

lemma blocks_append:
  assumes "length a mod 64 = 0"
  shows "blocks (a @ b) = blocks a @ blocks b"
proof (rule nth_equalityI)
  obtain q where q: "length a = 64 * q" using assms by (auto elim: dvdE simp: mod_eq_0_iff_dvd)
  show "length (blocks (a @ b)) = length (blocks a @ blocks b)" by (simp add: q)
  fix i assume "i < length (blocks (a @ b))"
  then have i: "i < q + length b div 64" by (simp add: q)
  show "blocks (a @ b) ! i = (blocks a @ blocks b) ! i"
  proof (cases "i < q")
    case True
    then have "64 * i + 64 \<le> 64 * q" by simp
    with True i show ?thesis by (simp add: blocks_def q nth_append)
  next
    case False
    then have "64 * i - 64 * q = 64 * (i - q)" by (simp add: diff_mult_distrib2)
    moreover have "i - q < length b div 64" using False i by simp
    ultimately show ?thesis using False i by (simp add: blocks_def q nth_append)
  qed
qed

lemma blocks_short [simp]: "length r < 64 \<Longrightarrow> blocks r = []"
  by (simp add: blocks_def)

lemma blocks_one [simp]: "length b = 64 \<Longrightarrow> blocks b = [b]"
  by (simp add: blocks_def)

lemma block_split: "64 \<le> length d \<Longrightarrow> blocks d = take 64 d # blocks (drop 64 d)"
  using blocks_append [of "take 64 d" "drop 64 d"] by simp

lemma transform_loop_blocks:
  "transform_loop s d = (foldl fips_block s (blocks d), drop (64 * (length d div 64)) d)"
proof (induction s d rule: transform_loop.induct)
  case (1 s d)
  show ?case
  proof (cases "64 \<le> length d")
    case True
    then have "length d div 64 = Suc ((length d - 64) div 64)" by (simp add: le_div_geq)
    with 1 [OF True] True show ?thesis
      by (simp add: transform_loop.simps [of s d] block_split SHA1_Transform_fips add.commute)
  qed (simp add: transform_loop.simps [of s d])
qed

text \<open>What a context holds when it has taken the message \<open>m\<close>.\<close>

definition taken :: "bytes \<Rightarrow> SHA1_CTX \<Rightarrow> bool" where
  "taken m ctx \<longleftrightarrow> sh_state ctx = fips_hash m \<and> take (length m mod 64) (sh_buffer ctx) = drop (64 * (length m div 64)) m \<and>
     sh_count0 ctx = of_nat (8 * length m) \<and> sh_count1 ctx = of_nat (8 * length m div 2 ^ 32)"

lemma taken_Init: "taken [] sat_SHA1_Init"
  by (simp add: taken_def sat_SHA1_Init_def fips_hash_def)

lemma count_offset: "unat (drop_bit 3 (of_nat (8 * n) :: u32) AND 63) = n mod 64"
proof -
  have "unat (drop_bit 3 (of_nat (8 * n) :: u32) AND 63) = (8 * n mod 2 ^ 32) div 8 mod 64"
    unfolding and_masks unsigned_take_bit_eq unsigned_drop_bit_eq unat_of_nat by (simp add: drop_bit_eq_div take_bit_eq_mod)
  also have "\<dots> = n mod 64"
    using mult_mod_right [of 8 n "2 ^ 29", symmetric] mod_mod_cancel [of 64 "2 ^ 29" n] by simp
  finally show ?thesis .
qed

lemma add_mod_once: "(a :: nat) < n \<Longrightarrow> b < n \<Longrightarrow> (a + b) mod n = (if n \<le> a + b then a + b - n else a + b)"
  by (auto simp: le_mod_geq)

lemma add_div_once: "(a :: nat) < n \<Longrightarrow> b < n \<Longrightarrow> (a + b) div n = (if n \<le> a + b then 1 else 0)"
  by (auto simp: le_div_geq)

lemma count_add:
  assumes "k < 2 ^ 29"
  shows "unat (of_nat (8 * n) + of_nat (8 * k mod 2 ^ 64) :: u32) < 8 * k mod 2 ^ 64 \<longleftrightarrow> 2 ^ 32 \<le> 8 * n mod 2 ^ 32 + 8 * k"
    and "(8 * n + 8 * k) div 2 ^ 32 = 8 * n div 2 ^ 32 + (if 2 ^ 32 \<le> 8 * n mod 2 ^ 32 + 8 * k then 1 else 0)"
proof -
  let ?a = "8 * n mod 2 ^ 32" and ?b = "8 * k"
  have b: "8 * k mod 2 ^ 64 = ?b" "?b < 2 ^ 32" and a: "?a < 2 ^ 32" using assms by simp_all
  have "unat (of_nat (8 * n) + of_nat ?b :: u32) = (?a + ?b) mod 2 ^ 32"
    unfolding of_nat_add [symmetric] by (simp del: of_nat_add of_nat_mult add: unat_of_nat mod_simps)
  also have "\<dots> = (if 2 ^ 32 \<le> ?a + ?b then ?a + ?b - 2 ^ 32 else ?a + ?b)"
    by (rule add_mod_once [OF a b(2)])
  finally show "unat (of_nat (8 * n) + of_nat (8 * k mod 2 ^ 64) :: u32) < 8 * k mod 2 ^ 64 \<longleftrightarrow> 2 ^ 32 \<le> ?a + ?b"
    unfolding b(1) using a by auto
  show "(8 * n + 8 * k) div 2 ^ 32 = 8 * n div 2 ^ 32 + (if 2 ^ 32 \<le> ?a + ?b then 1 else 0)"
    using b(2) div_add1_eq [of "8 * n" "8 * k" "2 ^ 32"] add_div_once [OF a b(2)] mod_less [OF b(2)] div_less [OF b(2)]
    by presburger
qed

lemma update_counts:
  assumes "taken m ctx" "length d < 2 ^ 29"
  shows "sh_count0 (sat_SHA1_Update ctx d) = of_nat (8 * length (m @ d))"
    and "sh_count1 (sat_SHA1_Update ctx d) = of_nat (8 * length (m @ d) div 2 ^ 32)"
proof -
  have "of_nat (8 * length d mod 2 ^ 64) = (of_nat (8 * length d) :: u32)" using assms(2) by simp
  then show "sh_count0 (sat_SHA1_Update ctx d) = of_nat (8 * length (m @ d))"
    using assms(1) by (auto simp: sat_SHA1_Update_def taken_def Let_def algebra_simps split: prod.splits)
  show "sh_count1 (sat_SHA1_Update ctx d) = of_nat (8 * length (m @ d) div 2 ^ 32)"
    using assms count_add [of "length d" "length m"]
    by (auto simp: sat_SHA1_Update_def taken_def Let_def distrib_left split: prod.splits)
qed


lemma fips_hash_append:
  "length a mod 64 = 0 \<Longrightarrow> fips_hash (a @ b) = foldl fips_block (fips_hash a) (blocks b)"
  by (simp add: fips_hash_def blocks_append)

lemma drop_aligned:
  assumes "length x mod 64 = 0"
  shows "drop (64 * (length (x @ y) div 64)) (x @ y) = drop (64 * (length y div 64)) y"
proof -
  obtain q where "length x = 64 * q" using assms by (auto elim: dvdE simp: mod_eq_0_iff_dvd)
  then show ?thesis by (simp add: distrib_left)
qed

lemma taken_rest:
  assumes "taken m ctx"
  obtains a r where "m = a @ r" "length a mod 64 = 0" "length r = length m mod 64" "take (length m mod 64) (sh_buffer ctx) = r"
    "sh_state ctx = fips_hash a"
proof -
  let ?a = "take (64 * (length m div 64)) m" and ?r = "drop (64 * (length m div 64)) m"
  have r: "length ?r = length m mod 64" by (simp add: minus_mult_div_eq_mod)
  moreover have a: "length ?a mod 64 = 0" by (simp add: min_absorb2)
  moreover have "fips_hash m = fips_hash ?a"
    using fips_hash_append [OF a, of ?r] r by simp
  ultimately show thesis using that [of ?a ?r] assms by (simp add: taken_def)
qed

lemma taken_Update:
  assumes t: "taken m ctx" and d: "length d < 2 ^ 29"
  shows "taken (m @ d) (sat_SHA1_Update ctx d)"
proof -
  obtain a r where m: "m = a @ r" and a: "length a mod 64 = 0" and r: "length r = length m mod 64"
      "take (length m mod 64) (sh_buffer ctx) = r" and s: "sh_state ctx = fips_hash a"
    by (rule taken_rest [OF t], rule that)
  let ?j = "length m mod 64" and ?u = "sat_SHA1_Update ctx d"
  have j: "unat (drop_bit 3 (sh_count0 ctx) AND 63) = ?j" using t by (simp only: taken_def count_offset)
  have dm: "(length m + length d) mod 64 = (length r + length d) mod 64" by (simp add: r(1) mod_simps)
  have "sh_state ?u = fips_hash (m @ d) \<and> sh_buffer ?u = drop (64 * (length (m @ d) div 64)) (m @ d)"
  proof (cases "?j + length d > 63")
    case True
    let ?b = "r @ take (64 - ?j) d" and ?d = "drop (64 - ?j) d"
    have b: "length ?b = 64" using True r(1) by simp
    have md: "m @ d = (a @ ?b) @ ?d" by (simp add: m)
    have "sh_state ?u = foldl fips_block (fips_hash a) (?b # blocks ?d)"
        "sh_buffer ?u = drop (64 * (length ?d div 64)) ?d"
      using True r(2) s SHA1_Transform_fips [OF b, of "fips_hash a"] unfolding sat_SHA1_Update_def Let_def j
      by (simp_all add: transform_loop_blocks)
    moreover have "fips_hash (m @ d) = foldl fips_block (fips_hash a) (?b # blocks ?d)"
      using md fips_hash_append [OF a, of "?b @ ?d"] blocks_append [of ?b ?d] b by simp
    moreover have "drop (64 * (length (m @ d) div 64)) (m @ d) = drop (64 * (length ?d div 64)) ?d"
      unfolding md by (rule drop_aligned) (use a b in \<open>simp add: mod_simps\<close>)
    ultimately show ?thesis by simp
  next
    case False
    then have l: "length (r @ d) < 64" using r(1) by simp
    have "sh_state ?u = fips_hash a" "sh_buffer ?u = r @ d"
      using False r(2) s unfolding sat_SHA1_Update_def Let_def j by simp_all
    moreover obtain q where q: "length a = 64 * q" using a by (auto elim: dvdE simp: mod_eq_0_iff_dvd)
    moreover have "length (m @ d) div 64 = q" using l by (simp add: m q add.assoc)
    ultimately show ?thesis
      using fips_hash_append [OF a, of "r @ d"] l by (simp add: m)
  qed
  moreover have "take (length x mod 64) (drop (64 * (length x div 64)) x) = drop (64 * (length x div 64)) x" for x :: bytes
    by (rule take_all) (simp add: minus_mult_div_eq_mod)
  ultimately show ?thesis using update_counts [OF t d] by (simp only: taken_def)
qed

lemma taken_updates:
  assumes "taken m ctx" "list_all (\<lambda>d. length d < 2 ^ 29) ds"
  shows "taken (m @ concat ds) (foldl sat_SHA1_Update ctx ds)"
  using assms
proof (induction ds arbitrary: m ctx)
  case (Cons d ds)
  then have "taken (m @ d) (sat_SHA1_Update ctx d)" by (simp add: taken_Update)
  with Cons show ?case by fastforce
qed simp


section \<open>Padding\<close>

lemma count_mask: "(of_nat (8 * n) :: u32) AND 504 = 448 \<longleftrightarrow> n mod 64 = 56"
proof -
  have "(of_nat (8 * n) :: u32) AND 504 = push_bit 3 (of_nat n AND 63)"
    by (simp add: push_bit_and) (simp add: push_bit_eq_mult mult.commute)
  also have "(of_nat n :: u32) AND 63 = of_nat (n mod 64)"
    unfolding and_masks word_unat_eq_iff unsigned_take_bit_eq unat_of_nat by (simp add: take_bit_eq_mod mod_mod_cancel)
  also have "push_bit 3 (of_nat (n mod 64) :: u32) = of_nat (8 * (n mod 64))" by (simp add: push_bit_eq_mult)
  also have "\<dots> = 448 \<longleftrightarrow> 8 * (n mod 64) = 448"
  proof -
    have "unat (of_nat (8 * (n mod 64)) :: u32) = 8 * (n mod 64)" unfolding unat_of_nat by (rule mod_less) simp
    then show ?thesis unfolding word_unat_eq_iff by (simp del: of_nat_mult)
  qed
  finally show ?thesis by simp
qed

lemma pad_length: "x < 64 \<Longrightarrow> (120 - x) mod 64 = (if x \<le> 56 then 56 - x else 120 - x :: nat)"
  by (auto simp: le_mod_geq)

lemma pad_less: "x < 64 \<Longrightarrow> x \<noteq> 56 \<Longrightarrow> Suc z = (120 - x) mod 64 \<Longrightarrow> z = (120 - Suc x mod 64) mod 64"
  using pad_length [of x] pad_length [of "Suc x"] by (cases "x = 63") (simp_all split: if_splits)

lemma pad_loop_returns:
  assumes "taken m ctx" "z = (120 - length m mod 64) mod 64"
  shows "\<exists>ctx'. pad_loop ctx = Some ctx' \<and> taken (m @ replicate z 0) ctx'"
  using assms
proof (induction z arbitrary: m ctx)
  case 0
  then have "length m mod 64 = 56" using pad_length [of "length m mod 64"] by (auto split: if_splits)
  with 0(1) have "sh_count0 ctx AND 504 = 448" by (simp only: taken_def count_mask)
  then show ?case using 0(1) pad_loop.simps [of ctx] by simp
next
  case (Suc z)
  have n: "length m mod 64 \<noteq> 56" using Suc.prems(2) by auto
  with Suc.prems(1) have c: "sh_count0 ctx AND 504 \<noteq> 448" by (simp only: taken_def count_mask) simp
  have "taken (m @ [0]) (sat_SHA1_Update ctx [0])" using Suc.prems(1) by (simp add: taken_Update)
  moreover have "z = (120 - length (m @ [0]) mod 64) mod 64" 
    using pad_less [OF _ n Suc.prems(2)] by (simp add: mod_simps)
  ultimately obtain ctx' where "pad_loop (sat_SHA1_Update ctx [0]) = Some ctx'" "taken ((m @ [0]) @ replicate z 0) ctx'"
    using Suc.IH by blast
  with c show ?case using pad_loop.simps [of ctx] by simp
qed

lemma be_bytes4_upt: "be_bytes4 w = map (\<lambda>i. ucast (drop_bit (i * 8) w AND 255)) [3, 2, 1, 0]"
proof -
  have "[0..<4] = [0, 1, 2, 3 :: nat]" by code_simp
  then show ?thesis by (simp add: be_bytes4_def)
qed

lemma final_count:
  "be_bytes4 (of_nat (x div 2 ^ 32)) @ be_bytes4 (of_nat x) = map (\<lambda>i. of_nat (x div 256 ^ i)) [7, 6, 5, 4, 3, 2, 1, 0]"
proof -
  have e: "x div 2 ^ 32 div 256 ^ i = x div 256 ^ (i + 4)" for i
    by (simp add: div_mult2_eq [symmetric] power_add mult.commute)
  have b: "ucast (drop_bit (i * 8) (of_nat (x div 2 ^ 32) :: u32) AND 255) = (of_nat (x div 256 ^ (i + 4)) :: u8)" if "i < 4" for i
    by (simp only: byte_of_count [OF that] e)
  show ?thesis
    using b [of 3] b [of 2] b [of 1] b [of 0] byte_of_count [of 3 x] byte_of_count [of 2 x] byte_of_count [of 1 x] byte_of_count [of 0 x]
    unfolding be_bytes4_upt by simp
qed


lemma be_bytes4_words: "be_bytes4 w = [ucast (drop_bit 24 w), ucast (drop_bit 16 w), ucast (drop_bit 8 w), ucast w]"
  unfolding be_bytes4_upt and_masks by (simp, intro conjI; intro bit_word_eqI; auto simp: bit_simps)

lemma sat_SHA1_Final_taken:
  assumes "taken m ctx"
  shows "sat_SHA1_Final ctx = Some (SHA1_spec m)"
proof -
  let ?n = "be_bytes4 (sh_count1 ctx) @ be_bytes4 (sh_count0 ctx)"
  have "taken (m @ [128]) (sat_SHA1_Update ctx [128])" using assms by (simp add: taken_Update)
  from pad_loop_returns [OF this refl] obtain ctx' where
    p: "pad_loop (sat_SHA1_Update ctx [128]) = Some ctx'" and
    t: "taken ((m @ [128]) @ replicate ((120 - length (m @ [128]) mod 64) mod 64) 0) ctx'" by blast
  have z: "(120 - length (m @ [128]) mod 64) mod 64 = (119 - length m mod 64) mod 64"
    by (simp add: mod_Suc)
  have n: "?n = map (\<lambda>i. of_nat (8 * length m div 256 ^ i)) [7, 6, 5, 4, 3, 2, 1, 0]"
    using assms by (simp only: taken_def final_count)
  then have "taken (fips_padded m) (sat_SHA1_Update ctx' ?n)"
    using taken_Update [OF t, of ?n] unfolding fips_padded_def z by simp
  then show ?thesis
    by (simp add: sat_SHA1_Final_def Let_def p SHA1_spec_def taken_def be_bytes4_words split: prod.splits)
qed


lemma length_SHA1_spec [simp]: "length (SHA1_spec m) = 20"
  by (simp add: SHA1_spec_def split: prod.splits)

lemma sha1_pieces:
  assumes "list_all (\<lambda>d. length d < 2 ^ 29) ds"
  shows "sat_SHA1_Final (foldl sat_SHA1_Update sat_SHA1_Init ds) = Some (SHA1_spec (concat ds))"
  using taken_updates [OF taken_Init assms] by (simp add: sat_SHA1_Final_taken)

section \<open>The keyed hash\<close>

definition block_key :: "bytes \<Rightarrow> bytes" where
  "block_key key = (let k = (if length key > 64 then SHA1_spec key else key) in k @ replicate (64 - length k) 0)"

definition HMAC_spec :: "bytes \<Rightarrow> bytes \<Rightarrow> bytes" where
  "HMAC_spec key t =
     SHA1_spec (map (\<lambda>b. b XOR 0x5c) (block_key key) @ SHA1_spec (map (\<lambda>b. b XOR 0x36) (block_key key) @ t))"

lemma length_block_key [simp]: "length (block_key key) = 64"
  by (simp add: block_key_def Let_def)

lemma length_4E:
  assumes "length x = 4"
  obtains a b c d where "x = [a, b, c, d]"
  using assms by (auto simp: length_Suc_conv numeral_eq_Suc)

lemma le_bytes4_word:
  assumes "length x = 4"
  shows "le_bytes4 (le_word4 x XOR w) = map2 (XOR) x (le_bytes4 w)"
proof -
  obtain a b c d where "x = [a, b, c, d]" using assms by (rule length_4E)
  then show ?thesis
    by (simp add: le_bytes4_def le_word4_def and_masks, intro conjI; intro bit_word_eqI; auto simp: bit_simps)
qed

lemma concat_quads: "concat (map (\<lambda>i. take 4 (drop (4 * i) k)) [0..<n]) = take (4 * n) k"
  by (induction n) (simp_all add: take_add add.commute [of 4])

lemma xor_key_bytes:
  assumes "length key = 64" "le_bytes4 x = [c, c, c, c]"
  shows "xor_key key x = map (\<lambda>b. b XOR c) key"
proof -
  have "le_bytes4 (le_word4 (take 4 (drop (4 * i) key)) XOR x) = map (\<lambda>b. b XOR c) (take 4 (drop (4 * i) key))" if "i < 16" for i
  proof -
    have l: "length (take 4 (drop (4 * i) key)) = 4" using that assms(1) by simp
    then obtain p q r s where "take 4 (drop (4 * i) key) = [p, q, r, s]" by (rule length_4E)
    then show ?thesis unfolding le_bytes4_word [OF l] assms(2) by simp
  qed
  then have "xor_key key x = concat (map (\<lambda>i. map (\<lambda>b. b XOR c) (take 4 (drop (4 * i) key))) [0..<16])"
    unfolding xor_key_def by (intro arg_cong [where f = concat] map_cong) simp_all
  also have "\<dots> = map (\<lambda>b. b XOR c) (concat (map (\<lambda>i. take 4 (drop (4 * i) key)) [0..<16]))"
    by (simp add: map_concat comp_def)
  finally show ?thesis using assms(1) by (simp add: concat_quads)
qed

lemma pad_words: "le_bytes4 0x5c5c5c5c = [0x5c, 0x5c, 0x5c, 0x5c]" "le_bytes4 (0x5c5c5c5c XOR 0x36363636) = [0x6a, 0x6a, 0x6a, 0x6a]"
  by (simp_all add: le_bytes4_def)

lemma hmac_sha1_spec:
  assumes "length key < 2 ^ 29" "length t < 2 ^ 29"
  shows "lhmac_sha1 key t = Some (HMAC_spec key t)"
proof -
  let ?k = "block_key key"
  have k: "(if length key > 64 then map_option (\<lambda>d. d @ replicate 44 0) (sat_SHA1_Final (sat_SHA1_Update sat_SHA1_Init key))
      else Some (key @ replicate (64 - length key) 0)) = Some ?k"
    using sha1_pieces [of "[key]"] assms(1) by (simp add: block_key_def Let_def)
  have o: "xor_key ?k 0x5c5c5c5c = map (\<lambda>b. b XOR 0x5c) ?k" by (rule xor_key_bytes) (simp_all add: pad_words)
  have i: "xor_key (map (\<lambda>b. b XOR 0x5c) ?k) (0x5c5c5c5c XOR 0x36363636) = map (\<lambda>b. b XOR 0x36) ?k"
    by (subst xor_key_bytes [OF _ pad_words(2)]) (simp_all add: xor.assoc)
  show ?thesis
    unfolding lhmac_sha1_def k Let_def Option.bind.simps o i HMAC_spec_def
    using sha1_pieces [of "[map (\<lambda>b. b XOR 0x36) ?k, t]"] assms(2)
      sha1_pieces [of "[map (\<lambda>b. b XOR 0x5c) ?k, SHA1_spec (map (\<lambda>b. b XOR 0x36) ?k @ t)]"]
    by simp
qed

text \<open>C23: \<open>crypt.sha1\<close> and \<open>crypt.hmac_sha1\<close> return, and what they return is the hash of FIPS 180-4
  and the keyed hash of RFC 2104, for messages and keys below 512 megabytes: the padding loop ends, and the
  sixteen words schedule, the byte order and the counters of the contexts are those of the standard.\<close>

theorem hmac_sha1_is_rfc2104:
  assumes "length key < 2 ^ 29" "length t < 2 ^ 29"
  shows "lsha1 t = Some (SHA1_spec t) \<and> lhmac_sha1 key t = Some (HMAC_spec key t)"
  using sha1_pieces [of "[t]"] assms by (simp_all add: lsha1_def hmac_sha1_spec)

theorem hmac_sha1_is_rfc2104_witness:
  "lsha1 [97, 98, 99] = Some (SHA1_spec [97, 98, 99]) \<and> lhmac_sha1 [1, 2] [97, 98, 99] = Some (HMAC_spec [1, 2] [97, 98, 99])"
  using hmac_sha1_is_rfc2104 [of "[1, 2]" "[97, 98, 99]"] by simp

end
