(* ===== verification/Harbor.thy ===== *)
theory Harbor
  imports Gate
begin

text \<open>
  The harbor service, \<open>service-src/service_harbor.c\<close>: it carries messages between nodes. Messages
  to a node that is not connected yet, or to a global name that is not known yet, wait in ring
  buffers; the stream of a connection is cut into messages by a state machine. What it does to
  sockets and which message buffers it frees is recorded in order in \<open>hb_calls\<close>; messages to
  services and error reports go to the kernel, whose state is threaded through.
\<close>

section \<open>Data\<close>

record remote_message_header =
  rh_source :: u32
  rh_destination :: u32
  rh_session :: u32

record harbor_msg =
  hm_header :: remote_message_header
  hm_buffer :: "payload option"
  hm_size :: u64

text \<open>A slot that was allocated and never written is \<open>None\<close>.\<close>

record harbor_msg_queue =
  hq_size :: nat
  hq_head :: nat
  hq_tail :: nat
  hq_data :: "harbor_msg option list"

record keyvalue =
  kv_key :: bytes
  kv_hash :: u32
  kv_value :: u32
  kv_queue :: "harbor_msg_queue option"

datatype status = STATUS_WAIT | STATUS_HANDSHAKE | STATUS_HEADER | STATUS_CONTENT | STATUS_DOWN

text \<open>\<open>recv_buffer\<close> is the list of the bytes written to it.\<close>

record slave =
  sl_fd :: int
  sl_queue :: "harbor_msg_queue option"
  sl_status :: status
  sl_length :: nat
  sl_read :: nat
  sl_size :: bytes
  sl_recv :: bytes

datatype harbor_call =
    Socket_send int bytes
  | Socket_close int
  | Socket_start int
  | Free_buffer "payload option"

record harbor =
  hb_ctx :: nat
  hb_id :: int
  hb_slave :: u32
  hb_map :: "keyvalue list list"
  hb_s :: "slave list"
  hb_calls :: "harbor_call list"

type_synonym harbor_state = "harbor \<times> kernel"

definition HARBOR_HASH_SIZE :: nat where "HARBOR_HASH_SIZE = 4096"
definition HARBOR_QUEUE_SIZE :: nat where "HARBOR_QUEUE_SIZE = 1024"
definition HEADER_COOKIE_LENGTH :: nat where "HEADER_COOKIE_LENGTH = 12"
definition REMOTE_MAX :: nat where "REMOTE_MAX = 256"

definition hb_emit :: "harbor_call list \<Rightarrow> harbor \<Rightarrow> harbor" where
  "hb_emit cs h = h\<lparr>hb_calls := hb_calls h @ cs\<rparr>"

definition upd_slave :: "nat \<Rightarrow> (slave \<Rightarrow> slave) \<Rightarrow> harbor \<Rightarrow> harbor" where
  "upd_slave i f h = h\<lparr>hb_s := (hb_s h)[i := f (hb_s h ! i)]\<rparr>"

section \<open>Queues\<close>

definition push_queue_msg :: "harbor_msg \<Rightarrow> harbor_msg_queue \<Rightarrow> harbor_msg_queue" where
  "push_queue_msg m q =
     (let q = (if (hq_tail q + 1) mod hq_size q = hq_head q then
                 q\<lparr>hq_data := map (\<lambda>i. hq_data q ! ((i + hq_head q) mod hq_size q)) [0..<hq_size q - 1]
                              @ replicate (hq_size q + 1) None,
                   hq_head := 0, hq_tail := hq_size q - 1, hq_size := hq_size q * 2\<rparr>
               else q)
      in q\<lparr>hq_data := (hq_data q)[hq_tail q := Some m], hq_tail := (hq_tail q + 1) mod hq_size q\<rparr>)"

definition push_queue :: "payload option \<Rightarrow> u64 \<Rightarrow> remote_message_header \<Rightarrow> harbor_msg_queue \<Rightarrow> harbor_msg_queue" where
  "push_queue buffer sz header q = push_queue_msg \<lparr>hm_header = header, hm_buffer = buffer, hm_size = sz\<rparr> q"

definition pop_queue :: "harbor_msg_queue \<Rightarrow> harbor_msg option \<times> harbor_msg_queue" where
  "pop_queue q =
     (if hq_head q = hq_tail q then (None, q)
      else (hq_data q ! hq_head q, q\<lparr>hq_head := (hq_head q + 1) mod hq_size q\<rparr>))"

definition new_queue :: harbor_msg_queue where
  "new_queue = \<lparr>hq_size = HARBOR_QUEUE_SIZE, hq_head = 0, hq_tail = 0, hq_data = replicate HARBOR_QUEUE_SIZE None\<rparr>"

text \<open>
  The loops \<open>while ((m = pop_queue(queue)) != NULL)\<close>: what they pop, in order. A queue holds fewer
  messages than it has slots, so the number of slots bounds the iterations.
\<close>

fun pop_loop :: "nat \<Rightarrow> harbor_msg_queue \<Rightarrow> harbor_msg list" where
  "pop_loop 0 q = []"
| "pop_loop (Suc n) q =
     (case pop_queue q of (None, q') \<Rightarrow> [] | (Some m, q') \<Rightarrow> m # pop_loop n q')"

definition pop_all :: "harbor_msg_queue \<Rightarrow> harbor_msg list" where
  "pop_all q = pop_loop (hq_size q) q"

definition release_queue :: "harbor_msg_queue option \<Rightarrow> harbor_call list" where
  "release_queue qo = (case qo of None \<Rightarrow> [] | Some q \<Rightarrow> map (\<lambda>m. Free_buffer (hm_buffer m)) (pop_all q))"

section \<open>The table of global names\<close>

text \<open>A node is named by its bucket and its place in the chain.\<close>

definition name_hash :: "bytes \<Rightarrow> u32" where
  "name_hash name = client_id name XOR client_id (drop 4 name) XOR client_id (drop 8 name) XOR client_id (drop 12 name)"

definition strncmp_eq :: "bytes \<Rightarrow> bytes \<Rightarrow> bool" where
  "strncmp_eq a b \<longleftrightarrow> takeWhile (\<lambda>c. c \<noteq> 0) (take GLOBALNAME_LENGTH a) = takeWhile (\<lambda>c. c \<noteq> 0) (take GLOBALNAME_LENGTH b)"

fun chain_search :: "u32 \<Rightarrow> bytes \<Rightarrow> keyvalue list \<Rightarrow> nat option" where
  "chain_search hv name [] = None"
| "chain_search hv name (n # ns) =
     (if kv_hash n = hv \<and> strncmp_eq (kv_key n) name then Some 0 else map_option Suc (chain_search hv name ns))"

definition hash_search :: "bytes \<Rightarrow> harbor \<Rightarrow> (nat \<times> nat) option" where
  "hash_search name h =
     (let hv = name_hash name; b = unat hv mod HARBOR_HASH_SIZE in
      map_option (Pair b) (chain_search hv name (hb_map h ! b)))"

definition hash_insert :: "bytes \<Rightarrow> harbor \<Rightarrow> (nat \<times> nat) \<times> harbor" where
  "hash_insert name h =
     (let hv = name_hash name; b = unat hv mod HARBOR_HASH_SIZE;
          node = \<lparr>kv_key = name, kv_hash = hv, kv_value = 0, kv_queue = None\<rparr>
      in ((b, 0), h\<lparr>hb_map := (hb_map h)[b := node # hb_map h ! b]\<rparr>))"

definition get_node :: "nat \<times> nat \<Rightarrow> harbor \<Rightarrow> keyvalue" where
  "get_node p h = hb_map h ! fst p ! snd p"

definition upd_node :: "nat \<times> nat \<Rightarrow> (keyvalue \<Rightarrow> keyvalue) \<Rightarrow> harbor \<Rightarrow> harbor" where
  "upd_node p f h = h\<lparr>hb_map := (hb_map h)[fst p := (hb_map h ! fst p)[snd p := f (get_node p h)]]\<rparr>"

definition hash_new :: "keyvalue list list" where
  "hash_new = replicate HARBOR_HASH_SIZE []"

definition hash_delete :: "keyvalue list list \<Rightarrow> harbor_call list" where
  "hash_delete m = concat (map (\<lambda>n. release_queue (kv_queue n)) (concat m))"

section \<open>Connections\<close>

definition close_harbor :: "nat \<Rightarrow> harbor \<Rightarrow> harbor" where
  "close_harbor i h =
     (let s = hb_s h ! i;
          h = upd_slave i (\<lambda>s. s\<lparr>sl_status := STATUS_DOWN\<rparr>) h;
          h = (if sl_fd s \<noteq> 0 then hb_emit [Socket_close (sl_fd s)] h else h)
      in case sl_queue s of
           None \<Rightarrow> h
         | Some q \<Rightarrow> upd_slave i (\<lambda>s. s\<lparr>sl_queue := None\<rparr>) (hb_emit (release_queue (Some q)) h))"

definition hb_send :: "services \<Rightarrow> u32 \<Rightarrow> u32 \<Rightarrow> int \<Rightarrow> int \<Rightarrow> payload option \<Rightarrow> u64 \<Rightarrow> harbor_state \<Rightarrow> (int \<times> harbor_state) res" where
  "hb_send sv source destination type session msg sz = (\<lambda>(h, k).
     res_bind (skynet_send sv (Some (hb_ctx h)) source destination type session msg sz k) (\<lambda>(r, k). Inr (r, h, k)))"

definition hb_error :: "services \<Rightarrow> string \<Rightarrow> harbor_state \<Rightarrow> harbor_state res" where
  "hb_error sv t = (\<lambda>(h, k). res_bind (skynet_error sv (Some (hb_ctx h)) t k) (\<lambda>k. Inr (h, k)))"

text \<open>\<open>PTYPE_TEXT\<close> messages are copied by \<open>skynet_send\<close>, with the length of the text.\<close>

definition hb_send_text :: "services \<Rightarrow> string \<Rightarrow> harbor_state \<Rightarrow> harbor_state res" where
  "hb_send_text sv t st =
     res_bind (hb_send sv 0 (hb_slave (fst st)) PTYPE_TEXT 0 (Some (Block (string_bytes t @ [0]))) (of_nat (length t)) st)
       (\<lambda>(_, st). Inr st)"

definition report_harbor_down :: "services \<Rightarrow> nat \<Rightarrow> harbor_state \<Rightarrow> harbor_state res" where
  "report_harbor_down sv i = hb_send_text sv (''D '' @ fmt_d (int i))"

definition slave_zero :: slave where
  "slave_zero = \<lparr>sl_fd = 0, sl_queue = None, sl_status = STATUS_WAIT, sl_length = 0, sl_read = 0, sl_size = [0, 0, 0, 0], sl_recv = []\<rparr>"

definition harbor_create :: harbor where
  "harbor_create = \<lparr>hb_ctx = 0, hb_id = 0, hb_slave = 0, hb_map = hash_new, hb_s = replicate REMOTE_MAX slave_zero, hb_calls = []\<rparr>"

definition harbor_release :: "harbor \<Rightarrow> harbor_call list" where
  "harbor_release h =
     (let h = fold (\<lambda>i h. if sl_fd (hb_s h ! i) \<noteq> 0 \<and> sl_status (hb_s h ! i) \<noteq> STATUS_DOWN then close_harbor i h else h)
                [1..<REMOTE_MAX] h
      in hb_calls h @ hash_delete (hb_map h))"

section \<open>Packages\<close>

definition to_bigendian :: "u32 \<Rightarrow> bytes" where
  "to_bigendian n = [ucast (drop_bit 24 n AND 0xff), ucast (drop_bit 16 n AND 0xff), ucast (drop_bit 8 n AND 0xff), ucast (n AND 0xff)]"

definition header_to_message :: "remote_message_header \<Rightarrow> bytes" where
  "header_to_message header =
     to_bigendian (rh_source header) @ to_bigendian (rh_destination header) @ to_bigendian (rh_session header)"

definition from_bigendian :: "bytes \<Rightarrow> u32" where
  "from_bigendian b =
     push_bit 24 (ucast (b ! 0)) OR push_bit 16 (ucast (b ! 1)) OR push_bit 8 (ucast (b ! 2)) OR ucast (b ! 3)"

definition message_to_header :: "bytes \<Rightarrow> remote_message_header" where
  "message_to_header b =
     \<lparr>rh_source = from_bigendian b, rh_destination = from_bigendian (drop 4 b), rh_session = from_bigendian (drop 8 b)\<rparr>"

text \<open>A package shorter than its header is read in front of the buffer.\<close>

definition forward_local_messsage :: "services \<Rightarrow> bytes \<Rightarrow> harbor_state \<Rightarrow> harbor_state res" where
  "forward_local_messsage sv msg st =
     (if length msg < HEADER_COOKIE_LENGTH then Inl (Out_of_bounds ''forward_local_messsage'')
      else
        let sz = length msg - HEADER_COOKIE_LENGTH;
            header = message_to_header (drop sz msg);
            type = uint (drop_bit HANDLE_REMOTE_SHIFT (rh_destination header));
            destination = (rh_destination header AND HANDLE_MASK) OR push_bit HANDLE_REMOTE_SHIFT (of_int (hb_id (fst st)));
            session = sint (rh_session header)
        in res_bind (hb_send sv (rh_source header) destination (type OR PTYPE_TAG_DONTCOPY) session (Some (Block msg)) (of_nat sz) st)
             (\<lambda>(r, st).
              if r < 0 then
                res_bind (if type \<noteq> PTYPE_ERROR
                          then hb_send sv destination (rh_source header) PTYPE_ERROR session None 0 st
                          else Inr (0, st)) (\<lambda>(_, st).
                hb_error sv (''Unknown destination :'' @ fmt_x destination @ '' from :'' @ fmt_x (rh_source header)
                             @ '' type('' @ fmt_d type @ '')'') st)
              else Inr st))"

text \<open>The bytes \<open>memcpy\<close> reads from a message buffer; a struct with pointers means nothing to another node.\<close>

definition buffer_bytes :: "payload option \<Rightarrow> nat \<Rightarrow> bytes res" where
  "buffer_bytes p n =
     (case p of
        None \<Rightarrow> if n = 0 then Inr [] else Inl (Bad_pointer ''send_remote'')
      | Some (Block b) \<Rightarrow> if n \<le> length b then Inr (take n b) else Inl (Out_of_bounds ''send_remote'')
      | Some _ \<Rightarrow> if n = 0 then Inr [] else Inl (Bad_pointer ''send_remote''))"

definition send_remote :: "services \<Rightarrow> int \<Rightarrow> payload option \<Rightarrow> u64 \<Rightarrow> remote_message_header \<Rightarrow> harbor_state \<Rightarrow> harbor_state res" where
  "send_remote sv fd buffer sz cookie st =
     (let sz_header = sz + 12 in
      if sz_header > 0xffffffff then
        hb_error sv (''remote message from :'' @ fmt_08x (rh_source cookie) @ '' to :'' @ fmt_08x (rh_destination cookie)
                     @ '' is too large.'') st
      else
        res_bind (buffer_bytes buffer (unat sz)) (\<lambda>b.
          case st of (h, k) \<Rightarrow>
            Inr (hb_emit [Socket_send fd (to_bigendian (ucast sz_header) @ b @ header_to_message cookie)] h, k)))"

fun send_all :: "services \<Rightarrow> int \<Rightarrow> (remote_message_header \<Rightarrow> remote_message_header) \<Rightarrow> harbor_msg list \<Rightarrow> harbor_state \<Rightarrow> harbor_state res" where
  "send_all sv fd f [] st = Inr st"
| "send_all sv fd f (m # ms) st =
     res_bind (send_remote sv fd (hm_buffer m) (hm_size m) (f (hm_header m)) st) (\<lambda>(h, k).
       send_all sv fd f ms (hb_emit [Free_buffer (hm_buffer m)] h, k))"

fun send_local :: "services \<Rightarrow> u32 \<Rightarrow> harbor_msg list \<Rightarrow> harbor_state \<Rightarrow> harbor_state res" where
  "send_local sv handle [] st = Inr st"
| "send_local sv handle (m # ms) st =
     (let type = uint (drop_bit HANDLE_REMOTE_SHIFT (rh_destination (hm_header m))) in
      res_bind (hb_send sv (rh_source (hm_header m)) handle (type OR PTYPE_TAG_DONTCOPY) (sint (rh_session (hm_header m)))
                 (hm_buffer m) (hm_size m) st) (\<lambda>(_, st). send_local sv handle ms st))"

definition handle_harbor :: "u32 \<Rightarrow> nat" where
  "handle_harbor handle = unat (drop_bit HANDLE_REMOTE_SHIFT handle)"


text \<open>A queue whose messages have all been popped.\<close>

definition emptied :: "harbor_msg_queue \<Rightarrow> harbor_msg_queue" where
  "emptied q = q\<lparr>hq_head := hq_tail q\<rparr>"

definition key_text :: "bytes \<Rightarrow> string" where
  "key_text key = bytes_string (takeWhile (\<lambda>c. c \<noteq> 0) (take GLOBALNAME_LENGTH key))"

text \<open>\<open>dispatch_name_queue\<close> for a node with a queue: the messages go to the node of the handle, wait
  for its connection, or are delivered in this node.\<close>

definition queue_for_slave :: "nat \<times> nat \<Rightarrow> harbor_msg_queue \<Rightarrow> nat \<Rightarrow> harbor \<Rightarrow> harbor" where
  "queue_for_slave p q i h =
     (case sl_queue (hb_s h ! i) of
        None \<Rightarrow> upd_node p (\<lambda>n. n\<lparr>kv_queue := None\<rparr>) (upd_slave i (\<lambda>s. s\<lparr>sl_queue := Some q\<rparr>) h)
      | Some sq \<Rightarrow> upd_node p (\<lambda>n. n\<lparr>kv_queue := Some (emptied q)\<rparr>)
                     (upd_slave i (\<lambda>s. s\<lparr>sl_queue := Some (fold push_queue_msg (pop_all q) sq)\<rparr>) h))"

definition dispatch_name_queue :: "services \<Rightarrow> nat \<times> nat \<Rightarrow> harbor_msg_queue \<Rightarrow> harbor_state \<Rightarrow> harbor_state res" where
  "dispatch_name_queue sv p q = (\<lambda>(h, k).
     let handle = kv_value (get_node p h);
         i = handle_harbor handle;
         s = hb_s h ! i;
         fd = sl_fd s
     in if fd = 0 then
          if sl_status s = STATUS_DOWN then
            hb_error sv (''Drop message to '' @ key_text (kv_key (get_node p h)) @ '' (in harbor '' @ fmt_d (int i) @ '')'') (h, k)
          else
            let h = queue_for_slave p q i h in
            if i = handle_harbor (hb_slave h) then
              res_deref ''dispatch_name_queue'' (sl_queue (hb_s h ! i)) (\<lambda>sq.
              res_bind (send_local sv handle (pop_all sq) (h, k)) (\<lambda>(h, k).
              Inr (upd_slave i (\<lambda>s. s\<lparr>sl_queue := None\<rparr>) h, k)))
            else Inr (h, k)
        else
          res_bind (send_all sv fd (\<lambda>hd. hd\<lparr>rh_destination := rh_destination hd OR (handle AND HANDLE_MASK)\<rparr>) (pop_all q) (h, k))
            (\<lambda>(h, k). Inr (upd_node p (\<lambda>n. n\<lparr>kv_queue := Some (emptied q)\<rparr>) h, k)))"

definition dispatch_queue :: "services \<Rightarrow> nat \<Rightarrow> harbor_state \<Rightarrow> harbor_state res" where
  "dispatch_queue sv i = (\<lambda>(h, k).
     let s = hb_s h ! i; fd = sl_fd s in
     res_assert ''dispatch_queue'' (fd \<noteq> 0)
       (case sl_queue s of
          None \<Rightarrow> Inr (h, k)
        | Some q \<Rightarrow>
            res_bind (send_all sv fd (\<lambda>hd. hd) (pop_all q) (h, k)) (\<lambda>(h, k).
              Inr (upd_slave i (\<lambda>s. s\<lparr>sl_queue := None\<rparr>) h, k))))"

section \<open>The stream of a connection\<close>

text \<open>The cases of the switch: whether the loop goes on, the bytes left, the state.\<close>

type_synonym data_step = "(bool \<times> bytes \<times> harbor_state) res"

definition content_step :: "services \<Rightarrow> nat \<Rightarrow> bytes \<Rightarrow> harbor_state \<Rightarrow> data_step" where
  "content_step sv i buffer = (\<lambda>(h, k).
     let s = hb_s h ! i; need = sl_length s - sl_read s in
     if length buffer < need then
       Inr (False, [], upd_slave i (\<lambda>s. s\<lparr>sl_recv := take (sl_read s) (sl_recv s) @ buffer, sl_read := sl_read s + length buffer\<rparr>) h, k)
     else
       res_bind (forward_local_messsage sv (take (sl_read s) (sl_recv s) @ take need buffer) (h, k)) (\<lambda>(h, k).
         let h = upd_slave i (\<lambda>s. s\<lparr>sl_length := 0, sl_read := 0, sl_recv := [], sl_status := STATUS_HEADER\<rparr>) h;
             buffer = drop need buffer
         in Inr (buffer \<noteq> [], buffer, h, k)))"

definition header_step :: "services \<Rightarrow> nat \<Rightarrow> bytes \<Rightarrow> harbor_state \<Rightarrow> data_step" where
  "header_step sv i buffer = (\<lambda>(h, k).
     let s = hb_s h ! i; need = 4 - sl_read s in
     if length buffer < need then
       Inr (False, [], upd_slave i (\<lambda>s. s\<lparr>sl_size := take (sl_read s) (sl_size s) @ buffer @ drop (sl_read s + length buffer) (sl_size s),
                                        sl_read := sl_read s + length buffer\<rparr>) h, k)
     else
       let sz = take (sl_read s) (sl_size s) @ take need buffer;
           buffer = drop need buffer;
           h = upd_slave i (\<lambda>s. s\<lparr>sl_size := sz\<rparr>) h
       in if sz ! 0 \<noteq> 0 then
            res_bind (hb_error sv (''Message is too long from harbor '' @ fmt_d (int i)) (h, k)) (\<lambda>(h, k).
              Inr (False, [], close_harbor i h, k))
          else
            let len = unat (sz ! 1) * 65536 + unat (sz ! 2) * 256 + unat (sz ! 3);
                h = upd_slave i (\<lambda>s. s\<lparr>sl_length := len, sl_read := 0, sl_recv := [], sl_status := STATUS_CONTENT\<rparr>) h
            in if buffer = [] then Inr (False, [], h, k) else content_step sv i buffer (h, k))"

definition handshake_step :: "services \<Rightarrow> nat \<Rightarrow> bytes \<Rightarrow> harbor_state \<Rightarrow> data_step" where
  "handshake_step sv i buffer = (\<lambda>(h, k).
     case buffer of
       [] \<Rightarrow> Inl (Out_of_bounds ''push_socket_data'')
     | remote_id # buffer \<Rightarrow>
         if unat remote_id \<noteq> i then
           res_bind (hb_error sv (''Invalid shakehand id ('' @ fmt_d (int i) @ '') from fd = '' @ fmt_d (sl_fd (hb_s h ! i))
                                  @ '' , harbor = '' @ fmt_d (uint remote_id)) (h, k)) (\<lambda>(h, k).
             Inr (False, [], close_harbor i h, k))
         else
           res_bind (dispatch_queue sv i (upd_slave i (\<lambda>s. s\<lparr>sl_status := STATUS_HEADER\<rparr>) h, k)) (\<lambda>st.
             if buffer = [] then Inr (True, [], st) else header_step sv i buffer st))"

definition data_step :: "services \<Rightarrow> nat \<Rightarrow> bytes \<Rightarrow> harbor_state \<Rightarrow> data_step" where
  "data_step sv i buffer st =
     (case sl_status (hb_s (fst st) ! i) of
        STATUS_HANDSHAKE \<Rightarrow> handshake_step sv i buffer st
      | STATUS_HEADER \<Rightarrow> header_step sv i buffer st
      | STATUS_CONTENT \<Rightarrow> content_step sv i buffer st
      | _ \<Rightarrow> Inr (False, [], st))"

partial_function (option) data_loop :: "services \<Rightarrow> nat \<Rightarrow> bytes \<Rightarrow> harbor_state \<Rightarrow> harbor_state run" where
  "data_loop sv i buffer st =
     (case data_step sv i buffer st of
        Inl e \<Rightarrow> Some (Inl e)
      | Inr (again, buffer, st) \<Rightarrow> if again then data_loop sv i buffer st else Some (Inr st))"

text \<open>\<open>harbor_id\<close>, and the same loop in \<open>push_socket_data\<close>: the first connection with the socket, 0 if there is none.\<close>

definition harbor_id :: "harbor \<Rightarrow> int \<Rightarrow> nat" where
  "harbor_id h fd = (case filter (\<lambda>i. sl_fd (hb_s h ! i) = fd) [1..<REMOTE_MAX] of [] \<Rightarrow> 0 | i # _ \<Rightarrow> i)"

text \<open>The buffer of a message from an unknown socket is freed here, and again by the caller.\<close>

definition push_socket_data :: "services \<Rightarrow> int \<Rightarrow> bytes option \<Rightarrow> harbor_state \<Rightarrow> harbor_state run" where
  "push_socket_data sv fd buffer = (\<lambda>(h, k).
     let i = harbor_id h fd in
     if i = 0 then
       Some (hb_error sv (''Invalid socket fd ('' @ fmt_d fd @ '') data'') (hb_emit [Free_buffer (map_option Block buffer)] h, k))
     else data_loop sv i (case buffer of None \<Rightarrow> [] | Some b \<Rightarrow> b) (h, k))"

section \<open>Names and outgoing messages\<close>

definition search_or_insert :: "bytes \<Rightarrow> harbor \<Rightarrow> (nat \<times> nat) \<times> harbor" where
  "search_or_insert name h = (case hash_search name h of None \<Rightarrow> hash_insert name h | Some p \<Rightarrow> (p, h))"

definition update_name :: "services \<Rightarrow> bytes \<Rightarrow> u32 \<Rightarrow> harbor_state \<Rightarrow> harbor_state res" where
  "update_name sv name handle = (\<lambda>(h, k).
     let (p, h) = search_or_insert name h;
         h = upd_node p (\<lambda>n. n\<lparr>kv_value := handle\<rparr>) h
     in case kv_queue (get_node p h) of
          None \<Rightarrow> Inr (h, k)
        | Some q \<Rightarrow>
            res_bind (dispatch_name_queue sv p q (h, k)) (\<lambda>(h, k).
              Inr (upd_node p (\<lambda>n. n\<lparr>kv_queue := None\<rparr>) (hb_emit (release_queue (kv_queue (get_node p h))) h), k)))"

definition remote_header :: "u32 \<Rightarrow> u32 \<Rightarrow> int \<Rightarrow> int \<Rightarrow> remote_message_header" where
  "remote_header source destination type session =
     \<lparr>rh_source = source, rh_destination = push_bit HANDLE_REMOTE_SHIFT (of_int type) OR (destination AND HANDLE_MASK),
      rh_session = of_int session\<rparr>"

definition remote_send_handle ::
  "services \<Rightarrow> u32 \<Rightarrow> u32 \<Rightarrow> int \<Rightarrow> int \<Rightarrow> payload option \<Rightarrow> u64 \<Rightarrow> harbor_state \<Rightarrow> (int \<times> harbor_state) res" where
  "remote_send_handle sv source destination type session msg sz = (\<lambda>(h, k).
     let i = handle_harbor destination in
     if int i = hb_id h then
       res_bind (hb_send sv source destination (type OR PTYPE_TAG_DONTCOPY) session msg sz (h, k)) (\<lambda>(_, st). Inr (1, st))
     else
       let s = hb_s h ! i in
       if sl_fd s = 0 \<or> sl_status s = STATUS_HANDSHAKE then
         if sl_status s = STATUS_DOWN then
           res_bind (hb_send sv destination source PTYPE_ERROR 0 None 0 (h, k)) (\<lambda>(_, st).
           res_bind (hb_error sv (''Drop message to harbor '' @ fmt_d (int i) @ '' from '' @ fmt_x source @ '' to '' @ fmt_x destination
                       @ '' (session = '' @ fmt_d session @ '', msgsz = '' @ fmt_d (sint (ucast sz :: c_int)) @ '')'') st) (\<lambda>st.
           Inr (0, st)))
         else
           let q = (case sl_queue s of None \<Rightarrow> new_queue | Some q \<Rightarrow> q) in
           Inr (1, upd_slave i (\<lambda>s. s\<lparr>sl_queue := Some (push_queue msg sz (remote_header source destination type session) q)\<rparr>) h, k)
       else
         res_bind (send_remote sv (sl_fd s) msg sz (remote_header source destination type session) (h, k)) (\<lambda>st. Inr (0, st)))"

definition remote_send_name ::
  "services \<Rightarrow> u32 \<Rightarrow> bytes \<Rightarrow> int \<Rightarrow> int \<Rightarrow> payload option \<Rightarrow> u64 \<Rightarrow> harbor_state \<Rightarrow> (int \<times> harbor_state) res" where
  "remote_send_name sv source name type session msg sz = (\<lambda>(h, k).
     let (p, h) = search_or_insert name h in
     if kv_value (get_node p h) = 0 then
       let q = (case kv_queue (get_node p h) of None \<Rightarrow> new_queue | Some q \<Rightarrow> q);
           h = upd_node p (\<lambda>n. n\<lparr>kv_queue := Some (push_queue msg sz (remote_header source 0 type session) q)\<rparr>) h
       in res_bind (hb_send_text sv (''Q '' @ key_text name) (h, k)) (\<lambda>st. Inr (1, st))
     else remote_send_handle sv source (kv_value (get_node p h)) type session msg sz (h, k))"

section \<open>Commands and the callback\<close>

definition handshake :: "nat \<Rightarrow> harbor \<Rightarrow> harbor" where
  "handshake i h = hb_emit [Socket_send (sl_fd (hb_s h ! i)) [of_int (hb_id h)]] h"

text \<open>\<open>sscanf(buffer, "%d %d", &fd, &id)\<close> with both numbers 0 before.\<close>

definition scan_two :: "string \<Rightarrow> int \<times> int" where
  "scan_two s =
     (case scan_int s of
        (None, _) \<Rightarrow> (0, 0)
      | (Some a, s) \<Rightarrow> (a, case fst (scan_int s) of None \<Rightarrow> 0 | Some b \<Rightarrow> b))"

definition connect_harbor :: "services \<Rightarrow> bool \<Rightarrow> int \<Rightarrow> nat \<Rightarrow> harbor_state \<Rightarrow> harbor_state res" where
  "connect_harbor sv waits fd i = (\<lambda>(h, k).
     if sl_fd (hb_s h ! i) \<noteq> 0 then hb_error sv (''Harbor '' @ fmt_d (int i) @ '' alreay exist'') (h, k)
     else
       let h = handshake i (hb_emit [Socket_start fd] (upd_slave i (\<lambda>s. s\<lparr>sl_fd := fd\<rparr>) h)) in
       if waits then Inr (upd_slave i (\<lambda>s. s\<lparr>sl_status := STATUS_HANDSHAKE\<rparr>) h, k)
       else dispatch_queue sv i (upd_slave i (\<lambda>s. s\<lparr>sl_status := STATUS_HEADER\<rparr>) h, k))"

text \<open>
  \<open>harbor_command\<close> on a block of \<open>sz\<close> bytes with a NUL behind them. A connect command of fewer than two bytes
  copies a negative number of bytes.
\<close>

definition harbor_command :: "services \<Rightarrow> bytes \<Rightarrow> nat \<Rightarrow> u32 \<Rightarrow> harbor_state \<Rightarrow> harbor_state res" where
  "harbor_command sv msg sz source st =
     (case bytes_string msg of
        [] \<Rightarrow> Inl (Out_of_bounds ''harbor_command'')
      | c # t \<Rightarrow>
          if c = CHR ''N'' then
            if sz \<le> 2 \<or> sz - 2 \<ge> GLOBALNAME_LENGTH then
              res_bind (cstr_at (c # t) 2) (\<lambda>name. hb_error sv (''Invalid global name '' @ name) st)
            else if length msg < sz then Inl (Out_of_bounds ''harbor_command'')
            else update_name sv (take (sz - 2) (drop 2 msg) @ replicate (GLOBALNAME_LENGTH - (sz - 2)) 0) source st
          else if c = CHR ''S'' \<or> c = CHR ''A'' then
            if sz < 2 \<or> length msg < sz then Inl (Out_of_bounds ''harbor_command'')
            else
              let buffer = takeWhile (\<lambda>c. c \<noteq> CHR 0x00) (take (sz - 2) (drop 2 (c # t)));
                  (fd, i) = scan_two buffer
              in if fd = 0 \<or> i \<le> 0 \<or> i \<ge> int REMOTE_MAX then
                   hb_error sv (''Invalid command '' @ [c] @ '' '' @ buffer) st
                 else connect_harbor sv (c = CHR ''S'') fd (nat i) st
          else res_bind (cstr_at (c # t) 0) (\<lambda>m. hb_error sv (''Unknown command '' @ m) st))"

definition harbor_socket :: "services \<Rightarrow> int \<Rightarrow> int \<Rightarrow> int \<Rightarrow> int \<Rightarrow> bytes option \<Rightarrow> harbor_state \<Rightarrow> harbor_state run" where
  "harbor_socket sv type t fd ud buffer st =
     (if t = SKYNET_SOCKET_TYPE_DATA then
        run_bind (push_socket_data sv fd buffer st) (\<lambda>(h, k). Some (Inr (hb_emit [Free_buffer (map_option Block buffer)] h, k)))
      else if t = SKYNET_SOCKET_TYPE_ERROR \<or> t = SKYNET_SOCKET_TYPE_CLOSE then
        Some (let i = harbor_id (fst st) fd in
              if i \<noteq> 0 then report_harbor_down sv i st else hb_error sv (''Unkown fd ('' @ fmt_d fd @ '') closed'') st)
      else if t = SKYNET_SOCKET_TYPE_CONNECT then Some (Inr st)
      else if t = SKYNET_SOCKET_TYPE_WARNING then
        Some (let i = harbor_id (fst st) fd in
              if i \<noteq> 0 then hb_error sv (''message havn't send to Harbor ('' @ fmt_d (int i) @ '') reach '' @ fmt_d ud @ '' K'') st
              else Inr st)
      else Some (hb_error sv (''recv invalid socket message type '' @ fmt_d type) st))"

definition mainloop :: "services \<Rightarrow> int \<Rightarrow> int \<Rightarrow> u32 \<Rightarrow> payload \<Rightarrow> nat \<Rightarrow> harbor_state \<Rightarrow> (int \<times> harbor_state) run" where
  "mainloop sv type session source msg sz st =
     (if type = PTYPE_SOCKET then
        (case msg of
           Socket_message t fd ud buffer _ \<Rightarrow> run_bind (harbor_socket sv type t fd ud buffer st) (\<lambda>st. Some (Inr (0, st)))
         | _ \<Rightarrow> Some (Inl (Bad_pointer ''mainloop'')))
      else if type = PTYPE_HARBOR then
        (case msg of
           Block b \<Rightarrow> Some (res_bind (harbor_command sv b sz source st) (\<lambda>st. Inr (0, st)))
         | _ \<Rightarrow> Some (Inl (Bad_pointer ''mainloop'')))
      else
        (case msg of
           Remote_message name handle m msz \<Rightarrow>
             Some (res_bind
               (if handle = 0 then remote_send_name sv source (string_bytes name) type session m msz st
                else remote_send_handle sv source handle type session m msz st) (\<lambda>(r, h, k).
               if r \<noteq> 0 then Inr (0, h, k) else Inr (0, hb_emit [Free_buffer m] h, k)))
         | _ \<Rightarrow> Some (Inl (Bad_pointer ''mainloop''))))"

text \<open>The conversion \<open>%u\<close> of \<open>sscanf\<close>; \<open>sscanf(args, "%d %u", ...)\<close> with both numbers 0 before.\<close>

definition scan_unsigned :: "string \<Rightarrow> u32" where
  "scan_unsigned s =
     (let (neg, t) = read_sign (dropWhile is_space s); n = fst (read_digits 10 0 t) in
      if n \<ge> 2 ^ 64 then - 1 else if neg then - of_nat n else of_nat n)"

definition scan_args :: "string \<Rightarrow> int \<times> u32" where
  "scan_args s = (case scan_int s of (None, _) \<Rightarrow> (0, 0) | (Some a, s) \<Rightarrow> (a, scan_unsigned s))"

definition harbor_init :: "nat \<Rightarrow> string \<Rightarrow> nat \<Rightarrow> nat option \<Rightarrow> harbor_state \<Rightarrow> (int \<times> harbor_state) res" where
  "harbor_init ctx args ud cb = (\<lambda>(h, k).
     let (i, slave) = scan_args args; h = h\<lparr>hb_ctx := ctx\<rparr> in
     if slave = 0 then Inr (1, h, k)
     else
       res_bind (skynet_callback ctx ud cb k) (\<lambda>k.
       res_bind (skynet_harbor_start ctx k) (\<lambda>k.
       Inr (0, h\<lparr>hb_id := i, hb_slave := slave\<rparr>, k))))"

end
