(* ===== verification/HarborProps.thy ===== *)
theory HarborProps
  imports Harbor KernelProps
begin

text \<open>
  What the harbor service promises: its queues are first-in first-out, its callback ends and keeps
  the state well formed, the stream of a connection is cut into the messages that were sent
  whatever the fragmentation, and a message that one node sends to another arrives there.
\<close>

section \<open>Queues\<close>

definition hq_len :: "harbor_msg_queue \<Rightarrow> nat" where
  "hq_len q = ring_len (hq_size q) (hq_head q) (hq_tail q)"

definition hq_content :: "harbor_msg_queue \<Rightarrow> harbor_msg list" where
  "hq_content q = map the (ring_slice (hq_data q) (hq_head q) (hq_len q))"

definition hq_inv :: "harbor_msg_queue \<Rightarrow> bool" where
  "hq_inv q \<longleftrightarrow> 2 \<le> hq_size q \<and> length (hq_data q) = hq_size q \<and> hq_head q < hq_size q \<and> hq_tail q < hq_size q \<and>
     None \<notin> set (ring_slice (hq_data q) (hq_head q) (hq_len q))"

lemma length_hq_content [simp]: "length (hq_content q) = hq_len q"
  by (simp add: hq_content_def)

lemma hq_inv_new: "hq_inv new_queue" "hq_content new_queue = []"
  by (simp_all add: hq_inv_def hq_content_def hq_len_def new_queue_def ring_len_def HARBOR_QUEUE_SIZE_def)

lemma mod_ring_next: "i < c \<Longrightarrow> (i + 1) mod c = ring_next c i"
  by (simp add: ring_next_mod)

lemma push_room:
  assumes "hq_inv q" "ring_next (hq_size q) (hq_tail q) \<noteq> hq_head q"
  shows "hq_inv (push_queue_msg m q)" "hq_content (push_queue_msg m q) = hq_content q @ [m]"
proof -
  let ?c = "hq_size q" and ?h = "hq_head q" and ?t = "hq_tail q"
  have inv: "length (hq_data q) = ?c" "?h < ?c" "?t < ?c" and used: "None \<notin> set (ring_slice (hq_data q) ?h (hq_len q))" "2 \<le> ?c"
    using assms(1) by (auto simp: hq_inv_def)
  have e: "push_queue_msg m q = q\<lparr>hq_data := (hq_data q)[?t := Some m], hq_tail := ring_next ?c ?t\<rparr>" (is "_ = ?q")
    using assms(2) inv(3) by (simp add: push_queue_msg_def mod_ring_next [simplified] Let_def)
  have "hq_len ?q = Suc (hq_len q)"
    using ring_len_next_tail [OF inv(2,3) assms(2)] by (simp add: hq_len_def)
  then have "ring_slice (hq_data ?q) (hq_head ?q) (hq_len ?q) = ring_slice (hq_data q) ?h (hq_len q) @ [Some m]"
    using ring_push_slice [of ?h "hq_data q" ?t "Some m"] inv by (simp add: hq_len_def)
  then show "hq_inv (push_queue_msg m q)" "hq_content (push_queue_msg m q) = hq_content q @ [m]"
    unfolding e using inv used by (simp_all add: hq_inv_def hq_content_def ring_next_less)
qed

lemma push_full:
  assumes "hq_inv q" "ring_next (hq_size q) (hq_tail q) = hq_head q"
  shows "hq_inv (push_queue_msg m q)" "hq_content (push_queue_msg m q) = hq_content q @ [m]"
proof -
  let ?c = "hq_size q" and ?h = "hq_head q" and ?t = "hq_tail q"
  have inv: "length (hq_data q) = ?c" "?h < ?c" "?t < ?c" and used: "None \<notin> set (ring_slice (hq_data q) ?h (hq_len q))" "2 \<le> ?c"
    using assms(1) by (auto simp: hq_inv_def)
  have n: "Suc (hq_len q) = ?c"
    unfolding hq_len_def by (rule ring_len_next_tail_full [OF inv(2,3) assms(2)])
  then have c: "?c - 1 = hq_len q" by simp
  have s: "map (\<lambda>i. hq_data q ! ((i + ?h) mod ?c)) [0..<hq_len q] = ring_slice (hq_data q) ?h (hq_len q)" (is "_ = ?xs")
    using inv(1) by (simp add: ring_slice_def add.commute)
  have d: "(?xs @ replicate (?c + 1) None)[hq_len q := Some m] = (?xs @ [Some m]) @ replicate ?c None"
    by (simp add: list_update_append)
  have e: "push_queue_msg m q = q\<lparr>hq_data := (?xs @ [Some m]) @ replicate ?c None, hq_head := 0, hq_tail := ?c, hq_size := ?c * 2\<rparr>" (is "_ = ?q")
    using assms(2) inv(3) n used(2) d by (simp add: push_queue_msg_def mod_ring_next [simplified] Let_def c [simplified] s)
  have "hq_len ?q = length (?xs @ [Some m])" using n by (simp add: hq_len_def ring_len_def)
  then have "ring_slice (hq_data ?q) (hq_head ?q) (hq_len ?q) = ?xs @ [Some m]"
    using ring_slice_prefix [of "?xs @ [Some m]" "replicate ?c None"] by simp
  then show "hq_inv (push_queue_msg m q)" "hq_content (push_queue_msg m q) = hq_content q @ [m]"
    unfolding e using used n by (simp_all add: hq_inv_def hq_content_def)
qed

lemma pop_queue_spec:
  assumes "hq_inv q"
  shows "case hq_content q of
      [] \<Rightarrow> pop_queue q = (None, q) \<and> hq_head q = hq_tail q
    | m # ms \<Rightarrow> \<exists>q'. pop_queue q = (Some m, q') \<and> hq_inv q' \<and> hq_content q' = ms \<and> hq_size q' = hq_size q"
proof -
  let ?c = "hq_size q" and ?h = "hq_head q" and ?t = "hq_tail q"
  have inv: "length (hq_data q) = ?c" "?h < ?c" "?t < ?c" and used: "None \<notin> set (ring_slice (hq_data q) ?h (hq_len q))" "2 \<le> ?c"
    using assms by (auto simp: hq_inv_def)
  show ?thesis
  proof (cases "?h = ?t")
    case True
    then have "hq_content q = []" by (simp add: hq_content_def hq_len_def ring_len_def)
    with True show ?thesis by (simp add: pop_queue_def)
  next
    case False
    let ?q = "q\<lparr>hq_head := ring_next ?c ?h\<rparr>"
    have "hq_len q = Suc (hq_len ?q)" using ring_len_next_head [OF inv(2,3) False] by (simp add: hq_len_def)
    then have s: "ring_slice (hq_data q) ?h (hq_len q) = hq_data q ! ?h # ring_slice (hq_data ?q) (hq_head ?q) (hq_len ?q)"
      using ring_slice_Cons [of ?h "hq_data q"] inv by simp
    with used obtain m where m: "hq_data q ! ?h = Some m" by (cases "hq_data q ! ?h") auto
    have "pop_queue q = (Some m, ?q)" using False m inv(2) by (simp add: pop_queue_def mod_ring_next [simplified])
    moreover have "hq_inv ?q" using inv used s by (simp add: hq_inv_def ring_next_less)
    moreover have "hq_content q = m # hq_content ?q" using s m by (simp add: hq_content_def)
    ultimately show ?thesis by simp
  qed
qed

interpretation harbor_ring: fifo hq_content hq_inv push_queue_msg pop_queue
proof
  fix q m assume inv: "hq_inv q"
  show "hq_content (push_queue_msg m q) = hq_content q @ [m]" "hq_inv (push_queue_msg m q)"
    using push_room [OF inv] push_full [OF inv] by (cases "ring_next (hq_size q) (hq_tail q) = hq_head q"; blast)+
  show "hq_content q = [] \<Longrightarrow> fst (pop_queue q) = None" "hq_content q \<noteq> [] \<Longrightarrow> fst (pop_queue q) = Some (hd (hq_content q))"
      "hq_content (snd (pop_queue q)) = tl (hq_content q)" "hq_inv (snd (pop_queue q))"
    using pop_queue_spec [OF inv] inv by (auto split: list.splits)
qed

lemma pop_loop_content: "hq_inv q \<Longrightarrow> hq_len q \<le> n \<Longrightarrow> pop_loop n q = hq_content q"
proof (induction n arbitrary: q)
  case 0
  then show ?case by (simp add: hq_content_def)
next
  case (Suc n)
  show ?case
  proof (cases "hq_content q")
    case Nil
    then show ?thesis using pop_queue_spec [OF Suc.prems(1)] by simp
  next
    case (Cons m ms)
    then obtain q' where q': "pop_queue q = (Some m, q')" "hq_inv q'" "hq_content q' = ms"
      using pop_queue_spec [OF Suc.prems(1)] by auto
    have "hq_len q' \<le> n" using Suc.prems(2) Cons q'(3) length_hq_content [of q] length_hq_content [of q'] by simp
    with Suc.IH [OF q'(2)] q' Cons show ?thesis by simp
  qed
qed

text \<open>The loops that empty a queue see every message in it, once and in order.\<close>

lemma pop_all_content: "hq_inv q \<Longrightarrow> pop_all q = hq_content q"
  unfolding pop_all_def by (rule pop_loop_content) (auto simp: hq_inv_def hq_len_def intro: less_imp_le ring_len_less)

lemma emptied_queue: "hq_inv q \<Longrightarrow> hq_inv (emptied q) \<and> hq_content (emptied q) = []"
  by (simp add: hq_inv_def hq_content_def emptied_def hq_len_def ring_len_def)

lemma fold_push:
  "hq_inv q \<Longrightarrow> hq_inv (fold push_queue_msg ms q) \<and> hq_content (fold push_queue_msg ms q) = hq_content q @ ms"
  by (induction ms arbitrary: q) (simp_all add: harbor_ring.invar_enq harbor_ring.abs_enq)


section \<open>Packages\<close>

lemma length_to_bigendian [simp]: "length (to_bigendian n) = 4"
  by (simp add: to_bigendian_def)

lemma length_header_to_message [simp]: "length (header_to_message c) = 12"
  by (simp add: header_to_message_def)

lemma from_to_bigendian: "from_bigendian (to_bigendian n @ x) = n"
proof (rule bit_word_eqI)
  fix i assume i: "i < LENGTH(32)"
  have m: "(w :: u32) AND 0xff = take_bit 8 w" for w by (simp add: take_bit_eq_mask mask_eq_exp_minus_1)
  consider "i < 8" | "8 \<le> i" "i < 16" | "16 \<le> i" "i < 24" | "24 \<le> i" by linarith
  then show "bit (from_bigendian (to_bigendian n @ x)) i = bit n i"
    by cases (use i in \<open>auto simp: from_bigendian_def to_bigendian_def m bit_simps\<close>)
qed

lemma message_to_header_inverse: "message_to_header (header_to_message c) = c"
proof -
  have d: "drop 4 (to_bigendian a @ x) = x" for a x by simp
  have "drop 8 x = drop 4 (drop 4 x)" for x :: bytes by simp
  then show ?thesis
    unfolding message_to_header_def header_to_message_def using from_to_bigendian [of _ "[]"]
    by (simp only: d from_to_bigendian append_Nil2) simp
qed

text \<open>A content with its length in front, and the reference decoder of a stream: the contents in it and
  the bytes left, \<open>None\<close> if the stream is refused.\<close>

definition hpackage :: "bytes \<Rightarrow> bytes" where
  "hpackage c = to_bigendian (of_nat (length c)) @ c"

definition hlength :: "bytes \<Rightarrow> nat" where
  "hlength b = unat (b ! 1) * 65536 + unat (b ! 2) * 256 + unat (b ! 3)"

function hparse :: "bytes \<Rightarrow> bytes list \<times> bytes option" where
  "hparse b =
     (if length b < 4 then ([], Some b)
      else if b ! 0 \<noteq> 0 then ([], None)
      else if length b < 4 + hlength b then ([], Some b)
      else let (cs, r) = hparse (drop (4 + hlength b) b) in (take (hlength b) (drop 4 b) # cs, r))"
  by pat_completeness auto

termination by (relation "measure length") auto

declare hparse.simps [simp del]

lemma hlength_append: "4 \<le> length b \<Longrightarrow> hlength (b @ x) = hlength b"
  by (simp add: hlength_def nth_append)

lemma hparse_append:
  "hparse (a @ b) = (case hparse a of
     (cs, None) \<Rightarrow> (cs, None)
   | (cs, Some r) \<Rightarrow> (case hparse (r @ b) of (ds, s) \<Rightarrow> (cs @ ds, s)))"
proof (induction a rule: hparse.induct)
  case (1 a)
  consider "length a < 4 \<or> (a ! 0 = 0 \<and> length a < 4 + hlength a)" | "4 \<le> length a" "a ! 0 \<noteq> 0"
    | "4 \<le> length a" "a ! 0 = 0" "4 + hlength a \<le> length a" by linarith
  then show ?case
  proof cases
    case 1
    then have "hparse a = ([], Some a)" by (auto simp: hparse.simps [of a])
    then show ?thesis by (simp split: prod.splits)
  next
    case 2
    then have "a \<noteq> []" by auto
    with 2 show ?thesis by (simp add: hparse.simps [of a] hparse.simps [of "a @ b"] nth_append)
  next
    case 3
    then have "a \<noteq> []" by auto
    with 3 have "hparse (a @ b) = (let (cs, r) = hparse (drop (4 + hlength a) a @ b) in (take (hlength a) (drop 4 a) # cs, r))"
      by (simp add: hparse.simps [of "a @ b"] nth_append hlength_append)
    moreover have "hparse a = (let (cs, r) = hparse (drop (4 + hlength a) a) in (take (hlength a) (drop 4 a) # cs, r))"
      using 3 by (simp add: hparse.simps [of a])
    ultimately show ?thesis using "1.IH" 3 by (simp split: prod.splits option.splits)
  qed
qed

lemma length_field:
  assumes "n < 2 ^ 24"
  shows "to_bigendian (of_nat n) ! 0 = 0" "hlength (to_bigendian (of_nat n) @ x) = n"
proof -
  have e: "to_bigendian (of_nat n) ! (3 - k) = (of_nat (n div 256 ^ k) :: u8)" if "k < 4" for k
  proof -
    have "k = 0 \<or> k = 1 \<or> k = 2 \<or> k = 3" using that by auto
    then show ?thesis using byte_of_count [OF that, of n] by (elim disjE) (simp_all add: to_bigendian_def)
  qed
  show "to_bigendian (of_nat n) ! 0 = 0"
    using e [of 3] assms by simp
  have "n div 65536 mod 256 = n div 65536" using assms by (simp add: less_mult_imp_div_less)
  moreover have "n = n div 65536 * 65536 + n div 256 mod 256 * 256 + n mod 256"
    using div_mult_mod_eq [of n 256] div_mult_mod_eq [of "n div 256" 256] div_mult2_eq [of n 256 256, simplified] by linarith
  ultimately show "hlength (to_bigendian (of_nat n) @ x) = n"
    using e [of 2] e [of 1] e [of 0] by (simp add: hlength_def nth_append unsigned_of_nat take_bit_eq_mod)
qed


section \<open>The stream of a connection\<close>

text \<open>The bytes of the stream that a connection holds.\<close>

definition slave_raw :: "slave \<Rightarrow> bytes" where
  "slave_raw s = (if sl_status s = STATUS_CONTENT then sl_size s @ take (sl_read s) (sl_recv s) else take (sl_read s) (sl_size s))"

definition receiving :: "slave \<Rightarrow> bool" where
  "receiving s \<longleftrightarrow> sl_fd s \<noteq> 0 \<and> length (sl_size s) = 4 \<and>
     (sl_status s = STATUS_HEADER \<and> sl_read s < 4 \<or>
      sl_status s = STATUS_CONTENT \<and> sl_size s ! 0 = 0 \<and> sl_length s = hlength (sl_size s) \<and>
        sl_read s \<le> length (sl_recv s) \<and> (sl_read s < sl_length s \<or> sl_read s = 0))"

lemma forward_frame:
  assumes "forward_local_messsage sv c (h, k) = Inr (h', k')"
  shows "h' = h" "hb_id g = hb_id h \<Longrightarrow> hb_ctx g = hb_ctx h \<Longrightarrow> forward_local_messsage sv c (g, k) = Inr (g, k')"
  using assms
  by (auto simp: forward_local_messsage_def hb_send_def hb_error_def Let_def res_splits split: if_splits prod.splits)

fun deliver_all :: "services \<Rightarrow> bytes list \<Rightarrow> harbor_state \<Rightarrow> harbor_state res" where
  "deliver_all sv [] st = Inr st"
| "deliver_all sv (c # cs) st = res_bind (forward_local_messsage sv c st) (deliver_all sv cs)"

lemma upd_slave_simps [simp]:
  "length (hb_s (upd_slave i f h)) = length (hb_s h)"
  "i < length (hb_s h) \<Longrightarrow> hb_s (upd_slave i f h) ! i = f (hb_s h ! i)"
  "j \<noteq> i \<Longrightarrow> hb_s (upd_slave i f h) ! j = hb_s h ! j"
  "hb_calls (upd_slave i f h) = hb_calls h" "hb_id (upd_slave i f h) = hb_id h" "hb_ctx (upd_slave i f h) = hb_ctx h"
  "hb_map (upd_slave i f h) = hb_map h" "hb_slave (upd_slave i f h) = hb_slave h"
  by (simp_all add: upd_slave_def)

lemma upd_slave_twice [simp]: "i < length (hb_s h) \<Longrightarrow> upd_slave i f (upd_slave i g h) = upd_slave i (\<lambda>s. f (g s)) h"
  by (simp add: upd_slave_def)

lemma upd_slave_id [simp]: "upd_slave i (\<lambda>s. s) h = h"
  by (simp add: upd_slave_def)

lemma deliver_all_frame:
  assumes "deliver_all sv cs (h, k) = Inr (h', k')"
  shows "h' = h" "hb_id g = hb_id h \<Longrightarrow> hb_ctx g = hb_ctx h \<Longrightarrow> deliver_all sv cs (g, k) = Inr (g, k')"
proof -
  have "h' = h \<and> (hb_id g = hb_id h \<longrightarrow> hb_ctx g = hb_ctx h \<longrightarrow> deliver_all sv cs (g, k) = Inr (g, k'))"
    using assms
  proof (induction cs arbitrary: k)
    case (Cons c cs)
    from Cons.prems obtain h1 k1 where 1: "forward_local_messsage sv c (h, k) = Inr (h1, k1)" "deliver_all sv cs (h1, k1) = Inr (h', k')"
      by (auto simp: res_splits)
    with forward_frame(1) [OF 1(1)] forward_frame(2) [OF 1(1), of g] Cons.IH show ?case by simp
  qed simp
  then show "h' = h" "hb_id g = hb_id h \<Longrightarrow> hb_ctx g = hb_ctx h \<Longrightarrow> deliver_all sv cs (g, k) = Inr (g, k')" by auto
qed

text \<open>What one connection becomes: the same service but for the connection's receive state.\<close>

definition moved_on :: "nat \<Rightarrow> bytes \<Rightarrow> harbor \<Rightarrow> harbor \<Rightarrow> bool" where
  "moved_on i r h h' \<longleftrightarrow> (\<exists>f. h' = upd_slave i f h) \<and> receiving (hb_s h' ! i) \<and> slave_raw (hb_s h' ! i) = r \<and>
     sl_fd (hb_s h' ! i) = sl_fd (hb_s h ! i) \<and> sl_queue (hb_s h' ! i) = sl_queue (hb_s h ! i)"

lemma moved_on_upd:
  assumes "i < length (hb_s h)" "receiving (f (hb_s h ! i))" "slave_raw (f (hb_s h ! i)) = r"
    "sl_fd (f (hb_s h ! i)) = sl_fd (hb_s h ! i)" "sl_queue (f (hb_s h ! i)) = sl_queue (hb_s h ! i)"
  shows "moved_on i r h (upd_slave i f h)"
  using assms by (auto simp: moved_on_def)

lemma moved_on_trans: "moved_on i r h h' \<Longrightarrow> moved_on i r' h' h'' \<Longrightarrow> i < length (hb_s h) \<Longrightarrow> moved_on i r' h h''"
  by (auto simp: moved_on_def)


text \<open>One step of the switch: it stores the bytes, or it delivers one content and goes on with the rest.\<close>

definition step_ok :: "services \<Rightarrow> nat \<Rightarrow> bytes list \<Rightarrow> bytes \<Rightarrow> harbor \<Rightarrow> kernel \<Rightarrow> kernel \<Rightarrow> data_step \<Rightarrow> bool" where
  "step_ok sv i cs r h k k' res \<longleftrightarrow>
     (cs = [] \<and> k' = k \<and> (\<exists>h'. res = Inr (False, [], h', k) \<and> moved_on i r h h')) \<or>
     (\<exists>c cs' b h' k1. cs = c # cs' \<and> res = Inr (b \<noteq> [], b, h', k1) \<and> moved_on i [] h h' \<and> hparse b = (cs', Some r) \<and>
        deliver_all sv cs' (h, k1) = Inr (h, k'))"

lemma step_ok_moved:
  assumes "moved_on i r0 h h1" "i < length (hb_s h)" "step_ok sv i cs r h1 k k' res"
  shows "step_ok sv i cs r h k k' res"
proof -
  obtain f where f: "h1 = upd_slave i f h" using assms(1) by (auto simp: moved_on_def)
  have dl: "deliver_all sv cs' (h1, k1) = Inr (h1, k') \<Longrightarrow> deliver_all sv cs' (h, k1) = Inr (h, k')" for cs' k1
    using deliver_all_frame(2) [of sv cs' h1 k1 h1 k' h] by (simp add: f)
  have mv: "moved_on i x h1 h' \<Longrightarrow> moved_on i x h h'" for x h' using moved_on_trans [OF assms(1) _ assms(2)] .
  consider (stored) h' where "cs = []" "k' = k" "res = Inr (False, [], h', k)" "moved_on i r h1 h'"
    | (forwarded) c cs' b h' k1 where "cs = c # cs'" "res = Inr (b \<noteq> [], b, h', k1)" "moved_on i [] h1 h'" "hparse b = (cs', Some r)"
        "deliver_all sv cs' (h1, k1) = Inr (h1, k')"
    using assms(3) unfolding step_ok_def by blast
  then show ?thesis
  proof cases
    case stored
    then show ?thesis using mv unfolding step_ok_def by blast
  next
    case forwarded
    then show ?thesis unfolding step_ok_def
      by (intro disjI2 exI [of _ c] exI [of _ cs'] exI [of _ b] exI [of _ h'] exI [of _ k1]) (simp add: mv dl)
  qed
qed

lemma hparse_short: "hparse b = (cs, Some r) \<Longrightarrow> length b < 4 \<or> length b < 4 + hlength b \<Longrightarrow> cs = [] \<and> r = b"
  by (simp add: hparse.simps [of b] split: if_splits)

lemma hparse_full:
  assumes "hparse b = (cs, Some r)" "4 + hlength b \<le> length b"
  shows "b ! 0 = 0" "\<exists>cs'. cs = take (hlength b) (drop 4 b) # cs' \<and> hparse (drop (4 + hlength b) b) = (cs', Some r)"
  using assms by (simp_all add: hparse.simps [of b] split: if_splits prod.splits)

lemma content_step_ok:
  assumes i: "i < length (hb_s h)" and s: "receiving (hb_s h ! i)" "sl_status (hb_s h ! i) = STATUS_CONTENT"
    and p: "hparse (slave_raw (hb_s h ! i) @ b) = (cs, Some r)" and d: "deliver_all sv cs (h, k) = Inr (h, k')"
  shows "step_ok sv i cs r h k k' (content_step sv i b (h, k))"
proof -
  let ?s = "hb_s h ! i" and ?need = "sl_length (hb_s h ! i) - sl_read (hb_s h ! i)"
  let ?t = "slave_raw ?s @ b" and ?recv = "take (sl_read ?s) (sl_recv ?s)"
  have raw: "slave_raw ?s = sl_size ?s @ ?recv" and sz: "length (sl_size ?s) = 4" "sl_size ?s ! 0 = 0"
    and len: "sl_length ?s = hlength (sl_size ?s)" and rd: "sl_read ?s \<le> length (sl_recv ?s)" "sl_read ?s \<le> sl_length ?s" "sl_fd ?s \<noteq> 0"
    using s by (auto simp: slave_raw_def receiving_def)
  have ht: "hlength ?t = sl_length ?s" using sz len by (simp add: raw hlength_append)
  have lt: "length ?t = 4 + sl_read ?s + length b" using sz rd by (simp add: raw min_absorb2)
  show ?thesis
  proof (cases "length b < ?need")
    case True
    let ?f = "\<lambda>s. s\<lparr>sl_recv := take (sl_read s) (sl_recv s) @ b, sl_read := sl_read s + length b\<rparr>"
    have "moved_on i ?t h (upd_slave i ?f h)"
      using i sz len rd True s(2) by (intro moved_on_upd) (auto simp: receiving_def slave_raw_def raw)
    moreover have "cs = []" "r = ?t" using hparse_short [OF p] True ht lt by auto
    ultimately show ?thesis using True d by (simp add: step_ok_def content_step_def Let_def)
  next
    case False
    then have full: "4 + hlength ?t \<le> length ?t" using ht lt rd by simp
    have c: "take (hlength ?t) (drop 4 ?t) = ?recv @ take ?need b" "drop (4 + hlength ?t) ?t = drop ?need b"
      unfolding ht using sz rd by (simp_all add: raw min_absorb2)
    from hparse_full(2) [OF p full] obtain cs' where cs: "cs = (?recv @ take ?need b) # cs'" "hparse (drop ?need b) = (cs', Some r)"
      unfolding c by blast
    from d obtain k1 where k1: "forward_local_messsage sv (?recv @ take ?need b) (h, k) = Inr (h, k1)" "deliver_all sv cs' (h, k1) = Inr (h, k')"
      unfolding cs(1) by (auto simp: res_splits dest: forward_frame)
    let ?f = "\<lambda>s. s\<lparr>sl_length := 0, sl_read := 0, sl_recv := [], sl_status := STATUS_HEADER\<rparr>"
    have "moved_on i [] h (upd_slave i ?f h)"
      using i sz rd by (intro moved_on_upd) (auto simp: receiving_def slave_raw_def)
    with k1 cs False show ?thesis by (auto simp: step_ok_def content_step_def Let_def)
  qed
qed

lemma header_step_ok:
  assumes i: "i < length (hb_s h)" and s: "receiving (hb_s h ! i)" "sl_status (hb_s h ! i) = STATUS_HEADER"
    and p: "hparse (slave_raw (hb_s h ! i) @ b) = (cs, Some r)" and d: "deliver_all sv cs (h, k) = Inr (h, k')"
  shows "step_ok sv i cs r h k k' (header_step sv i b (h, k))"
proof -
  let ?s = "hb_s h ! i" and ?need = "4 - sl_read (hb_s h ! i)"
  let ?t = "slave_raw ?s @ b"
  have raw: "slave_raw ?s = take (sl_read ?s) (sl_size ?s)" and sz: "length (sl_size ?s) = 4" "sl_read ?s < 4" "sl_fd ?s \<noteq> 0"
    using s by (auto simp: slave_raw_def receiving_def)
  have lt: "length ?t = sl_read ?s + length b" using sz by (simp add: raw)
  show ?thesis
  proof (cases "length b < ?need")
    case True
    let ?f = "\<lambda>s. s\<lparr>sl_size := take (sl_read s) (sl_size s) @ b @ drop (sl_read s + length b) (sl_size s), sl_read := sl_read s + length b\<rparr>"
    have "moved_on i ?t h (upd_slave i ?f h)"
      using i sz s(2) True by (intro moved_on_upd) (auto simp: receiving_def slave_raw_def)
    moreover have "length ?t < 4" using True lt by simp
    then have "cs = []" "r = ?t" using hparse_short [OF p] by auto
    ultimately show ?thesis using True d by (simp add: step_ok_def header_step_def Let_def)
  next
    case False
    let ?sz = "slave_raw ?s @ take ?need b" and ?b = "drop ?need b"
    let ?f = "\<lambda>s. s\<lparr>sl_size := ?sz, sl_length := hlength ?sz, sl_read := 0, sl_recv := [], sl_status := STATUS_CONTENT\<rparr>"
    have l: "length ?sz = 4" using False sz by (simp add: raw)
    have t: "?t = ?sz @ ?b" by simp
    have 0: "?sz ! 0 = 0"
    proof (rule ccontr)
      assume "?sz ! 0 \<noteq> 0"
      then have "?t ! 0 \<noteq> 0" unfolding t nth_append using l by simp
      then show False using p l by (subst (asm) hparse.simps) (simp add: t del: append_assoc split: if_splits)
    qed
    have m: "moved_on i ?sz h (upd_slave i ?f h)"
      using i l 0 sz(3) by (intro moved_on_upd) (auto simp: receiving_def slave_raw_def)
    have e: "header_step sv i b (h, k) =
        (if ?b = [] then Inr (False, [], upd_slave i ?f h, k) else content_step sv i ?b (upd_slave i ?f h, k))"
      using False 0 i by (simp add: header_step_def Let_def hlength_def raw)
    show ?thesis
    proof (cases "?b = []")
      case True
      then have "?t = ?sz" by simp
      have "hlength ?sz \<noteq> 0"
      proof
        assume z: "hlength ?sz = 0"
        with p \<open>?t = ?sz\<close> l 0 obtain cs' where "cs = [] # cs'"
          using hparse_full(2) [of ?sz cs r] by auto
        with d show False by (simp add: forward_local_messsage_def HEADER_COOKIE_LENGTH_def)
      qed
      then have "length ?sz < 4 + hlength ?sz" using l by linarith
      then have "cs = []" "r = ?sz" using hparse_short [OF p [unfolded \<open>?t = ?sz\<close>]] by blast+
      moreover have "header_step sv i b (h, k) = Inr (False, [], upd_slave i ?f h, k)" unfolding e by (rule if_P [OF True])
      ultimately show ?thesis using m d by (auto simp: step_ok_def)
    next
      case False
      let ?h = "upd_slave i ?f h"
      have h: "i < length (hb_s ?h)" "receiving (hb_s ?h ! i)" "sl_status (hb_s ?h ! i) = STATUS_CONTENT" and rw: "slave_raw (hb_s ?h ! i) = ?sz"
        using m i by (simp_all add: moved_on_def)
      have "hparse (slave_raw (hb_s ?h ! i) @ ?b) = (cs, Some r)" unfolding rw using p unfolding t .
      from content_step_ok [OF h this deliver_all_frame(2) [OF d, of ?h]]
      have "step_ok sv i cs r h k k' (content_step sv i ?b (?h, k))" by (simp add: step_ok_moved [OF m i])
      then show ?thesis unfolding e if_not_P [OF False] .
    qed
  qed
qed


lemma data_step_ok:
  assumes "i < length (hb_s h)" "receiving (hb_s h ! i)" "hparse (slave_raw (hb_s h ! i) @ b) = (cs, Some r)"
    "deliver_all sv cs (h, k) = Inr (h, k')"
  shows "step_ok sv i cs r h k k' (data_step sv i b (h, k))"
proof -
  have "sl_status (hb_s h ! i) = STATUS_HEADER \<or> sl_status (hb_s h ! i) = STATUS_CONTENT"
    using assms(2) by (auto simp: receiving_def)
  then show ?thesis
    using header_step_ok [OF assms(1,2) _ assms(3,4)] content_step_ok [OF assms(1,2) _ assms(3,4)]
    by (auto simp: data_step_def)
qed

lemma data_loop_ok:
  assumes "i < length (hb_s h)" "receiving (hb_s h ! i)" "hparse (slave_raw (hb_s h ! i) @ b) = (cs, Some r)"
    "deliver_all sv cs (h, k) = Inr (h, k')"
  shows "\<exists>h'. data_loop sv i b (h, k) = Some (Inr (h', k')) \<and> moved_on i r h h'"
  using assms
proof (induction cs arbitrary: h k b)
  case Nil
  from data_step_ok [OF Nil] show ?case
    by (auto simp: step_ok_def data_loop.simps [of sv i b])
next
  case (Cons c cs)
  from data_step_ok [OF Cons.prems] obtain b' h1 k1 where
    1: "data_step sv i b (h, k) = Inr (b' \<noteq> [], b', h1, k1)" "moved_on i [] h h1" "hparse b' = (cs, Some r)"
      "deliver_all sv cs (h, k1) = Inr (h, k')"
    by (auto simp: step_ok_def)
  from 1(2) obtain f where f: "h1 = upd_slave i f h" "receiving (hb_s h1 ! i)" "slave_raw (hb_s h1 ! i) = []"
    by (auto simp: moved_on_def)
  have d: "deliver_all sv cs (h1, k1) = Inr (h1, k')"
    by (rule deliver_all_frame(2) [OF 1(4)]) (simp_all add: f(1))
  show ?case
  proof (cases "b' = []")
    case True
    then have "cs = []" "r = []" using 1(3) by (simp_all add: hparse.simps [of "[]"])
    with 1 True show ?thesis by (auto simp: data_loop.simps [of sv i b])
  next
    case False
    obtain h' where "data_loop sv i b' (h1, k1) = Some (Inr (h', k'))" "moved_on i r h1 h'"
      using Cons.IH [OF _ f(2) _ d, of b'] 1(3) f(1,3) Cons.prems(1) by auto
    moreover have "data_loop sv i b (h, k) = data_loop sv i b' (h1, k1)"
      using 1(1) False by (simp add: data_loop.simps [of sv i b])
    ultimately show ?thesis using moved_on_trans [OF 1(2) _ Cons.prems(1)] by auto
  qed
qed


text \<open>The blocks of a connection, one message of the socket layer each.\<close>

fun feed_harbor :: "services \<Rightarrow> int \<Rightarrow> bytes list \<Rightarrow> harbor_state \<Rightarrow> harbor_state run" where
  "feed_harbor sv fd [] st = Some (Inr st)"
| "feed_harbor sv fd (b # bs) st =
     run_bind (mainloop sv PTYPE_SOCKET 0 0 (Socket_message SKYNET_SOCKET_TYPE_DATA fd (int (length b)) (Some b) []) 24 st)
       (\<lambda>(_, st). feed_harbor sv fd bs st)"

lemma harbor_id_in:
  assumes "harbor_id h fd = i" "i \<noteq> 0"
  shows "i < REMOTE_MAX" "sl_fd (hb_s h ! i) = fd"
proof -
  obtain t where "filter (\<lambda>i. sl_fd (hb_s h ! i) = fd) [1..<REMOTE_MAX] = i # t"
    using assms by (auto simp: harbor_id_def split: list.splits)
  then have "i \<in> set (filter (\<lambda>i. sl_fd (hb_s h ! i) = fd) [1..<REMOTE_MAX])" by simp
  then show "i < REMOTE_MAX" "sl_fd (hb_s h ! i) = fd" by auto
qed

lemma harbor_id_cong: "(\<And>j. sl_fd (hb_s g ! j) = sl_fd (hb_s h ! j)) \<Longrightarrow> harbor_id g fd = harbor_id h fd"
  by (simp add: harbor_id_def)

lemma hb_emit_sel [simp]:
  "hb_s (hb_emit cs h) = hb_s h" "hb_id (hb_emit cs h) = hb_id h" "hb_ctx (hb_emit cs h) = hb_ctx h" "hb_map (hb_emit cs h) = hb_map h"
  "hb_slave (hb_emit cs h) = hb_slave h" "hb_calls (hb_emit cs h) = hb_calls h @ cs"
  by (simp_all add: hb_emit_def)

lemma deliver_all_append: "deliver_all sv (a @ b) st = res_bind (deliver_all sv a st) (deliver_all sv b)"
  by (induction a arbitrary: st) (simp_all add: res_bind_def split: sum.splits)

lemma receiving_rest:
  assumes "receiving s" "hparse (slave_raw s) = (cs, Some r)" "deliver_all sv cs st = Inr st'"
  shows "cs = [] \<and> r = slave_raw s"
proof (cases "sl_status s = STATUS_CONTENT \<and> sl_length s = 0")
  case True
  with assms(1) have "slave_raw s = sl_size s" "length (sl_size s) = 4" "hlength (sl_size s) = 0"
    by (auto simp: receiving_def slave_raw_def)
  with assms(2) obtain cs' where "cs = [] # cs'" using hparse_full(2) [of "slave_raw s" cs r] by auto
  with assms(3) show ?thesis by (simp add: forward_local_messsage_def HEADER_COOKIE_LENGTH_def)
next
  case False
  with assms(1) have "length (slave_raw s) < 4 \<or> length (slave_raw s) < 4 + hlength (slave_raw s)"
    by (auto simp: receiving_def slave_raw_def hlength_append)
  with assms(2) show ?thesis by (rule hparse_short)
qed

lemma feed_harbor_parse:
  assumes "length (hb_s h) = REMOTE_MAX" "harbor_id h fd = i" "i \<noteq> 0" "receiving (hb_s h ! i)"
    "hparse (slave_raw (hb_s h ! i) @ concat bs) = (cs, Some r)" "deliver_all sv cs (h, k) = Inr (h, k')"
  shows "\<exists>h'. feed_harbor sv fd bs (h, k) = Some (Inr (h', k')) \<and> receiving (hb_s h' ! i) \<and> slave_raw (hb_s h' ! i) = r \<and>
     (\<forall>j. j \<noteq> i \<longrightarrow> hb_s h' ! j = hb_s h ! j) \<and> hb_map h' = hb_map h \<and> harbor_id h' = harbor_id h \<and>
     hb_calls h' = hb_calls h @ map (\<lambda>b. Free_buffer (Some (Block b))) bs"
  using assms
proof (induction bs arbitrary: h k cs)
  case Nil
  then have "cs = []" "r = slave_raw (hb_s h ! i)" using receiving_rest by auto
  with Nil show ?case by auto
next
  case (Cons b bs)
  obtain cs1 r1 where p1: "hparse (slave_raw (hb_s h ! i) @ b) = (cs1, Some r1)"
    and p2: "\<exists>cs2. cs = cs1 @ cs2 \<and> hparse (r1 @ concat bs) = (cs2, Some r)"
    using Cons.prems(5) hparse_append [of "slave_raw (hb_s h ! i) @ b" "concat bs"]
    by (cases "hparse (slave_raw (hb_s h ! i) @ b)") (auto split: option.splits prod.splits)
  then obtain cs2 where cs: "cs = cs1 @ cs2" "hparse (r1 @ concat bs) = (cs2, Some r)" by blast
  obtain k1 where k1: "deliver_all sv cs1 (h, k) = Inr (h, k1)" "deliver_all sv cs2 (h, k1) = Inr (h, k')"
    using Cons.prems(6) deliver_all_frame(1) unfolding cs(1) deliver_all_append by (fastforce simp: res_splits)
  have i: "i < length (hb_s h)" using harbor_id_in(1) [OF Cons.prems(2,3)] Cons.prems(1) by simp
  obtain g where g: "data_loop sv i b (h, k) = Some (Inr (g, k1))" "moved_on i r1 h g"
    using data_loop_ok [OF i Cons.prems(4) p1 k1(1)] by blast
  let ?g = "hb_emit [Free_buffer (Some (Block b))] g"
  from g(2) i have m: "length (hb_s ?g) = REMOTE_MAX" "receiving (hb_s ?g ! i)" "slave_raw (hb_s ?g ! i) = r1" "hb_id ?g = hb_id h"
    "hb_ctx ?g = hb_ctx h" "hb_map ?g = hb_map h" "\<And>j. j \<noteq> i \<Longrightarrow> hb_s ?g ! j = hb_s h ! j" "\<And>j. sl_fd (hb_s ?g ! j) = sl_fd (hb_s h ! j)"
    "hb_calls ?g = hb_calls h @ [Free_buffer (Some (Block b))]"
    using Cons.prems(1) by (auto simp: moved_on_def upd_slave_def nth_list_update)
  have id: "harbor_id ?g = harbor_id h" by (rule ext, rule harbor_id_cong) (rule m(8))
  have step: "mainloop sv PTYPE_SOCKET 0 0 (Socket_message SKYNET_SOCKET_TYPE_DATA fd (int (length b)) (Some b) []) 24 (h, k) = Some (Inr (0, ?g, k1))"
    using g(1) Cons.prems(2,3) by (simp add: mainloop_def harbor_socket_def push_socket_data_def Let_def)
  have "deliver_all sv cs2 (?g, k1) = Inr (?g, k')" by (rule deliver_all_frame(2) [OF k1(2) m(4,5)])
  from Cons.IH [OF m(1) _ Cons.prems(3) m(2) _ this] id Cons.prems(2) cs(2) m(3) obtain h' where
    "feed_harbor sv fd bs (?g, k1) = Some (Inr (h', k'))" "receiving (hb_s h' ! i)" "slave_raw (hb_s h' ! i) = r"
    "\<forall>j. j \<noteq> i \<longrightarrow> hb_s h' ! j = hb_s ?g ! j" "hb_map h' = hb_map ?g" "harbor_id h' = harbor_id ?g"
    "hb_calls h' = hb_calls ?g @ map (\<lambda>b. Free_buffer (Some (Block b))) bs" by auto
  with step id m(6,7,9) show ?case by auto
qed


text \<open>
  C25: the stream of a connection. However the bytes that follow on a connected socket are cut into blocks, the
  callback returns on each block, hands exactly the contents that a parser of the whole stream finds to
  the local services, in order, keeps the bytes of the unfinished content, frees each block once, and
  leaves the other connections and the names alone.
\<close>

theorem harbor_stream:
  assumes "length (hb_s h) = REMOTE_MAX" "harbor_id h fd = i" "i \<noteq> 0" "receiving (hb_s h ! i)"
    "hparse (slave_raw (hb_s h ! i) @ concat bs) = (cs, Some r)" "deliver_all sv cs (h, k) = Inr (h, k')"
  shows "\<exists>h'. feed_harbor sv fd bs (h, k) = Some (Inr (h', k')) \<and> receiving (hb_s h' ! i) \<and> slave_raw (hb_s h' ! i) = r \<and>
     (\<forall>j. j \<noteq> i \<longrightarrow> hb_s h' ! j = hb_s h ! j) \<and> hb_map h' = hb_map h \<and>
     hb_calls h' = hb_calls h @ map (\<lambda>b. Free_buffer (Some (Block b))) bs"
  using feed_harbor_parse [OF assms] by blast

section \<open>From node to node\<close>

lemma dontcopy_bits:
  assumes "0 \<le> t" "t < 256"
  shows "(t OR PTYPE_TAG_DONTCOPY) AND PTYPE_TAG_DONTCOPY \<noteq> 0" "(t OR PTYPE_TAG_DONTCOPY) AND PTYPE_TAG_ALLOCSESSION = 0"
    "(t OR PTYPE_TAG_DONTCOPY) AND 0xff = t"
proof -
  have d: "(a OR b) AND c = (a AND c) OR (b AND c)" for a b c :: int by (rule bit.conj_disj_distrib2)
  show "(t OR PTYPE_TAG_DONTCOPY) AND PTYPE_TAG_DONTCOPY \<noteq> 0" "(t OR PTYPE_TAG_DONTCOPY) AND PTYPE_TAG_ALLOCSESSION = 0"
    "(t OR PTYPE_TAG_DONTCOPY) AND 0xff = t"
    unfolding d using type_bits [OF assms] by (simp_all add: PTYPE_TAG_DONTCOPY_def PTYPE_TAG_ALLOCSESSION_def)
qed

lemma send_dontcopy:
  assumes "kinv k" "source \<noteq> 0" "dest \<noteq> 0" "k_harbor k \<noteq> NOT 0" "dest AND NOT HANDLE_MASK \<in> {0, k_harbor k}"
    "0 \<le> type" "type < 256" "n < 2 ^ 56" "inbox k dest = Some ms"
  shows "\<exists>k' m. skynet_send sv ctx source dest (type OR PTYPE_TAG_DONTCOPY) session data (of_nat n) k = Inr (session, k') \<and>
     kinv k' \<and> inbox k' = (inbox k)(dest \<mapsto> ms @ [m]) \<and> msg_source m = source \<and> msg_session m = of_int session \<and>
     msg_data m = data \<and> uint (drop_bit MESSAGE_TYPE_SHIFT (msg_sz m)) = type \<and> msg_sz m AND MESSAGE_TYPE_MASK = of_nat n"
proof -
  let ?m = "\<lparr>msg_source = source, msg_session = of_int session, msg_data = data,
     msg_sz = of_nat n OR push_bit MESSAGE_TYPE_SHIFT (of_int type)\<rparr>"
  note rt = type_size_roundtrip [OF assms(6-8)]
  have "filter_args ctx (type OR PTYPE_TAG_DONTCOPY) session data (of_nat n) k =
      Inr (session, data, of_nat n OR push_bit MESSAGE_TYPE_SHIFT (of_int type), k)"
    using dontcopy_bits [OF assms(6,7)] by (simp add: filter_args_def split: option.splits)
  moreover have "skynet_harbor_message_isremote dest k = Inr False"
    using assms(4,5) by (auto simp: skynet_harbor_message_isremote_def)
  ultimately have e: "skynet_send sv ctx source dest (type OR PTYPE_TAG_DONTCOPY) session data (of_nat n) k =
      res_bind (skynet_context_push sv dest ?m k) (\<lambda>(r, k). if r \<noteq> 0 then Inr (-1, k) else Inr (session, k))"
    using assms(2,3) rt(3) by (simp add: skynet_send_def source_handle_def)
  from push_spec [OF assms(1), where h = dest and sv = sv and m = ?m] assms(9) obtain h' where
    h': "skynet_context_push sv dest ?m k = Inr (0, k\<lparr>k_mqs := h'\<rparr>)" "kinv (k\<lparr>k_mqs := h'\<rparr>)"
    "inbox (k\<lparr>k_mqs := h'\<rparr>) = (inbox k)(dest \<mapsto> ms @ [?m])" by auto
  with rt(1,2) show ?thesis unfolding e by (intro exI [of _ "k\<lparr>k_mqs := h'\<rparr>"] exI [of _ ?m]) simp
qed

lemma remote_header_fields:
  assumes "0 \<le> type" "type < 256"
  shows "uint (drop_bit HANDLE_REMOTE_SHIFT (rh_destination (remote_header source dest type session))) = type"
    "rh_destination (remote_header source dest type session) AND HANDLE_MASK = dest AND HANDLE_MASK"
proof -
  have m: "HANDLE_MASK = Bit_Operations.mask 24" by (simp add: HANDLE_MASK_def mask_eq_exp_minus_1)
  have "drop_bit HANDLE_REMOTE_SHIFT (rh_destination (remote_header source dest type session)) = take_bit 8 (of_int type)"
    by (rule bit_word_eqI) (auto simp: remote_header_def HANDLE_REMOTE_SHIFT_def m bit_simps)
  then show "uint (drop_bit HANDLE_REMOTE_SHIFT (rh_destination (remote_header source dest type session))) = type"
    using assms by (simp add: unsigned_take_bit_eq unsigned_of_int take_bit_int_eq_self)
  show "rh_destination (remote_header source dest type session) AND HANDLE_MASK = dest AND HANDLE_MASK"
    by (rule bit_word_eqI) (auto simp: remote_header_def HANDLE_REMOTE_SHIFT_def m bit_simps)
qed

lemma handle_parts:
  "(dest AND HANDLE_MASK) OR push_bit HANDLE_REMOTE_SHIFT (of_nat (handle_harbor dest)) = dest"
  "dest AND NOT HANDLE_MASK = push_bit HANDLE_REMOTE_SHIFT (of_nat (handle_harbor dest))"
proof -
  have m: "HANDLE_MASK = Bit_Operations.mask 24" by (simp add: HANDLE_MASK_def mask_eq_exp_minus_1)
  have h: "of_nat (handle_harbor dest) = drop_bit 24 dest" by (simp add: handle_harbor_def HANDLE_REMOTE_SHIFT_def)
  show "(dest AND HANDLE_MASK) OR push_bit HANDLE_REMOTE_SHIFT (of_nat (handle_harbor dest)) = dest"
    "dest AND NOT HANDLE_MASK = push_bit HANDLE_REMOTE_SHIFT (of_nat (handle_harbor dest))"
    unfolding h by (rule bit_word_eqI, use le_add_diff_inverse in \<open>fastforce simp: HANDLE_REMOTE_SHIFT_def m bit_simps\<close>)+
qed


lemma forward_delivers:
  assumes "kinv k" "source \<noteq> 0" "dest \<noteq> 0" "hb_id h = int (handle_harbor dest)"
    "k_harbor k = push_bit HANDLE_REMOTE_SHIFT (of_nat (handle_harbor dest))" "inbox k dest = Some ms"
    "0 \<le> type" "type < 256" "0 \<le> session" "session < 2 ^ 31" "length body < 2 ^ 24"
  shows "\<exists>k' m. forward_local_messsage sv (body @ header_to_message (remote_header source dest type session)) (h, k) = Inr (h, k') \<and>
     kinv k' \<and> inbox k' = (inbox k)(dest \<mapsto> ms @ [m]) \<and> msg_source m = source \<and> msg_session m = of_int session \<and>
     msg_data m = Some (Block (body @ header_to_message (remote_header source dest type session))) \<and>
     uint (drop_bit MESSAGE_TYPE_SHIFT (msg_sz m)) = type \<and> msg_sz m AND MESSAGE_TYPE_MASK = of_nat (length body)"
proof -
  let ?c = "remote_header source dest type session"
  let ?msg = "body @ header_to_message ?c"
  have sz: "length ?msg - HEADER_COOKIE_LENGTH = length body" "drop (length body) ?msg = header_to_message ?c" "\<not> length ?msg < HEADER_COOKIE_LENGTH"
    by (simp_all add: HEADER_COOKIE_LENGTH_def)
  have ses: "sint (rh_session ?c) = session"
    using assms(9,10) by (simp add: remote_header_def signed_of_int signed_take_bit_int_eq_self)
  have hd: "rh_source ?c = source" "uint (drop_bit HANDLE_REMOTE_SHIFT (rh_destination ?c)) = type"
    "(rh_destination ?c AND HANDLE_MASK) OR push_bit HANDLE_REMOTE_SHIFT (of_int (hb_id h)) = dest"
    using remote_header_fields [OF assms(7,8)] handle_parts(1) [of dest] assms(4) by (simp_all add: remote_header_def)
  have "\<not> bit (k_harbor k) 0" unfolding assms(5) by (simp add: bit_simps HANDLE_REMOTE_SHIFT_def)
  then have hb: "k_harbor k \<noteq> NOT 0" by (auto simp: bit_simps)
  have ds: "dest AND NOT HANDLE_MASK \<in> {0, k_harbor k}" using handle_parts(2) [of dest] assms(5) by simp
  have n: "length body < 2 ^ 56" using assms(11) by simp
  obtain k' m where k': "skynet_send sv (Some (hb_ctx h)) source dest (type OR PTYPE_TAG_DONTCOPY) session (Some (Block ?msg)) (of_nat (length body)) k =
      Inr (session, k')" "kinv k'" "inbox k' = (inbox k)(dest \<mapsto> ms @ [m])" "msg_source m = source" "msg_session m = of_int session"
    "msg_data m = Some (Block ?msg)" "uint (drop_bit MESSAGE_TYPE_SHIFT (msg_sz m)) = type" "msg_sz m AND MESSAGE_TYPE_MASK = of_nat (length body)"
    using send_dontcopy [OF assms(1-3) hb ds assms(7,8) n assms(6)] by blast
  have "forward_local_messsage sv ?msg (h, k) = Inr (h, k')"
    unfolding forward_local_messsage_def Let_def sz message_to_header_inverse ses hd fst_conv if_not_P [OF sz(3)]
    using k'(1) assms(9) by (simp add: hb_send_def)
  with k' show ?thesis by blast
qed

lemma hparse_package: "length c < 2 ^ 24 \<Longrightarrow> hparse (hpackage c) = ([c], Some [])"
  using length_field(1) [of "length c"] length_field(2) [of "length c" c]
  by (simp add: hparse.simps [of "to_bigendian x @ c" for x] hpackage_def nth_append hparse.simps [of "[]"])



section \<open>Well-formed states\<close>

definition queue_wf :: "harbor_msg_queue option \<Rightarrow> bool" where
  "queue_wf qo \<longleftrightarrow> (case qo of None \<Rightarrow> True | Some q \<Rightarrow> hq_inv q)"

text \<open>
  A connection has a socket exactly when it is not waiting for one. It is down only with a socket, so the
  branches of \<open>remote_send_handle\<close> and \<open>dispatch_name_queue\<close> for a node that is down and has no
  socket are never taken.
\<close>

definition slave_wf :: "slave \<Rightarrow> bool" where
  "slave_wf s \<longleftrightarrow> length (sl_size s) = 4 \<and> queue_wf (sl_queue s) \<and> (sl_status s = STATUS_WAIT \<longleftrightarrow> sl_fd s = 0) \<and>
     (sl_status s = STATUS_WAIT \<or> sl_status s = STATUS_HANDSHAKE \<longrightarrow> sl_read s = 0) \<and>
     (sl_status s \<noteq> STATUS_WAIT \<and> sl_status s \<noteq> STATUS_HANDSHAKE \<longrightarrow> sl_queue s = None) \<and>
     (sl_status s = STATUS_HEADER \<or> sl_status s = STATUS_CONTENT \<longrightarrow> receiving s)"

definition node_wf :: "nat \<Rightarrow> keyvalue \<Rightarrow> bool" where
  "node_wf b n \<longleftrightarrow> queue_wf (kv_queue n) \<and> unat (name_hash (kv_key n)) mod HARBOR_HASH_SIZE = b \<and> kv_hash n = name_hash (kv_key n)"

definition harbor_wf :: "harbor \<Rightarrow> bool" where
  "harbor_wf h \<longleftrightarrow> length (hb_s h) = REMOTE_MAX \<and> (\<forall>s \<in> set (hb_s h). slave_wf s) \<and>
     length (hb_map h) = HARBOR_HASH_SIZE \<and> (\<forall>b < HARBOR_HASH_SIZE. \<forall>n \<in> set (hb_map h ! b). node_wf b n)"

definition same_core :: "harbor \<Rightarrow> harbor \<Rightarrow> bool" where
  "same_core h h' \<longleftrightarrow> hb_s h' = hb_s h \<and> hb_map h' = hb_map h \<and> hb_id h' = hb_id h \<and> hb_ctx h' = hb_ctx h \<and> hb_slave h' = hb_slave h"

lemma same_core_refl [simp]: "same_core h h" "same_core h (hb_emit cs h)"
  by (simp_all add: same_core_def)

lemma same_core_trans [trans]: "same_core h h1 \<Longrightarrow> same_core h1 h2 \<Longrightarrow> same_core h h2"
  by (simp add: same_core_def)

lemma same_core_wf: "same_core h h' \<Longrightarrow> harbor_wf h' = harbor_wf h"
  by (simp add: same_core_def harbor_wf_def)

lemma wf_emit [simp]: "harbor_wf (hb_emit cs h) = harbor_wf h"
  by (rule same_core_wf) simp

lemma wf_upd: "harbor_wf h \<Longrightarrow> slave_wf (f (hb_s h ! i)) \<Longrightarrow> harbor_wf (upd_slave i f h)"
  by (auto simp: harbor_wf_def upd_slave_def dest!: set_update_subset_insert [THEN subsetD])

lemma wf_slave: "harbor_wf h \<Longrightarrow> i < REMOTE_MAX \<Longrightarrow> slave_wf (hb_s h ! i)"
  by (auto simp: harbor_wf_def)

lemma handle_harbor_less: "handle_harbor x < REMOTE_MAX"
proof -
  have "unat (drop_bit 24 x) < 256" unfolding unat_drop using unat_u32_lt [of x] by (simp add: less_mult_imp_div_less)
  then show ?thesis by (simp add: handle_harbor_def HANDLE_REMOTE_SHIFT_def REMOTE_MAX_def)
qed

lemma hb_send_core: "hb_send sv a b c d e f (h, k) = Inr (r, h', k') \<Longrightarrow> h' = h"
  by (auto simp: hb_send_def res_splits)

lemma hb_error_core: "hb_error sv t (h, k) = Inr (h', k') \<Longrightarrow> h' = h"
  by (auto simp: hb_error_def res_splits)

lemma hb_send_text_core: "hb_send_text sv t (h, k) = Inr (h', k') \<Longrightarrow> h' = h"
  by (auto simp: hb_send_text_def res_splits dest: hb_send_core)

lemma send_remote_core: "send_remote sv fd b sz c (h, k) = Inr (h', k') \<Longrightarrow> same_core h h'"
  by (auto simp: send_remote_def Let_def res_splits split: if_splits dest: hb_error_core)

lemma send_all_core: "send_all sv fd f ms (h, k) = Inr (h', k') \<Longrightarrow> same_core h h'"
proof (induction ms arbitrary: h k)
  case (Cons m ms)
  then obtain h1 k1 where "send_remote sv fd (hm_buffer m) (hm_size m) (f (hm_header m)) (h, k) = Inr (h1, k1)"
    "send_all sv fd f ms (hb_emit [Free_buffer (hm_buffer m)] h1, k1) = Inr (h', k')" by (auto simp: res_splits)
  then have "same_core h h1" "same_core h1 (hb_emit [Free_buffer (hm_buffer m)] h1)" "same_core (hb_emit [Free_buffer (hm_buffer m)] h1) h'"
    using Cons.IH by (auto dest: send_remote_core)
  then show ?case by (meson same_core_trans)
qed simp

lemma send_local_core: "send_local sv a ms (h, k) = Inr (h', k') \<Longrightarrow> h' = h"
proof (induction ms arbitrary: h k)
  case (Cons m ms)
  then show ?case by (auto simp: Let_def res_splits dest: hb_send_core)
qed simp

text \<open>A result keeps the state well formed, whatever else it does.\<close>

definition keeps :: "harbor_state res \<Rightarrow> bool" where
  "keeps r \<longleftrightarrow> (\<forall>h k. r = Inr (h, k) \<longrightarrow> harbor_wf h)"

lemma keeps_error: "harbor_wf h \<Longrightarrow> keeps (hb_error sv t (h, k))"
  by (auto simp: keeps_def dest: hb_error_core)

lemma slave_wf_down: "slave_wf s \<Longrightarrow> sl_fd s \<noteq> 0 \<Longrightarrow> slave_wf (s\<lparr>sl_status := STATUS_DOWN, sl_queue := None\<rparr>)"
  by (simp add: slave_wf_def queue_wf_def)

lemma slave_no_queue: "sl_queue s = None \<Longrightarrow> s\<lparr>sl_queue := None\<rparr> = (s :: slave)"
  by (cases s) simp

lemma slave_down_no_queue: "sl_queue s = None \<Longrightarrow> s\<lparr>sl_status := x, sl_queue := None\<rparr> = (s :: slave)\<lparr>sl_status := x\<rparr>"
  by (cases s) simp

lemma close_harbor_wf:
  assumes "harbor_wf h" "i < REMOTE_MAX" "sl_fd (hb_s h ! i) \<noteq> 0"
  shows "harbor_wf (close_harbor i h)"
proof -
  have i: "i < length (hb_s h)" using assms by (simp add: harbor_wf_def)
  have "close_harbor i h = upd_slave i (\<lambda>s. s\<lparr>sl_status := STATUS_DOWN, sl_queue := None\<rparr>)
      (hb_emit (Socket_close (sl_fd (hb_s h ! i)) # release_queue (sl_queue (hb_s h ! i))) h)"
    using i assms(3) by (cases "sl_queue (hb_s h ! i)")
      (simp_all add: close_harbor_def Let_def upd_slave_def hb_emit_def release_queue_def slave_down_no_queue)
  then show ?thesis using assms by (simp add: wf_upd slave_wf_down wf_slave)
qed

lemma dispatch_queue_wf:
  assumes "harbor_wf (upd_slave i (\<lambda>s. s\<lparr>sl_queue := None\<rparr>) h)"
  shows "keeps (dispatch_queue sv i (h, k))"
proof (cases "sl_queue (hb_s h ! i)")
  case None
  then have "upd_slave i (\<lambda>s. s\<lparr>sl_queue := None\<rparr>) h = h" by (simp add: upd_slave_def slave_no_queue)
  with assms None show ?thesis by (auto simp: keeps_def dispatch_queue_def Let_def res_splits)
next
  case (Some q)
  have "harbor_wf (upd_slave i (\<lambda>s. s\<lparr>sl_queue := None\<rparr>) h')" if "same_core h h'" for h'
    using assms that by (simp add: harbor_wf_def upd_slave_def same_core_def)
  with Some show ?thesis by (auto simp: keeps_def dispatch_queue_def Let_def res_splits dest!: send_all_core)
qed

lemma dispatch_queue_core: "dispatch_queue sv i (h, k) = Inr (h', k') \<Longrightarrow> \<exists>f. same_core (upd_slave i f h) h' \<and> (\<forall>s. sl_status (f s) = sl_status s)"
proof -
  assume d: "dispatch_queue sv i (h, k) = Inr (h', k')"
  have c: "same_core (upd_slave i f h) (upd_slave i f h1)" if "same_core h h1" for f h1
    using that by (simp add: same_core_def upd_slave_def)
  show ?thesis
  proof (cases "sl_queue (hb_s h ! i)")
    case None
    with d show ?thesis by (intro exI [of _ "\<lambda>s. s"]) (auto simp: dispatch_queue_def Let_def res_splits)
  next
    case (Some q)
    with d show ?thesis
      by (intro exI [of _ "\<lambda>s. s\<lparr>sl_queue := None\<rparr>"]) (auto simp: dispatch_queue_def Let_def res_splits intro: c dest!: send_all_core)
  qed
qed

text \<open>A step of the switch that goes on has consumed bytes or left the content state.\<close>

definition stream_measure :: "nat \<Rightarrow> bytes \<Rightarrow> harbor \<Rightarrow> nat" where
  "stream_measure i b h = 2 * length b + (if sl_status (hb_s h ! i) = STATUS_CONTENT then 1 else 0)"

definition step_keeps :: "nat \<Rightarrow> nat \<Rightarrow> data_step \<Rightarrow> bool" where
  "step_keeps i n r \<longleftrightarrow> (\<forall>again b h k. r = Inr (again, b, h, k) \<longrightarrow> harbor_wf h \<and> (again \<longrightarrow> stream_measure i b h < n))"

lemma content_step_keeps:
  assumes "harbor_wf h" "i < REMOTE_MAX" "sl_status (hb_s h ! i) = STATUS_CONTENT"
  shows "step_keeps i (2 * length b + 1) (content_step sv i b (h, k))"
proof -
  let ?s = "hb_s h ! i"
  have s: "slave_wf ?s" "receiving ?s" and i: "i < length (hb_s h)"
    using wf_slave [OF assms(1,2)] assms by (auto simp: slave_wf_def harbor_wf_def)
  show ?thesis
  proof (cases "length b < sl_length ?s - sl_read ?s")
    case True
    have "slave_wf (?s\<lparr>sl_recv := take (sl_read ?s) (sl_recv ?s) @ b, sl_read := sl_read ?s + length b\<rparr>)"
      using s True assms(3) by (auto simp: slave_wf_def receiving_def)
    then show ?thesis using True assms(1) by (auto simp: step_keeps_def content_step_def Let_def intro: wf_upd)
  next
    case False
    have "slave_wf (?s\<lparr>sl_length := 0, sl_read := 0, sl_recv := [], sl_status := STATUS_HEADER\<rparr>)"
      using s assms(3) by (auto simp: slave_wf_def receiving_def)
    then show ?thesis using False assms(1) i
      by (auto simp: step_keeps_def content_step_def Let_def res_splits stream_measure_def intro!: wf_upd dest!: forward_frame(1))
  qed
qed

lemma header_step_keeps:
  assumes "harbor_wf h" "i < REMOTE_MAX" "sl_status (hb_s h ! i) = STATUS_HEADER"
  shows "step_keeps i (2 * length b) (header_step sv i b (h, k))"
proof -
  let ?s = "hb_s h ! i"
  have s: "slave_wf ?s" "receiving ?s" and i: "i < length (hb_s h)"
    using wf_slave [OF assms(1,2)] assms by (auto simp: slave_wf_def harbor_wf_def)
  then have r: "sl_read ?s < 4" "length (sl_size ?s) = 4" "sl_queue ?s = None" "sl_fd ?s \<noteq> 0"
    using assms(3) by (auto simp: receiving_def slave_wf_def)
  show ?thesis
  proof (cases "length b < 4 - sl_read ?s")
    case True
    have "slave_wf (?s\<lparr>sl_size := take (sl_read ?s) (sl_size ?s) @ b @ drop (sl_read ?s + length b) (sl_size ?s), sl_read := sl_read ?s + length b\<rparr>)"
      using s r True assms(3) by (auto simp: slave_wf_def receiving_def)
    then show ?thesis using True assms(1) by (auto simp: step_keeps_def header_step_def Let_def intro: wf_upd)
  next
    case False
    let ?sz = "take (sl_read ?s) (sl_size ?s) @ take (4 - sl_read ?s) b" and ?b = "drop (4 - sl_read ?s) b"
    let ?h = "upd_slave i (\<lambda>s. s\<lparr>sl_size := ?sz\<rparr>) h"
    let ?g = "upd_slave i (\<lambda>s. s\<lparr>sl_size := ?sz, sl_length := hlength ?sz, sl_read := 0, sl_recv := [], sl_status := STATUS_CONTENT\<rparr>) h"
    have l: "length ?sz = 4" using False r by simp
    have "slave_wf (?s\<lparr>sl_size := ?sz\<rparr>)" using s l assms(3) by (auto simp: slave_wf_def receiving_def)
    then have h: "harbor_wf ?h" "harbor_wf (close_harbor i ?h)"
      using assms(1,2) i r(4) by (auto intro!: wf_upd close_harbor_wf)
    have "slave_wf (?s\<lparr>sl_size := ?sz, sl_length := hlength ?sz, sl_read := 0, sl_recv := [], sl_status := STATUS_CONTENT\<rparr>)" if "?sz ! 0 = 0"
      using s r l that by (auto simp: slave_wf_def receiving_def queue_wf_def)
    then have g: "harbor_wf ?g" if "?sz ! 0 = 0" using that assms(1) by (auto intro: wf_upd)
    have e: "header_step sv i b (h, k) =
        (if ?sz ! 0 \<noteq> 0 then res_bind (hb_error sv (''Message is too long from harbor '' @ fmt_d (int i)) (?h, k)) (\<lambda>(h, k). Inr (False, [], close_harbor i h, k))
         else if ?b = [] then Inr (False, [], ?g, k) else content_step sv i ?b (?g, k))"
      using False i by (simp add: header_step_def Let_def hlength_def)
    have "2 * length ?b + 1 \<le> 2 * length b" if "?b \<noteq> []" using that r(1) by auto
    moreover have "step_keeps i (2 * length ?b + 1) (content_step sv i ?b (?g, k))" if "?sz ! 0 = 0"
      using g [OF that] assms(2) i by (intro content_step_keeps) simp_all
    ultimately show ?thesis
      unfolding e using h g by (auto simp: step_keeps_def res_splits dest!: hb_error_core)
  qed
qed


lemma slave_wf_header:
  assumes "slave_wf s" "sl_fd s \<noteq> 0" "sl_read s = 0"
  shows "slave_wf (s\<lparr>sl_status := STATUS_HEADER, sl_queue := None\<rparr>)"
  using assms by (simp add: slave_wf_def queue_wf_def receiving_def)

lemma handshake_step_keeps:
  assumes "harbor_wf h" "i < REMOTE_MAX" "sl_status (hb_s h ! i) = STATUS_HANDSHAKE"
  shows "step_keeps i (2 * length b) (handshake_step sv i b (h, k))"
proof (cases b)
  case (Cons x b')
  let ?s = "hb_s h ! i" and ?h = "upd_slave i (\<lambda>s. s\<lparr>sl_status := STATUS_HEADER\<rparr>) h"
  have i: "i < length (hb_s h)" using assms by (simp add: harbor_wf_def)
  have s: "slave_wf ?s" "sl_fd ?s \<noteq> 0" "sl_read ?s = 0"
    using wf_slave [OF assms(1,2)] assms(3) by (auto simp: slave_wf_def)
  have "keeps (dispatch_queue sv i (?h, k))"
    using i wf_upd [OF assms(1), of "\<lambda>s. s\<lparr>sl_status := STATUS_HEADER, sl_queue := None\<rparr>" i] slave_wf_header [OF s]
    by (intro dispatch_queue_wf) simp
  moreover have "sl_status (hb_s h1 ! i) = STATUS_HEADER" if "dispatch_queue sv i (?h, k) = Inr (h1, k1)" for h1 k1
    using dispatch_queue_core [OF that] i by (auto simp: same_core_def)
  ultimately have d: "harbor_wf h1 \<and> sl_status (hb_s h1 ! i) = STATUS_HEADER" if "dispatch_queue sv i (?h, k) = Inr (h1, k1)" for h1 k1
    using that by (auto simp: keeps_def)
  have "step_keeps i (2 * length b) (header_step sv i b' (h1, k1))" if "dispatch_queue sv i (?h, k) = Inr (h1, k1)" for h1 k1
    using header_step_keeps [of h1 i b' sv k1] d [OF that] assms(2) Cons by (auto simp: step_keeps_def)
  with d close_harbor_wf [OF assms(1,2) s(2)] Cons show ?thesis
    by (fastforce simp: step_keeps_def handshake_step_def res_splits stream_measure_def split: if_splits dest: hb_error_core)
qed (simp add: step_keeps_def handshake_step_def)

lemma data_loop_keeps:
  assumes "harbor_wf h" "i < REMOTE_MAX"
  shows "\<exists>r. data_loop sv i b (h, k) = Some r \<and> keeps r"
  using assms
proof (induction "stream_measure i b h" arbitrary: b h k rule: less_induct)
  case less
  have "step_keeps i (stream_measure i b h) (data_step sv i b (h, k))"
    using header_step_keeps [OF less.prems, of b sv k] content_step_keeps [OF less.prems, of b sv k] handshake_step_keeps [OF less.prems, of b sv k] less.prems(1)
    by (cases "sl_status (hb_s h ! i)") (simp_all add: data_step_def stream_measure_def step_keeps_def)
  note keep = this
  show ?case
  proof (cases "data_step sv i b (h, k)")
    case (Inl e)
    then show ?thesis by (simp add: data_loop.simps [of sv i b] keeps_def)
  next
    case (Inr x)
    obtain again b' h' k' where x: "x = (again, b', h', k')" by (cases x)
    have w: "harbor_wf h'" "again \<Longrightarrow> stream_measure i b' h' < stream_measure i b h"
      using keep unfolding step_keeps_def Inr x by auto
    show ?thesis
    proof (cases again)
      case True
      with less.hyps [OF w(2) w(1) less.prems(2)] show ?thesis by (simp add: data_loop.simps [of sv i b] Inr x)
    next
      case False
      then show ?thesis using w(1) by (simp add: data_loop.simps [of sv i b] Inr x keeps_def)
    qed
  qed
qed


subsection \<open>Names\<close>

definition valid_ptr :: "nat \<times> nat \<Rightarrow> harbor \<Rightarrow> bool" where
  "valid_ptr p h \<longleftrightarrow> fst p < HARBOR_HASH_SIZE \<and> snd p < length (hb_map h ! fst p)"

lemma valid_ptr_upd [simp]:
  "valid_ptr p (upd_slave i f h) = valid_ptr p h" "valid_ptr p (hb_emit cs h) = valid_ptr p h"
  by (simp_all add: valid_ptr_def)

lemma valid_ptr_core: "same_core h h' \<Longrightarrow> valid_ptr p h' = valid_ptr p h"
  by (simp add: same_core_def valid_ptr_def)

lemma get_node_wf: "harbor_wf h \<Longrightarrow> valid_ptr p h \<Longrightarrow> node_wf (fst p) (get_node p h)"
  by (auto simp: harbor_wf_def valid_ptr_def get_node_def)

lemma upd_node_wf:
  assumes "harbor_wf h" "valid_ptr p h" "node_wf (fst p) (f (get_node p h))"
  shows "harbor_wf (upd_node p f h)" "valid_ptr p (upd_node p f h)"
proof -
  have l: "fst p < length (hb_map h)" using assms(1,2) by (simp add: harbor_wf_def valid_ptr_def)
  have "node_wf b n" if "b < HARBOR_HASH_SIZE" "n \<in> set (hb_map (upd_node p f h) ! b)" for b n
  proof (cases "b = fst p")
    case True
    then have "n \<in> insert (f (get_node p h)) (set (hb_map h ! fst p))"
      using that(2) l by (auto simp: upd_node_def dest!: set_update_subset_insert [THEN subsetD])
    with assms True that(1) show ?thesis by (auto simp: harbor_wf_def)
  next
    case False
    with that assms(1) show ?thesis by (auto simp: upd_node_def harbor_wf_def)
  qed
  with assms(1) show "harbor_wf (upd_node p f h)" by (auto simp: harbor_wf_def upd_node_def)
  show "valid_ptr p (upd_node p f h)" using assms(2) l by (simp add: valid_ptr_def upd_node_def)
qed

lemma node_wf_upd: "node_wf b n \<Longrightarrow> queue_wf qo \<Longrightarrow> node_wf b (n\<lparr>kv_queue := qo\<rparr>)" "node_wf b n \<Longrightarrow> node_wf b (n\<lparr>kv_value := v\<rparr>)"
  by (simp_all add: node_wf_def)

lemma upd_node_keeps:
  assumes "harbor_wf h" "valid_ptr p h"
  shows "queue_wf qo \<Longrightarrow> harbor_wf (upd_node p (\<lambda>n. n\<lparr>kv_queue := qo\<rparr>) h) \<and> valid_ptr p (upd_node p (\<lambda>n. n\<lparr>kv_queue := qo\<rparr>) h)"
    and "harbor_wf (upd_node p (\<lambda>n. n\<lparr>kv_value := v\<rparr>) h) \<and> valid_ptr p (upd_node p (\<lambda>n. n\<lparr>kv_value := v\<rparr>) h)"
  using upd_node_wf [OF assms, of "\<lambda>n. n\<lparr>kv_queue := qo\<rparr>"] upd_node_wf [OF assms, of "\<lambda>n. n\<lparr>kv_value := v\<rparr>"]
    node_wf_upd get_node_wf [OF assms] by blast+

lemma chain_search_less: "chain_search hv name ns = Some j \<Longrightarrow> j < length ns"
  by (induction ns arbitrary: j) (auto split: if_splits)

lemma search_or_insert_wf:
  assumes "harbor_wf h" "search_or_insert name h = (p, h')"
  shows "harbor_wf h'" "valid_ptr p h'" "hb_s h' = hb_s h"
proof -
  let ?b = "unat (name_hash name) mod HARBOR_HASH_SIZE"
  have b: "?b < HARBOR_HASH_SIZE" "length (hb_map h) = HARBOR_HASH_SIZE" using assms(1) by (simp_all add: HARBOR_HASH_SIZE_def harbor_wf_def)
  have "harbor_wf h' \<and> valid_ptr p h' \<and> hb_s h' = hb_s h"
  proof (cases "hash_search name h")
    case None
    let ?n = "\<lparr>kv_key = name, kv_hash = name_hash name, kv_value = 0, kv_queue = None\<rparr>"
    have h': "h' = h\<lparr>hb_map := (hb_map h)[?b := ?n # hb_map h ! ?b]\<rparr>" "p = (?b, 0)"
      using assms(2) None by (simp_all add: search_or_insert_def hash_insert_def Let_def)
    have "node_wf c n" if "c < HARBOR_HASH_SIZE" "n \<in> set (hb_map h' ! c)" for c n
      using that b assms(1) unfolding h' by (cases "c = ?b") (auto simp: harbor_wf_def node_wf_def queue_wf_def)
    then show ?thesis using assms(1) b h' by (auto simp: harbor_wf_def valid_ptr_def)
  next
    case (Some q)
    then have "h' = h" "p = q" using assms(2) by (simp_all add: search_or_insert_def)
    with Some assms(1) b show ?thesis
      by (auto simp: hash_search_def Let_def valid_ptr_def dest!: chain_search_less)
  qed
  then show "harbor_wf h'" "valid_ptr p h'" "hb_s h' = hb_s h" by auto
qed

lemma queue_for_slave_wf:
  assumes "harbor_wf h" "valid_ptr p h" "hq_inv q" "i < REMOTE_MAX" "sl_fd (hb_s h ! i) = 0"
  shows "harbor_wf (queue_for_slave p q i h)" "valid_ptr p (queue_for_slave p q i h)"
    "\<exists>sq. sl_queue (hb_s (queue_for_slave p q i h) ! i) = Some sq"
    "slave_wf ((hb_s (queue_for_slave p q i h) ! i)\<lparr>sl_queue := None\<rparr>)"
proof -
  let ?s = "hb_s h ! i"
  have i: "i < length (hb_s h)" using assms by (simp add: harbor_wf_def)
  have s: "slave_wf ?s" using wf_slave [OF assms(1,4)] .
  obtain qo q' where q: "queue_for_slave p q i h = upd_node p (\<lambda>n. n\<lparr>kv_queue := qo\<rparr>) (upd_slave i (\<lambda>s. s\<lparr>sl_queue := Some q'\<rparr>) h)"
      "queue_wf qo" "hq_inv q'"
  proof (cases "sl_queue ?s")
    case None
    with assms(3) that [of None q] show thesis by (simp add: queue_for_slave_def queue_wf_def)
  next
    case (Some sq)
    then have "hq_inv sq" using s by (simp add: slave_wf_def queue_wf_def)
    with Some that [of "Some (emptied q)" "fold push_queue_msg (pop_all q) sq"] emptied_queue [OF assms(3)] fold_push [of sq "pop_all q"]
    show thesis by (simp add: queue_for_slave_def queue_wf_def)
  qed
  let ?h = "upd_slave i (\<lambda>s. s\<lparr>sl_queue := Some q'\<rparr>) h"
  have h: "harbor_wf ?h" "valid_ptr p ?h"
    using s assms(1,2,5) q(3) by (auto intro!: wf_upd simp: slave_wf_def queue_wf_def receiving_def)
  have hs: "hb_s (queue_for_slave p q i h) = hb_s ?h" by (simp add: q(1) upd_node_def)
  show "harbor_wf (queue_for_slave p q i h)" "valid_ptr p (queue_for_slave p q i h)"
    unfolding q(1) using upd_node_keeps(1) [OF h q(2)] by auto
  show "\<exists>sq. sl_queue (hb_s (queue_for_slave p q i h) ! i) = Some sq" "slave_wf ((hb_s (queue_for_slave p q i h) ! i)\<lparr>sl_queue := None\<rparr>)"
    unfolding hs using i s assms(5) by (auto simp: slave_wf_def queue_wf_def receiving_def)
qed

lemma dispatch_name_queue_wf:
  assumes "harbor_wf h" "valid_ptr p h" "hq_inv q" "dispatch_name_queue sv p q (h, k) = Inr (h', k')"
  shows "harbor_wf h'" "valid_ptr p h'"
proof -
  let ?i = "handle_harbor (kv_value (get_node p h))" and ?handle = "kv_value (get_node p h)"
  let ?g = "queue_for_slave p q ?i h"
  note qs = queue_for_slave_wf [OF assms(1-3) handle_harbor_less]
  have "harbor_wf h' \<and> valid_ptr p h'"
  proof (cases "sl_fd (hb_s h ! ?i) = 0")
    case True
    show ?thesis
    proof (cases "sl_status (hb_s h ! ?i) = STATUS_DOWN")
      case True
      with \<open>sl_fd (hb_s h ! ?i) = 0\<close> assms show ?thesis by (auto simp: dispatch_name_queue_def Let_def dest!: hb_error_core)
    next
      case False
      have "harbor_wf (upd_slave ?i (\<lambda>s. s\<lparr>sl_queue := None\<rparr>) ?g)" using qs(1,4) [OF True] by (rule wf_upd)
      with True False qs(1-3) [OF True] assms(4) show ?thesis
        by (auto simp: dispatch_name_queue_def Let_def res_splits split: if_splits dest!: send_local_core)
    qed
  next
    case False
    let ?f = "\<lambda>hd. hd\<lparr>rh_destination := rh_destination hd OR (?handle AND HANDLE_MASK)\<rparr>"
    from False assms(4) obtain h1 where h1: "send_all sv (sl_fd (hb_s h ! ?i)) ?f (pop_all q) (h, k) = Inr (h1, k')"
      "h' = upd_node p (\<lambda>n. n\<lparr>kv_queue := Some (emptied q)\<rparr>) h1"
      by (auto simp: dispatch_name_queue_def Let_def res_splits)
    from send_all_core [OF h1(1)] assms(1,2) have w: "harbor_wf h1" "valid_ptr p h1" by (simp_all add: same_core_wf valid_ptr_core)
    have "queue_wf (Some (emptied q))" using emptied_queue [OF assms(3)] by (simp add: queue_wf_def)
    from upd_node_keeps(1) [OF w this] show ?thesis by (simp add: h1(2))
  qed
  then show "harbor_wf h'" "valid_ptr p h'" by auto
qed


lemma update_name_keeps:
  assumes "harbor_wf h"
  shows "keeps (update_name sv name handle (h, k))"
proof -
  obtain p h1 where s: "search_or_insert name h = (p, h1)" by (cases "search_or_insert name h")
  let ?h = "upd_node p (\<lambda>n. n\<lparr>kv_value := handle\<rparr>) h1"
  have w: "harbor_wf ?h" "valid_ptr p ?h"
    using upd_node_keeps(2) [OF search_or_insert_wf(1,2) [OF assms s]] by auto
  have "harbor_wf (upd_node p (\<lambda>n. n\<lparr>kv_queue := None\<rparr>) (hb_emit cs h'))"
    if "dispatch_name_queue sv p q (?h, k) = Inr (h', k')" "kv_queue (get_node p ?h) = Some q" for h' k' q cs
  proof -
    have "hq_inv q" using get_node_wf [OF w] that(2) by (simp add: node_wf_def queue_wf_def)
    from dispatch_name_queue_wf [OF w this that(1)] show ?thesis
      using upd_node_keeps(1) [of "hb_emit cs h'" p None] by (simp add: queue_wf_def)
  qed
  with w s show ?thesis by (auto simp: keeps_def update_name_def Let_def res_splits split: option.splits)
qed

lemma remote_send_handle_wf:
  assumes "harbor_wf h" "remote_send_handle sv source dest type session msg sz (h, k) = Inr (r, h', k')"
  shows "harbor_wf h'"
proof -
  let ?i = "handle_harbor dest"
  let ?s = "hb_s h ! ?i"
  have s: "slave_wf ?s" by (rule wf_slave [OF assms(1) handle_harbor_less])
  let ?q = "push_queue msg sz (remote_header source dest type session) (case sl_queue ?s of None \<Rightarrow> new_queue | Some q \<Rightarrow> q)"
  have "hq_inv (case sl_queue ?s of None \<Rightarrow> new_queue | Some q \<Rightarrow> q)"
    using s hq_inv_new(1) by (auto simp: slave_wf_def queue_wf_def split: option.splits)
  then have "hq_inv ?q" by (simp add: push_queue_def harbor_ring.invar_enq)
  then have "slave_wf (?s\<lparr>sl_queue := Some ?q\<rparr>)" if "sl_fd ?s = 0 \<or> sl_status ?s = STATUS_HANDSHAKE"
    using s that by (auto simp: slave_wf_def queue_wf_def receiving_def)
  then have "harbor_wf (upd_slave ?i (\<lambda>s. s\<lparr>sl_queue := Some ?q\<rparr>) h)" if "sl_fd ?s = 0 \<or> sl_status ?s = STATUS_HANDSHAKE"
    using that assms(1) by (auto intro: wf_upd)
  with assms show ?thesis
    by (auto simp: remote_send_handle_def Let_def res_splits same_core_wf split: if_splits
        dest!: hb_send_core hb_error_core send_remote_core)
qed

lemma remote_send_name_wf:
  assumes "harbor_wf h" "remote_send_name sv source name type session msg sz (h, k) = Inr (r, h', k')"
  shows "harbor_wf h'"
proof -
  obtain p h1 where s: "search_or_insert name h = (p, h1)" by (cases "search_or_insert name h")
  note w = search_or_insert_wf(1,2) [OF assms(1) s]
  let ?q = "push_queue msg sz (remote_header source 0 type session) (case kv_queue (get_node p h1) of None \<Rightarrow> new_queue | Some q \<Rightarrow> q)"
  have "hq_inv (case kv_queue (get_node p h1) of None \<Rightarrow> new_queue | Some q \<Rightarrow> q)"
    using get_node_wf [OF w] hq_inv_new(1) by (auto simp: node_wf_def queue_wf_def split: option.splits)
  then have "queue_wf (Some ?q)" by (simp add: queue_wf_def push_queue_def harbor_ring.invar_enq)
  from upd_node_keeps(1) [OF w this] assms(2) s remote_send_handle_wf [OF w(1)] show ?thesis
    by (auto simp: remote_send_name_def Let_def res_splits split: if_splits dest!: hb_send_text_core)
qed

lemma connect_harbor_keeps:
  assumes "harbor_wf h" "i < REMOTE_MAX" "fd \<noteq> 0"
  shows "keeps (connect_harbor sv waits fd i (h, k))"
proof (cases "sl_fd (hb_s h ! i) = 0")
  case True
  let ?s = "hb_s h ! i" and ?h = "handshake i (hb_emit [Socket_start fd] (upd_slave i (\<lambda>s. s\<lparr>sl_fd := fd\<rparr>) h))"
  have i: "i < length (hb_s h)" using assms by (simp add: harbor_wf_def)
  have s: "slave_wf ?s" "sl_status ?s = STATUS_WAIT" "sl_read ?s = 0"
    using wf_slave [OF assms(1,2)] True by (auto simp: slave_wf_def)
  have c: "harbor_wf (upd_slave i f ?h) = harbor_wf (upd_slave i (\<lambda>s. f (s\<lparr>sl_fd := fd\<rparr>)) h)" for f
    using i by (simp add: harbor_wf_def handshake_def hb_emit_def upd_slave_def)
  have "harbor_wf (upd_slave i (\<lambda>s. s\<lparr>sl_status := STATUS_HANDSHAKE\<rparr>) ?h)"
    unfolding c using s assms(1,3) by (intro wf_upd) (auto simp: slave_wf_def)
  moreover have "harbor_wf (upd_slave i (\<lambda>s. s\<lparr>sl_status := STATUS_HEADER, sl_queue := None\<rparr>) ?h)"
    unfolding c using s assms(1,3) by (intro wf_upd) (auto simp: slave_wf_def receiving_def queue_wf_def)
  then have "keeps (dispatch_queue sv i (upd_slave i (\<lambda>s. s\<lparr>sl_status := STATUS_HEADER\<rparr>) ?h, k))"
    using i by (intro dispatch_queue_wf) (simp add: handshake_def)
  ultimately show ?thesis using True by (simp add: connect_harbor_def Let_def keeps_def)
qed (simp add: connect_harbor_def keeps_error assms(1))

lemma harbor_command_keeps:
  assumes "harbor_wf h"
  shows "keeps (harbor_command sv msg sz source (h, k))"
proof (cases "bytes_string msg")
  case (Cons c t)
  have e: "keeps (res_bind r (\<lambda>x. hb_error sv (f x) (h, k)))" for r f
    using keeps_error [OF assms] by (cases r) (simp_all add: keeps_def)
  have n: "keeps (Inl x)" for x by (simp add: keeps_def)
  have conn: "keeps (connect_harbor sv w fd (nat i) (h, k))" if "fd \<noteq> 0" "\<not> i \<le> 0" "\<not> int REMOTE_MAX \<le> i" for w fd i
    using connect_harbor_keeps [OF assms, of "nat i"] that by auto
  have cond: "keeps (if b then x else y)" if "b \<Longrightarrow> keeps x" "\<not> b \<Longrightarrow> keeps y" for b x y using that by simp
  show ?thesis
    unfolding harbor_command_def Cons list.case Let_def case_prod_beta
    by (intro cond e n keeps_error [OF assms] update_name_keeps [OF assms] conn) auto
qed (simp add: harbor_command_def keeps_def)


lemma harbor_create_wf: "harbor_wf harbor_create"
  by (simp add: harbor_wf_def harbor_create_def slave_wf_def slave_zero_def hash_new_def queue_wf_def)

lemma harbor_socket_keeps:
  assumes "harbor_wf h"
  shows "\<exists>r. harbor_socket sv type t fd ud buffer (h, k) = Some r \<and> keeps r"
proof -
  have "\<exists>r. push_socket_data sv fd buffer (h, k) = Some r \<and> keeps r"
    using data_loop_keeps [OF assms harbor_id_in(1) [of h fd "harbor_id h fd"]] assms keeps_error
    by (auto simp: push_socket_data_def Let_def)
  then obtain r where r: "push_socket_data sv fd buffer (h, k) = Some r" "keeps r" by blast
  have "\<exists>r'. run_bind (Some r) (\<lambda>(h, k). Some (Inr (hb_emit cs h, k))) = Some r' \<and> keeps r'" for cs
    using r(2) by (cases r) (auto simp: keeps_def)
  moreover have "keeps (report_harbor_down sv i (h, k))" for i
    using assms by (auto simp: keeps_def report_harbor_down_def dest!: hb_send_text_core)
  moreover have "keeps (Inr (h, k))" using assms by (simp add: keeps_def)
  ultimately show ?thesis
    using keeps_error [OF assms] by (simp add: harbor_socket_def r(1) Let_def)
qed



text \<open>
  Messages that waited for a name lose the handle. When the name becomes known and its node is not connected
  yet, the messages move to the queue of the node with the destination they have, which is their type
  and handle 0; only the branch for a connected node adds the handle.
\<close>

lemma name_queue_keeps_handle_0:
  assumes "hq_inv q" "handle_harbor handle = i" "sl_fd (hb_s h ! i) = 0" "sl_status (hb_s h ! i) = STATUS_WAIT"
    "sl_queue (hb_s h ! i) = None" "i < length (hb_s h)" "i \<noteq> handle_harbor (hb_slave h)" "kv_value (get_node p h) = handle"
  shows "\<exists>h'. dispatch_name_queue sv p q (h, k) = Inr (h', k) \<and> sl_queue (hb_s h' ! i) = Some q"
  using assms by (simp add: dispatch_name_queue_def queue_for_slave_def Let_def upd_node_def)

lemma unknown_socket_frees_twice:
  assumes "harbor_id h fd = 0" "hb_error sv (''Invalid socket fd ('' @ fmt_d fd @ '') data'') (hb_emit [Free_buffer (Some (Block b))] h, k) = Inr (h', k')"
  shows "harbor_socket sv PTYPE_SOCKET SKYNET_SOCKET_TYPE_DATA fd ud (Some b) (h, k) =
     Some (Inr (hb_emit [Free_buffer (Some (Block b)), Free_buffer (Some (Block b))] h, k'))"
  using assms hb_error_core [OF assms(2)]
  by (simp add: harbor_socket_def push_socket_data_def Let_def hb_emit_def)

lemma short_package_overrun: "length msg < 12 \<Longrightarrow> forward_local_messsage sv msg st = Inl (Out_of_bounds ''forward_local_messsage'')"
  by (simp add: forward_local_messsage_def HEADER_COOKIE_LENGTH_def)

section \<open>Two nodes\<close>

definition demo_harbor :: "int \<Rightarrow> nat \<Rightarrow> int \<Rightarrow> harbor" where
  "demo_harbor self peer fd = upd_slave peer (\<lambda>s. s\<lparr>sl_fd := fd, sl_status := STATUS_HEADER\<rparr>) (harbor_create\<lparr>hb_id := self\<rparr>)"

lemma demo_harbor_facts:
  assumes "peer < REMOTE_MAX" "fd \<noteq> 0"
  shows "hb_id (demo_harbor self peer fd) = self" "length (hb_s (demo_harbor self peer fd)) = REMOTE_MAX"
    "sl_fd (hb_s (demo_harbor self peer fd) ! peer) = fd" "sl_status (hb_s (demo_harbor self peer fd) ! peer) = STATUS_HEADER"
    "receiving (hb_s (demo_harbor self peer fd) ! peer)" "slave_raw (hb_s (demo_harbor self peer fd) ! peer) = []"
  using assms by (simp_all add: demo_harbor_def harbor_create_def slave_zero_def receiving_def slave_raw_def)

lemma demo_harbor_id: "harbor_id (demo_harbor 1 2 9) 9 = 2"
proof -
  have "filter (\<lambda>i. sl_fd (hb_s (demo_harbor 1 2 9) ! i) = 9) [1..<REMOTE_MAX] = filter (\<lambda>i. i = 2) [1..<REMOTE_MAX]"
    by (rule filter_cong) (auto simp: demo_harbor_def upd_slave_def harbor_create_def slave_zero_def REMOTE_MAX_def nth_list_update)
  also have "\<dots> = [2]" unfolding REMOTE_MAX_def by code_simp
  finally show ?thesis by (simp add: harbor_id_def)
qed

theorem harbor_stream_witness:
  "\<exists>h'. feed_harbor demo_services 9 [[0, 0], [0, 20, 1]] (demo_harbor 1 2 9, boot_kernel) = Some (Inr (h', boot_kernel)) \<and>
     slave_raw (hb_s h' ! 2) = [0, 0, 0, 20, 1]"
proof -
  note f = demo_harbor_facts [of 2 9 1]
  have "hparse (slave_raw (hb_s (demo_harbor 1 2 9) ! 2) @ concat [[0, 0], [0, 20, 1]]) = ([], Some [0, 0, 0, 20, 1])"
    using f by (simp add: REMOTE_MAX_def hparse.simps [of "[0, 0, 0, 20, 1]"] hlength_def)
  from harbor_stream [OF f(2) demo_harbor_id _ f(5) this, of demo_services boot_kernel boot_kernel] show ?thesis
    by (auto simp: REMOTE_MAX_def)
qed


end
