(* ===== verification/Cluster.thy ===== *)
theory Cluster
  imports CryptProps CStrings
begin

text \<open>
  The packages of the cluster, \<open>lualib-src/lua-cluster.c\<close>: requests and responses between nodes, with
  long messages cut into parts of 32 kilobytes. A message is the bytes its pointer and size give; it is
  freed on every path, which is not recorded. A Lua error is the left value of a sum, a failing
  assertion a fault. The property: what the receiver unpacks and puts together is the message that was sent.
\<close>

definition MULTI_PART :: nat where "MULTI_PART = 0x8000"

text \<open>A Lua value in the place of an address; a string that is no valid address, or another type, is refused.\<close>

datatype cluster_addr = Addr_number int | Addr_string bytes | Addr_other

section \<open>Packing requests\<close>

definition fill_uint32 :: "u32 \<Rightarrow> bytes" where
  "fill_uint32 n = [ucast (n AND 0xff), ucast (drop_bit 8 n AND 0xff), ucast (drop_bit 16 n AND 0xff), ucast (drop_bit 24 n AND 0xff)]"

definition fill_header :: "nat \<Rightarrow> bytes res" where
  "fill_header sz = res_assert ''fill_header'' (sz < 0x10000) (Inr [of_nat (sz div 256), of_nat (sz mod 256)])"

text \<open>The package and the number of parts that follow, 0 for none.\<close>

definition packreq_number :: "int \<Rightarrow> u32 \<Rightarrow> bytes \<Rightarrow> bool \<Rightarrow> (bytes \<times> nat) res" where
  "packreq_number a session msg is_push =
     (let sz = length msg; addr = of_int a :: u32 in
      if sz < MULTI_PART then
        res_bind (fill_header (sz + 9)) (\<lambda>hd.
          Inr (hd @ [0] @ fill_uint32 addr @ fill_uint32 (if is_push then 0 else session) @ msg, 0))
      else
        let part = (sz - 1) div MULTI_PART + 1 in
        res_bind (fill_header 13) (\<lambda>hd.
          Inr (hd @ [if is_push then 0x41 else 1] @ fill_uint32 addr @ fill_uint32 session @ fill_uint32 (of_nat sz), part)))"

definition packreq_string :: "bytes option \<Rightarrow> u32 \<Rightarrow> bytes \<Rightarrow> bool \<Rightarrow> (bytes \<times> nat) lua_result res" where
  "packreq_string addr session msg is_push =
     (case addr of
        None \<Rightarrow> Inr (Inl ''name is too long (null)'')
      | Some name \<Rightarrow>
          let sz = length msg; namelen = length name in
          if namelen < 1 \<or> namelen > 255 then Inr (Inl (''name is too long '' @ bytes_string (takeWhile (\<lambda>c. c \<noteq> 0) name)))
          else if sz < MULTI_PART then
            res_bind (fill_header (sz + 6 + namelen)) (\<lambda>hd.
              Inr (Inr (hd @ [0x80, of_nat namelen] @ name @ fill_uint32 (if is_push then 0 else session) @ msg, 0)))
          else
            let part = (sz - 1) div MULTI_PART + 1 in
            res_bind (fill_header (10 + namelen)) (\<lambda>hd.
              Inr (Inr (hd @ [if is_push then 0xc1 else 0x81, of_nat namelen] @ name @ fill_uint32 session @ fill_uint32 (of_nat sz), part))))"

fun packreq_multi :: "nat \<Rightarrow> u32 \<Rightarrow> bytes \<Rightarrow> bytes list res" where
  "packreq_multi 0 session msg = Inr []"
| "packreq_multi (Suc n) session msg =
     (let last = \<not> length msg > MULTI_PART;
          s = (if last then length msg else MULTI_PART);
          ty = (if last then 3 else 2)
      in res_bind (fill_header (s + 5)) (\<lambda>hd.
         res_bind (packreq_multi n session (drop s msg)) (\<lambda>ps.
           Inr ((hd @ [ty] @ fill_uint32 session @ take s msg) # ps))))"

text \<open>
  The session is an int. The result: the first package, the next session and the parts, if there are any.
\<close>

definition packrequest :: "bool \<Rightarrow> cluster_addr \<Rightarrow> int \<Rightarrow> bytes option \<Rightarrow> (bytes \<times> int \<times> bytes list option) lua_result res" where
  "packrequest is_push addr session msgp =
     (case msgp of
        None \<Rightarrow> Inr (Inl ''Invalid request message'')
      | Some msg \<Rightarrow>
          if session \<le> 0 then Inr (Inl (''Invalid request session '' @ fmt_d session))
          else
            res_bind
              (case addr of
                 Addr_number a \<Rightarrow> res_bind (packreq_number a (of_int session) msg is_push) (\<lambda>x. Inr (Inr x))
               | Addr_string s \<Rightarrow> packreq_string (Some s) (of_int session) msg is_push
               | Addr_other \<Rightarrow> packreq_string None (of_int session) msg is_push) (\<lambda>r.
            case r of
              Inl e \<Rightarrow> Inr (Inl e)
            | Inr (p, multipak) \<Rightarrow>
                let nxt = sint (of_int session + 1 :: c_int);
                    nxt = (if nxt < 0 then 1 else nxt)
                in if multipak \<noteq> 0 then
                     res_bind (packreq_multi multipak (of_int session) msg) (\<lambda>ps. Inr (Inr (p, nxt, Some ps)))
                   else Inr (Inr (p, nxt, None))))"

definition lpackrequest :: "cluster_addr \<Rightarrow> int \<Rightarrow> bytes option \<Rightarrow> (bytes \<times> int \<times> bytes list option) lua_result res" where
  "lpackrequest = packrequest False"

definition lpackpush :: "cluster_addr \<Rightarrow> int \<Rightarrow> bytes option \<Rightarrow> (bytes \<times> int \<times> bytes list option) lua_result res" where
  "lpackpush = packrequest True"

section \<open>Unpacking requests\<close>

definition unpack_uint32 :: "bytes \<Rightarrow> u32" where
  "unpack_uint32 b = ucast (b ! 0) OR push_bit 8 (ucast (b ! 1)) OR push_bit 16 (ucast (b ! 2)) OR push_bit 24 (ucast (b ! 3))"

text \<open>
  The values returned to Lua: the address (\<open>None\<close> for false), the session, the message or the size of a long one,
  whether parts follow, and whether no response is wanted.
\<close>

datatype cluster_data = Data_string bytes | Data_size u32

record unpacked =
  up_addr :: "(u32 + bytes) option"
  up_session :: u32
  up_data :: cluster_data
  up_padding :: bool
  up_push :: bool

definition invalid_size :: "nat \<Rightarrow> unpacked lua_result" where
  "invalid_size sz = Inl (''Invalid cluster message (size='' @ fmt_d (int sz) @ '')'')"

definition unpackreq_number :: "bytes \<Rightarrow> unpacked lua_result" where
  "unpackreq_number buf =
     (if length buf < 9 then invalid_size (length buf)
      else
        let session = unpack_uint32 (drop 5 buf) in
        Inr \<lparr>up_addr = Some (Inl (unpack_uint32 (drop 1 buf))), up_session = session, up_data = Data_string (drop 9 buf),
             up_padding = False, up_push = (session = 0)\<rparr>)"

definition unpackmreq_number :: "bytes \<Rightarrow> bool \<Rightarrow> unpacked lua_result" where
  "unpackmreq_number buf is_push =
     (if length buf \<noteq> 13 then Inl (''Invalid cluster message size '' @ fmt_d (int (length buf)) @ '' (multi req must be 13)'')
      else Inr \<lparr>up_addr = Some (Inl (unpack_uint32 (drop 1 buf))), up_session = unpack_uint32 (drop 5 buf),
                up_data = Data_size (unpack_uint32 (drop 9 buf)), up_padding = True, up_push = is_push\<rparr>)"

definition unpackmreq_part :: "bytes \<Rightarrow> unpacked lua_result" where
  "unpackmreq_part buf =
     (if length buf < 5 then Inl ''Invalid cluster multi part message''
      else Inr \<lparr>up_addr = None, up_session = unpack_uint32 (drop 1 buf), up_data = Data_string (drop 5 buf),
                up_padding = (buf ! 0 = 2), up_push = False\<rparr>)"

definition unpackreq_string :: "bytes \<Rightarrow> unpacked lua_result" where
  "unpackreq_string buf =
     (if length buf < 2 then invalid_size (length buf)
      else
        let namesz = unat (buf ! 1) in
        if length buf < namesz + 6 then invalid_size (length buf)
        else
          let session = unpack_uint32 (drop (namesz + 2) buf) in
          Inr \<lparr>up_addr = Some (Inr (take namesz (drop 2 buf))), up_session = session, up_data = Data_string (drop (2 + namesz + 4) buf),
               up_padding = False, up_push = (session = 0)\<rparr>)"

definition unpackmreq_string :: "bytes \<Rightarrow> bool \<Rightarrow> unpacked lua_result" where
  "unpackmreq_string buf is_push =
     (if length buf < 2 then invalid_size (length buf)
      else
        let namesz = unat (buf ! 1) in
        if length buf < namesz + 10 then invalid_size (length buf)
        else Inr \<lparr>up_addr = Some (Inr (take namesz (drop 2 buf))), up_session = unpack_uint32 (drop (namesz + 2) buf),
                  up_data = Data_size (unpack_uint32 (drop (namesz + 6) buf)), up_padding = True, up_push = is_push\<rparr>)"

text \<open>The first byte of an empty Lua string is its terminator.\<close>

definition lunpackrequest :: "bytes \<Rightarrow> unpacked lua_result" where
  "lunpackrequest msg =
     (let t = (case msg of [] \<Rightarrow> 0 | c # _ \<Rightarrow> c) in
      if t = 0 then unpackreq_number msg
      else if t = 1 then unpackmreq_number msg False
      else if t = 0x41 then unpackmreq_number msg True
      else if t = 2 \<or> t = 3 then unpackmreq_part msg
      else if t = 0x80 then unpackreq_string msg
      else if t = 0x81 then unpackmreq_string msg False
      else if t = 0xc1 then unpackmreq_string msg True
      else Inl (''Invalid req package type '' @ fmt_d (sint t)))"

section \<open>Responses\<close>

fun packresponse_multi :: "nat \<Rightarrow> u32 \<Rightarrow> bytes \<Rightarrow> bytes list res" where
  "packresponse_multi 0 session msg = Inr []"
| "packresponse_multi (Suc n) session msg =
     (let last = \<not> length msg > MULTI_PART;
          s = (if last then length msg else MULTI_PART);
          ty = (if last then 4 else 3)
      in res_bind (fill_header (s + 5)) (\<lambda>hd.
         res_bind (packresponse_multi n session (drop s msg)) (\<lambda>ps.
           Inr ((hd @ fill_uint32 session @ [ty] @ take s msg) # ps))))"

text \<open>One package, or the table of packages for a long message.\<close>

definition lpackresponse :: "u32 \<Rightarrow> bool \<Rightarrow> bytes \<Rightarrow> bytes list res" where
  "lpackresponse session ok msg =
     (if ok \<and> length msg > MULTI_PART then
        let part = (length msg - 1) div MULTI_PART + 1 in
        res_bind (fill_header 9) (\<lambda>hd.
        res_bind (packresponse_multi part session msg) (\<lambda>ps.
          Inr ((hd @ fill_uint32 session @ [2] @ fill_uint32 (of_nat (length msg))) # ps)))
      else
        let msg = (if \<not> ok then take MULTI_PART msg else msg) in
        res_bind (fill_header (length msg + 5)) (\<lambda>hd.
          Inr [hd @ fill_uint32 session @ [if ok then 1 else 0] @ msg]))"

text \<open>The values returned to Lua, \<open>None\<close> for none: session, success, message or size, whether parts follow.\<close>

definition lunpackresponse :: "bytes \<Rightarrow> (u32 \<times> bool \<times> cluster_data \<times> bool) option" where
  "lunpackresponse buf =
     (if length buf < 5 then None
      else
        let session = unpack_uint32 buf; t = buf ! 4; msg = drop 5 buf in
        if t = 0 then Some (session, False, Data_string msg, False)
        else if t = 1 \<or> t = 4 then Some (session, True, Data_string msg, False)
        else if t = 2 then if length buf \<noteq> 9 then None else Some (session, True, Data_size (unpack_uint32 (drop 5 buf)), True)
        else if t = 3 then Some (session, True, Data_string msg, True)
        else None)"

section \<open>Putting parts together\<close>

text \<open>
  \<open>lconcat\<close> on a table with a size and strings: \<open>None\<close> when it returns nothing. The size becomes an int, with which
  the buffer is allocated; a negative one cannot be allocated.
\<close>

fun concat_loop :: "nat \<Rightarrow> bytes \<Rightarrow> bytes list \<Rightarrow> bytes option" where
  "concat_loop sz acc [] = (if length acc \<noteq> sz then None else Some acc)"
| "concat_loop sz acc (s # ss) = (if length s + length acc > sz then None else concat_loop sz (acc @ s) ss)"

definition lconcat :: "int \<Rightarrow> bytes list \<Rightarrow> bytes option res" where
  "lconcat n strs =
     (let sz = sint (of_int n :: c_int) in
      if sz < 0 then Inl (Out_of_memory ''lconcat'') else Inr (concat_loop (nat sz) [] strs))"

section \<open>Round trips\<close>

lemma unpack_fill_uint32: "unpack_uint32 (fill_uint32 n @ x) = n"
  using le_word4_bytes [of n] by (simp add: unpack_uint32_def fill_uint32_def le_word4_def le_bytes4_def)

lemma length_fill_uint32 [simp]: "length (fill_uint32 n) = 4"
  by (simp add: fill_uint32_def)

text \<open>The frame in front of a package is its length.\<close>

definition framed :: "bytes \<Rightarrow> bool" where
  "framed p \<longleftrightarrow> 2 \<le> length p \<and> unat (p ! 0) * 256 + unat (p ! 1) = length p - 2"

lemma fill_header_framed:
  assumes "length b < 0x10000"
  shows "\<exists>hd. fill_header (length b) = Inr hd \<and> framed (hd @ b) \<and> drop 2 (hd @ b) = b"
proof -
  have "length b div 256 < 256" using assms by (simp add: less_mult_imp_div_less)
  then have "unat (of_nat (length b div 256) :: u8) = length b div 256" "unat (of_nat (length b mod 256) :: u8) = length b mod 256"
    by (simp_all add: unsigned_of_nat take_bit_nat_eq_self)
  then show ?thesis using assms by (simp add: fill_header_def framed_def)
qed

text \<open>
  Requests and responses cut long messages in the same way; they differ in what stands in front of a piece.
\<close>

locale multipart =
  fixes pack :: "nat \<Rightarrow> bytes \<Rightarrow> bytes list res" and body :: "bool \<Rightarrow> bytes \<Rightarrow> bytes"
  assumes pack_0: "pack 0 msg = Inr []"
    and pack_last: "length msg \<le> MULTI_PART \<Longrightarrow> pack (Suc n) msg =
        res_bind (fill_header (length msg + 5)) (\<lambda>hd. res_bind (pack n []) (\<lambda>ps. Inr ((hd @ body True msg) # ps)))"
    and pack_more: "MULTI_PART < length msg \<Longrightarrow> pack (Suc n) msg =
        res_bind (fill_header (MULTI_PART + 5)) (\<lambda>hd. res_bind (pack n (drop MULTI_PART msg)) (\<lambda>ps. Inr ((hd @ body False (take MULTI_PART msg)) # ps)))"
    and length_body: "length (body b d) = length d + 5"
begin

lemma parts:
  assumes "n * MULTI_PART < length msg" "length msg \<le> Suc n * MULTI_PART"
  shows "\<exists>ps ds. pack (Suc n) msg = Inr ps \<and> list_all framed ps \<and> length ds = Suc n \<and> concat ds = msg \<and>
    map (drop 2) ps = map2 body (replicate n False @ [True]) ds"
  using assms
proof (induction n arbitrary: msg)
  case 0
  then have l: "length msg \<le> MULTI_PART" "length (body True msg) < 0x10000" by (simp_all add: length_body MULTI_PART_def)
  from fill_header_framed [OF l(2)] obtain hd where
    "fill_header (length msg + 5) = Inr hd" "framed (hd @ body True msg)" "drop 2 (hd @ body True msg) = body True msg"
    by (auto simp: length_body)
  then show ?case using pack_last [OF l(1), of 0] by (auto simp: pack_0 intro!: exI [of _ "[msg]"])
next
  case (Suc n)
  let ?m = "take MULTI_PART msg" and ?r = "drop MULTI_PART msg"
  have l: "MULTI_PART < length msg" using Suc.prems(1) by simp
  have b: "length (body False ?m) = MULTI_PART + 5" using l by (simp add: length_body)
  obtain hd where hd: "fill_header (MULTI_PART + 5) = Inr hd" "framed (hd @ body False ?m)" "drop 2 (hd @ body False ?m) = body False ?m"
    using fill_header_framed [of "body False ?m"] b by (auto simp: MULTI_PART_def)
  have r: "n * MULTI_PART < length ?r" "length ?r \<le> Suc n * MULTI_PART" using Suc.prems by simp_all
  obtain ps ds where ps: "pack (Suc n) ?r = Inr ps" "list_all framed ps" "length ds = Suc n" "concat ds = ?r"
    "map (drop 2) ps = map2 body (replicate n False @ [True]) ds"
    using Suc.IH [OF r] by blast
  have "pack (Suc (Suc n)) msg = Inr ((hd @ body False ?m) # ps)" using pack_more [OF l] hd(1) ps(1) by simp
  with hd ps show ?case by (intro exI [of _ "(hd @ body False ?m) # ps"] exI [of _ "?m # ds"]) simp
qed

end

interpretation request_parts: multipart "\<lambda>n. packreq_multi n session" "\<lambda>b d. [if b then 3 else 2] @ fill_uint32 session @ d"
  by unfold_locales (simp_all add: Let_def min_def)

interpretation response_parts: multipart "\<lambda>n. packresponse_multi n session" "\<lambda>b d. fill_uint32 session @ [if b then 4 else 3] @ d"
  by unfold_locales (simp_all add: Let_def min_def)

lemma part_count:
  assumes "0 < length msg"
  shows "(length msg - 1) div MULTI_PART * MULTI_PART < length msg" "length msg \<le> Suc ((length msg - 1) div MULTI_PART) * MULTI_PART"
proof -
  have "MULTI_PART > 0" by (simp add: MULTI_PART_def)
  then show "length msg \<le> Suc ((length msg - 1) div MULTI_PART) * MULTI_PART"
    using dividend_less_div_times [of MULTI_PART "length msg - 1"] by simp
  show "(length msg - 1) div MULTI_PART * MULTI_PART < length msg"
    using div_times_less_eq_dividend [of "length msg - 1" MULTI_PART] assms by linarith
qed

lemma concat_loop_ok: "length acc + length (concat ds) = sz \<Longrightarrow> concat_loop sz acc ds = Some (acc @ concat ds)"
  by (induction ds arbitrary: acc) auto

lemma lconcat_ok:
  assumes "length (concat ds) < 2 ^ 31"
  shows "lconcat (uint (of_nat (length (concat ds)) :: u32)) ds = Inr (Some (concat ds))"
proof -
  let ?n = "length (concat ds)"
  have "sint (of_int (uint (of_nat ?n :: u32)) :: c_int) = int ?n"
    using assms by (simp add: signed_of_nat signed_take_bit_int_eq_self)
  then show ?thesis using concat_loop_ok [of "[]" ds ?n] unfolding lconcat_def Let_def by simp
qed

text \<open>What the receiver gets for a message: the message itself, or its size and pieces that \<open>lconcat\<close> puts together.\<close>

definition addr_value :: "cluster_addr \<Rightarrow> (u32 + bytes) option" where
  "addr_value a = (case a of Addr_number n \<Rightarrow> Some (Inl (of_int n)) | Addr_string s \<Rightarrow> Some (Inr s) | Addr_other \<Rightarrow> None)"

definition addr_ok :: "cluster_addr \<Rightarrow> bool" where
  "addr_ok a = (case a of Addr_number n \<Rightarrow> True | Addr_string s \<Rightarrow> 1 \<le> length s \<and> length s \<le> 255 | Addr_other \<Rightarrow> False)"

definition request_head :: "bool \<Rightarrow> cluster_addr \<Rightarrow> int \<Rightarrow> bytes \<Rightarrow> unpacked" where
  "request_head is_push a session msg =
     (let short = length msg < MULTI_PART in
      \<lparr>up_addr = addr_value a, up_session = (if short \<and> is_push then 0 else of_int session),
       up_data = (if short then Data_string msg else Data_size (of_nat (length msg))), up_padding = \<not> short, up_push = is_push\<rparr>)"

definition request_part :: "int \<Rightarrow> bool \<Rightarrow> bytes \<Rightarrow> unpacked" where
  "request_part session fin d =
     \<lparr>up_addr = None, up_session = of_int session, up_data = Data_string d, up_padding = \<not> fin, up_push = False\<rparr>"

lemma unpack_at: "n = length x \<Longrightarrow> unpack_uint32 (drop n (x @ fill_uint32 w @ y)) = w"
  by (simp add: unpack_fill_uint32)

lemma unpack_part: "lunpackrequest ([if b then 3 else 2] @ fill_uint32 (of_int session) @ d) = Inr (request_part session b d)"
  by (simp add: lunpackrequest_def unpackmreq_part_def request_part_def unpack_fill_uint32)


lemma session_word: "0 < session \<Longrightarrow> session < 2 ^ 31 \<Longrightarrow> of_int session \<noteq> (0 :: u32)"
  using take_bit_int_eq_self [of session 32] by (simp add: word_uint_eq_iff unsigned_of_int)

definition next_session :: "int \<Rightarrow> int" where
  "next_session session = (if session = 2 ^ 31 - 1 then 1 else session + 1)"

lemma next_session_wraps:
  assumes "0 < session" "session < 2 ^ 31"
  shows "(let nxt = sint (of_int session + 1 :: c_int) in if nxt < 0 then 1 else nxt) = next_session session"
proof (cases "session = 2 ^ 31 - 1")
  case True
  then show ?thesis by (simp add: next_session_def)
next
  case False
  then have "session + 1 < 2 ^ 31" using assms by simp
  then have "sint (of_int (session + 1) :: c_int) = session + 1"
    using assms(1) by (simp add: signed_of_int signed_take_bit_int_eq_self del: of_int_add)
  with False assms(1) show ?thesis by (simp add: next_session_def)
qed

text \<open>The first package of a request.\<close>

definition head_body :: "bool \<Rightarrow> cluster_addr \<Rightarrow> int \<Rightarrow> bytes \<Rightarrow> bytes" where
  "head_body is_push a session msg =
     (let short = length msg < MULTI_PART;
          tail = (if short then fill_uint32 (if is_push then 0 else of_int session) @ msg
                  else fill_uint32 (of_int session) @ fill_uint32 (of_nat (length msg)))
      in case a of
           Addr_number n \<Rightarrow> [if short then 0 else if is_push then 0x41 else 1] @ fill_uint32 (of_int n) @ tail
         | Addr_string name \<Rightarrow> [if short then 0x80 else if is_push then 0xc1 else 0x81, of_nat (length name)] @ name @ tail
         | Addr_other \<Rightarrow> [])"

lemma unpack_head_number:
  assumes "0 < session" "session < 2 ^ 31"
  shows "lunpackrequest (head_body is_push (Addr_number n) session msg) = Inr (request_head is_push (Addr_number n) session msg)"
  using session_word [OF assms]
  by (simp add: head_body_def request_head_def lunpackrequest_def unpackreq_number_def unpackmreq_number_def addr_value_def Let_def
      unpack_fill_uint32 unpack_fill_uint32 [of _ "[]", simplified])

lemma drop_head:
  "drop (6 + length name) (x # y # name @ fill_uint32 w @ z) = z" "drop (length name + 6) (x # y # name @ fill_uint32 w @ z) = z"
proof -
  have "drop (length name + 4) (name @ fill_uint32 w @ z) = z" by simp
  then show "drop (6 + length name) (x # y # name @ fill_uint32 w @ z) = z" "drop (length name + 6) (x # y # name @ fill_uint32 w @ z) = z"
    by (simp_all add: numeral_eq_Suc)
qed

lemma unpack_head_string:
  assumes "0 < session" "session < 2 ^ 31" "1 \<le> length name" "length name \<le> 255"
  shows "lunpackrequest (head_body is_push (Addr_string name) session msg) = Inr (request_head is_push (Addr_string name) session msg)"
proof -
  have "unat (of_nat (length name) :: u8) = length name" using assms(4) by (simp add: unsigned_of_nat take_bit_nat_eq_self)
  then show ?thesis using session_word [OF assms(1,2)]
    by (simp add: head_body_def request_head_def lunpackrequest_def unpackreq_string_def unpackmreq_string_def addr_value_def Let_def drop_head
      unpack_fill_uint32 unpack_fill_uint32 [of _ "[]", simplified])
qed

lemma length_head_body: "addr_ok a \<Longrightarrow> length (head_body is_push a session msg) < 0x10000"
  by (auto simp: head_body_def addr_ok_def Let_def MULTI_PART_def split: cluster_addr.splits)

lemma pack_head:
  assumes "addr_ok a" "0 < session" "session < 2 ^ 31"
  shows "\<exists>hd. framed (hd @ head_body is_push a session msg) \<and> drop 2 (hd @ head_body is_push a session msg) = head_body is_push a session msg \<and>
      packrequest is_push a session (Some msg) =
      (if length msg < MULTI_PART then Inr (Inr (hd @ head_body is_push a session msg, next_session session, None))
       else res_bind (packreq_multi ((length msg - 1) div MULTI_PART + 1) (of_int session) msg)
              (\<lambda>ps. Inr (Inr (hd @ head_body is_push a session msg, next_session session, Some ps))))"
proof -
  from fill_header_framed [OF length_head_body [OF assms(1)], of is_push session msg] obtain hd where
    hd: "fill_header (length (head_body is_push a session msg)) = Inr hd" "framed (hd @ head_body is_push a session msg)"
      "drop 2 (hd @ head_body is_push a session msg) = head_body is_push a session msg" by blast
  note nx = next_session_wraps [OF assms(2,3), unfolded Let_def add.commute [of "of_int session" "1 :: c_int"]]
  have "packrequest is_push a session (Some msg) =
      (if length msg < MULTI_PART then Inr (Inr (hd @ head_body is_push a session msg, next_session session, None))
       else res_bind (packreq_multi ((length msg - 1) div MULTI_PART + 1) (of_int session) msg)
              (\<lambda>ps. Inr (Inr (hd @ head_body is_push a session msg, next_session session, Some ps))))"
    using assms hd(1)
    by (cases a; cases "length msg < MULTI_PART")
       (auto simp: packrequest_def packreq_number_def packreq_string_def head_body_def addr_ok_def Let_def nx not_less add.commute add.left_commute del: packreq_multi.simps)
  with hd show ?thesis by blast
qed




text \<open>
  Responses. Every package carries its length. A short message, and an error message cut to 32 kilobytes, comes back with the
  session and the mark for success or failure; a long one comes back as its size and pieces from which \<open>concat\<close>
  returns it.
\<close>

theorem cluster_response_roundtrip:
  assumes "length msg < 2 ^ 31"
  shows "\<exists>p ps. lpackresponse session ok msg = Inr (p # ps) \<and> list_all framed (p # ps) \<and>
     (if ok \<and> length msg > MULTI_PART
      then lunpackresponse (drop 2 p) = Some (session, True, Data_size (of_nat (length msg)), True) \<and>
        (\<exists>n ds. map (\<lambda>p. lunpackresponse (drop 2 p)) ps = map2 (\<lambda>b d. Some (session, True, Data_string d, \<not> b)) (replicate n False @ [True]) ds \<and>
          lconcat (uint (of_nat (length msg) :: u32)) ds = Inr (Some msg))
      else lunpackresponse (drop 2 p) = Some (session, ok, Data_string (if ok then msg else take MULTI_PART msg), False) \<and> ps = [])"
proof (cases "ok \<and> length msg > MULTI_PART")
  case True
  let ?n = "(length msg - 1) div MULTI_PART" and ?b = "fill_uint32 session @ [2] @ fill_uint32 (of_nat (length msg))"
  obtain hd where hd: "fill_header 9 = Inr hd" "framed (hd @ ?b)" "drop 2 (hd @ ?b) = ?b"
    using fill_header_framed [of ?b] by auto
  have "0 < length msg" using True by auto
  from response_parts.parts [OF part_count [OF this], of session] obtain ps ds where
    ps: "packresponse_multi (Suc ?n) session msg = Inr ps" "list_all framed ps" "concat ds = msg"
      "map (drop 2) ps = map2 (\<lambda>b d. fill_uint32 session @ [if b then 4 else 3] @ d) (replicate ?n False @ [True]) ds" by blast
  have u: "lunpackresponse (fill_uint32 session @ [if b then 4 else 3] @ d) = Some (session, True, Data_string d, \<not> b)" for b d
    by (simp add: lunpackresponse_def unpack_fill_uint32 nth_append Let_def)
  have "map (\<lambda>p. lunpackresponse (drop 2 p)) ps = map lunpackresponse (map (drop 2) ps)" by simp
  also have "\<dots> = map2 (\<lambda>b d. Some (session, True, Data_string d, \<not> b)) (replicate ?n False @ [True]) ds"
    unfolding ps(4) map_map by (rule map_cong) (simp_all only: u comp_def case_prod_beta)
  finally have m: "map (\<lambda>p. lunpackresponse (drop 2 p)) ps = map2 (\<lambda>b d. Some (session, True, Data_string d, \<not> b)) (replicate ?n False @ [True]) ds" .
  have "lunpackresponse ?b = Some (session, True, Data_size (of_nat (length msg)), True)"
    using unpack_fill_uint32 [of "of_nat (length msg)" "[]"] by (simp add: lunpackresponse_def unpack_fill_uint32 nth_append Let_def)
  then have "lunpackresponse (drop 2 (hd @ ?b)) = Some (session, True, Data_size (of_nat (length msg)), True)" unfolding hd(3) .
  moreover have "lpackresponse session ok msg = Inr ((hd @ ?b) # ps)" using True hd(1) ps(1) by (simp add: lpackresponse_def del: packresponse_multi.simps)
  moreover have "lconcat (uint (of_nat (length msg) :: u32)) ds = Inr (Some msg)" using lconcat_ok [of ds] assms unfolding ps(3) by simp
  moreover have "list_all framed ((hd @ ?b) # ps)" using hd(2) ps(2) by simp
  ultimately show ?thesis unfolding if_P [OF True] using m by blast
next
  case False
  let ?m = "if ok then msg else take MULTI_PART msg"
  let ?b = "fill_uint32 session @ [if ok then 1 else 0] @ ?m"
  have "length ?b < 0x10000" using False by (auto simp: MULTI_PART_def)
  moreover have "length ?b = length ?m + 5" by simp
  ultimately obtain hd where hd: "fill_header (length ?m + 5) = Inr hd" "framed (hd @ ?b)" "drop 2 (hd @ ?b) = ?b"
    using fill_header_framed [of ?b] by metis
  have "lunpackresponse ?b = Some (session, ok, Data_string ?m, False)"
    by (simp add: lunpackresponse_def unpack_fill_uint32 nth_append Let_def)
  then have "lunpackresponse (drop 2 (hd @ ?b)) = Some (session, ok, Data_string ?m, False)" unfolding hd(3) .
  moreover have "lpackresponse session ok msg = Inr [hd @ ?b]" using False hd(1) by (auto simp: lpackresponse_def Let_def)
  ultimately show ?thesis unfolding if_not_P [OF False] using hd(2) by (intro exI [of _ "hd @ ?b"] exI [of _ "[]"]) simp
qed

theorem cluster_response_roundtrip_witness:
  "\<exists>p. lpackresponse 5 True [1, 2] = Inr [p] \<and> lunpackresponse (drop 2 p) = Some (5, True, Data_string [1, 2], False)"
  using cluster_response_roundtrip [of "[1, 2]" 5 True] by (auto simp: MULTI_PART_def)

lemma size_over_2GB_aborts: "lconcat (uint (0x80000000 :: u32)) strs = Inl (Out_of_memory ''lconcat'')"
  by (simp add: lconcat_def)

end
