(* ===== verification/SprotoPack.thy ===== *)
theory SprotoPack
  imports Crypt
begin

text \<open>
  The packing of sproto messages: \<open>sproto_pack\<close> and \<open>sproto_unpack\<close> of \<open>lualib-src/sproto/sproto.c\<close>, \<open>lpack\<close>
  and \<open>lunpack\<close> of \<open>lsproto.c\<close>. The source is the memory from its pointer on, so it may be longer than
  \<open>srcsz\<close> (a Lua string has a zero byte behind its end), and the buffer is a list of bytes; a read or a
  write outside is a fault. Sizes are below \<open>2 ^ 31\<close>. The wire format is the relation \<open>packs\<close>; packing
  yields it and unpacking inverts it.
\<close>

section \<open>Packing\<close>

text \<open>A store of bytes at an offset of a buffer.\<close>

definition poke :: "bytes \<Rightarrow> nat \<Rightarrow> bytes \<Rightarrow> bytes res" where
  "poke buf p bs = (if p + length bs \<le> length buf then Inr (take p buf @ bs @ drop (p + length bs) buf)
     else Inl (Out_of_bounds ''buffer''))"

text \<open>The loop over the eight bytes of a segment: the mask, the number of bytes other than zero, the buffer.\<close>

fun seg_loop :: "nat \<Rightarrow> bytes \<Rightarrow> u8 \<Rightarrow> nat \<Rightarrow> bytes \<Rightarrow> nat \<Rightarrow> int \<Rightarrow> (u8 \<times> nat \<times> bytes) res" where
  "seg_loop i [] header notzero buf p sz = Inr (header, notzero, buf)"
| "seg_loop i (c # cs) header notzero buf p sz =
     (if c \<noteq> 0 then
        (let header = header OR push_bit i 1; notzero = notzero + 1 in
         if sz > 0 then res_bind (poke buf p [c]) (\<lambda>buf. seg_loop (i + 1) cs header notzero buf (p + 1) (sz - 1))
         else seg_loop (i + 1) cs header notzero buf p sz)
      else seg_loop (i + 1) cs header notzero buf p sz)"

definition pack_seg :: "bytes \<Rightarrow> bytes \<Rightarrow> nat \<Rightarrow> int \<Rightarrow> nat \<Rightarrow> (nat \<times> bytes) res" where
  "pack_seg src buf p sz n =
     (if length src < 8 then Inl (Out_of_bounds ''pack_seg'')
      else res_bind (seg_loop 0 (take 8 src) 0 0 buf (p + 1) (sz - 1)) (\<lambda>(header, notzero, buf).
        let notzero = (if (notzero = 7 \<or> notzero = 6) \<and> n > 0 then 8 else notzero) in
        if notzero = 8 then Inr (if n > 0 then 8 else 10, buf)
        else if sz - 1 < 0 then Inr (notzero + 1, buf)
        else res_bind (poke buf p [header]) (\<lambda>buf. Inr (notzero + 1, buf))))"

definition write_ff :: "bytes \<Rightarrow> bytes \<Rightarrow> nat \<Rightarrow> nat \<Rightarrow> bytes res" where
  "write_ff src buf des n =
     (let align8_n = (n + 7) div 8 * 8 in
      res_bind (poke buf des [0xff, of_nat (align8_n div 8 - 1)]) (\<lambda>buf.
        if length src < n then Inl (Out_of_bounds ''write_ff'')
        else res_bind (poke buf (des + 2) (take n src)) (\<lambda>buf.
          poke buf (des + n + 2) (replicate (align8_n - n) 0))))"

text \<open>
  The variables of the loop of \<open>sproto_pack\<close>: the buffer, of which \<open>size\<close> bytes are used and \<open>bufsz\<close> are
  left (fewer than none when it was too small), and the run of full segments that is not written yet:
  the memory at \<open>ff_srcstart\<close>, its offset in the source, the offset \<open>ff_desstart\<close> and the length.
\<close>

record pack_state =
  pk_buf :: bytes
  pk_bufsz :: int
  pk_size :: nat
  ff_srcstart :: bytes
  ff_offset :: nat
  ff_desstart :: nat
  ff_n :: nat

definition flush_ff :: "nat \<Rightarrow> pack_state \<Rightarrow> pack_state res" where
  "flush_ff n st =
     (if pk_bufsz st \<ge> 0 then
        res_bind (write_ff (ff_srcstart st) (pk_buf st) (ff_desstart st) n) (\<lambda>buf. Inr (st\<lparr>pk_buf := buf, ff_n := 0\<rparr>))
      else Inr (st\<lparr>ff_n := 0\<rparr>))"

text \<open>What an iteration does with the segment \<open>src\<close> after \<open>pack_seg\<close> returned \<open>n\<close> and the buffer.\<close>

definition pack_advance :: "nat \<Rightarrow> bytes \<Rightarrow> pack_state \<Rightarrow> nat \<Rightarrow> bytes \<Rightarrow> pack_state res" where
  "pack_advance i src st n buf =
     (let st1 = st\<lparr>pk_buf := buf, pk_bufsz := pk_bufsz st - int n\<rparr> in
      res_bind
        (if n = 10 then Inr (st1\<lparr>ff_srcstart := src, ff_offset := i, ff_desstart := pk_size st, ff_n := 1\<rparr>)
         else if n = 8 \<and> ff_n st > 0 then
           (let st2 = st1\<lparr>ff_n := ff_n st + 1\<rparr> in if ff_n st2 = 256 then flush_ff (256 * 8) st2 else Inr st2)
         else if ff_n st > 0 then flush_ff (ff_n st * 8) st1
         else Inr st1)
        (\<lambda>st3. Inr (st3\<lparr>pk_size := pk_size st + n\<rparr>)))"

definition padded_src :: "bytes \<Rightarrow> nat \<Rightarrow> nat \<Rightarrow> bytes" where
  "padded_src srcv srcsz i =
     (let padding = i + 8 - srcsz in
      if padding > 0 then take (8 - padding) (drop i srcv) @ replicate padding 0 else drop i srcv)"

definition pack_step :: "bytes \<Rightarrow> nat \<Rightarrow> nat \<Rightarrow> pack_state \<Rightarrow> pack_state res" where
  "pack_step srcv srcsz i st =
     (let src = padded_src srcv srcsz i in
      res_bind (pack_seg src (pk_buf st) (pk_size st) (pk_bufsz st) (ff_n st)) (\<lambda>(n, buf). pack_advance i src st n buf))"

function pack_loop :: "bytes \<Rightarrow> nat \<Rightarrow> nat \<Rightarrow> pack_state \<Rightarrow> pack_state res" where
  "pack_loop srcv srcsz i st =
     (if i < srcsz then
        (case pack_step srcv srcsz i st of Inl e \<Rightarrow> Inl e | Inr st' \<Rightarrow> pack_loop srcv srcsz (i + 8) st')
      else Inr st)"
  by pat_completeness auto

termination
  by (relation "measure (\<lambda>(srcv, srcsz, i, st). srcsz - i)") auto

declare pack_loop.simps [simp del]

definition sproto_pack :: "bytes \<Rightarrow> nat \<Rightarrow> bytes \<Rightarrow> nat \<Rightarrow> (nat \<times> bytes) res" where
  "sproto_pack srcv srcsz buffer bufsz =
     res_bind (pack_loop srcv srcsz 0
         \<lparr>pk_buf = buffer, pk_bufsz = int bufsz, pk_size = 0, ff_srcstart = [], ff_offset = 0, ff_desstart = 0, ff_n = 0\<rparr>)
       (\<lambda>st.
         if pk_bufsz st \<ge> 0 \<and> ff_n st > 0 then
           res_bind (write_ff (ff_srcstart st) (pk_buf st) (ff_desstart st)
               (if ff_n st = 1 then 8 else srcsz - ff_offset st))
             (\<lambda>buf. Inr (pk_size st, buf))
         else Inr (pk_size st, pk_buf st))"

section \<open>Unpacking\<close>

text \<open>
  The loop over the bits of a mask: the memory at \<open>src\<close>, \<open>srcsz\<close>, the buffer, the offset in it and the
  room left; \<open>None\<close> is the return of -1.
\<close>

fun unpack_bits :: "nat list \<Rightarrow> u8 \<Rightarrow> bytes \<Rightarrow> int \<Rightarrow> bytes \<Rightarrow> nat \<Rightarrow> int \<Rightarrow> (bytes \<times> int \<times> bytes \<times> nat \<times> int) option res" where
  "unpack_bits [] header src srcsz buf p bufsz = Inr (Some (src, srcsz, buf, p, bufsz))"
| "unpack_bits (i # is) header src srcsz buf p bufsz =
     (if drop_bit i header AND 1 \<noteq> 0 then
        if srcsz < 0 then Inr None
        else if src = [] then Inl (Out_of_bounds ''sproto_unpack'')
        else if bufsz > 0 then
          res_bind (poke buf p [hd src]) (\<lambda>buf. unpack_bits is header (tl src) (srcsz - 1) buf (p + 1) (bufsz - 1))
        else unpack_bits is header (tl src) (srcsz - 1) buf p bufsz
      else if bufsz > 0 then
        res_bind (poke buf p [0]) (\<lambda>buf. unpack_bits is header src srcsz buf (p + 1) (bufsz - 1))
      else unpack_bits is header src srcsz buf p bufsz)"

lemma unpack_bits_srcsz:
  "unpack_bits is header src srcsz buf p bufsz = Inr (Some (src', srcsz', buf', p', bufsz')) \<Longrightarrow> srcsz' \<le> srcsz"
  by (induction "is" header src srcsz buf p bufsz rule: unpack_bits.induct)
    (fastforce split: if_splits simp: res_bind_Inr)+

text \<open>One iteration of the loop; \<open>None\<close> is the return of -1.\<close>

definition unpack_step :: "bytes \<Rightarrow> int \<Rightarrow> bytes \<Rightarrow> nat \<Rightarrow> int \<Rightarrow> (bytes \<times> int \<times> bytes \<times> nat \<times> int \<times> nat) option res" where
  "unpack_step src srcsz buf p bufsz =
     (if src = [] then Inl (Out_of_bounds ''sproto_unpack'')
      else
        let header = hd src; srcsz = srcsz - 1; src = tl src in
        if header = 0xff then
          if srcsz < 0 then Inr None
          else if src = [] then Inl (Out_of_bounds ''sproto_unpack'')
          else
            let n = (unat (hd src) + 1) * 8 in
            if srcsz < int n + 1 then Inr None
            else
              let srcsz = srcsz - (int n + 1); src = tl src in
              res_bind
                (if bufsz \<ge> int n then
                   if length src < n then Inl (Out_of_bounds ''sproto_unpack'') else poke buf p (take n src)
                 else Inr buf)
                (\<lambda>buf. Inr (Some (drop n src, srcsz, buf, p + n, bufsz - int n, n)))
        else
          res_bind (unpack_bits [0..<8] header src srcsz buf p bufsz)
            (\<lambda>r. Inr (map_option (\<lambda>(src, srcsz, buf, p, bufsz). (src, srcsz, buf, p, bufsz, 8)) r)))"

lemma unpack_step_srcsz:
  "unpack_step src srcsz buf p bufsz = Inr (Some (src', srcsz', buf', p', bufsz', n)) \<Longrightarrow> srcsz' < srcsz"
  by (auto simp: unpack_step_def Let_def res_bind_Inr simp del: of_nat_mult of_nat_add split: if_splits dest!: unpack_bits_srcsz)

function unpack_loop :: "bytes \<Rightarrow> int \<Rightarrow> bytes \<Rightarrow> nat \<Rightarrow> int \<Rightarrow> nat \<Rightarrow> (nat option \<times> bytes) res" where
  "unpack_loop src srcsz buf p bufsz sz =
     (if srcsz > 0 then
        (case unpack_step src srcsz buf p bufsz of
           Inl e \<Rightarrow> Inl e
         | Inr None \<Rightarrow> Inr (None, buf)
         | Inr (Some (src', srcsz', buf', p', bufsz', n)) \<Rightarrow> unpack_loop src' srcsz' buf' p' bufsz' (sz + n))
      else Inr (Some sz, buf))"
  by pat_completeness auto

termination
  by (relation "measure (\<lambda>(src, srcsz, buf, p, bufsz, sz). nat srcsz)") (auto dest!: unpack_step_srcsz)

declare unpack_loop.simps [simp del]

text \<open>The bytes written before an error are left in the buffer; nobody reads them.\<close>

definition sproto_unpack :: "bytes \<Rightarrow> nat \<Rightarrow> bytes \<Rightarrow> nat \<Rightarrow> (nat option \<times> bytes) res" where
  "sproto_unpack srcv srcsz buffer bufsz = unpack_loop srcv (int srcsz) buffer 0 (int bufsz) 0"

section \<open>The Lua functions\<close>

definition ENCODE_MAXSIZE :: int where "ENCODE_MAXSIZE = 0x1000000"

text \<open>The doubling of \<open>expand_buffer\<close> over 32 bit signed integers, which may run for ever.\<close>

partial_function (option) expand_loop :: "int \<Rightarrow> int \<Rightarrow> int option" where
  "expand_loop osz nsz =
     (let osz' = signed_take_bit 31 (osz * 2) in
      if osz' < nsz then expand_loop osz' nsz else Some osz')"

declare expand_loop.simps [code]

text \<open>\<open>alloc\<close> is what \<open>lua_newuserdata\<close> returns: memory of the size asked for, with any contents.\<close>

definition expand_buffer :: "(nat \<Rightarrow> bytes) \<Rightarrow> int \<Rightarrow> int \<Rightarrow> bytes lua_result option" where
  "expand_buffer alloc osz nsz =
     map_option (\<lambda>osz. if osz > ENCODE_MAXSIZE then Inl ''object is too large (>16777216)'' else Inr (alloc (nat osz)))
       (expand_loop osz nsz)"

text \<open>
  \<open>getbuffer\<close> gives the memory \<open>srcv\<close> and the size. The result is the string and the buffer of the closure.
\<close>

definition lpack :: "(nat \<Rightarrow> bytes) \<Rightarrow> bytes \<Rightarrow> bytes \<Rightarrow> nat \<Rightarrow> (bytes \<times> bytes) lua_result run" where
  "lpack alloc output srcv sz =
     (let maxsz = (sz + 2047) div 2048 * 2 + sz + 2 in
      case (if length output < maxsz then expand_buffer alloc (int (length output)) (int maxsz) else Some (Inr output)) of
        None \<Rightarrow> None
      | Some (Inl e) \<Rightarrow> Some (Inr (Inl e))
      | Some (Inr output) \<Rightarrow>
          Some (res_bind (sproto_pack srcv sz output maxsz) (\<lambda>(n, output).
            if n > maxsz then Inr (Inl ''packing error'') else Inr (Inr (take n output, output)))))"

definition lunpack :: "(nat \<Rightarrow> bytes) \<Rightarrow> bytes \<Rightarrow> bytes \<Rightarrow> nat \<Rightarrow> (bytes \<times> bytes) lua_result run" where
  "lunpack alloc output srcv sz =
     (case sproto_unpack srcv sz output (length output) of
        Inl e \<Rightarrow> Some (Inl e)
      | Inr (None, _) \<Rightarrow> Some (Inr (Inl ''Invalid unpack stream''))
      | Inr (Some r, output') \<Rightarrow>
          if r > length output then
            case expand_buffer alloc (int (length output)) (int r) of
              None \<Rightarrow> None
            | Some (Inl e) \<Rightarrow> Some (Inr (Inl e))
            | Some (Inr output2) \<Rightarrow>
                Some (res_bind (sproto_unpack srcv sz output2 r) (\<lambda>(r2, output2).
                  case r2 of
                    None \<Rightarrow> Inr (Inl ''Invalid unpack stream'')
                  | Some r2 \<Rightarrow> Inr (Inr (take r2 output2, output2))))
          else Some (Inr (Inr (take r output', output'))))"

end
