(* ===== verification/SprotoPackProps.thy ===== *)
theory SprotoPackProps
  imports SprotoPack
begin

text \<open>
  The wire format of packed sproto messages as a relation, and what \<open>sproto_pack\<close>, \<open>sproto_unpack\<close>, \<open>lpack\<close> and
  \<open>lunpack\<close> do with it: the packer stays within the bound that its caller computes and yields the format,
  the unpacker inverts the format.
\<close>

section \<open>The wire format\<close>

text \<open>
  A packed message is a sequence of segments of eight bytes with a mask of the bytes that are not zero,
  and of runs of one to 256 segments that are copied as they are.
\<close>

fun seg_mask :: "nat \<Rightarrow> bytes \<Rightarrow> u8" where
  "seg_mask i [] = 0"
| "seg_mask i (c # cs) = (if c \<noteq> 0 then push_bit i 1 else 0) OR seg_mask (i + 1) cs"

definition nonzero :: "bytes \<Rightarrow> bytes" where
  "nonzero b = filter (\<lambda>c. c \<noteq> 0) b"

inductive packs :: "bytes \<Rightarrow> bytes \<Rightarrow> bool" where
  packs_nil: "packs [] []"
| packs_run: "packs p d \<Longrightarrow> length b = 8 * (k + 1) \<Longrightarrow> k < 256 \<Longrightarrow> packs (0xff # of_nat k # b @ p) (b @ d)"
| packs_seg: "packs p d \<Longrightarrow> length b = 8 \<Longrightarrow> 0 \<in> set b \<Longrightarrow> packs (seg_mask 0 b # nonzero b @ p) (b @ d)"

lemma packs_append: "packs p d \<Longrightarrow> packs q e \<Longrightarrow> packs (p @ q) (d @ e)"
proof (induction rule: packs.induct)
  case (packs_run p d b k)
  then show ?case using packs.packs_run [of "p @ q" "d @ e" b k] by simp
next
  case (packs_seg p d b)
  then show ?case using packs.packs_seg [of "p @ q" "d @ e" b] by simp
qed simp

lemma packs_one_run: "length b = 8 * n \<Longrightarrow> 0 < n \<Longrightarrow> n \<le> 256 \<Longrightarrow> packs (0xff # of_nat (n - 1) # b) b"
  using packs.packs_run [OF packs_nil, of b "n - 1"] by simp

lemma packs_one_seg: "length b = 8 \<Longrightarrow> 0 \<in> set b \<Longrightarrow> packs (seg_mask 0 b # nonzero b) b"
  using packs.packs_seg [OF packs_nil, of b] by simp

lemma nonzero_less: "0 \<in> set b \<Longrightarrow> length (nonzero b) < length b"
  unfolding nonzero_def by (rule length_filter_less) simp_all

lemma nonzero_le: "length (nonzero b) \<le> length b"
  by (simp add: nonzero_def)

lemma all_nonzero: "0 \<notin> set b \<Longrightarrow> nonzero b = b"
  unfolding nonzero_def by (rule filter_True) metis

section \<open>Stores\<close>

lemma poke_at: "length A = p \<Longrightarrow> length B = length bs \<Longrightarrow> poke (A @ B @ C) p bs = Inr (A @ bs @ C)"
  by (simp add: poke_def)

lemma poke_ok: "p + length bs \<le> length buf \<Longrightarrow> poke buf p bs = Inr (take p buf @ bs @ drop (p + length bs) buf)"
  by (simp add: poke_def)

lemma take_Suc_split:
  assumes "take (Suc p) xs = take p ys @ [c]" "p < length ys"
  shows "take p xs = take p ys" "drop p xs = c # drop (Suc p) xs"
proof -
  have "length (take (Suc p) xs) = Suc p" using assms by simp
  then have p: "p < length xs" by simp
  then have "take p xs = take p ys \<and> xs ! p = c" using assms by (simp add: take_Suc_conv_app_nth)
  then show "take p xs = take p ys" "drop p xs = c # drop (Suc p) xs"
    using Cons_nth_drop_Suc [OF p] by auto
qed

lemma seg_loop_ok:
  assumes "sz \<le> int (length buf) - int p"
  shows "\<exists>buf'. seg_loop i cs header z buf p sz = Inr (header OR seg_mask i cs, z + length (nonzero cs), buf') \<and>
    length buf' = length buf \<and> take p buf' = take p buf \<and>
    (int (length (nonzero cs)) \<le> sz \<longrightarrow> take (length (nonzero cs)) (drop p buf') = nonzero cs)"
  using assms
proof (induction cs arbitrary: i header z buf p sz)
  case Nil
  then show ?case by (simp add: nonzero_def)
next
  case (Cons c cs)
  show ?case
  proof (cases "c = 0")
    case True
    then show ?thesis using Cons.IH [OF Cons.prems, of "i + 1" header z] by (simp add: nonzero_def)
  next
    case False
    show ?thesis
    proof (cases "sz > 0")
      case no: False
      then show ?thesis using False Cons.IH [OF Cons.prems, of "i + 1" "header OR push_bit i 1" "z + 1"]
        by (auto simp: nonzero_def or.assoc)
    next
      case room: True
      have p: "p < length buf" using room Cons.prems by linarith
      define buf1 where "buf1 = take p buf @ [c] @ drop (p + 1) buf"
      have pk: "poke buf p [c] = Inr buf1" using p by (simp add: poke_ok buf1_def)
      have l1: "length buf1 = length buf" "take p buf1 = take p buf" "take (p + 1) buf1 = take p buf @ [c]"
        using p by (simp_all add: buf1_def)
      have "sz - 1 \<le> int (length buf1) - int (p + 1)" using Cons.prems l1 by simp
      from Cons.IH [OF this, of "i + 1" "header OR push_bit i 1" "z + 1"] obtain buf' where
        e: "seg_loop (i + 1) cs (header OR push_bit i 1) (z + 1) buf1 (p + 1) (sz - 1) =
              Inr ((header OR push_bit i 1) OR seg_mask (i + 1) cs, z + 1 + length (nonzero cs), buf')"
        and l: "length buf' = length buf1" and t: "take (p + 1) buf' = take (p + 1) buf1"
        and w: "int (length (nonzero cs)) \<le> sz - 1 \<Longrightarrow> take (length (nonzero cs)) (drop (p + 1) buf') = nonzero cs"
        by blast
      have tp: "take p buf' = take p buf" and d: "drop p buf' = c # drop (p + 1) buf'"
        using take_Suc_split [of p buf' buf c] t l1 p by simp_all
      show ?thesis using False room e l l1 tp d w pk by (auto simp: nonzero_def or.assoc)
    qed
  qed
qed

definition seg_cost :: "nat \<Rightarrow> nat \<Rightarrow> nat" where
  "seg_cost z n = (if n = 0 then if z = 8 then 10 else z + 1 else if z \<ge> 6 then 8 else z + 1)"

lemma pack_seg_ok:
  fixes n :: nat and src :: bytes
  assumes len: "length src \<ge> 8" and room: "sz \<le> int (length buf) - int p"
  defines "b \<equiv> take 8 src"
  defines "c \<equiv> seg_cost (length (nonzero b)) n"
  shows "\<exists>buf'. pack_seg src buf p sz n = Inr (c, buf') \<and> length buf' = length buf \<and> take p buf' = take p buf \<and>
    (length (nonzero b) < (if n = 0 then 8 else 6) \<longrightarrow> int c \<le> sz \<longrightarrow> take c (drop p buf') = seg_mask 0 b # nonzero b)"
proof -
  let ?z = "length (nonzero b)"
  have z8: "?z \<le> 8" using nonzero_le [of b] by (simp add: b_def)
  have "sz - 1 \<le> int (length buf) - int (p + 1)" using room by simp
  from seg_loop_ok [OF this, of 0 b 0 0] obtain buf1 where
    e: "seg_loop 0 b 0 0 buf (p + 1) (sz - 1) = Inr (seg_mask 0 b, ?z, buf1)"
    and l: "length buf1 = length buf" and t: "take (p + 1) buf1 = take (p + 1) buf"
    and w: "int ?z \<le> sz - 1 \<Longrightarrow> take ?z (drop (p + 1) buf1) = nonzero b" by auto
  have tp: "take p buf1 = take p buf" using arg_cong [OF t, of "take p"] by (simp add: min_def)
  show ?thesis
  proof (cases "?z < (if n = 0 then 8 else 6)")
    case False
    then have "pack_seg src buf p sz n = Inr (c, buf1)"
      using len e z8 by (auto simp: pack_seg_def b_def [symmetric] c_def seg_cost_def Let_def split: if_splits)
    then show ?thesis using False l tp by auto
  next
    case lit: True
    then have c: "c = ?z + 1" by (auto simp: c_def seg_cost_def split: if_splits)
    show ?thesis
    proof (cases "sz - 1 < 0")
      case True
      then have "pack_seg src buf p sz n = Inr (c, buf1)"
        using lit len e by (auto simp: pack_seg_def b_def [symmetric] c Let_def split: if_splits)
      then show ?thesis using True l tp c by auto
    next
      case False
      then have p: "p < length buf1" using room l by linarith
      have "pack_seg src buf p sz n = Inr (c, take p buf1 @ [seg_mask 0 b] @ drop (p + 1) buf1)"
        using lit len e p False by (auto simp: pack_seg_def b_def [symmetric] c Let_def poke_ok split: if_splits)
      then show ?thesis using l tp p c w by simp
    qed
  qed
qed

lemma write_ff_at:
  assumes "length A = des" "length B = 2 + 8 * k" "(n + 7) div 8 = k" "n \<le> length src" "n \<le> 8 * k"
  shows "write_ff src (A @ B @ C) des n =
    Inr (A @ (0xff # of_nat (k - 1) # take n src @ replicate (8 * k - n) 0) @ C)"
proof -
  define B1 B2 B3 where "B1 = take 2 B" and "B2 = take n (drop 2 B)" and "B3 = drop n (drop 2 B)"
  have "B = take 2 B @ take n (drop 2 B) @ drop n (drop 2 B)" by (metis append_take_drop_id)
  then have B: "B = B1 @ B2 @ B3" by (simp only: B1_def B2_def B3_def)
  have l: "length B1 = 2" "length B2 = n" "length B3 = 8 * k - n" using assms by (simp_all add: B1_def B2_def B3_def)
  let ?h = "[0xff, of_nat (k - 1)] :: bytes"
  have 1: "poke (A @ B1 @ B2 @ B3 @ C) des ?h = Inr (A @ ?h @ B2 @ B3 @ C)"
    using poke_at [of A des B1 ?h "B2 @ B3 @ C"] assms(1) l by simp
  have 2: "poke (A @ ?h @ B2 @ B3 @ C) (des + 2) (take n src) = Inr (A @ ?h @ take n src @ B3 @ C)"
    using poke_at [of "A @ ?h" "des + 2" B2 "take n src" "B3 @ C"] assms(1,2,4,5) l by simp
  have 3: "poke (A @ ?h @ take n src @ B3 @ C) (des + n + 2) (replicate (8 * k - n) 0) =
      Inr (A @ ?h @ take n src @ replicate (8 * k - n) 0 @ C)"
    using poke_at [of "A @ ?h @ take n src" "des + n + 2" B3 "replicate (8 * k - n) 0" C] assms(1,2,4,5) l by simp
  show ?thesis using 1 2 3 assms(4) by (simp add: write_ff_def Let_def B assms(3) mult.commute)
qed

section \<open>The size of the output\<close>

text \<open>
  While the source lasts, a segment costs at most its eight bytes, a full run two bytes more, and so does
  the run that is open; a run that ends early is paid for by the short segment that ends it.
\<close>

definition pack_bound :: "nat \<Rightarrow> nat \<Rightarrow> nat \<Rightarrow> nat \<Rightarrow> bool" where
  "pack_bound srcsz i n sz =
     (if i \<le> srcsz then \<exists>full. 2048 * full + 8 * n \<le> i \<and> sz \<le> i + 2 * full + (if n > 0 then 2 else 0)
      else sz \<le> (srcsz + 2047) div 2048 * 2 + srcsz + 2)"

lemma full_runs:
  assumes "2048 * full < srcsz"
  shows "full + 1 \<le> (srcsz + 2047) div (2048 :: nat)"
proof -
  have "(full + 1) * 2048 \<le> srcsz + 2047" using assms by simp
  then show ?thesis by (simp add: less_eq_div_iff_mult_less_eq)
qed

lemma full_runs_le: "2048 * full \<le> srcsz \<Longrightarrow> full \<le> (srcsz + 2047) div (2048 :: nat)"
  by (simp add: less_eq_div_iff_mult_less_eq)

lemma pack_bound_start: "pack_bound srcsz i 0 sz \<Longrightarrow> i + 8 \<le> srcsz \<Longrightarrow> pack_bound srcsz (i + 8) 1 (sz + 10)"
  unfolding pack_bound_def by (auto split: if_splits)

lemma pack_bound_extend:
  assumes b: "pack_bound srcsz i n sz" and n: "0 < n" and i: "i < srcsz" "i + 8 \<le> srcsz + 2"
  shows "pack_bound srcsz (i + 8) (n + 1) (sz + 8)"
proof -
  from b i obtain full where f: "2048 * full + 8 * n \<le> i" "sz \<le> i + 2 * full + 2"
    using n by (auto simp: pack_bound_def)
  have "full + 1 \<le> (srcsz + 2047) div 2048" using full_runs [of full srcsz] f i by linarith
  then have "\<not> i + 8 \<le> srcsz \<Longrightarrow> sz + 8 \<le> (srcsz + 2047) div 2048 * 2 + srcsz + 2" using f i by linarith
  moreover have "2048 * full + 8 * (n + 1) \<le> i + 8 \<and> sz + 8 \<le> i + 8 + 2 * full + 2" using f by simp
  ultimately show ?thesis by (auto simp: pack_bound_def)
qed

lemma pack_bound_full:
  assumes b: "pack_bound srcsz i 255 sz" and i: "i < srcsz" "i + 8 \<le> srcsz + 2"
  shows "pack_bound srcsz (i + 8) 0 (sz + 8)"
proof -
  from b i obtain full where f: "2048 * full + 2040 \<le> i" "sz \<le> i + 2 * full + 2"
    by (auto simp: pack_bound_def)
  have "full + 1 \<le> (srcsz + 2047) div 2048" using full_runs [of full srcsz] f i by linarith
  then have "\<not> i + 8 \<le> srcsz \<Longrightarrow> sz + 8 \<le> (srcsz + 2047) div 2048 * 2 + srcsz + 2" using f i by linarith
  moreover have "2048 * (full + 1) \<le> i + 8 \<and> sz + 8 \<le> i + 8 + 2 * (full + 1)" using f by simp
  ultimately show ?thesis by (auto simp: pack_bound_def intro!: exI [of _ "full + 1"])
qed

lemma pack_bound_seg:
  assumes b: "pack_bound srcsz i n sz" and z: "z < (if n = 0 then 8 else 6)" "z \<le> srcsz - i" and i: "i < srcsz"
  shows "pack_bound srcsz (i + 8) 0 (sz + (z + 1))"
proof -
  from b i obtain full where f: "2048 * full + 8 * n \<le> i" "sz \<le> i + 2 * full + (if n > 0 then 2 else 0)"
    by (auto simp: pack_bound_def)
  have "sz + (z + 1) \<le> (srcsz + 2047) div 2048 * 2 + srcsz + 2"
    using full_runs [of full srcsz] f z i by (auto split: if_splits)
  moreover have "2048 * full \<le> i + 8 \<and> sz + (z + 1) \<le> i + 8 + 2 * full" using f z by (auto split: if_splits)
  ultimately show ?thesis by (auto simp: pack_bound_def)
qed

lemma pack_bound_end:
  assumes "pack_bound srcsz i n sz" "i \<ge> srcsz"
  shows "sz \<le> (srcsz + 2047) div 2048 * 2 + srcsz + 2"
proof (cases "i \<le> srcsz")
  case True
  then obtain full where "2048 * full + 8 * n \<le> srcsz" "sz \<le> srcsz + 2 * full + (if n > 0 then 2 else 0)"
    using assms by (auto simp: pack_bound_def)
  then show ?thesis using full_runs_le [of full srcsz] by (auto split: if_splits)
next
  case False
  then show ?thesis using assms by (simp add: pack_bound_def)
qed

section \<open>The packer yields the format\<close>

text \<open>
  What \<open>j\<close> bytes of content must be: the source, and zeros behind its end; or the memory itself, for at
  most two bytes behind the end.
\<close>

definition content_of :: "bytes \<Rightarrow> nat \<Rightarrow> nat \<Rightarrow> bytes \<Rightarrow> bool" where
  "content_of mem srcsz j d =
     (j \<le> srcsz + 2 \<and> d = take j mem \<or> srcsz < j \<and> d = take srcsz mem @ replicate (j - srcsz) 0)"

definition pending :: "pack_state \<Rightarrow> nat" where
  "pending st = (if ff_n st = 0 then 0 else 2 + 8 * ff_n st)"

definition pack_inv :: "bytes \<Rightarrow> nat \<Rightarrow> nat \<Rightarrow> nat \<Rightarrow> pack_state \<Rightarrow> bool" where
  "pack_inv mem srcsz bufsz i st =
     (i < srcsz + 8 \<and> bufsz \<le> length (pk_buf st) \<and> int (pk_size st) + pk_bufsz st = int bufsz \<and>
      ff_n st < 256 \<and> 8 * ff_n st \<le> i \<and> pending st \<le> pk_size st \<and>
      (ff_n st > 0 \<longrightarrow> ff_offset st = i - 8 * ff_n st \<and> ff_srcstart st = drop (ff_offset st) mem \<and>
         ff_desstart st = pk_size st - pending st \<and> i \<le> srcsz + 2) \<and>
      (pk_bufsz st \<ge> 0 \<longrightarrow>
         (\<exists>d. packs (take (pk_size st - pending st) (pk_buf st)) d \<and> content_of mem srcsz (i - 8 * ff_n st) d)) \<and>
      pack_bound srcsz i (ff_n st) (pk_size st))"

definition segment :: "bytes \<Rightarrow> nat \<Rightarrow> nat \<Rightarrow> bytes" where
  "segment mem srcsz i = take 8 (take (srcsz - i) (drop i mem) @ replicate (i + 8 - srcsz) 0)"

lemma content_of_run:
  assumes "content_of mem srcsz j d" "j < srcsz" "j + 8 * k \<le> srcsz + 2"
  shows "content_of mem srcsz (j + 8 * k) (d @ take (8 * k) (drop j mem))"
  using assms by (simp add: content_of_def take_add)

lemma content_of_segment:
  assumes c: "content_of mem srcsz j d" "j < srcsz" and m: "srcsz \<le> length mem"
  shows "content_of mem srcsz (j + 8) (d @ segment mem srcsz j)"
proof (cases "j + 8 \<le> srcsz")
  case True
  then show ?thesis using assms by (simp add: content_of_def segment_def take_add)
next
  case False
  have "take srcsz mem = take j mem @ take (srcsz - j) (drop j mem)" using c take_add [of j "srcsz - j" mem] by simp
  then show ?thesis using assms False by (simp add: content_of_def segment_def add.commute [of j])
qed

lemma length_segment: "srcsz \<le> length mem \<Longrightarrow> i < srcsz \<Longrightarrow> length (segment mem srcsz i) = 8"
  by (simp add: segment_def)

lemma segment_nonzero:
  assumes "srcsz \<le> length mem" "i < srcsz"
  shows "length (nonzero (segment mem srcsz i)) \<le> srcsz - i"
proof -
  have "nonzero (segment mem srcsz i) = nonzero (take 8 (take (srcsz - i) (drop i mem)))"
    by (simp add: segment_def nonzero_def take_append)
  then show ?thesis using nonzero_le [of "take 8 (take (srcsz - i) (drop i mem))"] assms by simp
qed

lemma segment_packs:
  assumes "srcsz \<le> length mem" "i < srcsz" "length (nonzero (segment mem srcsz i)) < 8"
  defines "b \<equiv> segment mem srcsz i"
  shows "packs (seg_mask 0 b # nonzero b) b"
proof -
  have l: "length b = 8" using length_segment assms by simp
  then have "nonzero b \<noteq> b" using assms(3) by (auto simp: b_def)
  then have "0 \<in> set b" using all_nonzero by blast
  then show ?thesis by (rule packs_one_seg [OF l])
qed

text \<open>The state after one iteration, by what the segment is.\<close>

lemma pack_step_seg:
  assumes inv: "pack_inv mem srcsz bufsz i st" and i: "i < srcsz" and m: "srcsz \<le> length mem"
  defines "z \<equiv> length (nonzero (segment mem srcsz i))"
  defines "c \<equiv> seg_cost z (ff_n st)"
  obtains buf where "pack_step mem srcsz i st = pack_advance i (padded_src mem srcsz i) st c buf"
    "length buf = length (pk_buf st)" "take (pk_size st) buf = take (pk_size st) (pk_buf st)"
    "z < (if ff_n st = 0 then 8 else 6) \<Longrightarrow> int c \<le> pk_bufsz st \<Longrightarrow>
       take c (drop (pk_size st) buf) = seg_mask 0 (segment mem srcsz i) # nonzero (segment mem srcsz i)"
proof -
  let ?src = "padded_src mem srcsz i"
  have t: "take 8 ?src = segment mem srcsz i" using i m by (auto simp: padded_src_def segment_def min_def take_append Let_def)
  have l: "8 \<le> length ?src" using i m by (auto simp: padded_src_def Let_def)
  have r: "pk_bufsz st \<le> int (length (pk_buf st)) - int (pk_size st)" using inv by (simp add: pack_inv_def)
  from pack_seg_ok [OF l r, of "ff_n st", unfolded t] show thesis
    using that by (auto simp: c_def z_def pack_step_def Let_def)
qed

lemma flush_ff_ok:
  assumes "0 < k" "des + (2 + 8 * k) = e" "e \<le> length (pk_buf st)" "8 * k \<le> length (ff_srcstart st)" "pk_bufsz st \<ge> 0"
    "ff_desstart st = des" "take des (pk_buf st) = F"
  shows "flush_ff (8 * k) st = Inr (st\<lparr>pk_buf := F @
    (0xff # of_nat (k - 1) # take (8 * k) (ff_srcstart st)) @ drop e (pk_buf st), ff_n := 0\<rparr>)"
proof -
  let ?B = "take (2 + 8 * k) (drop des (pk_buf st))" and ?C = "drop (des + (2 + 8 * k)) (pk_buf st)"
  have "pk_buf st = take des (pk_buf st) @ ?B @ ?C" by (metis append_take_drop_id drop_drop add.commute)
  then have 1: "pk_buf st = F @ ?B @ ?C" using assms(7) by simp
  have "write_ff (ff_srcstart st) (F @ ?B @ ?C) des (8 * k) =
      Inr (F @ (0xff # of_nat (k - 1) # take (8 * k) (ff_srcstart st) @ replicate (8 * k - 8 * k) 0) @ ?C)"
    by (rule write_ff_at) (use assms in auto)
  then have "write_ff (ff_srcstart st) (pk_buf st) des (8 * k) = Inr (F @ (0xff # of_nat (k - 1) # take (8 * k) (ff_srcstart st)) @ drop e (pk_buf st))"
    unfolding assms(2) [symmetric] using 1 by simp
  then show ?thesis using assms(5,6) by (simp add: flush_ff_def)
qed

lemma pack_step_start:
  assumes inv: "pack_inv mem srcsz bufsz i st" and i: "i < srcsz" and m: "srcsz + 2 \<le> length mem"
    and z: "length (nonzero (segment mem srcsz i)) = 8" "ff_n st = 0"
  shows "\<exists>st'. pack_step mem srcsz i st = Inr st' \<and> pack_inv mem srcsz bufsz (i + 8) st'"
proof -
  have m': "srcsz \<le> length mem" using m by simp
  from pack_step_seg [OF inv i m'] obtain buf where
    s: "pack_step mem srcsz i st = pack_advance i (padded_src mem srcsz i) st 10 buf"
    and b: "length buf = length (pk_buf st)" "take (pk_size st) buf = take (pk_size st) (pk_buf st)"
    unfolding seg_cost_def z by auto
  have i8: "i + 8 \<le> srcsz" using segment_nonzero [OF m' i] z by linarith
  have "pack_step mem srcsz i st = Inr (st\<lparr>pk_buf := buf, pk_bufsz := pk_bufsz st - 10, ff_srcstart := drop i mem, ff_offset := i,
      ff_desstart := pk_size st, ff_n := 1, pk_size := pk_size st + 10\<rparr>)"
    using i8 by (simp add: s pack_advance_def padded_src_def)
  moreover have "pack_bound srcsz (i + 8) 1 (pk_size st + 10)"
    using pack_bound_start [OF _ i8, of "pk_size st"] inv z by (simp add: pack_inv_def)
  ultimately show ?thesis using inv z i8 b by (auto simp: pack_inv_def pending_def)
qed

lemma pack_step_extend:
  assumes inv: "pack_inv mem srcsz bufsz i st" and i: "i < srcsz" and m: "srcsz + 2 \<le> length mem"
    and z: "6 \<le> length (nonzero (segment mem srcsz i))" "0 < ff_n st"
  shows "\<exists>st'. pack_step mem srcsz i st = Inr st' \<and> pack_inv mem srcsz bufsz (i + 8) st'"
proof -
  have m': "srcsz \<le> length mem" using m by simp
  from pack_step_seg [OF inv i m'] obtain buf where
    s: "pack_step mem srcsz i st = pack_advance i (padded_src mem srcsz i) st 8 buf"
    and b: "length buf = length (pk_buf st)" "take (pk_size st) buf = take (pk_size st) (pk_buf st)"
    using z by (auto simp: seg_cost_def)
  have i8: "i + 8 \<le> srcsz + 2" using segment_nonzero [OF m' i] z by linarith
  define k where "k = ff_n st"
  define st2 where "st2 = st\<lparr>pk_buf := buf, pk_bufsz := pk_bufsz st - 8, ff_n := k + 1\<rparr>"
  have step: "pack_step mem srcsz i st =
      res_bind (if k + 1 = 256 then flush_ff (256 * 8) st2 else Inr st2) (\<lambda>st3. Inr (st3\<lparr>pk_size := pk_size st + 8\<rparr>))"
    using z by (simp add: s pack_advance_def Let_def st2_def k_def)
  have k: "0 < k" "k < 256" "8 * k \<le> i" "pending st = 2 + 8 * k" "2 + 8 * k \<le> pk_size st"
    "ff_offset st = i - 8 * k" "ff_srcstart st = drop (i - 8 * k) mem" "ff_desstart st = pk_size st - (2 + 8 * k)"
    using inv z by (auto simp: pack_inv_def pending_def k_def)
  have sz: "bufsz \<le> length (pk_buf st)" "int (pk_size st) + pk_bufsz st = int bufsz" using inv by (simp_all add: pack_inv_def)
  let ?fl = "pk_size st - (2 + 8 * k)"
  have pre: "take ?fl buf = take ?fl (pk_buf st)" using arg_cong [OF b(2), of "take ?fl"] by (simp add: min_def)
  have c: "pk_bufsz st \<ge> 8 \<Longrightarrow> \<exists>d. packs (take ?fl (pk_buf st)) d \<and> content_of mem srcsz (i - 8 * k) d"
    using inv k by (simp add: pack_inv_def k_def)
  show ?thesis
  proof (cases "k + 1 = 256")
    case False
    have "pack_bound srcsz (i + 8) (k + 1) (pk_size st + 8)"
      using pack_bound_extend [of srcsz i k "pk_size st"] inv k i i8 by (simp add: pack_inv_def k_def)
    then have "pack_inv mem srcsz bufsz (i + 8) (st2\<lparr>pk_size := pk_size st + 8\<rparr>)"
      using k i8 sz c b(1) pre False i by (auto simp: pack_inv_def st2_def pending_def)
    then show ?thesis using step False by simp
  next
    case full: True
    then have bd: "pack_bound srcsz (i + 8) 0 (pk_size st + 8)"
      using pack_bound_full [of srcsz i "pk_size st"] inv i i8 by (simp add: pack_inv_def k_def)
    show ?thesis
    proof (cases "pk_bufsz st \<ge> 8")
      case False
      then have "flush_ff (256 * 8) st2 = Inr (st2\<lparr>ff_n := 0\<rparr>)" by (simp add: flush_ff_def st2_def)
      moreover have "pack_inv mem srcsz bufsz (i + 8) (st2\<lparr>ff_n := 0, pk_size := pk_size st + 8\<rparr>)"
        using k i8 sz b(1) False i bd by (auto simp: pack_inv_def st2_def pending_def)
      ultimately show ?thesis using step full by simp
    next
      case room: True
      let ?run = "take 2048 (drop (i - 2040) mem)"
      let ?buf = "take ?fl (pk_buf st) @ (0xff # 255 # ?run) @ drop (?fl + 2050) buf"
      have kk: "k = 255" using full by simp
      have "flush_ff (8 * 256) st2 = Inr (st2\<lparr>pk_buf := ?buf, ff_n := 0\<rparr>)"
        using flush_ff_ok [of 256 ?fl "?fl + 2050" st2 "take ?fl (pk_buf st)"] k kk sz b room i8 i m pre by (simp add: st2_def)
      moreover obtain d where d: "packs (take ?fl (pk_buf st)) d" "content_of mem srcsz (i - 2040) d" using c [OF room] kk by auto
      have "packs (take ?fl (pk_buf st) @ (0xff # 255 # ?run)) (d @ ?run)"
        using packs_append [OF d(1) packs_one_run [of ?run 256]] i8 m k kk by simp
      moreover have "content_of mem srcsz (i + 8) (d @ ?run)"
        using content_of_run [OF d(2), of 256] i i8 k kk by (simp add: add.commute)
      moreover have "take (pk_size st + 8) ?buf = take ?fl (pk_buf st) @ (0xff # 255 # ?run)"
        using k kk sz room i8 m by simp
      ultimately have "flush_ff (256 * 8) st2 = Inr (st2\<lparr>pk_buf := ?buf, ff_n := 0\<rparr>)"
        "pack_inv mem srcsz bufsz (i + 8) (st2\<lparr>pk_buf := ?buf, ff_n := 0, pk_size := pk_size st + 8\<rparr>)"
        using k i8 sz b(1) i bd m kk room by (auto simp: pack_inv_def st2_def pending_def)
      then show ?thesis using step full by simp
    qed
  qed
qed

lemma pack_step_seg_plain:
  assumes inv: "pack_inv mem srcsz bufsz i st" and i: "i < srcsz" and m: "srcsz + 2 \<le> length mem"
    and z: "length (nonzero (segment mem srcsz i)) < 8" "ff_n st = 0"
  shows "\<exists>st'. pack_step mem srcsz i st = Inr st' \<and> pack_inv mem srcsz bufsz (i + 8) st'"
proof -
  have m': "srcsz \<le> length mem" using m by simp
  let ?b = "segment mem srcsz i"
  define c where "c = length (nonzero ?b) + 1"
  from pack_step_seg [OF inv i m'] z obtain buf where
    s: "pack_step mem srcsz i st = pack_advance i (padded_src mem srcsz i) st c buf"
    and b: "length buf = length (pk_buf st)" "take (pk_size st) buf = take (pk_size st) (pk_buf st)"
    and w: "int c \<le> pk_bufsz st \<Longrightarrow> take c (drop (pk_size st) buf) = seg_mask 0 ?b # nonzero ?b"
    by (auto simp: seg_cost_def c_def)
  let ?st = "st\<lparr>pk_buf := buf, pk_bufsz := pk_bufsz st - int c, pk_size := pk_size st + c\<rparr>"
  have step: "pack_step mem srcsz i st = Inr ?st"
    using z by (auto simp: s pack_advance_def c_def)
  have bd: "pack_bound srcsz (i + 8) 0 (pk_size st + c)"
    using pack_bound_seg [of srcsz i 0 "pk_size st" "c - 1"] inv z segment_nonzero [OF m' i] i
    by (simp add: pack_inv_def c_def)
  have seg: "packs (seg_mask 0 ?b # nonzero ?b) ?b" using segment_packs [OF m' i] z by simp
  have ct: "\<exists>d. packs (take (pk_size st + c) buf) d \<and> content_of mem srcsz (i + 8) d" if room: "int c \<le> pk_bufsz st"
  proof -
    obtain d where d: "packs (take (pk_size st) (pk_buf st)) d" "content_of mem srcsz i d"
      using inv z order_trans [OF of_nat_0_le_iff room] by (auto simp: pack_inv_def pending_def)
    have "take (pk_size st + c) buf = take (pk_size st) (pk_buf st) @ (seg_mask 0 ?b # nonzero ?b)"
      using w [OF room] b(2) by (simp add: take_add)
    then show ?thesis using packs_append [OF d(1) seg] content_of_segment [OF d(2) i m'] by metis
  qed
  show ?thesis using step inv z i b(1) ct bd by (auto simp: pack_inv_def pending_def)
qed

lemma pack_step_seg_flush:
  assumes inv: "pack_inv mem srcsz bufsz i st" and i: "i < srcsz" and m: "srcsz + 2 \<le> length mem"
    and z: "length (nonzero (segment mem srcsz i)) < 6" "0 < ff_n st"
  shows "\<exists>st'. pack_step mem srcsz i st = Inr st' \<and> pack_inv mem srcsz bufsz (i + 8) st'"
proof -
  have m': "srcsz \<le> length mem" using m by simp
  let ?b = "segment mem srcsz i"
  define c where "c = length (nonzero ?b) + 1"
  from pack_step_seg [OF inv i m'] z obtain buf where
    s: "pack_step mem srcsz i st = pack_advance i (padded_src mem srcsz i) st c buf"
    and b: "length buf = length (pk_buf st)" "take (pk_size st) buf = take (pk_size st) (pk_buf st)"
    and w: "int c \<le> pk_bufsz st \<Longrightarrow> take c (drop (pk_size st) buf) = seg_mask 0 ?b # nonzero ?b"
    by (auto simp: seg_cost_def c_def)
  define k where "k = ff_n st"
  define st1 where "st1 = st\<lparr>pk_buf := buf, pk_bufsz := pk_bufsz st - int c\<rparr>"
  have step: "pack_step mem srcsz i st = res_bind (flush_ff (8 * k) st1) (\<lambda>st3. Inr (st3\<lparr>pk_size := pk_size st + c\<rparr>))"
    using z by (auto simp: s pack_advance_def c_def st1_def k_def mult.commute)
  have k: "0 < k" "k < 256" "8 * k \<le> i" "pending st = 2 + 8 * k" "2 + 8 * k \<le> pk_size st"
    "ff_srcstart st = drop (i - 8 * k) mem" "ff_desstart st = pk_size st - (2 + 8 * k)"
    using inv z by (auto simp: pack_inv_def pending_def k_def)
  have sz: "bufsz \<le> length (pk_buf st)" "int (pk_size st) + pk_bufsz st = int bufsz" using inv by (simp_all add: pack_inv_def)
  have bd: "pack_bound srcsz (i + 8) 0 (pk_size st + c)"
    using pack_bound_seg [of srcsz i k "pk_size st" "c - 1"] inv z segment_nonzero [OF m' i] i
    by (simp add: pack_inv_def c_def k_def)
  show ?thesis
  proof (cases "int c \<le> pk_bufsz st")
    case False
    then have "flush_ff (8 * k) st1 = Inr (st1\<lparr>ff_n := 0\<rparr>)" by (simp add: flush_ff_def st1_def)
    moreover have "pack_inv mem srcsz bufsz (i + 8) (st1\<lparr>ff_n := 0, pk_size := pk_size st + c\<rparr>)"
      using sz b(1) False i bd by (auto simp: pack_inv_def st1_def pending_def)
    ultimately show ?thesis using step by simp
  next
    case room: True
    let ?fl = "pk_size st - (2 + 8 * k)" and ?run = "take (8 * k) (drop (i - 8 * k) mem)"
    let ?F = "take ?fl (pk_buf st)" and ?lit = "seg_mask 0 ?b # nonzero ?b"
    let ?buf = "?F @ (0xff # of_nat (k - 1) # ?run) @ drop (pk_size st) buf"
    have seg: "packs ?lit ?b" using segment_packs [OF m' i] z by simp
    have pre: "take ?fl buf = ?F" using arg_cong [OF b(2), of "take ?fl"] by (simp add: min_def)
    have lr: "length ?run = 8 * k" using k i m by simp
    have fl: "flush_ff (8 * k) st1 = Inr (st1\<lparr>pk_buf := ?buf, ff_n := 0\<rparr>)"
      using flush_ff_ok [of k ?fl "pk_size st" st1 ?F] k sz b(1) room i m pre by (simp add: st1_def)
    obtain d where d: "packs ?F d" "content_of mem srcsz (i - 8 * k) d"
      using inv order_trans [OF of_nat_0_le_iff room] k(4) by (auto simp: pack_inv_def k_def)
    have p: "packs ((?F @ (0xff # of_nat (k - 1) # ?run)) @ ?lit) ((d @ ?run) @ ?b)"
      using packs_append [OF packs_append [OF d(1) packs_one_run [OF lr k(1)]] seg] k by simp
    have ct: "content_of mem srcsz (i + 8) ((d @ ?run) @ ?b)"
      using content_of_segment [OF content_of_run [OF d(2), of k], of ] i k m by simp
    have "length ?F = ?fl" using k sz room by simp
    then have "take (pk_size st + c) ?buf = (?F @ (0xff # of_nat (k - 1) # ?run)) @ take c (drop (pk_size st) buf)"
      using lr k by simp
    then have "take (pk_size st + c) ?buf = (?F @ (0xff # of_nat (k - 1) # ?run)) @ ?lit" by (simp only: w [OF room])
    then have "\<exists>d. packs (take (pk_size st + c) ?buf) d \<and> content_of mem srcsz (i + 8) d" using p ct by metis
    moreover have "length ?buf = length (pk_buf st)" using lr k sz room b(1) by simp
    ultimately have "pack_inv mem srcsz bufsz (i + 8) (st1\<lparr>pk_buf := ?buf, ff_n := 0, pk_size := pk_size st + c\<rparr>)"
      using sz i bd by (auto simp: pack_inv_def st1_def pending_def simp del: length_append take_append)
    then show ?thesis using step fl by simp
  qed
qed

lemma pack_step_ok:
  assumes inv: "pack_inv mem srcsz bufsz i st" and i: "i < srcsz" and m: "srcsz + 2 \<le> length mem"
  shows "\<exists>st'. pack_step mem srcsz i st = Inr st' \<and> pack_inv mem srcsz bufsz (i + 8) st'"
proof -
  let ?z = "length (nonzero (segment mem srcsz i))"
  have "?z \<le> 8" using nonzero_le [of "segment mem srcsz i"] length_segment [of srcsz mem i] m i by simp
  then consider "?z = 8" "ff_n st = 0" | "6 \<le> ?z" "0 < ff_n st" | "?z < 8" "ff_n st = 0" | "?z < 6" "0 < ff_n st"
    by linarith
  then show ?thesis
    using pack_step_start [OF assms] pack_step_extend [OF assms] pack_step_seg_plain [OF assms] pack_step_seg_flush [OF assms]
    by cases blast+
qed

lemma pack_loop_ok:
  assumes m: "srcsz + 2 \<le> length mem"
  shows "pack_inv mem srcsz bufsz i st \<Longrightarrow>
    \<exists>i' st'. pack_loop mem srcsz i st = Inr st' \<and> pack_inv mem srcsz bufsz i' st' \<and> srcsz \<le> i'"
proof (induction "srcsz + 8 - i" arbitrary: i st rule: less_induct)
  case less
  show ?case
  proof (cases "i < srcsz")
    case True
    obtain st' where st': "pack_step mem srcsz i st = Inr st'" "pack_inv mem srcsz bufsz (i + 8) st'"
      using pack_step_ok [OF less.prems True m] by blast
    then show ?thesis using less.hyps [of "i + 8" st'] True by (simp add: pack_loop.simps [of mem srcsz i])
  next
    case False
    then show ?thesis using less.prems by (auto simp: pack_loop.simps [of mem srcsz i])
  qed
qed

lemma content_of_last_run:
  assumes "content_of mem srcsz (i - 8 * k) d" "8 * k \<le> i" "1 \<le> k" "srcsz \<le> i" "i < srcsz + 8" "i \<le> srcsz + 2"
  defines "n \<equiv> if k = 1 then 8 else srcsz - (i - 8 * k)"
  shows "content_of mem srcsz i (d @ take n (drop (i - 8 * k) mem) @ replicate (8 * k - n) 0)"
proof (cases "k = 1 \<or> i = srcsz")
  case True
  then have "n = 8 * k" using assms(2-4) by (auto simp: n_def)
  then show ?thesis using content_of_run [OF assms(1), of k] assms(2-6) by auto
next
  case False
  then have n: "n = srcsz - (i - 8 * k)" and o: "i - 8 * k < srcsz" using assms(2-6) by (auto simp: n_def)
  have "take srcsz mem = take (i - 8 * k) mem @ take n (drop (i - 8 * k) mem)"
    using take_add [of "i - 8 * k" n mem] n o by simp
  moreover have "8 * k - n = i - srcsz" using n assms(2,4) o by simp
  ultimately show ?thesis using assms(1,4) o False by (auto simp: content_of_def)
qed

text \<open>
  What \<open>sproto_pack\<close> returns for a source with two bytes of memory behind it and any buffer: the
  size, which is bounded, and the format when it fits.
\<close>

lemma sproto_pack_ok:
  assumes m: "srcsz + 2 \<le> length mem" and b: "bufsz \<le> length buffer"
  obtains n buf where "sproto_pack mem srcsz buffer bufsz = Inr (n, buf)" "n \<le> (srcsz + 2047) div 2048 * 2 + srcsz + 2"
    "n \<le> bufsz \<Longrightarrow> \<exists>i d. packs (take n buf) d \<and> content_of mem srcsz i d \<and> srcsz \<le> i \<and> i < srcsz + 8"
proof -
  let ?st = "\<lparr>pk_buf = buffer, pk_bufsz = int bufsz, pk_size = 0, ff_srcstart = [], ff_offset = 0, ff_desstart = 0, ff_n = 0\<rparr>"
  have "pack_inv mem srcsz bufsz 0 ?st"
    using b packs_nil by (auto simp: pack_inv_def pending_def content_of_def pack_bound_def)
  from pack_loop_ok [OF m this] obtain i st where loop: "pack_loop mem srcsz 0 ?st = Inr st"
    and inv: "pack_inv mem srcsz bufsz i st" and i: "srcsz \<le> i" by blast
  have i8: "i < srcsz + 8" and sz: "bufsz \<le> length (pk_buf st)" "int (pk_size st) + pk_bufsz st = int bufsz"
    using inv by (simp_all add: pack_inv_def)
  have bd: "pk_size st \<le> (srcsz + 2047) div 2048 * 2 + srcsz + 2"
    using inv i pack_bound_end [of srcsz i] by (auto simp: pack_inv_def)
  show thesis
  proof (cases "pk_bufsz st \<ge> 0 \<and> ff_n st > 0")
    case False
    then have "sproto_pack mem srcsz buffer bufsz = Inr (pk_size st, pk_buf st)" using loop by (auto simp: sproto_pack_def)
    moreover have "\<exists>d. packs (take (pk_size st) (pk_buf st)) d \<and> content_of mem srcsz i d" if "pk_size st \<le> bufsz"
    proof -
      have "pk_bufsz st \<ge> 0" using that sz by linarith
      then show ?thesis using inv False by (auto simp: pack_inv_def pending_def)
    qed
    ultimately show ?thesis using that bd i i8 by blast
  next
    case True
    define k where "k = ff_n st"
    define n where "n = (if k = 1 then 8 else srcsz - (i - 8 * k))"
    define run where "run = take n (drop (i - 8 * k) mem) @ replicate (8 * k - n) 0"
    have k: "0 < k" "k < 256" "8 * k \<le> i" "pending st = 2 + 8 * k" "2 + 8 * k \<le> pk_size st" "i \<le> srcsz + 2"
      "ff_offset st = i - 8 * k" "ff_srcstart st = drop (i - 8 * k) mem" "ff_desstart st = pk_size st - (2 + 8 * k)"
      using inv True by (auto simp: pack_inv_def pending_def k_def)
    let ?fl = "pk_size st - (2 + 8 * k)"
    obtain d where d: "packs (take ?fl (pk_buf st)) d" "content_of mem srcsz (i - 8 * k) d"
      using inv True k(4) by (auto simp: pack_inv_def k_def)
    have nk: "(n + 7) div 8 = k" "n \<le> 8 * k" "n \<le> length (drop (i - 8 * k) mem)"
    proof -
      have "8 * (k - 1) < n \<and> n \<le> 8 * k" using k i i8 by (auto simp: n_def)
      then show "(n + 7) div 8 = k" "n \<le> 8 * k" using k by linarith+
      show "n \<le> length (drop (i - 8 * k) mem)" using k m i by (auto simp: n_def)
    qed
    let ?F = "take ?fl (pk_buf st)" and ?C = "drop (pk_size st) (pk_buf st)"
    have buf: "pk_buf st = ?F @ take (2 + 8 * k) (drop ?fl (pk_buf st)) @ ?C"
      using k by (metis append_take_drop_id drop_drop le_add_diff_inverse2 add.commute)
    have "pk_size st \<le> length (pk_buf st)" using sz True by linarith
    then have l: "length ?F = ?fl" "length (take (2 + 8 * k) (drop ?fl (pk_buf st))) = 2 + 8 * k" using k by simp_all
    have w: "write_ff (ff_srcstart st) (pk_buf st) (ff_desstart st) n = Inr (?F @ (0xff # of_nat (k - 1) # run) @ ?C)"
      using write_ff_at [OF l nk(1) _ nk(2), of "ff_srcstart st" ?C] buf nk(3) by (simp add: k(8,9) run_def)
    have lr: "length run = 8 * k" using nk by (simp add: run_def)
    have "packs (?F @ (0xff # of_nat (k - 1) # run)) (d @ run)"
      using packs_append [OF d(1) packs_one_run [OF lr k(1)]] k by simp
    moreover have "content_of mem srcsz i (d @ run)"
      using content_of_last_run [OF d(2) k(3) _ i i8 k(6)] k(1) by (simp add: n_def run_def)
    moreover have "take (pk_size st) (?F @ (0xff # of_nat (k - 1) # run) @ ?C) = ?F @ (0xff # of_nat (k - 1) # run)"
      using lr l(1) k by simp
    moreover have "sproto_pack mem srcsz buffer bufsz = Inr (pk_size st, ?F @ (0xff # of_nat (k - 1) # run) @ ?C)"
      unfolding sproto_pack_def loop res_bind_simps if_P [OF True] k_def [symmetric] k(7) n_def [symmetric] w
      by (rule if_P) (use True in \<open>simp add: k_def\<close>)
    ultimately show ?thesis using that [of "pk_size st" "?F @ (0xff # of_nat (k - 1) # run) @ ?C"] bd i i8 by metis
  qed
qed

section \<open>The unpacker inverts the format\<close>

lemma bit_test: "drop_bit i header AND 1 \<noteq> (0 :: u8) \<longleftrightarrow> bit header i"
  by (simp add: and_one_eq bit_iff_odd_drop_bit even_iff_mod_2_eq_zero)

lemma bit_seg_mask: "bit (seg_mask i cs) j \<longleftrightarrow> j < 8 \<and> i \<le> j \<and> j < i + length cs \<and> cs ! (j - i) \<noteq> 0"
proof (induction cs arbitrary: i)
  case (Cons c cs)
  have "bit (if c \<noteq> 0 then push_bit i 1 else (0 :: u8)) j \<longleftrightarrow> j < 8 \<and> c \<noteq> 0 \<and> i = j"
    by (auto simp: bit_simps)
  moreover have "cs ! (j - Suc i) = (c # cs) ! (j - i)" if "Suc i \<le> j" using that by (simp add: nth_Cons')
  ultimately show ?case using Cons.IH [of "i + 1"] by (cases "i = j") (auto simp: bit_or_iff)
qed simp

lemma seg_mask_bits: "length b = 8 \<Longrightarrow> list_all2 (\<lambda>i c. bit (seg_mask 0 b) i \<longleftrightarrow> c \<noteq> 0) [0..<8] b"
  by (auto simp: list_all2_conv_all_nth bit_seg_mask)

lemma seg_mask_not_ff: "length b = 8 \<Longrightarrow> 0 \<in> set b \<Longrightarrow> seg_mask 0 b \<noteq> 0xff"
proof
  assume b: "length b = 8" "0 \<in> set b" "seg_mask 0 b = 0xff"
  then obtain i where i: "i < 8" "b ! i = 0" by (auto simp: in_set_conv_nth)
  have "(0xff :: u8) = mask 8" by (simp add: mask_eq_exp_minus_1)
  then have "bit (0xff :: u8) i" using i(1) by (simp only: bit_mask_iff) simp
  then have "bit (seg_mask 0 b) i" by (simp only: b(3))
  then show False using i by (simp add: bit_seg_mask)
qed

lemma unpack_bits_ok:
  assumes "list_all2 (\<lambda>i c. bit header i \<longleftrightarrow> c \<noteq> 0) is bs" "int (length (nonzero bs)) \<le> srcsz"
    "bufsz \<le> int (length buf) - int p"
  shows "\<exists>buf' p' bufsz'. unpack_bits is header (nonzero bs @ rest) srcsz buf p bufsz =
      Inr (Some (rest, srcsz - int (length (nonzero bs)), buf', p', bufsz')) \<and>
    length buf' = length buf \<and> bufsz' \<le> int (length buf) - int p' \<and>
    (int (length bs) \<le> bufsz \<longrightarrow>
       buf' = take p buf @ bs @ drop (p + length bs) buf \<and> p' = p + length bs \<and> bufsz' = bufsz - int (length bs))"
  using assms
proof (induction arbitrary: srcsz buf p bufsz rule: list_all2_induct)
  case Nil
  then show ?case by (simp add: nonzero_def)
next
  case (Cons i "is" c bs)
  have nz: "nonzero (c # bs) @ rest = (if c \<noteq> 0 then c # nonzero bs @ rest else nonzero bs @ rest)"
    "length (nonzero (c # bs)) = (if c \<noteq> 0 then Suc (length (nonzero bs)) else length (nonzero bs))"
    by (simp_all add: nonzero_def)
  let ?n = "length (nonzero bs)" and ?sz = "if c \<noteq> 0 then srcsz - 1 else srcsz"
  have srcsz: "int ?n \<le> ?sz" using Cons.prems(1) nz(2) by (simp split: if_splits)
  show ?case
  proof (cases "bufsz > 0")
    case True
    then have p: "p < length buf" using Cons.prems(2) by linarith
    define buf1 where "buf1 = take p buf @ [c] @ drop (p + 1) buf"
    have l1: "length buf1 = length buf" using p by (simp add: buf1_def)
    have pk: "poke buf p [c] = Inr buf1" using p by (simp add: poke_ok buf1_def)
    have "bufsz - 1 \<le> int (length buf1) - int (p + 1)" using Cons.prems(2) l1 by simp
    from Cons.IH [OF srcsz this] obtain buf' p' bufsz' where
      e: "unpack_bits is header (nonzero bs @ rest) ?sz buf1 (p + 1) (bufsz - 1) = Inr (Some (rest, ?sz - int ?n, buf', p', bufsz'))"
      and r: "length buf' = length buf1" "bufsz' \<le> int (length buf1) - int p'"
      and w: "int (length bs) \<le> bufsz - 1 \<Longrightarrow> buf' = take (p + 1) buf1 @ bs @ drop (p + 1 + length bs) buf1 \<and>
        p' = p + 1 + length bs \<and> bufsz' = bufsz - 1 - int (length bs)" by blast
    have "take (p + 1) buf1 = take p buf @ [c]" "drop (p + 1 + length bs) buf1 = drop (p + 1 + length bs) buf"
      using p by (simp_all add: buf1_def add.commute)
    then have w': "int (length (c # bs)) \<le> bufsz \<Longrightarrow> buf' = take p buf @ (c # bs) @ drop (p + length (c # bs)) buf \<and>
        p' = p + length (c # bs) \<and> bufsz' = bufsz - int (length (c # bs))" using w by auto
    have "unpack_bits (i # is) header (nonzero (c # bs) @ rest) srcsz buf p bufsz =
        Inr (Some (rest, srcsz - int (length (nonzero (c # bs))), buf', p', bufsz'))"
      using e pk True Cons.hyps(1) Cons.prems(1) unfolding nz by (auto simp: bit_test)
    then show ?thesis using r l1 w' by (intro exI [of _ buf'] exI [of _ p'] exI [of _ bufsz']) auto
  next
    case False
    from Cons.IH [OF srcsz Cons.prems(2)] obtain buf' p' bufsz' where
      e: "unpack_bits is header (nonzero bs @ rest) ?sz buf p bufsz = Inr (Some (rest, ?sz - int ?n, buf', p', bufsz'))"
      and r: "length buf' = length buf" "bufsz' \<le> int (length buf) - int p'" by blast
    have "unpack_bits (i # is) header (nonzero (c # bs) @ rest) srcsz buf p bufsz =
        Inr (Some (rest, srcsz - int (length (nonzero (c # bs))), buf', p', bufsz'))"
      using e False Cons.hyps(1) Cons.prems(1) unfolding nz by (auto simp: bit_test)
    then show ?thesis using r False by (intro exI [of _ buf'] exI [of _ p'] exI [of _ bufsz']) auto
  qed
qed

lemma unpack_step_ff:
  assumes "(unat h + 1) * 8 = n"
  shows "unpack_step (0xff # h # src) srcsz buf q bufsz =
    (if srcsz < 1 \<or> srcsz < int n + 2 then Inr None
     else res_bind (if bufsz \<ge> int n then if length src < n then Inl (Out_of_bounds ''sproto_unpack'') else poke buf q (take n src) else Inr buf)
       (\<lambda>buf. Inr (Some (drop n src, srcsz - int n - 2, buf, q + n, bufsz - int n, n))))"
  unfolding unpack_step_def Let_def list.sel assms by simp

lemma unpack_run_step:
  assumes "length b = 8 * (k + 1)" "k < 256" "int (length b) + 2 \<le> srcsz" "bufsz \<le> int (length buf) - int q"
  shows "\<exists>buf'. unpack_step (0xff # of_nat k # b @ rest) srcsz buf q bufsz =
      Inr (Some (rest, srcsz - int (length b) - 2, buf', q + length b, bufsz - int (length b), length b)) \<and>
    length buf' = length buf \<and> (int (length b) \<le> bufsz \<longrightarrow> buf' = take q buf @ b @ drop (q + length b) buf)"
proof -
  have k: "(unat (of_nat k :: u8) + 1) * 8 = length b" using assms(1,2) by (simp add: unat_of_nat)
  show ?thesis
  proof (cases "int (length b) \<le> bufsz")
    case True
    then have "q + length b \<le> length buf" using assms(4) by linarith
    then show ?thesis using assms(3) True by (simp add: unpack_step_ff [OF k] poke_ok)
  next
    case False
    then show ?thesis using assms(3) by (simp add: unpack_step_ff [OF k])
  qed
qed

lemma unpack_seg_step:
  assumes "length b = 8" "0 \<in> set b" "int (length (nonzero b)) + 1 \<le> srcsz" "bufsz \<le> int (length buf) - int q"
  shows "\<exists>buf' q' bufsz'. unpack_step (seg_mask 0 b # nonzero b @ rest) srcsz buf q bufsz =
      Inr (Some (rest, srcsz - 1 - int (length (nonzero b)), buf', q', bufsz', length b)) \<and>
    length buf' = length buf \<and> bufsz' \<le> int (length buf) - int q' \<and>
    (int (length b) \<le> bufsz \<longrightarrow>
       buf' = take q buf @ b @ drop (q + length b) buf \<and> q' = q + length b \<and> bufsz' = bufsz - int (length b))"
proof -
  have "int (length (nonzero b)) \<le> srcsz - 1" using assms(3) by simp
  from unpack_bits_ok [OF seg_mask_bits [OF assms(1)] this assms(4), of rest] obtain buf' q' bufsz' where
    "unpack_bits [0..<8] (seg_mask 0 b) (nonzero b @ rest) (srcsz - 1) buf q bufsz =
      Inr (Some (rest, srcsz - 1 - int (length (nonzero b)), buf', q', bufsz'))"
    "length buf' = length buf \<and> bufsz' \<le> int (length buf) - int q' \<and>
     (int (length b) \<le> bufsz \<longrightarrow> buf' = take q buf @ b @ drop (q + length b) buf \<and> q' = q + length b \<and> bufsz' = bufsz - int (length b))"
    by blast
  then show ?thesis using seg_mask_not_ff [OF assms(1,2)] assms(1) by (simp add: unpack_step_def Let_def del: upt_rec_numeral)
qed

lemma unpack_loop_cons:
  assumes "0 < srcsz" "unpack_step src srcsz buf q bufsz = Inr (Some (src', srcsz', buf1, q1, bufsz1, length b))"
    "length buf1 = length buf" "bufsz \<le> int (length buf) - int q"
    "int (length b) \<le> bufsz \<longrightarrow> buf1 = take q buf @ b @ drop (q + length b) buf \<and> q1 = q + length b \<and> bufsz1 = bufsz - int (length b)"
    "\<exists>buf'. unpack_loop src' srcsz' buf1 q1 bufsz1 (sz + length b) = Inr (Some (sz + length b + length d), buf') \<and>
      length buf' = length buf1 \<and> (int (length d) \<le> bufsz1 \<longrightarrow> buf' = take q1 buf1 @ d @ drop (q1 + length d) buf1)"
  shows "\<exists>buf'. unpack_loop src srcsz buf q bufsz sz = Inr (Some (sz + length (b @ d)), buf') \<and> length buf' = length buf \<and>
     (int (length (b @ d)) \<le> bufsz \<longrightarrow> buf' = take q buf @ (b @ d) @ drop (q + length (b @ d)) buf)"
proof -
  obtain buf' where lp: "unpack_loop src' srcsz' buf1 q1 bufsz1 (sz + length b) = Inr (Some (sz + length b + length d), buf')"
    and r: "length buf' = length buf1" "int (length d) \<le> bufsz1 \<longrightarrow> buf' = take q1 buf1 @ d @ drop (q1 + length d) buf1"
    using assms(6) by blast
  have "unpack_loop src srcsz buf q bufsz sz = unpack_loop src' srcsz' buf1 q1 bufsz1 (sz + length b)"
    using assms(1,2) by (subst unpack_loop.simps) simp
  moreover have "buf' = take q buf @ (b @ d) @ drop (q + length (b @ d)) buf" if room: "int (length (b @ d)) \<le> bufsz"
  proof -
    have b: "buf1 = take q buf @ b @ drop (q + length b) buf" "q1 = q + length b" "bufsz1 = bufsz - int (length b)"
      using assms(5) room by auto
    have "q \<le> length buf" using assms(4) room by linarith
    then have "take q1 buf1 = take q buf @ b" "drop (q1 + length d) buf1 = drop (q + length b + length d) buf"
      by (simp_all add: b add.commute add.left_commute)
    then show ?thesis using r(2) b(3) room by (simp add: add.assoc)
  qed
  ultimately show ?thesis using lp r(1) assms(3) by (intro exI [of _ buf']) (simp add: add.assoc)
qed

text \<open>The unpacker reads a packed message to its end and no further, whatever follows it in memory.\<close>

lemma unpack_loop_ok:
  "packs p d \<Longrightarrow> bufsz \<le> int (length buf) - int q \<Longrightarrow>
   \<exists>buf'. unpack_loop (p @ rest) (int (length p)) buf q bufsz sz = Inr (Some (sz + length d), buf') \<and> length buf' = length buf \<and>
     (int (length d) \<le> bufsz \<longrightarrow> buf' = take q buf @ d @ drop (q + length d) buf)"
proof (induction arbitrary: buf q bufsz sz rule: packs.induct)
  case packs_nil
  then show ?case by (simp add: unpack_loop.simps [of rest 0])
next
  case (packs_run p d b k)
  let ?src = "0xff # of_nat k # b @ p"
  have n: "int (length ?src) - int (length b) - 2 = int (length p)" "int (length b) + 2 \<le> int (length ?src)" by simp_all
  from unpack_run_step [OF packs_run.hyps(2,3) n(2) packs_run.prems, of "p @ rest"] obtain buf1 where
    st: "unpack_step (?src @ rest) (int (length ?src)) buf q bufsz =
      Inr (Some (p @ rest, int (length p), buf1, q + length b, bufsz - int (length b), length b))"
    and l1: "length buf1 = length buf" and w1: "int (length b) \<le> bufsz \<longrightarrow> buf1 = take q buf @ b @ drop (q + length b) buf"
    unfolding n by auto
  have "bufsz - int (length b) \<le> int (length buf1) - int (q + length b)" using packs_run.prems l1 by simp
  from packs_run.IH [OF this] show ?case
    by (intro unpack_loop_cons [OF _ st l1 packs_run.prems]) (use w1 in simp_all)
next
  case (packs_seg p d b)
  let ?src = "seg_mask 0 b # nonzero b @ p"
  have n: "int (length ?src) - 1 - int (length (nonzero b)) = int (length p)" "int (length (nonzero b)) + 1 \<le> int (length ?src)"
    by simp_all
  from unpack_seg_step [OF packs_seg.hyps(2,3) n(2) packs_seg.prems, of "p @ rest"] obtain buf1 q1 bufsz1 where
    st: "unpack_step (?src @ rest) (int (length ?src)) buf q bufsz = Inr (Some (p @ rest, int (length p), buf1, q1, bufsz1, length b))"
    and l1: "length buf1 = length buf" and b1: "bufsz1 \<le> int (length buf) - int q1"
    and w1: "int (length b) \<le> bufsz \<longrightarrow> buf1 = take q buf @ b @ drop (q + length b) buf \<and> q1 = q + length b \<and> bufsz1 = bufsz - int (length b)"
    unfolding n by auto
  have "bufsz1 \<le> int (length buf1) - int q1" using b1 l1 by simp
  from packs_seg.IH [OF this] show ?case
    by (intro unpack_loop_cons [OF _ st l1 packs_seg.prems w1]) simp_all
qed

section \<open>The Lua functions\<close>

lemma expand_loop_ok:
  "0 < osz \<Longrightarrow> osz < nsz \<Longrightarrow> nsz \<le> 2 ^ 23 \<Longrightarrow> \<exists>r. expand_loop osz nsz = Some r \<and> nsz \<le> r \<and> r < 2 * nsz"
proof (induction "nat (nsz - osz)" arbitrary: osz rule: less_induct)
  case less
  have w: "signed_take_bit 31 (osz * 2) = osz * 2" using less.prems by (intro signed_take_bit_int_eq_self) auto
  show ?case
  proof (cases "osz * 2 < nsz")
    case True
    then have "\<exists>r. expand_loop (osz * 2) nsz = Some r \<and> nsz \<le> r \<and> r < 2 * nsz" using less.hyps [of "osz * 2"] less.prems by simp
    then show ?thesis using True by (simp add: expand_loop.simps [of osz] w)
  next
    case False
    then show ?thesis using less.prems by (simp add: expand_loop.simps [of osz] w)
  qed
qed

lemma expand_buffer_ok:
  assumes "\<And>n. length (alloc n) = n" "0 < osz" "osz < nsz" "nsz \<le> 2 ^ 23"
  obtains b where "expand_buffer alloc (int osz) (int nsz) = Some (Inr b)" "nsz \<le> length b"
proof -
  obtain r where r: "expand_loop (int osz) (int nsz) = Some r" "int nsz \<le> r" "r < 2 * int nsz"
    using expand_loop_ok [of "int osz" "int nsz"] assms by auto
  then have "r \<le> ENCODE_MAXSIZE" using assms(4) by (simp add: ENCODE_MAXSIZE_def)
  then show thesis using that [of "alloc (nat r)"] r assms(1) by (auto simp: expand_buffer_def)
qed

lemma content_of_string:
  assumes "content_of (s @ 0 # rest) (length s) i d" "rest \<noteq> []" "length s \<le> i"
  shows "\<exists>pad. d = s @ pad \<and> length pad = i - length s \<and> (pad = replicate (length pad) 0 \<or> pad = [0, hd rest])"
proof (cases "i \<le> length s + 2 \<and> d = take i (s @ 0 # rest)")
  case True
  then consider "i = length s" | "i = length s + 1" | "i = length s + 2" using assms(3) by linarith
  then show ?thesis using True assms(2) by cases (auto simp: take_Suc)
next
  case False
  then show ?thesis using assms(1) by (auto simp: content_of_def)
qed

lemma packs_length: "packs p d \<Longrightarrow> length d mod 8 = 0"
proof (induction rule: packs.induct)
  case (packs_run p d b k)
  then have "length (b @ d) = length d + 8 * (k + 1)" by simp
  then show ?case using packs_run.IH by (simp only: mod_mult_self2)
qed simp_all

lemma lpack_ok:
  assumes alloc: "\<And>n. length (alloc n) = n" and o: "output \<noteq> []" and s: "length s \<le> 8000000" "rest \<noteq> []"
  obtains p output1 pad where "lpack alloc output (s @ 0 # rest) (length s) = Some (Inr (Inr (p, output1)))"
    "length p \<le> (length s + 2047) div 2048 * 2 + length s + 2" "packs p (s @ pad)"
    "length pad < 8" "pad = replicate (length pad) 0 \<or> pad = [0, hd rest]"
proof -
  define maxsz where "maxsz = (length s + 2047) div 2048 * 2 + length s + 2"
  have "(length s + 2047) div 2048 \<le> 8002047 div 2048" using s(1) by (intro div_le_mono) simp
  then have m23: "maxsz \<le> 2 ^ 23" using s(1) by (simp add: maxsz_def)
  obtain out where out: "(if length output < maxsz then expand_buffer alloc (int (length output)) (int maxsz) else Some (Inr output)) = Some (Inr out)"
    "maxsz \<le> length out"
  proof (cases "length output < maxsz")
    case True
    then show thesis using expand_buffer_ok [OF alloc _ True m23] o that by (metis length_greater_0_conv)
  next
    case False
    then show thesis using that [of "output"] by simp
  qed
  have m: "length s + 2 \<le> length (s @ 0 # rest)" using s(2) by (cases rest) simp_all
  obtain n buf where n: "sproto_pack (s @ 0 # rest) (length s) out maxsz = Inr (n, buf)" "n \<le> maxsz"
    and pk: "\<exists>i d. packs (take n buf) d \<and> content_of (s @ 0 # rest) (length s) i d \<and> length s \<le> i \<and> i < length s + 8"
    using sproto_pack_ok [OF m out(2)] unfolding maxsz_def [symmetric] by metis
  then obtain i d where d: "packs (take n buf) d" "content_of (s @ 0 # rest) (length s) i d" "length s \<le> i" "i < length s + 8"
    by blast
  then obtain pad where pad: "d = s @ pad" "length pad = i - length s" "pad = replicate (length pad) 0 \<or> pad = [0, hd rest]"
    using content_of_string [OF d(2) s(2) d(3)] by blast
  have "lpack alloc output (s @ 0 # rest) (length s) = Some (Inr (Inr (take n buf, buf)))"
    unfolding lpack_def Let_def maxsz_def [symmetric] out(1) using n by simp
  then show thesis using that [of "take n buf" buf pad] n(2) d pad unfolding maxsz_def by simp
qed

lemma lunpack_ok:
  assumes alloc: "\<And>n. length (alloc n) = n" and o: "output \<noteq> []" and p: "packs p d" "length d \<le> 2 ^ 23"
  shows "\<exists>output'. lunpack alloc output (p @ rest) (length p) = Some (Inr (Inr (d, output')))"
proof -
  have up: "\<exists>buf'. sproto_unpack (p @ rest) (length p) buf n = Inr (Some (length d), buf') \<and> (length d \<le> n \<longrightarrow> take (length d) buf' = d)"
    if "n \<le> length buf" for buf n
    using unpack_loop_ok [OF p(1), of "int n" buf 0 rest 0] that by (auto simp: sproto_unpack_def)
  obtain buf1 where 1: "sproto_unpack (p @ rest) (length p) output (length output) = Inr (Some (length d), buf1)"
    "length d \<le> length output \<longrightarrow> take (length d) buf1 = d" using up by blast
  show ?thesis
  proof (cases "length output < length d")
    case False
    then show ?thesis using 1 by (simp add: lunpack_def)
  next
    case True
    obtain b where b: "expand_buffer alloc (int (length output)) (int (length d)) = Some (Inr b)" "length d \<le> length b"
      using expand_buffer_ok [OF alloc _ True p(2)] o by (metis length_greater_0_conv)
    obtain buf2 where "sproto_unpack (p @ rest) (length p) b (length d) = Inr (Some (length d), buf2)" "take (length d) buf2 = d"
      using up [OF b(2)] by blast
    then show ?thesis using 1 True b by (simp add: lunpack_def)
  qed
qed

text \<open>
  C28: packing and unpacking of sproto messages. Packing a string of up to 8 million bytes ends within
  the size that the caller computes, and unpacking the result gives the string, padded to a multiple of
  eight; the padding is zero, or it is the zero byte behind the string and the byte behind that, which
  the packer reads past the end of its source when a run of 256 segments ends with the string.
\<close>

theorem sproto_pack_roundtrip:
  assumes "\<And>n. length (alloc n) = n" "output1 \<noteq> []" "output2 \<noteq> []" "length s \<le> 8000000" "rest \<noteq> []"
  shows "\<exists>p buf1 buf2 pad. lpack alloc output1 (s @ 0 # rest) (length s) = Some (Inr (Inr (p, buf1))) \<and>
    length p \<le> (length s + 2047) div 2048 * 2 + length s + 2 \<and>
    lunpack alloc output2 (p @ rest2) (length p) = Some (Inr (Inr (s @ pad, buf2))) \<and>
    length pad < 8 \<and> (length s + length pad) mod 8 = 0 \<and> (pad = replicate (length pad) 0 \<or> pad = [0, hd rest])"
proof -
  obtain p buf1 pad where p: "lpack alloc output1 (s @ 0 # rest) (length s) = Some (Inr (Inr (p, buf1)))"
    "length p \<le> (length s + 2047) div 2048 * 2 + length s + 2" "packs p (s @ pad)"
    "length pad < 8" "pad = replicate (length pad) 0 \<or> pad = [0, hd rest]"
    using lpack_ok [OF assms(1,2,4,5)] by metis
  have "length (s @ pad) \<le> 2 ^ 23" using p(4) assms(4) by simp
  from lunpack_ok [OF assms(1,3) p(3) this] obtain buf2 where
    "lunpack alloc output2 (p @ rest2) (length p) = Some (Inr (Inr (s @ pad, buf2)))" by blast
  then show ?thesis using p packs_length [OF p(3)] by auto
qed

theorem sproto_pack_roundtrip_witness:
  "\<exists>p buf1 buf2 pad. lpack (\<lambda>n. replicate n 0) [0] ([1, 2, 0, 0, 5] @ 0 # [7]) (length ([1, 2, 0, 0, 5] :: bytes)) = Some (Inr (Inr (p, buf1))) \<and>
    lunpack (\<lambda>n. replicate n 0) [0] (p @ [0]) (length p) = Some (Inr (Inr ([1, 2, 0, 0, 5] @ pad, buf2))) \<and> length pad < 8"
  using sproto_pack_roundtrip [of "\<lambda>n. replicate n 0" "[0]" "[0]" "[1, 2, 0, 0, 5]" "[7]" "[0]"] by auto

text \<open>
  C29: the packer never stores outside its buffer. For a source with two bytes of memory behind it and a
  buffer of any size, \<open>sproto_pack\<close> returns without a fault, its result is at most the bound of \<open>lpack\<close>, and when
  the result fits into the buffer, the buffer holds the source in the packed format.
\<close>

theorem sproto_pack_in_bounds:
  assumes "srcsz + 2 \<le> length srcv" "bufsz \<le> length buffer"
  shows "\<exists>n buf. sproto_pack srcv srcsz buffer bufsz = Inr (n, buf) \<and> n \<le> (srcsz + 2047) div 2048 * 2 + srcsz + 2 \<and>
    (n \<le> bufsz \<longrightarrow> (\<exists>d. packs (take n buf) d \<and> take srcsz d = take srcsz srcv))"
proof -
  obtain n buf where n: "sproto_pack srcv srcsz buffer bufsz = Inr (n, buf)" "n \<le> (srcsz + 2047) div 2048 * 2 + srcsz + 2"
    "n \<le> bufsz \<Longrightarrow> \<exists>i d. packs (take n buf) d \<and> content_of srcv srcsz i d \<and> srcsz \<le> i \<and> i < srcsz + 8"
    using sproto_pack_ok [OF assms] by metis
  have "content_of srcv srcsz i d \<Longrightarrow> srcsz \<le> i \<Longrightarrow> take srcsz d = take srcsz srcv" for i d
    using assms(1) by (auto simp: content_of_def min_def)
  then show ?thesis using n by blast
qed

theorem sproto_pack_in_bounds_witness:
  "\<exists>n buf. sproto_pack [9, 0, 0, 1, 0, 0] 4 [0, 0] 2 = Inr (n, buf) \<and> n \<le> 8"
  using sproto_pack_in_bounds [of 4 "[9, 0, 0, 1, 0, 0]" 2 "[0, 0]"] by auto

text \<open>A truncated message is accepted when one byte is missing: the test is \<open>srcsz < 0\<close> where it must be \<open>srcsz <= 0\<close>.\<close>

lemma truncated_message_accepted: "sproto_unpack [1, 7] 1 (replicate 8 0) 8 = Inr (Some 8, [7, 0, 0, 0, 0, 0, 0, 0])"
  by code_simp

end
