(* ===== verification/Spec2Isabelle.thy ===== *)
theory Spec2Isabelle
  imports SocketMessages SocketBufferProps Stm Threads Scheduler KernelProps GateProps Netpack WsHandshake Seri Des Sha1Props HarborProps Cluster SprotoPackProps
begin

text \<open>
  \<^bold>\<open>Verification of the server core of jsmjServer.\<close>

  The repository is a game server on the skynet framework. The C part, which this library
  models, is the kernel of skynet (\<open>skynet/skynet-src\<close>), its C services (\<open>skynet/service-src\<close>),
  the C libraries of its Lua services (\<open>skynet/lualib-src\<close>) and the libraries that the game adds
  (\<open>lualib-src\<close>). Services are contexts with a message queue each. Worker threads take queues from
  a global queue and call the callback of the service for the messages in it. Timers and sockets
  produce messages; gates cut socket streams into packages; the serialiser turns Lua values into
  message bodies.

  \<^bold>\<open>Conventions.\<close> A C function is a HOL function over explicit state. A failing assertion, a bad
  pointer, an access out of bounds, a read of memory that was never written, an allocation that
  cannot succeed and a call of exit are values of the type \<open>fault\<close>; \<open>'a res\<close> is a fault or a
  result, and \<open>'a run\<close> adds \<open>None\<close> for a loop that does not end. Machine integers are words where
  wrap-around matters (handles, sessions, ticks, version counters, packed integers), otherwise
  natural numbers or integers with the width in the invariant. A critical section under a spin
  lock or a read-write lock is one function, and concurrency is the interleaving of such
  functions in an inductive step relation. Memory blocks are lists of bytes, lists of nodes are
  HOL lists where the code never shares them, and a map from addresses where it does (message
  queues, contexts).

  \<^bold>\<open>Theories.\<close>

  \<^item> \<open>Prelude\<close>: types, faults, ring buffers over a list with a head and a length, big-endian
    numbers; the interface locales \<open>fifo\<close> (a queue refines a list) and \<open>id_table\<close> (a registry of
    identifiers), which the components interpret on their own operations.
  \<^item> \<open>MessageQueue\<close> (\<open>skynet_mq.c\<close>): the ring of a service with expansion and the overload mark,
    the global queue as a linked list over addresses, marking and release. The ring is a \<open>fifo\<close>;
    releasing ends and drops every message.
  \<^item> \<open>Scheduler\<close> (\<open>skynet_context_message_dispatch\<close> of \<open>skynet_server.c\<close> over \<open>skynet_mq.c\<close>): the
    interleavings of the queue operations by any number of threads. By rule induction: a queue
    is held by one thread at most, a queue with messages is always scheduled, no assertion of
    \<open>skynet_mq.c\<close> fails.
  \<^item> \<open>CStrings\<close> (\<open>id_to_hex\<close>, \<open>copy_name\<close>, \<open>strtoul\<close>, decimal and hexadecimal formats).
  \<^item> \<open>HandleStorage\<close> (\<open>skynet_handle.c\<close>): slots with linear probing and doubling, the sorted name
    array with bisection. Registration, retirement and lookup form an \<open>id_table\<close>; names are a
    finite map.
  \<^item> \<open>Timer\<close> (\<open>skynet_timer.c\<close>): the five-level timing wheel over a 32 bit tick counter. A timer
    fires at its tick and in order, across cascades and wrap-around, also when other threads add
    timers between the critical sections of an update.
  \<^item> \<open>Modules\<close> (\<open>skynet_module.c\<close>), \<open>Kernel\<close> (contexts, references, sending, harbor switch,
    errors: \<open>skynet_server.c\<close>, \<open>skynet_harbor.c\<close>, \<open>skynet_error.c\<close>), \<open>Server\<close> (launching, the text
    commands, dispatch, environment, log, monitor, \<open>forward_message\<close>: \<open>skynet_server.c\<close>,
    \<open>skynet_env.c\<close>, \<open>skynet_log.c\<close>, \<open>skynet_monitor.c\<close>, \<open>skynet_socket.c\<close>, \<open>skynet_start.c\<close>), and
    \<open>KernelProps\<close> with what they promise together: delivery, launching, retirement, names,
    sessions, detection of endless loops.
  \<^item> \<open>HashId\<close> (\<open>hashid.h\<close>) and \<open>DataBuffer\<close> (\<open>databuffer.h\<close>): the id table and the input buffers
    of the gate; \<open>Gate\<close> (\<open>service_gate.c\<close>) and \<open>GateProps\<close>: the callback returns on every message
    and keeps the invariant, and what it forwards is what a parser of the whole stream gives.
  \<^item> \<open>Harbor\<close> (\<open>service_harbor.c\<close>) and \<open>HarborProps\<close>: the service that carries messages between nodes,
    over the kernel of \<open>Kernel\<close>. Its queues are a \<open>fifo\<close>, its callback ends and keeps the state well
    formed, and a message sent on one node arrives in the queue of the service on another.
  \<^item> \<open>PackQueue\<close>: what \<open>lua-netpack.c\<close> and \<open>lua-websocketnetpack.c\<close> share, a ring of packages (a
    \<open>fifo\<close>) and a table of unfinished packages (an \<open>id_table\<close>), and the locale \<open>splitter\<close>: if a
    filter does on each block what a decoder does, then what a service gets for a connection
    is what the decoder gives for its whole stream.
  \<^item> \<open>Netpack\<close> (\<open>lua-netpack.c\<close>): an interpretation of \<open>splitter\<close>, packing and splitting, clearing.
  \<^item> \<open>WsNetpack\<close> (\<open>lua-websocketnetpack.c\<close>), \<open>WsFrames\<close> (the interpretation of \<open>splitter\<close> with a
    byte-wise decoder), \<open>WsRfc\<close> (frames of RFC 6455 are delivered, the frames the server builds
    are such frames) and \<open>WsHandshake\<close> (the HTTP request; inputs that break the code).
  \<^item> \<open>Seri\<close> (\<open>lua-seri.c\<close>): packing Lua values and unpacking them.
  \<^item> \<open>Crypt\<close> and \<open>CryptProps\<close> (\<open>lua-crypt.c\<close> but DES): text encodings, hashes, Diffie-Hellman with
    64 bit arithmetic; \<open>Des\<close> (the DES of \<open>lua-crypt.c\<close>): decryption inverts encryption; \<open>Sha1\<close> and
    \<open>Sha1Props\<close> (\<open>lsha1.c\<close>): the hash is that of FIPS 180-4, the keyed hash that of RFC 2104.
  \<^item> \<open>Cluster\<close> (\<open>lua-cluster.c\<close>): requests and responses between nodes. The locale \<open>multipart\<close> says what
    a message cut into parts gives when its parts are joined; requests and responses interpret it.
  \<^item> \<open>SocketServer\<close> (\<open>socket_server.c\<close>): the table of sockets, the control pipe, write buffers of two
    priorities, commands, events and the calls of services; the answers of the system are arguments.
    \<open>SocketSafe\<close> and \<open>SocketLoop\<close>: every handler keeps the invariant of slots, pipe and pending events, and so
    does every interleaving of the loop with calls of services. \<open>SocketStream\<close>: what a TCP socket sends is
    the messages it was given. \<open>SocketProps\<close>: the theorems, and the abort that messages of low priority
    can cause.
  \<^item> \<open>SocketMessages\<close> (\<open>skynet_socket.c\<close>): the socket server over the kernel. What is read becomes a message
    of the service that owns the socket; a datagram is answered to its sender.
  \<^item> \<open>SocketBuffer\<close> and \<open>SocketBufferProps\<close> (the buffers of \<open>lua-socket.c\<close>): blocks in nodes of a shared pool,
    read by size or by line.
  \<^item> \<open>Threads\<close> (\<open>skynet_start.c\<close>): the threads of the process with the mutex and the condition variable on
    which idle workers sleep. A tick wakes a sleeper; after the last service is gone every worker ends.
  \<^item> \<open>Stm\<close> (\<open>lua-stm.c\<close>): messages shared between services, counted under a read-write lock. A copy lives
    exactly as long as someone holds it; one race touches freed memory.
  \<^item> \<open>SprotoPack\<close> (packing in \<open>sproto.c\<close> and \<open>lsproto.c\<close>) and \<open>SprotoPackProps\<close>: the wire format as a
    relation; the packer yields it within its bound, the unpacker inverts it.

  \<^bold>\<open>Bounds and fuel.\<close> Lua values are finite trees in \<open>Seri\<close>, so packing recurses over them (a
  cyclic table, which the code stops at depth 32, is not such a value). Unpacking has fuel,
  \<open>4 * length + 4\<close> steps, which the termination property shows to be enough. The id table of
  the gate is used up to \<open>2 ^ 30\<close> connections, the handle table up to \<open>2 ^ 24\<close> services, as in the
  code. Loops without a bound (emptying a queue, retiring all services, updating the clock) are
  partial functions, and that they return is proved. SHA-1 is shown for strings below \<open>2 ^ 29\<close>
  bytes, from where on the code counts wrongly. Words are loaded from memory with the lowest byte
  first.

  \<^bold>\<open>Parameters.\<close> Callbacks of services, the dynamic linker, what \<open>skynet_queryname\<close> and
  \<open>skynet_socket_listen\<close> answer to the gate, and the order in which \<open>lua_next\<close> enumerates a table
  are arguments. The calls a service makes into the socket layer are recorded as effects. The system
  calls of the socket server answer from lists; that \<open>epoll_wait\<close> reports each open socket at most once
  is the named hypothesis \<open>wait_ok\<close>.

  \<^bold>\<open>Not modelled.\<close> The command line and the daemon, \<open>do_bind\<close>, \<open>do_listen\<close> and the wrappers of \<open>epoll\<close>, which are
  system calls; the bindings of the kernel to Lua, the database drivers and the shared data libraries,
  which walk Lua states; the schemas of sproto; Lua, jemalloc and the JSON library, which are
  third-party code; the Lua scripts of the game.
\<close>

end
